(* ===== verification/Prelude.thy ===== *)
theory Prelude
  imports Main "HOL-Library.Word" "HOL-Library.Monad_Syntax" "HOL-Library.Multiset"
begin

text \<open>
  Shared vocabulary of the development: the C integer types, raw buffers and their
  little- and big-endian decoding, the half-interval search that four routines of the
  program use, \<open>memmove\<close> and array lemmas, and the contract of the C library's
  \<open>qsort\<close>.  A computation that may read outside a buffer has type \<open>'a ub\<close>; the value
  \<open>None\<close> stands for the undefined behaviour of the C program.
\<close>

unbundle bit_operations_syntax

type_synonym byte = "8 word"
type_synonym u16 = "16 word"
type_synonym u32 = "32 word"
type_synonym u64 = "64 word"
type_synonym blk64_t = "64 word"
type_synonym buffer = "byte list"
type_synonym 'a ub = "'a option"

named_theorems fmt_simps \<open>decoding of on-disk structures\<close>
named_theorems frame_simps \<open>fields an operation leaves alone\<close>

section \<open>Byte order\<close>

primrec le_val :: "byte list \<Rightarrow> nat" where
  "le_val [] = 0"
| "le_val (b # bs) = unat b + 256 * le_val bs"

definition be_val :: "byte list \<Rightarrow> nat" where
  "be_val bs = le_val (rev bs)"

definition sub_buf :: "buffer \<Rightarrow> nat \<Rightarrow> nat \<Rightarrow> byte list" where
  "sub_buf buf off n = take n (drop off buf)"

definition u8_at :: "buffer \<Rightarrow> nat \<Rightarrow> byte" where
  "u8_at buf off = of_nat (le_val (sub_buf buf off 1))"

definition le16_at :: "buffer \<Rightarrow> nat \<Rightarrow> u16" where
  "le16_at buf off = of_nat (le_val (sub_buf buf off 2))"

definition le32_at :: "buffer \<Rightarrow> nat \<Rightarrow> u32" where
  "le32_at buf off = of_nat (le_val (sub_buf buf off 4))"

definition be16_at :: "buffer \<Rightarrow> nat \<Rightarrow> u16" where
  "be16_at buf off = of_nat (be_val (sub_buf buf off 2))"

definition be32_at :: "buffer \<Rightarrow> nat \<Rightarrow> u32" where
  "be32_at buf off = of_nat (be_val (sub_buf buf off 4))"

text \<open>The encoders: what a writer of the on-disk format stores.\<close>

primrec le_bytes :: "nat \<Rightarrow> nat \<Rightarrow> byte list" where
  "le_bytes 0 v = []"
| "le_bytes (Suc n) v = of_nat (v mod 256) # le_bytes n (v div 256)"

definition be_bytes :: "nat \<Rightarrow> nat \<Rightarrow> byte list" where
  "be_bytes n v = rev (le_bytes n v)"

lemma le_bytes_numeral [simp]:
  "le_bytes (numeral k) v = of_nat (v mod 256) # le_bytes (pred_numeral k) (v div 256)"
  by (simp only: numeral_eq_Suc [of k] le_bytes.simps)

lemma length_le_bytes [simp]: "length (le_bytes n v) = n"
  by (induction n arbitrary: v) auto

lemma length_be_bytes [simp]: "length (be_bytes n v) = n"
  by (simp add: be_bytes_def)

lemma le_val_bytes [simp]: "le_val (le_bytes n v) = v mod 256 ^ n"
proof (induction n arbitrary: v)
  case 0
  then show ?case by simp
next
  case (Suc n)
  have "unat (of_nat (v mod 256) :: byte) = v mod 256"
    by (simp add: unat_of_nat)
  with Suc show ?case
    by (simp add: mod_mult2_eq add.commute)
qed

lemma be_val_bytes [simp]: "be_val (be_bytes n v) = v mod 256 ^ n"
  by (simp add: be_val_def be_bytes_def)

lemma le_val_less: "le_val bs < 256 ^ length bs"
proof (induction bs)
  case Nil
  then show ?case by simp
next
  case (Cons b bs)
  have "unat b < 256" using unsigned_less [of b] by simp
  with Cons show ?case by simp
qed

lemma sub_buf_append_skip [simp]:
  "length xs = off \<Longrightarrow> sub_buf (xs @ ys) off n = take n ys"
  by (simp add: sub_buf_def)

lemma length_sub_buf [simp]:
  "off + n \<le> length buf \<Longrightarrow> length (sub_buf buf off n) = n"
  by (simp add: sub_buf_def)

section \<open>Half-interval search\<close>

text \<open>
  The loop \<^verbatim>\<open>while (lo < hi) { mid = (lo + hi) / 2; if (P mid) hi = mid; else lo = mid + 1; }\<close>
  of \<open>find_first_ge\<close>, of both searches in \<open>intervals_add\<close> and of \<open>journal_index_read\<close>.
\<close>

function bsearch :: "(nat \<Rightarrow> bool) \<Rightarrow> nat \<Rightarrow> nat \<Rightarrow> nat" where
  "bsearch P lo hi =
     (if lo < hi then
        (let mid = (lo + hi) div 2
         in if P mid then bsearch P lo mid else bsearch P (mid + 1) hi)
      else lo)"
  by pat_completeness auto
termination
  by (relation "measure (\<lambda>(P, lo, hi). hi - lo)") auto

declare bsearch.simps [simp del]

text \<open>On a predicate that never turns false again the search finds the first true index.\<close>

lemma bsearch_spec:
  assumes "lo \<le> hi"
    and "\<forall>i j. lo \<le> i \<and> i \<le> j \<and> j < hi \<and> P i \<longrightarrow> P j"
  shows "lo \<le> bsearch P lo hi \<and> bsearch P lo hi \<le> hi \<and>
         (\<forall>i. lo \<le> i \<longrightarrow> i < bsearch P lo hi \<longrightarrow> \<not> P i) \<and>
         (\<forall>i. bsearch P lo hi \<le> i \<longrightarrow> i < hi \<longrightarrow> P i)"
  using assms
proof (induction P lo hi rule: bsearch.induct)
  case (1 P lo hi)
  let ?m = "(lo + hi) div 2"
  show ?case
  proof (cases "lo < hi")
    case False
    then have "bsearch P lo hi = lo" by (simp add: bsearch.simps [of P lo hi])
    with False "1.prems"(1) show ?thesis by simp
  next
    case True
    then have m: "lo \<le> ?m" "?m < hi" by auto
    show ?thesis
    proof (cases "P ?m")
      case P: True
      have mono: "\<forall>i j. lo \<le> i \<and> i \<le> j \<and> j < ?m \<and> P i \<longrightarrow> P j"
        using "1.prems"(2) m by (meson less_trans)
      have eq: "bsearch P lo hi = bsearch P lo ?m"
        using True P by (simp add: bsearch.simps [of P lo hi])
      have above: "\<And>i. ?m \<le> i \<Longrightarrow> i < hi \<Longrightarrow> P i"
        using "1.prems"(2) m P by blast
      note IH = "1.IH"(1) [OF True refl P m(1) mono]
      show ?thesis unfolding eq
      proof (intro conjI allI impI)
        fix i assume "bsearch P lo ?m \<le> i" "i < hi"
        then show "P i" using IH above by (cases "?m \<le> i") auto
      qed (use IH m in auto)
    next
      case nP: False
      have mono: "\<forall>i j. ?m + 1 \<le> i \<and> i \<le> j \<and> j < hi \<and> P i \<longrightarrow> P j"
        using "1.prems"(2) m by (meson le_trans le_add1)
      have eq: "bsearch P lo hi = bsearch P (?m + 1) hi"
        using True nP by (simp add: bsearch.simps [of P lo hi])
      have "?m + 1 \<le> hi" using m by simp
      note IH = "1.IH"(2) [OF True refl nP this mono]
      have below: "\<And>i. lo \<le> i \<Longrightarrow> i \<le> ?m \<Longrightarrow> \<not> P i"
        using "1.prems"(2) m nP by blast
      show ?thesis unfolding eq
      proof (intro conjI allI impI)
        fix i assume "lo \<le> i" "i < bsearch P (?m + 1) hi"
        then show "\<not> P i" using IH below by (cases "i \<le> ?m") auto
      qed (use IH m in auto)
    qed
  qed
qed

lemma bsearch_cong:
  assumes "\<And>i. lo \<le> i \<Longrightarrow> i < hi \<Longrightarrow> P i = Q i"
  shows "bsearch P lo hi = bsearch Q lo hi"
  using assms
proof (induction P lo hi rule: bsearch.induct)
  case (1 P lo hi)
  then show ?case
    by (cases "lo < hi")
       (simp_all add: Let_def bsearch.simps [of P lo hi] bsearch.simps [of Q lo hi])
qed

section \<open>Arrays\<close>

text \<open>\<^verbatim>\<open>memmove(&a[d], &a[s], n * sizeof *a)\<close> inside one array.\<close>

definition memmove :: "'a list \<Rightarrow> nat \<Rightarrow> nat \<Rightarrow> nat \<Rightarrow> 'a list" where
  "memmove xs d s n = take d xs @ take n (drop s xs) @ drop (d + n) xs"

lemma length_memmove [simp]:
  "d + n \<le> length xs \<Longrightarrow> s + n \<le> length xs \<Longrightarrow> length (memmove xs d s n) = length xs"
  by (simp add: memmove_def)

lemma memmove_nothing [simp]: "memmove xs d s 0 = xs" "memmove xs d d n = xs"
  by (simp_all add: memmove_def) (metis append_take_drop_id drop_drop add.commute)

text \<open>Closing a gap and opening a hole, seen through the used prefix of the array.\<close>

lemma take_memmove_close:
  assumes "d \<le> s" "s \<le> n" "n \<le> length xs"
  shows "take (n - (s - d)) (memmove xs d s (n - s)) = take d xs @ drop s (take n xs)"
  using assms by (simp add: memmove_def drop_take min_absorb2)

lemma take_memmove_replace:
  assumes "lo < hi" "hi \<le> n" "n \<le> length xs"
  shows "take (n - (hi - lo - 1)) (memmove (xs[lo := v]) (lo + 1) hi (n - hi)) =
         take lo xs @ v # drop hi (take n xs)"
proof -
  have "take (n - (hi - (lo + 1))) (memmove (xs[lo := v]) (lo + 1) hi (n - hi)) =
        take (lo + 1) (xs[lo := v]) @ drop hi (take n (xs[lo := v]))"
    using assms by (intro take_memmove_close) auto
  moreover have "take (lo + 1) (xs[lo := v]) = take lo xs @ [v]"
    using assms by (simp add: take_Suc_conv_app_nth)
  ultimately show ?thesis
    using assms by (simp add: drop_take drop_update_cancel)
qed

lemma take_memmove_open:
  assumes "k \<le> n" "n < length xs"
  shows "take (Suc n) ((memmove xs (Suc k) k (n - k))[k := v]) = take k xs @ v # drop k (take n xs)"
proof -
  have "memmove xs (Suc k) k (n - k) = take (Suc k) xs @ take (n - k) (drop k xs) @ drop (Suc n) xs"
    using assms by (simp add: memmove_def)
  moreover have "take (Suc k) xs = take k xs @ [xs ! k]"
    using assms by (simp add: take_Suc_conv_app_nth)
  ultimately show ?thesis
    using assms by (simp add: list_update_append drop_take Suc_diff_le)
qed

text \<open>\<^verbatim>\<open>realloc\<close> to a larger array; the new cells are indeterminate and never read first.\<close>

definition grow :: "nat \<Rightarrow> 'a::zero list \<Rightarrow> 'a list" where
  "grow cap xs = xs @ replicate (cap - length xs) 0"

lemma length_grow [simp]: "length (grow cap xs) = max cap (length xs)"
  by (simp add: grow_def)

lemma take_grow [simp]: "n \<le> length xs \<Longrightarrow> take n (grow cap xs) = take n xs"
  by (simp add: grow_def)

section \<open>The contract of qsort\<close>

text \<open>
  A C comparison function returns a negative, zero or positive \<open>int\<close>.  The standard
  fixes the result of \<open>qsort\<close> only up to the order of elements that compare equal, so
  clients are verified against the locale below, and the model runs an insertion sort.
\<close>

locale qsort_contract =
  fixes cmp :: "'a \<Rightarrow> 'a \<Rightarrow> int"
    and qs :: "'a list \<Rightarrow> 'a list"
  assumes qs_perm: "mset (qs xs) = mset xs"
    and qs_sorted: "sorted_wrt (\<lambda>a b. cmp a b \<le> 0) (qs xs)"
begin

lemma qs_set: "set (qs xs) = set xs"
  by (metis qs_perm set_mset_mset)

lemma qs_length: "length (qs xs) = length xs"
  by (metis qs_perm size_mset)

lemma qs_distinct: "distinct (qs xs) = distinct xs"
  by (rule mset_eq_imp_distinct_iff) (rule qs_perm)

lemma qs_nth_le: "i < j \<Longrightarrow> j < length xs \<Longrightarrow> cmp (qs xs ! i) (qs xs ! j) \<le> 0"
  using qs_sorted [of xs] by (simp add: sorted_wrt_iff_nth_less qs_length)

end

primrec ins_by :: "('a \<Rightarrow> 'a \<Rightarrow> int) \<Rightarrow> 'a \<Rightarrow> 'a list \<Rightarrow> 'a list" where
  "ins_by cmp x [] = [x]"
| "ins_by cmp x (y # ys) = (if cmp x y \<le> 0 then x # y # ys else y # ins_by cmp x ys)"

definition qsort_by :: "('a \<Rightarrow> 'a \<Rightarrow> int) \<Rightarrow> 'a list \<Rightarrow> 'a list" where
  "qsort_by cmp xs = foldr (ins_by cmp) xs []"

lemma mset_ins_by: "mset (ins_by cmp x xs) = add_mset x (mset xs)"
  by (induction xs) auto

lemma set_ins_by: "set (ins_by cmp x xs) = insert x (set xs)"
  by (metis mset_ins_by set_mset_add_mset_insert set_mset_mset)

lemma mset_qsort_by: "mset (qsort_by cmp xs) = mset xs"
  by (induction xs) (auto simp: qsort_by_def mset_ins_by)

lemma sorted_ins_by:
  assumes "\<And>a b. cmp a b \<le> 0 \<or> cmp b a \<le> 0"
    and "\<And>a b c. cmp a b \<le> 0 \<Longrightarrow> cmp b c \<le> 0 \<Longrightarrow> cmp a c \<le> (0::int)"
    and "sorted_wrt (\<lambda>a b. cmp a b \<le> 0) xs"
  shows "sorted_wrt (\<lambda>a b. cmp a b \<le> 0) (ins_by cmp x xs)"
  using assms(3)
proof (induction xs)
  case Nil
  then show ?case by simp
next
  case (Cons y ys)
  then show ?case
    using assms(1) [of x y] assms(2) by (auto simp: set_ins_by)
qed

lemma qsort_by_contract:
  assumes "\<And>a b. cmp a b \<le> 0 \<or> cmp b a \<le> 0"
    and "\<And>a b c. cmp a b \<le> 0 \<Longrightarrow> cmp b c \<le> 0 \<Longrightarrow> cmp a c \<le> (0::int)"
  shows "qsort_contract cmp (qsort_by cmp)"
proof
  fix xs
  show "mset (qsort_by cmp xs) = mset xs" by (rule mset_qsort_by)
  show "sorted_wrt (\<lambda>a b. cmp a b \<le> 0) (qsort_by cmp xs)"
  proof (induction xs)
    case (Cons x xs)
    show ?case
      using sorted_ins_by [where x = x, OF assms Cons.IH] by (simp add: qsort_by_def)
  qed (simp add: qsort_by_def)
qed

section \<open>Words as naturals\<close>

lemma unat_add_no_wrap:
  "unat (a :: 'a::len word) + unat b < 2 ^ LENGTH('a) \<Longrightarrow> unat (a + b) = unat a + unat b"
  by (simp add: unat_word_ariths)

lemma unat_diff_le:
  "b \<le> (a :: 'a::len word) \<Longrightarrow> unat (a - b) = unat a - unat b"
  by (simp add: unat_sub)

lemma unat_ucast_up:
  assumes "LENGTH('a::len) \<le> LENGTH('b::len)"
  shows "unat (ucast (x :: 'a word) :: 'b word) = unat x"
proof -
  have "unat x < 2 ^ LENGTH('b)"
    using unsigned_less [of x] assms by (meson less_le_trans one_le_numeral power_increasing)
  then show ?thesis by (simp add: unsigned_ucast_eq take_bit_nat_eq_self)
qed

text \<open>\<^verbatim>\<open>((__u64)hi << 32) + lo\<close> with a 16-bit \<open>hi\<close>: a 48-bit block number.\<close>

lemma unat_block48:
  "unat (push_bit 32 (ucast (hi :: u16)) + ucast (lo :: u32) :: u64) = unat hi * 2 ^ 32 + unat lo"
proof -
  have "unat hi < 2 ^ 16" "unat lo < 2 ^ 32"
    using unsigned_less [of hi] unsigned_less [of lo] by auto
  then show ?thesis
    by (simp add: push_bit_eq_mult unat_word_ariths unat_ucast_up)
qed

lemma block48_less:
  "unat (push_bit 32 (ucast (hi :: u16)) + ucast (lo :: u32) :: u64) < 2 ^ 48"
proof -
  have "unat hi < 2 ^ 16" "unat lo < 2 ^ 32"
    using unsigned_less [of hi] unsigned_less [of lo] by auto
  then show ?thesis by (simp add: unat_block48)
qed

lemma u16_less: "unat (x :: u16) < 65536"
  using unsigned_less [of x] by simp

lemma u32_less: "unat (x :: u32) < 4294967296"
  using unsigned_less [of x] by simp

section \<open>Masks\<close>

lemma unat_and_mask:
  "n < LENGTH('a::len) \<Longrightarrow> unat ((w :: 'a word) AND of_nat (2 ^ n - 1)) = unat w mod 2 ^ n"
proof -
  assume "n < LENGTH('a)"
  have "(of_nat (2 ^ n - 1) :: 'a word) = mask n"
    by (simp add: mask_eq_exp_minus_1 of_nat_diff)
  then have "w AND of_nat (2 ^ n - 1) = take_bit n w"
    by (simp add: take_bit_eq_mask)
  moreover have "unat (take_bit n w) = unat w mod 2 ^ n"
    by (simp only: unsigned_take_bit_eq) (simp only: take_bit_eq_mod)
  ultimately show ?thesis by metis
qed

section \<open>Decimal printing\<close>

text \<open>\<^verbatim>\<open>printf\<close>'s \<open>%u\<close>, \<open>%lu\<close> and \<open>%llu\<close>, and the value \<open>scanf\<close> reads back.\<close>

definition digit_char :: "nat \<Rightarrow> char" where
  "digit_char d = char_of (48 + d)"

function udec :: "nat \<Rightarrow> string" where
  "udec n = (if n < 10 then [digit_char n] else udec (n div 10) @ [digit_char (n mod 10)])"
  by pat_completeness auto
termination
  by (relation "measure id") auto

declare udec.simps [simp del]

definition is_digit :: "char \<Rightarrow> bool" where
  "is_digit c \<longleftrightarrow> 48 \<le> (of_char c :: nat) \<and> (of_char c :: nat) \<le> 57"

definition digit_val :: "char \<Rightarrow> nat" where
  "digit_val c = of_char c - 48"

definition udec_val :: "string \<Rightarrow> nat" where
  "udec_val cs = foldl (\<lambda>v c. 10 * v + digit_val c) 0 cs"

lemma digit_char_props [simp]:
  "d < 10 \<Longrightarrow> is_digit (digit_char d)" "d < 10 \<Longrightarrow> digit_val (digit_char d) = d"
  by (simp_all add: is_digit_def digit_val_def digit_char_def)

lemma udec_digits: "list_all is_digit (udec n) \<and> udec n \<noteq> []"
proof (induction n rule: udec.induct)
  case (1 n)
  then show ?case by (cases "n < 10") (simp_all add: udec.simps [of n])
qed

lemma udec_val_udec [simp]: "udec_val (udec n) = n"
proof (induction n rule: udec.induct)
  case (1 n)
  then show ?case
    by (cases "n < 10") (simp_all add: udec.simps [of n] udec_val_def)
qed

lemma udec_inj: "udec m = udec n \<Longrightarrow> m = n"
  by (metis udec_val_udec)

lemma udec_length: "n < 10 ^ k \<Longrightarrow> 0 < k \<Longrightarrow> length (udec n) \<le> k"
proof (induction k arbitrary: n)
  case (Suc k)
  show ?case
  proof (cases "n < 10")
    case False
    then have "n div 10 < 10 ^ k" "0 < k" using Suc.prems by (cases k; auto)+
    then show ?thesis using Suc.IH False by (simp add: udec.simps [of n])
  qed (simp add: udec.simps [of n])
qed simp

end
