(* ===== verification/Intervals.thy ===== *)
theory Intervals
  imports Prelude
begin

text \<open>
  The cross-phase deduplication set of \<^verbatim>\<open>recovered_intervals.c\<close>: parallel arrays of
  interval starts and lengths (64-bit block numbers), kept sorted and merged.  The
  operations are refined to a set of block numbers: \<open>intervals_add\<close> is set union,
  \<open>intervals_query\<close> decides containment and disjointness, \<open>intervals_stats\<close> is the
  cardinality.  The reader-writer lock is not part of the model: every operation holds
  it from its first to its last access.
\<close>

section \<open>The structure and its operations\<close>

record recovered_intervals =
  starts :: "u64 list"
  lens :: "u64 list"
  ri_count :: nat
  ri_capacity :: nat

definition INITIAL_CAPACITY :: nat where
  "INITIAL_CAPACITY = 1024"

text \<open>\<open>alloc_ok\<close> tells whether the three \<open>calloc\<close> calls succeed; \<open>None\<close> is the return
  value -1.\<close>

definition intervals_init :: "bool \<Rightarrow> recovered_intervals option" where
  "intervals_init alloc_ok =
     (if alloc_ok
      then Some \<lparr>starts = replicate INITIAL_CAPACITY 0, lens = replicate INITIAL_CAPACITY 0,
                 ri_count = 0, ri_capacity = INITIAL_CAPACITY\<rparr>
      else None)"

definition find_first_ge :: "recovered_intervals \<Rightarrow> u64 \<Rightarrow> nat" where
  "find_first_ge ri query_start =
     bsearch (\<lambda>mid. starts ri ! mid + lens ri ! mid > query_start) 0 (ri_count ri)"

definition intervals_query :: "recovered_intervals option \<Rightarrow> u64 \<Rightarrow> u64 \<Rightarrow> nat" where
  "intervals_query rip s len =
     (case rip of None \<Rightarrow> 0
      | Some ri \<Rightarrow>
         if len = 0 then 0
         else (let idx = find_first_ge ri s in
               if idx < ri_count ri then
                 (let i_s = starts ri ! idx; i_e = i_s + lens ri ! idx; q_e = s + len in
                  if i_s \<le> s \<and> i_e \<ge> q_e then 1
                  else if i_s < q_e then 2 else 0)
               else 0))"

text \<open>
  \<open>ok_s\<close> and \<open>ok_l\<close> are the outcomes of the two \<open>realloc\<close> calls.  The result is the C
  return value and the updated structure.
\<close>

definition intervals_add ::
  "bool \<Rightarrow> bool \<Rightarrow> recovered_intervals \<Rightarrow> u64 \<Rightarrow> u64 \<Rightarrow> int \<times> recovered_intervals" where
  "intervals_add ok_s ok_l ri s len =
     (if len = 0 then (0, ri)
      else
        let merge_lo = bsearch (\<lambda>mid. starts ri ! mid + lens ri ! mid \<ge> s) 0 (ri_count ri);
            e = s + len;
            merge_hi = bsearch (\<lambda>mid. starts ri ! mid > e) merge_lo (ri_count ri)
        in if merge_hi > merge_lo then
             (let new_s = (if starts ri ! merge_lo < s then starts ri ! merge_lo else s);
                  last_e = starts ri ! (merge_hi - 1) + lens ri ! (merge_hi - 1);
                  new_e = (if last_e > e then last_e else e);
                  ss = (starts ri)[merge_lo := new_s];
                  ls = (lens ri)[merge_lo := new_e - new_s];
                  gap = merge_hi - merge_lo - 1
              in if gap > 0 then
                   (let tail = ri_count ri - merge_hi in
                    (0, ri\<lparr>starts := (if tail > 0 then memmove ss (merge_lo + 1) merge_hi tail else ss),
                           lens := (if tail > 0 then memmove ls (merge_lo + 1) merge_hi tail else ls),
                           ri_count := ri_count ri - gap\<rparr>))
                 else (0, ri\<lparr>starts := ss, lens := ls\<rparr>))
           else
             let full = ri_count ri \<ge> ri_capacity ri;
                 new_cap = ri_capacity ri * 2
             in if full \<and> \<not> (ok_s \<and> ok_l) then
                  (-1, ri\<lparr>starts := (if ok_s then grow new_cap (starts ri) else starts ri),
                          lens := (if ok_l then grow new_cap (lens ri) else lens ri)\<rparr>)
                else
                  let ss = (if full then grow new_cap (starts ri) else starts ri);
                      ls = (if full then grow new_cap (lens ri) else lens ri);
                      tail = ri_count ri - merge_lo;
                      ss' = (if tail > 0 then memmove ss (merge_lo + 1) merge_lo tail else ss);
                      ls' = (if tail > 0 then memmove ls (merge_lo + 1) merge_lo tail else ls)
                  in (0, ri\<lparr>starts := ss'[merge_lo := s], lens := ls'[merge_lo := len],
                            ri_count := ri_count ri + 1,
                            ri_capacity := (if full then new_cap else ri_capacity ri)\<rparr>))"

definition intervals_stats :: "recovered_intervals option \<Rightarrow> nat \<times> u64" where
  "intervals_stats rip =
     (case rip of None \<Rightarrow> (0, 0)
      | Some ri \<Rightarrow> (ri_count ri, sum_list (take (ri_count ri) (lens ri))))"

section \<open>The abstract view\<close>

definition ivals :: "recovered_intervals \<Rightarrow> (u64 \<times> u64) list" where
  "ivals ri = zip (take (ri_count ri) (starts ri)) (take (ri_count ri) (lens ri))"

abbreviation ist :: "u64 \<times> u64 \<Rightarrow> nat" where
  "ist x \<equiv> unat (fst x)"

abbreviation ien :: "u64 \<times> u64 \<Rightarrow> nat" where
  "ien x \<equiv> unat (fst x) + unat (snd x)"

definition wf_ivals :: "(u64 \<times> u64) list \<Rightarrow> bool" where
  "wf_ivals xs \<longleftrightarrow> sorted_wrt (\<lambda>a b. ien a < ist b) xs \<and>
     (\<forall>x \<in> set xs. 0 < snd x \<and> ien x < 2 ^ 64)"

definition span :: "(u64 \<times> u64) list \<Rightarrow> nat set" where
  "span xs = (\<Union>x \<in> set xs. {ist x ..< ien x})"

definition intervals_inv :: "recovered_intervals \<Rightarrow> bool" where
  "intervals_inv ri \<longleftrightarrow> ri_capacity ri \<le> length (starts ri) \<and> ri_capacity ri \<le> length (lens ri) \<and>
     ri_count ri \<le> ri_capacity ri \<and> 0 < ri_capacity ri \<and> wf_ivals (ivals ri)"

definition recorded :: "recovered_intervals \<Rightarrow> nat set" where
  "recorded ri = span (ivals ri)"

lemma length_ivals: "intervals_inv ri \<Longrightarrow> length (ivals ri) = ri_count ri"
  by (simp add: ivals_def intervals_inv_def)

lemma ivals_nth:
  "intervals_inv ri \<Longrightarrow> i < ri_count ri \<Longrightarrow> ivals ri ! i = (starts ri ! i, lens ri ! i)"
  by (simp add: ivals_def intervals_inv_def)

lemma span_append [simp]: "span (xs @ ys) = span xs \<union> span ys"
  by (auto simp: span_def)

lemma span_Cons [simp]: "span (x # xs) = {ist x ..< ien x} \<union> span xs"
  by (auto simp: span_def)

lemma span_Nil [simp]: "span [] = {}"
  by (simp add: span_def)

lemma wf_ivals_nthD:
  assumes "wf_ivals xs" "i < length xs"
  shows "0 < snd (xs ! i)" "ien (xs ! i) < 2 ^ 64" "ist (xs ! i) < ien (xs ! i)"
proof -
  show a: "0 < snd (xs ! i)" and "ien (xs ! i) < 2 ^ 64"
    using assms by (auto simp: wf_ivals_def)
  from a show "ist (xs ! i) < ien (xs ! i)"
    by (simp add: word_gt_0 unat_gt_0)
qed

lemma wf_ivals_order:
  assumes "wf_ivals xs" "i < j" "j < length xs"
  shows "ien (xs ! i) < ist (xs ! j)"
  using assms by (simp add: wf_ivals_def sorted_wrt_iff_nth_less)

lemma wf_ivals_mono:
  assumes "wf_ivals xs" "i \<le> j" "j < length xs"
  shows "ien (xs ! i) \<le> ien (xs ! j)" "ist (xs ! i) \<le> ist (xs ! j)"
proof -
  have "ien (xs ! i) \<le> ien (xs ! j) \<and> ist (xs ! i) \<le> ist (xs ! j)"
  proof (cases "i = j")
    case False
    then have "ien (xs ! i) < ist (xs ! j)"
      using assms by (intro wf_ivals_order) auto
    then show ?thesis by linarith
  qed simp
  then show "ien (xs ! i) \<le> ien (xs ! j)" "ist (xs ! i) \<le> ist (xs ! j)" by auto
qed

lemma word_end:
  assumes "ien x < 2 ^ 64"
  shows "unat (fst x + snd x) = ien x"
  using assms by (simp add: unat_add_no_wrap)

section \<open>The searches\<close>

lemma search_end_spec:
  assumes inv: "intervals_inv ri"
    and P: "\<And>w. P w \<longleftrightarrow> Q (unat w)"
    and up: "\<And>a b. a \<le> b \<Longrightarrow> Q a \<Longrightarrow> Q b"
    and r: "r = bsearch (\<lambda>mid. P (starts ri ! mid + lens ri ! mid)) 0 (ri_count ri)"
  shows "r \<le> ri_count ri" "\<And>i. i < r \<Longrightarrow> \<not> Q (ien (ivals ri ! i))"
    "\<And>i. r \<le> i \<Longrightarrow> i < ri_count ri \<Longrightarrow> Q (ien (ivals ri ! i))"
proof -
  let ?n = "ri_count ri" and ?xs = "ivals ri"
  have wf: "wf_ivals ?xs" and len: "length ?xs = ?n"
    using inv by (auto simp: intervals_inv_def length_ivals)
  have P': "P (starts ri ! i + lens ri ! i) \<longleftrightarrow> Q (ien (?xs ! i))" if "i < ?n" for i
    using that wf_ivals_nthD(2) [OF wf, of i] word_end [of "?xs ! i"]
    by (simp add: P len ivals_nth [OF inv])
  have eq: "r = bsearch (\<lambda>i. Q (ien (?xs ! i))) 0 ?n"
    unfolding r by (rule bsearch_cong) (simp add: P')
  have mono: "\<forall>i j. 0 \<le> i \<and> i \<le> j \<and> j < ?n \<and> Q (ien (?xs ! i)) \<longrightarrow> Q (ien (?xs ! j))"
  proof (intro allI impI)
    fix i j assume *: "0 \<le> i \<and> i \<le> j \<and> j < ?n \<and> Q (ien (?xs ! i))"
    then have "ien (?xs ! i) \<le> ien (?xs ! j)"
      using wf_ivals_mono(1) [OF wf, of i j] len by simp
    with * show "Q (ien (?xs ! j))" using up by blast
  qed
  note S = bsearch_spec [OF le0 mono, folded eq]
  from S show "r \<le> ?n" by blast
  from S show "\<And>i. i < r \<Longrightarrow> \<not> Q (ien (?xs ! i))" by blast
  from S show "\<And>i. r \<le> i \<Longrightarrow> i < ?n \<Longrightarrow> Q (ien (?xs ! i))" by blast
qed

lemma search_start_spec:
  assumes inv: "intervals_inv ri" and lo: "lo \<le> ri_count ri"
    and r: "r = bsearch (\<lambda>mid. starts ri ! mid > e) lo (ri_count ri)"
  shows "lo \<le> r" "r \<le> ri_count ri"
    "\<And>i. lo \<le> i \<Longrightarrow> i < r \<Longrightarrow> ist (ivals ri ! i) \<le> unat e"
    "\<And>i. r \<le> i \<Longrightarrow> i < ri_count ri \<Longrightarrow> unat e < ist (ivals ri ! i)"
proof -
  let ?n = "ri_count ri" and ?xs = "ivals ri"
  have wf: "wf_ivals ?xs" and len: "length ?xs = ?n"
    using inv by (auto simp: intervals_inv_def length_ivals)
  have eq: "r = bsearch (\<lambda>i. unat e < ist (?xs ! i)) lo ?n"
    unfolding r by (rule bsearch_cong) (simp add: ivals_nth [OF inv] word_less_nat_alt)
  have mono:
    "\<forall>i j. lo \<le> i \<and> i \<le> j \<and> j < ?n \<and> unat e < ist (?xs ! i) \<longrightarrow> unat e < ist (?xs ! j)"
  proof (intro allI impI)
    fix i j assume *: "lo \<le> i \<and> i \<le> j \<and> j < ?n \<and> unat e < ist (?xs ! i)"
    then show "unat e < ist (?xs ! j)"
      using wf_ivals_mono(2) [OF wf, of i j] len by simp
  qed
  note S = bsearch_spec [OF lo mono, folded eq]
  from S show "lo \<le> r" by blast
  from S show "r \<le> ?n" by blast
  from S show "\<And>i. lo \<le> i \<Longrightarrow> i < r \<Longrightarrow> ist (?xs ! i) \<le> unat e" by (meson not_less)
  from S show "\<And>i. r \<le> i \<Longrightarrow> i < ?n \<Longrightarrow> unat e < ist (?xs ! i)" by blast
qed

section \<open>Queries\<close>

lemma span_nth: "b \<in> span xs \<longleftrightarrow> (\<exists>i < length xs. ist (xs ! i) \<le> b \<and> b < ien (xs ! i))"
  by (simp add: span_def) (metis in_set_conv_nth)

lemma span_nthI: "i < length xs \<Longrightarrow> ist (xs ! i) \<le> b \<Longrightarrow> b < ien (xs ! i) \<Longrightarrow> b \<in> span xs"
  by (auto simp: span_nth)

lemma query_decides:
  assumes wf: "wf_ivals xs" and k: "k < length xs"
    and before: "\<And>i. i < k \<Longrightarrow> ien (xs ! i) \<le> s" and here: "s < ien (xs ! k)"
    and ne: "s < e"
  shows "(if ist (xs ! k) \<le> s \<and> e \<le> ien (xs ! k) then 1 else if ist (xs ! k) < e then 2 else 0) =
         (if {s..<e} \<subseteq> span xs then 1 else if {s..<e} \<inter> span xs = {} then 0 else (2::nat))"
proof -
  let ?a = "ist (xs ! k)" and ?z = "ien (xs ! k)"
  have after: "?z < ist (xs ! j)" if "k < j" "j < length xs" for j
    using wf_ivals_order [OF wf that] .
  have mem: "?a \<le> b \<and> b \<noteq> ?z" if b: "s \<le> b" "b \<in> span xs" for b
  proof -
    obtain i where i: "i < length xs" "ist (xs ! i) \<le> b" "b < ien (xs ! i)"
      using b by (auto simp: span_nth)
    have "\<not> i < k" using before [of i] i b by linarith
    then show ?thesis
      using i after [of i] wf_ivals_nthD(3) [OF wf k] by (cases "i = k") auto
  qed
  have self: "{?a..<?z} \<subseteq> span xs"
    using k by (auto simp: span_nth)
  consider (sub) "?a \<le> s" "e \<le> ?z" | (left) "?a \<le> s" "?z < e"
    | (right) "s < ?a" "?a < e" | (out) "s < ?a" "e \<le> ?a" by linarith
  then show ?thesis
  proof cases
    case sub
    then have "{s..<e} \<subseteq> span xs" using self by fastforce
    with sub show ?thesis by simp
  next
    case left
    have "?z \<notin> span xs" using mem [of ?z] here by auto
    moreover have "?z \<in> {s..<e}" using left here by auto
    ultimately have "\<not> {s..<e} \<subseteq> span xs" by blast
    moreover have "s \<in> {s..<e} \<inter> span xs" using left here self ne by auto
    then have "{s..<e} \<inter> span xs \<noteq> {}" by blast
    ultimately show ?thesis using left ne by simp
  next
    case right
    have "s \<notin> span xs" using mem [of s] right by auto
    then have "\<not> {s..<e} \<subseteq> span xs" using ne by auto
    moreover have "?a \<in> {s..<e} \<inter> span xs"
      using right self wf_ivals_nthD(3) [OF wf k] by auto
    then have "{s..<e} \<inter> span xs \<noteq> {}" by blast
    ultimately show ?thesis using right by simp
  next
    case out
    have "{s..<e} \<inter> span xs = {}" using mem out by fastforce
    moreover have "s \<in> {s..<e}" using ne by simp
    ultimately have "\<not> {s..<e} \<subseteq> span xs" and "{s..<e} \<inter> span xs = {}" by blast+
    then show ?thesis using out by simp
  qed
qed

lemma intervals_query_model:
  assumes inv: "intervals_inv ri" and len: "0 < len"
    and nowrap: "unat s + unat len < 2 ^ 64"
  shows "intervals_query (Some ri) s len =
    (if {unat s ..< unat s + unat len} \<subseteq> recorded ri then 1
     else if {unat s ..< unat s + unat len} \<inter> recorded ri = {} then 0 else 2)"
proof -
  let ?xs = "ivals ri" and ?k = "find_first_ge ri s"
  have wf: "wf_ivals ?xs" and n: "length ?xs = ri_count ri"
    using inv by (auto simp: intervals_inv_def length_ivals)
  have len0: "len \<noteq> 0" using len by auto
  have ne: "unat s < unat s + unat len" using len by (simp add: word_gt_0 unat_gt_0)
  have q: "unat (s + len) = unat s + unat len" using nowrap by (simp add: unat_add_no_wrap)
  note S = search_end_spec [OF inv, of "\<lambda>w. w > s" "\<lambda>v. v > unat s" ?k,
      OF word_less_nat_alt _ find_first_ge_def]
  have below: "\<And>i. i < ?k \<Longrightarrow> ien (?xs ! i) \<le> unat s" using S(2) by force
  show ?thesis
  proof (cases "?k < ri_count ri")
    case True
    then have k: "?k < length ?xs" by (simp add: n)
    have here: "unat s < ien (?xs ! ?k)" using S(3) True by force
    have we: "unat (fst (?xs ! ?k) + snd (?xs ! ?k)) = ien (?xs ! ?k)"
      using wf_ivals_nthD(2) [OF wf k] by (rule word_end)
    have "intervals_query (Some ri) s len =
      (if ist (?xs ! ?k) \<le> unat s \<and> unat s + unat len \<le> ien (?xs ! ?k) then 1
       else if ist (?xs ! ?k) < unat s + unat len then 2 else 0)"
      using we True len0
      by (simp add: intervals_query_def Let_def ivals_nth [OF inv True]
          word_le_nat_alt word_less_nat_alt q)
    then show ?thesis
      unfolding recorded_def by (simp only: query_decides [OF wf k below here ne])
  next
    case False
    then have "?k = ri_count ri" using S(1) by force
    then have "{unat s ..< unat s + unat len} \<inter> recorded ri = {}"
      using below n by (fastforce simp: recorded_def span_nth)
    moreover have "unat s \<in> {unat s ..< unat s + unat len}" using ne by simp
    ultimately have "\<not> {unat s ..< unat s + unat len} \<subseteq> recorded ri"
      and "{unat s ..< unat s + unat len} \<inter> recorded ri = {}" by blast+
    then show ?thesis
      using False len by (simp add: intervals_query_def)
  qed
qed

section \<open>Insertion\<close>

text \<open>
  Both branches of \<open>intervals_add\<close> replace the run of intervals between the two search
  results by one interval; \<open>splice\<close> is that list operation, and the array code refines it.
\<close>

definition splice :: "(u64 \<times> u64) list \<Rightarrow> nat \<Rightarrow> nat \<Rightarrow> u64 \<times> u64 \<Rightarrow> (u64 \<times> u64) list" where
  "splice xs lo hi x = take lo xs @ x # drop hi xs"

lemma wf_ivals_splice:
  assumes wf: "wf_ivals xs" and "lo \<le> hi" "hi \<le> length xs"
    and x: "0 < snd x" "ien x < 2 ^ 64"
    and before: "\<And>i. i < lo \<Longrightarrow> ien (xs ! i) < ist x"
    and after: "\<And>i. hi \<le> i \<Longrightarrow> i < length xs \<Longrightarrow> ien x < ist (xs ! i)"
  shows "wf_ivals (splice xs lo hi x)"
proof -
  have srt: "sorted_wrt (\<lambda>a b. ien a < ist b) xs" using wf by (simp add: wf_ivals_def)
  have tk: "ien a < ist x" if "a \<in> set (take lo xs)" for a
    using that before assms(2,3) by (auto simp: in_set_conv_nth)
  have dr: "ien x < ist b" if "b \<in> set (drop hi xs)" for b
    using that after by (auto simp: in_set_conv_nth)
  have "ien a < ist b" if "a \<in> set (take lo xs)" "b \<in> set (drop hi xs)" for a b
    using tk [OF that(1)] dr [OF that(2)] by linarith
  then show ?thesis
    using srt wf x tk dr
    by (auto simp: wf_ivals_def splice_def sorted_wrt_append sorted_wrt_take sorted_wrt_drop
        dest: in_set_takeD in_set_dropD)
qed

lemma span_splice:
  assumes lh: "lo \<le> hi" "hi \<le> length xs"
    and inside: "\<And>i. lo \<le> i \<Longrightarrow> i < hi \<Longrightarrow> {ist (xs ! i) ..< ien (xs ! i)} \<subseteq> {ist x ..< ien x}"
    and new: "{s..<e} \<subseteq> {ist x ..< ien x}" "{ist x ..< ien x} \<subseteq> {s..<e} \<union> span xs"
  shows "span (splice xs lo hi x) = span xs \<union> {s..<e}"
proof -
  have split: "xs = take lo xs @ drop lo (take hi xs) @ drop hi xs"
    using lh by (metis append_take_drop_id drop_take take_add le_add_diff_inverse append.assoc)
  have "span (drop lo (take hi xs)) \<subseteq> {ist x ..< ien x}"
  proof
    fix b assume "b \<in> span (drop lo (take hi xs))"
    then obtain i where "lo + i < hi" "ist (xs ! (lo + i)) \<le> b" "b < ien (xs ! (lo + i))"
      using lh by (force simp: span_nth less_diff_conv add.commute)
    then show "b \<in> {ist x ..< ien x}" using inside [of "lo + i"] by auto
  qed
  moreover have "span xs = span (take lo xs) \<union> span (drop lo (take hi xs)) \<union> span (drop hi xs)"
    by (subst split) (simp only: span_append Un_assoc)
  ultimately show ?thesis
    using new by (auto simp: splice_def)
qed

definition merge_lo_of :: "recovered_intervals \<Rightarrow> u64 \<Rightarrow> nat" where
  "merge_lo_of ri s = bsearch (\<lambda>mid. starts ri ! mid + lens ri ! mid \<ge> s) 0 (ri_count ri)"

definition merge_hi_of :: "recovered_intervals \<Rightarrow> u64 \<Rightarrow> u64 \<Rightarrow> nat" where
  "merge_hi_of ri s len = bsearch (\<lambda>mid. starts ri ! mid > s + len) (merge_lo_of ri s) (ri_count ri)"

definition merged :: "recovered_intervals \<Rightarrow> u64 \<Rightarrow> u64 \<Rightarrow> u64 \<times> u64" where
  "merged ri s len =
     (let lo = merge_lo_of ri s; hi = merge_hi_of ri s len; e = s + len in
      if lo < hi then
        (let ns = (if starts ri ! lo < s then starts ri ! lo else s);
             le = starts ri ! (hi - 1) + lens ri ! (hi - 1);
             ne = (if le > e then le else e)
         in (ns, ne - ns))
      else (s, len))"

lemma zip_splice:
  assumes "lo \<le> hi" "hi \<le> n" "n \<le> length ss" "n \<le> length ls"
  shows "zip (take lo ss @ a # drop hi (take n ss)) (take lo ls @ b # drop hi (take n ls)) =
         splice (zip (take n ss) (take n ls)) lo hi (a, b)"
  using assms by (simp add: splice_def take_zip drop_zip)

lemma ivals_update:
  "ivals (ri\<lparr>starts := a, lens := b, ri_count := c\<rparr>) = zip (take c a) (take c b)"
  "ivals (ri\<lparr>starts := a, lens := b, ri_count := c, ri_capacity := k\<rparr>) = zip (take c a) (take c b)"
  by (simp_all add: ivals_def)

lemma intervals_add_splice:
  assumes inv: "intervals_inv ri" and len: "len \<noteq> 0"
    and add: "intervals_add ok_s ok_l ri s len = (rc, ri')"
    and lh: "merge_lo_of ri s \<le> merge_hi_of ri s len" "merge_hi_of ri s len \<le> ri_count ri"
  shows "ri_capacity ri' \<le> length (starts ri') \<and> ri_capacity ri' \<le> length (lens ri') \<and>
         ri_count ri' \<le> ri_capacity ri' \<and> 0 < ri_capacity ri' \<and>
         ivals ri' = (if rc = 0 then splice (ivals ri) (merge_lo_of ri s) (merge_hi_of ri s len)
                                       (merged ri s len) else ivals ri)"
proof -
  define lo where "lo = merge_lo_of ri s"
  define hi where "hi = merge_hi_of ri s len"
  define n where "n = ri_count ri"
  have b: "n \<le> length (starts ri)" "n \<le> length (lens ri)" "n \<le> ri_capacity ri"
    "ri_capacity ri \<le> length (starts ri)" "ri_capacity ri \<le> length (lens ri)" "0 < ri_capacity ri"
    using inv by (auto simp: intervals_inv_def n_def)
  have lh': "lo \<le> hi" "hi \<le> n" using lh by (auto simp: lo_def hi_def n_def)
  have folds: "bsearch (\<lambda>mid. starts ri ! mid + lens ri ! mid \<ge> s) 0 n = lo"
    "bsearch (\<lambda>mid. starts ri ! mid > s + len) lo n = hi"
    by (simp_all add: lo_def hi_def n_def merge_lo_of_def merge_hi_of_def)
  show ?thesis
  proof (cases "lo < hi")
    case True
    obtain ns nl where m: "merged ri s len = (ns, nl)" by force
    have "intervals_add ok_s ok_l ri s len =
      (0, ri\<lparr>starts := memmove ((starts ri)[lo := ns]) (lo + 1) hi (n - hi),
             lens := memmove ((lens ri)[lo := nl]) (lo + 1) hi (n - hi),
             ri_count := n - (hi - lo - 1)\<rparr>)"
    proof (cases "hi = lo + 1")
      case True
      then show ?thesis
        using m len by (auto simp: intervals_add_def merged_def Let_def folds n_def [symmetric]
            lo_def [symmetric] hi_def [symmetric] simp flip: n_def)
    next
      case False
      with True m len lh' show ?thesis
        by (auto simp: intervals_add_def merged_def Let_def folds n_def [symmetric]
            lo_def [symmetric] hi_def [symmetric])
    qed
    with add have "rc = 0" and ri': "ri' = ri\<lparr>starts := memmove ((starts ri)[lo := ns]) (lo + 1) hi (n - hi),
             lens := memmove ((lens ri)[lo := nl]) (lo + 1) hi (n - hi),
             ri_count := n - (hi - lo - 1)\<rparr>" by auto
    moreover have "ivals ri' = splice (ivals ri) lo hi (ns, nl)"
      unfolding ri' ivals_update take_memmove_replace [OF True lh'(2) b(1)]
        take_memmove_replace [OF True lh'(2) b(2)]
      by (subst zip_splice) (use lh' b in \<open>auto simp: ivals_def n_def\<close>)
    ultimately show ?thesis
      using True lh' b m by (simp add: flip: lo_def hi_def)
  next
    case False
    then have hi: "hi = lo" using lh' by simp
    have m: "merged ri s len = (s, len)"
      using False by (simp add: merged_def flip: lo_def hi_def)
    show ?thesis
    proof (cases "n \<ge> ri_capacity ri \<and> \<not> (ok_s \<and> ok_l)")
      case True
      with add len False have "rc = -1"
        and "ri' = ri\<lparr>starts := (if ok_s then grow (ri_capacity ri * 2) (starts ri) else starts ri),
                      lens := (if ok_l then grow (ri_capacity ri * 2) (lens ri) else lens ri)\<rparr>"
        by (auto simp: intervals_add_def Let_def folds simp flip: n_def)
      then show ?thesis using b by (auto simp: ivals_def max_def simp flip: n_def)
    next
      case room: False
      define full where "full \<longleftrightarrow> n \<ge> ri_capacity ri"
      define ss where "ss = (if full then grow (ri_capacity ri * 2) (starts ri) else starts ri)"
      define ls where "ls = (if full then grow (ri_capacity ri * 2) (lens ri) else lens ri)"
      have l: "n < length ss" "n < length ls" "lo \<le> n"
        "take n ss = take n (starts ri)" "take n ls = take n (lens ri)"
        using b lh' hi by (auto simp: ss_def ls_def full_def)
      have "intervals_add ok_s ok_l ri s len =
        (0, ri\<lparr>starts := (memmove ss (Suc lo) lo (n - lo))[lo := s],
               lens := (memmove ls (Suc lo) lo (n - lo))[lo := len],
               ri_count := Suc n,
               ri_capacity := (if full then ri_capacity ri * 2 else ri_capacity ri)\<rparr>)"
        using room False len
        by (auto simp: intervals_add_def Let_def folds full_def ss_def ls_def simp flip: n_def)
      with add have "rc = 0" and ri': "ri' = ri\<lparr>starts := (memmove ss (Suc lo) lo (n - lo))[lo := s],
               lens := (memmove ls (Suc lo) lo (n - lo))[lo := len],
               ri_count := Suc n,
               ri_capacity := (if full then ri_capacity ri * 2 else ri_capacity ri)\<rparr>" by auto
      moreover have "ivals ri' = splice (ivals ri) lo hi (s, len)"
      proof -
        have tk: "take lo ss = take lo (starts ri)" "take lo ls = take lo (lens ri)"
          using l by (metis min.absorb1 take_take)+
        have "ivals ri' = zip (take lo ss @ s # drop lo (take n ss)) (take lo ls @ len # drop lo (take n ls))"
          unfolding ri' ivals_update using l by (simp add: take_memmove_open)
        then show ?thesis
          unfolding tk l(4,5) by (simp add: zip_splice b l hi) (simp add: ivals_def n_def)
      qed
      ultimately show ?thesis
        using b l m by (auto simp: full_def ss_def ls_def simp flip: lo_def hi_def)
    qed
  qed
qed

lemma merge_bounds:
  assumes inv: "intervals_inv ri" and nowrap: "unat s + unat len < 2 ^ 64"
  shows "merge_lo_of ri s \<le> merge_hi_of ri s len" "merge_hi_of ri s len \<le> ri_count ri"
    "\<And>i. i < merge_lo_of ri s \<Longrightarrow> ien (ivals ri ! i) < unat s"
    "\<And>i. merge_lo_of ri s \<le> i \<Longrightarrow> i < ri_count ri \<Longrightarrow> unat s \<le> ien (ivals ri ! i)"
    "\<And>i. merge_lo_of ri s \<le> i \<Longrightarrow> i < merge_hi_of ri s len \<Longrightarrow>
       ist (ivals ri ! i) \<le> unat s + unat len"
    "\<And>i. merge_hi_of ri s len \<le> i \<Longrightarrow> i < ri_count ri \<Longrightarrow>
       unat s + unat len < ist (ivals ri ! i)"
proof -
  have q: "unat (s + len) = unat s + unat len" using nowrap by (simp add: unat_add_no_wrap)
  note A = search_end_spec [OF inv, of "\<lambda>w. w \<ge> s" "\<lambda>v. v \<ge> unat s" "merge_lo_of ri s",
      OF word_le_nat_alt _ merge_lo_of_def]
  have lo: "merge_lo_of ri s \<le> ri_count ri" using A(1) by force
  note B = search_start_spec [OF inv lo merge_hi_of_def [of ri s len], unfolded q]
  show "merge_lo_of ri s \<le> merge_hi_of ri s len" "merge_hi_of ri s len \<le> ri_count ri"
    using B(1,2) .
  show "\<And>i. i < merge_lo_of ri s \<Longrightarrow> ien (ivals ri ! i) < unat s" using A(2) by force
  show "\<And>i. merge_lo_of ri s \<le> i \<Longrightarrow> i < ri_count ri \<Longrightarrow> unat s \<le> ien (ivals ri ! i)"
    using A(3) by force
  show "\<And>i. merge_lo_of ri s \<le> i \<Longrightarrow> i < merge_hi_of ri s len \<Longrightarrow>
       ist (ivals ri ! i) \<le> unat s + unat len" by (rule B(3))
  show "\<And>i. merge_hi_of ri s len \<le> i \<Longrightarrow> i < ri_count ri \<Longrightarrow>
       unat s + unat len < ist (ivals ri ! i)" by (rule B(4))
qed

lemma merged_nat:
  assumes inv: "intervals_inv ri" and nowrap: "unat s + unat len < 2 ^ 64"
    and lo: "lo = merge_lo_of ri s" and hi: "hi = merge_hi_of ri s len"
  shows "ist (merged ri s len) = (if lo < hi then min (unat s) (ist (ivals ri ! lo)) else unat s)"
    and "ien (merged ri s len) =
      (if lo < hi then max (unat s + unat len) (ien (ivals ri ! (hi - 1))) else unat s + unat len)"
proof -
  let ?xs = "ivals ri"
  have q: "unat (s + len) = unat s + unat len" using nowrap by (simp add: unat_add_no_wrap)
  have hin: "hi \<le> ri_count ri" using merge_bounds(2) [OF inv nowrap] hi by simp
  show 1: "ist (merged ri s len) = (if lo < hi then min (unat s) (ist (?xs ! lo)) else unat s)"
    using hin by (auto simp: merged_def Let_def ivals_nth [OF inv] word_less_nat_alt min_def
        simp flip: lo hi)
  show "ien (merged ri s len) =
      (if lo < hi then max (unat s + unat len) (ien (?xs ! (hi - 1))) else unat s + unat len)"
  proof (cases "lo < hi")
    case True
    then have k: "hi - 1 < ri_count ri" using hin by simp
    have "ien (?xs ! (hi - 1)) < 2 ^ 64"
      using inv k by (intro wf_ivals_nthD) (auto simp: intervals_inv_def length_ivals)
    then have we: "unat (starts ri ! (hi - 1) + lens ri ! (hi - 1)) = ien (?xs ! (hi - 1))"
      using word_end [of "?xs ! (hi - 1)"] by (simp only: ivals_nth [OF inv k] fst_conv snd_conv)
    define le where "le = starts ri ! (hi - 1) + lens ri ! (hi - 1)"
    define ne where "ne = (if le > s + len then le else s + len)"
    define ns where "ns = fst (merged ri s len)"
    have m: "merged ri s len = (ns, ne - ns)"
      using True by (simp add: ns_def merged_def Let_def ne_def le_def flip: lo hi)
    have ne: "unat ne = max (unat s + unat len) (ien (?xs ! (hi - 1)))"
      using we by (auto simp: ne_def le_def q word_less_nat_alt max_def)
    have "unat ns \<le> unat s" using 1 m by (auto split: if_splits)
    then have "ns \<le> ne" using ne by (simp add: word_le_nat_alt)
    then show ?thesis using True m ne by (simp add: unat_diff_le word_le_nat_alt)
  next
    case False
    then show ?thesis by (simp add: merged_def flip: lo hi)
  qed
qed

lemma intervals_add_model:
  assumes inv: "intervals_inv ri" and nowrap: "unat s + unat len < 2 ^ 64"
    and add: "intervals_add ok_s ok_l ri s len = (rc, ri')"
  shows "intervals_inv ri'"
    and "recorded ri' = (if rc = 0 then recorded ri \<union> {unat s ..< unat s + unat len} else recorded ri)"
proof -
  define lo where "lo = merge_lo_of ri s"
  define hi where "hi = merge_hi_of ri s len"
  define x where "x = merged ri s len"
  let ?xs = "ivals ri" and ?e = "unat s + unat len"
  have wf: "wf_ivals ?xs" and n: "length ?xs = ri_count ri"
    using inv by (auto simp: intervals_inv_def length_ivals)
  note B = merge_bounds [OF inv nowrap, folded lo_def hi_def n]
  note M = merged_nat [OF inv nowrap lo_def hi_def, folded x_def]
  have "wf_ivals (splice ?xs lo hi x) \<and> span (splice ?xs lo hi x) = span ?xs \<union> {unat s..<?e}" if "len \<noteq> 0"
  proof
    have ne: "unat s < ?e" using that by (simp add: unat_gt_0)
    have hi1: "lo < hi \<Longrightarrow> hi - 1 < length ?xs" using B(2) by auto
    have x: "ist x \<le> unat s" "?e \<le> ien x" using M by auto
    have "0 < snd x" using x ne by (simp add: word_gt_0 unat_gt_0 flip: unat_gt_0)
    moreover have "ien x < 2 ^ 64"
      using M(2) nowrap wf_ivals_nthD(2) [OF wf hi1] by auto
    moreover have "ien (?xs ! i) < ist x" if "i < lo" for i
      using M(1) B(3) [OF that] wf_ivals_order [OF wf that] B(1,2) by auto
    moreover have "ien x < ist (?xs ! i)" if "hi \<le> i" "i < length ?xs" for i
      using M(2) B(6) [OF that] wf_ivals_order [OF wf _ that(2), of "hi - 1"] that by auto
    ultimately show "wf_ivals (splice ?xs lo hi x)"
      using B(1,2) by (intro wf_ivals_splice [OF wf]) auto
    show "span (splice ?xs lo hi x) = span ?xs \<union> {unat s..<?e}"
    proof (rule span_splice [OF B(1,2)])
      fix i assume i: "lo \<le> i" "i < hi"
      then have "ist (?xs ! lo) \<le> ist (?xs ! i)" "ien (?xs ! i) \<le> ien (?xs ! (hi - 1))"
        using wf_ivals_mono [OF wf] B(2) by auto
      then show "{ist (?xs ! i) ..< ien (?xs ! i)} \<subseteq> {ist x ..< ien x}"
        using M i by (auto simp: le_max_iff_disj)
    next
      show "{unat s..<?e} \<subseteq> {ist x ..< ien x}" using x by auto
      show "{ist x ..< ien x} \<subseteq> {unat s..<?e} \<union> span ?xs"
      proof
        fix b assume b: "b \<in> {ist x ..< ien x}"
        consider "b < unat s" | "?e \<le> b" | "b \<in> {unat s..<?e}" by fastforce
        then show "b \<in> {unat s..<?e} \<union> span ?xs"
        proof cases
          case 1
          then have "lo < hi" "ist (?xs ! lo) \<le> b" using b M(1) by (auto split: if_splits)
          moreover from this have "unat s \<le> ien (?xs ! lo)" using B(2,4) by simp
          ultimately show ?thesis using 1 B(2) span_nthI [of lo ?xs b] by simp
        next
          case 2
          then have "lo < hi" "b < ien (?xs ! (hi - 1))" using b M(2) by (auto split: if_splits)
          moreover from this have "ist (?xs ! (hi - 1)) \<le> ?e" using B(5) [of "hi - 1"] by simp
          ultimately show ?thesis using 2 hi1 span_nthI [of "hi - 1" ?xs b] by simp
        qed simp
      qed
    qed
  qed
  moreover have "len = 0 \<Longrightarrow> rc = 0 \<and> ri' = ri" using add by (simp add: intervals_add_def)
  moreover note intervals_add_splice [OF inv _ add, folded lo_def hi_def x_def, folded n, OF _ B(1,2)]
  ultimately show "intervals_inv ri'"
    and "recorded ri' = (if rc = 0 then recorded ri \<union> {unat s ..< ?e} else recorded ri)"
    using inv by (cases "len = 0"; auto simp: intervals_inv_def recorded_def)+
qed

section \<open>The interface the recovery phases rely on\<close>

text \<open>
  The recovery code uses the set only through \<open>query\<close> and \<open>add\<close>: the pre-checks skip
  an output whose blocks are all recorded, and every dumped extent is recorded.  The
  locale states what those clients may assume.
\<close>

definition add_all :: "('s \<Rightarrow> u64 \<Rightarrow> u64 \<Rightarrow> int \<times> 's) \<Rightarrow> (u64 \<times> u64) list \<Rightarrow> 's \<Rightarrow> 's" where
  "add_all add xs st = fold (\<lambda>(s, l) t. snd (add t s l)) xs st"

locale dedup_set =
  fixes inv :: "'s \<Rightarrow> bool"
    and content :: "'s \<Rightarrow> nat set"
    and query :: "'s \<Rightarrow> u64 \<Rightarrow> u64 \<Rightarrow> nat"
    and add :: "'s \<Rightarrow> u64 \<Rightarrow> u64 \<Rightarrow> int \<times> 's"
  assumes query_full: "inv st \<Longrightarrow> 0 < len \<Longrightarrow> unat s + unat len < 2 ^ 64 \<Longrightarrow>
      query st s len = 1 \<longleftrightarrow> {unat s ..< unat s + unat len} \<subseteq> content st"
    and add_inv: "inv st \<Longrightarrow> unat s + unat len < 2 ^ 64 \<Longrightarrow> inv (snd (add st s len))"
    and add_content: "inv st \<Longrightarrow> unat s + unat len < 2 ^ 64 \<Longrightarrow>
      content (snd (add st s len)) =
        (if fst (add st s len) = 0 then content st \<union> {unat s ..< unat s + unat len} else content st)"
begin

lemma add_keeps: "inv st \<Longrightarrow> unat s + unat len < 2 ^ 64 \<Longrightarrow> content st \<subseteq> content (snd (add st s len))"
  by (simp add: add_content)

lemma add_all_inv:
  "inv st \<Longrightarrow> \<forall>(s, l) \<in> set xs. unat s + unat l < 2 ^ 64 \<Longrightarrow> inv (add_all add xs st)"
  by (induction xs arbitrary: st) (auto simp: add_all_def add_inv)

lemma add_all_keeps:
  "inv st \<Longrightarrow> \<forall>(s, l) \<in> set xs. unat s + unat l < 2 ^ 64 \<Longrightarrow> content st \<subseteq> content (add_all add xs st)"
proof (induction xs arbitrary: st)
  case (Cons x xs)
  obtain s l where x: "x = (s, l)" by force
  have "content st \<subseteq> content (snd (add st s l))"
    using Cons.prems x by (intro add_keeps) auto
  moreover have "content (snd (add st s l)) \<subseteq> content (add_all add xs (snd (add st s l)))"
    using Cons.prems x by (intro Cons.IH add_inv) auto
  ultimately show ?case by (simp add: add_all_def x)
qed (simp add: add_all_def)

text \<open>A range that a pre-check once found covered stays covered whatever is added later.\<close>

lemma covered_stays:
  assumes "inv st" "\<forall>(s, l) \<in> set xs. unat s + unat l < 2 ^ 64"
    and "0 < len" "unat s + unat len < 2 ^ 64" "query st s len = 1"
  shows "query (add_all add xs st) s len = 1"
proof -
  have "{unat s ..< unat s + unat len} \<subseteq> content st"
    using assms query_full by simp
  then have "{unat s ..< unat s + unat len} \<subseteq> content (add_all add xs st)"
    using add_all_keeps [OF assms(1,2)] by simp
  then show ?thesis
    using query_full [OF add_all_inv [OF assms(1,2)] assms(3,4)] by simp
qed

end

interpretation iv: dedup_set intervals_inv recorded "\<lambda>ri. intervals_query (Some ri)"
  "intervals_add ok_s ok_l" for ok_s ok_l
proof
  fix st and s len :: u64
  assume *: "intervals_inv st" "unat s + unat len < 2 ^ 64"
  obtain rc st' where add: "intervals_add ok_s ok_l st s len = (rc, st')" by force
  show "intervals_inv (snd (intervals_add ok_s ok_l st s len))"
    using intervals_add_model [OF * add] add by simp
  show "recorded (snd (intervals_add ok_s ok_l st s len)) =
     (if fst (intervals_add ok_s ok_l st s len) = 0
      then recorded st \<union> {unat s ..< unat s + unat len} else recorded st)"
    using intervals_add_model [OF * add] add by simp
next
  fix st and s len :: u64
  assume "intervals_inv st" "0 < len" "unat s + unat len < 2 ^ 64"
  then show "(intervals_query (Some st) s len = 1) = ({unat s ..< unat s + unat len} \<subseteq> recorded st)"
    by (simp add: intervals_query_model)
qed

section \<open>Properties\<close>

lemma intervals_init_inv: "intervals_init True = Some ri \<Longrightarrow> intervals_inv ri \<and> recorded ri = {}"
  by (auto simp: intervals_init_def intervals_inv_def wf_ivals_def recorded_def ivals_def
      INITIAL_CAPACITY_def)

lemma add_all_recorded:
  assumes "intervals_inv ri" "\<forall>(s, l) \<in> set xs. unat s + unat l < 2 ^ 64"
  shows "recorded (add_all (intervals_add True True) xs ri) =
         recorded ri \<union> (\<Union>(s, l) \<in> set xs. {unat s ..< unat s + unat l})"
  using assms
proof (induction xs arbitrary: ri)
  case (Cons x xs)
  obtain s l where x: "x = (s, l)" by force
  have rc: "fst (intervals_add True True ri s l) = 0"
    by (simp add: intervals_add_def Let_def)
  have nw: "unat s + unat l < 2 ^ 64" using Cons.prems x by auto
  have "recorded (snd (intervals_add True True ri s l)) = recorded ri \<union> {unat s ..< unat s + unat l}"
    using iv.add_content [OF Cons.prems(1) nw, of True True] rc by simp
  moreover have "intervals_inv (snd (intervals_add True True ri s l))"
    by (rule iv.add_inv [OF Cons.prems(1) nw])
  ultimately show ?case
    using Cons.IH [of "snd (intervals_add True True ri s l)"] Cons.prems x
    by (simp add: add_all_def Un_assoc)
qed (simp add: add_all_def)

lemma sum_list_unat:
  "sum_list (map unat (ws :: u64 list)) < 2 ^ 64 \<Longrightarrow> unat (sum_list ws) = sum_list (map unat ws)"
  by (induction ws) (auto simp: unat_add_no_wrap)

lemma card_span: "wf_ivals xs \<Longrightarrow> finite (span xs) \<and> card (span xs) = sum_list (map (unat \<circ> snd) xs)"
proof (induction xs)
  case (Cons x xs)
  have "{ist x ..< ien x} \<inter> span xs = {}"
    using Cons.prems by (fastforce simp: wf_ivals_def span_def)
  with Cons show ?case
    by (simp add: wf_ivals_def card_Un_disjoint)
qed simp

text \<open>\<open>intervals_query\<close> is exact.  On a well-formed set and a non-empty range whose
  end does not wrap, it returns 1 iff every block of the range is recorded, 0 iff none is,
  and 2 otherwise; the half-interval search and the single comparison with one stored interval suffice.\<close>

theorem intervals_query_exact:
  assumes "intervals_inv ri" and "0 < len" and "unat s + unat len < 2 ^ 64"
  shows "intervals_query (Some ri) s len =
    (if {unat s ..< unat s + unat len} \<subseteq> recorded ri then 1
     else if {unat s ..< unat s + unat len} \<inter> recorded ri = {} then 0 else 2)"
  using assms by (rule intervals_query_model)

definition ri_example :: recovered_intervals where
  "ri_example = \<lparr>starts = [10, 30, 0, 0], lens = [5, 5, 0, 0], ri_count = 2, ri_capacity = 4\<rparr>"

lemma ri_example_inv: "intervals_inv ri_example"
  by (simp add: ri_example_def intervals_inv_def wf_ivals_def ivals_def)

theorem intervals_query_exact_witness:
  "intervals_query (Some ri_example) 12 4 =
    (if {12 ..< 16} \<subseteq> recorded ri_example then 1
     else if {12 ..< 16} \<inter> recorded ri_example = {} then 0 else 2) \<and>
   intervals_query (Some ri_example) 12 4 = 2"
proof -
  have "intervals_query (Some ri_example) 12 4 = 2"
    by (simp add: ri_example_def intervals_query_def find_first_ge_def bsearch.simps)
  then show ?thesis
    using intervals_query_exact [OF ri_example_inv, of 4 12] by (simp cong: if_cong)
qed

text \<open>Property C14: \<open>intervals_add\<close> refines set union.  Whatever the two \<open>realloc\<close> calls return, the
  invariant (sorted, non-empty, pairwise non-adjacent intervals within capacity) is kept;
  a return of 0 means exactly the given blocks were added, a return of -1 means nothing
  changed, and -1 is returned only when an allocation failed.\<close>

theorem intervals_add_refines:
  assumes "intervals_inv ri" and "unat s + unat len < 2 ^ 64"
    and "intervals_add ok_s ok_l ri s len = (rc, ri')"
  shows "intervals_inv ri' \<and>
    (rc = 0 \<and> recorded ri' = recorded ri \<union> {unat s ..< unat s + unat len} \<or>
     rc = -1 \<and> \<not> (ok_s \<and> ok_l) \<and> recorded ri' = recorded ri)"
proof -
  have "rc = 0 \<or> rc = -1 \<and> \<not> (ok_s \<and> ok_l)"
    using assms(3) by (auto simp: intervals_add_def Let_def split: if_splits)
  then show ?thesis
    using intervals_add_model [OF assms] by auto
qed

theorem intervals_add_refines_witness:
  "intervals_add True True ri_example 15 15 =
     (0, ri_example\<lparr>starts := [10, 30, 0, 0], lens := [25, 5, 0, 0], ri_count := 1\<rparr>) \<and>
   recorded (ri_example\<lparr>starts := [10, 30, 0, 0], lens := [25, 5, 0, 0], ri_count := 1\<rparr>) =
     recorded ri_example \<union> {15 ..< 30}"
proof -
  have add: "intervals_add True True ri_example 15 15 =
     (0, ri_example\<lparr>starts := [10, 30, 0, 0], lens := [25, 5, 0, 0], ri_count := 1\<rparr>)"
    by (simp add: ri_example_def intervals_add_def bsearch.simps)
  show ?thesis
    using intervals_add_refines [OF ri_example_inv _ add] add by simp
qed

text \<open>End to end, from \<open>intervals_init\<close> through any sequence of additions, a range is
  reported as fully contained iff it lies in the union of everything added.\<close>

theorem intervals_history_exact:
  assumes "intervals_init True = Some ri" and "\<forall>(s, l) \<in> set xs. unat s + unat l < 2 ^ 64"
    and "0 < len" and "unat s + unat len < 2 ^ 64"
  shows "intervals_query (Some (add_all (intervals_add True True) xs ri)) s len = 1 \<longleftrightarrow>
    {unat s ..< unat s + unat len} \<subseteq> (\<Union>(a, l) \<in> set xs. {unat a ..< unat a + unat l})"
proof -
  have ri: "intervals_inv ri" "recorded ri = {}"
    using intervals_init_inv [OF assms(1)] by auto
  show ?thesis
    using iv.query_full [OF iv.add_all_inv [OF ri(1) assms(2)] assms(3,4), of True True]
    by (simp add: add_all_recorded [OF ri(1) assms(2)] ri(2))
qed

theorem intervals_history_exact_witness:
  "\<exists>ri. intervals_init True = Some ri \<and>
    (intervals_query (Some (add_all (intervals_add True True) [(5, 3), (8, 2)] ri)) 6 4 = 1)"
proof -
  obtain ri where ri: "intervals_init True = Some ri" by (simp add: intervals_init_def)
  have "{unat (6::u64) ..< unat (6::u64) + unat (4::u64)} \<subseteq>
        (\<Union>(a, l) \<in> set [(5::u64, 3::u64), (8, 2)]. {unat a ..< unat a + unat l})"
    by auto
  then show ?thesis
    using intervals_history_exact [OF ri, of "[(5, 3), (8, 2)]" 4 6] ri by simp
qed

text \<open>\<open>intervals_stats\<close> reports the number of distinct recorded blocks, with no
  wrap-around of the 64-bit sum.\<close>

lemma intervals_stats_exact:
  assumes "intervals_inv ri"
  shows "unat (snd (intervals_stats (Some ri))) = card (recorded ri) \<and>
         fst (intervals_stats (Some ri)) = length (ivals ri)"
proof -
  have wf: "wf_ivals (ivals ri)" using assms by (simp add: intervals_inv_def)
  have m: "map (unat \<circ> snd) (ivals ri) = map unat (take (ri_count ri) (lens ri))"
  proof -
    have "map snd (ivals ri) = take (ri_count ri) (lens ri)"
      using assms by (simp add: ivals_def intervals_inv_def)
    then show ?thesis by (metis map_map)
  qed
  have "recorded ri \<subseteq> {..< 2 ^ 64 - 1}"
    using wf by (force simp: recorded_def span_def wf_ivals_def)
  then have "card (recorded ri) < 2 ^ 64"
    using card_mono [of "{..< 2 ^ 64 - 1 :: nat}" "recorded ri"] by simp
  then show ?thesis
    using card_span [OF wf] m length_ivals [OF assms] sum_list_unat
    by (simp add: recorded_def intervals_stats_def)
qed

end
