(* ===== verification/Extent_Format.thy ===== *)
theory Extent_Format
  imports Prelude
begin

text \<open>
  The ext4 extent structures as the program reads them from raw blocks, and the
  validation routines of \<^verbatim>\<open>extent_validator_v5.c\<close> and \<^verbatim>\<open>extent_validator.c\<close>.  The byte
  layouts are those of the ext4 disk format (12-byte header, 12-byte extents and index
  entries, little endian).  Reading entry \<open>i\<close> outside the buffer is \<open>None\<close>.
\<close>

section \<open>On-disk structures\<close>

record ext3_extent_header =
  eh_magic :: u16
  eh_entries :: u16
  eh_max :: u16
  eh_depth :: u16

record ext3_extent =
  ee_block :: u32
  ee_len :: u16
  ee_start_hi :: u16
  ee_start :: u32

record ext3_extent_idx =
  ei_block :: u32
  ei_leaf :: u32
  ei_leaf_hi :: u16

definition EXT4_EXT_MAGIC :: u16 where
  "EXT4_EXT_MAGIC = 0xF30A"

definition header_at :: "buffer \<Rightarrow> ext3_extent_header" where
  "header_at buf = \<lparr>eh_magic = le16_at buf 0, eh_entries = le16_at buf 2,
                    eh_max = le16_at buf 4, eh_depth = le16_at buf 6\<rparr>"

definition extent_at :: "buffer \<Rightarrow> nat \<Rightarrow> ext3_extent ub" where
  "extent_at buf i =
     (let off = 12 + 12 * i in
      if off + 12 \<le> length buf
      then Some \<lparr>ee_block = le32_at buf off, ee_len = le16_at buf (off + 4),
                 ee_start_hi = le16_at buf (off + 6), ee_start = le32_at buf (off + 8)\<rparr>
      else None)"

definition idx_at :: "buffer \<Rightarrow> nat \<Rightarrow> ext3_extent_idx ub" where
  "idx_at buf i =
     (let off = 12 + 12 * i in
      if off + 12 \<le> length buf
      then Some \<lparr>ei_block = le32_at buf off, ei_leaf = le32_at buf (off + 4),
                 ei_leaf_hi = le16_at buf (off + 8)\<rparr>
      else None)"

text \<open>The first \<open>n\<close> entries, or undefined behaviour if one of them lies outside the buffer.\<close>

definition extents_at :: "buffer \<Rightarrow> nat \<Rightarrow> ext3_extent list ub" where
  "extents_at buf n = those (map (extent_at buf) [0..<n])"

definition idxs_at :: "buffer \<Rightarrow> nat \<Rightarrow> ext3_extent_idx list ub" where
  "idxs_at buf n = those (map (idx_at buf) [0..<n])"

text \<open>\<^verbatim>\<open>((__u64)hi << 32) + lo\<close>.\<close>

definition ee_phys :: "ext3_extent \<Rightarrow> u64" where
  "ee_phys e = push_bit 32 (ucast (ee_start_hi e)) + ucast (ee_start e)"

definition ei_phys :: "ext3_extent_idx \<Rightarrow> u64" where
  "ei_phys x = ucast (ei_leaf x) + push_bit 32 (ucast (ei_leaf_hi x))"

text \<open>\<^verbatim>\<open>if (len > 32768) len -= 32768;\<close>: the length of an uninitialised extent.\<close>

definition init_len :: "u16 \<Rightarrow> u16" where
  "init_len l = (if l > 32768 then l - 32768 else l)"

section \<open>Validation\<close>

definition calculate_max_entries :: "int \<Rightarrow> bool \<Rightarrow> int" where
  "calculate_max_entries blocksize is_leaf =
     (let available_space = blocksize - 12;
          entry_size = (if is_leaf then 12 else 12)
      in if available_space < 0 then - ((- available_space) div entry_size)
         else available_space div entry_size)"

definition validate_extent_header :: "ext3_extent_header option \<Rightarrow> int \<Rightarrow> bool" where
  "validate_extent_header ehp blocksize =
     (case ehp of None \<Rightarrow> False
      | Some eh \<Rightarrow>
         if eh_magic eh \<noteq> EXT4_EXT_MAGIC then False
         else if eh_depth eh > 5 then False
         else let max_possible = calculate_max_entries blocksize (eh_depth eh = 0) in
              if uint (eh_max eh) > max_possible then False
              else if eh_entries eh > eh_max eh then False
              else True)"

definition extents_equal :: "ext3_extent \<Rightarrow> ext3_extent \<Rightarrow> bool" where
  "extents_equal e1 e2 \<longleftrightarrow> ee_block e1 = ee_block e2 \<and> ee_len e1 = ee_len e2 \<and>
     ee_start e1 = ee_start e2 \<and> ee_start_hi e1 = ee_start_hi e2"

text \<open>The scan for a duplicate among \<open>extents[0..<unique_count]\<close>, with its early exit.\<close>

function is_duplicate :: "ext3_extent list \<Rightarrow> ext3_extent \<Rightarrow> nat \<Rightarrow> nat \<Rightarrow> bool" where
  "is_duplicate xs e j unique_count =
     (if j < unique_count
      then (if extents_equal e (xs ! j) then True else is_duplicate xs e (Suc j) unique_count)
      else False)"
  by pat_completeness auto
termination
  by (relation "measure (\<lambda>(xs, e, j, uc). uc - j)") auto

function dedup_loop :: "ext3_extent list \<Rightarrow> nat \<Rightarrow> nat \<Rightarrow> nat \<Rightarrow> nat \<times> ext3_extent list" where
  "dedup_loop xs cnt i unique_count =
     (if i < cnt then
        (if is_duplicate xs (xs ! i) 0 unique_count
         then dedup_loop xs cnt (Suc i) unique_count
         else dedup_loop (if unique_count \<noteq> i then xs[unique_count := xs ! i] else xs)
                cnt (Suc i) (Suc unique_count))
      else (unique_count, xs))"
  by pat_completeness auto
termination
  by (relation "measure (\<lambda>(xs, cnt, i, uc). cnt - i)") auto

declare is_duplicate.simps [simp del] dedup_loop.simps [simp del]

definition deduplicate_extents :: "ext3_extent list \<Rightarrow> nat \<Rightarrow> nat \<times> ext3_extent list" where
  "deduplicate_extents extents cnt =
     (if cnt \<le> 1 then (cnt, extents) else dedup_loop extents cnt 1 1)"

definition validate_extent_idx :: "ext3_extent_idx option \<Rightarrow> u64 \<Rightarrow> bool" where
  "validate_extent_idx eip device_blocks =
     (case eip of None \<Rightarrow> False
      | Some ei \<Rightarrow> (let leaf = ei_phys ei in
                    if leaf = 0 \<or> leaf \<ge> device_blocks then False else True))"

section \<open>Further routines of the earlier validator\<close>

function clean_loop :: "ext3_extent list \<Rightarrow> nat \<Rightarrow> u64 \<Rightarrow> nat \<Rightarrow> nat \<Rightarrow> nat \<times> ext3_extent list" where
  "clean_loop xs cnt device_blocks i clean_count =
     (if i < cnt then
        (let len = ee_len (xs ! i); start = ee_phys (xs ! i) in
         if len = 0 \<or> start = 0 then clean_loop xs cnt device_blocks (Suc i) clean_count
         else if start + ucast len > device_blocks then clean_loop xs cnt device_blocks (Suc i) clean_count
         else clean_loop (if clean_count \<noteq> i then xs[clean_count := xs ! i] else xs)
                cnt device_blocks (Suc i) (Suc clean_count))
      else (clean_count, xs))"
  by pat_completeness auto
termination
  by (relation "measure (\<lambda>(xs, cnt, d, i, c). cnt - i)") auto

declare clean_loop.simps [simp del]

definition validate_and_clean_extents ::
  "ext3_extent list \<Rightarrow> nat \<Rightarrow> u64 \<Rightarrow> nat \<times> ext3_extent list" where
  "validate_and_clean_extents extents cnt device_blocks =
     (case clean_loop extents cnt device_blocks 0 0 of
        (clean_count, xs) \<Rightarrow> deduplicate_extents xs clean_count)"

definition validate_extent_tree :: "buffer \<Rightarrow> int \<Rightarrow> u16 \<Rightarrow> u64 \<Rightarrow> bool ub" where
  "validate_extent_tree buf blocksize max_depth device_blocks =
     (let eh = header_at buf; n = unat (eh_entries eh) in
      if \<not> validate_extent_header (Some eh) blocksize then Some False
      else if eh_depth eh > max_depth then Some False
      else if eh_depth eh = 0 then
        map_option (list_all (\<lambda>ee. \<not> (ee_phys ee + ucast (ee_len ee) > device_blocks)))
          (extents_at buf n)
      else
        map_option (list_all (\<lambda>ei. validate_extent_idx (Some ei) device_blocks)) (idxs_at buf n))"

text \<open>The loop of \<open>scan_residual_extent_pointers\<close>; \<open>acc\<close> is the output array, in order.\<close>

function residual_loop :: "buffer \<Rightarrow> nat \<Rightarrow> nat \<Rightarrow> nat \<Rightarrow> u64 list \<Rightarrow> u64 list ub" where
  "residual_loop buf i max_entries max_residual acc =
     (if i < max_entries \<and> length acc < max_residual then
        (case idx_at buf i of None \<Rightarrow> None
         | Some ei \<Rightarrow>
            (let leaf = ei_phys ei in
             residual_loop buf (Suc i) max_entries max_residual
               (if leaf > 0 \<and> leaf < push_bit 48 1 then acc @ [leaf] else acc)))
      else Some acc)"
  by pat_completeness auto
termination
  by (relation "measure (\<lambda>(buf, i, m, r, acc). m - i)") auto

declare residual_loop.simps [simp del]

definition scan_residual_extent_pointers :: "buffer \<Rightarrow> int \<Rightarrow> nat \<Rightarrow> u64 list ub" where
  "scan_residual_extent_pointers buf blocksize max_residual =
     (let eh = header_at buf; max_entries = calculate_max_entries blocksize False in
      if eh_depth eh = 0 then Some []
      else residual_loop buf (unat (eh_entries eh)) (nat max_entries) max_residual [])"

section \<open>Decoding lemmas\<close>

lemma those_eq_Some: "those (map f xs) = Some ys \<longleftrightarrow> length ys = length xs \<and> (\<forall>i < length xs. f (xs ! i) = Some (ys ! i))"
proof (induction xs arbitrary: ys)
  case (Cons x xs)
  show ?case
    by (cases ys; cases "f x") (auto simp: Cons less_Suc_eq_0_disj split: option.splits)
qed auto

lemma those_upt: "(\<And>i. i < n \<Longrightarrow> f i \<noteq> None) \<Longrightarrow> those (map f [0..<n]) = Some (map (the \<circ> f) [0..<n])"
  by (auto simp: those_eq_Some)

lemma extents_at_in_bounds [fmt_simps]:
  "12 + 12 * n \<le> length buf \<Longrightarrow> extents_at buf n = Some (map (the \<circ> extent_at buf) [0..<n])"
  by (auto simp: extents_at_def extent_at_def Let_def intro!: those_upt)

lemma idxs_at_in_bounds [fmt_simps]:
  "12 + 12 * n \<le> length buf \<Longrightarrow> idxs_at buf n = Some (map (the \<circ> idx_at buf) [0..<n])"
  by (auto simp: idxs_at_def idx_at_def Let_def intro!: those_upt)

lemma extents_at_bound:
  "extents_at buf n = Some xs \<Longrightarrow> length xs = n \<and> (n > 0 \<longrightarrow> 12 + 12 * n \<le> length buf)"
proof
  assume "extents_at buf n = Some xs"
  then have *: "length xs = n" "\<forall>i < n. extent_at buf i = Some (xs ! i)"
    by (auto simp: extents_at_def those_eq_Some)
  then show "length xs = n" by simp
  show "n > 0 \<longrightarrow> 12 + 12 * n \<le> length buf"
  proof
    assume "n > 0"
    then have "extent_at buf (n - 1) = Some (xs ! (n - 1))" using * by simp
    then have "12 + 12 * (n - 1) + 12 \<le> length buf"
      by (auto simp: extent_at_def Let_def split: if_splits)
    with \<open>n > 0\<close> show "12 + 12 * n \<le> length buf" by simp
  qed
qed

text \<open>Physical block numbers are 48 bits wide, so 64-bit sums with a length never wrap.\<close>

lemma ee_phys_less: "unat (ee_phys e) < 2 ^ 48"
  unfolding ee_phys_def by (rule block48_less)

lemma ei_phys_less: "unat (ei_phys x) < 2 ^ 48"
  unfolding ei_phys_def by (subst add.commute) (rule block48_less)

lemma unat_phys_len: "unat (ee_phys e + ucast (l :: u16)) = unat (ee_phys e) + unat l"
  using ee_phys_less [of e] u16_less [of l]
  by (subst unat_add_no_wrap) (simp_all add: unat_ucast_up)

lemma phys_len_nowrap: "unat (ee_phys e) + unat (ucast (l :: u16) :: u64) < 2 ^ 64"
  using ee_phys_less [of e] u16_less [of l] by (simp add: unat_ucast_up)

lemma init_len_bound: "unat (init_len l) \<le> 32768 \<and> (init_len l = 0 \<longleftrightarrow> l = 0)"
proof (cases "l > 32768")
  case True
  then have "unat l > 32768" "(32768 :: u16) \<le> l" by (auto simp: word_less_nat_alt word_le_nat_alt)
  moreover from this have "unat (l - 32768) = unat l - 32768"
    by (simp add: unat_sub)
  ultimately show ?thesis
    using True u16_less [of l] by (auto simp: init_len_def simp flip: unat_eq_zero)
next
  case False
  then show ?thesis by (auto simp: init_len_def word_less_nat_alt)
qed

section \<open>Header validation\<close>

lemma calculate_max_entries_nat:
  "12 \<le> bs \<Longrightarrow> calculate_max_entries (int bs) b = int ((bs - 12) div 12)"
  by (simp add: calculate_max_entries_def zdiv_int of_nat_diff)

lemma validate_entries_fit:
  assumes "validate_extent_header (Some eh) (int bs)" and "12 \<le> bs"
  shows "12 + 12 * unat (eh_entries eh) \<le> bs"
proof -
  have "uint (eh_max eh) \<le> int ((bs - 12) div 12)" "eh_entries eh \<le> eh_max eh"
    using assms by (auto simp: validate_extent_header_def calculate_max_entries_nat Let_def
        split: if_splits)
  then have "int (unat (eh_max eh)) \<le> int ((bs - 12) div 12)" "unat (eh_entries eh) \<le> unat (eh_max eh)"
    by (simp_all add: word_le_nat_alt)
  then have "unat (eh_entries eh) \<le> (bs - 12) div 12"
    unfolding of_nat_le_iff by (rule le_trans [rotated])
  then show ?thesis using assms(2) by auto
qed

section \<open>Deduplication\<close>

lemma extents_equal_eq [simp]: "extents_equal e1 e2 \<longleftrightarrow> e1 = e2"
  by (cases e1; cases e2) (auto simp: extents_equal_def)

lemma is_duplicate_mem:
  "is_duplicate xs e j uc \<longleftrightarrow> (\<exists>k. j \<le> k \<and> k < uc \<and> xs ! k = e)"
proof (induction xs e j uc rule: is_duplicate.induct)
  case (1 xs e j uc)
  have "(\<exists>k. j \<le> k \<and> k < uc \<and> xs ! k = e) \<longleftrightarrow>
        xs ! j = e \<or> (\<exists>k. Suc j \<le> k \<and> k < uc \<and> xs ! k = e)" if "j < uc"
    using that by (metis Suc_leD Suc_leI le_neq_implies_less order_refl)
  with "1" show ?case
    by (cases "j < uc") (auto simp: is_duplicate.simps [of xs e j])
qed

text \<open>The reference: keep the first occurrence of every extent, in order.\<close>

definition keep_first :: "'a list \<Rightarrow> 'a list" where
  "keep_first xs = rev (remdups (rev xs))"

lemma keep_first_snoc:
  "keep_first (xs @ [x]) = (if x \<in> set xs then keep_first xs else keep_first xs @ [x])"
  by (simp add: keep_first_def)

lemma set_keep_first [simp]: "set (keep_first xs) = set xs"
  by (simp add: keep_first_def)

lemma distinct_keep_first [simp]: "distinct (keep_first xs)"
  by (simp add: keep_first_def)

lemma dedup_loop_correct:
  assumes "uc \<le> i" "i \<le> cnt" "cnt \<le> length xs" "length orig = length xs"
    and "take uc xs = keep_first (take i orig)" and "drop i xs = drop i orig"
    and "dedup_loop xs cnt i uc = (uc', xs')"
  shows "uc' \<le> cnt \<and> length xs' = length xs \<and> take uc' xs' = keep_first (take cnt orig) \<and>
         drop cnt xs' = drop cnt orig"
  using assms
proof (induction xs cnt i uc rule: dedup_loop.induct)
  case (1 xs cnt i uc)
  show ?case
  proof (cases "i < cnt")
    case False
    then show ?thesis using "1.prems" by (simp add: dedup_loop.simps [of xs])
  next
    case True
    then have i: "i < length xs" "i < length orig" using "1.prems" by auto
    have xi: "xs ! i = orig ! i"
      using "1.prems"(6) i by (metis hd_drop_conv_nth)
    have tk: "take (Suc i) orig = take i orig @ [xs ! i]"
      using i by (simp add: take_Suc_conv_app_nth xi)
    have dup: "is_duplicate xs (xs ! i) 0 uc \<longleftrightarrow> xs ! i \<in> set (take i orig)"
    proof -
      have "is_duplicate xs (xs ! i) 0 uc \<longleftrightarrow> xs ! i \<in> set (take uc xs)"
        using "1.prems"(1) i by (force simp: is_duplicate_mem in_set_conv_nth)
      then show ?thesis by (simp add: "1.prems"(5))
    qed
    have dr: "drop (Suc i) xs = drop (Suc i) orig"
      using "1.prems"(6) by (metis drop_Suc tl_drop)
    show ?thesis
    proof (cases "is_duplicate xs (xs ! i) 0 uc")
      case D: True
      show ?thesis
        using "1.prems" True D dup tk dr
        by (intro "1.IH"(1)) (auto simp: keep_first_snoc dedup_loop.simps [of xs])
    next
      case N: False
      let ?xs = "if uc \<noteq> i then xs[uc := xs ! i] else xs"
      have "take (Suc uc) ?xs = take uc xs @ [xs ! i]"
        using "1.prems"(1) i by (auto simp: take_Suc_conv_app_nth)
      then have "take (Suc uc) ?xs = keep_first (take (Suc i) orig)"
        using N dup tk "1.prems"(5) by (simp add: keep_first_snoc)
      moreover have "drop (Suc i) ?xs = drop (Suc i) orig"
        using dr "1.prems"(1) by auto
      ultimately have "uc' \<le> cnt \<and> length xs' = length ?xs \<and> take uc' xs' = keep_first (take cnt orig) \<and>
         drop cnt xs' = drop cnt orig"
        using "1.prems" True N
        by (intro "1.IH"(2)) (auto simp: dedup_loop.simps [of xs])
      then show ?thesis by (simp split: if_splits)
    qed
  qed
qed

lemma deduplicate_extents_model:
  assumes "cnt \<le> length xs" "deduplicate_extents xs cnt = (uc, xs')"
  shows "uc \<le> cnt \<and> length xs' = length xs \<and> take uc xs' = keep_first (take cnt xs) \<and>
         drop cnt xs' = drop cnt xs"
proof (cases "cnt \<le> 1")
  case True
  then have "keep_first (take cnt xs) = take cnt xs"
    by (cases xs; cases cnt) (auto simp: keep_first_def)
  with True assms show ?thesis by (auto simp: deduplicate_extents_def)
next
  case False
  have "take 1 xs = keep_first (take 1 xs)" by (cases xs) (auto simp: keep_first_def)
  with False assms show ?thesis
    using dedup_loop_correct [of 1 1 cnt xs xs uc xs'] by (simp add: deduplicate_extents_def)
qed

section \<open>Cleaning\<close>

definition extent_ok :: "u64 \<Rightarrow> ext3_extent \<Rightarrow> bool" where
  "extent_ok device_blocks e \<longleftrightarrow> ee_len e \<noteq> 0 \<and> ee_phys e \<noteq> 0 \<and>
     unat (ee_phys e) + unat (ee_len e) \<le> unat device_blocks"

lemma clean_loop_correct:
  assumes "c \<le> i" "i \<le> cnt" "cnt \<le> length xs" "length orig = length xs"
    and "take c xs = filter (extent_ok d) (take i orig)" and "drop i xs = drop i orig"
    and "clean_loop xs cnt d i c = (c', xs')"
  shows "c' \<le> cnt \<and> length xs' = length xs \<and> take c' xs' = filter (extent_ok d) (take cnt orig)"
  using assms
proof (induction xs cnt d i c rule: clean_loop.induct)
  case (1 xs cnt d i c)
  show ?case
  proof (cases "i < cnt")
    case False
    then show ?thesis using "1.prems" by (simp add: clean_loop.simps [of xs])
  next
    case True
    then have i: "i < length xs" "i < length orig" using "1.prems" by auto
    have xi: "xs ! i = orig ! i"
      using "1.prems"(6) i by (metis hd_drop_conv_nth)
    have tk: "take (Suc i) orig = take i orig @ [xs ! i]"
      using i by (simp add: take_Suc_conv_app_nth xi)
    have dr: "drop (Suc i) xs = drop (Suc i) orig"
      using "1.prems"(6) by (metis drop_Suc tl_drop)
    let ?xs = "if c \<noteq> i then xs[c := xs ! i] else xs"
    have bad: "clean_loop xs cnt d i c = clean_loop xs cnt d (Suc i) c" if "\<not> extent_ok d (xs ! i)"
      using that True
      by (subst clean_loop.simps) (auto simp: extent_ok_def Let_def word_less_nat_alt unat_phys_len)
    have good: "clean_loop xs cnt d i c = clean_loop ?xs cnt d (Suc i) (Suc c)" if "extent_ok d (xs ! i)"
      using that True
      by (subst clean_loop.simps) (auto simp: extent_ok_def Let_def word_less_nat_alt unat_phys_len)
    consider (zero) "ee_len (xs ! i) = 0 \<or> ee_phys (xs ! i) = 0"
      | (out) "\<not> (ee_len (xs ! i) = 0 \<or> ee_phys (xs ! i) = 0)"
          "d < ee_phys (xs ! i) + ucast (ee_len (xs ! i))"
      | (ok) "extent_ok d (xs ! i)"
      unfolding extent_ok_def word_less_nat_alt unat_phys_len by linarith
    then show ?thesis
    proof cases
      case zero
      then have nok: "\<not> extent_ok d (xs ! i)" by (auto simp: extent_ok_def)
      show ?thesis
        by (rule "1.IH"(1) [OF True refl refl zero])
           (use "1.prems" True nok tk dr bad [OF nok] in simp_all)
    next
      case out
      then have nok: "\<not> extent_ok d (xs ! i)"
        by (auto simp: extent_ok_def word_less_nat_alt unat_phys_len)
      show ?thesis
        by (rule "1.IH"(2) [OF True refl refl out])
           (use "1.prems" True nok tk dr bad [OF nok] in simp_all)
    next
      case ok
      have "take (Suc c) ?xs = take c xs @ [xs ! i]"
        using "1.prems"(1) i by (auto simp: take_Suc_conv_app_nth)
      then have "take (Suc c) ?xs = filter (extent_ok d) (take (Suc i) orig)"
        using ok tk "1.prems"(5) by simp
      moreover have "drop (Suc i) ?xs = drop (Suc i) orig"
        using dr "1.prems"(1) by auto
      moreover have "\<not> (ee_len (xs ! i) = 0 \<or> ee_phys (xs ! i) = 0)"
        "\<not> d < ee_phys (xs ! i) + ucast (ee_len (xs ! i))"
        using ok by (auto simp: extent_ok_def word_less_nat_alt unat_phys_len)
      ultimately have "c' \<le> cnt \<and> length xs' = length ?xs \<and> take c' xs' = filter (extent_ok d) (take cnt orig)"
        using "1.prems" True good [OF ok] by (intro "1.IH"(3)) auto
      then show ?thesis by (simp split: if_splits)
    qed
  qed
qed

section \<open>Properties\<close>

text \<open>Property C23: a header that passes \<open>validate_extent_header\<close> makes every entry it announces
  readable: neither the leaf nor the index loop over a block of that size leaves the buffer.\<close>

theorem validated_entries_in_bounds:
  assumes "validate_extent_header (Some (header_at buf)) (int (length buf))" and "12 \<le> length buf"
  shows "(\<exists>es. extents_at buf (unat (eh_entries (header_at buf))) = Some es) \<and>
         (\<exists>xs. idxs_at buf (unat (eh_entries (header_at buf))) = Some xs)"
  using validate_entries_fit [OF assms] by (simp add: fmt_simps)

definition leaf_example :: buffer where
  "leaf_example = le_bytes 2 0xF30A @ le_bytes 2 1 @ le_bytes 2 2 @ le_bytes 2 0 @ le_bytes 4 0 @
     le_bytes 4 0 @ le_bytes 2 3 @ le_bytes 2 0 @ le_bytes 4 7 @ replicate 12 0"

theorem validated_entries_in_bounds_witness:
  "validate_extent_header (Some (header_at leaf_example)) (int (length leaf_example)) \<and>
   (\<exists>es. extents_at leaf_example (unat (eh_entries (header_at leaf_example))) = Some es)"
proof -
  have v: "validate_extent_header (Some (header_at leaf_example)) (int (length leaf_example))"
    by (simp add: leaf_example_def header_at_def le16_at_def sub_buf_def validate_extent_header_def
        EXT4_EXT_MAGIC_def calculate_max_entries_def)
  have "12 \<le> length leaf_example" by (simp add: leaf_example_def)
  with v show ?thesis using validated_entries_in_bounds [OF v] by blast
qed

text \<open>The result of \<open>deduplicate_extents\<close>: it compacts in place to exactly the first occurrences,
  in their original order, and leaves the array beyond \<open>cnt\<close> alone.\<close>

theorem deduplicate_extents_correct:
  assumes "cnt \<le> length xs" and "deduplicate_extents xs cnt = (uc, xs')"
  shows "take uc xs' = keep_first (take cnt xs) \<and> uc = card (set (take cnt xs)) \<and>
         drop cnt xs' = drop cnt xs \<and> length xs' = length xs"
proof -
  note D = deduplicate_extents_model [OF assms]
  then have "uc \<le> length xs'" using assms(1) by linarith
  then have "uc = length (keep_first (take cnt xs))" using D by (metis length_take min.absorb2)
  then have "uc = card (set (take cnt xs))"
    using distinct_card [OF distinct_keep_first, of "take cnt xs"] by simp
  with D show ?thesis by simp
qed

definition ext_example :: "nat \<Rightarrow> ext3_extent" where
  "ext_example n = \<lparr>ee_block = of_nat n, ee_len = 1, ee_start_hi = 0, ee_start = 9\<rparr>"

theorem deduplicate_extents_correct_witness:
  "deduplicate_extents [ext_example 1, ext_example 2, ext_example 1, ext_example 3] 4 =
     (3, [ext_example 1, ext_example 2, ext_example 3, ext_example 3]) \<and>
   take 3 [ext_example 1, ext_example 2, ext_example 3, ext_example 3] =
     keep_first [ext_example 1, ext_example 2, ext_example 1, ext_example 3]"
proof -
  have d: "deduplicate_extents [ext_example 1, ext_example 2, ext_example 1, ext_example 3] 4 =
     (3, [ext_example 1, ext_example 2, ext_example 3, ext_example 3])"
    by code_simp
  show ?thesis using deduplicate_extents_correct [OF _ d] d by simp
qed

text \<open>\<open>validate_and_clean_extents\<close> returns each extent that is non-empty and lies on
  the device, once, in order.\<close>

theorem validate_and_clean_correct:
  assumes "cnt \<le> length xs" and "validate_and_clean_extents xs cnt d = (n, xs')"
  shows "take n xs' = keep_first (filter (extent_ok d) (take cnt xs))"
proof -
  obtain c ys where c: "clean_loop xs cnt d 0 0 = (c, ys)" by force
  have C: "c \<le> cnt" "length ys = length xs" "take c ys = filter (extent_ok d) (take cnt xs)"
    using clean_loop_correct [of 0 0 cnt xs xs d c ys] assms(1) c by auto
  have "deduplicate_extents ys c = (n, xs')"
    using assms(2) c by (simp add: validate_and_clean_extents_def)
  then show ?thesis
    using deduplicate_extents_model [of c ys n xs'] C assms(1) by simp
qed

theorem validate_and_clean_correct_witness:
  "take 1 (snd (validate_and_clean_extents [(ext_example 4)\<lparr>ee_start := 99\<rparr>, ext_example 5, ext_example 5] 3 50))
     = [ext_example 5]"
proof -
  let ?xs = "[(ext_example 4)\<lparr>ee_start := 99\<rparr>, ext_example 5, ext_example 5]"
  have v: "validate_and_clean_extents ?xs 3 50 = (1, [ext_example 5, ext_example 5, ext_example 5])"
    by code_simp
  have "keep_first (filter (extent_ok 50) (take 3 ?xs)) = [ext_example 5]"
    by code_simp
  then show ?thesis using validate_and_clean_correct [OF _ v] v by simp
qed

end
