(* ===== verification/Open_Addressing.thy ===== *)
theory Open_Addressing
  imports Prelude
begin

text \<open>
  Open addressing with linear probing and no deletion, as used by the filename index of
  \<^verbatim>\<open>utils_v5.c\<close> (32-bit inode keys) and by the recovered-block set of
  \<^verbatim>\<open>aggressive_scan_v5.c\<close> (64-bit block keys).  Key 0 marks an empty slot and the table
  size is a power of two.  The probing loop has no bound in the program; here it takes
  fuel, \<open>None\<close> means that it is still running, and \<open>probe_finds\<close> shows that the table
  size is always enough fuel when a slot is free.
\<close>

section \<open>The probing loop\<close>

text \<open>\<^verbatim>\<open>while (keys[h] != 0 && keys[h] != k) h = (h + 1) & mask;\<close>\<close>

primrec probe :: "nat \<Rightarrow> 'w::len word list \<Rightarrow> 'w word \<Rightarrow> 'w word \<Rightarrow> 'w word \<Rightarrow> 'w word option" where
  "probe 0 keys msk k h = None"
| "probe (Suc fuel) keys msk k h =
     (if keys ! unat h = 0 \<or> keys ! unat h = k then Some h
      else probe fuel keys msk k ((h + 1) AND msk))"

text \<open>\<^verbatim>\<open>while (ns < min_size * 2) ns <<= 1;\<close> for a positive start.\<close>

function pow2_above :: "nat \<Rightarrow> nat \<Rightarrow> nat" where
  "pow2_above ns want = (if 0 < ns \<and> ns < want then pow2_above (ns * 2) want else ns)"
  by pat_completeness auto
termination
  by (relation "measure (\<lambda>(ns, want). want - ns)") auto

declare pow2_above.simps [simp del]

lemma pow2_above_ge: "0 < ns \<Longrightarrow> want \<le> pow2_above ns want"
proof (induction ns want rule: pow2_above.induct)
  case (1 ns want)
  then show ?case by (cases "ns < want") (simp_all add: pow2_above.simps [of ns])
qed

lemma pow2_above_pow2: "\<exists>m. pow2_above (2 ^ n) want = 2 ^ (n + m) \<and> (m = 0 \<or> 2 ^ (n + m) < 2 * want)"
proof (induction "(2::nat) ^ n" want arbitrary: n rule: pow2_above.induct)
  case (1 want)
  show ?case
  proof (cases "2 ^ n < want")
    case False
    then show ?thesis by (intro exI [of _ 0]) (simp add: pow2_above.simps [of "2 ^ n"])
  next
    case True
    then obtain m where "pow2_above (2 ^ Suc n) want = 2 ^ (Suc n + m)"
      "m = 0 \<or> (2::nat) ^ (Suc n + m) < 2 * want"
      using "1" [of "Suc n"] by (auto simp: mult.commute)
    with True show ?thesis
      by (intro exI [of _ "Suc m"]) (auto simp: pow2_above.simps [of "2 ^ n"] mult.commute)
  qed
qed

section \<open>Linear probing on indices\<close>

text \<open>
  \<open>hash n k\<close> is the start slot of key \<open>k\<close> in a table of \<open>2 ^ n\<close> slots.
  \<open>table_ok\<close>: a key occurs once, and every slot between its start slot and its position
  is occupied.
\<close>

definition table_ok :: "(nat \<Rightarrow> 'w::len word \<Rightarrow> nat) \<Rightarrow> nat \<Rightarrow> 'w word list \<Rightarrow> bool" where
  "table_ok hash n keys \<longleftrightarrow> length keys = 2 ^ n \<and>
     (\<forall>i < 2 ^ n. \<forall>j < 2 ^ n. keys ! i = keys ! j \<longrightarrow> keys ! i \<noteq> 0 \<longrightarrow> i = j) \<and>
     (\<forall>i < 2 ^ n. keys ! i \<noteq> 0 \<longrightarrow>
        (\<exists>d < 2 ^ n. i = (hash n (keys ! i) + d) mod 2 ^ n \<and>
           (\<forall>d' < d. keys ! ((hash n (keys ! i) + d') mod 2 ^ n) \<noteq> 0)))"

lemma slot_reached:
  assumes "i < 2 ^ n" "h < 2 ^ n"
  shows "\<exists>d < 2 ^ n. (h + d) mod 2 ^ n = (i::nat)"
proof (intro exI conjI)
  show "(i + 2 ^ n - h) mod 2 ^ n < 2 ^ n" by simp
  have "(h + (i + 2 ^ n - h) mod 2 ^ n) mod 2 ^ n = (h + (i + 2 ^ n - h)) mod 2 ^ n"
    by (simp add: mod_add_right_eq)
  also have "h + (i + 2 ^ n - h) = i + 2 ^ n" using assms by simp
  finally show "(h + (i + 2 ^ n - h) mod 2 ^ n) mod 2 ^ n = i" using assms by simp
qed

lemma offset_inj:
  assumes "(h + d) mod m = (h + d') mod m" "d < m" "d' < (m::nat)"
  shows "d = d'"
proof -
  have aux: "a = b" if "(h + a) mod m = (h + b) mod m" "a \<le> b" "b < m" for a b
  proof -
    have "m dvd (h + b) - (h + a)"
      using that by (metis add_le_cancel_left mod_eq_dvd_iff_nat)
    then have "m dvd b - a" by simp
    then show ?thesis using that by (auto dest: dvd_imp_le)
  qed
  show ?thesis using aux [of d d'] aux [of d' d] assms by (cases "d \<le> d'") auto
qed

locale open_addressing =
  fixes hash :: "nat \<Rightarrow> 'w::len word \<Rightarrow> 'w word"
  assumes hash_less: "n < LENGTH('w) \<Longrightarrow> unat (hash n k) < 2 ^ n"
begin

lemma probe_nat:
  fixes keys :: "'w word list"
  assumes n: "n < LENGTH('w)" and h: "unat h < 2 ^ n"
    and stop: "keys ! ((unat h + d) mod 2 ^ n) \<in> {0, k}"
    and go: "\<And>d'. d' < d \<Longrightarrow> keys ! ((unat h + d') mod 2 ^ n) \<notin> {0, k}"
    and fuel: "d < fuel"
  shows "\<exists>r. probe fuel keys (of_nat (2 ^ n - 1)) k h = Some r \<and> unat r = (unat h + d) mod 2 ^ n"
  using h stop go fuel
proof (induction d arbitrary: h fuel)
  case 0
  then obtain f where "fuel = Suc f" by (cases fuel) auto
  with 0 show ?case by auto
next
  case (Suc d)
  then obtain f where f: "fuel = Suc f" by (cases fuel) auto
  let ?h = "(h + 1) AND of_nat (2 ^ n - 1)"
  have "(2::nat) ^ n < 2 ^ LENGTH('w)" using n by simp
  with Suc.prems(1) have "unat h + 1 < 2 ^ LENGTH('w)" by linarith
  then have h1: "unat (h + 1) = unat h + 1" using unat_add_no_wrap [of h 1] by simp
  have u: "unat ?h = (unat h + 1) mod 2 ^ n"
    by (simp only: unat_and_mask [OF n] h1)
  have sh: "(unat ?h + e) mod 2 ^ n = (unat h + Suc e) mod 2 ^ n" for e
    by (simp only: u) (simp add: mod_add_left_eq)
  have "\<exists>r. probe f keys (of_nat (2 ^ n - 1)) k ?h = Some r \<and> unat r = (unat ?h + d) mod 2 ^ n"
  proof (rule Suc.IH)
    show "unat ?h < 2 ^ n" by (simp only: u) simp
    show "keys ! ((unat ?h + d) mod 2 ^ n) \<in> {0, k}" using Suc.prems(2) by (simp only: sh)
    show "keys ! ((unat ?h + d') mod 2 ^ n) \<notin> {0, k}" if "d' < d" for d'
      using Suc.prems(3) [of "Suc d'"] that by (simp only: sh) simp
    show "d < f" using Suc.prems(4) f by simp
  qed
  moreover have "keys ! unat h \<notin> {0, k}"
    using Suc.prems(3) [of 0] Suc.prems(1) by simp
  then have "probe fuel keys (of_nat (2 ^ n - 1)) k h = probe f keys (of_nat (2 ^ n - 1)) k ?h"
    using f by simp
  ultimately show ?case by (simp only: sh)
qed

lemma probe_finds:
  assumes n: "n < LENGTH('w)" and ok: "table_ok (\<lambda>n k. unat (hash n k)) n keys"
    and k: "k \<noteq> 0" and stop: "k \<in> set keys \<or> 0 \<in> set keys"
  shows "\<exists>r. probe (2 ^ n) keys (of_nat (2 ^ n - 1)) k (hash n k) = Some r \<and> unat r < 2 ^ n \<and>
     keys ! unat r = (if k \<in> set keys then k else 0) \<and>
     (\<exists>d < 2 ^ n. unat r = (unat (hash n k) + d) mod 2 ^ n \<and>
        (\<forall>d' < d. keys ! ((unat (hash n k) + d') mod 2 ^ n) \<noteq> 0))"
proof -
  let ?h = "unat (hash n k)" and ?m = "(2::nat) ^ n"
  have len: "length keys = ?m" using ok by (simp add: table_ok_def)
  have h: "?h < ?m" using n by (rule hash_less)
  have "\<exists>d < ?m. keys ! ((?h + d) mod ?m) = (if k \<in> set keys then k else 0) \<and>
          (\<forall>d' < d. keys ! ((?h + d') mod ?m) \<notin> {0, k})"
  proof (cases "k \<in> set keys")
    case True
    then obtain i where i: "i < ?m" "keys ! i = k" by (auto simp: in_set_conv_nth len)
    then obtain d where d: "d < ?m" "i = (?h + d) mod ?m"
      "\<forall>d' < d. keys ! ((?h + d') mod ?m) \<noteq> 0"
      using ok k by (auto simp: table_ok_def)
    have "keys ! ((?h + d') mod ?m) \<noteq> k" if "d' < d" for d'
    proof
      assume "keys ! ((?h + d') mod ?m) = k"
      then have "(?h + d') mod ?m = i"
        using ok i k by (auto simp: table_ok_def)
      then show False using offset_inj [of ?h d' ?m d] d that by simp
    qed
    with d i True show ?thesis by auto
  next
    case False
    then obtain i where "i < ?m" "keys ! i = 0" using stop by (auto simp: in_set_conv_nth len)
    then obtain d where d: "d < ?m" "keys ! ((?h + d) mod ?m) = 0"
      using slot_reached [OF _ h] by metis
    define d0 where "d0 = (LEAST d. keys ! ((?h + d) mod ?m) = 0)"
    have "keys ! ((?h + d0) mod ?m) = 0" unfolding d0_def by (rule LeastI) (rule d(2))
    moreover have "d0 \<le> d" unfolding d0_def by (rule Least_le) (rule d(2))
    moreover have "keys ! ((?h + d') mod ?m) \<noteq> 0" if "d' < d0" for d'
      using that not_less_Least unfolding d0_def by blast
    moreover have "keys ! ((?h + d') mod ?m) \<noteq> k" for d'
      using False len by (metis nth_mem mod_less_divisor zero_less_numeral zero_less_power)
    ultimately show ?thesis using d False by (intro exI [of _ d0]) auto
  qed
  then obtain d where d: "d < ?m" "keys ! ((?h + d) mod ?m) = (if k \<in> set keys then k else 0)"
    "\<forall>d' < d. keys ! ((?h + d') mod ?m) \<notin> {0, k}" by blast
  then have st: "keys ! ((?h + d) mod ?m) \<in> {0, k}" by auto
  have go: "\<And>d'. d' < d \<Longrightarrow> keys ! ((?h + d') mod ?m) \<notin> {0, k}" using d(3) by blast
  obtain r where "probe ?m keys (of_nat (2 ^ n - 1)) k (hash n k) = Some r"
    "unat r = (?h + d) mod ?m"
    using probe_nat [OF n h st go d(1)] by blast
  with d show ?thesis by (intro exI [of _ r]) auto
qed

lemma table_insert:
  assumes ok: "table_ok (\<lambda>n k. unat (hash n k)) n keys" and k: "k \<noteq> 0" "k \<notin> set keys"
    and r: "r < 2 ^ n" "keys ! r = 0" "d < 2 ^ n" "r = (unat (hash n k) + d) mod 2 ^ n"
      "\<forall>d' < d. keys ! ((unat (hash n k) + d') mod 2 ^ n) \<noteq> 0"
  shows "table_ok (\<lambda>n k. unat (hash n k)) n (keys[r := k])"
proof -
  let ?m = "(2::nat) ^ n" and ?ks = "keys[r := k]"
  have len: "length keys = ?m" using ok by (simp add: table_ok_def)
  have fresh: "i < ?m \<Longrightarrow> keys ! i \<noteq> k" for i using k len by (metis nth_mem)
  have keep: "keys ! i \<noteq> 0 \<Longrightarrow> ?ks ! i \<noteq> 0" for i
    using k(1) r len by (cases "i = r") auto
  have "\<exists>d < ?m. i = (unat (hash n (?ks ! i)) + d) mod ?m \<and>
          (\<forall>d' < d. ?ks ! ((unat (hash n (?ks ! i)) + d') mod ?m) \<noteq> 0)"
    if i: "i < ?m" "?ks ! i \<noteq> 0" for i
  proof (cases "i = r")
    case True
    then have "?ks ! i = k" using r len by simp
    then show ?thesis using True r keep by (intro exI [of _ d]) auto
  next
    case False
    then have e: "?ks ! i = keys ! i" by simp
    then obtain d where "d < ?m" "i = (unat (hash n (keys ! i)) + d) mod ?m"
      "\<forall>d' < d. keys ! ((unat (hash n (keys ! i)) + d') mod ?m) \<noteq> 0"
      using ok i by (auto simp: table_ok_def)
    then show ?thesis using e keep by (intro exI [of _ d]) auto
  qed
  moreover have "i = j" if "i < ?m" "j < ?m" "?ks ! i = ?ks ! j" "?ks ! i \<noteq> 0" for i j
  proof -
    have old: "keys ! i = keys ! j \<Longrightarrow> keys ! i \<noteq> 0 \<Longrightarrow> i = j"
      using ok that(1,2) by (simp add: table_ok_def)
    show ?thesis
      using that old fresh [OF that(1)] fresh [OF that(2)] r(1) len
      by (cases "i = r"; cases "j = r") simp_all
  qed
  ultimately show ?thesis using len by (auto simp: table_ok_def)
qed

lemma table_empty: "table_ok (\<lambda>n k. unat (hash n k)) n (replicate (2 ^ n) 0)"
  by (simp add: table_ok_def)

text \<open>A full table and an absent key: the loop never stops.\<close>

lemma probe_diverges:
  fixes keys :: "'w word list"
  assumes n: "n < LENGTH('w)" and full: "0 \<notin> set keys" "k \<notin> set keys" "length keys = 2 ^ n"
    and h: "unat h < 2 ^ n"
  shows "probe fuel keys (of_nat (2 ^ n - 1)) k h = None"
  using h
proof (induction fuel arbitrary: h)
  case (Suc fuel)
  have "keys ! unat h \<in> set keys" using Suc.prems full by simp
  then have "keys ! unat h \<noteq> 0 \<and> keys ! unat h \<noteq> k" using full by metis
  moreover have "unat ((h + 1) AND of_nat (2 ^ n - 1)) < 2 ^ n"
    by (simp only: unat_and_mask [OF n]) simp
  ultimately show ?case using Suc.IH by simp
qed simp

end

end
