(* ===== verification/Filename_Map.thy ===== *)
theory Filename_Map
  imports Open_Addressing
begin

text \<open>
  The inode-to-name mapping and the output-name registry of \<^verbatim>\<open>utils_v5.c\<close>: a growable
  array of entries, an open-addressing index over it (the static \<open>fm_h*\<close> tables), the
  sanitiser that keeps path separators out, and the claim list that diverts colliding
  output names.  Names are C strings (\<open>string\<close> without the terminating NUL); a stored
  name has at most 255 characters.  The flags \<open>ok_map\<close>, \<open>ok_hash\<close> and \<open>ok_claim\<close> are the
  outcomes of the allocations; \<open>None\<close> is a probing loop that does not end.
\<close>

section \<open>State\<close>

record filename_entry =
  fe_inode :: u32
  fe_name :: string

record name_claim =
  nc_ino :: u32
  nc_name :: string

record fname_state =
  fm_entries :: "filename_entry list option"
  filename_capacity :: nat
  fm_hkeys :: "u32 list"
  fm_hvals :: "nat list"
  fm_hsize :: nat
  name_claims :: "name_claim list"
  claim_capacity :: nat

definition MAX_FILENAME_MAP :: nat where
  "MAX_FILENAME_MAP = 100000"

section \<open>The index\<close>

definition fm_start :: "nat \<Rightarrow> u32 \<Rightarrow> u32" where
  "fm_start hsize ino = (ino * 2654435761) AND of_nat (hsize - 1)"

definition fm_hash_put :: "fname_state \<Rightarrow> u32 \<Rightarrow> nat \<Rightarrow> fname_state option" where
  "fm_hash_put st ino idx =
     (if fm_hsize st = 0 then Some st
      else case probe (fm_hsize st) (fm_hkeys st) (of_nat (fm_hsize st - 1)) ino
                  (fm_start (fm_hsize st) ino) of
             None \<Rightarrow> None
           | Some h \<Rightarrow> Some (st\<lparr>fm_hkeys := (fm_hkeys st)[unat h := ino],
                              fm_hvals := (fm_hvals st)[unat h := idx]\<rparr>))"

definition fm_hash_get :: "fname_state \<Rightarrow> u32 \<Rightarrow> int option" where
  "fm_hash_get st ino =
     (if fm_hsize st = 0 then Some (-1)
      else case probe (fm_hsize st) (fm_hkeys st) (of_nat (fm_hsize st - 1)) ino
                  (fm_start (fm_hsize st) ino) of
             None \<Rightarrow> None
           | Some h \<Rightarrow> Some (if fm_hkeys st ! unat h \<noteq> 0 then int (fm_hvals st ! unat h) else -1))"

primrec fm_put_all :: "filename_entry list \<Rightarrow> nat \<Rightarrow> fname_state \<Rightarrow> fname_state option" where
  "fm_put_all [] i st = Some st"
| "fm_put_all (e # es) i st =
     (case fm_hash_put st (fe_inode e) i of None \<Rightarrow> None | Some st' \<Rightarrow> fm_put_all es (Suc i) st')"

definition fm_list :: "fname_state \<Rightarrow> filename_entry list" where
  "fm_list st = (case fm_entries st of None \<Rightarrow> [] | Some es \<Rightarrow> es)"

abbreviation filename_count :: "fname_state \<Rightarrow> nat" where
  "filename_count st \<equiv> length (fm_list st)"

definition fm_hash_rebuild :: "bool \<Rightarrow> fname_state \<Rightarrow> nat \<Rightarrow> (int \<times> fname_state) option" where
  "fm_hash_rebuild ok_hash st min_size =
     (let ns = pow2_above 1024 (min_size * 2) in
      if \<not> ok_hash then Some (-1, st)
      else map_option (Pair 0)
             (fm_put_all (fm_list st) 0
                (st\<lparr>fm_hkeys := replicate ns 0, fm_hvals := replicate ns 0, fm_hsize := ns\<rparr>)))"

definition init_filename_map :: "bool \<Rightarrow> bool \<Rightarrow> fname_state \<Rightarrow> (int \<times> fname_state) option" where
  "init_filename_map ok_map ok_hash st =
     (let st1 = st\<lparr>filename_capacity := 4096\<rparr> in
      if \<not> ok_map then Some (-1, st1\<lparr>fm_entries := None\<rparr>)
      else map_option (\<lambda>(_, st'). (0, st'))
             (fm_hash_rebuild ok_hash (st1\<lparr>fm_entries := Some []\<rparr>) 4096))"

section \<open>Names\<close>

definition filename_is_safe :: "string \<Rightarrow> bool" where
  "filename_is_safe name =
     (if name = '''' then False
      else if name = ''.'' \<or> name = ''..'' then False
      else list_all (\<lambda>c. c \<noteq> CHR ''/'') name)"

definition add_filename_mapping ::
  "bool \<Rightarrow> bool \<Rightarrow> fname_state \<Rightarrow> u32 \<Rightarrow> string \<Rightarrow> (int \<times> fname_state) option" where
  "add_filename_mapping ok_map ok_hash st ino name =
     (case fm_entries st of None \<Rightarrow> Some (-1, st)
      | Some es \<Rightarrow>
        if \<not> filename_is_safe name then Some (-1, st)
        else case fm_hash_get st ino of None \<Rightarrow> None
        | Some hidx \<Rightarrow>
          if hidx \<ge> 0 then
            Some (0, st\<lparr>fm_entries := Some (es[nat hidx := (es ! nat hidx)\<lparr>fe_name := take 255 name\<rparr>])\<rparr>)
          else
            let full = length es \<ge> filename_capacity st;
                new_cap = min (filename_capacity st * 2) MAX_FILENAME_MAP in
            if full \<and> length es \<ge> new_cap then Some (-1, st)
            else if full \<and> \<not> ok_map then Some (-1, st)
            else
              let st1 = (if full then st\<lparr>filename_capacity := new_cap\<rparr> else st) in
              case (if fm_hsize st1 \<noteq> 0 \<and> length es * 2 \<ge> fm_hsize st1
                    then fm_hash_rebuild ok_hash st1 (length es + 1) else Some (0, st1)) of
                None \<Rightarrow> None
              | Some (_, st2) \<Rightarrow>
                (let st3 = st2\<lparr>fm_entries := Some (es @ [\<lparr>fe_inode = ino, fe_name = take 255 name\<rparr>])\<rparr> in
                 map_option (Pair 0) (fm_hash_put st3 ino (length es))))"

definition get_filename_for_inode :: "fname_state \<Rightarrow> u32 \<Rightarrow> string option option" where
  "get_filename_for_inode st ino =
     (case fm_entries st of None \<Rightarrow> Some None
      | Some es \<Rightarrow>
        (case fm_hash_get st ino of None \<Rightarrow> None
         | Some idx \<Rightarrow> Some (if idx \<ge> 0 \<and> idx < int (length es)
                             then Some (fe_name (es ! nat idx)) else None)))"

definition free_filename_map :: "fname_state \<Rightarrow> fname_state" where
  "free_filename_map st =
     st\<lparr>fm_entries := None, filename_capacity := 0, fm_hkeys := [], fm_hvals := [], fm_hsize := 0,
        name_claims := [], claim_capacity := 0\<rparr>"

text \<open>\<^verbatim>\<open>snprintf(buf, bufsize, "%u_file", ino)\<close>\<close>

definition fallback_name :: "u32 \<Rightarrow> string" where
  "fallback_name ino = udec (unat ino) @ ''_file''"

definition resolve_output_name :: "bool \<Rightarrow> fname_state \<Rightarrow> u32 \<Rightarrow> (string \<times> fname_state) option" where
  "resolve_output_name ok_claim st ino =
     (case get_filename_for_inode st ino of None \<Rightarrow> None
      | Some None \<Rightarrow> Some (fallback_name ino, st)
      | Some (Some name) \<Rightarrow>
        (case find (\<lambda>c. take 255 (nc_name c) = take 255 name) (name_claims st) of
           Some c \<Rightarrow> if nc_ino c = ino then Some (name, st) else Some (fallback_name ino, st)
         | None \<Rightarrow>
           let full = length (name_claims st) \<ge> claim_capacity st;
               ncap = (if claim_capacity st \<noteq> 0 then claim_capacity st * 2 else 256);
               st1 = (if full \<and> ok_claim then st\<lparr>claim_capacity := ncap\<rparr> else st)
           in Some (name,
                if length (name_claims st1) < claim_capacity st1
                then st1\<lparr>name_claims := name_claims st1 @ [\<lparr>nc_ino = ino, nc_name = take 255 name\<rparr>]\<rparr>
                else st1)))"

section \<open>The index represents the entry list\<close>

definition fm_hash :: "nat \<Rightarrow> u32 \<Rightarrow> u32" where
  "fm_hash n ino = fm_start (2 ^ n) ino"

interpretation fmt: open_addressing fm_hash
proof
  fix n and k :: u32
  assume "n < LENGTH(32)"
  then have "unat (fm_hash n k) = unat (k * 2654435761) mod 2 ^ n"
    unfolding fm_hash_def fm_start_def by (rule unat_and_mask)
  then show "unat (fm_hash n k) < 2 ^ n" by simp
qed

abbreviation fm_slot :: "nat \<Rightarrow> u32 \<Rightarrow> nat" where
  "fm_slot n k \<equiv> unat (fm_hash n k)"

definition index_ok :: "nat \<Rightarrow> fname_state \<Rightarrow> filename_entry list \<Rightarrow> bool" where
  "index_ok n st es \<longleftrightarrow> n < 32 \<and> fm_hsize st = 2 ^ n \<and> table_ok fm_slot n (fm_hkeys st) \<and>
     length (fm_hvals st) = 2 ^ n \<and> length es < 2 ^ n \<and>
     distinct (map fe_inode es) \<and> 0 \<notin> fe_inode ` set es \<and>
     set (fm_hkeys st) - {0} = fe_inode ` set es \<and>
     (\<forall>i < 2 ^ n. fm_hkeys st ! i \<noteq> 0 \<longrightarrow>
        fm_hvals st ! i < length es \<and> fe_inode (es ! (fm_hvals st ! i)) = fm_hkeys st ! i)"

text \<open>Fewer entries than slots: some slot is free, so every probe ends.\<close>

lemma free_slot:
  assumes ok: "table_ok h n keys" and sub: "set keys - {0} = f ` set es" and len: "length es < 2 ^ n"
  shows "0 \<in> set keys"
proof (rule ccontr)
  assume no: "0 \<notin> set keys"
  have "length keys = 2 ^ n" using ok by (simp add: table_ok_def)
  have "distinct keys"
    unfolding distinct_conv_nth
  proof (intro allI impI)
    fix i j assume "i < length keys" "j < length keys" "i \<noteq> j"
    then show "keys ! i \<noteq> keys ! j" using ok no by (metis nth_mem table_ok_def)
  qed
  then have "card (set keys) = 2 ^ n" using \<open>length keys = 2 ^ n\<close> by (simp add: distinct_card)
  moreover have "card (f ` set es) \<le> length es"
    using card_image_le [of "set es" f] card_length [of es] by simp
  moreover have "set keys = f ` set es" using sub no by blast
  ultimately show False using len by simp
qed

lemma index_probe:
  assumes ok: "index_ok n st es" and k: "k \<noteq> 0"
  shows "\<exists>r. probe (fm_hsize st) (fm_hkeys st) (of_nat (fm_hsize st - 1)) k (fm_start (fm_hsize st) k) = Some r \<and>
     unat r < 2 ^ n \<and> fm_hkeys st ! unat r = (if k \<in> set (fm_hkeys st) then k else 0) \<and>
     (\<exists>d < 2 ^ n. unat r = (fm_slot n k + d) mod 2 ^ n \<and>
        (\<forall>d' < d. fm_hkeys st ! ((fm_slot n k + d') mod 2 ^ n) \<noteq> 0))"
proof -
  have "0 \<in> set (fm_hkeys st)"
    using ok free_slot [of fm_slot n "fm_hkeys st" fe_inode es] by (simp add: index_ok_def)
  then show ?thesis
    using fmt.probe_finds [of n "fm_hkeys st" k] ok k
    by (simp add: index_ok_def fm_hash_def)
qed

lemma fm_hash_get_spec:
  assumes ok: "index_ok n st es" and k: "k \<noteq> 0"
  shows "if k \<in> fe_inode ` set es
         then \<exists>i < length es. fm_hash_get st k = Some (int i) \<and> fe_inode (es ! i) = k
         else fm_hash_get st k = Some (-1)"
proof -
  obtain r where r: "probe (fm_hsize st) (fm_hkeys st) (of_nat (fm_hsize st - 1)) k (fm_start (fm_hsize st) k) = Some r"
    "unat r < 2 ^ n" "fm_hkeys st ! unat r = (if k \<in> set (fm_hkeys st) then k else 0)"
    using index_probe [OF ok k] by blast
  have mem: "k \<in> set (fm_hkeys st) \<longleftrightarrow> k \<in> fe_inode ` set es"
    using ok k by (auto simp: index_ok_def)
  have "fm_hsize st \<noteq> 0" using ok by (simp add: index_ok_def)
  then show ?thesis
    using r mem k ok by (auto simp: fm_hash_get_def index_ok_def)
qed

lemma fm_hash_put_new:
  assumes ok: "index_ok n st es" and k: "fe_inode e \<noteq> 0" "fe_inode e \<notin> fe_inode ` set es"
    and room: "length es + 1 < 2 ^ n"
  shows "\<exists>ks vs. fm_hash_put st (fe_inode e) (length es) = Some (st\<lparr>fm_hkeys := ks, fm_hvals := vs\<rparr>) \<and>
     index_ok n (st\<lparr>fm_hkeys := ks, fm_hvals := vs\<rparr>) (es @ [e])"
proof -
  let ?k = "fe_inode e" and ?keys = "fm_hkeys st"
  have nk: "?k \<notin> set ?keys" using ok k by (auto simp: index_ok_def)
  obtain r d where r: "probe (fm_hsize st) ?keys (of_nat (fm_hsize st - 1)) ?k (fm_start (fm_hsize st) ?k) = Some r"
    "unat r < 2 ^ n" "?keys ! unat r = 0" "d < 2 ^ n" "unat r = (fm_slot n ?k + d) mod 2 ^ n"
    "\<forall>d' < d. ?keys ! ((fm_slot n ?k + d') mod 2 ^ n) \<noteq> 0"
    using index_probe [OF ok k(1)] nk by auto
  let ?ks = "?keys[unat r := ?k]" and ?vs = "(fm_hvals st)[unat r := length es]"
  have h: "fm_hsize st \<noteq> 0" "length ?keys = 2 ^ n" "table_ok fm_slot n ?keys"
    using ok by (auto simp: index_ok_def table_ok_def)
  have "table_ok fm_slot n ?ks"
    using fmt.table_insert [OF h(3) k(1) nk r(2-6)] .
  moreover have "set ?ks - {0} = insert ?k (set ?keys - {0})"
  proof -
    have "set ?ks \<subseteq> insert ?k (set ?keys)" by (rule set_update_subset_insert)
    moreover have "x \<in> set ?ks" if "x \<in> set ?keys" "x \<noteq> 0" for x
      using that r(3) by (metis in_set_conv_nth length_list_update nth_list_update_neq)
    moreover have "?k \<in> set ?ks" using r(2) h(2) by (simp add: set_update_memI)
    ultimately show ?thesis using k(1) by auto
  qed
  moreover have "\<forall>i < 2 ^ n. ?ks ! i \<noteq> 0 \<longrightarrow>
      ?vs ! i < length (es @ [e]) \<and> fe_inode ((es @ [e]) ! (?vs ! i)) = ?ks ! i"
  proof (intro allI impI)
    fix i assume "i < 2 ^ n" "?ks ! i \<noteq> 0"
    then show "?vs ! i < length (es @ [e]) \<and> fe_inode ((es @ [e]) ! (?vs ! i)) = ?ks ! i"
      using ok r(2) h(2) by (cases "i = unat r") (auto simp: index_ok_def nth_append)
  qed
  ultimately have "index_ok n (st\<lparr>fm_hkeys := ?ks, fm_hvals := ?vs\<rparr>) (es @ [e])"
    using ok k room by (auto simp: index_ok_def)
  moreover have "fm_hash_put st ?k (length es) = Some (st\<lparr>fm_hkeys := ?ks, fm_hvals := ?vs\<rparr>)"
    using r(1) h(1) by (simp add: fm_hash_put_def)
  ultimately show ?thesis by blast
qed

lemma fm_put_all_ok:
  assumes "index_ok n st es" "distinct (map fe_inode (es @ fs))" "0 \<notin> fe_inode ` set fs"
    and "length es + length fs < 2 ^ n"
  shows "\<exists>ks vs. fm_put_all fs (length es) st = Some (st\<lparr>fm_hkeys := ks, fm_hvals := vs\<rparr>) \<and>
     index_ok n (st\<lparr>fm_hkeys := ks, fm_hvals := vs\<rparr>) (es @ fs)"
  using assms
proof (induction fs arbitrary: es st)
  case Nil
  then show ?case by (intro exI [of _ "fm_hkeys st"] exI [of _ "fm_hvals st"]) simp
next
  case (Cons f fs)
  obtain ks vs where put: "fm_hash_put st (fe_inode f) (length es) = Some (st\<lparr>fm_hkeys := ks, fm_hvals := vs\<rparr>)"
    and ok: "index_ok n (st\<lparr>fm_hkeys := ks, fm_hvals := vs\<rparr>) (es @ [f])"
    using fm_hash_put_new [OF Cons.prems(1), of f] Cons.prems(2-4) by (auto simp: image_iff)
  show ?case
    using Cons.IH [OF ok] Cons.prems put by (auto simp: image_iff)
qed

section \<open>The invariant and the abstract map\<close>

definition fm_inv :: "fname_state \<Rightarrow> bool" where
  "fm_inv st \<longleftrightarrow> (\<exists>es n. fm_entries st = Some es \<and> index_ok n st es \<and> 10 \<le> n \<and> 2 * length es \<le> 2 ^ n \<and>
     length es \<le> filename_capacity st \<and> filename_capacity st \<le> MAX_FILENAME_MAP \<and>
     0 < filename_capacity st \<and>
     (\<forall>e \<in> set es. filename_is_safe (fe_name e) \<and> length (fe_name e) \<le> 255))"

definition fm_map :: "fname_state \<Rightarrow> u32 \<Rightarrow> string option" where
  "fm_map st = map_of (map (\<lambda>e. (fe_inode e, fe_name e)) (fm_list st))"

lemma index_ok_cong:
  assumes "fm_hkeys st' = fm_hkeys st" "fm_hvals st' = fm_hvals st" "fm_hsize st' = fm_hsize st"
    and "map fe_inode es' = map fe_inode es"
  shows "index_ok n st' es' = index_ok n st es"
proof -
  have "length es' = length es" using assms(4) by (metis length_map)
  moreover have "fe_inode ` set es' = fe_inode ` set es" using assms(4) by (metis set_map)
  moreover have "i < length es \<Longrightarrow> fe_inode (es' ! i) = fe_inode (es ! i)" for i
    using assms(4) by (metis length_map nth_map)
  ultimately show ?thesis using assms by (auto simp: index_ok_def)
qed

lemma fm_map_lookup:
  assumes "distinct (map fe_inode es)" "fm_entries st = Some es" "i < length es" "fe_inode (es ! i) = k"
  shows "fm_map st k = Some (fe_name (es ! i))"
  using assms by (force simp: fm_map_def fm_list_def comp_def intro!: map_of_is_SomeI
      simp: in_set_conv_nth image_iff)

lemma fm_map_none:
  "fm_entries st = Some es \<Longrightarrow> k \<notin> fe_inode ` set es \<Longrightarrow> fm_map st k = None"
  by (force simp: fm_map_def fm_list_def map_of_eq_None_iff)

lemma get_filename_model:
  assumes inv: "fm_inv st" and k: "k \<noteq> 0"
  shows "get_filename_for_inode st k = Some (fm_map st k)"
proof -
  obtain es n where es: "fm_entries st = Some es" "index_ok n st es"
    using inv by (auto simp: fm_inv_def)
  have d: "distinct (map fe_inode es)" using es by (simp add: index_ok_def)
  show ?thesis
  proof (cases "k \<in> fe_inode ` set es")
    case True
    then obtain i where "i < length es" "fm_hash_get st k = Some (int i)" "fe_inode (es ! i) = k"
      using fm_hash_get_spec [OF es(2) k] by auto
    then show ?thesis
      using es fm_map_lookup [OF d es(1)] by (simp add: get_filename_for_inode_def)
  next
    case False
    then show ?thesis
      using fm_hash_get_spec [OF es(2) k] es fm_map_none [OF es(1) False]
      by (simp add: get_filename_for_inode_def)
  qed
qed

lemma rebuild_ok:
  assumes "fm_entries st = Some es" "distinct (map fe_inode es)" "0 \<notin> fe_inode ` set es"
    and "length es < m" "m \<le> MAX_FILENAME_MAP + 1"
  shows "\<exists>n ks vs. fm_hash_rebuild True st m =
       Some (0, st\<lparr>fm_hsize := 2 ^ n, fm_hkeys := ks, fm_hvals := vs\<rparr>) \<and>
     index_ok n (st\<lparr>fm_hsize := 2 ^ n, fm_hkeys := ks, fm_hvals := vs\<rparr>) es \<and> 10 \<le> n \<and> 2 * m \<le> 2 ^ n"
proof -
  obtain j where j: "pow2_above (2 ^ 10) (m * 2) = 2 ^ (10 + j)" "j = 0 \<or> (2::nat) ^ (10 + j) < 2 * (m * 2)"
    using pow2_above_pow2 by blast
  define n where "n = 10 + j"
  have "(2::nat) ^ n < 2 ^ 19"
    using j(2) assms(5) by (auto simp: n_def MAX_FILENAME_MAP_def)
  then have n: "n < 32" using power_less_imp_less_exp [of "2::nat" n 19] by simp
  have big: "2 * m \<le> 2 ^ n" using pow2_above_ge [of "2 ^ 10" "m * 2"] j(1) by (simp add: n_def)
  let ?st = "st\<lparr>fm_hkeys := replicate (2 ^ n) 0, fm_hvals := replicate (2 ^ n) 0, fm_hsize := 2 ^ n\<rparr>"
  have "index_ok n ?st []" using n fmt.table_empty by (simp add: index_ok_def)
  moreover have "length es < 2 ^ n" using big assms(4) by simp
  ultimately obtain ks vs where "fm_put_all es 0 ?st = Some (?st\<lparr>fm_hkeys := ks, fm_hvals := vs\<rparr>)"
    "index_ok n (?st\<lparr>fm_hkeys := ks, fm_hvals := vs\<rparr>) es"
    using fm_put_all_ok [of n ?st "[]" es] assms(2,3) by auto
  moreover have "pow2_above 1024 (m * 2) = 2 ^ n" using j(1) by (simp add: n_def)
  ultimately show ?thesis
    using assms(1) big
    by (intro exI [of _ n] exI [of _ ks] exI [of _ vs])
       (simp add: fm_hash_rebuild_def fm_list_def n_def)
qed

lemma init_filename_map_inv:
  "\<exists>st'. init_filename_map True True st = Some (0, st') \<and> fm_inv st' \<and> fm_map st' = Map.empty"
proof -
  let ?st = "st\<lparr>filename_capacity := 4096, fm_entries := Some []\<rparr>"
  obtain n ks vs where r: "fm_hash_rebuild True ?st 4096 =
       Some (0, ?st\<lparr>fm_hsize := 2 ^ n, fm_hkeys := ks, fm_hvals := vs\<rparr>)"
    "index_ok n (?st\<lparr>fm_hsize := 2 ^ n, fm_hkeys := ks, fm_hvals := vs\<rparr>) []" "10 \<le> n"
    using rebuild_ok [of ?st "[]" 4096] by (auto simp: MAX_FILENAME_MAP_def)
  then show ?thesis
    by (auto simp: init_filename_map_def fm_inv_def fm_map_def fm_list_def MAX_FILENAME_MAP_def)
qed

lemma safe_take: "filename_is_safe name \<Longrightarrow> filename_is_safe (take 255 name)"
proof -
  assume safe: "filename_is_safe name"
  then have "name \<noteq> []" "CHR ''/'' \<notin> set name" "name \<noteq> ''.''" "name \<noteq> ''..''"
    by (auto simp: filename_is_safe_def list_all_iff split: if_splits)
  moreover from this have "CHR ''/'' \<notin> set (take 255 name)" by (meson in_set_takeD)
  moreover have short: "take 255 name = xs \<Longrightarrow> length xs \<le> 2 \<Longrightarrow> name = xs" for xs
    by (cases "length name \<le> 255") auto
  ultimately show ?thesis
    using short [of "''.''"] short [of "''..''"]
    by (auto simp: filename_is_safe_def list_all_iff)
qed

lemma map_of_snoc: "k \<notin> fst ` set xs \<Longrightarrow> map_of (xs @ [(k, v)]) = (map_of xs)(k \<mapsto> v)"
  by (auto simp: map_add_def fun_eq_iff split: option.splits) (metis map_of_eq_None_iff option.distinct(1))

lemma fm_map_update_at:
  assumes "distinct (map fe_inode es)" "i < length es" "fe_inode (es ! i) = k"
  shows "map_of (map (\<lambda>e. (fe_inode e, fe_name e)) (es[i := (es ! i)\<lparr>fe_name := v\<rparr>])) =
         (map_of (map (\<lambda>e. (fe_inode e, fe_name e)) es))(k \<mapsto> v)"
  using assms
proof (induction es arbitrary: i)
  case (Cons e es)
  show ?case
  proof (cases i)
    case 0
    then show ?thesis using Cons.prems by (auto simp: fun_eq_iff)
  next
    case (Suc j)
    then have "k \<in> fe_inode ` set es" using Cons.prems by auto
    then have "fe_inode e \<noteq> k" using Cons.prems by auto
    then show ?thesis using Suc Cons by (auto simp: fun_eq_iff)
  qed
qed simp

lemma add_existing:
  assumes inv: "fm_inv st" and k: "k \<noteq> 0" "fm_map st k \<noteq> None" and safe: "filename_is_safe name"
  shows "\<exists>st'. add_filename_mapping ok_m ok_h st k name = Some (0, st') \<and> fm_inv st' \<and>
         fm_map st' = (fm_map st)(k \<mapsto> take 255 name) \<and> name_claims st' = name_claims st"
proof -
  obtain es n where es: "fm_entries st = Some es" "index_ok n st es" "10 \<le> n" "2 * length es \<le> 2 ^ n"
    "length es \<le> filename_capacity st" "filename_capacity st \<le> MAX_FILENAME_MAP" "0 < filename_capacity st"
    "\<forall>e \<in> set es. filename_is_safe (fe_name e) \<and> length (fe_name e) \<le> 255"
    using inv by (auto simp: fm_inv_def)
  have d: "distinct (map fe_inode es)" using es by (simp add: index_ok_def)
  have "k \<in> fe_inode ` set es"
  proof (rule ccontr)
    assume "k \<notin> fe_inode ` set es"
    then have "fm_map st k = None" by (rule fm_map_none [OF es(1)])
    with k(2) show False by simp
  qed
  then obtain i where i: "i < length es" "fm_hash_get st k = Some (int i)" "fe_inode (es ! i) = k"
    using fm_hash_get_spec [OF es(2) k(1)] by auto
  let ?es = "es[i := (es ! i)\<lparr>fe_name := take 255 name\<rparr>]"
  let ?st = "st\<lparr>fm_entries := Some ?es\<rparr>"
  have same: "map fe_inode ?es = map fe_inode es"
    using i by (simp add: map_update list_update_same_conv)
  have "index_ok n ?st ?es" using es(2) index_ok_cong [of ?st st ?es es n] same by simp
  moreover have "\<forall>e \<in> set ?es. filename_is_safe (fe_name e) \<and> length (fe_name e) \<le> 255"
  proof
    fix e assume "e \<in> set ?es"
    then have "e = (es ! i)\<lparr>fe_name := take 255 name\<rparr> \<or> e \<in> set es"
      using set_update_subset_insert [of es i] by fast
    then show "filename_is_safe (fe_name e) \<and> length (fe_name e) \<le> 255"
      using es(8) safe_take [OF safe] by auto
  qed
  ultimately have "fm_inv ?st" using es by (auto simp: fm_inv_def)
  moreover have "add_filename_mapping ok_m ok_h st k name = Some (0, ?st)"
    using es(1) i safe by (simp add: add_filename_mapping_def)
  moreover have "fm_map ?st = (fm_map st)(k \<mapsto> take 255 name)"
    using fm_map_update_at [OF d i(1,3)] es(1) by (simp add: fm_map_def fm_list_def)
  ultimately show ?thesis by auto
qed

lemma add_new:
  assumes inv: "fm_inv st" and k: "k \<noteq> 0" "fm_map st k = None" and safe: "filename_is_safe name"
    and room: "filename_count st < MAX_FILENAME_MAP"
  shows "\<exists>st'. add_filename_mapping True True st k name = Some (0, st') \<and> fm_inv st' \<and>
         fm_map st' = (fm_map st)(k \<mapsto> take 255 name) \<and> name_claims st' = name_claims st"
proof -
  obtain es n where es: "fm_entries st = Some es" "index_ok n st es" "10 \<le> n" "2 * length es \<le> 2 ^ n"
    "length es \<le> filename_capacity st" "filename_capacity st \<le> MAX_FILENAME_MAP" "0 < filename_capacity st"
    "\<forall>e \<in> set es. filename_is_safe (fe_name e) \<and> length (fe_name e) \<le> 255"
    using inv by (auto simp: fm_inv_def)
  have d: "distinct (map fe_inode es)" "0 \<notin> fe_inode ` set es" using es by (auto simp: index_ok_def)
  have nk: "k \<notin> fe_inode ` set es" using k(2) fm_map_lookup [OF d(1) es(1)]
    by (auto simp: in_set_conv_nth)
  then have get: "fm_hash_get st k = Some (-1)" using fm_hash_get_spec [OF es(2) k(1)] by simp
  have len: "length es < MAX_FILENAME_MAP" using room es(1) by (simp add: fm_list_def)
  define st1 where "st1 = (if length es \<ge> filename_capacity st
    then st\<lparr>filename_capacity := min (filename_capacity st * 2) MAX_FILENAME_MAP\<rparr> else st)"
  have st1: "fm_entries st1 = Some es" "fm_hsize st1 = fm_hsize st" "name_claims st1 = name_claims st"
    "length es < filename_capacity st1" "filename_capacity st1 \<le> MAX_FILENAME_MAP" "index_ok n st1 es"
    using es len index_ok_cong [of st1 st es es n] by (auto simp: st1_def)
  define step where "step = (if fm_hsize st1 \<noteq> 0 \<and> length es * 2 \<ge> fm_hsize st1
      then fm_hash_rebuild True st1 (length es + 1) else Some (0, st1))"
  have "\<exists>st2 m. step = Some (0, st2) \<and> index_ok m st2 es \<and> 10 \<le> m \<and> 2 * (length es + 1) \<le> 2 ^ m \<and>
      fm_entries st2 = Some es \<and> filename_capacity st2 = filename_capacity st1 \<and>
      name_claims st2 = name_claims st"
  proof (cases "length es * 2 \<ge> fm_hsize st1")
    case True
    have "length es + 1 \<le> MAX_FILENAME_MAP + 1" using len by simp
    from rebuild_ok [OF st1(1) d _ this] obtain m ks vs where
      "fm_hash_rebuild True st1 (length es + 1) = Some (0, st1\<lparr>fm_hsize := 2 ^ m, fm_hkeys := ks, fm_hvals := vs\<rparr>)"
      "index_ok m (st1\<lparr>fm_hsize := 2 ^ m, fm_hkeys := ks, fm_hvals := vs\<rparr>) es" "10 \<le> m"
      "2 * (length es + 1) \<le> 2 ^ m" by auto
    moreover have "fm_hsize st1 \<noteq> 0" using es(2) st1(2) by (simp add: index_ok_def)
    ultimately show ?thesis using True st1 by (auto simp: step_def)
  next
    case False
    obtain n' where n': "n = Suc n'" using es(3) by (cases n) auto
    have "fm_hsize st1 = 2 ^ n" using es(2) st1(2) by (simp add: index_ok_def)
    then have "2 * (length es + 1) \<le> 2 ^ n" using False by (simp add: n')
    then show ?thesis using False st1 es(3) by (auto simp: step_def)
  qed
  then obtain st2 m where st2: "step = Some (0, st2)" "index_ok m st2 es" "10 \<le> m"
    "2 * (length es + 1) \<le> 2 ^ m" "fm_entries st2 = Some es"
    "filename_capacity st2 = filename_capacity st1" "name_claims st2 = name_claims st" by blast
  let ?e = "\<lparr>fe_inode = k, fe_name = take 255 name\<rparr>"
  let ?st3 = "st2\<lparr>fm_entries := Some (es @ [?e])\<rparr>"
  have "index_ok m ?st3 es" using st2(2) index_ok_cong [of ?st3 st2 es es m] by simp
  then obtain ks vs where put: "fm_hash_put ?st3 k (length es) = Some (?st3\<lparr>fm_hkeys := ks, fm_hvals := vs\<rparr>)"
    and ok: "index_ok m (?st3\<lparr>fm_hkeys := ks, fm_hvals := vs\<rparr>) (es @ [?e])"
    using fm_hash_put_new [of m ?st3 es ?e] k(1) nk st2(4) by auto
  let ?st' = "?st3\<lparr>fm_hkeys := ks, fm_hvals := vs\<rparr>"
  have "fm_inv ?st'"
    unfolding fm_inv_def using ok st2 st1 es(8) safe_take [OF safe]
    by (intro exI [of _ "es @ [?e]"] exI [of _ m]) auto
  moreover have "add_filename_mapping True True st k name = Some (0, ?st')"
    using es(1) safe get st1(4) st2(1) put len
    by (auto simp: add_filename_mapping_def Let_def step_def st1_def split: if_splits)
  moreover have "fm_map ?st' = (fm_map st)(k \<mapsto> take 255 name)"
    using es(1) nk by (simp add: fm_map_def fm_list_def map_of_snoc image_iff del: map_of_append)
  ultimately show ?thesis using st2 by auto
qed

text \<open>Every addition keeps the table well-formed, also of an unsafe name and to a full table; the claims stay.\<close>

lemma fm_hash_put_claims:
  "fm_hash_put st k i = Some st' \<Longrightarrow> name_claims st' = name_claims st \<and> claim_capacity st' = claim_capacity st"
  by (auto simp: fm_hash_put_def split: if_splits option.splits)

lemma fm_put_all_claims:
  "fm_put_all es i st = Some st' \<Longrightarrow> name_claims st' = name_claims st \<and> claim_capacity st' = claim_capacity st"
  by (induction es arbitrary: i st) (auto split: option.splits dest: fm_hash_put_claims)

lemma fm_hash_rebuild_claims:
  "fm_hash_rebuild ok st n = Some (r, st') \<Longrightarrow> name_claims st' = name_claims st \<and> claim_capacity st' = claim_capacity st"
  by (auto simp: fm_hash_rebuild_def Let_def split: if_splits dest!: fm_put_all_claims)

lemma init_filename_map_claims:
  "init_filename_map a b st = Some (r, st') \<Longrightarrow> name_claims st' = name_claims st \<and> claim_capacity st' = claim_capacity st"
  by (auto simp: init_filename_map_def Let_def split: if_splits dest!: fm_hash_rebuild_claims)

lemma add_filename_mapping_claims:
  assumes "add_filename_mapping a b st k name = Some (r, st')"
  shows "name_claims st' = name_claims st \<and> claim_capacity st' = claim_capacity st"
  using assms
  by (auto simp: add_filename_mapping_def Let_def split: option.splits if_splits dest!: fm_hash_rebuild_claims fm_hash_put_claims)

lemma add_filename_mapping_inv:
  assumes "fm_inv st" "k \<noteq> 0" "add_filename_mapping True True st k name = Some (r, st')"
  shows "fm_inv st'"
proof -
  obtain es where es: "fm_entries st = Some es" "length es \<le> filename_capacity st" "filename_capacity st \<le> MAX_FILENAME_MAP"
    using assms(1) by (auto simp: fm_inv_def)
  consider "\<not> filename_is_safe name" | "filename_is_safe name" "fm_map st k \<noteq> None"
    | "filename_is_safe name" "fm_map st k = None" "filename_count st < MAX_FILENAME_MAP"
    | "filename_is_safe name" "fm_map st k = None" "\<not> filename_count st < MAX_FILENAME_MAP" by blast
  then show ?thesis
  proof cases
    case 1
    then show ?thesis using assms es by (simp add: add_filename_mapping_def)
  next
    case 2
    then show ?thesis using add_existing [OF assms(1,2) 2(2,1), of True True] assms(3) by auto
  next
    case 3
    then show ?thesis using add_new [OF assms(1,2) 3(2,1,3)] assms(3) by auto
  next
    case 4
    then have full: "length es = filename_capacity st" "filename_capacity st = MAX_FILENAME_MAP" using es by (simp_all add: fm_list_def)
    obtain es' n where "fm_entries st = Some es'" "index_ok n st es'" using assms(1) by (auto simp: fm_inv_def)
    moreover have "k \<notin> fe_inode ` set es" 
      using 4(2) es(1) by (auto simp: fm_map_def fm_list_def map_of_eq_None_iff comp_def image_iff)
    ultimately have "fm_hash_get st k = Some (-1)" using fm_hash_get_spec [of n st es k] es(1) assms(2) by simp
    then show ?thesis using assms(1,3) 4(1) es(1) full by (simp add: add_filename_mapping_def Let_def)
  qed
qed

section \<open>Output names\<close>

definition claim_of :: "fname_state \<Rightarrow> string \<Rightarrow> name_claim option" where
  "claim_of st name = find (\<lambda>c. take 255 (nc_name c) = take 255 name) (name_claims st)"

definition claims_inv :: "fname_state \<Rightarrow> bool" where
  "claims_inv st \<longleftrightarrow> length (name_claims st) \<le> claim_capacity st"

lemma find_append: "find P (xs @ ys) = (case find P xs of None \<Rightarrow> find P ys | Some x \<Rightarrow> Some x)"
  by (induction xs) auto

lemma fm_map_claims [frame_simps]:
  "fm_map (st\<lparr>name_claims := c\<rparr>) = fm_map st" "fm_map (st\<lparr>claim_capacity := n\<rparr>) = fm_map st"
  "fm_map (st\<lparr>name_claims := c, claim_capacity := n\<rparr>) = fm_map st"
  by (simp_all add: fm_map_def fm_list_def)

lemma fm_inv_claims [frame_simps]:
  "fm_inv (st\<lparr>name_claims := c\<rparr>) = fm_inv st" "fm_inv (st\<lparr>claim_capacity := n\<rparr>) = fm_inv st"
  "fm_inv (st\<lparr>name_claims := c, claim_capacity := n\<rparr>) = fm_inv st"
  by (simp_all add: fm_inv_def index_ok_def)

lemma fm_map_bounds: "fm_inv st \<Longrightarrow> fm_map st k = Some name \<Longrightarrow> filename_is_safe name \<and> length name \<le> 255"
  by (auto simp: fm_inv_def fm_map_def fm_list_def dest!: map_of_SomeD)

lemma fallback_chars: "set (fallback_name ino) \<subseteq> {c. is_digit c} \<union> set ''_file''"
  using udec_digits [of "unat ino"] by (auto simp: fallback_name_def list_all_iff)

lemma fallback_safe: "filename_is_safe (fallback_name ino)"
proof -
  have "CHR ''/'' \<notin> set (fallback_name ino)"
    using fallback_chars [of ino] by (auto simp: is_digit_def)
  moreover have "CHR ''f'' \<in> set (fallback_name ino)" by (simp add: fallback_name_def)
  ultimately show ?thesis by (auto simp: filename_is_safe_def list_all_iff)
qed

lemma fallback_inj: "fallback_name a = fallback_name b \<Longrightarrow> a = b"
  by (auto simp: fallback_name_def word_unat_eq_iff dest: udec_inj)

text \<open>What \<open>resolve_output_name\<close> does, in terms of the abstract map and the claim list.\<close>

lemma resolve_model:
  assumes inv: "fm_inv st" "claims_inv st" and ino: "ino \<noteq> 0"
  shows "\<exists>st'. resolve_output_name True st ino =
      Some (case fm_map st ino of None \<Rightarrow> fallback_name ino
            | Some name \<Rightarrow> (case claim_of st name of
                Some c \<Rightarrow> if nc_ino c = ino then name else fallback_name ino
              | None \<Rightarrow> name), st') \<and>
    fm_inv st' \<and> claims_inv st' \<and> fm_map st' = fm_map st \<and>
    name_claims st' = name_claims st @
      (case fm_map st ino of None \<Rightarrow> []
       | Some name \<Rightarrow> (case claim_of st name of Some c \<Rightarrow> []
                       | None \<Rightarrow> [\<lparr>nc_ino = ino, nc_name = take 255 name\<rparr>]))"
proof (cases "fm_map st ino")
  case None
  then show ?thesis
    using get_filename_model [OF inv(1) ino] inv by (simp add: resolve_output_name_def)
next
  case (Some name)
  note get = get_filename_model [OF inv(1) ino, unfolded Some]
  show ?thesis
  proof (cases "claim_of st name")
    case (Some c)
    with get \<open>fm_map st ino = Some name\<close> inv show ?thesis
      by (simp add: resolve_output_name_def claim_of_def)
  next
    case None
    let ?st1 = "if length (name_claims st) \<ge> claim_capacity st
      then st\<lparr>claim_capacity := (if claim_capacity st \<noteq> 0 then claim_capacity st * 2 else 256)\<rparr> else st"
    let ?st' = "?st1\<lparr>name_claims := name_claims st @ [\<lparr>nc_ino = ino, nc_name = take 255 name\<rparr>]\<rparr>"
    have "length (name_claims st) < claim_capacity ?st1" using inv(2) by (auto simp: claims_inv_def)
    then have "resolve_output_name True st ino = Some (name, ?st')" "claims_inv ?st'"
      using get None by (auto simp: resolve_output_name_def claim_of_def claims_inv_def Let_def)
    moreover have "fm_inv ?st'" "fm_map ?st' = fm_map st" using inv by (auto simp: frame_simps)
    ultimately show ?thesis using None \<open>fm_map st ino = Some name\<close> by simp
  qed
qed

section \<open>Properties\<close>

text \<open>Property C16: the filename map behaves as a finite map.  Adding a safe name for an inode
  succeeds while the inode is known or fewer than 100000 are stored; afterwards the
  hash-indexed lookup returns the new name (cut to 255 characters) for that inode and the
  old answer for every other one, and every probing loop ends.\<close>

theorem filename_map_refines:
  assumes "fm_inv st" and "ino \<noteq> 0" and "filename_is_safe name"
    and "fm_map st ino \<noteq> None \<or> filename_count st < MAX_FILENAME_MAP"
  shows "\<exists>st'. add_filename_mapping True True st ino name = Some (0, st') \<and> fm_inv st' \<and>
    (\<forall>j. j \<noteq> 0 \<longrightarrow> get_filename_for_inode st' j =
       Some (if j = ino then Some (take 255 name) else fm_map st j))"
proof -
  obtain st' where "add_filename_mapping True True st ino name = Some (0, st')" "fm_inv st'"
    "fm_map st' = (fm_map st)(ino \<mapsto> take 255 name)"
    using add_existing [OF assms(1,2) _ assms(3), of True True] add_new [OF assms(1,2) _ assms(3)] assms(4)
    by (cases "fm_map st ino") auto
  then show ?thesis using get_filename_model by auto
qed

theorem filename_map_refines_witness:
  "\<exists>st st'. fm_inv st \<and> fm_map st = Map.empty \<and>
     add_filename_mapping True True st 12 ''notes.txt'' = Some (0, st') \<and>
     get_filename_for_inode st' 12 = Some (Some ''notes.txt'')"
proof -
  obtain st where st: "fm_inv st" "fm_map st = Map.empty"
    using init_filename_map_inv by blast
  have "fm_list st = []"
  proof (rule ccontr)
    assume "fm_list st \<noteq> []"
    then obtain e es where "fm_list st = e # es" by (cases "fm_list st") auto
    then have "fm_map st (fe_inode e) \<noteq> None" by (simp add: fm_map_def)
    then show False using st by simp
  qed
  then have c: "filename_count st < MAX_FILENAME_MAP" by (simp add: MAX_FILENAME_MAP_def)
  have "filename_is_safe ''notes.txt''" by (simp add: filename_is_safe_def)
  then obtain st' where "add_filename_mapping True True st 12 ''notes.txt'' = Some (0, st')"
    "\<forall>j. j \<noteq> 0 \<longrightarrow> get_filename_for_inode st' j =
       Some (if j = 12 then Some (take 255 ''notes.txt'') else fm_map st j)"
    using filename_map_refines [OF st(1), of 12 "''notes.txt''"] c by auto
  then show ?thesis using st by (intro exI [of _ st] exI [of _ st']) simp
qed

text \<open>The name under which an inode is written never leaves the recovery directory:
  it is non-empty, contains no path separator and is neither \<open>.\<close> nor \<open>..\<close>; and it
  has at most 255 characters.\<close>

theorem resolve_output_name_safe:
  assumes "fm_inv st" and "claims_inv st" and "ino \<noteq> 0"
  shows "\<exists>name st'. resolve_output_name True st ino = Some (name, st') \<and> filename_is_safe name \<and>
     length name \<le> 255 \<and> fm_inv st' \<and> claims_inv st'"
proof -
  have fb: "filename_is_safe (fallback_name ino)" by (rule fallback_safe)
  have "length (udec (unat ino)) \<le> 10"
    using u32_less [of ino] by (intro udec_length) auto
  then have fl: "length (fallback_name ino) \<le> 255" by (simp add: fallback_name_def)
  obtain st' where r: "resolve_output_name True st ino =
      Some (case fm_map st ino of None \<Rightarrow> fallback_name ino
            | Some name \<Rightarrow> (case claim_of st name of
                Some c \<Rightarrow> if nc_ino c = ino then name else fallback_name ino
              | None \<Rightarrow> name), st')" "fm_inv st'" "claims_inv st'"
    using resolve_model [OF assms] by blast
  show ?thesis
    using r fb fl fm_map_bounds [OF assms(1), of ino]
    by (auto split: option.splits if_splits)
qed

definition claim_state_example :: "fname_state \<Rightarrow> fname_state" where
  "claim_state_example st = st\<lparr>name_claims := [], claim_capacity := 0\<rparr>"

lemma fresh_state: "\<exists>st. fm_inv st \<and> claims_inv st \<and> fm_map st = Map.empty \<and> name_claims st = [] \<and> fm_list st = []"
proof -
  obtain st where st: "fm_inv st" "fm_map st = Map.empty"
    using init_filename_map_inv by blast
  have "fm_list st = []" using st(2) by (simp add: fm_map_def map_of_eq_empty_iff)
  with st show ?thesis
    by (intro exI [of _ "claim_state_example st"])
       (simp add: claim_state_example_def frame_simps claims_inv_def fm_list_def)
qed

text \<open>A state that knows the name of one inode, as \<open>init_filename_map\<close> and
  \<open>add_filename_mapping\<close> build it.\<close>

lemma one_name_state:
  assumes "ino \<noteq> 0" "filename_is_safe name"
  shows "\<exists>st. fm_inv st \<and> claims_inv st \<and> fm_map st = [ino \<mapsto> take 255 name] \<and> name_claims st = []"
proof -
  obtain st where st: "fm_inv st" "claims_inv st" "fm_map st = Map.empty" "name_claims st = []" "fm_list st = []"
    using fresh_state by blast
  then obtain st' where st': "fm_inv st'" "fm_map st' = [ino \<mapsto> take 255 name]" "name_claims st' = []"
    using add_new [OF st(1) assms(1) _ assms(2)] by (auto simp: MAX_FILENAME_MAP_def)
  then show ?thesis by (intro exI [of _ st']) (simp add: claims_inv_def)
qed

theorem resolve_output_name_safe_witness:
  "\<exists>st name st'. fm_map st 7 = Some ''a.txt'' \<and> resolve_output_name True st 7 = Some (name, st') \<and>
     filename_is_safe name"
proof -
  obtain st where "fm_inv st" "claims_inv st" "fm_map st = [7 \<mapsto> take 255 ''a.txt'']"
    using one_name_state [of 7 "''a.txt''"] by (auto simp: filename_is_safe_def)
  then obtain name st' where "fm_map st 7 = Some ''a.txt''" "resolve_output_name True st 7 = Some (name, st')"
      "filename_is_safe name"
    using resolve_output_name_safe [of st 7] by auto
  then show ?thesis by (intro exI conjI)
qed

text \<open>Name resolution is stable.  Whatever other inode is resolved in between, a
  second request for the same inode returns the same output name and claims nothing new.\<close>

theorem resolve_output_name_stable:
  assumes "fm_inv st" and "claims_inv st" and "a \<noteq> 0" and "b \<noteq> 0"
    and "resolve_output_name True st a = Some (na, st1)"
    and "resolve_output_name True st1 b = Some (nb, st2)"
  shows "\<exists>st3. resolve_output_name True st2 a = Some (na, st3) \<and> name_claims st3 = name_claims st2"
proof -
  obtain s1 where s1: "resolve_output_name True st a =
      Some (case fm_map st a of None \<Rightarrow> fallback_name a
            | Some name \<Rightarrow> (case claim_of st name of
                Some c \<Rightarrow> if nc_ino c = a then name else fallback_name a
              | None \<Rightarrow> name), s1)"
    "fm_inv s1" "claims_inv s1" "fm_map s1 = fm_map st"
    "name_claims s1 = name_claims st @
      (case fm_map st a of None \<Rightarrow> []
       | Some name \<Rightarrow> (case claim_of st name of Some c \<Rightarrow> []
                       | None \<Rightarrow> [\<lparr>nc_ino = a, nc_name = take 255 name\<rparr>]))"
    using resolve_model [OF assms(1,2,3)] by blast
  have e1: "st1 = s1" using assms(5) s1(1) by simp
  obtain s2 ext where s2: "resolve_output_name True s1 b = Some (nb, s2)"
    "fm_inv s2" "claims_inv s2" "fm_map s2 = fm_map st" "name_claims s2 = name_claims s1 @ ext"
    using resolve_model [OF s1(2,3) assms(4)] assms(6) s1(4) e1 by auto
  have e2: "st2 = s2" using assms(6) s2(1) e1 by simp
  obtain s3 where s3: "resolve_output_name True s2 a =
      Some (case fm_map s2 a of None \<Rightarrow> fallback_name a
            | Some name \<Rightarrow> (case claim_of s2 name of
                Some c \<Rightarrow> if nc_ino c = a then name else fallback_name a
              | None \<Rightarrow> name), s3)"
    "name_claims s3 = name_claims s2 @
      (case fm_map s2 a of None \<Rightarrow> []
       | Some name \<Rightarrow> (case claim_of s2 name of Some c \<Rightarrow> []
                       | None \<Rightarrow> [\<lparr>nc_ino = a, nc_name = take 255 name\<rparr>]))"
    using resolve_model [OF s2(2,3) assms(3)] by blast
  show ?thesis
  proof (cases "fm_map st a")
    case None
    then show ?thesis using s1(1) s3 s2(4) e2 assms(5) by simp
  next
    case (Some name)
    have len: "length name \<le> 255" using fm_map_bounds [OF assms(1) Some] by simp
    have "claim_of s2 name = Some (case claim_of st name of Some c \<Rightarrow> c
        | None \<Rightarrow> \<lparr>nc_ino = a, nc_name = take 255 name\<rparr>)"
      using s1(5) s2(5) Some by (auto simp: claim_of_def find_append split: option.splits)
    then show ?thesis
      using s1(1) s3 s2(4) e2 assms(5) Some by (auto split: option.splits)
  qed
qed

theorem resolve_output_name_stable_witness:
  "\<exists>st st1 st2 st3 nb. resolve_output_name True st 7 = Some (''a.txt'', st1) \<and>
     resolve_output_name True st1 8 = Some (nb, st2) \<and>
     resolve_output_name True st2 7 = Some (''a.txt'', st3)"
proof -
  obtain st where st: "fm_inv st" "claims_inv st" "fm_map st = [7 \<mapsto> take 255 ''a.txt'']" "name_claims st = []"
    using one_name_state [of 7 "''a.txt''"] by (auto simp: filename_is_safe_def)
  obtain st1 where a: "resolve_output_name True st 7 = Some (''a.txt'', st1)" "fm_inv st1" "claims_inv st1"
    using resolve_model [OF st(1,2), of 7] st(3,4) by (auto simp: claim_of_def)
  obtain nb st2 where b: "resolve_output_name True st1 8 = Some (nb, st2)"
    using resolve_model [OF a(2,3), of 8] by auto
  show ?thesis
    using resolve_output_name_stable [OF st(1,2) _ _ a(1) b] a b by auto
qed

text \<open>Of two inodes resolved one after the other, at most one gets a given directory
  entry's name: if the outputs coincide, one of them is the numeric fallback.\<close>

theorem resolve_output_name_exclusive:
  assumes "fm_inv st" and "claims_inv st" and "a \<noteq> 0" and "b \<noteq> 0" and "a \<noteq> b"
    and "resolve_output_name True st a = Some (name, st1)"
    and "resolve_output_name True st1 b = Some (name, st2)"
  shows "name = fallback_name a \<or> name = fallback_name b"
proof -
  obtain s1 where s1: "resolve_output_name True st a =
      Some (case fm_map st a of None \<Rightarrow> fallback_name a
            | Some name \<Rightarrow> (case claim_of st name of
                Some c \<Rightarrow> if nc_ino c = a then name else fallback_name a
              | None \<Rightarrow> name), s1)"
    "fm_inv s1" "claims_inv s1" "fm_map s1 = fm_map st"
    "name_claims s1 = name_claims st @
      (case fm_map st a of None \<Rightarrow> []
       | Some name \<Rightarrow> (case claim_of st name of Some c \<Rightarrow> []
                       | None \<Rightarrow> [\<lparr>nc_ino = a, nc_name = take 255 name\<rparr>]))"
    using resolve_model [OF assms(1,2,3)] by blast
  have e1: "st1 = s1" using assms(6) s1(1) by simp
  show ?thesis
  proof (rule ccontr)
    assume no: "\<not> ?thesis"
    then have fa: "fm_map st a = Some name"
      and ca: "claim_of st name = None \<or> (\<exists>c. claim_of st name = Some c \<and> nc_ino c = a)"
      using s1(1) assms(6) by (auto split: option.splits if_splits)
    have "\<exists>c. claim_of s1 name = Some c \<and> nc_ino c = a"
      using s1(5) fa ca by (auto simp: claim_of_def find_append)
    then show False
      using resolve_model [OF s1(2,3) assms(4)] assms(5,7) no e1
      by (auto split: option.splits if_splits)
  qed
qed

theorem resolve_output_name_exclusive_witness:
  "\<exists>st st1 st2. fm_map st 5 = Some ''7_file'' \<and> resolve_output_name True st 5 = Some (''7_file'', st1) \<and>
     resolve_output_name True st1 7 = Some (''7_file'', st2) \<and> fallback_name 7 = ''7_file''"
proof -
  obtain st where st: "fm_inv st" "claims_inv st" "fm_map st = [5 \<mapsto> take 255 ''7_file'']" "name_claims st = []"
    using one_name_state [of 5 "''7_file''"] by (auto simp: filename_is_safe_def)
  obtain st1 where a: "resolve_output_name True st 5 = Some (''7_file'', st1)" "fm_inv st1" "claims_inv st1"
    "fm_map st1 = fm_map st"
    using resolve_model [OF st(1,2), of 5] st(3,4) by (auto simp: claim_of_def)
  have f: "fallback_name 7 = ''7_file''"
    by code_simp
  obtain st2 where b: "resolve_output_name True st1 7 = Some (''7_file'', st2)"
    using resolve_model [OF a(2,3), of 7] a(4) st(3) f by auto
  have "''7_file'' = fallback_name 5 \<or> ''7_file'' = fallback_name 7"
    using resolve_output_name_exclusive [OF st(1,2) _ _ _ a(1) b] by simp
  then show ?thesis using a(1) b st(3) f by (intro exI [of _ st] exI [of _ st1] exI [of _ st2]) simp
qed

end
