(* ===== verification/Fs_Caps.thy ===== *)
theory Fs_Caps
  imports Prelude
begin

text \<open>
  The capability table of \<^verbatim>\<open>fs_capabilities.c\<close>: feature bits of the ext4 superblock and,
  after the journal superblock has been read, the wire format of the jbd2 descriptor tags.
\<close>

section \<open>Superblock and capability table\<close>

record super_block =
  s_feature_compat :: u32
  s_feature_incompat :: u32
  s_feature_ro_compat :: u32
  s_inodes_count :: u32
  s_inodes_per_group :: u32
  s_inode_size :: u32
  s_journal_inum :: u32
  s_journal_dev :: u32
  s_last_orphan :: u32
  s_orphan_file_inum :: u32
  s_log_block_size :: u32
  s_log_cluster_size :: u32

datatype jbd2_tag_format = JBD2_TAG_FMT_V1 | JBD2_TAG_FMT_CSUM_V2 | JBD2_TAG_FMT_CSUM_V3

record fs_capabilities =
  has_extents :: bool
  has_flex_bg :: bool
  has_64bit :: bool
  has_metadata_csum :: bool
  has_inline_data :: bool
  has_orphan_file :: bool
  has_fc_compat :: bool
  journal_probed :: bool
  jbd2_tag_fmt :: jbd2_tag_format
  jbd2_has_64bit :: bool
  jbd2_has_fc :: bool
  jbd2_tag_bytes :: nat

definition fs_capabilities_detect :: "super_block \<Rightarrow> fs_capabilities" where
  "fs_capabilities_detect sb =
     \<lparr>has_extents = (s_feature_incompat sb AND 0x0040 \<noteq> 0),
      has_flex_bg = (s_feature_incompat sb AND 0x0200 \<noteq> 0),
      has_64bit = (s_feature_incompat sb AND 0x0080 \<noteq> 0),
      has_metadata_csum = (s_feature_ro_compat sb AND 0x0400 \<noteq> 0),
      has_inline_data = (s_feature_incompat sb AND 0x8000 \<noteq> 0),
      has_orphan_file = (s_feature_compat sb AND 0x1000 \<noteq> 0),
      has_fc_compat = (s_feature_compat sb AND 0x0400 \<noteq> 0),
      journal_probed = False, jbd2_tag_fmt = JBD2_TAG_FMT_V1,
      jbd2_has_64bit = False, jbd2_has_fc = False, jbd2_tag_bytes = 8\<rparr>"

definition fs_capabilities_set_journal :: "fs_capabilities \<Rightarrow> u32 \<Rightarrow> fs_capabilities" where
  "fs_capabilities_set_journal c jsb_feature_incompat =
     (let b64 = (jsb_feature_incompat AND 0x00000002 \<noteq> 0);
          fmt = (if jsb_feature_incompat AND 0x00000010 \<noteq> 0 then JBD2_TAG_FMT_CSUM_V3
                 else if jsb_feature_incompat AND 0x00000008 \<noteq> 0 then JBD2_TAG_FMT_CSUM_V2
                 else JBD2_TAG_FMT_V1);
          tag_bytes = (if fmt = JBD2_TAG_FMT_CSUM_V3 then 16
                       else (let b = 12;
                                 b = (if fmt = JBD2_TAG_FMT_CSUM_V2 then b + 2 else b)
                             in if \<not> b64 then b - 4 else b))
      in c\<lparr>journal_probed := True, jbd2_has_64bit := b64,
           jbd2_has_fc := (jsb_feature_incompat AND 0x00000020 \<noteq> 0),
           jbd2_tag_fmt := fmt, jbd2_tag_bytes := tag_bytes\<rparr>)"

section \<open>The wire format is well formed\<close>

text \<open>What the tag decoder relies on: the size of a tag covers every field it reads.\<close>

definition tag_format_ok :: "fs_capabilities \<Rightarrow> bool" where
  "tag_format_ok c \<longleftrightarrow>
     (jbd2_tag_fmt c = JBD2_TAG_FMT_CSUM_V3 \<longrightarrow> 16 \<le> jbd2_tag_bytes c) \<and>
     (jbd2_tag_fmt c \<noteq> JBD2_TAG_FMT_CSUM_V3 \<longrightarrow>
        (if jbd2_has_64bit c then 12 else 8) \<le> jbd2_tag_bytes c)"

lemma set_journal_bytes:
  "jbd2_tag_bytes (fs_capabilities_set_journal c f) =
     (case jbd2_tag_fmt (fs_capabilities_set_journal c f) of
        JBD2_TAG_FMT_CSUM_V3 \<Rightarrow> 16
      | JBD2_TAG_FMT_CSUM_V2 \<Rightarrow> if jbd2_has_64bit (fs_capabilities_set_journal c f) then 14 else 10
      | JBD2_TAG_FMT_V1 \<Rightarrow> if jbd2_has_64bit (fs_capabilities_set_journal c f) then 12 else 8)"
  by (simp add: fs_capabilities_set_journal_def Let_def)

lemma tag_format_ok_detect: "tag_format_ok (fs_capabilities_detect sb)"
  by (simp add: fs_capabilities_detect_def tag_format_ok_def)

lemma tag_format_ok_set_journal: "tag_format_ok (fs_capabilities_set_journal c f)"
  unfolding tag_format_ok_def set_journal_bytes
  by (cases "jbd2_tag_fmt (fs_capabilities_set_journal c f)") simp_all

text \<open>The tag size the descriptor walk uses agrees with the jbd2 on-disk format for
  every combination of journal feature flags (csum_v3: 16; csum_v2: 10, or 14 with 64-bit block
  numbers; v1: 8, or 12), so that every field the decoder reads lies inside the tag; and probing
  the journal leaves the superblock-derived capabilities alone.\<close>

lemma set_journal_tag_layout:
  "let c' = fs_capabilities_set_journal (fs_capabilities_detect sb) flags in
   (jbd2_tag_bytes c' =
     (case (jbd2_tag_fmt c', jbd2_has_64bit c') of
        (JBD2_TAG_FMT_CSUM_V3, _) \<Rightarrow> 16
      | (JBD2_TAG_FMT_CSUM_V2, b) \<Rightarrow> if b then 14 else 10
      | (JBD2_TAG_FMT_V1, b) \<Rightarrow> if b then 12 else 8)) \<and>
   (jbd2_tag_fmt c' = JBD2_TAG_FMT_CSUM_V3 \<longleftrightarrow> bit flags 4) \<and>
   (jbd2_tag_fmt c' = JBD2_TAG_FMT_CSUM_V2 \<longleftrightarrow> \<not> bit flags 4 \<and> bit flags 3) \<and>
   (jbd2_has_64bit c' \<longleftrightarrow> bit flags 1) \<and> journal_probed c' \<and> tag_format_ok c' \<and>
   has_inline_data c' = bit (s_feature_incompat sb) 15 \<and>
   has_orphan_file c' = bit (s_feature_compat sb) 12"
proof -
  have b: "\<And>(w :: u32) n. w AND push_bit n 1 \<noteq> 0 \<longleftrightarrow> bit w n"
    by (simp add: and_exp_eq_0_iff_not_bit push_bit_eq_mult)
  show ?thesis
    using b [of flags 4] b [of flags 3] b [of flags 1] b [of "s_feature_incompat sb" 15]
      b [of "s_feature_compat sb" 12] tag_format_ok_set_journal [of "fs_capabilities_detect sb" flags]
    by (simp add: fs_capabilities_set_journal_def fs_capabilities_detect_def Let_def push_bit_eq_mult)
qed

end
