(* ===== verification/Journal_Index.thy ===== *)
theory Journal_Index
  imports Prelude
begin

text \<open>
  The versioned journal index of \<^verbatim>\<open>journal_index.c\<close>: a growable array of (file-system
  block, journal block, sequence, escaped) entries, sorted once by \<open>qsort\<close> and then
  searched.  The array is modelled by its used prefix; \<open>ok\<close> is the outcome of
  \<open>realloc\<close>.  The journal inode is read through libext2fs: \<open>jread off n\<close> is the result
  of \<open>ext2fs_file_llseek\<close> followed by \<open>ext2fs_file_read\<close> (\<open>None\<close> on an error of either).
\<close>

section \<open>The index and its operations\<close>

record jindex_entry =
  je_fs_block :: blk64_t
  je_journal_blk :: u32
  je_seq :: u32
  je_escaped :: bool

record journal_index =
  ji_e :: "jindex_entry list"
  ji_cap :: nat

definition jindex_cmp :: "jindex_entry \<Rightarrow> jindex_entry \<Rightarrow> int" where
  "jindex_cmp ea eb =
     (if je_fs_block ea < je_fs_block eb then -1
      else if je_fs_block ea > je_fs_block eb then 1
      else if je_seq ea < je_seq eb then -1
      else if je_seq ea > je_seq eb then 1
      else 0)"

definition jindex_add ::
  "bool \<Rightarrow> journal_index \<Rightarrow> blk64_t \<Rightarrow> u32 \<Rightarrow> u32 \<Rightarrow> bool \<Rightarrow> int \<times> journal_index" where
  "jindex_add ok ji fs_block journal_blk seq escaped =
     (let full = length (ji_e ji) \<ge> ji_cap ji;
          ncap = (if ji_cap ji \<noteq> 0 then ji_cap ji * 2 else 4096)
      in if full \<and> \<not> ok then (-1, ji)
         else (0, ji\<lparr>ji_cap := (if full then ncap else ji_cap ji),
                    ji_e := ji_e ji @ [\<lparr>je_fs_block = fs_block, je_journal_blk = journal_blk,
                                       je_seq = seq, je_escaped = escaped\<rparr>]\<rparr>))"

definition jindex_sort :: "journal_index option \<Rightarrow> journal_index option" where
  "jindex_sort jip =
     (case jip of None \<Rightarrow> None
      | Some ji \<Rightarrow> if length (ji_e ji) > 0 then Some (ji\<lparr>ji_e := qsort_by jindex_cmp (ji_e ji)\<rparr>)
                  else Some ji)"

definition journal_index_build :: "bool \<Rightarrow> bool \<Rightarrow> journal_index option \<Rightarrow> int \<times> journal_index option" where
  "journal_index_build ok has_journal jip =
     (if \<not> has_journal then (0, jip)
      else if jip \<noteq> None then (0, jip)
      else if ok then (0, Some \<lparr>ji_e = [], ji_cap = 0\<rparr>)
      else (-1, None))"

text \<open>The loop over the run of entries of one block: the last acceptable one wins.\<close>

function jindex_best :: "jindex_entry list \<Rightarrow> blk64_t \<Rightarrow> u32 \<Rightarrow> nat \<Rightarrow> nat option \<Rightarrow> nat option" where
  "jindex_best es fs_block max_seq i best =
     (if i < length es \<and> je_fs_block (es ! i) = fs_block
      then jindex_best es fs_block max_seq (Suc i)
             (if max_seq = 0 \<or> je_seq (es ! i) \<le> max_seq then Some i else best)
      else best)"
  by pat_completeness auto
termination
  by (relation "measure (\<lambda>(es, b, m, i, best). length es - i)") auto

declare jindex_best.simps [simp del]

definition restore_magic :: "buffer \<Rightarrow> buffer" where
  "restore_magic buf = be_bytes 4 0xc03b3998 @ drop 4 buf"

text \<open>\<open>None\<close> is the return value 0; otherwise the returned sequence number and the block.\<close>

definition journal_index_read ::
  "(nat \<Rightarrow> nat \<Rightarrow> buffer option) \<Rightarrow> bool \<Rightarrow> nat \<Rightarrow> journal_index option \<Rightarrow> blk64_t \<Rightarrow> u32 \<Rightarrow>
   (u32 \<times> buffer) option" where
  "journal_index_read jread journal_file blocksize jip fs_block max_seq =
     (case jip of None \<Rightarrow> None
      | Some ji \<Rightarrow>
         if length (ji_e ji) = 0 then None
         else
           let es = ji_e ji;
               lo = bsearch (\<lambda>mid. \<not> je_fs_block (es ! mid) < fs_block) 0 (length es)
           in case jindex_best es fs_block max_seq lo None of
                None \<Rightarrow> None
              | Some best \<Rightarrow>
                  if \<not> journal_file then None
                  else case jread (unat (je_journal_blk (es ! best)) * blocksize) blocksize of
                         None \<Rightarrow> None
                       | Some buf \<Rightarrow>
                           if length buf \<noteq> blocksize then None
                           else Some (if je_seq (es ! best) \<noteq> 0 then je_seq (es ! best) else 1,
                                      if je_escaped (es ! best) then restore_magic buf else buf))"

definition journal_index_free :: "journal_index option \<Rightarrow> journal_index option" where
  "journal_index_free jip = None"

section \<open>The sorted index\<close>

lemma jindex_cmp_le:
  "jindex_cmp a b \<le> 0 \<longleftrightarrow> je_fs_block a < je_fs_block b \<or> je_fs_block a = je_fs_block b \<and> je_seq a \<le> je_seq b"
  by (auto simp: jindex_cmp_def)

interpretation jsort: qsort_contract jindex_cmp "qsort_by jindex_cmp"
  by (rule qsort_by_contract) (auto simp: jindex_cmp_le)

definition jindex_sorted :: "jindex_entry list \<Rightarrow> bool" where
  "jindex_sorted es \<longleftrightarrow> sorted_wrt (\<lambda>a b. jindex_cmp a b \<le> 0) es"

lemma jindex_sort_entries:
  "jindex_sort (Some ji) = Some (ji\<lparr>ji_e := qsort_by jindex_cmp (ji_e ji)\<rparr>)"
  by (cases "ji_e ji") (simp_all add: jindex_sort_def qsort_by_def)

lemma sorted_nth: "jindex_sorted es \<Longrightarrow> i \<le> j \<Longrightarrow> j < length es \<Longrightarrow> jindex_cmp (es ! i) (es ! j) \<le> 0"
  by (cases "i = j") (auto simp: jindex_sorted_def sorted_wrt_iff_nth_less jindex_cmp_le)

lemma sorted_block_mono:
  assumes "jindex_sorted es" "i \<le> j" "j < length es"
  shows "je_fs_block (es ! i) \<le> je_fs_block (es ! j)"
  using sorted_nth [OF assms] unfolding jindex_cmp_le by (elim disjE) simp_all

lemma jindex_lower_bound:
  assumes "jindex_sorted es" and lo_def: "lo = bsearch (\<lambda>mid. \<not> je_fs_block (es ! mid) < b) 0 (length es)"
  shows "lo \<le> length es" "\<And>i. i < lo \<Longrightarrow> je_fs_block (es ! i) < b"
    "\<And>i. lo \<le> i \<Longrightarrow> i < length es \<Longrightarrow> b \<le> je_fs_block (es ! i)"
proof -
  have "\<forall>i j. 0 \<le> i \<and> i \<le> j \<and> j < length es \<and> \<not> je_fs_block (es ! i) < b \<longrightarrow> \<not> je_fs_block (es ! j) < b"
  proof (intro allI impI)
    fix i j assume ij: "0 \<le> i \<and> i \<le> j \<and> j < length es \<and> \<not> je_fs_block (es ! i) < b"
    then have "je_fs_block (es ! i) \<le> je_fs_block (es ! j)"
      using sorted_block_mono [OF assms(1)] by blast
    with ij show "\<not> je_fs_block (es ! j) < b" using le_less_trans by blast
  qed
  note sp = bsearch_spec [OF le0 this, folded lo_def]
  show "lo \<le> length es" using sp by blast
  show "\<And>i. i < lo \<Longrightarrow> je_fs_block (es ! i) < b" using sp by blast
  show "\<And>i. lo \<le> i \<Longrightarrow> i < length es \<Longrightarrow> b \<le> je_fs_block (es ! i)" using sp not_le by blast
qed

definition accepts :: "blk64_t \<Rightarrow> u32 \<Rightarrow> jindex_entry \<Rightarrow> bool" where
  "accepts b max_seq e \<longleftrightarrow> je_fs_block e = b \<and> (max_seq = 0 \<or> je_seq e \<le> max_seq)"

text \<open>Scanning the run \<open>[i, k)\<close> of a sorted array, where \<open>best\<close> is the best so far.\<close>

lemma jindex_best_spec:
  assumes "jindex_sorted es"
    and "\<forall>j. i \<le> j \<longrightarrow> j < length es \<longrightarrow> b \<le> je_fs_block (es ! j)"
    and "\<forall>k. best = Some k \<longrightarrow> k < i \<and> k < length es \<and> accepts b max_seq (es ! k)"
    and "\<forall>j < i. j < length es \<longrightarrow> accepts b max_seq (es ! j) \<longrightarrow> (\<exists>k. best = Some k \<and> je_seq (es ! j) \<le> je_seq (es ! k))"
  shows "case jindex_best es b max_seq i best of
           None \<Rightarrow> \<forall>j < length es. \<not> accepts b max_seq (es ! j)
         | Some k \<Rightarrow> k < length es \<and> accepts b max_seq (es ! k) \<and>
             (\<forall>j < length es. accepts b max_seq (es ! j) \<longrightarrow> je_seq (es ! j) \<le> je_seq (es ! k))"
  using assms
proof (induction es b max_seq i best rule: jindex_best.induct)
  case (1 es b max_seq i best)
  show ?case
  proof (cases "i < length es \<and> je_fs_block (es ! i) = b")
    case True
    let ?best' = "if max_seq = 0 \<or> je_seq (es ! i) \<le> max_seq then Some i else best"
    have eq: "jindex_best es b max_seq i best = jindex_best es b max_seq (Suc i) ?best'"
      using True by (subst jindex_best.simps) simp
    have below: "\<And>j. j < i \<Longrightarrow> j < length es \<Longrightarrow> accepts b max_seq (es ! j) \<Longrightarrow> je_seq (es ! j) \<le> je_seq (es ! i)"
    proof -
      fix j assume "j < i" "j < length es" "accepts b max_seq (es ! j)"
      then show "je_seq (es ! j) \<le> je_seq (es ! i)"
        using sorted_nth [OF "1.prems"(1), of j i] True by (auto simp: jindex_cmp_le accepts_def)
    qed
    show ?thesis
      unfolding eq
    proof (rule "1.IH" [OF True "1.prems"(1)])
      show "\<forall>j\<ge>Suc i. j < length es \<longrightarrow> b \<le> je_fs_block (es ! j)" using "1.prems"(2) by simp
      show "\<forall>k. ?best' = Some k \<longrightarrow> k < Suc i \<and> k < length es \<and> accepts b max_seq (es ! k)"
        using True "1.prems"(3) by (auto simp: accepts_def less_Suc_eq)
      show "\<forall>j<Suc i. j < length es \<longrightarrow> accepts b max_seq (es ! j) \<longrightarrow>
              (\<exists>k. ?best' = Some k \<and> je_seq (es ! j) \<le> je_seq (es ! k))"
        using True "1.prems"(4) below by (auto simp: accepts_def less_Suc_eq)
    qed
  next
    case False
    have eq: "jindex_best es b max_seq i best = best"
      using False by (subst jindex_best.simps) (simp only: if_False)
    have above: "\<not> accepts b max_seq (es ! j)" if "i \<le> j" "j < length es" for j
    proof
      assume a: "accepts b max_seq (es ! j)"
      then have "je_fs_block (es ! i) \<le> b"
        using sorted_nth [OF "1.prems"(1) that] by (auto simp: jindex_cmp_le accepts_def)
      with "1.prems"(2) that False show False by (metis le_trans antisym order_refl le_less_trans)
    qed
    show ?thesis
    proof (cases best)
      case None
      have "\<not> accepts b max_seq (es ! j)" if "j < length es" for j
        using "1.prems"(4) above [of j] that None by (cases "j < i") auto
      then show ?thesis using None eq by simp
    next
      case (Some k)
      have "je_seq (es ! j) \<le> je_seq (es ! k)" if "j < length es" "accepts b max_seq (es ! j)" for j
        using "1.prems"(4) above [of j] that Some by (cases "j < i") auto
      then show ?thesis using Some eq "1.prems"(3) by simp
    qed
  qed
qed

lemma jindex_lookup:
  assumes "jindex_sorted es"
  shows "case jindex_best es b max_seq (bsearch (\<lambda>mid. \<not> je_fs_block (es ! mid) < b) 0 (length es)) None of
           None \<Rightarrow> \<forall>e \<in> set es. \<not> accepts b max_seq e
         | Some k \<Rightarrow> k < length es \<and> accepts b max_seq (es ! k) \<and>
             (\<forall>e \<in> set es. accepts b max_seq e \<longrightarrow> je_seq e \<le> je_seq (es ! k))"
proof -
  note lb = jindex_lower_bound [OF assms refl, where b = b]
  show ?thesis
    unfolding all_set_conv_all_nth
    by (rule jindex_best_spec [OF assms]) (use lb(2,3) in \<open>auto simp: accepts_def\<close>)
qed

section \<open>Properties\<close>

text \<open>Property C21: on the sorted index a versioned read returns a copy of the requested block whose
  sequence number is the highest one not above the bound (the highest of all when the bound is 0),
  with the escaped magic restored; it reports nothing only if no copy qualifies.  This holds for any
  order in which the scan added the entries.\<close>

theorem journal_index_read_newest:
  assumes "\<And>off. \<exists>bs. jread off blocksize = Some bs \<and> length bs = blocksize"
    and "jindex_sort (Some ji) = Some ji'"
  shows "case journal_index_read jread True blocksize (Some ji') b max_seq of
           None \<Rightarrow> \<forall>e \<in> set (ji_e ji). \<not> (je_fs_block e = b \<and> (max_seq = 0 \<or> je_seq e \<le> max_seq))
         | Some (s, buf) \<Rightarrow> \<exists>e \<in> set (ji_e ji). je_fs_block e = b \<and> (max_seq = 0 \<or> je_seq e \<le> max_seq) \<and>
             (\<forall>e' \<in> set (ji_e ji). je_fs_block e' = b \<and> (max_seq = 0 \<or> je_seq e' \<le> max_seq) \<longrightarrow> je_seq e' \<le> je_seq e) \<and>
             s = (if je_seq e = 0 then 1 else je_seq e) \<and>
             buf = (let raw = the (jread (unat (je_journal_blk e) * blocksize) blocksize)
                    in if je_escaped e then restore_magic raw else raw)"
proof -
  let ?es = "qsort_by jindex_cmp (ji_e ji)"
  have es: "ji_e ji' = ?es" using assms(2) by (auto simp: jindex_sort_entries)
  have srt: "jindex_sorted ?es" unfolding jindex_sorted_def by (rule jsort.qs_sorted)
  have st: "set ?es = set (ji_e ji)" by (rule jsort.qs_set)
  let ?r = "jindex_best ?es b max_seq (bsearch (\<lambda>mid. \<not> je_fs_block (?es ! mid) < b) 0 (length ?es)) None"
  show ?thesis
  proof (cases ?r)
    case None
    then have "journal_index_read jread True blocksize (Some ji') b max_seq = None"
      by (simp add: journal_index_read_def es)
    then show ?thesis
      using jindex_lookup [OF srt, of b max_seq] None st by (simp add: accepts_def)
  next
    case (Some k)
    then have k: "k < length ?es" "accepts b max_seq (?es ! k)"
      "\<forall>e \<in> set (ji_e ji). accepts b max_seq e \<longrightarrow> je_seq e \<le> je_seq (?es ! k)"
      using jindex_lookup [OF srt, of b max_seq] st by auto
    then have mem: "?es ! k \<in> set (ji_e ji)" using st by (metis nth_mem)
    obtain bs where bs: "jread (unat (je_journal_blk (?es ! k)) * blocksize) blocksize = Some bs" "length bs = blocksize"
      using assms(1) by blast
    have "journal_index_read jread True blocksize (Some ji') b max_seq =
        Some (if je_seq (?es ! k) \<noteq> 0 then je_seq (?es ! k) else 1, if je_escaped (?es ! k) then restore_magic bs else bs)"
      using Some k(1) bs by (auto simp: journal_index_read_def es)
    then show ?thesis using k mem bs by (auto simp: accepts_def intro!: bexI [of _ "?es ! k"])
  qed
qed

definition je_example :: "nat \<Rightarrow> nat \<Rightarrow> nat \<Rightarrow> jindex_entry" where
  "je_example b j s = \<lparr>je_fs_block = of_nat b, je_journal_blk = of_nat j, je_seq = of_nat s, je_escaped = False\<rparr>"

definition ji_example :: journal_index where
  "ji_example = \<lparr>ji_e = [je_example 9 2 4, je_example 7 3 4, je_example 9 6 5, je_example 3 9 6], ji_cap = 4096\<rparr>"

theorem journal_index_read_newest_witness:
  "\<exists>ji'. jindex_sort (Some ji_example) = Some ji' \<and>
     journal_index_read (\<lambda>off n. Some (replicate n (of_nat off))) True 2 (Some ji') 9 5 = Some (5, [12, 12]) \<and>
     (\<exists>e \<in> set (ji_e ji_example). je_fs_block e = 9 \<and> je_seq e = 5)"
proof -
  define ji' where "ji' = ji_example\<lparr>ji_e := [je_example 3 9 6, je_example 7 3 4, je_example 9 2 4, je_example 9 6 5]\<rparr>"
  let ?jread = "\<lambda>off n. Some (replicate n (of_nat off)) :: buffer option"
  have s: "jindex_sort (Some ji_example) = Some ji'"
    by (simp add: jindex_sort_entries ji'_def ji_example_def qsort_by_def jindex_cmp_def je_example_def)
  have r: "journal_index_read ?jread True 2 (Some ji') 9 5 = Some (5, [12, 12])"
    unfolding ji'_def by code_simp
  obtain e where "e \<in> set (ji_e ji_example)" "je_fs_block e = 9" "5 = (if je_seq e = 0 then 1 else je_seq e)"
    using journal_index_read_newest [OF _ s, of ?jread 2 9 5] r by auto
  then have "\<exists>e \<in> set (ji_e ji_example). je_fs_block e = 9 \<and> je_seq e = 5"
    by (auto split: if_splits)
  then show ?thesis using s r by (intro exI [of _ ji']) simp
qed

text \<open>The same lookup on the index as the scan builds it, before it is sorted, can miss
  a copy that is present: after three entries for the blocks 9, 7 and 3, block 9 is not found,
  while it is found once the index is sorted.\<close>

theorem journal_index_read_unsorted_misses:
  "let jread = (\<lambda>off n. Some (replicate n 0));
       ji = snd (jindex_add True (snd (jindex_add True (snd (jindex_add True \<lparr>ji_e = [], ji_cap = 0\<rparr>
              9 2 4 False)) 7 3 4 False)) 3 9 6 False)
   in journal_index_read jread True 1024 (Some ji) 9 0 = None \<and>
      journal_index_read jread True 1024 (jindex_sort (Some ji)) 9 0 \<noteq> None"
  by (simp add: jindex_add_def jindex_sort_entries qsort_by_def jindex_cmp_def journal_index_read_def
      bsearch.simps jindex_best.simps)

end
