(* ===== verification/Block_Set.thy ===== *)
theory Block_Set
  imports Open_Addressing
begin

text \<open>
  The recovered-block set of \<^verbatim>\<open>aggressive_scan_v5.c\<close> (the statics \<open>rb_keys\<close>, \<open>rb_size\<close>,
  \<open>rb_count\<close>): an open-addressing hash table of 64-bit block numbers.  The result \<open>None\<close>
  is a probing loop that does not end; \<open>ok\<close> is the outcome of the \<open>calloc\<close> in \<open>rb_grow\<close>.
\<close>

section \<open>The table\<close>

record rb_set =
  rb_keys :: "blk64_t list"
  rb_size :: nat
  rb_count :: nat

definition rb_start :: "nat \<Rightarrow> blk64_t \<Rightarrow> blk64_t" where
  "rb_start ns block = (block * 0x9E3779B97F4A7C15) AND of_nat (ns - 1)"

text \<open>Rehashing stops at the first empty slot; it never compares keys.\<close>

primrec rb_rehash :: "nat \<Rightarrow> blk64_t list \<Rightarrow> blk64_t list \<Rightarrow> blk64_t list option" where
  "rb_rehash ns [] nk = Some nk"
| "rb_rehash ns (k # ks) nk =
     (if k \<noteq> 0 then
        (case probe ns nk (of_nat (ns - 1)) 0 (rb_start ns k) of
           None \<Rightarrow> None
         | Some h \<Rightarrow> rb_rehash ns ks (nk[unat h := k]))
      else rb_rehash ns ks nk)"

definition rb_grow :: "bool \<Rightarrow> rb_set \<Rightarrow> nat \<Rightarrow> (int \<times> rb_set) option" where
  "rb_grow ok rb min_size =
     (let ns = pow2_above 4096 (min_size * 2) in
      if \<not> ok then Some (-1, rb)
      else case rb_rehash ns (rb_keys rb) (replicate ns 0) of
             None \<Rightarrow> None
           | Some nk \<Rightarrow> Some (0, rb\<lparr>rb_keys := nk, rb_size := ns\<rparr>))"

definition is_block_recovered :: "rb_set \<Rightarrow> blk64_t \<Rightarrow> bool option" where
  "is_block_recovered rb block =
     (if rb_size rb = 0 \<or> block = 0 then Some False
      else case probe (rb_size rb) (rb_keys rb) (of_nat (rb_size rb - 1)) block (rb_start (rb_size rb) block) of
             None \<Rightarrow> None
           | Some h \<Rightarrow> Some (rb_keys rb ! unat h = block))"

definition mark_block_recovered :: "bool \<Rightarrow> rb_set \<Rightarrow> blk64_t \<Rightarrow> rb_set option" where
  "mark_block_recovered ok rb block =
     (if block = 0 then Some rb
      else case (if rb_count rb * 2 \<ge> rb_size rb then rb_grow ok rb (rb_count rb + 1) else Some (0, rb)) of
             None \<Rightarrow> None
           | Some (r, rb1) \<Rightarrow>
               if r \<noteq> 0 then Some rb1
               else case probe (rb_size rb1) (rb_keys rb1) (of_nat (rb_size rb1 - 1)) block
                           (rb_start (rb_size rb1) block) of
                      None \<Rightarrow> None
                    | Some h \<Rightarrow> Some (if rb_keys rb1 ! unat h = block then rb1
                                     else rb1\<lparr>rb_keys := (rb_keys rb1)[unat h := block],
                                              rb_count := rb_count rb1 + 1\<rparr>))"

definition free_recovered_list :: "rb_set \<Rightarrow> rb_set" where
  "free_recovered_list rb = \<lparr>rb_keys = [], rb_size = 0, rb_count = 0\<rparr>"

section \<open>The contract of a growing set\<close>

text \<open>
  What the scanners rely on: membership is exact, a successful mark adds one element, a
  mark that fails for lack of memory changes nothing.  \<open>room\<close> bounds the number of elements.
\<close>

locale growing_set =
  fixes inv :: "'s \<Rightarrow> bool" and elems :: "'s \<Rightarrow> 'a set" and room :: "'s \<Rightarrow> nat"
    and mem :: "'s \<Rightarrow> 'a \<Rightarrow> bool option" and ins :: "bool \<Rightarrow> 's \<Rightarrow> 'a \<Rightarrow> 's option"
    and dummy :: 'a
  assumes mem_exact: "inv s \<Longrightarrow> mem s x = Some (x \<in> elems s)"
    and ins_ok: "inv s \<Longrightarrow> x \<noteq> dummy \<Longrightarrow> 0 < room s \<Longrightarrow>
      \<exists>s'. ins ok s x = Some s' \<and> inv s' \<and> (ok \<longrightarrow> elems s' = insert x (elems s)) \<and>
           (elems s' = elems s \<or> elems s' = insert x (elems s)) \<and> room s \<le> room s' + 1"
begin

text \<open>A history of marks, each with its own allocation outcome.\<close>

lemma ins_all:
  assumes "inv s" "dummy \<notin> snd ` set xs" "length xs \<le> room s"
  shows "\<exists>s'. foldl (\<lambda>st (ok, x). Option.bind st (\<lambda>s. ins ok s x)) (Some s) xs = Some s' \<and> inv s' \<and>
    elems s \<union> snd ` {p \<in> set xs. fst p} \<subseteq> elems s' \<and> elems s' \<subseteq> elems s \<union> snd ` set xs"
  using assms
proof (induction xs arbitrary: s)
  case Nil
  then show ?case by simp
next
  case (Cons p xs)
  obtain ok x where p: "p = (ok, x)" by (cases p)
  obtain s1 where s1: "ins ok s x = Some s1" "inv s1" "ok \<longrightarrow> elems s1 = insert x (elems s)"
    "elems s1 = elems s \<or> elems s1 = insert x (elems s)" "room s \<le> room s1 + 1"
    using ins_ok [of s x ok] Cons.prems p by auto
  obtain s2 where s2: "foldl (\<lambda>st (ok, x). Option.bind st (\<lambda>s. ins ok s x)) (Some s1) xs = Some s2" "inv s2"
    "elems s1 \<union> snd ` {p \<in> set xs. fst p} \<subseteq> elems s2" "elems s2 \<subseteq> elems s1 \<union> snd ` set xs"
    using Cons.IH [of s1] Cons.prems s1 by auto
  have "elems s \<union> snd ` {q \<in> set (p # xs). fst q} \<subseteq> elems s2"
    using s2(3) s1(3,4) p by (auto 0 3)
  moreover have "elems s2 \<subseteq> elems s \<union> snd ` set (p # xs)"
    using s2(4) s1(4) p by auto
  ultimately show ?case using s1(1) s2(1,2) p by auto
qed

end

section \<open>The table implements the contract\<close>

definition rb_hash :: "nat \<Rightarrow> blk64_t \<Rightarrow> blk64_t" where
  "rb_hash n k = rb_start (2 ^ n) k"

interpretation rbt: open_addressing rb_hash
proof
  fix n and k :: blk64_t
  assume "n < LENGTH(64)"
  then have "unat (rb_hash n k) = unat (k * 0x9E3779B97F4A7C15) mod 2 ^ n"
    unfolding rb_hash_def rb_start_def by (rule unat_and_mask)
  then show "unat (rb_hash n k) < 2 ^ n" by simp
qed

abbreviation rb_slot :: "nat \<Rightarrow> blk64_t \<Rightarrow> nat" where
  "rb_slot n k \<equiv> unat (rb_hash n k)"

definition rb_elems :: "rb_set \<Rightarrow> blk64_t set" where
  "rb_elems rb = set (rb_keys rb) - {0}"

definition rb_inv :: "rb_set \<Rightarrow> bool" where
  "rb_inv rb \<longleftrightarrow> rb_count rb = card (rb_elems rb) \<and>
     (rb_size rb = 0 \<and> rb_keys rb = [] \<or>
      (\<exists>n. 12 \<le> n \<and> n < 64 \<and> rb_size rb = 2 ^ n \<and> table_ok rb_slot n (rb_keys rb) \<and>
           2 * rb_count rb \<le> rb_size rb))"

lemma few_keys_free_slot:
  assumes "table_ok h n keys" "card (set keys - {0}) < 2 ^ n"
  shows "0 \<in> set keys"
proof (rule ccontr)
  assume no: "0 \<notin> set keys"
  have "distinct keys"
    unfolding distinct_conv_nth
  proof (intro allI impI)
    fix i j assume "i < length keys" "j < length keys" "i \<noteq> j"
    then show "keys ! i \<noteq> keys ! j" using assms(1) no by (metis nth_mem table_ok_def)
  qed
  then have "card (set keys) = 2 ^ n" using assms(1) by (simp add: distinct_card table_ok_def)
  then show False using assms(2) no by simp
qed

text \<open>A key that is absent goes into the free slot the probe finds.\<close>

lemma rb_place:
  assumes n: "n < 64" and ok: "table_ok rb_slot n keys" and few: "card (set keys - {0}) < 2 ^ n"
    and k: "k \<noteq> 0"
  shows "\<exists>r. probe (2 ^ n) keys (of_nat (2 ^ n - 1)) k (rb_start (2 ^ n) k) = Some r \<and>
     (keys ! unat r = k \<longleftrightarrow> k \<in> set keys) \<and>
     (k \<notin> set keys \<longrightarrow> probe (2 ^ n) keys (of_nat (2 ^ n - 1)) 0 (rb_start (2 ^ n) k) = Some r \<and>
        table_ok rb_slot n (keys[unat r := k]) \<and>
        set (keys[unat r := k]) - {0} = insert k (set keys - {0}))"
proof -
  have z: "0 \<in> set keys" by (rule few_keys_free_slot [OF ok few])
  have n': "n < LENGTH(64)" using n by simp
  obtain r d where r: "probe (2 ^ n) keys (of_nat (2 ^ n - 1)) k (rb_hash n k) = Some r" "unat r < 2 ^ n"
    "keys ! unat r = (if k \<in> set keys then k else 0)" "d < 2 ^ n" "unat r = (rb_slot n k + d) mod 2 ^ n"
    "\<forall>d' < d. keys ! ((rb_slot n k + d') mod 2 ^ n) \<noteq> 0"
    using rbt.probe_finds [OF n' ok k] z by blast
  have len: "length keys = 2 ^ n" using ok by (simp add: table_ok_def)
  have "probe (2 ^ n) keys (of_nat (2 ^ n - 1)) 0 (rb_hash n k) = Some r \<and>
        table_ok rb_slot n (keys[unat r := k]) \<and>
        set (keys[unat r := k]) - {0} = insert k (set keys - {0})" if new: "k \<notin> set keys"
  proof (intro conjI)
    have r0: "keys ! unat r = 0" using r(3) new by simp
    obtain r' where "probe (2 ^ n) keys (of_nat (2 ^ n - 1)) 0 (rb_hash n k) = Some r'"
      "unat r' = (rb_slot n k + d) mod 2 ^ n"
      using rbt.probe_nat [OF n' rbt.hash_less [OF n'], where d = d and keys = keys and k = 0 and fuel = "2 ^ n"] r r0
      by auto
    then show "probe (2 ^ n) keys (of_nat (2 ^ n - 1)) 0 (rb_hash n k) = Some r"
      using r(5) by (simp add: word_unat_eq_iff)
    show "table_ok rb_slot n (keys[unat r := k])"
      by (rule rbt.table_insert [OF ok k new r(2) r0 r(4-6)])
    have "x \<in> set (keys[unat r := k])" if "x \<in> set keys" "x \<noteq> 0" for x
      using that r0 by (metis in_set_conv_nth length_list_update nth_list_update_neq)
    moreover have "k \<in> set (keys[unat r := k])" using r(2) len by (simp add: set_update_memI)
    moreover have "set (keys[unat r := k]) \<subseteq> insert k (set keys)" by (rule set_update_subset_insert)
    ultimately show "set (keys[unat r := k]) - {0} = insert k (set keys - {0})" using k by auto
  qed
  with r z k show ?thesis by (auto simp: rb_hash_def)
qed

lemma rb_rehash_ok:
  assumes "n < 64" "table_ok rb_slot n nk" "set nk \<inter> set ks \<subseteq> {0}"
    and "\<forall>i < length ks. \<forall>j < length ks. ks ! i = ks ! j \<longrightarrow> ks ! i \<noteq> 0 \<longrightarrow> i = j"
    and "card ((set nk \<union> set ks) - {0}) < 2 ^ n"
  shows "\<exists>nk'. rb_rehash (2 ^ n) ks nk = Some nk' \<and> table_ok rb_slot n nk' \<and>
     set nk' - {0} = (set nk \<union> set ks) - {0}"
  using assms
proof (induction ks arbitrary: nk)
  case Nil
  then show ?case by simp
next
  case (Cons k ks)
  have dist: "\<forall>i < length ks. \<forall>j < length ks. ks ! i = ks ! j \<longrightarrow> ks ! i \<noteq> 0 \<longrightarrow> i = j"
    using Cons.prems(4) by (metis Suc_less_eq length_Cons nth_Cons_Suc old.nat.inject)
  show ?case
  proof (cases "k = 0")
    case True
    have "(set nk \<union> set (k # ks)) - {0} = (set nk \<union> set ks) - {0}" using True by auto
    then show ?thesis using Cons.IH [OF Cons.prems(1,2) _ dist] Cons.prems(3,5) True by auto
  next
    case False
    have knew: "k \<notin> set nk" using Cons.prems(3) False by auto
    have "k \<notin> set ks"
    proof
      assume "k \<in> set ks"
      then obtain j where "j < length ks" "ks ! j = k" by (auto simp: in_set_conv_nth)
      then show False using Cons.prems(4) [rule_format, of 0 "Suc j"] False by simp
    qed
    have "card (set nk - {0}) \<le> card ((set nk \<union> set (k # ks)) - {0})" by (rule card_mono) auto
    then have "card (set nk - {0}) < 2 ^ n" using Cons.prems(5) by simp
    then obtain r where r: "probe (2 ^ n) nk (of_nat (2 ^ n - 1)) 0 (rb_start (2 ^ n) k) = Some r"
      "table_ok rb_slot n (nk[unat r := k])" "set (nk[unat r := k]) - {0} = insert k (set nk - {0})"
      using rb_place [OF Cons.prems(1,2) _ False] knew by blast
    have s: "(set (nk[unat r := k]) \<union> set ks) - {0} = (set nk \<union> set (k # ks)) - {0}"
      using r(3) False by auto
    have "set (nk[unat r := k]) \<inter> set ks \<subseteq> {0}"
      using r(3) Cons.prems(3) \<open>k \<notin> set ks\<close> by auto
    then show ?thesis
      using Cons.IH [OF Cons.prems(1) r(2) _ dist] Cons.prems(5) s r(1) False by auto
  qed
qed

lemma rb_grow_ok:
  assumes inv: "rb_inv rb" and c: "rb_count rb < 2 ^ 30"
  shows "\<exists>nk n. rb_grow True rb (rb_count rb + 1) = Some (0, rb\<lparr>rb_keys := nk, rb_size := 2 ^ n\<rparr>) \<and>
     12 \<le> n \<and> n < 64 \<and> table_ok rb_slot n nk \<and> set nk - {0} = rb_elems rb \<and> 2 * (rb_count rb + 1) \<le> 2 ^ n"
proof -
  let ?m = "(rb_count rb + 1) * 2"
  obtain j where j: "pow2_above (2 ^ 12) ?m = 2 ^ (12 + j)" "j = 0 \<or> (2::nat) ^ (12 + j) < 2 * ?m"
    using pow2_above_pow2 by blast
  define n where "n = 12 + j"
  have "(2::nat) ^ n < 2 ^ 33" using j(2) c by (auto simp: n_def)
  then have n: "n < 64" using power_less_imp_less_exp [of "2::nat" n 33] by simp
  have big: "?m \<le> 2 ^ n" using pow2_above_ge [of "2 ^ 12" ?m] j(1) by (simp add: n_def)
  have dist: "\<forall>i < length (rb_keys rb). \<forall>j < length (rb_keys rb).
      rb_keys rb ! i = rb_keys rb ! j \<longrightarrow> rb_keys rb ! i \<noteq> 0 \<longrightarrow> i = j"
    using inv by (auto simp: rb_inv_def table_ok_def)
  have "card (rb_elems rb) = rb_count rb" using inv by (simp add: rb_inv_def)
  moreover have "set (replicate (2 ^ n) (0::blk64_t)) \<union> set (rb_keys rb) - {0} = rb_elems rb"
    by (auto simp: rb_elems_def)
  moreover have "rb_count rb < 2 ^ n" using big by simp
  ultimately obtain nk where "rb_rehash (2 ^ n) (rb_keys rb) (replicate (2 ^ n) 0) = Some nk"
    "table_ok rb_slot n nk" "set nk - {0} = rb_elems rb"
    using rb_rehash_ok [OF n rbt.table_empty _ dist] by auto
  moreover have "pow2_above 4096 ?m = 2 ^ n" using j(1) by (simp add: n_def)
  ultimately show ?thesis
    using big n by (intro exI [of _ nk] exI [of _ n]) (simp add: rb_grow_def n_def)
qed

lemma is_block_recovered_exact:
  assumes "rb_inv rb"
  shows "is_block_recovered rb b = Some (b \<in> rb_elems rb)"
proof (cases "rb_size rb = 0 \<or> b = 0")
  case True
  then show ?thesis using assms by (auto simp: is_block_recovered_def rb_elems_def rb_inv_def)
next
  case False
  then obtain n where n: "12 \<le> n" "n < 64" "rb_size rb = 2 ^ n" "table_ok rb_slot n (rb_keys rb)"
    "2 * rb_count rb \<le> 2 ^ n" using assms by (auto simp: rb_inv_def)
  have "(0::nat) < 2 ^ n" by simp
  then have "card (set (rb_keys rb) - {0}) < 2 ^ n"
    using assms n(5) unfolding rb_inv_def rb_elems_def by linarith
  then obtain r where "probe (2 ^ n) (rb_keys rb) (of_nat (2 ^ n - 1)) b (rb_start (2 ^ n) b) = Some r"
    "rb_keys rb ! unat r = b \<longleftrightarrow> b \<in> set (rb_keys rb)"
    using rb_place [OF n(2,4)] False by blast
  then show ?thesis using False n(3) by (simp add: is_block_recovered_def rb_elems_def)
qed

lemma mark_in_table:
  assumes n: "12 \<le> n" "n < 64" and ok: "table_ok rb_slot n (rb_keys rb)" "rb_size rb = 2 ^ n"
    and c: "rb_count rb = card (rb_elems rb)" "2 * (rb_count rb + 1) \<le> 2 ^ n" and b: "b \<noteq> 0"
    and r: "rb' = (case probe (rb_size rb) (rb_keys rb) (of_nat (rb_size rb - 1)) b (rb_start (rb_size rb) b) of
                 None \<Rightarrow> None
               | Some h \<Rightarrow> Some (if rb_keys rb ! unat h = b then rb
                                else rb\<lparr>rb_keys := (rb_keys rb)[unat h := b], rb_count := rb_count rb + 1\<rparr>))"
  shows "\<exists>s. rb' = Some s \<and> rb_inv s \<and> rb_elems s = insert b (rb_elems rb) \<and> rb_count s \<le> rb_count rb + 1"
proof -
  have few: "card (set (rb_keys rb) - {0}) < 2 ^ n" using c by (simp add: rb_elems_def)
  obtain h where h: "probe (2 ^ n) (rb_keys rb) (of_nat (2 ^ n - 1)) b (rb_start (2 ^ n) b) = Some h"
    "rb_keys rb ! unat h = b \<longleftrightarrow> b \<in> set (rb_keys rb)"
    "b \<notin> set (rb_keys rb) \<longrightarrow> table_ok rb_slot n ((rb_keys rb)[unat h := b]) \<and>
       set ((rb_keys rb)[unat h := b]) - {0} = insert b (set (rb_keys rb) - {0})"
    using rb_place [OF n(2) ok(1) few b] by blast
  show ?thesis
  proof (cases "b \<in> set (rb_keys rb)")
    case True
    then show ?thesis using h r ok n c b by (auto simp: rb_inv_def rb_elems_def)
  next
    case False
    let ?s = "rb\<lparr>rb_keys := (rb_keys rb)[unat h := b], rb_count := rb_count rb + 1\<rparr>"
    have e: "rb_elems ?s = insert b (rb_elems rb)" using h(3) False by (simp add: rb_elems_def)
    have "b \<notin> rb_elems rb" "finite (rb_elems rb)" using False by (auto simp: rb_elems_def)
    then have "rb_inv ?s" using h(3) False ok n c e by (auto simp: rb_inv_def)
    then show ?thesis using h r ok False e by auto
  qed
qed

lemma mark_block_recovered_ok:
  assumes inv: "rb_inv rb" and b: "b \<noteq> 0" and c: "rb_count rb < 2 ^ 30"
  shows "\<exists>s. mark_block_recovered ok rb b = Some s \<and> rb_inv s \<and> (ok \<longrightarrow> rb_elems s = insert b (rb_elems rb)) \<and>
     (rb_elems s = rb_elems rb \<or> rb_elems s = insert b (rb_elems rb)) \<and> rb_count s \<le> rb_count rb + 1"
proof (cases "rb_count rb * 2 \<ge> rb_size rb")
  case False
  then obtain n where n: "12 \<le> n" "n < 64" "rb_size rb = 2 ^ n" "table_ok rb_slot n (rb_keys rb)"
    using inv by (auto simp: rb_inv_def)
  obtain k where "n = Suc k" using n(1) by (cases n) auto
  then have "2 * (rb_count rb + 1) \<le> 2 ^ n" using False n(3) by auto
  then show ?thesis
    using mark_in_table [OF n(1,2,4,3) _ _ b refl] inv False b
    by (auto simp: mark_block_recovered_def rb_inv_def)
next
  case True
  show ?thesis
  proof (cases ok)
    case False
    then show ?thesis using True b inv by (simp add: mark_block_recovered_def rb_grow_def Let_def)
  next
    case ok: True
    obtain nk n where g: "rb_grow True rb (rb_count rb + 1) = Some (0, rb\<lparr>rb_keys := nk, rb_size := 2 ^ n\<rparr>)"
      "12 \<le> n" "n < 64" "table_ok rb_slot n nk" "set nk - {0} = rb_elems rb" "2 * (rb_count rb + 1) \<le> 2 ^ n"
      using rb_grow_ok [OF inv c] by blast
    let ?rb = "rb\<lparr>rb_keys := nk, rb_size := 2 ^ n\<rparr>"
    have e: "rb_elems ?rb = rb_elems rb" using g(5) by (simp add: rb_elems_def)
    have "rb_count ?rb = card (rb_elems ?rb)" using inv e by (simp add: rb_inv_def)
    then show ?thesis
      using mark_in_table [where rb = ?rb, OF g(2,3) _ _ _ _ b refl] g True b ok e
      by (auto simp: mark_block_recovered_def)
  qed
qed

definition rb_room :: "rb_set \<Rightarrow> nat" where
  "rb_room rb = 2 ^ 30 - rb_count rb"

interpretation rbs: growing_set rb_inv rb_elems rb_room is_block_recovered mark_block_recovered 0
proof
  show "is_block_recovered s x = Some (x \<in> rb_elems s)" if "rb_inv s" for s x
    using that by (rule is_block_recovered_exact)
  show "\<exists>s'. mark_block_recovered ok s x = Some s' \<and> rb_inv s' \<and> (ok \<longrightarrow> rb_elems s' = insert x (rb_elems s)) \<and>
      (rb_elems s' = rb_elems s \<or> rb_elems s' = insert x (rb_elems s)) \<and> rb_room s \<le> rb_room s' + 1"
    if "rb_inv s" "x \<noteq> 0" "0 < rb_room s" for s x ok
    using mark_block_recovered_ok [OF that(1,2), of ok] that(3) by (auto simp: rb_room_def)
qed

lemma rb_empty_inv: "rb_inv (free_recovered_list rb)" "rb_elems (free_recovered_list rb) = {}"
  "rb_count (free_recovered_list rb) = 0"
  by (simp_all add: rb_inv_def rb_elems_def free_recovered_list_def)

section \<open>Properties\<close>

text \<open>Property C22: the recovered-block table answers exactly.  From the empty table, through any
  sequence of at most 2^30 marks of non-zero blocks, with any pattern of allocation failures, every
  probing loop ends; every block whose mark had memory is reported recovered, and no block is
  reported that was never marked.\<close>

theorem block_set_history_exact:
  assumes "\<forall>p \<in> set marks. snd p \<noteq> 0" and "length marks \<le> 2 ^ 30"
  shows "\<exists>s. foldl (\<lambda>st (ok, b). Option.bind st (\<lambda>s. mark_block_recovered ok s b))
              (Some (free_recovered_list rb)) marks = Some s \<and>
     (\<forall>b. \<exists>r. is_block_recovered s b = Some r \<and>
        ((True, b) \<in> set marks \<longrightarrow> r) \<and> (r \<longrightarrow> b \<in> snd ` set marks))"
proof -
  have "0 \<notin> snd ` set marks" using assms(1) by auto
  moreover have "length marks \<le> rb_room (free_recovered_list rb)" using assms(2) by (simp add: rb_room_def rb_empty_inv)
  ultimately obtain s where s: "foldl (\<lambda>st (ok, b). Option.bind st (\<lambda>s. mark_block_recovered ok s b))
      (Some (free_recovered_list rb)) marks = Some s" "rb_inv s"
    "rb_elems (free_recovered_list rb) \<union> snd ` {p \<in> set marks. fst p} \<subseteq> rb_elems s"
    "rb_elems s \<subseteq> rb_elems (free_recovered_list rb) \<union> snd ` set marks"
    using rbs.ins_all [OF rb_empty_inv(1), of marks rb] by blast
  have "\<exists>r. is_block_recovered s b = Some r \<and> ((True, b) \<in> set marks \<longrightarrow> r) \<and> (r \<longrightarrow> b \<in> snd ` set marks)" for b
  proof (intro exI conjI impI)
    show "is_block_recovered s b = Some (b \<in> rb_elems s)" using s(2) by (rule is_block_recovered_exact)
    show "b \<in> rb_elems s" if "(True, b) \<in> set marks"
      using s(3) that by (force simp: image_iff)
    show "b \<in> snd ` set marks" if "b \<in> rb_elems s" using s(4) that rb_empty_inv(2) by auto
  qed
  with s(1) show ?thesis by blast
qed

theorem block_set_history_exact_witness:
  "\<exists>s. foldl (\<lambda>st (ok, b). Option.bind st (\<lambda>s. mark_block_recovered ok s b))
       (Some (free_recovered_list \<lparr>rb_keys = [], rb_size = 0, rb_count = 0\<rparr>)) [(True, 5), (True, 9), (True, 5)] = Some s \<and>
     is_block_recovered s 5 = Some True \<and> is_block_recovered s 6 = Some False"
proof -
  obtain s where s: "foldl (\<lambda>st (ok, b). Option.bind st (\<lambda>s. mark_block_recovered ok s b))
       (Some (free_recovered_list \<lparr>rb_keys = [], rb_size = 0, rb_count = 0\<rparr>)) [(True, 5), (True, 9), (True, 5)] = Some s"
    and a: "\<forall>b. \<exists>r. is_block_recovered s b = Some r \<and>
       ((True, b) \<in> set [(True, 5), (True, 9), (True, 5)] \<longrightarrow> r) \<and> (r \<longrightarrow> b \<in> snd ` set [(True, 5 :: blk64_t), (True, 9), (True, 5)])"
    using block_set_history_exact [of "[(True, 5), (True, 9), (True, 5)]" "\<lparr>rb_keys = [], rb_size = 0, rb_count = 0\<rparr>"]
    by auto
  have "is_block_recovered s 5 = Some True" using a [rule_format, of 5] by auto
  moreover have "is_block_recovered s 6 = Some False" using a [rule_format, of 6] by auto
  ultimately show ?thesis using s by blast
qed

end
