(* ===== verification/Inode_Table.thy ===== *)
theory Inode_Table
  imports Prelude
begin

text \<open>
  The inode-table interval map of \<^verbatim>\<open>journal_recovery_v5.c\<close>: one [start, end) range per
  block group, sorted by \<open>qsort\<close> and searched by halving, and the translation of a table
  block and byte offset into an inode number.  \<open>loc g\<close> is \<open>ext2fs_inode_table_loc\<close>.
\<close>

section \<open>The map and its operations\<close>

record itable_range =
  it_start :: blk64_t
  it_end :: blk64_t
  it_group :: u32

definition itable_range_cmp :: "itable_range \<Rightarrow> itable_range \<Rightarrow> int" where
  "itable_range_cmp ra rb =
     (if it_start ra < it_start rb then -1 else if it_start ra > it_start rb then 1 else 0)"

definition itb_blocks :: "u32 \<Rightarrow> u32 \<Rightarrow> nat \<Rightarrow> blk64_t" where
  "itb_blocks inodes_per_group inode_size blocksize =
     (ucast inodes_per_group * ucast inode_size + of_nat blocksize - 1) div of_nat blocksize"

text \<open>The loop over the groups; a group whose table location is 0 is left out.\<close>

primrec itable_collect :: "(u32 \<Rightarrow> blk64_t) \<Rightarrow> blk64_t \<Rightarrow> u32 list \<Rightarrow> itable_range list" where
  "itable_collect loc itb [] = []"
| "itable_collect loc itb (g # gs) =
     (let start = loc g in
      if start = 0 then itable_collect loc itb gs
      else \<lparr>it_start = start, it_end = start + itb, it_group = g\<rparr> # itable_collect loc itb gs)"

text \<open>\<open>None\<close> is the return value -1 (no memory).\<close>

definition build_itable_map ::
  "bool \<Rightarrow> u32 \<Rightarrow> u32 \<Rightarrow> u32 \<Rightarrow> nat \<Rightarrow> (u32 \<Rightarrow> blk64_t) \<Rightarrow> itable_range list option" where
  "build_itable_map ok groups inodes_per_group inode_size blocksize loc =
     (if \<not> ok then None
      else Some (qsort_by itable_range_cmp
             (itable_collect loc (itb_blocks inodes_per_group inode_size blocksize)
                (map of_nat [0..<unat groups]))))"

function itable_search :: "itable_range list \<Rightarrow> blk64_t \<Rightarrow> int \<Rightarrow> int \<Rightarrow> itable_range option" where
  "itable_search m fs_block lo hi =
     (if lo \<le> hi then
        (let mid = (lo + hi) div 2 in
         if fs_block < it_start (m ! nat mid) then itable_search m fs_block lo (mid - 1)
         else if fs_block \<ge> it_end (m ! nat mid) then itable_search m fs_block (mid + 1) hi
         else Some (m ! nat mid))
      else None)"
  by pat_completeness auto
termination
  by (relation "measure (\<lambda>(m, b, lo, hi). nat (hi + 1 - lo))") auto

declare itable_search.simps [simp del]

definition itable_lookup :: "itable_range list \<Rightarrow> blk64_t \<Rightarrow> itable_range option" where
  "itable_lookup m fs_block = itable_search m fs_block 0 (int (length m) - 1)"

definition is_inode_table_block :: "itable_range list \<Rightarrow> blk64_t \<Rightarrow> bool" where
  "is_inode_table_block m fs_block = (itable_lookup m fs_block \<noteq> None)"

definition calc_inode_from_block ::
  "itable_range list \<Rightarrow> u32 \<Rightarrow> u32 \<Rightarrow> nat \<Rightarrow> blk64_t \<Rightarrow> nat \<Rightarrow> u32" where
  "calc_inode_from_block m inodes_per_group inode_size blocksize fs_block offset_in_block =
     (case itable_lookup m fs_block of
        None \<Rightarrow> 0
      | Some r \<Rightarrow>
          (let block_offset = fs_block - it_start r;
               inodes_per_block = blocksize div unat inode_size;
               local_inode = ucast (block_offset * of_nat inodes_per_block +
                                    of_nat (offset_in_block div unat inode_size)) :: u32
           in if local_inode \<ge> inodes_per_group then 0
              else it_group r * inodes_per_group + local_inode + 1))"

definition free_itable_map :: "itable_range list \<Rightarrow> itable_range list" where
  "free_itable_map m = []"

section \<open>Lookup in the sorted map\<close>

lemma itable_range_cmp_le: "itable_range_cmp a b \<le> 0 \<longleftrightarrow> it_start a \<le> it_start b"
  by (auto simp: itable_range_cmp_def)

interpretation itsort: qsort_contract itable_range_cmp "qsort_by itable_range_cmp"
  by (rule qsort_by_contract) (auto simp: itable_range_cmp_le)

definition in_range :: "blk64_t \<Rightarrow> itable_range \<Rightarrow> bool" where
  "in_range b r \<longleftrightarrow> it_start r \<le> b \<and> b < it_end r"

definition separated :: "itable_range list \<Rightarrow> bool" where
  "separated m \<longleftrightarrow> sorted_wrt (\<lambda>a b. it_end a \<le> it_start b) m \<and> (\<forall>r \<in> set m. it_start r < it_end r)"

lemma separated_nth: "separated m \<Longrightarrow> i < j \<Longrightarrow> j < length m \<Longrightarrow> it_end (m ! i) \<le> it_start (m ! j)"
  by (simp add: separated_def sorted_wrt_iff_nth_less)

lemma separated_nonempty: "separated m \<Longrightarrow> i < length m \<Longrightarrow> it_start (m ! i) < it_end (m ! i)"
  by (simp add: separated_def)

lemma itable_search_spec:
  assumes "separated m" "0 \<le> lo" "hi < int (length m)"
    and "\<forall>i < length m. int i < lo \<longrightarrow> \<not> in_range b (m ! i)"
    and "\<forall>i < length m. hi < int i \<longrightarrow> \<not> in_range b (m ! i)"
  shows "case itable_search m b lo hi of None \<Rightarrow> \<forall>i < length m. \<not> in_range b (m ! i)
         | Some r \<Rightarrow> r \<in> set m \<and> in_range b r"
  using assms
proof (induction m b lo hi rule: itable_search.induct)
  case (1 m b lo hi)
  let ?mid = "(lo + hi) div 2"
  show ?case
  proof (cases "lo \<le> hi")
    case False
    then have "itable_search m b lo hi = None" by (simp add: itable_search.simps [of m b lo hi])
    moreover have "\<not> in_range b (m ! i)" if "i < length m" for i
      using "1.prems"(4,5) False that by (cases "int i < lo") auto
    ultimately show ?thesis by simp
  next
    case True
    then have mid: "lo \<le> ?mid" "?mid \<le> hi" "nat ?mid < length m" "int (nat ?mid) = ?mid"
      using "1.prems"(2,3) by auto
    show ?thesis
    proof (cases "b < it_start (m ! nat ?mid)")
      case below: True
      have eq: "itable_search m b lo hi = itable_search m b lo (?mid - 1)"
        using True below by (simp add: itable_search.simps [of m b lo hi])
      have out: "\<not> in_range b (m ! i)" if "i < length m" "?mid \<le> int i" for i
      proof -
        have "it_start (m ! nat ?mid) \<le> it_start (m ! i)"
          using separated_nth [OF "1.prems"(1), of "nat ?mid" i] separated_nonempty [OF "1.prems"(1), of "nat ?mid"] that mid
          by (cases "nat ?mid = i") auto
        then have "b < it_start (m ! i)" using less_le_trans [OF below] by blast
        then show ?thesis by (auto simp: in_range_def)
      qed
      show ?thesis
        unfolding eq
        by (rule "1.IH"(1) [OF True refl below "1.prems"(1,2)]) (use mid "1.prems"(3,4) out in auto)
    next
      case nb: False
      show ?thesis
      proof (cases "it_end (m ! nat ?mid) \<le> b")
        case above: True
        have eq: "itable_search m b lo hi = itable_search m b (?mid + 1) hi"
          using True nb above by (simp add: itable_search.simps [of m b lo hi])
        have out: "\<not> in_range b (m ! i)" if "i < length m" "int i \<le> ?mid" for i
        proof -
          have "it_end (m ! i) \<le> it_end (m ! nat ?mid)"
            using separated_nth [OF "1.prems"(1), of i "nat ?mid"] separated_nonempty [OF "1.prems"(1), of "nat ?mid"] that mid
            by (cases "nat ?mid = i") auto
          then have "it_end (m ! i) \<le> b" using above by (rule order_trans)
          then show ?thesis by (auto simp: in_range_def)
        qed
        show ?thesis
          unfolding eq
          by (rule "1.IH"(2) [OF True refl nb _ "1.prems"(1)]) (use above mid "1.prems"(2,3,5) out in auto)
      next
        case False
        have "itable_search m b lo hi = Some (m ! nat ?mid)"
          using True nb False by (simp add: itable_search.simps [of m b lo hi])
        then show ?thesis using mid False nb by (auto simp: in_range_def)
      qed
    qed
  qed
qed

lemma itable_lookup_spec:
  assumes "separated m"
  shows "case itable_lookup m b of None \<Rightarrow> \<forall>r \<in> set m. \<not> in_range b r | Some r \<Rightarrow> r \<in> set m \<and> in_range b r"
  unfolding itable_lookup_def all_set_conv_all_nth
  by (rule itable_search_spec [OF assms]) auto

lemma separated_unique:
  assumes "separated m" "r \<in> set m" "r' \<in> set m" "in_range b r" "in_range b r'"
  shows "r = r'"
proof -
  obtain i j where ij: "i < length m" "r = m ! i" "j < length m" "r' = m ! j"
    using assms(2,3) by (auto simp: in_set_conv_nth)
  have "\<not> i < j" using separated_nth [OF assms(1), of i j] assms(4,5) ij by (auto simp: in_range_def)
  moreover have "\<not> j < i" using separated_nth [OF assms(1), of j i] assms(4,5) ij by (auto simp: in_range_def)
  ultimately show ?thesis using ij by simp
qed

section \<open>The layout of the inode tables\<close>

text \<open>
  What ext4 guarantees of the group descriptors: tables do not overlap and do not wrap,
  inodes are numbered in 32 bits, and an inode does not straddle blocks.
\<close>

definition table_blocks :: "u32 \<Rightarrow> u32 \<Rightarrow> nat \<Rightarrow> nat" where
  "table_blocks ipg isz bs = (unat ipg * unat isz + bs - 1) div bs"

definition itable_layout :: "u32 \<Rightarrow> u32 \<Rightarrow> u32 \<Rightarrow> nat \<Rightarrow> (u32 \<Rightarrow> blk64_t) \<Rightarrow> bool" where
  "itable_layout groups ipg isz bs loc \<longleftrightarrow>
     0 < unat ipg \<and> 0 < unat isz \<and> unat isz dvd bs \<and> 0 < bs \<and> bs < 2 ^ 32 \<and>
     unat groups * unat ipg < 2 ^ 32 \<and>
     (\<forall>g < groups. loc g \<noteq> 0 \<longrightarrow> unat (loc g) + table_blocks ipg isz bs < 2 ^ 64) \<and>
     (\<forall>g < groups. \<forall>g' < groups. g \<noteq> g' \<longrightarrow> loc g \<noteq> 0 \<longrightarrow> loc g' \<noteq> 0 \<longrightarrow>
        unat (loc g) + table_blocks ipg isz bs \<le> unat (loc g') \<or>
        unat (loc g') + table_blocks ipg isz bs \<le> unat (loc g))"

lemma unat_itb_blocks:
  assumes "0 < bs" "bs < 2 ^ 32"
  shows "unat (itb_blocks ipg isz bs) = table_blocks ipg isz bs"
proof -
  have "unat ipg * unat isz \<le> (2 ^ 32 - 1) * (2 ^ 32 - 1)"
    using u32_less [of ipg] u32_less [of isz] by (intro mult_le_mono) auto
  then have s: "unat ipg * unat isz + bs < 2 ^ 64" using assms by simp
  have b: "unat (of_nat bs :: u64) = bs" using assms by (simp add: unat_of_nat)
  have p: "unat (ucast ipg * ucast isz :: u64) = unat ipg * unat isz"
    using s by (simp add: unat_word_ariths unat_ucast_up)
  have a: "unat (ucast ipg * ucast isz + of_nat bs :: u64) = unat ipg * unat isz + bs"
    using s p b by (simp add: unat_word_ariths)
  have "(1 :: u64) \<le> ucast ipg * ucast isz + of_nat bs"
    using a assms by (simp add: word_le_nat_alt)
  then have "unat (ucast ipg * ucast isz + of_nat bs - 1 :: u64) = unat ipg * unat isz + bs - 1"
    using a by (simp add: unat_diff_le)
  then show ?thesis
    by (simp add: itb_blocks_def table_blocks_def unat_div b)
qed

lemma table_blocks_pos:
  assumes "0 < unat ipg" "0 < unat isz" "0 < bs"
  shows "0 < table_blocks ipg isz bs"
proof -
  have "0 < unat ipg * unat isz" using assms by simp
  then have "bs \<le> unat ipg * unat isz + bs - 1" by linarith
  then show ?thesis using assms(3) by (simp add: table_blocks_def div_greater_zero_iff)
qed

lemma set_itable_collect:
  "set (itable_collect loc itb gs) =
     (\<lambda>g. \<lparr>it_start = loc g, it_end = loc g + itb, it_group = g\<rparr>) ` {g \<in> set gs. loc g \<noteq> 0}"
  by (induction gs) (auto simp: Let_def)

lemma distinct_itable_collect: "distinct gs \<Longrightarrow> distinct (itable_collect loc itb gs)"
  by (induction gs) (auto simp: Let_def set_itable_collect)

lemma group_list: "set (map of_nat [0..<unat groups]) = {g :: u32. g < groups}"
  "distinct (map of_nat [0..<unat groups] :: u32 list)"
proof -
  show "set (map of_nat [0..<unat groups]) = {g :: u32. g < groups}"
  proof safe
    fix g assume "g \<in> set (map of_nat [0..<unat groups] :: u32 list)"
    then obtain i where "i < unat groups" "g = of_nat i" by auto
    moreover from this have "unat g = i"
      using u32_less [of groups] by (simp add: unat_of_nat)
    ultimately show "g < groups" by (simp add: word_less_nat_alt)
  next
    fix g :: u32 assume "g < groups"
    then show "g \<in> set (map of_nat [0..<unat groups])"
      by (auto simp: word_less_nat_alt intro!: image_eqI [of _ _ "unat g"])
  qed
  show "distinct (map of_nat [0..<unat groups] :: u32 list)"
    using u32_less [of groups] unfolding distinct_map
    by (auto intro!: inj_onI simp: word_of_nat_eq_iff take_bit_nat_eq_self)
qed

text \<open>The map that is built is separated and has exactly the ranges of the groups.\<close>

lemma build_itable_map_ok:
  assumes lay: "itable_layout groups ipg isz bs loc"
    and m: "build_itable_map True groups ipg isz bs loc = Some m"
  shows "separated m" and "set m = (\<lambda>g. \<lparr>it_start = loc g, it_end = loc g + itb_blocks ipg isz bs, it_group = g\<rparr>) `
                            {g. g < groups \<and> loc g \<noteq> 0}"
proof -
  let ?itb = "itb_blocks ipg isz bs"
  let ?c = "itable_collect loc ?itb (map of_nat [0..<unat groups])"
  have m': "m = qsort_by itable_range_cmp ?c" using m by (simp add: build_itable_map_def)
  show set_m: "set m = (\<lambda>g. \<lparr>it_start = loc g, it_end = loc g + ?itb, it_group = g\<rparr>) ` {g. g < groups \<and> loc g \<noteq> 0}"
    unfolding m' itsort.qs_set set_itable_collect group_list by auto
  have itb: "unat ?itb = table_blocks ipg isz bs" "0 < table_blocks ipg isz bs"
    using lay unat_itb_blocks table_blocks_pos by (auto simp: itable_layout_def)
  have e: "unat (it_end r) = unat (it_start r) + table_blocks ipg isz bs" "it_start r < it_end r" if "r \<in> set m" for r
  proof -
    obtain g where g: "g < groups" "loc g \<noteq> 0" "r = \<lparr>it_start = loc g, it_end = loc g + ?itb, it_group = g\<rparr>"
      using \<open>r \<in> set m\<close> set_m by auto
    then have "unat (loc g) + unat ?itb < 2 ^ 64" using lay itb by (simp add: itable_layout_def)
    then have "unat (loc g + ?itb) = unat (loc g) + unat ?itb" by (intro unat_add_no_wrap) simp
    then show "unat (it_end r) = unat (it_start r) + table_blocks ipg isz bs" "it_start r < it_end r"
      using g itb by (auto simp: word_less_nat_alt)
  qed
  have "it_end (m ! i) \<le> it_start (m ! j)" if ij: "i < j" "j < length m" for i j
  proof -
    have "itable_range_cmp (m ! i) (m ! j) \<le> 0"
      using itsort.qs_nth_le [OF ij(1), of ?c] ij(2) by (simp add: m' itsort.qs_length)
    then have le: "it_start (m ! i) \<le> it_start (m ! j)" by (simp add: itable_range_cmp_le)
    have "distinct m" unfolding m' itsort.qs_distinct by (intro distinct_itable_collect group_list)
    then have "m ! i \<noteq> m ! j" using ij by (simp add: nth_eq_iff_index_eq)
    moreover have mem: "m ! i \<in> set m" "m ! j \<in> set m" using ij by auto
    moreover obtain g g' where g: "g < groups" "loc g \<noteq> 0" "m ! i = \<lparr>it_start = loc g, it_end = loc g + ?itb, it_group = g\<rparr>"
      "g' < groups" "loc g' \<noteq> 0" "m ! j = \<lparr>it_start = loc g', it_end = loc g' + ?itb, it_group = g'\<rparr>"
      using mem set_m by auto
    ultimately have "unat (loc g) + table_blocks ipg isz bs \<le> unat (loc g') \<or>
        unat (loc g') + table_blocks ipg isz bs \<le> unat (loc g)"
      using lay unfolding itable_layout_def by metis
    then show ?thesis
      using e(1) [OF mem(1)] le g itb(2) by (auto simp: word_le_nat_alt)
  qed
  then show "separated m" using e(2) by (auto simp: separated_def sorted_wrt_iff_nth_less)
qed

lemma lookup_group:
  assumes lay: "itable_layout groups ipg isz bs loc"
    and m: "build_itable_map True groups ipg isz bs loc = Some m"
    and g: "g < groups" "loc g \<noteq> 0" and i: "i < table_blocks ipg isz bs"
  shows "itable_lookup m (loc g + of_nat i) = Some \<lparr>it_start = loc g, it_end = loc g + itb_blocks ipg isz bs, it_group = g\<rparr>"
    and "unat (loc g + of_nat i) = unat (loc g) + i"
proof -
  let ?r = "\<lparr>it_start = loc g, it_end = loc g + itb_blocks ipg isz bs, it_group = g\<rparr>"
  have nw: "unat (loc g) + table_blocks ipg isz bs < 2 ^ 64" using lay g by (simp add: itable_layout_def)
  have itb: "unat (itb_blocks ipg isz bs) = table_blocks ipg isz bs"
    using lay by (intro unat_itb_blocks) (auto simp: itable_layout_def)
  have ui: "unat (of_nat i :: u64) = i" using i nw by (simp add: unat_of_nat)
  then show u: "unat (loc g + of_nat i) = unat (loc g) + i"
    using i nw by (subst unat_add_no_wrap) auto
  have "unat (loc g + itb_blocks ipg isz bs) = unat (loc g) + table_blocks ipg isz bs"
    using nw itb by (subst unat_add_no_wrap) auto
  then have r: "in_range (loc g + of_nat i) ?r"
    using i u by (simp add: in_range_def word_le_nat_alt word_less_nat_alt)
  note ok = build_itable_map_ok [OF lay m]
  have mem: "?r \<in> set m" using ok(2) g by auto
  show "itable_lookup m (loc g + of_nat i) = Some ?r"
  proof (cases "itable_lookup m (loc g + of_nat i)")
    case None
    then show ?thesis using itable_lookup_spec [OF ok(1), of "loc g + of_nat i"] mem r by simp
  next
    case (Some r')
    then have "r' \<in> set m" "in_range (loc g + of_nat i) r'"
      using itable_lookup_spec [OF ok(1), of "loc g + of_nat i"] by simp_all
    then show ?thesis using separated_unique [OF ok(1) mem _ r] Some by simp
  qed
qed

section \<open>Properties\<close>

text \<open>Property C15: the translation from a journalled inode-table block back to an inode number is the
  inverse of the ext4 layout.  Inode \<open>g * ipg + k + 1\<close> lies in the table of group \<open>g\<close>, wherever that
  table is (also outside its group, as with flex_bg); for its table block and byte offset
  \<open>calc_inode_from_block\<close> returns exactly this number, and \<open>is_inode_table_block\<close> accepts the block.\<close>

theorem calc_inode_roundtrip:
  assumes lay: "itable_layout groups ipg isz bs loc"
    and m: "build_itable_map True groups ipg isz bs loc = Some m"
    and g: "g < groups" "loc g \<noteq> 0" and k: "k < unat ipg"
  shows "let per_block = bs div unat isz;
             blk = loc g + of_nat (k div per_block); off = (k mod per_block) * unat isz in
         is_inode_table_block m blk \<and>
         unat (calc_inode_from_block m ipg isz bs blk off) = unat g * unat ipg + k + 1"
proof -
  let ?pb = "bs div unat isz"
  let ?i = "k div ?pb"
  have c: "0 < unat isz" "unat isz dvd bs" "0 < bs" "unat groups * unat ipg < 2 ^ 32"
    using lay by (auto simp: itable_layout_def)
  then have pb: "0 < ?pb" "?pb * unat isz = bs" by (auto elim!: dvdE)
  have "?i < table_blocks ipg isz bs"
  proof -
    have "?i * ?pb \<le> k" by simp
    then have "?i * bs \<le> k * unat isz" by (metis mult.assoc mult_le_mono1 pb(2))
    moreover have "k * unat isz + unat isz \<le> unat ipg * unat isz"
      using k by (metis add.commute Suc_leI mult_Suc mult_le_mono1)
    ultimately have "?i * bs < unat ipg * unat isz" using c(1) by linarith
    then have "(?i + 1) * bs \<le> unat ipg * unat isz + bs - 1" using c(3) by simp
    then have "?i + 1 \<le> (unat ipg * unat isz + bs - 1) div bs"
      using c(3) by (simp add: less_eq_div_iff_mult_less_eq)
    then show ?thesis by (simp add: table_blocks_def)
  qed
  note lk = lookup_group [OF lay m g this]
  have gi: "unat g * unat ipg + k + 1 \<le> unat groups * unat ipg"
  proof -
    have "(unat g + 1) * unat ipg \<le> unat groups * unat ipg"
      using g(1) by (intro mult_le_mono1) (simp add: word_less_nat_alt)
    then show ?thesis using k by simp
  qed
  have k32: "k < 2 ^ 32" using k u32_less [of ipg] by simp
  have kk: "?i * ?pb + k mod ?pb = k" by (rule div_mult_mod_eq)
  have loc: "ucast (of_nat ?i * of_nat ?pb + of_nat (k mod ?pb) :: u64) = (of_nat k :: u32)"
  proof -
    have "ucast (of_nat k :: u64) = (of_nat k :: u32)"
      using k32 by (simp add: word_unat_eq_iff unsigned_ucast_eq unat_of_nat take_bit_nat_eq_self)
    then show ?thesis using kk by (simp flip: of_nat_mult of_nat_add)
  qed
  have lk32: "unat (of_nat k :: u32) = k" using k32 by (simp add: unat_of_nat)
  have "\<not> ipg \<le> of_nat k" using lk32 k by (simp add: word_le_nat_alt)
  then have "calc_inode_from_block m ipg isz bs (loc g + of_nat ?i) (k mod ?pb * unat isz) = g * ipg + of_nat k + 1"
    using lk(1) c(1) loc by (simp add: calc_inode_from_block_def Let_def)
  moreover have "g * ipg + of_nat k + 1 = (of_nat (unat g * unat ipg + k + 1) :: u32)" by simp
  moreover have "unat (of_nat (unat g * unat ipg + k + 1) :: u32) = unat g * unat ipg + k + 1"
    using gi c(4) by (simp only: unat_of_nat) simp
  ultimately show ?thesis using lk(1) by (simp add: is_inode_table_block_def Let_def)
qed

text \<open>Two groups whose tables are packed, in reverse order, into the first group.\<close>

definition flex_loc :: "u32 \<Rightarrow> blk64_t" where
  "flex_loc g = (if g = 0 then 40 else 20)"

lemma flex_layout: "itable_layout 2 32 256 4096 flex_loc"
proof -
  have two: "g = 0 \<or> g = 1" if "g < 2" for g :: u32
  proof -
    have "unat g < 2" using that by (simp add: word_less_nat_alt)
    then have "unat g = 0 \<or> unat g = 1" by auto
    then show ?thesis by (simp add: word_unat_eq_iff)
  qed
  have tb: "table_blocks 32 256 4096 = 2" by (simp add: table_blocks_def)
  have apart: "unat (flex_loc g) + 2 \<le> unat (flex_loc g') \<or> unat (flex_loc g') + 2 \<le> unat (flex_loc g)"
    if "g < 2" "g' < 2" "g \<noteq> g'" for g g'
    using two [OF that(1)] two [OF that(2)] that(3) by (elim disjE) (simp_all add: flex_loc_def)
  have nowrap: "unat (flex_loc g) + 2 < 2 ^ 64" for g
    by (simp add: flex_loc_def)
  show ?thesis
    unfolding itable_layout_def tb
    by (intro conjI allI impI apart nowrap) simp_all
qed

theorem calc_inode_roundtrip_witness:
  "\<exists>m. build_itable_map True 2 32 256 4096 flex_loc = Some m \<and>
     unat (calc_inode_from_block m 32 256 4096 21 (4 * 256)) = 1 * 32 + 20 + 1"
proof -
  obtain m where m: "build_itable_map True 2 32 256 4096 flex_loc = Some m"
    by (simp add: build_itable_map_def)
  have "unat (calc_inode_from_block m 32 256 4096 21 (4 * 256)) = 1 * 32 + 20 + 1"
    using calc_inode_roundtrip [OF flex_layout m, of 1 20] by (simp add: flex_loc_def)
  with m show ?thesis by blast
qed

end
