(* ===== verification/Recover_IO.thy ===== *)
theory Recover_IO
  imports Intervals Extent_Format Filename_Map Fs_Caps Journal_Index Block_Set Inode_Table
begin

text \<open>
  The global context (\<open>struct recover_context\<close>), the environment it runs in and the two
  routines every recovery path ends in: \<open>recover_block_to_file\<close> and
  \<open>create_recovery_file\<close> (\<^verbatim>\<open>ext4recover_v5.c\<close>).

  The environment \<open>env\<close> collects the code that is not part of the program: system calls
  (whose short counts and failures are arbitrary functions), the allocator, and libext2fs.
  The output directory is a map from names to file contents; an open descriptor is the name
  of its file.  File offsets are natural numbers; a block number times the block size
  does not overflow \<open>off_t\<close> on any device of less than 2^63 bytes.
\<close>

section \<open>Inodes\<close>

record ext2_inode =
  i_mode :: u16
  i_size :: u32
  i_dtime :: u32
  i_links_count :: u16
  i_blocks :: u32
  i_flags :: u32
  i_block :: buffer
  i_size_high :: u32

definition inode_at :: "buffer \<Rightarrow> nat \<Rightarrow> ext2_inode ub" where
  "inode_at buf off =
     (if off + 112 \<le> length buf
      then Some \<lparr>i_mode = le16_at buf off, i_size = le32_at buf (off + 4), i_dtime = le32_at buf (off + 20),
                 i_links_count = le16_at buf (off + 26), i_blocks = le32_at buf (off + 28),
                 i_flags = le32_at buf (off + 32), i_block = sub_buf buf (off + 40) 60,
                 i_size_high = le32_at buf (off + 108)\<rparr>
      else None)"

definition inode_size64 :: "ext2_inode \<Rightarrow> u64" where
  "inode_size64 i = push_bit 32 (ucast (i_size_high i)) OR ucast (i_size i)"

definition LINUX_S_ISREG :: "u16 \<Rightarrow> bool" where
  "LINUX_S_ISREG m \<longleftrightarrow> m AND 0xF000 = 0x8000"

definition LINUX_S_ISDIR :: "u16 \<Rightarrow> bool" where
  "LINUX_S_ISDIR m \<longleftrightarrow> m AND 0xF000 = 0x4000"

definition EXT4_EXTENTS_FL :: u32 where
  "EXT4_EXTENTS_FL = 0x00080000"

definition EXT4_INLINE_DATA_FL :: u32 where
  "EXT4_INLINE_DATA_FL = 0x10000000"

section \<open>Environment\<close>

datatype scan_item = Scan_inode u32 ext2_inode | Scan_bad_block | Scan_error

text \<open>
  \<open>dev_pread off n\<close>: the bytes \<open>pread\<close> delivers from the device, empty at the end of
  the device and on an error.  \<open>out_pwrite\<close>, \<open>out_write\<close>: the returned count.
  \<open>lib_file_read ino off n\<close>: seek and read in an inode's data.  \<open>lib_inode_scan\<close>: what
  \<open>ext2fs_get_next_inode\<close> returns, call by call (\<open>None\<close>: the scan cannot be opened).
\<close>

record env =
  dev_pread :: "nat \<Rightarrow> nat \<Rightarrow> buffer"
  out_pwrite :: "string \<Rightarrow> nat \<Rightarrow> nat \<Rightarrow> int"
  out_open :: "string \<Rightarrow> bool"
  out_rename :: "string \<Rightarrow> string \<Rightarrow> bool"
  out_truncate :: "string \<Rightarrow> nat \<Rightarrow> bool"
  malloc_ok :: "nat \<Rightarrow> bool"
  lib_read_inode :: "u32 \<Rightarrow> ext2_inode option"
  lib_extent_open :: "u32 \<Rightarrow> bool"
  lib_inode_table_loc :: "u32 \<Rightarrow> blk64_t"
  lib_file_open :: "u32 \<Rightarrow> bool"
  lib_file_read :: "u32 \<Rightarrow> nat \<Rightarrow> nat \<Rightarrow> buffer option"
  lib_io_read_blk :: "blk64_t \<Rightarrow> buffer option"
  lib_inode_scan :: "scan_item list option"
  lib_block_iterate :: "u32 \<Rightarrow> blk64_t list"

section \<open>Context\<close>

record recover_context =
  blocksize :: nat
  total_blocks :: blk64_t
  super :: super_block
  group_desc_count :: u32
  caps :: fs_capabilities
  recovered_extents :: "recovered_intervals option"
  dedup_skipped :: u64
  names :: fname_state
  has_journal :: bool
  journal_start :: blk64_t
  journal_len :: blk64_t
  journal_file :: bool
  jindex :: "journal_index option"
  rb :: rb_set
  files :: "string \<Rightarrow> buffer option"
  files_recovered :: u64
  files_failed :: u64
  orphan_recovered :: u64
  journal_recovered :: u64
  aggressive_recovered :: u64

section \<open>Output files\<close>

text \<open>\<open>pwrite\<close> of \<open>bs\<close> at \<open>off\<close>: a gap is filled with zeros.\<close>

definition file_write :: "buffer \<Rightarrow> nat \<Rightarrow> buffer \<Rightarrow> buffer" where
  "file_write f off bs =
     (if bs = [] then f
      else take off (f @ replicate (off - length f) 0) @ bs @ drop (off + length bs) f)"

definition open_trunc :: "env \<Rightarrow> recover_context \<Rightarrow> string \<Rightarrow> recover_context option" where
  "open_trunc env ctx name = (if out_open env name then Some (ctx\<lparr>files := (files ctx)(name \<mapsto> [])\<rparr>) else None)"

definition unlink :: "recover_context \<Rightarrow> string \<Rightarrow> recover_context" where
  "unlink ctx name = ctx\<lparr>files := (files ctx)(name := None)\<rparr>"

definition truncate_file :: "env \<Rightarrow> recover_context \<Rightarrow> string \<Rightarrow> nat \<Rightarrow> recover_context" where
  "truncate_file env ctx name n =
     (case files ctx name of None \<Rightarrow> ctx
      | Some f \<Rightarrow> if out_truncate env name n
                  then ctx\<lparr>files := (files ctx)(name \<mapsto> take n (f @ replicate (n - length f) 0))\<rparr> else ctx)"

definition rename_file :: "env \<Rightarrow> recover_context \<Rightarrow> string \<Rightarrow> string \<Rightarrow> recover_context option" where
  "rename_file env ctx old new =
     (if out_rename env old new then
        (case files ctx old of None \<Rightarrow> None
         | Some f \<Rightarrow> Some (ctx\<lparr>files := (files ctx)(old := None, new \<mapsto> f)\<rparr>))
      else None)"

definition stat_size :: "recover_context \<Rightarrow> string \<Rightarrow> nat" where
  "stat_size ctx name = (case files ctx name of None \<Rightarrow> 0 | Some f \<Rightarrow> length f)"

text \<open>\<^verbatim>\<open>pread(device_fd, buf, blocksize, blk * blocksize) == blocksize\<close>\<close>

definition pread_block :: "env \<Rightarrow> recover_context \<Rightarrow> blk64_t \<Rightarrow> buffer option" where
  "pread_block env ctx blk =
     (let got = dev_pread env (unat blk * blocksize ctx) (blocksize ctx) in
      if length got = blocksize ctx then Some got else None)"

section \<open>Copying an extent\<close>

function read_loop :: "env \<Rightarrow> nat \<Rightarrow> nat \<Rightarrow> buffer \<Rightarrow> buffer option" where
  "read_loop env dev_off to_io buf =
     (if length buf < to_io then
        (let got = dev_pread env (dev_off + length buf) (to_io - length buf) in
         if got = [] then None else read_loop env dev_off to_io (buf @ got))
      else Some buf)"
  by pat_completeness auto
termination
  by (relation "measure (\<lambda>(env, off, to_io, buf). to_io - length buf)") (auto simp: neq_Nil_conv)

function write_loop :: "env \<Rightarrow> string \<Rightarrow> nat \<Rightarrow> nat \<Rightarrow> buffer \<Rightarrow> nat \<Rightarrow> buffer \<Rightarrow> bool \<times> buffer" where
  "write_loop env fd ino_off to_io buf w f =
     (if w < to_io then
        (let put = out_pwrite env fd (ino_off + w) (to_io - w) in
         if put \<le> 0 then (False, f)
         else write_loop env fd ino_off to_io buf (w + nat put)
                (file_write f (ino_off + w) (take (nat put) (drop w buf))))
      else (True, f))"
  by pat_completeness auto
termination
  by (relation "measure (\<lambda>(env, fd, off, to_io, buf, w, f). to_io - w)") auto

declare read_loop.simps [simp del] write_loop.simps [simp del]

definition RBTF_CHUNK_BLOCKS :: nat where
  "RBTF_CHUNK_BLOCKS = 256"

function rbtf_loop :: "env \<Rightarrow> string \<Rightarrow> nat \<Rightarrow> u32 \<Rightarrow> nat \<Rightarrow> blk64_t \<Rightarrow> nat \<Rightarrow> buffer \<Rightarrow> bool \<times> buffer" where
  "rbtf_loop env fd bsz block block_len phys_block don f =
     (if don < block_len then
        (let this_blocks = min (block_len - don) RBTF_CHUNK_BLOCKS;
             to_io = this_blocks * bsz;
             dev_off = unat (phys_block + of_nat don) * bsz;
             ino_off = (unat block + don) * bsz
         in case read_loop env dev_off to_io [] of
              None \<Rightarrow> (False, f)
            | Some buf \<Rightarrow>
                (case write_loop env fd ino_off to_io buf 0 f of
                   (False, f') \<Rightarrow> (False, f')
                 | (True, f') \<Rightarrow> rbtf_loop env fd bsz block block_len phys_block (don + this_blocks) f'))
      else (True, f))"
  by pat_completeness auto
termination
  by (relation "measure (\<lambda>(env, fd, bsz, block, block_len, phys_block, don, f). block_len - don)")
     (auto simp: RBTF_CHUNK_BLOCKS_def)

declare rbtf_loop.simps [simp del]

text \<open>\<open>intervals_add\<close> on the context; its result is ignored.\<close>

definition register_extent :: "env \<Rightarrow> recover_context \<Rightarrow> u64 \<Rightarrow> u64 \<Rightarrow> recover_context" where
  "register_extent env ctx s len =
     (case recovered_extents ctx of None \<Rightarrow> ctx
      | Some ri \<Rightarrow> (let ok = malloc_ok env (ri_capacity ri * 2 * 8) in
                    ctx\<lparr>recovered_extents := Some (snd (intervals_add ok ok ri s len))\<rparr>))"

definition recover_block_to_file ::
  "env \<Rightarrow> recover_context \<Rightarrow> string \<Rightarrow> u32 \<Rightarrow> u16 \<Rightarrow> u64 \<Rightarrow> bool \<times> recover_context" where
  "recover_block_to_file env ctx inofd block len start =
     (if \<not> malloc_ok env (RBTF_CHUNK_BLOCKS * blocksize ctx) then (False, ctx)
      else case rbtf_loop env inofd (blocksize ctx) block (unat len) start 0
                  (case files ctx inofd of None \<Rightarrow> [] | Some f \<Rightarrow> f) of
             (ok, f') \<Rightarrow>
               (let ctx1 = ctx\<lparr>files := (files ctx)(inofd \<mapsto> f')\<rparr>
                in if ok then (True, register_extent env ctx1 start (ucast len)) else (False, ctx1)))"

section \<open>Creating an output file\<close>

definition resolve_name :: "env \<Rightarrow> recover_context \<Rightarrow> u32 \<Rightarrow> (string \<times> recover_context) ub" where
  "resolve_name env ctx ino =
     (let cap = claim_capacity (names ctx);
          ok = malloc_ok env ((if cap \<noteq> 0 then cap * 2 else 256) * 260)
      in map_option (\<lambda>(base, st). (base, ctx\<lparr>names := st\<rparr>)) (resolve_output_name ok (names ctx) ino))"

text \<open>The return value, the descriptor (the name) and the context.\<close>

definition create_recovery_file :: "env \<Rightarrow> recover_context \<Rightarrow> u32 \<Rightarrow> (int \<times> string \<times> recover_context) ub" where
  "create_recovery_file env ctx ino =
     (case resolve_name env ctx ino of None \<Rightarrow> None
      | Some (base, ctx1) \<Rightarrow>
          if stat_size ctx1 base > 0 then Some (-2, base, ctx1)
          else (case open_trunc env ctx1 base of
                  None \<Rightarrow> Some (-1, base, ctx1)
                | Some ctx2 \<Rightarrow> Some (0, base, ctx2)))"

section \<open>File contents\<close>

lemma length_file_write: "length (file_write f off bs) = (if bs = [] then length f else max (length f) (off + length bs))"
  by (auto simp: file_write_def)

lemma nth_file_write:
  "i < length (file_write f off bs) \<Longrightarrow> file_write f off bs ! i =
     (if off \<le> i \<and> i < off + length bs then bs ! (i - off) else if i < length f then f ! i else 0)"
proof (cases "bs = []")
  case False
  define h where "h = take off (f @ replicate (off - length f) 0)"
  have h: "length h = off" "\<And>k. k < off \<Longrightarrow> h ! k = (if k < length f then f ! k else 0)"
    by (auto simp: h_def nth_append)
  have e: "file_write f off bs = h @ bs @ drop (off + length bs) f" using False by (simp add: file_write_def h_def)
  assume i: "i < length (file_write f off bs)"
  consider "i < off" | "off \<le> i" "i < off + length bs" | "off + length bs \<le> i" by linarith
  then show ?thesis
    using h i unfolding e by cases (auto simp: nth_append)
qed (auto simp: file_write_def)

lemma file_write_append:
  "file_write (file_write f off a) (off + length a) b = file_write f off (a @ b)"
proof (cases "a = [] \<or> b = []")
  case False
  show ?thesis
  proof (rule nth_equalityI)
    show "length (file_write (file_write f off a) (off + length a) b) = length (file_write f off (a @ b))"
      using False by (auto simp: length_file_write)
    fix i assume "i < length (file_write (file_write f off a) (off + length a) b)"
    then show "file_write (file_write f off a) (off + length a) b ! i = file_write f off (a @ b) ! i"
      using False by (auto simp: nth_file_write length_file_write nth_append)
  qed
qed (auto simp: file_write_def)

lemma file_write_holds: "sub_buf (file_write f off bs) off (length bs) = bs"
proof (cases "bs = []")
  case False
  then have "drop off (file_write f off bs) = bs @ drop (off + length bs) f"
    by (simp add: file_write_def)
  then show ?thesis by (simp add: sub_buf_def)
qed (simp add: sub_buf_def)

section \<open>A faithful device and output file system\<close>

text \<open>
  POSIX \<open>pread\<close> and \<open>pwrite\<close> without errors: a read returns a non-empty prefix of the
  requested bytes unless it starts at the end, a write accepts at least one byte.  Both may
  be short.
\<close>

definition dev_faithful :: "env \<Rightarrow> buffer \<Rightarrow> bool" where
  "dev_faithful env dev \<longleftrightarrow>
     (\<forall>off n. \<exists>m \<le> n. dev_pread env off n = take m (drop off dev) \<and> (0 < n \<and> off < length dev \<longrightarrow> 0 < m))"

definition out_faithful :: "env \<Rightarrow> bool" where
  "out_faithful env \<longleftrightarrow>
     (\<forall>name off n. 0 < n \<longrightarrow> 0 < out_pwrite env name off n \<and> out_pwrite env name off n \<le> int n)"

lemma read_loop_ok:
  assumes "dev_faithful env dev" "off + to_io \<le> length dev" "length buf \<le> to_io"
    and "buf = take (length buf) (drop off dev)"
  shows "read_loop env off to_io buf = Some (take to_io (drop off dev))"
  using assms
proof (induction env off to_io buf rule: read_loop.induct)
  case (1 env off to_io buf)
  let ?n = "to_io - length buf" and ?got = "dev_pread env (off + length buf) (to_io - length buf)"
  show ?case
  proof (cases "length buf < to_io")
    case False
    then show ?thesis using "1.prems" by (subst read_loop.simps) auto
  next
    case True
    then obtain m where m: "m \<le> ?n" "?got = take m (drop (off + length buf) dev)" "0 < m"
      using "1.prems"(1,2) 
      unfolding dev_faithful_def by (metis add_less_le_mono nat_add_left_cancel_less less_le_trans zero_less_diff)
    have lg: "length ?got = m" using m(1,2) "1.prems"(2) True by simp
    have "buf @ ?got = take (length buf) (drop off dev) @ take m (drop (length buf) (drop off dev))"
      using m(2) "1.prems"(4) by (simp add: add.commute)
    then have pre: "buf @ ?got = take (length (buf @ ?got)) (drop off dev)"
      unfolding length_append lg take_add .
    have ne: "?got \<noteq> []" using lg m(3) by auto
    have len: "length (buf @ ?got) \<le> to_io" using lg m(1) True by simp
    show ?thesis
      using "1.IH" [OF True refl ne "1.prems"(1,2) len pre] True ne
      by (subst read_loop.simps) (simp only: Let_def if_True if_False)
  qed
qed

lemma write_loop_ok:
  assumes "out_faithful env" "w \<le> to_io" "length buf = to_io"
  shows "write_loop env fd off to_io buf w f = (True, file_write f (off + w) (drop w buf))"
  using assms
proof (induction env fd off to_io buf w f rule: write_loop.induct)
  case (1 env fd off to_io buf w f)
  let ?put = "out_pwrite env fd (off + w) (to_io - w)"
  show ?case
  proof (cases "w < to_io")
    case False
    then show ?thesis using "1.prems" by (subst write_loop.simps) (simp add: file_write_def)
  next
    case True
    have p: "0 < ?put" "nat ?put \<le> to_io - w"
      using "1.prems"(1) True unfolding out_faithful_def
      by (simp_all only: nat_le_iff zero_less_diff)
    let ?a = "take (nat ?put) (drop w buf)" and ?b = "drop (w + nat ?put) buf"
    have la: "length ?a = nat ?put" using p(2) "1.prems"(3) by simp
    have ab: "?a @ ?b = drop w buf" by (metis append_take_drop_id drop_drop add.commute)
    have "write_loop env fd off to_io buf w f =
        write_loop env fd off to_io buf (w + nat ?put) (file_write f (off + w) ?a)"
      using True p by (simp add: write_loop.simps [of env fd off to_io buf w f] Let_def)
    also have "\<dots> = (True, file_write (file_write f (off + w) ?a) (off + (w + nat ?put)) ?b)"
      using "1.IH" [OF True refl _ "1.prems"(1) _ "1.prems"(3)] p True by simp
    also have "\<dots> = (True, file_write f (off + w) (drop w buf))"
      using file_write_append [of f "off + w" ?a ?b] la ab by (simp add: add.assoc)
    finally show ?thesis .
  qed
qed

lemma sub_buf_split: "sub_buf buf off (m + n) = sub_buf buf off m @ sub_buf buf (off + m) n"
  by (simp add: sub_buf_def take_add add.commute)

lemma rbtf_loop_ok:
  assumes "dev_faithful env dev" "out_faithful env"
    and "(unat start + len) * bsz \<le> length dev" "unat start + len < 2 ^ 64" "don \<le> len"
  shows "rbtf_loop env fd bsz block len start don f =
     (True, file_write f ((unat block + don) * bsz) (sub_buf dev ((unat start + don) * bsz) ((len - don) * bsz)))"
  using assms
proof (induction env fd bsz block len start don f rule: rbtf_loop.induct)
  case (1 env fd bsz block len start don f)
  let ?t = "min (len - don) RBTF_CHUNK_BLOCKS"
  show ?case
  proof (cases "don < len")
    case False
    then show ?thesis
      using "1.prems" by (subst rbtf_loop.simps) (simp add: file_write_def sub_buf_def)
  next
    case True
    have t: "0 < ?t" "don + ?t \<le> len" using True by (auto simp: RBTF_CHUNK_BLOCKS_def)
    have u: "unat (start + of_nat don) = unat start + don"
      using True "1.prems"(4) by (subst unat_add_no_wrap) (simp_all add: unat_of_nat)
    have le: "(unat start + don + ?t) * bsz \<le> length dev"
    proof -
      have "unat start + don + ?t \<le> unat start + len" using t(2) by simp
      then show ?thesis using "1.prems"(3) mult_le_mono1 le_trans by blast
    qed
    let ?chunk = "sub_buf dev ((unat start + don) * bsz) (?t * bsz)"
    have rd: "read_loop env ((unat start + don) * bsz) (?t * bsz) [] = Some ?chunk"
      unfolding sub_buf_def
      by (rule read_loop_ok [OF "1.prems"(1)]) (use le in \<open>simp_all add: distrib_right\<close>)
    have lc: "length ?chunk = ?t * bsz"
      using le by (intro length_sub_buf) (simp add: distrib_right)
    have wr: "write_loop env fd ((unat block + don) * bsz) (?t * bsz) ?chunk 0 f =
        (True, file_write f ((unat block + don) * bsz) ?chunk)"
      using write_loop_ok [OF "1.prems"(2) _ lc, of 0] by simp
    let ?f1 = "file_write f ((unat block + don) * bsz) ?chunk"
    let ?rest = "sub_buf dev ((unat start + (don + ?t)) * bsz) ((len - (don + ?t)) * bsz)"
    have "rbtf_loop env fd bsz block len start don f = rbtf_loop env fd bsz block len start (don + ?t) ?f1"
      using True rd wr u by (simp add: rbtf_loop.simps [of env fd bsz block len start don f] Let_def)
    also have "\<dots> = (True, file_write ?f1 ((unat block + (don + ?t)) * bsz) ?rest)"
      using "1.IH" [OF True refl refl refl refl, of ?chunk True ?f1] rd wr u t "1.prems" by auto
    also have "(unat block + (don + ?t)) * bsz = (unat block + don) * bsz + length ?chunk"
      using lc by (simp add: distrib_right)
    also have "file_write ?f1 ((unat block + don) * bsz + length ?chunk) ?rest =
        file_write f ((unat block + don) * bsz) (?chunk @ ?rest)"
      by (rule file_write_append)
    also have "?chunk @ ?rest = sub_buf dev ((unat start + don) * bsz) ((len - don) * bsz)"
    proof -
      have "(len - don) * bsz = ?t * bsz + (len - (don + ?t)) * bsz"
        using t(2) by (metis add.commute diff_diff_left distrib_right le_add_diff_inverse2 min.cobounded1)
      then show ?thesis by (simp add: sub_buf_split distrib_right add.assoc)
    qed
    finally show ?thesis .
  qed
qed

section \<open>What the two routines leave alone\<close>

lemma register_extent_frame [frame_simps]:
  "files (register_extent env ctx s l) = files ctx" "names (register_extent env ctx s l) = names ctx"
  "blocksize (register_extent env ctx s l) = blocksize ctx" "total_blocks (register_extent env ctx s l) = total_blocks ctx"
  "jindex (register_extent env ctx s l) = jindex ctx" "rb (register_extent env ctx s l) = rb ctx"
  "caps (register_extent env ctx s l) = caps ctx" "journal_file (register_extent env ctx s l) = journal_file ctx"
  "super (register_extent env ctx s l) = super ctx" "has_journal (register_extent env ctx s l) = has_journal ctx"
  by (simp_all add: register_extent_def Let_def split: option.splits)

lemma rbtf_frame [frame_simps]:
  "names (snd (recover_block_to_file env ctx fd b l s)) = names ctx"
  "blocksize (snd (recover_block_to_file env ctx fd b l s)) = blocksize ctx"
  "total_blocks (snd (recover_block_to_file env ctx fd b l s)) = total_blocks ctx"
  "jindex (snd (recover_block_to_file env ctx fd b l s)) = jindex ctx"
  "rb (snd (recover_block_to_file env ctx fd b l s)) = rb ctx"
  "caps (snd (recover_block_to_file env ctx fd b l s)) = caps ctx"
  "journal_file (snd (recover_block_to_file env ctx fd b l s)) = journal_file ctx"
  "super (snd (recover_block_to_file env ctx fd b l s)) = super ctx"
  "has_journal (snd (recover_block_to_file env ctx fd b l s)) = has_journal ctx"
  by (simp_all add: recover_block_to_file_def Let_def frame_simps split: prod.splits)

lemma rbtf_files:
  "n \<noteq> fd \<Longrightarrow> files (snd (recover_block_to_file env ctx fd b l s)) n = files ctx n"
  by (simp add: recover_block_to_file_def Let_def frame_simps split: prod.splits)

lemma rbtf_recorded:
  "recovered_extents (snd (recover_block_to_file env ctx fd b l s)) =
     (if fst (recover_block_to_file env ctx fd b l s)
      then recovered_extents (register_extent env ctx s (ucast l)) else recovered_extents ctx)"
  by (simp add: recover_block_to_file_def register_extent_def Let_def split: prod.splits option.splits)

section \<open>The deduplication set of the context\<close>

definition dedup_ok :: "recover_context \<Rightarrow> bool" where
  "dedup_ok ctx \<longleftrightarrow> (case recovered_extents ctx of None \<Rightarrow> True | Some ri \<Rightarrow> intervals_inv ri)"

definition dedup_blocks :: "recover_context \<Rightarrow> nat set" where
  "dedup_blocks ctx = (case recovered_extents ctx of None \<Rightarrow> {} | Some ri \<Rightarrow> recorded ri)"

lemma register_extent_ok:
  assumes "dedup_ok ctx" "unat s + unat len < 2 ^ 64"
  shows "dedup_ok (register_extent env ctx s len)"
    and "dedup_blocks ctx \<subseteq> dedup_blocks (register_extent env ctx s len)"
    and "dedup_blocks (register_extent env ctx s len) \<subseteq> dedup_blocks ctx \<union> {unat s ..< unat s + unat len}"
    and "recovered_extents ctx \<noteq> None \<Longrightarrow> (\<And>n. malloc_ok env n) \<Longrightarrow>
      dedup_blocks (register_extent env ctx s len) = dedup_blocks ctx \<union> {unat s ..< unat s + unat len}"
proof -
  show "dedup_ok (register_extent env ctx s len)"
    using assms iv.add_inv by (auto simp: dedup_ok_def register_extent_def Let_def split: option.splits)
  show "dedup_blocks ctx \<subseteq> dedup_blocks (register_extent env ctx s len)"
    using assms iv.add_keeps by (auto simp: dedup_ok_def dedup_blocks_def register_extent_def Let_def split: option.splits)
  show "dedup_blocks (register_extent env ctx s len) \<subseteq> dedup_blocks ctx \<union> {unat s ..< unat s + unat len}"
    using assms iv.add_content by (auto simp: dedup_ok_def dedup_blocks_def register_extent_def Let_def split: option.splits if_splits)
  show "dedup_blocks (register_extent env ctx s len) = dedup_blocks ctx \<union> {unat s ..< unat s + unat len}"
    if "recovered_extents ctx \<noteq> None" "\<And>n. malloc_ok env n"
  proof -
    have "fst (intervals_add True True ri s len) = 0" for ri by (simp add: intervals_add_def Let_def)
    then show ?thesis
      using assms that iv.add_content [where ok_s = True and ok_l = True]
      by (auto simp: dedup_ok_def dedup_blocks_def register_extent_def Let_def split: option.splits)
  qed
qed

text \<open>The result of a copy on a faithful device.\<close>

lemma rbtf_copies:
  assumes "dev_faithful env dev" "out_faithful env" "malloc_ok env (RBTF_CHUNK_BLOCKS * blocksize ctx)"
    and "(unat start + unat len) * blocksize ctx \<le> length dev" "unat start + unat len < 2 ^ 64"
    and "files ctx fd = Some f"
  shows "recover_block_to_file env ctx fd block len start =
    (True, register_extent env (ctx\<lparr>files := (files ctx)(fd \<mapsto>
        file_write f (unat block * blocksize ctx)
          (sub_buf dev (unat start * blocksize ctx) (unat len * blocksize ctx)))\<rparr>) start (ucast len))"
  using rbtf_loop_ok [OF assms(1,2,4,5), of 0 fd block f] assms(3,6)
  by (simp add: recover_block_to_file_def)

lemma dedup_ok_files [frame_simps]:
  "dedup_ok (ctx\<lparr>files := fs\<rparr>) = dedup_ok ctx" "dedup_blocks (ctx\<lparr>files := fs\<rparr>) = dedup_blocks ctx"
  "dedup_ok (ctx\<lparr>names := ns\<rparr>) = dedup_ok ctx" "dedup_blocks (ctx\<lparr>names := ns\<rparr>) = dedup_blocks ctx"
  by (simp_all add: dedup_ok_def dedup_blocks_def)

section \<open>The frame of a recovery\<close>

text \<open>
  Everything an extent walk may change: the contents of one output file and the
  deduplication set, which stays well formed and only grows.
\<close>

definition touches :: "string \<Rightarrow> recover_context \<Rightarrow> recover_context \<Rightarrow> bool" where
  "touches fd c c' \<longleftrightarrow>
     c' = c\<lparr>files := files c', recovered_extents := recovered_extents c'\<rparr> \<and>
     (\<forall>n. n \<noteq> fd \<longrightarrow> files c' n = files c n) \<and>
     (files c fd \<noteq> None \<longrightarrow> files c' fd \<noteq> None) \<and>
     (dedup_ok c \<longrightarrow> dedup_ok c' \<and> dedup_blocks c \<subseteq> dedup_blocks c')"

lemma touches_refl [simp, intro]: "touches fd c c"
  by (simp add: touches_def)

lemma touches_frame:
  assumes "touches fd c c'"
  shows "names c' = names c" "blocksize c' = blocksize c" "total_blocks c' = total_blocks c"
    "jindex c' = jindex c" "rb c' = rb c" "caps c' = caps c" "journal_file c' = journal_file c"
    "super c' = super c" "has_journal c' = has_journal c" "journal_recovered c' = journal_recovered c"
    "aggressive_recovered c' = aggressive_recovered c"
proof -
  obtain fs re where c': "c' = c\<lparr>files := fs, recovered_extents := re\<rparr>"
    using assms unfolding touches_def by blast
  show "names c' = names c" "blocksize c' = blocksize c" "total_blocks c' = total_blocks c"
    "jindex c' = jindex c" "rb c' = rb c" "caps c' = caps c" "journal_file c' = journal_file c"
    "super c' = super c" "has_journal c' = has_journal c" "journal_recovered c' = journal_recovered c"
    "aggressive_recovered c' = aggressive_recovered c"
    by (simp_all add: c')
qed

lemma touches_trans [trans]:
  assumes "touches fd a b" "touches fd b c"
  shows "touches fd a c"
proof -
  have "c = b\<lparr>files := files c, recovered_extents := recovered_extents c\<rparr>"
    using assms(2) by (simp add: touches_def)
  also have "b = a\<lparr>files := files b, recovered_extents := recovered_extents b\<rparr>"
    using assms(1) by (simp add: touches_def)
  finally have "c = a\<lparr>files := files c, recovered_extents := recovered_extents c\<rparr>" by simp
  then show ?thesis using assms by (auto simp: touches_def)
qed

lemma register_update: "\<exists>re. register_extent env c s l = c\<lparr>recovered_extents := re\<rparr>"
proof (cases "recovered_extents c")
  case None
  then show ?thesis by (intro exI [of _ None]) (simp add: register_extent_def)
qed (auto simp: register_extent_def Let_def)

lemma rbtf_touches:
  assumes "unat s + unat l < 2 ^ 64"
  shows "touches fd c (snd (recover_block_to_file env c fd b l s))"
proof -
  have nw: "unat s + unat (ucast l :: u64) < 2 ^ 64" using assms by (simp add: unat_ucast_up)
  have "dedup_ok (snd (recover_block_to_file env c fd b l s)) \<and>
      dedup_blocks c \<subseteq> dedup_blocks (snd (recover_block_to_file env c fd b l s))" if "dedup_ok c"
    using rbtf_recorded [of env c fd b l s] register_extent_ok(1,2) [OF that nw, of env] that
    by (simp add: dedup_ok_def dedup_blocks_def split: if_splits)
  moreover have "files c fd \<noteq> None \<longrightarrow> files (snd (recover_block_to_file env c fd b l s)) fd \<noteq> None"
    by (simp add: recover_block_to_file_def Let_def frame_simps split: prod.splits)
  moreover have "\<exists>fs re. snd (recover_block_to_file env c fd b l s) = c\<lparr>files := fs, recovered_extents := re\<rparr>"
  proof -
    obtain ok f' where l: "rbtf_loop env fd (blocksize c) b (unat l) s 0 (case files c fd of None \<Rightarrow> [] | Some f \<Rightarrow> f) = (ok, f')"
      by fastforce
    let ?c = "c\<lparr>files := (files c)(fd \<mapsto> f')\<rparr>"
    obtain re where re: "register_extent env ?c s (ucast l) = ?c\<lparr>recovered_extents := re\<rparr>"
      using register_update by blast
    have "\<exists>fs re. c = c\<lparr>files := fs, recovered_extents := re\<rparr>"
      by (intro exI [of _ "files c"] exI [of _ "recovered_extents c"]) simp
    moreover have "\<exists>fs re. ?c = c\<lparr>files := fs, recovered_extents := re\<rparr>"
      by (intro exI [of _ "(files c)(fd \<mapsto> f')"] exI [of _ "recovered_extents c"]) simp
    ultimately show ?thesis using re by (auto simp: recover_block_to_file_def l Let_def)
  qed
  ultimately show ?thesis using rbtf_files [of _ fd env c b l s]
    by (auto simp: touches_def)
qed

section \<open>Properties\<close>

text \<open>Property C2: on a device and an output file system that may cut every transfer short but do not
  fail, \<open>recover_block_to_file\<close> succeeds: the output file holds, from byte
  \<open>block * blocksize\<close>, exactly the bytes of the physical extent, nothing else of it and no other
  file changes, and the extent is recorded for deduplication, no matter how the chunked read and
  write loops split the work.\<close>

theorem recover_block_to_file_exact:
  assumes "dev_faithful env dev" and "out_faithful env" and "\<And>n. malloc_ok env n"
    and "(unat start + unat len) * blocksize ctx \<le> length dev" and "unat start + unat len < 2 ^ 64"
    and "files ctx fd = Some f" and "dedup_ok ctx" and "recovered_extents ctx \<noteq> None"
  shows "\<exists>ctx' f'. recover_block_to_file env ctx fd block len start = (True, ctx') \<and>
     files ctx' = (files ctx)(fd \<mapsto> f') \<and>
     f' = file_write f (unat block * blocksize ctx) (sub_buf dev (unat start * blocksize ctx) (unat len * blocksize ctx)) \<and>
     sub_buf f' (unat block * blocksize ctx) (unat len * blocksize ctx) =
       sub_buf dev (unat start * blocksize ctx) (unat len * blocksize ctx) \<and>
     dedup_ok ctx' \<and> dedup_blocks ctx' = dedup_blocks ctx \<union> {unat start ..< unat start + unat len}"
proof -
  let ?bs = "blocksize ctx"
  let ?data = "sub_buf dev (unat start * ?bs) (unat len * ?bs)"
  let ?f = "file_write f (unat block * ?bs) ?data"
  let ?c = "ctx\<lparr>files := (files ctx)(fd \<mapsto> ?f)\<rparr>"
  have len: "length ?data = unat len * ?bs"
    using assms(4) by (intro length_sub_buf) (simp add: distrib_right)
  have nw: "unat start + unat (ucast len :: u64) < 2 ^ 64"
    using assms(5) by (simp add: unat_ucast_up)
  have "sub_buf ?f (unat block * ?bs) (unat len * ?bs) = ?data"
    using file_write_holds [of f "unat block * ?bs" ?data] len by simp
  moreover have "dedup_ok ?c" "recovered_extents ?c \<noteq> None"
    using assms(7,8) by (simp_all add: frame_simps)
  ultimately show ?thesis
    using rbtf_copies [OF assms(1,2,3,4,5,6), of block] register_extent_ok(1,4) [OF _ nw, of ?c env] assms(3)
    by (intro exI [of _ "register_extent env ?c start (ucast len)"] exI [of _ ?f])
       (simp add: frame_simps unat_ucast_up)
qed

definition ideal_env :: "buffer \<Rightarrow> env" where
  "ideal_env dev =
     \<lparr>dev_pread = (\<lambda>off n. take (min n 3) (drop off dev)), out_pwrite = (\<lambda>_ _ n. int (min n 2)),
      out_open = (\<lambda>_. True), out_rename = (\<lambda>_ _. True), out_truncate = (\<lambda>_ _. True), malloc_ok = (\<lambda>_. True),
      lib_read_inode = (\<lambda>_. None), lib_extent_open = (\<lambda>_. False), lib_inode_table_loc = (\<lambda>_. 0),
      lib_file_open = (\<lambda>_. False), lib_file_read = (\<lambda>_ _ _. None), lib_io_read_blk = (\<lambda>_. None),
      lib_inode_scan = None, lib_block_iterate = (\<lambda>_. [])\<rparr>"

definition no_names :: fname_state where
  "no_names = \<lparr>fm_entries = None, filename_capacity = 0, fm_hkeys = [], fm_hvals = [], fm_hsize = 0,
               name_claims = [], claim_capacity = 0\<rparr>"

definition no_super :: super_block where
  "no_super = \<lparr>s_feature_compat = 0, s_feature_incompat = 0, s_feature_ro_compat = 0, s_inodes_count = 0,
     s_inodes_per_group = 0, s_inode_size = 0, s_journal_inum = 0, s_journal_dev = 0, s_last_orphan = 0,
     s_orphan_file_inum = 0, s_log_block_size = 0, s_log_cluster_size = 0\<rparr>"

definition base_ctx :: "nat \<Rightarrow> blk64_t \<Rightarrow> recover_context" where
  "base_ctx bs tot =
     \<lparr>blocksize = bs, total_blocks = tot, super = no_super, group_desc_count = 0,
      caps = fs_capabilities_detect no_super, recovered_extents = intervals_init True, dedup_skipped = 0,
      names = no_names, has_journal = False, journal_start = 0, journal_len = 0, journal_file = False,
      jindex = None, rb = \<lparr>rb_keys = [], rb_size = 0, rb_count = 0\<rparr>, files = Map.empty,
      files_recovered = 0, files_failed = 0, orphan_recovered = 0, journal_recovered = 0,
      aggressive_recovered = 0\<rparr>"

lemma ideal_env_faithful: "dev_faithful (ideal_env dev) dev" "out_faithful (ideal_env dev)"
  by (auto simp: dev_faithful_def out_faithful_def ideal_env_def intro!: exI [of _ "min _ 3"])

lemma base_ctx_dedup: "dedup_ok (base_ctx bs t)" "recovered_extents (base_ctx bs t) \<noteq> None"
  "dedup_blocks (base_ctx bs t) = {}"
  using intervals_init_inv by (auto simp: base_ctx_def dedup_ok_def dedup_blocks_def intervals_init_def split: option.splits)

theorem recover_block_to_file_exact_witness:
  "\<exists>ctx'. recover_block_to_file (ideal_env [0, 1, 2, 3, 4, 5, 6, 7]) ((base_ctx 2 4)\<lparr>files := [''7_file'' \<mapsto> []]\<rparr>) ''7_file'' 1 2 2 = (True, ctx') \<and>
     files ctx' ''7_file'' = Some [0, 0, 4, 5, 6, 7] \<and> dedup_blocks ctx' = {2, 3}"
proof -
  let ?c = "(base_ctx 2 4)\<lparr>files := [''7_file'' \<mapsto> []]\<rparr>"
  have ok: "dedup_ok ?c" "recovered_extents ?c \<noteq> None" "dedup_blocks ?c = {}" "blocksize ?c = 2" "files ?c ''7_file'' = Some []"
    using base_ctx_dedup [of 2 4] by (simp_all add: frame_simps) (simp_all add: base_ctx_def)
  have m: "malloc_ok (ideal_env d) n" for d n by (simp add: ideal_env_def)
  have "{2::nat ..< 4} = {2, 3}" by auto
  moreover have "replicate 2 (0 :: byte) = [0, 0]" by (simp add: numeral_2_eq_2)
  ultimately show ?thesis
    using recover_block_to_file_exact [OF ideal_env_faithful m _ _ ok(5,1,2), of 2 2 "[0, 1, 2, 3, 4, 5, 6, 7]" 1] ok(3,4)
    by (auto simp: file_write_def sub_buf_def)
qed

text \<open>Whatever the system calls do, a copy changes no file but the one it was given, never
  changes the name registry, and records the extent for deduplication only if it reports success:
  a failed copy can never make a later phase skip these blocks.\<close>

theorem recover_block_to_file_safe:
  "let r = recover_block_to_file env ctx fd block len start in
   (\<forall>n. n \<noteq> fd \<longrightarrow> files (snd r) n = files ctx n) \<and> names (snd r) = names ctx \<and>
   (\<not> fst r \<longrightarrow> recovered_extents (snd r) = recovered_extents ctx)"
  by (simp add: Let_def rbtf_files rbtf_recorded frame_simps)

theorem recover_block_to_file_safe_witness:
  "\<not> fst (recover_block_to_file (ideal_env []) (base_ctx 2 4) ''a'' 0 1 3) \<and>
   recovered_extents (snd (recover_block_to_file (ideal_env []) (base_ctx 2 4) ''a'' 0 1 3)) =
   recovered_extents (base_ctx 2 4) \<and> files (snd (recover_block_to_file (ideal_env []) (base_ctx 2 4) ''a'' 0 1 3)) ''b'' = None"
proof -
  have f: "\<not> fst (recover_block_to_file (ideal_env []) (base_ctx 2 4) ''a'' 0 1 3)"
    by (simp add: recover_block_to_file_def rbtf_loop.simps read_loop.simps ideal_env_def base_ctx_def RBTF_CHUNK_BLOCKS_def)
  then show ?thesis
    using recover_block_to_file_safe [of "ideal_env []" "base_ctx 2 4" "''a''" 0 1 3]
    by (auto simp: Let_def base_ctx_def)
qed

text \<open>\<open>create_recovery_file\<close> never damages an existing output.  It returns -2 and leaves
  the directory alone iff the resolved name already holds data; otherwise a success gives an empty
  file under a name that cannot leave the recovery directory, and no other file changes.\<close>

theorem create_recovery_file_preserves:
  assumes "fm_inv (names ctx)" and "claims_inv (names ctx)" and "ino \<noteq> 0" and "malloc_ok env = (\<lambda>_. True)"
  shows "\<exists>r fd ctx'. create_recovery_file env ctx ino = Some (r, fd, ctx') \<and> filename_is_safe fd \<and>
     (r = -2 \<longleftrightarrow> stat_size ctx fd > 0) \<and> (r \<noteq> 0 \<longrightarrow> files ctx' = files ctx) \<and>
     (r = 0 \<longrightarrow> files ctx' = (files ctx)(fd \<mapsto> [])) \<and>
     (\<forall>n f. files ctx n = Some f \<and> f \<noteq> [] \<longrightarrow> files ctx' n = Some f)"
proof -
  obtain st where r: "resolve_output_name True (names ctx) ino =
      Some (case fm_map (names ctx) ino of None \<Rightarrow> fallback_name ino
            | Some name \<Rightarrow> (case claim_of (names ctx) name of
                Some c \<Rightarrow> if nc_ino c = ino then name else fallback_name ino
              | None \<Rightarrow> name), st)"
    using resolve_model [OF assms(1,2,3)] by blast
  define base where "base = (case fm_map (names ctx) ino of None \<Rightarrow> fallback_name ino
            | Some name \<Rightarrow> (case claim_of (names ctx) name of
                Some c \<Rightarrow> if nc_ino c = ino then name else fallback_name ino
              | None \<Rightarrow> name))"
  have safe: "filename_is_safe base"
    using fm_map_bounds [OF assms(1), of ino] fallback_safe [of ino]
    by (auto simp: base_def split: option.splits)
  have rn: "resolve_name env ctx ino = Some (base, ctx\<lparr>names := st\<rparr>)"
    using r assms(4) by (simp add: resolve_name_def base_def Let_def)
  have st: "stat_size (ctx\<lparr>names := st\<rparr>) base = stat_size ctx base" by (simp add: stat_size_def)
  show ?thesis
  proof (cases "stat_size ctx base > 0")
    case True
    then show ?thesis
      using rn st safe by (intro exI [of _ "-2"] exI [of _ base] exI [of _ "ctx\<lparr>names := st\<rparr>"])
        (simp add: create_recovery_file_def)
  next
    case False
    then have "\<And>f. files ctx base = Some f \<Longrightarrow> f = []" by (simp add: stat_size_def)
    then show ?thesis
      using rn st safe False by (cases "out_open env base") (auto simp: create_recovery_file_def open_trunc_def)
  qed
qed

theorem create_recovery_file_preserves_witness:
  "\<exists>st ctx'. create_recovery_file (ideal_env []) ((base_ctx 2 4)\<lparr>names := st, files := [''7_file'' \<mapsto> [1]]\<rparr>) 7 =
       Some (-2, ''7_file'', ctx') \<and> files ctx' = [''7_file'' \<mapsto> [1]]"
proof -
  obtain st where st: "fm_inv st" "claims_inv st" "fm_map st = Map.empty"
    using fresh_state by blast
  let ?c = "(base_ctx 2 4)\<lparr>names := st, files := [''7_file'' \<mapsto> [1]]\<rparr>"
  have f: "fallback_name 7 = ''7_file''" by code_simp
  obtain ctx1 where c: "resolve_name (ideal_env []) ?c 7 = Some (''7_file'', ctx1)"
    using resolve_model [OF st(1,2), of 7] st(3) f by (auto simp: resolve_name_def ideal_env_def Let_def)
  have sz: "stat_size ?c ''7_file'' = 1" by (simp add: stat_size_def)
  have m: "malloc_ok (ideal_env []) = (\<lambda>_. True)" by (simp add: ideal_env_def)
  obtain r fd ctx' where r: "create_recovery_file (ideal_env []) ?c 7 = Some (r, fd, ctx')"
    "(r = -2) = (stat_size ?c fd > 0)" "r \<noteq> 0 \<longrightarrow> files ctx' = files ?c"
    using create_recovery_file_preserves [of ?c 7 "ideal_env []"] st m by auto
  have "fd = ''7_file''" using r(1) c by (auto simp: create_recovery_file_def split: if_splits option.splits)
  then show ?thesis using r sz by (intro exI [of _ st] exI [of _ ctx']) auto
qed

end
