(* ===== verification/Extent_Tree.thy ===== *)
theory Extent_Tree
  imports Recover_IO
begin

text \<open>
  The extent-tree walk of \<^verbatim>\<open>ext4recover_v5.c\<close> (phase 3 and the orphan recovery):
  \<open>dump_leaf_extent\<close>, \<open>extent_tree_travel\<close> and \<open>recover_from_extent_tree\<close>.  A loop over
  the entries of a header is a recursion over the list of their indices; reading an entry
  outside the buffer is undefined (\<open>None\<close>).  Recursion follows the tree level, which
  \<open>recover_from_extent_tree\<close> bounds by 5.
\<close>

section \<open>The walk\<close>

primrec dump_leaf_loop :: "env \<Rightarrow> string \<Rightarrow> buffer \<Rightarrow> nat list \<Rightarrow> recover_context \<Rightarrow> (bool \<times> recover_context) ub" where
  "dump_leaf_loop env fd buf [] ctx = Some (True, ctx)"
| "dump_leaf_loop env fd buf (i # is) ctx =
     (case extent_at buf i of None \<Rightarrow> None
      | Some ee \<Rightarrow>
          if ee_len ee = 0 \<or> ee_phys ee = 0 then dump_leaf_loop env fd buf is ctx
          else (case recover_block_to_file env ctx fd (ee_block ee) (init_len (ee_len ee)) (ee_phys ee) of
                  (True, ctx') \<Rightarrow> dump_leaf_loop env fd buf is ctx'
                | (False, ctx') \<Rightarrow> Some (False, ctx')))"

definition dump_leaf_extent :: "env \<Rightarrow> string \<Rightarrow> buffer \<Rightarrow> recover_context \<Rightarrow> (bool \<times> recover_context) ub" where
  "dump_leaf_extent env fd buf ctx =
     (let eh = header_at buf; max_entries = calculate_max_entries (int (blocksize ctx)) True in
      if uint (eh_entries eh) > max_entries then Some (False, ctx)
      else if eh_magic eh \<noteq> EXT4_EXT_MAGIC then Some (False, ctx)
      else dump_leaf_loop env fd buf [0..<unat (eh_entries eh)] ctx)"

text \<open>The loop over the index entries; \<open>child\<close> is the walk one level down.\<close>

primrec travel_loop ::
  "(buffer \<Rightarrow> recover_context \<Rightarrow> (bool \<times> recover_context) ub) \<Rightarrow> env \<Rightarrow> buffer \<Rightarrow> nat list \<Rightarrow> recover_context \<Rightarrow>
   (bool \<times> recover_context) ub" where
  "travel_loop child env buf [] ctx = Some (True, ctx)"
| "travel_loop child env buf (i # is) ctx =
     (case idx_at buf i of None \<Rightarrow> None
      | Some ei \<Rightarrow>
          (let blk = ei_phys ei in
           if blk < 1 \<or> blk \<ge> total_blocks ctx then travel_loop child env buf is ctx
           else case pread_block env ctx blk of
                  None \<Rightarrow> Some (False, ctx)
                | Some cbuf \<Rightarrow>
                    (case child cbuf ctx of None \<Rightarrow> None
                     | Some (True, ctx') \<Rightarrow> travel_loop child env buf is ctx'
                     | Some (False, ctx') \<Rightarrow> Some (False, ctx'))))"

primrec extent_tree_travel :: "env \<Rightarrow> string \<Rightarrow> nat \<Rightarrow> buffer \<Rightarrow> recover_context \<Rightarrow> (bool \<times> recover_context) ub" where
  "extent_tree_travel env fd 0 buf ctx = dump_leaf_extent env fd buf ctx"
| "extent_tree_travel env fd (Suc level) buf ctx =
     (if \<not> malloc_ok env (blocksize ctx) then Some (False, ctx)
      else travel_loop (extent_tree_travel env fd level) env buf
             [0..<unat (eh_entries (header_at buf))] ctx)"

section \<open>Recovering one inode\<close>

text \<open>The scan of the four in-inode slots for residual index pointers.\<close>

primrec residual_slots :: "buffer \<Rightarrow> blk64_t \<Rightarrow> nat list \<Rightarrow> nat \<Rightarrow> nat ub" where
  "residual_slots buf tot [] entries = Some entries"
| "residual_slots buf tot (slot # slots) entries =
     (case idx_at buf slot of None \<Rightarrow> None
      | Some ei \<Rightarrow>
          (let lo = ei_leaf ei; leaf_blk = push_bit 32 (ucast (ei_leaf_hi ei)) OR ucast lo :: blk64_t in
           if lo > 1 \<and> leaf_blk > 1 \<and> leaf_blk < tot then residual_slots buf tot slots (slot + 1)
           else if entries > 0 then Some entries
           else residual_slots buf tot slots entries))"

text \<open>\<^verbatim>\<open>eh->field = ext2fs_cpu_to_le16(v)\<close>\<close>

definition put_le16 :: "buffer \<Rightarrow> nat \<Rightarrow> nat \<Rightarrow> buffer" where
  "put_le16 buf off v = take off buf @ le_bytes 2 v @ drop (off + 2) buf"

text \<open>The walk with the file created and the result judged by what was written.\<close>

definition recover_tree_into ::
  "env \<Rightarrow> recover_context \<Rightarrow> u32 \<Rightarrow> buffer \<Rightarrow> nat \<Rightarrow> (int \<times> recover_context) ub" where
  "recover_tree_into env ctx ino buf depth =
     do {
       (r, fd, ctx) \<leftarrow> create_recovery_file env ctx ino;
       if r = -2 then Some (0, ctx)
       else if r < 0 then Some (-1, ctx)
       else do {
         (ret, ctx) \<leftarrow> extent_tree_travel env fd depth buf ctx;
         if ret then Some (0, ctx)
         else do {
           (base2, ctx) \<leftarrow> resolve_name env ctx ino;
           Some (if stat_size ctx base2 > 0 then 0 else -1, ctx)
         }
       }
     }"

definition recover_from_extent_tree :: "env \<Rightarrow> recover_context \<Rightarrow> u32 \<Rightarrow> (int \<times> recover_context) ub" where
  "recover_from_extent_tree env ctx ino =
     (if \<not> lib_extent_open env ino then Some (-1, ctx)
      else case lib_read_inode env ino of None \<Rightarrow> Some (-1, ctx)
      | Some inode \<Rightarrow>
        (let buf = i_block inode; eh = header_at buf;
             depth = unat (eh_depth eh); entries = unat (eh_entries eh)
         in if depth > 5 then Some (-1, ctx)
            else if entries = 0 then
              do {
                n \<leftarrow> residual_slots buf (total_blocks ctx) [0..<4] 0;
                if n = 0 then Some (-1, ctx)
                else let buf = put_le16 buf 2 n in
                     if depth = 0 then recover_tree_into env ctx ino (put_le16 buf 6 1) 1
                     else recover_tree_into env ctx ino buf depth
              }
            else recover_tree_into env ctx ino buf depth))"

section \<open>The extents a tree holds\<close>

text \<open>
  The reference: the list of extents reachable from a node, read off the device image.
  \<open>None\<close> if the walk would fail or leave a buffer.
\<close>

definition leaf_extents :: "nat \<Rightarrow> buffer \<Rightarrow> ext3_extent list option" where
  "leaf_extents bs buf =
     (let eh = header_at buf; n = unat (eh_entries eh) in
      if uint (eh_entries eh) \<le> calculate_max_entries (int bs) True \<and> eh_magic eh = EXT4_EXT_MAGIC
      then map_option (filter (\<lambda>e. ee_len e \<noteq> 0 \<and> ee_phys e \<noteq> 0)) (extents_at buf n)
      else None)"

primrec tree_extents :: "buffer \<Rightarrow> nat \<Rightarrow> blk64_t \<Rightarrow> nat \<Rightarrow> buffer \<Rightarrow> ext3_extent list option" where
  "tree_extents dev bs tot 0 buf = leaf_extents bs buf"
| "tree_extents dev bs tot (Suc level) buf =
     (case idxs_at buf (unat (eh_entries (header_at buf))) of
        None \<Rightarrow> None
      | Some is \<Rightarrow>
          map_option concat (those (map (\<lambda>b. tree_extents dev bs tot level (sub_buf dev (unat b * bs) bs))
            (filter (\<lambda>b. 1 \<le> b \<and> b < tot) (map ei_phys is)))))"

text \<open>Writing a list of extents, as a fold on the file.\<close>

definition write_extent :: "buffer \<Rightarrow> nat \<Rightarrow> buffer \<Rightarrow> ext3_extent \<Rightarrow> buffer" where
  "write_extent dev bs f e =
     file_write f (unat (ee_block e) * bs)
       (sub_buf dev (unat (ee_phys e) * bs) (unat (init_len (ee_len e)) * bs))"

definition extent_blocks :: "ext3_extent \<Rightarrow> nat set" where
  "extent_blocks e = {unat (ee_phys e) ..< unat (ee_phys e) + unat (init_len (ee_len e))}"

definition extent_on_device :: "buffer \<Rightarrow> nat \<Rightarrow> ext3_extent \<Rightarrow> bool" where
  "extent_on_device dev bs e \<longleftrightarrow> (unat (ee_phys e) + unat (init_len (ee_len e))) * bs \<le> length dev"

text \<open>A faithful run that wrote \<open>es\<close> into \<open>fd\<close>.\<close>

definition wrote :: "buffer \<Rightarrow> string \<Rightarrow> ext3_extent list \<Rightarrow> recover_context \<Rightarrow> recover_context \<Rightarrow> bool" where
  "wrote dev fd es c c' \<longleftrightarrow> touches fd c c' \<and>
     (\<exists>f. files c fd = Some f \<and> files c' fd = Some (foldl (write_extent dev (blocksize c)) f es)) \<and>
     (recovered_extents c \<noteq> None \<longrightarrow> dedup_ok c \<longrightarrow>
        recovered_extents c' \<noteq> None \<and> dedup_blocks c' = dedup_blocks c \<union> (\<Union>e \<in> set es. extent_blocks e))"

definition io_ok :: "env \<Rightarrow> buffer \<Rightarrow> bool" where
  "io_ok env dev \<longleftrightarrow> dev_faithful env dev \<and> out_faithful env \<and> (\<forall>n. malloc_ok env n)"

text \<open>One \<open>pread\<close> of one block of the file system is never short.\<close>

definition block_reads_ok :: "env \<Rightarrow> buffer \<Rightarrow> recover_context \<Rightarrow> bool" where
  "block_reads_ok env dev ctx \<longleftrightarrow>
     (\<forall>b < total_blocks ctx. pread_block env ctx b = Some (sub_buf dev (unat b * blocksize ctx) (blocksize ctx)))"

section \<open>Composing writes\<close>

lemma wrote_nil: "files c fd \<noteq> None \<Longrightarrow> wrote dev fd [] c c"
  by (auto simp: wrote_def)

lemma wrote_trans:
  assumes "wrote dev fd es a b" "wrote dev fd es' b c"
  shows "wrote dev fd (es @ es') a c"
proof -
  have t: "touches fd a b" "touches fd b c" using assms by (auto simp: wrote_def)
  then have "dedup_ok a \<longrightarrow> dedup_ok b" by (simp add: touches_def)
  with assms show ?thesis
    using touches_trans [OF t] touches_frame(2) [OF t(1)] by (auto simp: wrote_def)
qed

lemma wrote_frame: "wrote dev fd es a b \<Longrightarrow> blocksize b = blocksize a \<and> total_blocks b = total_blocks a \<and> names b = names a"
proof -
  assume "wrote dev fd es a b"
  then have "touches fd a b" by (simp add: wrote_def)
  from touches_frame [OF this] show ?thesis by simp
qed

lemma wrote_file: "wrote dev fd es a b \<Longrightarrow> files b fd \<noteq> None"
  by (auto simp: wrote_def)

lemma init_len_u64: "unat (ee_phys e) + unat (init_len (ee_len e)) < 2 ^ 64"
  using ee_phys_less [of e] u16_less [of "init_len (ee_len e)"] by simp

lemma wrote_one:
  assumes "io_ok env dev" "extent_on_device dev (blocksize c) e" "files c fd \<noteq> None"
  shows "\<exists>c'. recover_block_to_file env c fd (ee_block e) (init_len (ee_len e)) (ee_phys e) = (True, c') \<and>
     wrote dev fd [e] c c'"
proof -
  let ?l = "init_len (ee_len e)" and ?bs = "blocksize c"
  obtain f where f: "files c fd = Some f" using assms(3) by auto
  have m: "\<And>n. malloc_ok env n" using assms(1) by (simp add: io_ok_def)
  let ?c = "c\<lparr>files := (files c)(fd \<mapsto> write_extent dev ?bs f e)\<rparr>"
  let ?c' = "register_extent env ?c (ee_phys e) (ucast ?l)"
  have r: "recover_block_to_file env c fd (ee_block e) ?l (ee_phys e) = (True, ?c')"
    unfolding write_extent_def
    by (rule rbtf_copies) (use assms m f init_len_u64 in \<open>auto simp: io_ok_def extent_on_device_def\<close>)
  have "touches fd c ?c'" using rbtf_touches [OF init_len_u64, of fd c env "ee_block e" e] r by simp
  moreover have "files ?c' fd = Some (write_extent dev ?bs f e)" by (simp add: frame_simps)
  moreover have "recovered_extents c \<noteq> None \<Longrightarrow> dedup_ok c \<Longrightarrow>
      recovered_extents ?c' \<noteq> None \<and> dedup_blocks ?c' = dedup_blocks c \<union> extent_blocks e"
    using register_extent_ok(4) [of ?c "ee_phys e" "ucast ?l" env] m init_len_u64 [of e]
    by (auto simp: frame_simps unat_ucast_up extent_blocks_def register_extent_def Let_def split: option.splits)
  ultimately show ?thesis using r f by (auto simp: wrote_def)
qed

lemma dump_leaf_loop_wrote:
  assumes "io_ok env dev" "those (map (extent_at buf) is) = Some es"
    and "\<forall>e \<in> set es. ee_len e \<noteq> 0 \<longrightarrow> ee_phys e \<noteq> 0 \<longrightarrow> extent_on_device dev (blocksize c) e"
    and "files c fd \<noteq> None"
  shows "\<exists>c'. dump_leaf_loop env fd buf is c = Some (True, c') \<and>
     wrote dev fd (filter (\<lambda>e. ee_len e \<noteq> 0 \<and> ee_phys e \<noteq> 0) es) c c'"
  using assms(2-)
proof (induction "is" arbitrary: es c)
  case Nil
  then show ?case by (auto intro: wrote_nil)
next
  case (Cons i "is")
  obtain e es' where e: "extent_at buf i = Some e" "those (map (extent_at buf) is) = Some es'" "es = e # es'"
    using Cons.prems(1) by (auto split: option.splits)
  show ?case
  proof (cases "ee_len e = 0 \<or> ee_phys e = 0")
    case True
    then show ?thesis using Cons.IH [OF e(2)] Cons.prems(2,3) e by auto
  next
    case False
    then obtain c1 where c1: "recover_block_to_file env c fd (ee_block e) (init_len (ee_len e)) (ee_phys e) = (True, c1)"
      "wrote dev fd [e] c c1"
      using wrote_one [OF assms(1), of c e fd] Cons.prems(2,3) e(3) by auto
    have "blocksize c1 = blocksize c" using wrote_frame [OF c1(2)] by simp
    then obtain c' where c': "dump_leaf_loop env fd buf is c1 = Some (True, c')"
      "wrote dev fd (filter (\<lambda>e. ee_len e \<noteq> 0 \<and> ee_phys e \<noteq> 0) es') c1 c'"
      using Cons.IH [OF e(2), of c1] Cons.prems(2) e(3) wrote_file [OF c1(2)] by auto
    show ?thesis using wrote_trans [OF c1(2) c'(2)] c1(1) c'(1) e False by auto
  qed
qed

lemma dump_leaf_wrote:
  assumes "io_ok env dev" "leaf_extents (blocksize c) buf = Some es"
    and "\<forall>e \<in> set es. extent_on_device dev (blocksize c) e" "files c fd \<noteq> None"
  shows "\<exists>c'. dump_leaf_extent env fd buf c = Some (True, c') \<and> wrote dev fd es c c'"
proof -
  obtain xs where xs: "extents_at buf (unat (eh_entries (header_at buf))) = Some xs"
    "es = filter (\<lambda>e. ee_len e \<noteq> 0 \<and> ee_phys e \<noteq> 0) xs"
    "uint (eh_entries (header_at buf)) \<le> calculate_max_entries (int (blocksize c)) True"
    "eh_magic (header_at buf) = EXT4_EXT_MAGIC"
    using assms(2) by (auto simp: leaf_extents_def Let_def split: if_splits)
  show ?thesis
    using dump_leaf_loop_wrote [OF assms(1) xs(1) [unfolded extents_at_def], of c fd] assms(3,4) xs
    by (auto simp: dump_leaf_extent_def Let_def)
qed

lemma travel_loop_wrote:
  assumes child: "\<And>b xs c. b < tot \<Longrightarrow> T (sub_buf dev (unat b * bs) bs) = Some xs \<Longrightarrow>
      \<forall>e \<in> set xs. extent_on_device dev bs e \<Longrightarrow> files c fd \<noteq> None \<Longrightarrow> blocksize c = bs \<Longrightarrow>
      total_blocks c = tot \<Longrightarrow> block_reads_ok env dev c \<Longrightarrow>
      \<exists>c'. walk (sub_buf dev (unat b * bs) bs) c = Some (True, c') \<and> wrote dev fd xs c c'"
    and "those (map (idx_at buf) is) = Some ps"
    and "those (map (\<lambda>b. T (sub_buf dev (unat b * bs) bs)) (filter (\<lambda>b. 1 \<le> b \<and> b < tot) (map ei_phys ps))) = Some xss"
    and "\<forall>e \<in> set (concat xss). extent_on_device dev bs e" "files c fd \<noteq> None" "blocksize c = bs"
      "total_blocks c = tot" "block_reads_ok env dev c"
  shows "\<exists>c'. travel_loop walk env buf is c = Some (True, c') \<and> wrote dev fd (concat xss) c c'"
  using assms(2-)
proof (induction "is" arbitrary: ps xss c)
  case Nil
  then show ?case by (auto intro: wrote_nil)
next
  case (Cons i "is")
  obtain p ps' where p: "idx_at buf i = Some p" "those (map (idx_at buf) is) = Some ps'" "ps = p # ps'"
    using Cons.prems(1) by (auto split: option.splits)
  show ?case
  proof (cases "1 \<le> ei_phys p \<and> ei_phys p < tot")
    case False
    then have out: "ei_phys p < 1 \<or> total_blocks c \<le> ei_phys p" using Cons.prems(6) by (simp only: not_le not_less de_Morgan_conj)
    have rest: "those (map (\<lambda>b. T (sub_buf dev (unat b * bs) bs)) (filter (\<lambda>b. 1 \<le> b \<and> b < tot) (map ei_phys ps'))) = Some xss"
      using Cons.prems(2) p(3) False by auto
    have "travel_loop walk env buf (i # is) c = travel_loop walk env buf is c"
      using p(1) out by (simp add: Let_def del: word_less_1)
    then show ?thesis using Cons.IH [OF p(2) rest Cons.prems(3-7)] by simp
  next
    case True
    let ?b = "sub_buf dev (unat (ei_phys p) * bs) bs"
    obtain xs xss' where xs: "T ?b = Some xs" "xss = xs # xss'"
      "those (map (\<lambda>b. T (sub_buf dev (unat b * bs) bs)) (filter (\<lambda>b. 1 \<le> b \<and> b < tot) (map ei_phys ps'))) = Some xss'"
      using Cons.prems(2) p(3) True by (auto split: option.splits)
    obtain c1 where c1: "walk ?b c = Some (True, c1)" "wrote dev fd xs c c1"
      using child [of "ei_phys p" xs c] xs Cons.prems(3-7) True by auto
    have fr: "blocksize c1 = bs" "total_blocks c1 = tot" "block_reads_ok env dev c1"
      using c1(2) Cons.prems(5-7) touches_frame(2,3) [of fd c c1]
      by (auto simp: wrote_def block_reads_ok_def pread_block_def)
    obtain c' where c': "travel_loop walk env buf is c1 = Some (True, c')" "wrote dev fd (concat xss') c1 c'"
      using Cons.IH [OF p(2) xs(3) _ _ fr] Cons.prems(3) xs(2) wrote_file [OF c1(2)] by auto
    have "pread_block env c (ei_phys p) = Some ?b"
      using Cons.prems(5-7) True by (simp add: block_reads_ok_def)
    moreover have "\<not> (ei_phys p < 1 \<or> total_blocks c \<le> ei_phys p)" using True Cons.prems(6) by auto
    ultimately have "travel_loop walk env buf (i # is) c = travel_loop walk env buf is c1"
      using p(1) c1(1) by (simp add: Let_def del: word_less_1)
    then show ?thesis using wrote_trans [OF c1(2) c'(2)] c'(1) xs(2) by auto
  qed
qed

text \<open>The walk writes exactly the extents of the reference.\<close>

lemma extent_tree_travel_wrote:
  assumes "io_ok env dev"
  shows "tree_extents dev (blocksize c) (total_blocks c) level buf = Some es \<Longrightarrow>
     \<forall>e \<in> set es. extent_on_device dev (blocksize c) e \<Longrightarrow> files c fd \<noteq> None \<Longrightarrow> block_reads_ok env dev c \<Longrightarrow>
     \<exists>c'. extent_tree_travel env fd level buf c = Some (True, c') \<and> wrote dev fd es c c'"
proof (induction level arbitrary: buf c es)
  case 0
  then show ?case using dump_leaf_wrote [OF assms] by simp
next
  case (Suc level)
  obtain ps where ps: "idxs_at buf (unat (eh_entries (header_at buf))) = Some ps"
    using Suc.prems(1) by (auto split: option.splits)
  obtain xss where xss: "es = concat xss"
    "those (map (\<lambda>b. tree_extents dev (blocksize c) (total_blocks c) level (sub_buf dev (unat b * blocksize c) (blocksize c)))
       (filter (\<lambda>b. 1 \<le> b \<and> b < total_blocks c) (map ei_phys ps))) = Some xss"
    using Suc.prems(1) ps by auto
  have m: "malloc_ok env (blocksize c)" using assms by (simp add: io_ok_def)
  show ?case
    using travel_loop_wrote [where tot = "total_blocks c" and bs = "blocksize c" and fd = fd and env = env and
        T = "tree_extents dev (blocksize c) (total_blocks c) level" and walk = "extent_tree_travel env fd level",
        OF _ ps [unfolded idxs_at_def] xss(2), of c] Suc.IH Suc.prems(2-4) xss(1) m
    by auto
qed

section \<open>What the walk leaves alone\<close>

lemma dump_leaf_loop_touches: "dump_leaf_loop env fd buf is c = Some (r, c') \<Longrightarrow> touches fd c c'"
proof (induction "is" arbitrary: c)
  case (Cons i "is")
  obtain e where e: "extent_at buf i = Some e" using Cons.prems by (auto split: option.splits)
  let ?r = "recover_block_to_file env c fd (ee_block e) (init_len (ee_len e)) (ee_phys e)"
  have t: "touches fd c (snd ?r)" by (rule rbtf_touches [OF init_len_u64])
  show ?case
  proof (cases "ee_len e = 0 \<or> ee_phys e = 0")
    case True
    then show ?thesis using Cons e by auto
  next
    case False
    then show ?thesis
      using Cons.prems e t Cons.IH [of "snd ?r"]
      by (cases ?r; cases "fst ?r") (auto intro: touches_trans)
  qed
qed simp

lemma dump_leaf_touches: "dump_leaf_extent env fd buf c = Some (r, c') \<Longrightarrow> touches fd c c'"
  by (auto simp: dump_leaf_extent_def Let_def split: if_splits intro: dump_leaf_loop_touches)

lemma travel_loop_touches:
  assumes "\<And>b c r c'. walk b c = Some (r, c') \<Longrightarrow> touches fd c c'"
  shows "travel_loop walk env buf is c = Some (r, c') \<Longrightarrow> touches fd c c'"
proof (induction "is" arbitrary: c)
  case (Cons i "is")
  then show ?case
    by (auto simp: Let_def split: option.splits if_splits bool.splits prod.splits intro: assms touches_trans)
qed simp

lemma extent_tree_travel_touches:
  "extent_tree_travel env fd level buf c = Some (r, c') \<Longrightarrow> touches fd c c'"
proof (induction level arbitrary: buf c r c')
  case (Suc level)
  then show ?case
    using travel_loop_touches [of "extent_tree_travel env fd level" fd env buf] by (auto split: if_splits)
qed (simp add: dump_leaf_touches)

definition keeps_outputs :: "recover_context \<Rightarrow> recover_context \<Rightarrow> bool" where
  "keeps_outputs c c' \<longleftrightarrow> (\<forall>n f. files c n = Some f \<and> f \<noteq> [] \<longrightarrow> files c' n = Some f)"

lemma keeps_refl [simp, intro]: "keeps_outputs c c"
  by (simp add: keeps_outputs_def)

lemma keeps_trans: "keeps_outputs a b \<Longrightarrow> keeps_outputs b c \<Longrightarrow> keeps_outputs a c"
  by (auto simp: keeps_outputs_def)

lemma resolve_name_files: "resolve_name env c ino = Some (base, c') \<Longrightarrow> files c' = files c"
  by (auto simp: resolve_name_def Let_def)

lemma create_recovery_file_effect:
  assumes "create_recovery_file env c ino = Some (r, fd, c')"
  shows "r \<noteq> 0 \<and> files c' = files c \<or> r = 0 \<and> stat_size c fd = 0 \<and> files c' = (files c)(fd \<mapsto> [])"
  using assms resolve_name_files
  by (fastforce simp: create_recovery_file_def open_trunc_def stat_size_def split: option.splits prod.splits if_splits)

lemma recover_tree_into_keeps:
  assumes "recover_tree_into env c ino buf depth = Some (r, c')"
  shows "keeps_outputs c c'"
proof -
  obtain rc fd c1 where c1: "create_recovery_file env c ino = Some (rc, fd, c1)"
    using assms by (auto simp: recover_tree_into_def bind_eq_Some_conv)
  show ?thesis
  proof (cases "rc = 0")
    case False
    then have "files c1 = files c" using create_recovery_file_effect [OF c1] by simp
    moreover have "rc = -2 \<or> rc = -1"
      using False c1 by (auto simp: create_recovery_file_def split: option.splits prod.splits if_splits)
    ultimately show ?thesis using assms c1 by (auto simp: recover_tree_into_def keeps_outputs_def)
  next
    case True
    then have f1: "stat_size c fd = 0" "files c1 = (files c)(fd \<mapsto> [])"
      using create_recovery_file_effect [OF c1] by auto
    obtain ret c2 where c2: "extent_tree_travel env fd depth buf c1 = Some (ret, c2)"
      using assms c1 True by (auto simp: recover_tree_into_def bind_eq_Some_conv)
    have t: "\<forall>n. n \<noteq> fd \<longrightarrow> files c2 n = files c1 n"
      using extent_tree_travel_touches [OF c2] by (simp add: touches_def)
    have "files c' = files c2"
      using assms c1 c2 True resolve_name_files
      by (auto simp: recover_tree_into_def bind_eq_Some_conv split: if_splits)
    moreover have "n \<noteq> fd" if "files c n = Some f" "f \<noteq> []" for n f
      using that f1(1) by (auto simp: stat_size_def)
    ultimately show ?thesis using f1(2) t by (auto simp: keeps_outputs_def)
  qed
qed

text \<open>An intact tree is written into the file of the resolved name.\<close>

lemma recover_tree_wrote:
  assumes io: "io_ok env dev" "block_reads_ok env dev ctx" "\<And>n. out_open env n"
    and lib: "lib_extent_open env ino" "lib_read_inode env ino = Some inode"
    and root: "eh_depth (header_at (i_block inode)) \<le> 5" "eh_entries (header_at (i_block inode)) \<noteq> 0"
    and tree: "tree_extents dev (blocksize ctx) (total_blocks ctx)
        (unat (eh_depth (header_at (i_block inode)))) (i_block inode) = Some es"
      "\<forall>e \<in> set es. extent_on_device dev (blocksize ctx) e"
    and name: "resolve_name env ctx ino = Some (base, ctx1)" "stat_size ctx base = 0"
  shows "\<exists>ctx'. recover_from_extent_tree env ctx ino = Some (0, ctx') \<and>
     wrote dev base es (ctx1\<lparr>files := (files ctx1)(base \<mapsto> [])\<rparr>) ctx'"
proof -
  let ?d = "unat (eh_depth (header_at (i_block inode)))"
  obtain ns where n: "ctx1 = ctx\<lparr>names := ns\<rparr>" using name(1) by (auto simp: resolve_name_def Let_def)
  let ?c = "ctx1\<lparr>files := (files ctx1)(base \<mapsto> [])\<rparr>"
  have cr: "create_recovery_file env ctx ino = Some (0, base, ?c)"
    using name io(3) n by (simp add: create_recovery_file_def open_trunc_def stat_size_def)
  have br: "block_reads_ok env dev ?c" using io(2) n by (simp add: block_reads_ok_def pread_block_def)
  obtain c' where c': "extent_tree_travel env base ?d (i_block inode) ?c = Some (True, c')" "wrote dev base es ?c c'"
    using extent_tree_travel_wrote [OF io(1), of ?c ?d "i_block inode" es base] tree br n by auto
  have "?d \<le> 5" using root(1) by (simp add: word_le_nat_alt)
  moreover have "unat (eh_entries (header_at (i_block inode))) \<noteq> 0" using root(2) by (simp add: unat_eq_0)
  ultimately have "recover_from_extent_tree env ctx ino = Some (0, c')"
    using lib cr c'(1) by (simp add: recover_from_extent_tree_def recover_tree_into_def Let_def)
  then show ?thesis using c'(2) by blast
qed

section \<open>Properties\<close>

text \<open>Property C10: the extent-tree walk is exact.  Let the inode's tree (depth at most 5, at least one
  entry in the root) hold the extents \<open>es\<close> according to the device image, all of them on the
  device.  If the resolved output does not hold data yet, \<open>recover_from_extent_tree\<close> succeeds, and
  the output is the result of writing exactly these extents, in tree order, at their logical
  offsets into an empty file; their blocks, and no others, are added to the deduplication set, and no
  other file changes.\<close>

theorem recover_from_extent_tree_exact:
  assumes io: "io_ok env dev" "block_reads_ok env dev ctx" "\<And>n. out_open env n"
    and lib: "lib_extent_open env ino" "lib_read_inode env ino = Some inode"
    and root: "eh_depth (header_at (i_block inode)) \<le> 5" "eh_entries (header_at (i_block inode)) \<noteq> 0"
    and tree: "tree_extents dev (blocksize ctx) (total_blocks ctx)
        (unat (eh_depth (header_at (i_block inode)))) (i_block inode) = Some es"
      "\<forall>e \<in> set es. extent_on_device dev (blocksize ctx) e"
    and name: "resolve_name env ctx ino = Some (base, ctx1)" "stat_size ctx base = 0"
    and dd: "dedup_ok ctx" "recovered_extents ctx \<noteq> None"
  shows "\<exists>ctx'. recover_from_extent_tree env ctx ino = Some (0, ctx') \<and>
     files ctx' = (files ctx)(base \<mapsto> foldl (write_extent dev (blocksize ctx)) [] es) \<and>
     dedup_blocks ctx' = dedup_blocks ctx \<union> (\<Union>e \<in> set es. extent_blocks e)"
proof -
  let ?f = "foldl (write_extent dev (blocksize ctx)) [] es"
  obtain ns where n: "ctx1 = ctx\<lparr>names := ns\<rparr>" using name(1) by (auto simp: resolve_name_def Let_def)
  obtain c' where c': "recover_from_extent_tree env ctx ino = Some (0, c')"
    "wrote dev base es (ctx1\<lparr>files := (files ctx1)(base \<mapsto> [])\<rparr>) c'"
    using recover_tree_wrote [OF io lib root tree name] by blast
  have "files c' k = ((files ctx)(base \<mapsto> ?f)) k" for k
    using c'(2) n by (cases "k = base") (auto simp: wrote_def touches_def)
  moreover have "dedup_blocks c' = dedup_blocks ctx \<union> (\<Union>e \<in> set es. extent_blocks e)"
    using c'(2) dd n by (auto simp: wrote_def frame_simps)
  ultimately show ?thesis using c'(1) by (intro exI [of _ c']) auto
qed

text \<open>A tree of depth 1: the inode's index entry leads to block 1, whose one extent is block 2.\<close>

definition idx_node :: "nat \<Rightarrow> buffer" where
  "idx_node b = le_bytes 2 0xF30A @ le_bytes 2 1 @ le_bytes 2 4 @ le_bytes 2 1 @ le_bytes 4 0 @
                le_bytes 4 0 @ le_bytes 4 b @ le_bytes 4 0 @ replicate 36 0"

definition leaf_node :: "nat \<Rightarrow> nat \<Rightarrow> nat \<Rightarrow> buffer" where
  "leaf_node lb len b = le_bytes 2 0xF30A @ le_bytes 2 1 @ le_bytes 2 1 @ le_bytes 2 0 @ le_bytes 4 0 @
                le_bytes 4 lb @ le_bytes 2 len @ le_bytes 2 0 @ le_bytes 4 b"

definition tree_dev :: buffer where
  "tree_dev = replicate 24 0 @ leaf_node 0 1 2 @ map of_nat [1..<25]"

definition tree_inode :: ext2_inode where
  "tree_inode = \<lparr>i_mode = 0x8000, i_size = 24, i_dtime = 0, i_links_count = 0, i_blocks = 1,
     i_flags = EXT4_EXTENTS_FL, i_block = idx_node 1, i_size_high = 0\<rparr>"

definition tree_env :: env where
  "tree_env = (ideal_env tree_dev)\<lparr>dev_pread := (\<lambda>off n. take n (drop off tree_dev)),
     lib_extent_open := (\<lambda>_. True), lib_read_inode := (\<lambda>_. Some tree_inode)\<rparr>"

definition tree_extent :: ext3_extent where
  "tree_extent = \<lparr>ee_block = 0, ee_len = 1, ee_start_hi = 0, ee_start = 2\<rparr>"

lemma tree_example:
  "tree_extents tree_dev 24 3 1 (idx_node 1) = Some [tree_extent]" "eh_depth (header_at (idx_node 1)) = 1"
  "eh_entries (header_at (idx_node 1)) = 1" "extent_on_device tree_dev 24 tree_extent" "length tree_dev = 72"
  "write_extent tree_dev 24 [] tree_extent = map of_nat [1..<25]" "extent_blocks tree_extent = {2}"
proof -
  have rep: "replicate 36 (0 :: byte) = [0,0,0,0,0,0,0,0,0,0,0,0,0,0,0,0,0,0,0,0,0,0,0,0,0,0,0,0,0,0,0,0,0,0,0,0]"
    "replicate 24 (0 :: byte) = [0,0,0,0,0,0,0,0,0,0,0,0,0,0,0,0,0,0,0,0,0,0,0,0]"
    by (simp_all add: numeral_eq_Suc)
  have dat: "map of_nat [1..<25] = ([1,2,3,4,5,6,7,8,9,10,11,12,13,14,15,16,17,18,19,20,21,22,23,24] :: buffer)"
    by (simp add: upt_rec)
  note ev = idx_node_def leaf_node_def tree_dev_def rep dat header_at_def le16_at_def le32_at_def sub_buf_def
    extent_at_def idx_at_def extents_at_def idxs_at_def tree_extent_def
  show d: "eh_depth (header_at (idx_node 1)) = 1" and e: "eh_entries (header_at (idx_node 1)) = 1"
    by (simp_all add: ev)
  have leaf: "leaf_extents 24 (leaf_node 0 1 2) = Some [tree_extent]"
    by (simp add: leaf_extents_def calculate_max_entries_def EXT4_EXT_MAGIC_def ee_phys_def ev)
  have node: "idxs_at (idx_node 1) 1 = Some [\<lparr>ei_block = 0, ei_leaf = 1, ei_leaf_hi = 0\<rparr>]"
    by (simp add: ev)
  have blk: "sub_buf tree_dev 24 24 = leaf_node 0 1 2" by (simp add: ev)
  show "tree_extents tree_dev 24 3 1 (idx_node 1) = Some [tree_extent]"
    using leaf node blk e by (simp add: ei_phys_def)
  show "length tree_dev = 72" by (simp add: ev)
  then show "extent_on_device tree_dev 24 tree_extent"
    by (simp add: extent_on_device_def tree_extent_def ee_phys_def init_len_def)
  show "write_extent tree_dev 24 [] tree_extent = map of_nat [1..<25]"
    by (simp add: write_extent_def file_write_def ee_phys_def init_len_def ev)
  show "extent_blocks tree_extent = {2}" by (auto simp: extent_blocks_def tree_extent_def ee_phys_def init_len_def)
qed

lemma tree_env_ok: "io_ok tree_env tree_dev" "block_reads_ok tree_env tree_dev (base_ctx 24 3)"
proof -
  have "dev_faithful tree_env tree_dev"
    by (auto simp: dev_faithful_def tree_env_def ideal_env_def)
  then show "io_ok tree_env tree_dev"
    by (simp add: io_ok_def out_faithful_def tree_env_def ideal_env_def)
  show "block_reads_ok tree_env tree_dev (base_ctx 24 3)"
  proof (unfold block_reads_ok_def, intro allI impI)
    fix b assume "b < total_blocks (base_ctx 24 3)"
    then have "unat b < 3" by (simp add: base_ctx_def word_less_nat_alt)
    then have "unat b * 24 + 24 \<le> length tree_dev" unfolding tree_example by linarith
    then show "pread_block tree_env (base_ctx 24 3) b = Some (sub_buf tree_dev (unat b * blocksize (base_ctx 24 3)) (blocksize (base_ctx 24 3)))"
      by (simp add: pread_block_def tree_env_def base_ctx_def sub_buf_def Let_def)
  qed
qed

theorem recover_from_extent_tree_exact_witness:
  "\<exists>ctx'. recover_from_extent_tree tree_env (base_ctx 24 3) 7 = Some (0, ctx') \<and>
     files ctx' = [''7_file'' \<mapsto> map of_nat [1..<25]] \<and> dedup_blocks ctx' = {2}"
proof -
  have f: "fallback_name 7 = ''7_file''" by code_simp
  have r: "resolve_name tree_env (base_ctx 24 3) 7 = Some (''7_file'', base_ctx 24 3)"
    using f by (simp add: resolve_name_def resolve_output_name_def get_filename_for_inode_def base_ctx_def no_names_def Let_def)
  have b: "blocksize (base_ctx 24 3) = 24" "total_blocks (base_ctx 24 3) = 3" "files (base_ctx 24 3) = Map.empty"
    by (simp_all add: base_ctx_def)
  show ?thesis
    using recover_from_extent_tree_exact [OF tree_env_ok _ _ _ _ _ _ _ r, of tree_inode "[tree_extent]"] tree_example
      base_ctx_dedup [of 24 3] b
    by (simp add: tree_env_def tree_inode_def ideal_env_def stat_size_def)
qed

lemma recover_from_extent_tree_keeps:
  "recover_from_extent_tree env ctx ino = Some (r, ctx') \<Longrightarrow> keeps_outputs ctx ctx'"
  using recover_tree_into_keeps
  by (auto simp: recover_from_extent_tree_def Let_def bind_eq_Some_conv split: if_splits option.splits)

text \<open>Whatever the device, the library and the tree contain, a recovery of one inode
  never alters an output that already holds data.\<close>

theorem recover_from_extent_tree_preserves:
  assumes "recover_from_extent_tree env ctx ino = Some (r, ctx')"
    and "files ctx n = Some f" and "f \<noteq> []"
  shows "files ctx' n = Some f"
  using recover_from_extent_tree_keeps [OF assms(1)] assms(2,3) by (simp add: keeps_outputs_def)

theorem recover_from_extent_tree_preserves_witness:
  "\<exists>r ctx'. recover_from_extent_tree (ideal_env []) ((base_ctx 24 3)\<lparr>files := [''a'' \<mapsto> [1]]\<rparr>) 7 = Some (r, ctx') \<and>
     files ctx' ''a'' = Some [1]"
proof -
  let ?c = "(base_ctx 24 3)\<lparr>files := [''a'' \<mapsto> [1]]\<rparr>"
  have r: "recover_from_extent_tree (ideal_env []) ?c 7 = Some (-1, ?c)"
    by (simp add: recover_from_extent_tree_def ideal_env_def)
  show ?thesis using recover_from_extent_tree_preserves [OF r, of "''a''" "[1]"] r by auto
qed

text \<open>The in-inode leaf is bounded by the number of entries of a whole block, not of the
  60 bytes of \<open>i_block\<close>: a root header with magic, depth 0 and five entries (four of them empty)
  passes every test of \<open>dump_leaf_extent\<close>, and the loop then reads past the end of the array.\<close>

theorem dump_leaf_in_inode_overrun:
  "let root = le_bytes 2 0xF30A @ le_bytes 2 5 @ le_bytes 2 5 @ le_bytes 2 0 @ replicate 52 0 in
   length root = 60 \<and> uint (eh_entries (header_at root)) \<le> calculate_max_entries 4096 True \<and>
   dump_leaf_extent env fd root ((base_ctx 4096 1000)) = None"
proof -
  let ?root = "le_bytes 2 0xF30A @ le_bytes 2 5 @ le_bytes 2 5 @ le_bytes 2 0 @ replicate 52 0 :: buffer"
  define root where "root = ?root"
  have h: "eh_entries (header_at root) = 5" "eh_magic (header_at root) = EXT4_EXT_MAGIC"
    unfolding root_def by (simp_all add: header_at_def le16_at_def sub_buf_def EXT4_EXT_MAGIC_def)
  have z: "extent_at root 0 = Some e0 \<and> extent_at root 1 = Some e0 \<and> extent_at root 2 = Some e0 \<and>
      extent_at root 3 = Some e0 \<and> extent_at root 4 = None"
    if "e0 = \<lparr>ee_block = 0, ee_len = 0, ee_start_hi = 0, ee_start = 0\<rparr>" for e0
  proof -
    define h :: buffer where "h = le_bytes 2 0xF30A @ le_bytes 2 5 @ le_bytes 2 5 @ le_bytes 2 0"
    have z: "root = h @ replicate 52 0" "length h = 8" by (simp_all add: root_def h_def)
    have "sub_buf root k n = replicate n 0" if "8 \<le> k" "k + n \<le> 60" for k n
      using that by (simp add: z sub_buf_def)
    moreover have "le_val (replicate n 0) = 0" for n by (induction n) auto
    ultimately show ?thesis by (simp add: that extent_at_def le16_at_def le32_at_def Let_def) (simp add: z)
  qed
  have i: "[0..<5] = [0, 1, 2, 3, 4 :: nat]" by (simp add: upt_rec)
  have "dump_leaf_extent env fd root (base_ctx 4096 1000) = None"
    using z [OF refl] by (simp add: dump_leaf_extent_def h i Let_def base_ctx_def calculate_max_entries_def)
  moreover have "length root = 60" unfolding root_def by simp
  moreover have "uint (eh_entries (header_at root)) \<le> calculate_max_entries 4096 True"
    using h(1) by (simp add: calculate_max_entries_def)
  ultimately show ?thesis unfolding Let_def root_def by blast
qed

end
