(* ===== verification/Leaf_Copy.thy ===== *)
theory Leaf_Copy
  imports Extent_Tree
begin

text \<open>
  Two loops over the extents of a leaf that the journal recovery, the aggressive scan and
  the targeted scan repeat: the pre-check that counts the extents already recovered, and
  the loop that copies every extent of the leaf that lies on the device.
\<close>

section \<open>The fully-covered pre-check\<close>

text \<open>\<open>total\<close> and \<open>fully\<close> of the source, updated entry by entry.\<close>

primrec cover_loop :: "recovered_intervals \<Rightarrow> buffer \<Rightarrow> nat list \<Rightarrow> nat \<times> nat \<Rightarrow> (nat \<times> nat) ub" where
  "cover_loop ri buf [] s = Some s"
| "cover_loop ri buf (k # ks) s =
     (case extent_at buf k of None \<Rightarrow> None
      | Some pe \<Rightarrow>
          (let plen = init_len (ee_len pe); pst = ee_phys pe in
           if plen = 0 \<or> pst = 0 then cover_loop ri buf ks s
           else cover_loop ri buf ks
                  (fst s + 1, if intervals_query (Some ri) pst (ucast plen) = 1 then snd s + 1 else snd s)))"

section \<open>The copy loop\<close>

text \<open>
  Entries that are empty or leave the device are skipped, a failed copy is ignored;
  the result lists the lengths of the copied extents.
\<close>

primrec leaf_copy_loop ::
  "env \<Rightarrow> string \<Rightarrow> buffer \<Rightarrow> nat list \<Rightarrow> recover_context \<Rightarrow> u16 list \<Rightarrow> (recover_context \<times> u16 list) ub" where
  "leaf_copy_loop env fd buf [] ctx acc = Some (ctx, acc)"
| "leaf_copy_loop env fd buf (j # js) ctx acc =
     (case extent_at buf j of None \<Rightarrow> None
      | Some cee \<Rightarrow>
          (let blk_len = init_len (ee_len cee); phys = ee_phys cee in
           if blk_len = 0 \<or> phys = 0 then leaf_copy_loop env fd buf js ctx acc
           else if phys + ucast blk_len > total_blocks ctx then leaf_copy_loop env fd buf js ctx acc
           else (case recover_block_to_file env ctx fd (ee_block cee) blk_len phys of
                   (ok, ctx') \<Rightarrow> leaf_copy_loop env fd buf js ctx' (if ok then acc @ [blk_len] else acc))))"

definition blocks_of :: "u16 list \<Rightarrow> nat" where
  "blocks_of acc = sum_list (map unat acc)"

section \<open>Lemmas\<close>

lemma init_len_zero [simp]: "init_len l = 0 \<longleftrightarrow> l = 0"
  using init_len_bound [of l] by simp

text \<open>An extent counts unless it is empty or starts at block 0.\<close>

definition counts :: "ext3_extent \<Rightarrow> bool" where
  "counts e \<longleftrightarrow> ee_len e \<noteq> 0 \<and> ee_phys e \<noteq> 0"

lemma query_extent:
  assumes "intervals_inv ri" "counts e"
  shows "intervals_query (Some ri) (ee_phys e) (ucast (init_len (ee_len e))) = 1 \<longleftrightarrow> extent_blocks e \<subseteq> recorded ri"
proof -
  have u: "unat (ucast (init_len (ee_len e)) :: u64) = unat (init_len (ee_len e))" by (simp add: unat_ucast_up)
  have "unat (ee_phys e) + unat (ucast (init_len (ee_len e)) :: u64) < 2 ^ 64"
    using init_len_u64 [of e] by (simp add: unat_ucast_up)
  moreover have "0 < (ucast (init_len (ee_len e)) :: u64)"
  proof -
    have "init_len (ee_len e) \<noteq> 0" using assms(2) by (simp add: counts_def)
    then have "0 < unat (init_len (ee_len e))" by (simp add: unat_gt_0)
    then show ?thesis using u by (simp add: word_less_nat_alt)
  qed
  ultimately show ?thesis
    using iv.query_full [OF assms(1), of "ucast (init_len (ee_len e))" "ee_phys e"] u by (simp add: extent_blocks_def)
qed

lemma cover_loop_counts:
  assumes "intervals_inv ri" "those (map (extent_at buf) ks) = Some es"
  shows "cover_loop ri buf ks (t, f) =
     Some (t + length (filter counts es), f + length (filter (\<lambda>e. counts e \<and> extent_blocks e \<subseteq> recorded ri) es))"
  using assms(2)
proof (induction ks arbitrary: es t f)
  case (Cons k ks)
  obtain e es' where e: "extent_at buf k = Some e" "those (map (extent_at buf) ks) = Some es'" "es = e # es'"
    using Cons.prems by (auto split: option.splits)
  show ?case
    using Cons.IH [OF e(2)] e query_extent [OF assms(1), of e] by (simp add: Let_def counts_def)
qed simp

text \<open>The pre-check fires iff the leaf has an extent and all its blocks are recorded.\<close>

lemma filter_length_le_eq: "length (filter (\<lambda>x. P x \<and> Q x) xs) = length (filter P xs) \<longleftrightarrow> (\<forall>x \<in> set xs. P x \<longrightarrow> Q x)"
proof (induction xs)
  case (Cons x xs)
  have "length (filter (\<lambda>x. P x \<and> Q x) xs) \<le> length (filter P xs)" by (induction xs) auto
  with Cons show ?case by auto
qed simp

lemma cover_loop_decides:
  assumes "intervals_inv ri" "those (map (extent_at buf) ks) = Some es"
  shows "\<exists>t f. cover_loop ri buf ks (0, 0) = Some (t, f) \<and>
    (t > 0 \<and> f = t \<longleftrightarrow> (\<exists>e \<in> set es. counts e) \<and> (\<forall>e \<in> set es. counts e \<longrightarrow> extent_blocks e \<subseteq> recorded ri))"
  using cover_loop_counts [OF assms, of 0 0] filter_length_le_eq [of counts "\<lambda>e. extent_blocks e \<subseteq> recorded ri" es]
  by (auto simp: filter_empty_conv)

lemma leaf_copy_touches:
  "leaf_copy_loop env fd buf js c acc = Some (c', acc') \<Longrightarrow> touches fd c c'"
proof (induction js arbitrary: c acc)
  case (Cons j js)
  obtain e where e: "extent_at buf j = Some e" using Cons.prems by (auto split: option.splits)
  let ?r = "recover_block_to_file env c fd (ee_block e) (init_len (ee_len e)) (ee_phys e)"
  have t: "touches fd c (snd ?r)" by (rule rbtf_touches [OF init_len_u64])
  show ?case
    using Cons.prems e t Cons.IH
    by (cases ?r) (auto simp: Let_def split: if_splits intro: touches_trans)
qed simp

lemma leaf_copy_acc:
  "leaf_copy_loop env fd buf js c acc = Some (c', acc') \<Longrightarrow> \<exists>xs. acc' = acc @ xs \<and> 0 \<notin> set xs"
proof (induction js arbitrary: c acc)
  case (Cons j js)
  obtain e where e: "extent_at buf j = Some e" using Cons.prems by (auto split: option.splits)
  let ?r = "recover_block_to_file env c fd (ee_block e) (init_len (ee_len e)) (ee_phys e)"
  show ?case
    using Cons.prems e Cons.IH
    by (cases ?r) (fastforce simp: Let_def split: if_splits)
qed simp

text \<open>On faithful I/O the loop copies exactly the extents of the leaf that lie below \<open>tot\<close>.\<close>

definition copyable :: "blk64_t \<Rightarrow> ext3_extent \<Rightarrow> bool" where
  "copyable tot e \<longleftrightarrow> counts e \<and> unat (ee_phys e) + unat (init_len (ee_len e)) \<le> unat tot"

lemma copyable_iff:
  "copyable tot e \<longleftrightarrow> \<not> (init_len (ee_len e) = 0 \<or> ee_phys e = 0) \<and> \<not> (ee_phys e + ucast (init_len (ee_len e)) > tot)"
  by (auto simp: copyable_def counts_def word_less_nat_alt unat_phys_len)

lemma copyable_on_device:
  "copyable tot e \<Longrightarrow> unat tot * bs \<le> length dev \<Longrightarrow> extent_on_device dev bs e"
  unfolding copyable_def extent_on_device_def using mult_le_mono1 le_trans by blast

lemma leaf_copy_wrote:
  assumes "io_ok env dev" "those (map (extent_at buf) js) = Some es"
    and "unat (total_blocks c) * blocksize c \<le> length dev" "files c fd \<noteq> None"
  shows "\<exists>c'. leaf_copy_loop env fd buf js c acc =
       Some (c', acc @ map (init_len \<circ> ee_len) (filter (copyable (total_blocks c)) es)) \<and>
     wrote dev fd (filter (copyable (total_blocks c)) es) c c'"
  using assms(2-)
proof (induction js arbitrary: es c acc)
  case Nil
  then show ?case by (auto intro: wrote_nil)
next
  case (Cons j js)
  obtain e es' where e: "extent_at buf j = Some e" "those (map (extent_at buf) js) = Some es'" "es = e # es'"
    using Cons.prems by (auto split: option.splits)
  show ?case
  proof (cases "copyable (total_blocks c) e")
    case False
    then have "leaf_copy_loop env fd buf (j # js) c acc = leaf_copy_loop env fd buf js c acc"
      using e(1) by (auto simp: copyable_iff Let_def)
    then show ?thesis using Cons.IH [OF e(2) Cons.prems(2,3), of acc] e(3) False by simp
  next
    case True
    obtain c1 where c1: "recover_block_to_file env c fd (ee_block e) (init_len (ee_len e)) (ee_phys e) = (True, c1)"
      "wrote dev fd [e] c c1"
      using wrote_one [OF assms(1) copyable_on_device [OF True Cons.prems(2)] Cons.prems(3)] by blast
    have fr: "blocksize c1 = blocksize c" "total_blocks c1 = total_blocks c" using wrote_frame [OF c1(2)] by auto
    have "leaf_copy_loop env fd buf (j # js) c acc = leaf_copy_loop env fd buf js c1 (acc @ [init_len (ee_len e)])"
      using e(1) c1(1) True by (simp add: copyable_iff Let_def)
    moreover obtain c' where "leaf_copy_loop env fd buf js c1 (acc @ [init_len (ee_len e)]) =
        Some (c', acc @ [init_len (ee_len e)] @ map (init_len \<circ> ee_len) (filter (copyable (total_blocks c)) es'))"
      "wrote dev fd (filter (copyable (total_blocks c)) es') c1 c'"
      using Cons.IH [OF e(2), of c1 "acc @ [init_len (ee_len e)]"] Cons.prems(2) wrote_file [OF c1(2)] fr by auto
    ultimately show ?thesis using wrote_trans [OF c1(2)] e(3) True by fastforce
  qed
qed

lemma cover_loop_total:
  "\<forall>j \<in> set js. extent_at buf j \<noteq> None \<Longrightarrow> cover_loop ri buf js s \<noteq> None"
proof (induction js arbitrary: s)
  case (Cons j js)
  then obtain e where "extent_at buf j = Some e" by auto
  with Cons show ?case by (cases s) (auto simp: Let_def split: option.split)
qed simp

end
