(* ===== verification/Journal_Inode.thy ===== *)
theory Journal_Inode
  imports Leaf_Copy
begin

text \<open>
  Journal access and the recovery of one journalled inode copy
  (\<^verbatim>\<open>journal_recovery_v5.c\<close>: \<open>read_journal_block\<close>, \<open>init_journal\<close>,
  \<open>read_tree_block_versioned\<close>, \<open>recover_inode_from_journal\<close>, \<open>close_journal\<close>).
  \<open>recover_inode_from_journal\<close> is split at its loops; a block count is a natural number.
\<close>

section \<open>Journal access\<close>

definition read_journal_block :: "env \<Rightarrow> recover_context \<Rightarrow> nat \<Rightarrow> buffer option" where
  "read_journal_block env ctx journal_blk =
     (if \<not> journal_file ctx then None
      else case lib_file_read env (s_journal_inum (super ctx)) (journal_blk * blocksize ctx) (blocksize ctx) of
             None \<Rightarrow> None
           | Some buf \<Rightarrow> if length buf \<noteq> blocksize ctx then None else Some buf)"

definition JBD2_MAGIC_NUMBER :: u32 where
  "JBD2_MAGIC_NUMBER = 0xc03b3998"

definition init_journal :: "env \<Rightarrow> recover_context \<Rightarrow> int \<times> recover_context" where
  "init_journal env ctx =
     (if s_feature_compat (super ctx) AND 0x0004 = 0 then (0, ctx\<lparr>has_journal := False\<rparr>)
      else
        let ctx1 = ctx\<lparr>has_journal := True\<rparr> in
        if s_journal_inum (super ctx) = 0 then (-1, ctx1)
        else if \<not> lib_file_open env (s_journal_inum (super ctx)) then (-1, ctx1\<lparr>journal_file := False\<rparr>)
        else
          let ctx2 = ctx1\<lparr>journal_file := True\<rparr> in
          if \<not> malloc_ok env (blocksize ctx) then (-1, ctx2)
          else case read_journal_block env ctx2 0 of
                 None \<Rightarrow> (-1, ctx2)
               | Some buf \<Rightarrow>
                   if be32_at buf 0 \<noteq> JBD2_MAGIC_NUMBER then (-1, ctx2)
                   else (0, ctx2\<lparr>journal_start := ucast (be32_at buf 20), journal_len := ucast (be32_at buf 16),
                                 caps := fs_capabilities_set_journal (caps ctx2) (be32_at buf 40)\<rparr>))"

definition close_journal :: "recover_context \<Rightarrow> recover_context" where
  "close_journal ctx = (if journal_file ctx then ctx\<lparr>journal_file := False\<rparr> else ctx)"

definition index_read :: "env \<Rightarrow> recover_context \<Rightarrow> blk64_t \<Rightarrow> u32 \<Rightarrow> (u32 \<times> buffer) option" where
  "index_read env ctx blk seq =
     journal_index_read (lib_file_read env (s_journal_inum (super ctx))) (journal_file ctx) (blocksize ctx) (jindex ctx) blk seq"

definition read_tree_block_versioned :: "env \<Rightarrow> recover_context \<Rightarrow> blk64_t \<Rightarrow> u32 \<Rightarrow> buffer option" where
  "read_tree_block_versioned env ctx blk seq =
     (let from_disk = (case pread_block env ctx blk of
                         None \<Rightarrow> None
                       | Some buf \<Rightarrow> if eh_magic (header_at buf) = EXT4_EXT_MAGIC then Some buf else None)
      in case index_read env ctx blk seq of
           None \<Rightarrow> from_disk
         | Some (_, buf) \<Rightarrow> if eh_magic (header_at buf) = EXT4_EXT_MAGIC then Some buf else from_disk)"

section \<open>Multi-level trees\<close>

text \<open>\<^verbatim>\<open>child_blk == 0 || child_blk >= ctx->total_blocks\<close>\<close>

definition child_out :: "recover_context \<Rightarrow> blk64_t \<Rightarrow> bool" where
  "child_out ctx blk \<longleftrightarrow> blk = 0 \<or> blk \<ge> total_blocks ctx"

primrec any_child_valid :: "env \<Rightarrow> recover_context \<Rightarrow> u32 \<Rightarrow> buffer \<Rightarrow> nat list \<Rightarrow> bool ub" where
  "any_child_valid env ctx seq buf [] = Some False"
| "any_child_valid env ctx seq buf (i # is) =
     (case idx_at buf i of None \<Rightarrow> None
      | Some ei \<Rightarrow>
          if child_out ctx (ei_phys ei) then any_child_valid env ctx seq buf is
          else if \<not> malloc_ok env (blocksize ctx) then any_child_valid env ctx seq buf is
          else (case read_tree_block_versioned env ctx (ei_phys ei) seq of
                  Some vbuf \<Rightarrow> if eh_entries (header_at vbuf) > 0 then Some True
                               else any_child_valid env ctx seq buf is
                | None \<Rightarrow> any_child_valid env ctx seq buf is))"

primrec precheck_loop :: "env \<Rightarrow> recover_context \<Rightarrow> recovered_intervals \<Rightarrow> buffer \<Rightarrow> nat list \<Rightarrow> nat \<times> nat \<Rightarrow> (nat \<times> nat) ub" where
  "precheck_loop env ctx ri buf [] s = Some s"
| "precheck_loop env ctx ri buf (i # is) s =
     (case idx_at buf i of None \<Rightarrow> None
      | Some ei \<Rightarrow>
          if child_out ctx (ei_phys ei) then precheck_loop env ctx ri buf is s
          else if \<not> malloc_ok env (blocksize ctx) then precheck_loop env ctx ri buf is s
          else (case pread_block env ctx (ei_phys ei) of
                  None \<Rightarrow> precheck_loop env ctx ri buf is s
                | Some pbuf \<Rightarrow>
                    if eh_magic (header_at pbuf) = EXT4_EXT_MAGIC \<and> eh_depth (header_at pbuf) = 0
                    then (case cover_loop ri pbuf [0..<unat (eh_entries (header_at pbuf))] s of
                            None \<Rightarrow> None
                          | Some s' \<Rightarrow> precheck_loop env ctx ri buf is s')
                    else precheck_loop env ctx ri buf is s))"

text \<open>A second level of indices: only leaves below it are followed.\<close>

primrec ml2_loop ::
  "env \<Rightarrow> u32 \<Rightarrow> string \<Rightarrow> buffer \<Rightarrow> nat list \<Rightarrow> recover_context \<Rightarrow> u16 list \<Rightarrow> (recover_context \<times> u16 list) ub" where
  "ml2_loop env seq fd buf [] ctx acc = Some (ctx, acc)"
| "ml2_loop env seq fd buf (j # js) ctx acc =
     (case idx_at buf j of None \<Rightarrow> None
      | Some idx2 \<Rightarrow>
          if child_out ctx (ei_phys idx2) then ml2_loop env seq fd buf js ctx acc
          else if \<not> malloc_ok env (blocksize ctx) then ml2_loop env seq fd buf js ctx acc
          else (case read_tree_block_versioned env ctx (ei_phys idx2) seq of
                  None \<Rightarrow> ml2_loop env seq fd buf js ctx acc
                | Some lbuf \<Rightarrow>
                    if eh_depth (header_at lbuf) = 0
                    then (case leaf_copy_loop env fd lbuf [0..<unat (eh_entries (header_at lbuf))] ctx acc of
                            None \<Rightarrow> None
                          | Some (ctx', acc') \<Rightarrow> ml2_loop env seq fd buf js ctx' acc')
                    else ml2_loop env seq fd buf js ctx acc))"

primrec ml_loop ::
  "env \<Rightarrow> u32 \<Rightarrow> string \<Rightarrow> buffer \<Rightarrow> nat list \<Rightarrow> recover_context \<Rightarrow> u16 list \<Rightarrow> (recover_context \<times> u16 list) ub" where
  "ml_loop env seq fd buf [] ctx acc = Some (ctx, acc)"
| "ml_loop env seq fd buf (i # is) ctx acc =
     (case idx_at buf i of None \<Rightarrow> None
      | Some idx \<Rightarrow>
          if child_out ctx (ei_phys idx) then ml_loop env seq fd buf is ctx acc
          else if \<not> malloc_ok env (blocksize ctx) then ml_loop env seq fd buf is ctx acc
          else (case read_tree_block_versioned env ctx (ei_phys idx) seq of
                  None \<Rightarrow> ml_loop env seq fd buf is ctx acc
                | Some cbuf \<Rightarrow>
                    (case (if eh_depth (header_at cbuf) = 0
                           then leaf_copy_loop env fd cbuf [0..<unat (eh_entries (header_at cbuf))] ctx acc
                           else ml2_loop env seq fd cbuf [0..<unat (eh_entries (header_at cbuf))] ctx acc) of
                       None \<Rightarrow> None
                     | Some (ctx', acc') \<Rightarrow> ml_loop env seq fd buf is ctx' acc')))"

section \<open>Promoting the temporary file\<close>

definition finish_output ::
  "env \<Rightarrow> recover_context \<Rightarrow> string \<Rightarrow> string \<Rightarrow> nat \<Rightarrow> u64 \<Rightarrow> int \<times> recover_context" where
  "finish_output env ctx tmpname filename recovered_blocks orig_size =
     (if recovered_blocks > 0 then
        (let ctx1 = (if orig_size > 0 \<and> unat orig_size < recovered_blocks * blocksize ctx
                     then truncate_file env ctx tmpname (unat orig_size) else ctx)
         in case rename_file env ctx1 tmpname filename of
              None \<Rightarrow> (-1, unlink ctx1 tmpname)
            | Some ctx2 \<Rightarrow> (0, ctx2\<lparr>journal_recovered := journal_recovered ctx2 + 1\<rparr>))
      else (-1, unlink ctx tmpname))"

definition tmpname_ml :: "u32 \<Rightarrow> string" where
  "tmpname_ml ino = ''.'' @ udec (unat ino) @ ''_tmp''"

definition tmpname_d0 :: "u32 \<Rightarrow> string" where
  "tmpname_d0 ino = ''.'' @ udec (unat ino) @ ''_d0tmp''"

text \<open>Write the copy into the temporary file by \<open>fill\<close>, then promote it.\<close>

definition via_temp ::
  "env \<Rightarrow> recover_context \<Rightarrow> u32 \<Rightarrow> string \<Rightarrow> (recover_context \<Rightarrow> (recover_context \<times> u16 list) ub) \<Rightarrow> u64 \<Rightarrow>
   (int \<times> recover_context) ub" where
  "via_temp env ctx ino tmp fill orig_size =
     do {
       (base, ctx) \<leftarrow> resolve_name env ctx ino;
       case open_trunc env ctx tmp of
         None \<Rightarrow> Some (-1, ctx)
       | Some ctx \<Rightarrow> do {
           (ctx, acc) \<leftarrow> fill ctx;
           Some (finish_output env ctx tmp base (blocks_of acc) orig_size)
         }
     }"

section \<open>One journalled inode\<close>

definition recover_multi_level ::
  "env \<Rightarrow> recover_context \<Rightarrow> u32 \<Rightarrow> ext2_inode \<Rightarrow> u32 \<Rightarrow> nat list \<Rightarrow> (int \<times> recover_context) ub" where
  "recover_multi_level env ctx ino jinode seq is =
     do {
       any_valid \<leftarrow> any_child_valid env ctx seq (i_block jinode) is;
       if \<not> any_valid then Some (-1, ctx)
       else do {
         (total_pre, fully_pre) \<leftarrow>
           (case recovered_extents ctx of
              Some ri \<Rightarrow> if i_links_count jinode = 0
                         then precheck_loop env ctx ri (i_block jinode) is (0, 0) else Some (0, 0)
            | None \<Rightarrow> Some (0, 0));
         if total_pre > 0 \<and> fully_pre = total_pre
         then Some (1, ctx\<lparr>dedup_skipped := dedup_skipped ctx + 1\<rparr>)
         else via_temp env ctx ino (tmpname_ml ino)
                (\<lambda>ctx. ml_loop env seq (tmpname_ml ino) (i_block jinode) is ctx []) (inode_size64 jinode)
       }
     }"

definition recover_depth0 ::
  "env \<Rightarrow> recover_context \<Rightarrow> u32 \<Rightarrow> ext2_inode \<Rightarrow> nat list \<Rightarrow> (int \<times> recover_context) ub" where
  "recover_depth0 env ctx ino jinode is =
     do {
       (tot, fully) \<leftarrow>
         (case recovered_extents ctx of
            Some ri \<Rightarrow> if i_links_count jinode = 0 then cover_loop ri (i_block jinode) is (0, 0) else Some (0, 0)
          | None \<Rightarrow> Some (0, 0));
       if tot > 0 \<and> fully = tot then Some (1, ctx)
       else via_temp env ctx ino (tmpname_d0 ino)
              (\<lambda>ctx. leaf_copy_loop env (tmpname_d0 ino) (i_block jinode) is ctx []) (inode_size64 jinode)
     }"

definition recover_inode_from_journal ::
  "env \<Rightarrow> recover_context \<Rightarrow> u32 \<Rightarrow> ext2_inode \<Rightarrow> u32 \<Rightarrow> (int \<times> recover_context) ub" where
  "recover_inode_from_journal env ctx ino jinode seq =
     (let eh = header_at (i_block jinode); entries = eh_entries eh; max_ent = eh_max eh; depth = eh_depth eh in
      if eh_magic eh \<noteq> EXT4_EXT_MAGIC then Some (-1, ctx)
      else if entries = 0 \<or> entries > max_ent then Some (-1, ctx)
      else if max_ent > 4 \<and> max_ent > (60 - 12) div 12 then Some (-1, ctx)
      else if depth > 5 then Some (-1, ctx)
      else if depth \<noteq> 0 then recover_multi_level env ctx ino jinode seq [0..<unat entries]
      else recover_depth0 env ctx ino jinode [0..<unat entries])"

section \<open>In-inode entries are in bounds\<close>

lemma four_entries:
  assumes "length (i_block j) = 60" "n \<le> 4"
  shows "extents_at (i_block j) n \<noteq> None" "idxs_at (i_block j) n \<noteq> None"
  using assms by (simp_all add: fmt_simps)

lemma header_guard:
  "\<not> (max_ent > 4 \<and> max_ent > (60 - 12) div (12 :: u16)) \<Longrightarrow> \<not> entries > max_ent \<Longrightarrow> unat entries \<le> 4"
proof -
  have "(60 - 12) div (12 :: u16) = 4" by simp
  then show "\<not> (max_ent > 4 \<and> max_ent > (60 - 12) div (12 :: u16)) \<Longrightarrow> \<not> entries > max_ent \<Longrightarrow> unat entries \<le> 4"
    by (simp add: word_less_nat_alt)
qed

section \<open>What the loops leave alone\<close>

lemma ml2_touches: "ml2_loop env seq fd buf js c acc = Some (c', acc') \<Longrightarrow> touches fd c c'"
proof (induction js arbitrary: c acc)
  case (Cons j js)
  then show ?case
    by (auto split: option.splits if_splits prod.splits intro: touches_trans dest: leaf_copy_touches)
qed simp

lemma ml_touches: "ml_loop env seq fd buf is c acc = Some (c', acc') \<Longrightarrow> touches fd c c'"
proof (induction "is" arbitrary: c acc)
  case (Cons i "is")
  then show ?case
    by (auto split: option.splits if_splits prod.splits intro: touches_trans dest: leaf_copy_touches ml2_touches)
qed simp

definition only_files :: "string set \<Rightarrow> recover_context \<Rightarrow> recover_context \<Rightarrow> bool" where
  "only_files N c c' \<longleftrightarrow> (\<forall>n. n \<notin> N \<longrightarrow> files c' n = files c n)"

lemma truncate_files: "only_files {n} c (truncate_file env c n k)"
  by (simp add: only_files_def truncate_file_def split: option.splits)

lemma finish_output_effect:
  assumes "finish_output env c tmp base k sz = (r, c')"
  shows "r = -1 \<and> only_files {tmp} c c' \<or> r = 0 \<and> only_files {tmp, base} c c' \<and> files c' base \<noteq> None"
proof -
  let ?c = "if sz > 0 \<and> unat sz < k * blocksize c then truncate_file env c tmp (unat sz) else c"
  have t: "only_files {tmp} c ?c" using truncate_files [of tmp c env] by (simp add: only_files_def)
  show ?thesis
    using assms t
    by (auto simp: finish_output_def Let_def unlink_def rename_file_def only_files_def split: if_splits option.splits)
qed

lemma via_temp_effect:
  assumes "via_temp env c ino tmp fill sz = Some (r, c')"
    and "\<forall>c c' acc. fill c = Some (c', acc) \<longrightarrow> touches tmp c c'"
  shows "\<exists>base. map_option fst (resolve_name env c ino) = Some base \<and>
    (r = -1 \<and> only_files {tmp} c c' \<or> r = 0 \<and> only_files {tmp, base} c c' \<and> files c' base \<noteq> None)"
proof -
  obtain base c1 where n: "resolve_name env c ino = Some (base, c1)" "files c1 = files c"
    using assms(1) resolve_name_files by (fastforce simp: via_temp_def bind_eq_Some_conv)
  show ?thesis
  proof (cases "open_trunc env c1 tmp")
    case None
    then show ?thesis using assms(1) n by (auto simp: via_temp_def only_files_def)
  next
    case (Some c2)
    then have c2: "only_files {tmp} c c2" using n(2) by (auto simp: open_trunc_def only_files_def split: if_splits)
    obtain c3 acc where c3: "fill c2 = Some (c3, acc)" "finish_output env c3 tmp base (blocks_of acc) sz = (r, c')"
      using assms(1) n(1) Some by (auto simp: via_temp_def bind_eq_Some_conv)
    have "only_files {tmp} c2 c3" using assms(2) c3(1) by (auto simp: touches_def only_files_def)
    then show ?thesis using finish_output_effect [OF c3(2)] c2 n(1) by (auto simp: only_files_def)
  qed
qed

lemma recover_inode_effect:
  assumes "recover_inode_from_journal env c ino j seq = Some (r, c')"
  shows "r \<in> {-1, 1} \<and> only_files {tmpname_ml ino, tmpname_d0 ino} c c' \<or>
    r = 0 \<and> (\<exists>base. map_option fst (resolve_name env c ino) = Some base \<and> files c' base \<noteq> None \<and>
      only_files {tmpname_ml ino, tmpname_d0 ino, base} c c')"
proof -
  let ?is = "[0..<unat (eh_entries (header_at (i_block j)))]"
  have id: "only_files N c c" "only_files N c (c\<lparr>dedup_skipped := k\<rparr>)" for N k by (simp_all add: only_files_def)
  consider "r \<in> {-1, 1}" "only_files {tmpname_ml ino, tmpname_d0 ino} c c'"
    | "via_temp env c ino (tmpname_ml ino) (\<lambda>ctx. ml_loop env seq (tmpname_ml ino) (i_block j) ?is ctx []) (inode_size64 j) = Some (r, c')"
    | "via_temp env c ino (tmpname_d0 ino) (\<lambda>ctx. leaf_copy_loop env (tmpname_d0 ino) (i_block j) ?is ctx []) (inode_size64 j) = Some (r, c')"
    using assms id
    by (auto simp: recover_inode_from_journal_def recover_multi_level_def recover_depth0_def Let_def bind_eq_Some_conv
        split: if_splits)
  then show ?thesis
  proof cases
    case 2
    from via_temp_effect [OF 2] ml_touches show ?thesis by (fastforce simp: only_files_def)
  next
    case 3
    from via_temp_effect [OF 3] leaf_copy_touches show ?thesis by (fastforce simp: only_files_def)
  qed simp
qed

section \<open>A leaf that is too long\<close>

lemma leaf_copy_undefined:
  "\<exists>j \<in> set js. extent_at buf j = None \<Longrightarrow> leaf_copy_loop env fd buf js c acc = None"
proof (induction js arbitrary: c acc)
  case (Cons j js)
  then show ?case by (auto simp: Let_def split: option.splits prod.splits)
qed simp

lemma leaf_copy_defined:
  "\<forall>j \<in> set js. extent_at buf j \<noteq> None \<Longrightarrow> leaf_copy_loop env fd buf js c acc \<noteq> None"
proof (induction js arbitrary: c acc)
  case (Cons j js)
  then obtain e where "extent_at buf j = Some e" by auto
  with Cons show ?case by (auto simp: Let_def split: option.split prod.split)
qed simp

lemma via_temp_defined:
  assumes "\<And>c. fill c \<noteq> None" "resolve_name env c ino \<noteq> None"
  shows "via_temp env c ino tmp fill sz \<noteq> None"
proof -
  obtain base c1 where n: "resolve_name env c ino = Some (base, c1)" using assms(2) by auto
  show ?thesis
  proof (cases "open_trunc env c1 tmp")
    case (Some c2)
    obtain c3 acc where "fill c2 = Some (c3, acc)" using assms(1) [of c2] by auto
    then show ?thesis using n Some by (simp add: via_temp_def)
  qed (use n in \<open>simp add: via_temp_def\<close>)
qed

section \<open>Properties\<close>

text \<open>A journalled inode with one extent, block 2 of the example device, and a size of 5 bytes.\<close>

definition leaf_inode :: ext2_inode where
  "leaf_inode = tree_inode\<lparr>i_block := leaf_node 0 1 2 @ replicate 36 0, i_size := 5, i_links_count := 1\<rparr>"

lemma leaf_inode_facts:
  "header_at (i_block leaf_inode) = \<lparr>eh_magic = EXT4_EXT_MAGIC, eh_entries = 1, eh_max = 1, eh_depth = 0\<rparr>"
  "extents_at (i_block leaf_inode) 1 = Some [tree_extent]" "length (i_block leaf_inode) = 60"
  "inode_size64 leaf_inode = 5" "i_links_count leaf_inode = 1"
proof -
  show "length (i_block leaf_inode) = 60" by (simp add: leaf_inode_def leaf_node_def)
  show "inode_size64 leaf_inode = 5" "i_links_count leaf_inode = 1"
    by (simp_all add: leaf_inode_def tree_inode_def inode_size64_def)
  show "header_at (i_block leaf_inode) = \<lparr>eh_magic = EXT4_EXT_MAGIC, eh_entries = 1, eh_max = 1, eh_depth = 0\<rparr>"
    by (simp add: leaf_inode_def leaf_node_def header_at_def le16_at_def le32_at_def sub_buf_def EXT4_EXT_MAGIC_def)
  show "extents_at (i_block leaf_inode) 1 = Some [tree_extent]"
    by (simp add: leaf_inode_def leaf_node_def extents_at_def extent_at_def le16_at_def le32_at_def sub_buf_def tree_extent_def)
qed

lemma tree_names: "resolve_name tree_env (base_ctx 24 3) 7 = Some (''7_file'', base_ctx 24 3)"
proof -
  have "fallback_name 7 = ''7_file''" by code_simp
  then show ?thesis
    by (simp add: resolve_name_def resolve_output_name_def get_filename_for_inode_def base_ctx_def no_names_def Let_def)
qed

text \<open>Property C9: the replacement of an output by a journal recovery is atomic.  Whatever the
  device, the library and the journal contain, an attempt that does not report success (it fails,
  or finds the copy redundant) leaves every file except its own temporary files as it was, so that
  an earlier, better recovery survives; a success changes no file but these and the resolved output.\<close>

theorem recover_inode_from_journal_atomic:
  assumes "recover_inode_from_journal env ctx ino jinode seq = Some (r, ctx')"
    and "n \<noteq> tmpname_ml ino" and "n \<noteq> tmpname_d0 ino"
  shows "r \<in> {-1, 0, 1} \<and> (r \<noteq> 0 \<longrightarrow> files ctx' n = files ctx n) \<and>
     (r = 0 \<longrightarrow> (\<exists>base ctx1. resolve_name env ctx ino = Some (base, ctx1) \<and> files ctx' base \<noteq> None \<and>
        (n \<noteq> base \<longrightarrow> files ctx' n = files ctx n)))"
  using recover_inode_effect [OF assms(1)] assms(2,3) by (auto simp: only_files_def)

text \<open>A live copy of depth 0 with an extent on the device: everything up to the promotion.  The
  temporary file holds the extents, and their blocks are already recorded.\<close>

lemma depth0_filled:
  assumes io: "io_ok env dev" "unat (total_blocks ctx) * blocksize ctx \<le> length dev" "\<And>n. out_open env n"
    and hdr: "eh_magic (header_at (i_block j)) = EXT4_EXT_MAGIC" "eh_depth (header_at (i_block j)) = 0"
      "eh_entries (header_at (i_block j)) \<le> eh_max (header_at (i_block j))" "eh_max (header_at (i_block j)) \<le> 4"
      "eh_entries (header_at (i_block j)) \<noteq> 0"
    and live: "i_links_count j \<noteq> 0"
    and ext: "extents_at (i_block j) (unat (eh_entries (header_at (i_block j)))) = Some xs"
      "es = filter (copyable (total_blocks ctx)) xs" "es \<noteq> []"
    and name: "resolve_name env ctx ino = Some (base, ctx1)"
    and dd: "dedup_ok ctx" "recovered_extents ctx \<noteq> None"
  obtains c' where "recover_inode_from_journal env ctx ino j seq = Some (finish_output env c' (tmpname_d0 ino) base
      (sum_list (map (\<lambda>e. unat (init_len (ee_len e))) es)) (inode_size64 j))"
    and "files c' = (files ctx)(tmpname_d0 ino \<mapsto> foldl (write_extent dev (blocksize ctx)) [] es)"
    and "dedup_blocks c' = dedup_blocks ctx \<union> (\<Union>e \<in> set es. extent_blocks e)"
    and "blocksize c' = blocksize ctx" and "0 < sum_list (map (\<lambda>e. unat (init_len (ee_len e))) es)"
proof -
  let ?t = "tmpname_d0 ino" and ?n = "unat (eh_entries (header_at (i_block j)))"
  let ?f = "foldl (write_extent dev (blocksize ctx)) [] es"
  let ?k = "sum_list (map (\<lambda>e. unat (init_len (ee_len e))) es)"
  obtain ns where n: "ctx1 = ctx\<lparr>names := ns\<rparr>" using name(1) by (auto simp: resolve_name_def Let_def)
  let ?c = "ctx1\<lparr>files := (files ctx1)(?t \<mapsto> [])\<rparr>"
  obtain c' where c': "leaf_copy_loop env ?t (i_block j) [0..<?n] ?c [] = Some (c', map (init_len \<circ> ee_len) es)"
    "wrote dev ?t es ?c c'"
    using leaf_copy_wrote [OF io(1) ext(1) [unfolded extents_at_def], of ?c ?t "[]"] io(2) n ext(2) by auto
  have k: "blocks_of (map (init_len \<circ> ee_len) es) = ?k" by (simp add: blocks_of_def comp_def)
  have op: "open_trunc env ctx1 ?t = Some ?c" using io(3) by (simp add: open_trunc_def)
  have "recover_depth0 env ctx ino j [0..<?n] = Some (finish_output env c' ?t base ?k (inode_size64 j))"
    using dd(2) live name op c'(1) k by (auto simp: recover_depth0_def via_temp_def)
  moreover have "recover_inode_from_journal env ctx ino j seq = recover_depth0 env ctx ino j [0..<?n]"
    using hdr by (auto simp: recover_inode_from_journal_def Let_def not_less)
  moreover have "files c' k = ((files ctx)(?t \<mapsto> ?f)) k" for k
    using c'(2) n by (cases "k = ?t") (auto simp: wrote_def touches_def)
  then have "files c' = (files ctx)(?t \<mapsto> ?f)" by (rule HOL.ext)
  moreover have "0 < ?k"
  proof -
    obtain e where e: "e \<in> set es" using ext(3) by (cases es) auto
    then have "copyable (total_blocks ctx) e" using ext(2) by simp
    then have "0 < unat (init_len (ee_len e))" by (simp add: copyable_def counts_def unat_gt_0)
    moreover have "unat (init_len (ee_len e)) \<le> ?k" using e by (intro member_le_sum_list) auto
    ultimately show ?thesis by simp
  qed
  moreover have "dedup_blocks c' = dedup_blocks ctx \<union> (\<Union>e \<in> set es. extent_blocks e)"
    using c'(2) dd n by (auto simp: wrote_def frame_simps)
  moreover have "blocksize c' = blocksize ctx" using wrote_frame [OF c'(2)] n by simp
  ultimately show ?thesis using that by simp
qed

text \<open>Property C8: a journalled inode of depth 0 is recovered exactly.  If the copy is live (links > 0), the
  deduplication set is present and the copy has an extent on the device, the output becomes the extents
  written at their logical offsets, cut to the recorded size when that is smaller than the data
  copied; the temporary file is gone, no other file changes, and the blocks are recorded.\<close>

theorem recover_inode_from_journal_exact:
  assumes io: "io_ok env dev" "unat (total_blocks ctx) * blocksize ctx \<le> length dev"
      "\<And>n. out_open env n" "\<And>a b. out_rename env a b" "\<And>a k. out_truncate env a k"
    and hdr: "eh_magic (header_at (i_block j)) = EXT4_EXT_MAGIC" "eh_depth (header_at (i_block j)) = 0"
      "eh_entries (header_at (i_block j)) \<le> eh_max (header_at (i_block j))" "eh_max (header_at (i_block j)) \<le> 4"
      "eh_entries (header_at (i_block j)) \<noteq> 0"
    and live: "i_links_count j \<noteq> 0"
    and ext: "extents_at (i_block j) (unat (eh_entries (header_at (i_block j)))) = Some xs"
      "es = filter (copyable (total_blocks ctx)) xs" "es \<noteq> []"
    and name: "resolve_name env ctx ino = Some (base, ctx1)" "base \<noteq> tmpname_d0 ino"
    and dd: "dedup_ok ctx" "recovered_extents ctx \<noteq> None"
  shows "\<exists>ctx'. recover_inode_from_journal env ctx ino j seq = Some (0, ctx') \<and>
     files ctx' = (files ctx)(tmpname_d0 ino := None, base \<mapsto>
       (let f = foldl (write_extent dev (blocksize ctx)) [] es; sz = unat (inode_size64 j);
            n = sum_list (map (\<lambda>e. unat (init_len (ee_len e))) es)
        in if 0 < sz \<and> sz < n * blocksize ctx then take sz (f @ replicate (sz - length f) 0) else f)) \<and>
     dedup_blocks ctx' = dedup_blocks ctx \<union> (\<Union>e \<in> set es. extent_blocks e)"
proof -
  let ?t = "tmpname_d0 ino" and ?k = "sum_list (map (\<lambda>e. unat (init_len (ee_len e))) es)"
  let ?f = "foldl (write_extent dev (blocksize ctx)) [] es" and ?sz = "unat (inode_size64 j)"
  obtain c' where c': "recover_inode_from_journal env ctx ino j seq = Some (finish_output env c' ?t base ?k (inode_size64 j))"
    "files c' = (files ctx)(?t \<mapsto> ?f)" "dedup_blocks c' = dedup_blocks ctx \<union> (\<Union>e \<in> set es. extent_blocks e)"
    "blocksize c' = blocksize ctx" "0 < ?k"
    by (rule depth0_filled [OF io(1-3) hdr live ext name(1) dd])
  define c2 where "c2 = (if 0 < ?sz \<and> ?sz < ?k * blocksize ctx
      then c'\<lparr>files := (files ctx)(?t \<mapsto> take ?sz (?f @ replicate (?sz - length ?f) 0))\<rparr> else c')"
  define res where "res = c2\<lparr>files := (files c2)(?t := None, base \<mapsto> the (files c2 ?t)), journal_recovered := journal_recovered c2 + 1\<rparr>"
  have "finish_output env c' ?t base ?k (inode_size64 j) = (0, res)"
    using c' io(4,5)
    by (auto simp: finish_output_def truncate_file_def rename_file_def c2_def res_def Let_def unat_gt_0 word_less_nat_alt)
  moreover have "files res = (files ctx)(?t := None, base \<mapsto>
       (if 0 < ?sz \<and> ?sz < ?k * blocksize ctx then take ?sz (?f @ replicate (?sz - length ?f) 0) else ?f))"
    using c'(2) name(2) by (auto simp: res_def c2_def)
  moreover have "dedup_blocks res = dedup_blocks c'"
    by (simp add: res_def c2_def dedup_blocks_def)
  ultimately show ?thesis using c'(1,3) by (intro exI [of _ res]) (simp add: Let_def)
qed

theorem recover_inode_from_journal_exact_witness:
  "\<exists>ctx'. recover_inode_from_journal tree_env (base_ctx 24 3) 7 leaf_inode 4 = Some (0, ctx') \<and>
     files ctx' = [''7_file'' \<mapsto> [1, 2, 3, 4, 5]] \<and> dedup_blocks ctx' = {2}"
proof -
  have b: "blocksize (base_ctx 24 3) = 24" "total_blocks (base_ctx 24 3) = 3" "files (base_ctx 24 3) = Map.empty"
    by (simp_all add: base_ctx_def)
  have cp: "copyable 3 tree_extent" by (simp add: copyable_def counts_def tree_extent_def ee_phys_def init_len_def)
  have nm: "''7_file'' \<noteq> tmpname_d0 7" by (simp add: tmpname_d0_def)
  have il: "init_len (ee_len tree_extent) = 1" by (simp add: tree_extent_def init_len_def)
  have dat: "take 5 (map of_nat [1..<25]) = ([1, 2, 3, 4, 5] :: buffer)" by (simp add: upt_rec)
  have ln: "length (map of_nat [1..<25] :: buffer) = 24" by simp
  have em: "\<And>n. out_open tree_env n" "\<And>a b. out_rename tree_env a b" "\<And>a k. out_truncate tree_env a k"
    by (simp_all add: tree_env_def ideal_env_def)
  obtain ctx' where
    "recover_inode_from_journal tree_env (base_ctx 24 3) 7 leaf_inode 4 = Some (0, ctx')"
    "files ctx' = [''7_file'' \<mapsto> take 5 (map of_nat [1..<25])]" "dedup_blocks ctx' = {2}"
    using recover_inode_from_journal_exact [OF tree_env_ok(1) _ em _ _ _ _ _ _ _ refl _ tree_names nm,
        of leaf_inode "[tree_extent]" 4]
      leaf_inode_facts tree_example base_ctx_dedup [of 24 3] b cp il ln
    by (auto simp: Let_def simp del: length_map length_upt)
  then show ?thesis using dat by auto
qed

text \<open>A failed promotion loses the blocks for the later phases: the temporary file is unlinked and
  the call reports an error, so the copy is in no file, but its blocks stay in the deduplication set
  (\<open>recover_block_to_file\<close> recorded them as they were written) and the scans that follow skip them.\<close>

theorem recover_inode_rename_fails:
  assumes io: "io_ok env dev" "unat (total_blocks ctx) * blocksize ctx \<le> length dev" "\<And>n. out_open env n"
    and hdr: "eh_magic (header_at (i_block j)) = EXT4_EXT_MAGIC" "eh_depth (header_at (i_block j)) = 0"
      "eh_entries (header_at (i_block j)) \<le> eh_max (header_at (i_block j))" "eh_max (header_at (i_block j)) \<le> 4"
      "eh_entries (header_at (i_block j)) \<noteq> 0"
    and live: "i_links_count j \<noteq> 0"
    and ext: "extents_at (i_block j) (unat (eh_entries (header_at (i_block j)))) = Some xs"
      "es = filter (copyable (total_blocks ctx)) xs" "es \<noteq> []"
    and name: "resolve_name env ctx ino = Some (base, ctx1)"
    and dd: "dedup_ok ctx" "recovered_extents ctx \<noteq> None"
    and ren: "\<And>a b. \<not> out_rename env a b"
  shows "\<exists>ctx'. recover_inode_from_journal env ctx ino j seq = Some (-1, ctx') \<and>
     files ctx' = (files ctx)(tmpname_d0 ino := None) \<and>
     dedup_blocks ctx' = dedup_blocks ctx \<union> (\<Union>e \<in> set es. extent_blocks e)"
proof -
  obtain c' where c': "recover_inode_from_journal env ctx ino j seq = Some (finish_output env c' (tmpname_d0 ino) base
      (sum_list (map (\<lambda>e. unat (init_len (ee_len e))) es)) (inode_size64 j))"
    "files c' = (files ctx)(tmpname_d0 ino \<mapsto> foldl (write_extent dev (blocksize ctx)) [] es)"
    "dedup_blocks c' = dedup_blocks ctx \<union> (\<Union>e \<in> set es. extent_blocks e)"
    "0 < sum_list (map (\<lambda>e. unat (init_len (ee_len e))) es)"
    by (rule depth0_filled [OF io hdr live ext name dd])
  then show ?thesis using ren
    by (auto simp: finish_output_def truncate_file_def rename_file_def unlink_def dedup_blocks_def Let_def)
qed

theorem recover_inode_rename_fails_witness:
  "\<exists>ctx'. recover_inode_from_journal (tree_env\<lparr>out_rename := \<lambda>_ _. False\<rparr>) (base_ctx 24 3) 7 leaf_inode 4 = Some (-1, ctx') \<and>
     files ctx' = Map.empty \<and> dedup_blocks ctx' = {2}"
proof -
  let ?e = "tree_env\<lparr>out_rename := \<lambda>_ _. False\<rparr>"
  have b: "blocksize (base_ctx 24 3) = 24" "total_blocks (base_ctx 24 3) = 3" "files (base_ctx 24 3) = Map.empty"
    by (simp_all add: base_ctx_def)
  have cp: "copyable 3 tree_extent" by (simp add: copyable_def counts_def tree_extent_def ee_phys_def init_len_def)
  have nm: "resolve_name ?e (base_ctx 24 3) 7 = Some (''7_file'', base_ctx 24 3)"
    using tree_names by (simp add: resolve_name_def Let_def)
  have io: "io_ok ?e tree_dev" using tree_env_ok(1) by (simp add: io_ok_def dev_faithful_def out_faithful_def)
  have em: "\<And>n. out_open ?e n" "\<And>a b. \<not> out_rename ?e a b" by (simp_all add: tree_env_def ideal_env_def)
  show ?thesis
    using recover_inode_rename_fails [OF io _ em(1) _ _ _ _ _ _ _ refl _ nm _ _ em(2), of leaf_inode "[tree_extent]" 4]
      leaf_inode_facts tree_example base_ctx_dedup [of 24 3] b cp
    by (auto simp del: length_map length_upt)
qed

text \<open>A promotion that fails after all extents were copied: the older output survives.\<close>

theorem recover_inode_from_journal_atomic_witness:
  "\<exists>ctx'. recover_inode_from_journal (tree_env\<lparr>out_rename := \<lambda>_ _. False\<rparr>) ((base_ctx 24 3)\<lparr>files := [''7_file'' \<mapsto> [9]]\<rparr>) 7 leaf_inode 4 =
       Some (-1, ctx') \<and> files ctx' ''7_file'' = Some [9] \<and> dedup_blocks ctx' = {2}"
proof -
  let ?e = "tree_env\<lparr>out_rename := \<lambda>_ _. False\<rparr>" and ?c = "(base_ctx 24 3)\<lparr>files := [''7_file'' \<mapsto> [9]]\<rparr>"
  have b: "blocksize (base_ctx 24 3) = 24" "total_blocks (base_ctx 24 3) = 3"
    by (simp_all add: base_ctx_def)
  have cp: "copyable 3 tree_extent" by (simp add: copyable_def counts_def tree_extent_def ee_phys_def init_len_def)
  have nm: "resolve_name ?e ?c 7 = Some (''7_file'', ?c)"
    using tree_names by (auto simp: resolve_name_def Let_def base_ctx_def split: option.splits prod.splits)
  have io: "io_ok ?e tree_dev" using tree_env_ok(1) by (simp add: io_ok_def dev_faithful_def out_faithful_def)
  have em: "\<And>n. out_open ?e n" "\<And>a b. \<not> out_rename ?e a b" by (simp_all add: tree_env_def ideal_env_def)
  have dd: "dedup_ok ?c" "recovered_extents ?c \<noteq> None" "dedup_blocks ?c = {}"
    using base_ctx_dedup [of 24 3] by (simp_all add: dedup_ok_def dedup_blocks_def base_ctx_def)
  have "\<exists>ctx'. recover_inode_from_journal ?e ?c 7 leaf_inode 4 = Some (-1, ctx') \<and>
      files ctx' = (files ?c)(tmpname_d0 7 := None) \<and> dedup_blocks ctx' = dedup_blocks ?c \<union> (\<Union>e \<in> set [tree_extent]. extent_blocks e)"
    by (rule recover_inode_rename_fails [OF io _ em(1) _ _ _ _ _ _ _ _ _ nm dd(1,2) em(2)])
      (use leaf_inode_facts tree_example b cp in \<open>auto simp del: length_map length_upt\<close>)
  then obtain ctx' where r: "recover_inode_from_journal ?e ?c 7 leaf_inode 4 = Some (-1, ctx')" "dedup_blocks ctx' = extent_blocks tree_extent"
    by (auto simp: dd(3))
  have "''7_file'' \<noteq> tmpname_ml 7" "''7_file'' \<noteq> tmpname_d0 7" by (simp_all add: tmpname_ml_def tmpname_d0_def)
  from recover_inode_from_journal_atomic [OF r(1) this] show ?thesis using r tree_example by auto
qed

text \<open>In-inode extents never leave the inode.  For every 60-byte \<open>i_block\<close>, any device
  and any allocation outcome, a copy of depth 0 is processed without reading outside the array.\<close>

theorem recover_inode_depth0_defined:
  assumes "length (i_block j) = 60" and "eh_depth (header_at (i_block j)) = 0"
    and "resolve_name env ctx ino \<noteq> None"
  shows "recover_inode_from_journal env ctx ino j seq \<noteq> None"
proof -
  let ?n = "unat (eh_entries (header_at (i_block j)))"
  have "recover_depth0 env ctx ino j [0..<?n] \<noteq> None" if "?n \<le> 4"
  proof -
    have ok: "\<forall>k \<in> set [0..<?n]. extent_at (i_block j) k \<noteq> None"
      using assms(1) that by (auto simp: extent_at_def Let_def)
    have "via_temp env ctx ino (tmpname_d0 ino)
        (\<lambda>ctx. leaf_copy_loop env (tmpname_d0 ino) (i_block j) [0..<?n] ctx []) (inode_size64 j) \<noteq> None"
      by (rule via_temp_defined [OF leaf_copy_defined [OF ok] assms(3)])
    moreover obtain tot fully where "(case recovered_extents ctx of
        Some ri \<Rightarrow> if i_links_count j = 0 then cover_loop ri (i_block j) [0..<?n] (0, 0) else Some (0, 0)
      | None \<Rightarrow> Some (0, 0)) = Some (tot, fully)"
      using cover_loop_total [OF ok, of _ "(0, 0)"] by (fastforce split: option.split)
    ultimately show ?thesis by (simp add: recover_depth0_def)
  qed
  then show ?thesis
    using assms(2) header_guard [of "eh_max (header_at (i_block j))" "eh_entries (header_at (i_block j))"]
    by (auto simp: recover_inode_from_journal_def Let_def)
qed

theorem recover_inode_depth0_defined_witness:
  "recover_inode_from_journal (ideal_env []) (base_ctx 24 3) 7 leaf_inode 4 \<noteq> None"
proof -
  have "resolve_name (ideal_env []) (base_ctx 24 3) 7 \<noteq> None"
    by (simp add: resolve_name_def resolve_output_name_def get_filename_for_inode_def base_ctx_def no_names_def Let_def)
  then show ?thesis
    using recover_inode_depth0_defined [of leaf_inode "ideal_env []" "base_ctx 24 3" 7 4] leaf_inode_facts by simp
qed

text \<open>Leaves reached through an index are not protected.  The leaf loops of the
  multi-level recovery take the entry count from the block itself, without
  \<open>validate_extent_header\<close>: any block whose header announces more entries than fit, which the validator
  rejects, makes the loop read outside the buffer.\<close>

theorem journal_leaf_overrun:
  assumes "12 \<le> length buf" and "(length buf - 12) div 12 < unat (eh_entries (header_at buf))"
  shows "leaf_copy_loop env fd buf [0..<unat (eh_entries (header_at buf))] ctx acc = None \<and>
     \<not> validate_extent_header (Some (header_at buf)) (int (length buf))"
proof
  let ?k = "(length buf - 12) div 12"
  have "12 + 12 * ?k + 12 > length buf" using assms(1) by (simp add: div_mult_mod_eq)
  then have "extent_at buf ?k = None" by (simp add: extent_at_def Let_def)
  then show "leaf_copy_loop env fd buf [0..<unat (eh_entries (header_at buf))] ctx acc = None"
    using assms(2) by (intro leaf_copy_undefined bexI [of _ ?k]) auto
  show "\<not> validate_extent_header (Some (header_at buf)) (int (length buf))"
  proof
    assume "validate_extent_header (Some (header_at buf)) (int (length buf))"
    then have "12 + 12 * unat (eh_entries (header_at buf)) \<le> length buf" by (rule validate_entries_fit [OF _ assms(1)])
    moreover have "12 * (?k + 1) \<le> 12 * unat (eh_entries (header_at buf))" using assms(2) by simp
    ultimately show False using \<open>12 + 12 * ?k + 12 > length buf\<close> by simp
  qed
qed

theorem journal_leaf_overrun_witness:
  "leaf_copy_loop (ideal_env []) ''.7_tmp'' (le_bytes 2 0xF30A @ le_bytes 2 2 @ replicate 20 0) [0..<2] (base_ctx 24 3) [] = None"
proof -
  let ?b = "le_bytes 2 0xF30A @ le_bytes 2 2 @ replicate 20 0 :: buffer"
  have "length ?b = 24" "eh_entries (header_at ?b) = 2" by (simp_all add: header_at_def le16_at_def sub_buf_def)
  then show ?thesis using journal_leaf_overrun [of ?b "ideal_env []" "''.7_tmp''" "base_ctx 24 3" "[]"] by simp
qed

end
