(* ===== verification/Journal_Versions.thy ===== *)
theory Journal_Versions
  imports Prelude
begin

text \<open>
  The selection among the journalled copies of an inode (\<open>should_skip_version\<close> and
  \<open>mark_version\<close> of \<^verbatim>\<open>journal_recovery_v5.c\<close>).  The four parallel arrays
  \<open>recovered_inodes\<close>, \<open>recovered_sizes\<close>, \<open>recovered_seqs\<close>, \<open>recovered_live\<close> with their
  common count are modelled as one list of records.
\<close>

section \<open>The tracked versions\<close>

record tracked =
  rv_ino :: u32
  rv_size :: u64
  rv_seq :: u32
  rv_live :: bool

definition MAX_RECOVERED_INODES :: nat where
  "MAX_RECOVERED_INODES = 65536"

primrec should_skip_version :: "tracked list \<Rightarrow> u32 \<Rightarrow> u32 \<Rightarrow> u64 \<Rightarrow> bool \<Rightarrow> bool" where
  "should_skip_version [] ino seq sz is_live = False"
| "should_skip_version (e # es) ino seq sz is_live =
     (if rv_ino e = ino then
        (if is_live \<and> rv_live e then rv_seq e \<ge> seq
         else if is_live \<and> \<not> rv_live e then False
         else if \<not> is_live \<and> rv_live e then True
         else rv_size e \<ge> sz)
      else should_skip_version es ino seq sz is_live)"

text \<open>The loop of \<open>mark_version\<close>; \<open>None\<close> if the inode is not tracked yet.\<close>

primrec mark_loop :: "tracked list \<Rightarrow> u32 \<Rightarrow> u64 \<Rightarrow> u32 \<Rightarrow> bool \<Rightarrow> tracked list option" where
  "mark_loop [] ino sz seq is_live = None"
| "mark_loop (e # es) ino sz seq is_live =
     (if rv_ino e = ino then
        Some ((if is_live \<and> \<not> rv_live e
               then e\<lparr>rv_live := True, rv_size := sz, rv_seq := seq\<rparr>
               else e\<lparr>rv_size := (if sz > rv_size e then sz else rv_size e),
                      rv_seq := (if seq > rv_seq e then seq else rv_seq e)\<rparr>) # es)
      else map_option (Cons e) (mark_loop es ino sz seq is_live))"

definition mark_version :: "tracked list \<Rightarrow> u32 \<Rightarrow> u64 \<Rightarrow> u32 \<Rightarrow> bool \<Rightarrow> tracked list" where
  "mark_version vs ino sz seq is_live =
     (case mark_loop vs ino sz seq is_live of
        Some vs' \<Rightarrow> vs'
      | None \<Rightarrow> if length vs < MAX_RECOVERED_INODES
                then vs @ [\<lparr>rv_ino = ino, rv_size = sz, rv_seq = seq, rv_live = is_live\<rparr>]
                else vs)"

section \<open>Lookup\<close>

definition tracked_of :: "tracked list \<Rightarrow> u32 \<Rightarrow> tracked option" where
  "tracked_of vs ino = find (\<lambda>e. rv_ino e = ino) vs"

definition skips :: "tracked \<Rightarrow> u32 \<Rightarrow> u64 \<Rightarrow> bool \<Rightarrow> bool" where
  "skips e seq sz is_live \<longleftrightarrow>
     (if rv_live e then (is_live \<longrightarrow> rv_seq e \<ge> seq) else \<not> is_live \<and> rv_size e \<ge> sz)"

lemma should_skip_tracked:
  "should_skip_version vs ino seq sz is_live =
     (case tracked_of vs ino of None \<Rightarrow> False | Some e \<Rightarrow> skips e seq sz is_live)"
  by (induction vs) (auto simp: tracked_of_def skips_def)

definition marked :: "tracked \<Rightarrow> u64 \<Rightarrow> u32 \<Rightarrow> bool \<Rightarrow> tracked" where
  "marked e sz seq is_live =
     (if is_live \<and> \<not> rv_live e then e\<lparr>rv_live := True, rv_size := sz, rv_seq := seq\<rparr>
      else e\<lparr>rv_size := (if sz > rv_size e then sz else rv_size e),
             rv_seq := (if seq > rv_seq e then seq else rv_seq e)\<rparr>)"

lemma rv_ino_marked [simp]: "rv_ino (marked e sz seq is_live) = rv_ino e"
  by (simp add: marked_def)

lemma tracked_Cons: "tracked_of (e # es) j = (if rv_ino e = j then Some e else tracked_of es j)"
  by (simp add: tracked_of_def)

lemma mark_loop_tracked:
  "case mark_loop vs ino sz seq is_live of
     None \<Rightarrow> tracked_of vs ino = None
   | Some vs' \<Rightarrow> (\<exists>e. tracked_of vs ino = Some e \<and> tracked_of vs' ino = Some (marked e sz seq is_live)) \<and>
       (\<forall>j. j \<noteq> ino \<longrightarrow> tracked_of vs' j = tracked_of vs j) \<and> map rv_ino vs' = map rv_ino vs"
proof (induction vs)
  case (Cons e es)
  have hit: "mark_loop (e # es) ino sz seq is_live = Some (marked e sz seq is_live # es)" if "rv_ino e = ino"
    using that by (simp add: marked_def)
  show ?case
  proof (cases "rv_ino e = ino")
    case True
    then show ?thesis unfolding hit [OF True] by (simp add: tracked_Cons)
  next
    case False
    then show ?thesis using Cons by (cases "mark_loop es ino sz seq is_live") (simp_all add: tracked_Cons)
  qed
qed (simp add: tracked_of_def)

lemma tracked_append:
  "tracked_of (vs @ [e]) j = (case tracked_of vs j of None \<Rightarrow> if rv_ino e = j then Some e else None | Some x \<Rightarrow> Some x)"
  by (induction vs) (auto simp: tracked_of_def)

lemma mark_version_tracked:
  assumes "tracked_of vs ino = None \<longrightarrow> length vs < MAX_RECOVERED_INODES"
  shows "tracked_of (mark_version vs ino sz seq is_live) j =
    (if j = ino then Some (case tracked_of vs ino of
        None \<Rightarrow> \<lparr>rv_ino = ino, rv_size = sz, rv_seq = seq, rv_live = is_live\<rparr>
      | Some e \<Rightarrow> marked e sz seq is_live)
     else tracked_of vs j)"
proof (cases "mark_loop vs ino sz seq is_live")
  case None
  then have "tracked_of vs ino = None" using mark_loop_tracked [of vs ino sz seq is_live] by simp
  then show ?thesis using assms None by (auto simp: mark_version_def tracked_append split: option.splits)
next
  case (Some vs')
  then show ?thesis
    using mark_loop_tracked [of vs ino sz seq is_live] by (auto simp: mark_version_def)
qed

lemma mark_version_inos:
  "rv_ino ` set (mark_version vs ino sz seq is_live) \<subseteq> insert ino (rv_ino ` set vs) \<and>
   (distinct (map rv_ino vs) \<longrightarrow> distinct (map rv_ino (mark_version vs ino sz seq is_live)))"
proof (cases "mark_loop vs ino sz seq is_live")
  case None
  then have "ino \<notin> rv_ino ` set vs"
    using mark_loop_tracked [of vs ino sz seq is_live] by (auto simp: tracked_of_def find_None_iff)
  then show ?thesis using None by (auto simp: mark_version_def)
next
  case (Some vs')
  then have "map rv_ino vs' = map rv_ino vs"
    using mark_loop_tracked [of vs ino sz seq is_live] by simp
  then show ?thesis using Some by (simp add: mark_version_def) (metis list.set_map subset_insertI)
qed

section \<open>Version selection over a whole scan\<close>

record version =
  v_ino :: u32
  v_seq :: u32
  v_size :: u64
  v_live :: bool

text \<open>
  A trace lists the candidates in the order of the scan, each with what happened to it: \<open>None\<close> if it was skipped, otherwise the
  value that \<open>recover_inode_from_journal\<close> returned, 0 if the output was written, 1 if all its data were there already, -1 if
  it failed.  \<open>after\<close> is what \<open>process_inode_table_block\<close> does to the arrays then.
\<close>

type_synonym attempt = "version \<times> int option"

definition skip_of :: "tracked list \<Rightarrow> version \<Rightarrow> bool" where
  "skip_of vs c = should_skip_version vs (v_ino c) (v_seq c) (v_size c) (v_live c)"

definition after :: "tracked list \<Rightarrow> attempt \<Rightarrow> tracked list" where
  "after vs x =
     (case x of (c, None) \<Rightarrow> vs
      | (c, Some r) \<Rightarrow>
          if r = 0 then mark_version vs (v_ino c) (v_size c) (v_seq c) (v_live c)
          else if r = 1 then mark_version vs (v_ino c) 0 (v_seq c) (v_live c)
          else vs)"

primrec selects :: "tracked list \<Rightarrow> attempt list \<Rightarrow> bool" where
  "selects vs [] \<longleftrightarrow> True"
| "selects vs (x # xs) \<longleftrightarrow> (snd x = None \<longleftrightarrow> skip_of vs (fst x)) \<and> selects (after vs x) xs"

definition of_ino :: "u32 \<Rightarrow> attempt list \<Rightarrow> attempt list" where
  "of_ino ino xs = filter (\<lambda>x. v_ino (fst x) = ino) xs"

definition written :: "attempt list \<Rightarrow> version list" where
  "written xs = map fst (filter (\<lambda>x. snd x = Some 0) xs)"

text \<open>
  The rule for one inode: a copy is skipped only if one was written; the copy written last, which is the output, is live if
  a live copy was written at all, and then no live copy that could be recovered has a higher sequence; otherwise no live copy could
  be recovered, and no other copy that could, and was not redundant, is larger.
\<close>

definition best_live :: "attempt list \<Rightarrow> version \<Rightarrow> bool" where
  "best_live xs b \<longleftrightarrow> v_live b \<and> (\<forall>x \<in> set xs. v_live (fst x) \<longrightarrow> snd x = Some (-1) \<or> v_seq (fst x) \<le> v_seq b)"

definition largest :: "attempt list \<Rightarrow> version \<Rightarrow> bool" where
  "largest xs b \<longleftrightarrow> (\<forall>x \<in> set xs. if v_live (fst x) then snd x = Some (-1)
     else snd x \<in> {Some (-1), Some 1} \<or> v_size (fst x) \<le> v_size b)"

definition selected :: "attempt list \<Rightarrow> bool" where
  "selected xs \<longleftrightarrow>
     (if written xs = [] then \<forall>x \<in> set xs. snd x \<noteq> None
      else if \<exists>w \<in> set (written xs). v_live w then best_live xs (last (written xs))
      else largest xs (last (written xs)))"

text \<open>The recovery returns 1 only for a copy without links, and candidates are not empty.\<close>

definition attempt_ok :: "attempt \<Rightarrow> bool" where
  "attempt_ok x \<longleftrightarrow> 0 < v_size (fst x) \<and> snd x \<in> {None, Some (-1), Some 0, Some 1} \<and> (snd x = Some 1 \<longrightarrow> \<not> v_live (fst x))"

definition agrees :: "tracked \<Rightarrow> version \<Rightarrow> bool" where
  "agrees e b \<longleftrightarrow> rv_live e = v_live b \<and> (if v_live b then rv_seq e = v_seq b else rv_size e = v_size b)"

text \<open>What the arrays know about the attempts \<open>xs\<close> on one inode.\<close>

definition knows :: "attempt list \<Rightarrow> tracked option \<Rightarrow> bool" where
  "knows xs tr \<longleftrightarrow>
     (case tr of
        None \<Rightarrow> \<forall>x \<in> set xs. snd x = Some (-1)
      | Some e \<Rightarrow>
          if written xs = [] then \<not> rv_live e \<and> rv_size e = 0 \<and> (\<forall>x \<in> set xs. snd x \<in> {Some (-1), Some 1})
          else agrees e (last (written xs)) \<and>
            (if rv_live e then best_live xs (last (written xs))
             else (\<forall>w \<in> set (written xs). \<not> v_live w) \<and> largest xs (last (written xs))))"

lemma written_snoc: "written (xs @ [(c, r)]) = (if r = Some 0 then written xs @ [c] else written xs)"
  by (simp add: written_def)

lemma written_set: "w \<in> set (written xs) \<longleftrightarrow> (w, Some 0) \<in> set xs"
  by (force simp: written_def)

lemma written_none: "\<forall>x \<in> set xs. snd x = Some (-1) \<Longrightarrow> written xs = []"
  by (auto simp: written_def filter_empty_conv)

lemma best_snoc:
  "best_live (xs @ [x]) b \<longleftrightarrow> best_live xs b \<and> (v_live (fst x) \<longrightarrow> snd x = Some (-1) \<or> v_seq (fst x) \<le> v_seq b)"
  "largest (xs @ [x]) b \<longleftrightarrow> largest xs b \<and> (if v_live (fst x) then snd x = Some (-1) else snd x \<in> {Some (-1), Some 1} \<or> v_size (fst x) \<le> v_size b)"
  by (auto simp: best_live_def largest_def)

lemma knows_selected:
  assumes "knows xs tr"
  shows "selected xs"
proof (cases "written xs = []")
  case True
  then show ?thesis using assms by (auto simp: knows_def selected_def split: option.splits)
next
  case False
  then obtain e where e: "tr = Some e" using assms written_none by (cases tr) (auto simp: knows_def)
  have "(\<exists>w \<in> set (written xs). v_live w) \<longleftrightarrow> rv_live e"
    using assms False e last_in_set [OF False] by (auto simp: knows_def agrees_def best_live_def split: if_splits)
  then show ?thesis using assms False e by (simp add: knows_def selected_def split: if_splits)
qed

definition tracked_after :: "tracked option \<Rightarrow> attempt \<Rightarrow> tracked option" where
  "tracked_after tr x =
     (let new = (\<lambda>c sz. Some (case tr of None \<Rightarrow> \<lparr>rv_ino = v_ino c, rv_size = sz, rv_seq = v_seq c, rv_live = v_live c\<rparr>
                          | Some e \<Rightarrow> marked e sz (v_seq c) (v_live c)))
      in case x of (c, None) \<Rightarrow> tr
         | (c, Some r) \<Rightarrow> if r = 0 then new c (v_size c) else if r = 1 then new c 0 else tr)"

lemma knows_skip:
  assumes k: "knows xs (Some e)" and s: "skips e (v_seq c) (v_size c) (v_live c)" and ok: "attempt_ok (c, None)"
  shows "knows (xs @ [(c, None)]) (Some e)"
proof -
  have w: "written xs \<noteq> []" using k s ok by (auto simp: knows_def skips_def attempt_ok_def)
  show ?thesis
  proof (cases "rv_live e")
    case True
    then have "v_live (last (written xs))" "rv_seq e = v_seq (last (written xs))" "best_live xs (last (written xs))"
      using k w by (auto simp: knows_def agrees_def best_live_def)
    then show ?thesis using k w s True by (simp add: knows_def written_snoc best_snoc skips_def)
  next
    case False
    then have "\<not> v_live (last (written xs))" "rv_size e = v_size (last (written xs))"
      using k w by (auto simp: knows_def agrees_def)
    then show ?thesis using k w s False by (simp add: knows_def written_snoc best_snoc skips_def)
  qed
qed

lemma knows_fail:
  assumes "knows xs tr"
  shows "knows (xs @ [(c, Some (-1))]) tr"
  using assms by (cases tr) (simp_all add: knows_def written_snoc best_snoc split: if_splits)

lemma knows_redundant:
  assumes k: "knows xs tr" and ns: "case tr of None \<Rightarrow> True | Some e \<Rightarrow> \<not> skips e (v_seq c) (v_size c) (v_live c)"
    and nl: "\<not> v_live c"
  shows "knows (xs @ [(c, Some 1)]) (tracked_after tr (c, Some 1))"
proof (cases tr)
  case None
  then show ?thesis using k nl written_none by (auto simp: knows_def tracked_after_def written_snoc)
next
  case (Some e)
  then have "\<not> rv_live e" using ns nl by (auto simp: skips_def)
  moreover have "rv_live (marked e 0 q False) = rv_live e" "rv_size (marked e 0 q False) = rv_size e" for q
    by (simp_all add: marked_def)
  ultimately show ?thesis
    using k nl Some by (simp add: knows_def tracked_after_def written_snoc best_snoc agrees_def split: if_splits)
qed

lemma knows_write:
  assumes k: "knows xs tr" and ns: "case tr of None \<Rightarrow> True | Some e \<Rightarrow> \<not> skips e (v_seq c) (v_size c) (v_live c)"
    and ok: "\<forall>x \<in> set xs. attempt_ok x"
  shows "knows (xs @ [(c, Some 0)]) (tracked_after tr (c, Some 0))"
proof (cases tr)
  case None
  then have "best_live xs c \<or> \<not> v_live c" "largest xs c" "written xs = []"
    using k written_none by (auto simp: knows_def best_live_def largest_def)
  then show ?thesis using None by (auto simp: knows_def tracked_after_def written_snoc best_snoc agrees_def)
next
  case (Some e)
  show ?thesis
  proof (cases "v_live c")
    case True
    have "best_live xs c"
    proof (cases "written xs = []")
      case none: True
      then have "snd x \<in> {Some (-1), Some 1}" if "x \<in> set xs" for x using k Some that by (simp add: knows_def)
      then show ?thesis using ok True by (auto simp: best_live_def attempt_ok_def)
    next
      case False
      then show ?thesis
        using k ns Some True by (auto simp: knows_def best_live_def agrees_def skips_def largest_def split: if_splits)
    qed
    moreover have "agrees (marked e (v_size c) (v_seq c) True) c" "rv_live (marked e (v_size c) (v_seq c) True)"
      using ns Some True by (auto simp: agrees_def marked_def skips_def split: if_splits)
    ultimately show ?thesis using Some True by (simp add: knows_def tracked_after_def written_snoc best_snoc)
  next
    case False
    then have e: "\<not> rv_live e" "rv_size e < v_size c" using ns Some by (auto simp: skips_def split: if_splits)
    have "largest xs c" "\<forall>w \<in> set (written xs). \<not> v_live w"
    proof -
      show "\<forall>w \<in> set (written xs). \<not> v_live w" using k Some e(1) by (auto simp: knows_def split: if_splits)
      show "largest xs c"
      proof (cases "written xs = []")
        case True
        then have "snd x \<in> {Some (-1), Some 1}" if "x \<in> set xs" for x using k Some that by (simp add: knows_def)
        then show ?thesis using ok by (auto simp: largest_def attempt_ok_def)
      next
        case False
        then have "largest xs (last (written xs))" "v_size (last (written xs)) < v_size c"
          using k Some e by (auto simp: knows_def agrees_def split: if_splits)
        then show ?thesis unfolding largest_def by (meson less_imp_le order_trans)
      qed
    qed
    moreover have "agrees (marked e (v_size c) (v_seq c) False) c" "\<not> rv_live (marked e (v_size c) (v_seq c) False)"
      using e False by (auto simp: agrees_def marked_def)
    ultimately show ?thesis using Some False by (simp add: knows_def tracked_after_def written_snoc best_snoc)
  qed
qed

text \<open>All inodes together.\<close>

definition selection_inv :: "attempt list \<Rightarrow> tracked list \<Rightarrow> bool" where
  "selection_inv xs vs \<longleftrightarrow> distinct (map rv_ino vs) \<and> rv_ino ` set vs \<subseteq> v_ino ` fst ` set xs \<and>
     (\<forall>ino. knows (of_ino ino xs) (tracked_of vs ino))"

lemma of_ino_snoc: "of_ino i (xs @ [x]) = (if v_ino (fst x) = i then of_ino i xs @ [x] else of_ino i xs)"
  by (simp add: of_ino_def)

lemma tracked_room:
  assumes inv: "selection_inv xs vs" and cap: "card (v_ino ` fst ` set (xs @ [x])) \<le> MAX_RECOVERED_INODES"
  shows "tracked_of vs (v_ino (fst x)) = None \<longrightarrow> length vs < MAX_RECOVERED_INODES"
proof
  assume none: "tracked_of vs (v_ino (fst x)) = None"
  have "length vs = card (rv_ino ` set vs)"
    using inv by (metis distinct_card length_map list.set_map selection_inv_def)
  moreover have "v_ino (fst x) \<notin> rv_ino ` set vs" using none by (auto simp: tracked_of_def find_None_iff)
  moreover have "rv_ino ` set vs \<subseteq> v_ino ` fst ` set xs" using inv by (simp add: selection_inv_def)
  ultimately have "Suc (length vs) \<le> card (v_ino ` fst ` set (xs @ [x]))"
    using card_mono [of "v_ino ` fst ` set (xs @ [x])" "insert (v_ino (fst x)) (rv_ino ` set vs)"] by (simp add: subset_insertI2)
  with cap show "length vs < MAX_RECOVERED_INODES" by simp
qed

lemma after_tracked:
  assumes "tracked_of vs (v_ino (fst x)) = None \<longrightarrow> length vs < MAX_RECOVERED_INODES"
  shows "tracked_of (after vs x) i = (if i = v_ino (fst x) then tracked_after (tracked_of vs i) x else tracked_of vs i)"
proof -
  obtain c r where "x = (c, r)" by (cases x)
  then show ?thesis
    using mark_version_tracked [of vs "v_ino c"] assms
    by (cases r) (auto simp: after_def tracked_after_def Let_def)
qed

lemma after_inos:
  "rv_ino ` set (after vs x) \<subseteq> insert (v_ino (fst x)) (rv_ino ` set vs)"
  "distinct (map rv_ino vs) \<Longrightarrow> distinct (map rv_ino (after vs x))"
proof -
  obtain c r where x: "x = (c, r)" by (cases x)
  show "rv_ino ` set (after vs x) \<subseteq> insert (v_ino (fst x)) (rv_ino ` set vs)"
    "distinct (map rv_ino vs) \<Longrightarrow> distinct (map rv_ino (after vs x))"
    using mark_version_inos [of vs "v_ino c"] by (auto simp: x after_def simp del: distinct_map split: option.split if_splits)
qed

lemma selection_step:
  assumes inv: "selection_inv xs vs" and ok: "\<forall>x \<in> set xs. attempt_ok x" "attempt_ok x"
    and cap: "card (v_ino ` fst ` set (xs @ [x])) \<le> MAX_RECOVERED_INODES"
    and sel: "snd x = None \<longleftrightarrow> skip_of vs (fst x)"
  shows "selection_inv (xs @ [x]) (after vs x)"
proof -
  obtain c r where x: "x = (c, r)" by (cases x)
  let ?tr = "tracked_of vs (v_ino c)" and ?h = "of_ino (v_ino c) xs"
  have k: "knows ?h ?tr" and h: "\<forall>x \<in> set ?h. attempt_ok x" using inv ok(1) by (simp_all add: selection_inv_def of_ino_def)
  have ns: "(r = None) \<longleftrightarrow> (case ?tr of None \<Rightarrow> False | Some e \<Rightarrow> skips e (v_seq c) (v_size c) (v_live c))"
    using sel by (simp add: x skip_of_def should_skip_tracked)
  have "knows (?h @ [x]) (tracked_after ?tr x)"
  proof (cases r)
    case None
    then obtain e where "?tr = Some e" "skips e (v_seq c) (v_size c) (v_live c)" using ns by (auto split: option.splits)
    then show ?thesis using knows_skip [of ?h e c] k ok(2) x None by (simp add: tracked_after_def)
  next
    case (Some q)
    then have n: "case ?tr of None \<Rightarrow> True | Some e \<Rightarrow> \<not> skips e (v_seq c) (v_size c) (v_live c)"
      using ns by (auto split: option.splits)
    consider "q = -1" | "q = 0" | "q = 1" "\<not> v_live c" using ok(2) x Some by (auto simp: attempt_ok_def)
    then show ?thesis
    proof cases
      case 1
      then show ?thesis using knows_fail [OF k, of c] x Some by (simp add: tracked_after_def)
    next
      case 2
      then show ?thesis using knows_write [OF k n h] x Some by simp
    next
      case 3
      then show ?thesis using knows_redundant [OF k n] x Some by simp
    qed
  qed
  then have "knows (of_ino i (xs @ [x])) (tracked_of (after vs x) i)" for i
    using inv after_tracked [OF tracked_room [OF inv cap], of i] by (simp add: of_ino_snoc x selection_inv_def)
  moreover have "rv_ino ` set (after vs x) \<subseteq> v_ino ` fst ` set (xs @ [x])" "distinct (map rv_ino (after vs x))"
    using after_inos [of vs x] inv unfolding selection_inv_def by (simp_all add: subset_trans [OF _ insert_mono])
  ultimately show ?thesis by (simp add: selection_inv_def)
qed

lemma selection_run:
  assumes "selection_inv xs vs" "selects vs ys" "\<forall>x \<in> set (xs @ ys). attempt_ok x"
    "card (v_ino ` fst ` set (xs @ ys)) \<le> MAX_RECOVERED_INODES"
  shows "\<exists>vs'. selection_inv (xs @ ys) vs'"
  using assms
proof (induction ys arbitrary: xs vs)
  case Nil
  then show ?case by auto
next
  case (Cons y ys)
  have "card (v_ino ` fst ` set (xs @ [y])) \<le> card (v_ino ` fst ` set (xs @ y # ys))" by (intro card_mono) auto
  then have "selection_inv (xs @ [y]) (after vs y)"
    using selection_step [OF Cons.prems(1), of y] Cons.prems(2,3,4) by simp
  then show ?case using Cons.IH [of "xs @ [y]" "after vs y"] Cons.prems(2-4) by simp
qed

lemma selects_best:
  assumes "selects [] xs" "\<forall>x \<in> set xs. attempt_ok x" "card (v_ino ` fst ` set xs) \<le> MAX_RECOVERED_INODES"
  shows "selected (of_ino ino xs)"
proof -
  have "selection_inv [] []" by (simp add: selection_inv_def tracked_of_def knows_def of_ino_def)
  then obtain vs where "selection_inv xs vs" using selection_run [of "[]" "[]" xs] assms by auto
  then have "knows (of_ino ino xs) (tracked_of vs ino)" by (simp add: selection_inv_def)
  then show ?thesis by (rule knows_selected)
qed

end
