(* ===== verification/Indirect_Files.thy ===== *)
theory Indirect_Files
  imports Recover_IO
begin

text \<open>
  Files without an extent tree: data stored in the inode (\<^verbatim>\<open>inline_data.c\<close>) and files of the older
  block-map format with direct, single and double indirect blocks (\<^verbatim>\<open>indirect_recovery.c\<close>).
\<close>

section \<open>Sequential output\<close>

text \<open>\<open>write\<close> at the file position, which is the end of a file that was just truncated.\<close>

definition fd_write :: "env \<Rightarrow> recover_context \<Rightarrow> string \<Rightarrow> buffer \<Rightarrow> int \<times> recover_context" where
  "fd_write env ctx fd bs =
     (let f = (case files ctx fd of None \<Rightarrow> [] | Some f \<Rightarrow> f);
          n = out_pwrite env fd (length f) (length bs)
      in (n, if n > 0 then ctx\<lparr>files := (files ctx)(fd \<mapsto> f @ take (nat n) bs)\<rparr> else ctx))"

section \<open>Inline data\<close>

definition EXT4_INLINE_MAX_BYTES :: nat where "EXT4_INLINE_MAX_BYTES = 60"

definition recover_inline_data :: "env \<Rightarrow> recover_context \<Rightarrow> u32 \<Rightarrow> ext2_inode \<Rightarrow> (int \<times> recover_context) ub" where
  "recover_inline_data env ctx ino jinode =
     (let sz = unat (inode_size64 jinode) in
      if \<not> has_inline_data (caps ctx) then Some (-1, ctx)
      else if i_flags jinode AND EXT4_INLINE_DATA_FL = 0 then Some (-1, ctx)
      else if sz = 0 \<or> sz > EXT4_INLINE_MAX_BYTES then Some (-1, ctx)
      else case resolve_name env ctx ino of None \<Rightarrow> None
      | Some (base, ctx) \<Rightarrow>
          let filename = ''inline_'' @ base in
          if files ctx filename \<noteq> None \<and> stat_size ctx filename \<ge> sz then Some (1, ctx)
          else case open_trunc env ctx filename of None \<Rightarrow> Some (-1, ctx)
          | Some ctx \<Rightarrow>
              case fd_write env ctx filename (take sz (i_block jinode)) of
                (written, ctx) \<Rightarrow>
                  if written \<noteq> int sz then Some (-1, unlink ctx filename)
                  else Some (0, ctx\<lparr>journal_recovered := journal_recovered ctx + 1\<rparr>))"

section \<open>Block maps\<close>

definition MAX_IND_BLOCKS :: nat where "MAX_IND_BLOCKS = 1024 * 1024"

definition ind_block_valid :: "recover_context \<Rightarrow> u32 \<Rightarrow> bool" where
  "ind_block_valid ctx blk \<longleftrightarrow> blk > 0 \<and> ucast blk < total_blocks ctx"

definition ind_read :: "env \<Rightarrow> recover_context \<Rightarrow> u32 \<Rightarrow> buffer option" where
  "ind_read env ctx blk = pread_block env ctx (ucast blk)"

text \<open>The state of the dump: the context, \<open>count\<close> and the blocks written.  One data block:\<close>

type_synonym dump = "recover_context \<times> nat \<times> nat"

definition dump_block :: "env \<Rightarrow> string \<Rightarrow> u32 \<Rightarrow> dump \<Rightarrow> dump" where
  "dump_block env fd blk s =
     (case s of (ctx, cnt, ok) \<Rightarrow>
       case ind_read env ctx blk of None \<Rightarrow> (ctx, cnt + 1, ok)
       | Some dbuf \<Rightarrow>
           case fd_write env ctx fd dbuf of
             (n, ctx') \<Rightarrow> (ctx', cnt + 1, if n = int (blocksize ctx) then ok + 1 else ok))"

text \<open>The three loops over pointers have the same shape: stop at the cap and at the first invalid pointer.\<close>

primrec ptr_loop :: "(u32 \<Rightarrow> dump \<Rightarrow> dump) \<Rightarrow> u32 list \<Rightarrow> dump \<Rightarrow> dump" where
  "ptr_loop body [] s = s"
| "ptr_loop body (blk # blks) s =
     (if \<not> fst (snd s) < MAX_IND_BLOCKS then s
      else if \<not> ind_block_valid (fst s) blk then s
      else ptr_loop body blks (body blk s))"

definition ptrs_of :: "nat \<Rightarrow> buffer \<Rightarrow> u32 list" where
  "ptrs_of n buf = map (\<lambda>i. le32_at buf (4 * i)) [0..<n]"

definition dump_indirect :: "env \<Rightarrow> string \<Rightarrow> u32 \<Rightarrow> dump \<Rightarrow> dump" where
  "dump_indirect env fd ind_blk s =
     (let ctx = fst s in
      if \<not> ind_block_valid ctx ind_blk then s
      else case ind_read env ctx ind_blk of None \<Rightarrow> s
           | Some ibuf \<Rightarrow> ptr_loop (dump_block env fd) (ptrs_of (blocksize ctx div 4) ibuf) s)"

definition dump_double_indirect :: "env \<Rightarrow> string \<Rightarrow> u32 \<Rightarrow> dump \<Rightarrow> dump" where
  "dump_double_indirect env fd dblk s =
     (let ctx = fst s in
      if \<not> ind_block_valid ctx dblk then s
      else case ind_read env ctx dblk of None \<Rightarrow> s
           | Some level1 \<Rightarrow> ptr_loop (dump_indirect env fd) (ptrs_of (blocksize ctx div 4) level1) s)"

definition dump_all :: "env \<Rightarrow> string \<Rightarrow> buffer \<Rightarrow> recover_context \<Rightarrow> dump" where
  "dump_all env fd iblk ctx =
     (let s1 = ptr_loop (dump_block env fd) (ptrs_of 12 iblk) (ctx, 0, 0);
          s2 = dump_indirect env fd (le32_at iblk 48) s1
      in dump_double_indirect env fd (le32_at iblk 52) s2)"

definition recover_indirect_file :: "env \<Rightarrow> recover_context \<Rightarrow> u32 \<Rightarrow> ext2_inode \<Rightarrow> (int \<times> recover_context) ub" where
  "recover_indirect_file env ctx ino jinode =
     (let sz = unat (inode_size64 jinode) in
      if i_flags jinode AND EXT4_EXTENTS_FL \<noteq> 0 then Some (-1, ctx)
      else if sz = 0 then Some (-1, ctx)
      else case resolve_name env ctx ino of None \<Rightarrow> None
      | Some (base, ctx) \<Rightarrow>
          let fname = ''ind_'' @ base in
          if files ctx fname \<noteq> None \<and> stat_size ctx fname \<ge> sz then Some (1, ctx)
          else case open_trunc env ctx fname of None \<Rightarrow> Some (-1, ctx)
          | Some ctx \<Rightarrow>
              if \<not> malloc_ok env (blocksize ctx) then Some (-1, unlink ctx fname)
              else case dump_all env fname (i_block jinode) ctx of
                (ctx, cnt, ok) \<Rightarrow>
                  if ok > 0 then
                    (let ctx1 = (if sz < cnt * blocksize ctx then truncate_file env ctx fname sz else ctx)
                     in Some (0, ctx1\<lparr>journal_recovered := journal_recovered ctx1 + 1\<rparr>))
                  else Some (-1, unlink ctx fname))"

section \<open>The blocks of the walk\<close>

text \<open>The data blocks that the walk above reaches, in its order, on a device that is readable throughout.\<close>

definition valid_run :: "blk64_t \<Rightarrow> u32 list \<Rightarrow> u32 list" where
  "valid_run tot ps = takeWhile (\<lambda>b. b > 0 \<and> ucast b < tot) ps"

definition single_blocks :: "(u32 \<Rightarrow> buffer) \<Rightarrow> nat \<Rightarrow> blk64_t \<Rightarrow> u32 \<Rightarrow> u32 list" where
  "single_blocks dev bsz tot b = concat (map (\<lambda>p. valid_run tot (ptrs_of (bsz div 4) (dev p))) (valid_run tot [b]))"

definition double_blocks :: "(u32 \<Rightarrow> buffer) \<Rightarrow> nat \<Rightarrow> blk64_t \<Rightarrow> u32 \<Rightarrow> u32 list" where
  "double_blocks dev bsz tot b = concat (map (single_blocks dev bsz tot) (single_blocks dev bsz tot b))"

definition map_blocks :: "(u32 \<Rightarrow> buffer) \<Rightarrow> nat \<Rightarrow> blk64_t \<Rightarrow> buffer \<Rightarrow> u32 list" where
  "map_blocks dev bsz tot iblk =
     valid_run tot (ptrs_of 12 iblk) @ single_blocks dev bsz tot (le32_at iblk 48) @
     double_blocks dev bsz tot (le32_at iblk 52)"

text \<open>Reads and writes of whole blocks succeed.\<close>

definition block_io :: "env \<Rightarrow> recover_context \<Rightarrow> (u32 \<Rightarrow> buffer) \<Rightarrow> bool" where
  "block_io env ctx dev \<longleftrightarrow>
     (\<forall>b. ucast b < total_blocks ctx \<longrightarrow> ind_read env ctx b = Some (dev b)) \<and>
     (\<forall>fd off n. out_pwrite env fd off n = int n)"

definition dumped :: "(u32 \<Rightarrow> buffer) \<Rightarrow> string \<Rightarrow> recover_context \<Rightarrow> u32 list \<Rightarrow> dump \<Rightarrow> bool" where
  "dumped dev fd ctx bs s \<longleftrightarrow>
     s = (ctx\<lparr>files := (files ctx)(fd \<mapsto> concat (map dev bs))\<rparr>, length bs, length bs)"

lemma ind_read_files [frame_simps]: "ind_read env (c\<lparr>files := x\<rparr>) b = ind_read env c b"
  by (simp add: ind_read_def pread_block_def)

lemma block_valid_files [frame_simps]: "ind_block_valid (c\<lparr>files := x\<rparr>) b = ind_block_valid c b"
  by (simp add: ind_block_valid_def)

lemma read_len: "ind_read env c b = Some d \<Longrightarrow> length d = blocksize c"
  by (auto simp: ind_read_def pread_block_def Let_def split: if_splits)

lemma dump_block_step:
  assumes "block_io env ctx dev" "0 < blocksize ctx" "ind_block_valid ctx b" "dumped dev fd ctx bs s" "length bs < MAX_IND_BLOCKS"
  shows "dumped dev fd ctx (bs @ [b]) (dump_block env fd b s)"
proof -
  have r: "ind_read env ctx b = Some (dev b)" using assms(1,3) by (simp add: block_io_def ind_block_valid_def)
  moreover have "out_pwrite env fd n m = int m" for n m using assms(1) by (simp add: block_io_def)
  ultimately show ?thesis
    using assms(2,4) read_len [OF r] by (simp add: dumped_def dump_block_def fd_write_def frame_simps)
qed

text \<open>A loop whose body appends \<open>g b\<close> for each pointer appends the blocks of all valid pointers, up to the cap.\<close>

lemma ptr_loop_dumps:
  assumes step: "\<And>b bs s. ind_block_valid ctx b \<Longrightarrow> dumped dev fd ctx bs s \<Longrightarrow> length bs < MAX_IND_BLOCKS \<Longrightarrow>
      dumped dev fd ctx (take MAX_IND_BLOCKS (bs @ g b)) (body b s)"
  shows "dumped dev fd ctx (take MAX_IND_BLOCKS bs) s \<Longrightarrow>
    dumped dev fd ctx (take MAX_IND_BLOCKS (bs @ concat (map g (valid_run (total_blocks ctx) ps)))) (ptr_loop body ps s)"
proof (induction ps arbitrary: bs s)
  case Nil
  then show ?case by (simp add: valid_run_def)
next
  case (Cons p ps)
  have v: "ind_block_valid (fst s) p = ind_block_valid ctx p" "fst (snd s) = min (length bs) MAX_IND_BLOCKS"
    using Cons.prems by (auto simp: dumped_def frame_simps)
  show ?case
  proof (cases "ind_block_valid ctx p \<and> length bs < MAX_IND_BLOCKS")
    case True
    then have run: "valid_run (total_blocks ctx) (p # ps) = p # valid_run (total_blocks ctx) ps"
      by (simp add: valid_run_def ind_block_valid_def)
    have "dumped dev fd ctx (take MAX_IND_BLOCKS (bs @ g p)) (body p s)"
      using step [of p bs s] True Cons.prems by simp
    then show ?thesis using Cons.IH [of "bs @ g p" "body p s"] True v by (simp add: run)
  next
    case False
    then have "valid_run (total_blocks ctx) (p # ps) = [] \<or> MAX_IND_BLOCKS \<le> length bs"
      by (auto simp: valid_run_def ind_block_valid_def)
    then show ?thesis using Cons.prems False v by (auto simp: min_def)
  qed
qed

lemma dump_indirect_step:
  assumes io: "block_io env ctx dev" "0 < blocksize ctx" and d: "dumped dev fd ctx (take MAX_IND_BLOCKS bs) s"
  shows "dumped dev fd ctx (take MAX_IND_BLOCKS (bs @ single_blocks dev (blocksize ctx) (total_blocks ctx) b)) (dump_indirect env fd b s)"
proof (cases "ind_block_valid ctx b")
  case True
  have r: "ind_read env ctx b = Some (dev b)" using io(1) True by (simp add: block_io_def ind_block_valid_def)
  have sb: "single_blocks dev (blocksize ctx) (total_blocks ctx) b =
      concat (map (\<lambda>x. [x]) (valid_run (total_blocks ctx) (ptrs_of (blocksize ctx div 4) (dev b))))"
    using True by (simp add: single_blocks_def valid_run_def ind_block_valid_def)
  have "dump_indirect env fd b s = ptr_loop (dump_block env fd) (ptrs_of (blocksize ctx div 4) (dev b)) s"
    using True r d by (simp add: dump_indirect_def dumped_def frame_simps Let_def)
  moreover have "dumped dev fd ctx (take MAX_IND_BLOCKS (bs @ [b])) (dump_block env fd b s)"
    if "ind_block_valid ctx b" "dumped dev fd ctx bs s" "length bs < MAX_IND_BLOCKS" for b bs s
    using dump_block_step [OF io that] that(3) by simp
  ultimately show ?thesis
    using ptr_loop_dumps [where body = "dump_block env fd" and g = "\<lambda>x. [x]", OF _ d] unfolding sb by simp
next
  case False
  then have "single_blocks dev (blocksize ctx) (total_blocks ctx) b = []" by (auto simp: single_blocks_def valid_run_def ind_block_valid_def)
  then show ?thesis using False d by (simp add: dump_indirect_def dumped_def frame_simps Let_def)
qed

lemma dump_double_step:
  assumes io: "block_io env ctx dev" "0 < blocksize ctx" and d: "dumped dev fd ctx (take MAX_IND_BLOCKS bs) s"
  shows "dumped dev fd ctx (take MAX_IND_BLOCKS (bs @ double_blocks dev (blocksize ctx) (total_blocks ctx) b)) (dump_double_indirect env fd b s)"
proof (cases "ind_block_valid ctx b")
  case True
  let ?g = "single_blocks dev (blocksize ctx) (total_blocks ctx)"
  have r: "ind_read env ctx b = Some (dev b)" using io(1) True by (simp add: block_io_def ind_block_valid_def)
  have db: "double_blocks dev (blocksize ctx) (total_blocks ctx) b =
      concat (map ?g (valid_run (total_blocks ctx) (ptrs_of (blocksize ctx div 4) (dev b))))"
  proof -
    have "?g b = valid_run (total_blocks ctx) (ptrs_of (blocksize ctx div 4) (dev b))"
      using True by (simp add: single_blocks_def valid_run_def ind_block_valid_def)
    then show ?thesis by (simp add: double_blocks_def)
  qed
  have "dump_double_indirect env fd b s = ptr_loop (dump_indirect env fd) (ptrs_of (blocksize ctx div 4) (dev b)) s"
    using True r d by (simp add: dump_double_indirect_def dumped_def frame_simps Let_def)
  moreover have "dumped dev fd ctx (take MAX_IND_BLOCKS (bs @ ?g b)) (dump_indirect env fd b s)"
    if "dumped dev fd ctx bs s" "length bs < MAX_IND_BLOCKS" for b bs s
    using dump_indirect_step [OF io, of fd bs s] that by simp
  ultimately show ?thesis
    using ptr_loop_dumps [where body = "dump_indirect env fd" and g = ?g, OF _ d] unfolding db by simp
next
  case False
  then have "double_blocks dev (blocksize ctx) (total_blocks ctx) b = []"
    by (auto simp: double_blocks_def single_blocks_def valid_run_def ind_block_valid_def)
  then show ?thesis using False d by (simp add: dump_double_indirect_def dumped_def frame_simps Let_def)
qed

lemma dump_all_blocks:
  assumes io: "block_io env ctx dev" "0 < blocksize ctx" and f: "files ctx fd = Some []"
  shows "dumped dev fd ctx (take MAX_IND_BLOCKS (map_blocks dev (blocksize ctx) (total_blocks ctx) iblk)) (dump_all env fd iblk ctx)"
proof -
  let ?r = "valid_run (total_blocks ctx) (ptrs_of 12 iblk)"
  have "files ctx = (files ctx)(fd \<mapsto> [])" using f by auto
  then have z: "dumped dev fd ctx (take MAX_IND_BLOCKS []) (ctx, 0, 0)" by (simp add: dumped_def)
  have "dumped dev fd ctx (take MAX_IND_BLOCKS (bs @ [b])) (dump_block env fd b s)"
    if "ind_block_valid ctx b" "dumped dev fd ctx bs s" "length bs < MAX_IND_BLOCKS" for b bs s
    using dump_block_step [OF io that] that(3) by simp
  then have "dumped dev fd ctx (take MAX_IND_BLOCKS ?r) (ptr_loop (dump_block env fd) (ptrs_of 12 iblk) (ctx, 0, 0))"
    using ptr_loop_dumps [where body = "dump_block env fd" and g = "\<lambda>x. [x]" and ps = "ptrs_of 12 iblk", OF _ z] by simp
  from dump_double_step [OF io dump_indirect_step [OF io this]] show ?thesis
    by (simp add: dump_all_def map_blocks_def Let_def)
qed

section \<open>The format of a block map\<close>

text \<open>
  The ext2 block map, independent of the walk above: the device block that holds block \<open>i\<close> of a file, for
  \<open>n\<close> pointers in a block.  \<open>None\<close> is a hole, or a pointer that leaves the device.
\<close>

definition map_ptr :: "blk64_t \<Rightarrow> buffer \<Rightarrow> nat \<Rightarrow> u32 option" where
  "map_ptr tot buf i = (let b = le32_at buf (4 * i) in if b \<noteq> 0 \<and> ucast b < tot then Some b else None)"

definition bmap :: "(u32 \<Rightarrow> buffer) \<Rightarrow> nat \<Rightarrow> blk64_t \<Rightarrow> buffer \<Rightarrow> nat \<Rightarrow> u32 option" where
  "bmap dev n tot iblk i =
     (let ptr = (\<lambda>b k. map_ptr tot (dev b) k); j = i - 12; k = j - n; l = k - n * n in
      if i < 12 then map_ptr tot iblk i
      else if j < n then Option.bind (map_ptr tot iblk 12) (\<lambda>s. ptr s j)
      else if k < n * n then
        Option.bind (map_ptr tot iblk 13) (\<lambda>d. Option.bind (ptr d (k div n)) (\<lambda>s. ptr s (k mod n)))
      else
        Option.bind (map_ptr tot iblk 14) (\<lambda>t. Option.bind (ptr t (l div (n * n))) (\<lambda>d.
          Option.bind (ptr d (l div n mod n)) (\<lambda>s. ptr s (l mod n)))))"

text \<open>The walk reaches at most the blocks below the triple indirect ones, and at most \<open>MAX_IND_BLOCKS\<close>.\<close>

definition reach :: "nat \<Rightarrow> nat" where
  "reach n = min (12 + n + n * n) MAX_IND_BLOCKS"

lemma map_ptr_someD: "map_ptr tot buf i = Some b \<Longrightarrow> le32_at buf (4 * i) = b \<and> b \<noteq> 0 \<and> ucast b < tot"
  by (auto simp: map_ptr_def Let_def split: if_splits)

lemma map_ptr_mapped:
  assumes "map_ptr tot buf i \<noteq> None"
  shows "le32_at buf (4 * i) = the (map_ptr tot buf i)" "0 < the (map_ptr tot buf i)" "ucast (the (map_ptr tot buf i)) < tot"
proof -
  obtain b where b: "map_ptr tot buf i = Some b" using assms by auto
  then show "le32_at buf (4 * i) = the (map_ptr tot buf i)" "0 < the (map_ptr tot buf i)" "ucast (the (map_ptr tot buf i)) < tot"
    using map_ptr_someD [OF b] by (simp_all add: word_gt_0)
qed

lemma valid_run_ptrs:
  assumes "\<And>j. j < m \<Longrightarrow> map_ptr tot buf j \<noteq> None"
  shows "valid_run tot (ptrs_of m buf) = map (\<lambda>j. the (map_ptr tot buf j)) [0..<m]"
proof -
  have "valid_run tot (ptrs_of m buf) = ptrs_of m buf"
    unfolding valid_run_def
    by (rule takeWhile_eq_all_conv [THEN iffD2]) (auto simp: ptrs_of_def map_ptr_mapped [OF assms])
  moreover have "ptrs_of m buf = map (\<lambda>j. the (map_ptr tot buf j)) [0..<m]"
    unfolding ptrs_of_def by (rule map_cong) (auto simp: map_ptr_mapped [OF assms])
  ultimately show ?thesis by simp
qed

lemma valid_run_nth:
  assumes "\<And>j. j \<le> i \<Longrightarrow> map_ptr tot buf j \<noteq> None" and "i < m"
  shows "i < length (valid_run tot (ptrs_of m buf)) \<and> valid_run tot (ptrs_of m buf) ! i = the (map_ptr tot buf i)"
proof -
  let ?P = "\<lambda>b :: u32. b > 0 \<and> ucast b < tot"
  have p: "?P (ptrs_of m buf ! j)" if "j \<le> i" for j
    using map_ptr_mapped [OF assms(1) [OF that]] assms(2) that by (simp add: ptrs_of_def)
  have l: "i < length (takeWhile ?P (ptrs_of m buf))"
  proof (rule ccontr)
    assume "\<not> ?thesis"
    moreover from this have "length (takeWhile ?P (ptrs_of m buf)) < length (ptrs_of m buf)" using assms(2) by (simp add: ptrs_of_def)
    ultimately show False using nth_length_takeWhile [of ?P "ptrs_of m buf"] p by auto
  qed
  moreover have "takeWhile ?P (ptrs_of m buf) ! i = ptrs_of m buf ! i" using l by (rule takeWhile_nth)
  ultimately show ?thesis
    using map_ptr_mapped [OF assms(1) [OF order_refl]] assms(2) by (simp add: valid_run_def ptrs_of_def)
qed

lemma concat_nth_blocks:
  assumes "\<And>c. c < a \<Longrightarrow> length (xss ! c) = n" and "a < length xss" and "b < length (xss ! a)"
  shows "a * n + b < length (concat xss) \<and> concat xss ! (a * n + b) = xss ! a ! b"
  using assms
proof (induction xss arbitrary: a)
  case Nil
  then show ?case by simp
next
  case (Cons xs xss)
  show ?case
  proof (cases a)
    case 0
    then show ?thesis using Cons.prems by (simp add: nth_append)
  next
    case (Suc c)
    have "length xs = n" using Cons.prems(1) [of 0] Suc by simp
    moreover have "c * n + b < length (concat xss) \<and> concat xss ! (c * n + b) = xss ! c ! b"
      using Cons.prems(1) [of "Suc _"] Cons.prems(2,3) Suc by (intro Cons.IH) auto
    ultimately show ?thesis by (simp add: Suc nth_append)
  qed
qed

text \<open>A single indirect block, of which the first or all pointers are mapped.\<close>

lemma single_blocks_run:
  "b \<noteq> 0 \<and> ucast b < tot \<Longrightarrow> single_blocks dev bsz tot b = valid_run tot (ptrs_of (bsz div 4) (dev b))"
  by (simp add: single_blocks_def valid_run_def word_gt_0)

section \<open>Inline files\<close>

lemma recover_inline_data_exact:
  assumes "has_inline_data (caps ctx)" "i_flags jinode AND EXT4_INLINE_DATA_FL \<noteq> 0"
    and sz: "0 < unat (inode_size64 jinode)" "unat (inode_size64 jinode) \<le> EXT4_INLINE_MAX_BYTES" "length (i_block jinode) = 60"
    and "resolve_name env ctx ino = Some (base, ctx1)" "out_open env (''inline_'' @ base)"
    and "\<forall>fd off n. out_pwrite env fd off n = int n"
    and "\<not> unat (inode_size64 jinode) \<le> stat_size ctx (''inline_'' @ base)"
  shows "\<exists>ctx'. recover_inline_data env ctx ino jinode = Some (0, ctx') \<and>
     files ctx' = (files ctx)(''inline_'' @ base \<mapsto> take (unat (inode_size64 jinode)) (i_block jinode))"
proof -
  obtain st where c1: "ctx1 = ctx\<lparr>names := st\<rparr>" using assms(6) by (auto simp: resolve_name_def Let_def)
  have "stat_size ctx1 x = stat_size ctx x" for x by (simp add: c1 stat_size_def)
  moreover define n where "n = unat (inode_size64 jinode)"
  ultimately show ?thesis
    using assms unfolding recover_inline_data_def Let_def n_def [symmetric]
    by (simp add: fd_write_def open_trunc_def EXT4_INLINE_MAX_BYTES_def c1)
qed

text \<open>The walk finds block \<open>i\<close> at place \<open>i\<close> when no hole comes before it.\<close>

lemma bmap_direct: "i < 12 \<Longrightarrow> bmap dev n tot iblk i = map_ptr tot iblk i"
  by (simp add: bmap_def)

lemma bmap_single: "j < n \<Longrightarrow> bmap dev n tot iblk (12 + j) = Option.bind (map_ptr tot iblk 12) (\<lambda>s. map_ptr tot (dev s) j)"
  by (simp add: bmap_def)

lemma bmap_double:
  "k < n * n \<Longrightarrow> bmap dev n tot iblk (12 + n + k) =
     Option.bind (map_ptr tot iblk 13) (\<lambda>d. Option.bind (map_ptr tot (dev d) (k div n)) (\<lambda>s. map_ptr tot (dev s) (k mod n)))"
  by (simp add: bmap_def Let_def)

lemma direct_all:
  assumes "\<And>j. j < 12 \<Longrightarrow> bmap dev n tot iblk j \<noteq> None"
  shows "length (valid_run tot (ptrs_of 12 iblk)) = 12"
  using valid_run_ptrs [of 12 tot iblk] assms by (simp add: bmap_direct)

lemma single_blocks_ptr:
  assumes "map_ptr tot buf c = Some s"
  shows "single_blocks dev bsz tot (le32_at buf (4 * c)) = valid_run tot (ptrs_of (bsz div 4) (dev s))"
  using map_ptr_someD [OF assms] by (simp add: single_blocks_run)

lemma map_blocks_nth_single:
  assumes n: "n = bsz div 4" and j: "j < n" and m: "\<And>i. i \<le> 12 + j \<Longrightarrow> bmap dev n tot iblk i \<noteq> None"
  shows "j < length (single_blocks dev bsz tot (le32_at iblk 48)) \<and>
     single_blocks dev bsz tot (le32_at iblk 48) ! j = the (bmap dev n tot iblk (12 + j))"
proof -
  obtain s where s: "map_ptr tot iblk 12 = Some s"
    using m [of 12] j bmap_single [of 0 n dev tot iblk] by (auto split: bind_splits)
  have "map_ptr tot (dev s) c \<noteq> None" if "c \<le> j" for c
    using m [of "12 + c"] that j by (simp add: bmap_single s)
  from valid_run_nth [OF this j] show ?thesis
    using single_blocks_ptr [OF s, of dev bsz] j by (simp add: n [symmetric] bmap_single s)
qed

lemma single_all:
  assumes n: "n = bsz div 4" and m: "\<And>i. i < 12 + n \<Longrightarrow> bmap dev n tot iblk i \<noteq> None"
  shows "length (single_blocks dev bsz tot (le32_at iblk 48)) = n"
proof (cases "n = 0")
  case True
  then show ?thesis using n by (simp add: single_blocks_def ptrs_of_def valid_run_def takeWhile_eq_Nil_iff)
next
  case False
  then obtain s where s: "map_ptr tot iblk 12 = Some s"
    using m [of 12] bmap_single [of 0 n dev tot iblk] by (auto split: bind_splits)
  have "map_ptr tot (dev s) j \<noteq> None" if "j < n" for j
    using m [of "12 + j"] that by (simp add: bmap_single s)
  then show ?thesis using single_blocks_ptr [OF s, of dev bsz] valid_run_ptrs [of n tot "dev s"] by (simp add: n)
qed

lemma map_blocks_nth_double:
  assumes n: "n = bsz div 4" and k: "k < n * n" and m: "\<And>i. i \<le> 12 + n + k \<Longrightarrow> bmap dev n tot iblk i \<noteq> None"
  shows "k < length (double_blocks dev bsz tot (le32_at iblk 52)) \<and>
     double_blocks dev bsz tot (le32_at iblk 52) ! k = the (bmap dev n tot iblk (12 + n + k))"
proof -
  let ?g = "single_blocks dev bsz tot" and ?a = "k div n" and ?b = "k mod n"
  have n0: "0 < n" using k by (cases n) auto
  have a: "?a < n" "?b < n" using k n0 by (auto simp: div_less_iff_less_mult)
  have below: "c * n + e < n * n \<and> 12 + n + (c * n + e) \<le> 12 + n + k" if "c < ?a \<and> e < n \<or> c = ?a \<and> e \<le> ?b" for c e
  proof -
    have "c * n + e \<le> ?a * n + ?b"
    proof (cases "c < ?a")
      case True
      then have "c * n + n \<le> ?a * n" using mult_le_mono1 [of "Suc c" ?a n] by simp
      moreover have "e < n" using that True by auto
      ultimately show ?thesis by linarith
    next
      case False
      then have "c = ?a" "e \<le> ?b" using that by auto
      then show ?thesis by (simp only: add_left_mono)
    qed
    then show ?thesis using k by simp
  qed
  obtain d where d: "map_ptr tot iblk 13 = Some d"
    using m [of "12 + n"] k n0 bmap_double [of 0 n dev tot iblk] by (auto split: bind_splits)
  have ptr: "Option.bind (map_ptr tot (dev d) c) (\<lambda>s. map_ptr tot (dev s) e) \<noteq> None"
    if "c < ?a \<and> e < n \<or> c = ?a \<and> e \<le> ?b" for c e
  proof -
    have "e < n" using that a by (elim disjE conjE) linarith+
    then have "(c * n + e) div n = c" "(c * n + e) mod n = e" by simp_all
    then show ?thesis
      using m [of "12 + n + (c * n + e)"] conjunct1 [OF below [OF that]] conjunct2 [OF below [OF that]] by (simp add: bmap_double d)
  qed
  define L where "L = valid_run tot (ptrs_of n (dev d))"
  have dd: "double_blocks dev bsz tot (le32_at iblk 52) = concat (map ?g L)"
    using single_blocks_ptr [OF d, of dev bsz] by (simp add: double_blocks_def n L_def)
  have L: "c < length L \<and> L ! c = the (map_ptr tot (dev d) c)" if "c \<le> ?a" for c
    unfolding L_def
  proof (rule valid_run_nth)
    show "map_ptr tot (dev d) e \<noteq> None" if "e \<le> c" for e
    proof -
      have "e < ?a \<and> 0 < n \<or> e = ?a \<and> 0 \<le> ?b" using that \<open>c \<le> ?a\<close> n0 by linarith
      from ptr [OF this] show ?thesis by (auto split: bind_splits)
    qed
  qed (use that a in simp)
  have g: "?g (L ! c) = valid_run tot (ptrs_of n (dev (the (map_ptr tot (dev d) c))))" if c: "c \<le> ?a" for c
  proof -
    obtain s where s: "map_ptr tot (dev d) c = Some s" using ptr [of c 0] c n0 by (cases "c = ?a") (auto split: bind_splits)
    then show ?thesis using L [OF c] single_blocks_ptr [OF s, of dev bsz] map_ptr_someD [OF s] by (simp add: n)
  qed
  have full: "length (map ?g L ! c) = n" if "c < ?a" for c
  proof -
    obtain s where s: "map_ptr tot (dev d) c = Some s" using ptr [OF disjI1, of c 0] \<open>c < ?a\<close> n0 by (auto split: bind_splits)
    then have "map_ptr tot (dev s) e \<noteq> None" if "e < n" for e using ptr [of c e] \<open>c < ?a\<close> that by simp
    from valid_run_ptrs [OF this] have "length (valid_run tot (ptrs_of n (dev s))) = n" by simp
    then show ?thesis using g [of c] L [of c] that s by simp
  qed
  have last: "?b < length (?g (L ! ?a)) \<and> ?g (L ! ?a) ! ?b = the (map_ptr tot (dev (the (map_ptr tot (dev d) ?a))) ?b)"
    unfolding g [OF order_refl]
  proof (rule valid_run_nth)
    show "map_ptr tot (dev (the (map_ptr tot (dev d) ?a))) e \<noteq> None" if "e \<le> ?b" for e
      using ptr [of ?a e] that by (auto split: bind_splits)
  qed (use a in simp)
  obtain s where s: "map_ptr tot (dev d) ?a = Some s" using ptr [of ?a 0] n0 by (auto split: bind_splits)
  have "?a * n + ?b = k" by simp
  then show ?thesis
    using concat_nth_blocks [of ?a "map ?g L" n ?b, OF full] L [of ?a] last k s
    by (simp add: dd bmap_double d)
qed

lemma map_blocks_nth:
  assumes n: "n = bsz div 4" and i: "i < 12 + n + n * n" and m: "\<And>j. j \<le> i \<Longrightarrow> bmap dev n tot iblk j \<noteq> None"
  shows "i < length (map_blocks dev bsz tot iblk) \<and> map_blocks dev bsz tot iblk ! i = the (bmap dev n tot iblk i)"
proof -
  consider "i < 12" | j where "i = 12 + j" "j < n" | k where "i = 12 + n + k" "k < n * n"
    using i by (metis add.assoc add_less_cancel_left le_Suc_ex linorder_not_less)
  then show ?thesis
  proof cases
    case 1
    have "i < length (valid_run tot (ptrs_of 12 iblk)) \<and> valid_run tot (ptrs_of 12 iblk) ! i = the (map_ptr tot iblk i)"
      using m 1 by (intro valid_run_nth) (simp_all add: bmap_direct)
    then show ?thesis using 1 by (simp add: map_blocks_def nth_append bmap_direct)
  next
    case 2
    have "length (valid_run tot (ptrs_of 12 iblk)) = 12" using m 2 by (intro direct_all [of dev n]) simp
    then show ?thesis using map_blocks_nth_single [OF n 2(2), of dev tot iblk] m 2 by (simp add: map_blocks_def nth_append)
  next
    case 3
    have "length (valid_run tot (ptrs_of 12 iblk)) = 12" using m 3 by (intro direct_all [of dev n]) simp
    moreover have "length (single_blocks dev bsz tot (le32_at iblk 48)) = n"
      using single_all [OF n] m 3 by simp
    ultimately show ?thesis using map_blocks_nth_double [OF n 3(2), of dev tot iblk] m 3 by (simp add: map_blocks_def nth_append)
  qed
qed

lemma map_blocks_prefix:
  assumes n: "n = bsz div 4" and l: "l \<le> reach n" and m: "\<And>j. j < l \<Longrightarrow> bmap dev n tot iblk j \<noteq> None"
  shows "take l (take MAX_IND_BLOCKS (map_blocks dev bsz tot iblk)) = map (\<lambda>i. the (bmap dev n tot iblk i)) [0..<l]"
proof (rule nth_equalityI)
  have nth: "i < length (map_blocks dev bsz tot iblk) \<and> map_blocks dev bsz tot iblk ! i = the (bmap dev n tot iblk i)" if "i < l" for i
    using that l by (intro map_blocks_nth [OF n] m) (auto simp: reach_def)
  have "l \<le> length (map_blocks dev bsz tot iblk)" using nth [of "l - 1"] by (cases l) auto
  then show "length (take l (take MAX_IND_BLOCKS (map_blocks dev bsz tot iblk))) = length (map (\<lambda>i. the (bmap dev n tot iblk i)) [0..<l])"
    using l by (simp add: reach_def)
  then show "take l (take MAX_IND_BLOCKS (map_blocks dev bsz tot iblk)) ! i = map (\<lambda>i. the (bmap dev n tot iblk i)) [0..<l] ! i"
    if "i < length (take l (take MAX_IND_BLOCKS (map_blocks dev bsz tot iblk)))" for i
    using that nth [of i] by simp
qed

lemma length_valid_run: "length (valid_run tot ps) \<le> length ps"
  by (simp add: valid_run_def length_takeWhile_le)

lemma length_single_blocks: "length (single_blocks dev bsz tot b) \<le> bsz div 4"
  using length_valid_run [of tot "ptrs_of (bsz div 4) (dev b)"] by (simp add: single_blocks_def ptrs_of_def valid_run_def)

lemma length_double_blocks: "length (double_blocks dev bsz tot b) \<le> (bsz div 4) * (bsz div 4)"
proof -
  have "length (concat (map (single_blocks dev bsz tot) bs)) \<le> length bs * (bsz div 4)" for bs
    by (induction bs) (use length_single_blocks in \<open>auto intro: add_mono\<close>)
  from this [of "single_blocks dev bsz tot b"] show ?thesis
    using mult_le_mono1 [OF length_single_blocks] by (fastforce simp: double_blocks_def intro: order_trans)
qed

lemma length_map_blocks: "length (map_blocks dev bsz tot iblk) \<le> 12 + bsz div 4 + (bsz div 4) * (bsz div 4)"
  using length_valid_run [of tot "ptrs_of 12 iblk"] length_single_blocks [of dev bsz tot "le32_at iblk 48"]
    length_double_blocks [of dev bsz tot "le32_at iblk 52"]
  by (simp add: map_blocks_def ptrs_of_def)

lemma map_blocks_readable:
  assumes "block_io env ctx dev" "b \<in> set (map_blocks dev (blocksize ctx) (total_blocks ctx) iblk)"
  shows "length (dev b) = blocksize ctx"
proof -
  have vr: "x \<in> set (valid_run t ps) \<Longrightarrow> ucast x < t" for x :: u32 and t :: blk64_t and ps
    by (auto simp: valid_run_def dest: set_takeWhileD)
  have "ucast b < total_blocks ctx"
    using assms(2) vr by (auto simp: map_blocks_def single_blocks_def double_blocks_def)
  then show ?thesis using assms(1) read_len by (fastforce simp: block_io_def)
qed

text \<open>What the walk leaves of a file without holes among the blocks it reaches.\<close>

lemma map_blocks_content:
  assumes n: "n = blocksize ctx div 4" and io: "block_io env ctx dev" and bsz: "0 < blocksize ctx"
    and l: "l = min ((sz + blocksize ctx - 1) div blocksize ctx) (reach n)"
    and m: "\<And>j. j < l \<Longrightarrow> bmap dev n (total_blocks ctx) iblk j \<noteq> None"
    and bs: "bs = take MAX_IND_BLOCKS (map_blocks dev (blocksize ctx) (total_blocks ctx) iblk)"
  shows "take sz (concat (map dev bs)) = take sz (concat (map (\<lambda>i. dev (the (bmap dev n (total_blocks ctx) iblk i))) [0..<l]))"
    and "length (concat (map dev bs)) = length bs * blocksize ctx" and "l \<le> length bs"
proof -
  have len: "length (dev b) = blocksize ctx" if "b \<in> set bs" for b
    using map_blocks_readable [OF io] that by (auto simp: bs dest: in_set_takeD)
  have cat: "length (concat (map dev xs)) = length xs * blocksize ctx" if "set xs \<subseteq> set bs" for xs
    using that len by (induction xs) auto
  show "length (concat (map dev bs)) = length bs * blocksize ctx" by (rule cat) simp
  have pre: "take l bs = map (\<lambda>i. the (bmap dev n (total_blocks ctx) iblk i)) [0..<l]"
    unfolding bs by (rule map_blocks_prefix [OF n _ m]) (simp_all add: l)
  then show ll: "l \<le> length bs" by (metis length_map length_take length_upt min.cobounded1 diff_zero)
  have eq: "map (\<lambda>i. dev (the (bmap dev n (total_blocks ctx) iblk i))) [0..<l] = map dev (take l bs)" by (simp add: pre)
  have split: "concat (map dev bs) = concat (map dev (take l bs)) @ concat (map dev (drop l bs))"
    by (metis append_take_drop_id concat_append map_append)
  have "drop l bs = [] \<or> sz \<le> l * blocksize ctx"
  proof (cases "(sz + blocksize ctx - 1) div blocksize ctx \<le> reach n")
    case True
    have "sz \<le> ((sz + blocksize ctx - 1) div blocksize ctx) * blocksize ctx"
      using dividend_less_div_times [OF bsz, of "sz + blocksize ctx - 1"] bsz by linarith
    then show ?thesis using True by (simp add: l)
  next
    case False
    have "length bs \<le> reach n" using length_map_blocks [of dev "blocksize ctx" "total_blocks ctx" iblk] by (simp add: bs reach_def n)
    then show ?thesis using False by (simp add: l)
  qed
  moreover have "length (concat (map dev (take l bs))) = l * blocksize ctx"
    using cat [of "take l bs"] ll by (simp add: set_take_subset)
  ultimately show "take sz (concat (map dev bs)) = take sz (concat (map (\<lambda>i. dev (the (bmap dev n (total_blocks ctx) iblk i))) [0..<l]))"
    unfolding eq split by auto
qed

text \<open>The output holds the blocks of the walk, in the order of the walk.\<close>

lemma recover_indirect_file_walk:
  assumes "i_flags jinode AND EXT4_EXTENTS_FL = 0" and "inode_size64 jinode \<noteq> 0"
    and "resolve_name env ctx ino = Some (base, ctx1)" and "out_open env (''ind_'' @ base)"
    and "\<forall>n. malloc_ok env n" and "\<forall>name n. out_truncate env name n"
    and io: "block_io env ctx dev" "0 < blocksize ctx" and "sz = unat (inode_size64 jinode)"
    and bs: "bs = take MAX_IND_BLOCKS (map_blocks dev (blocksize ctx) (total_blocks ctx) (i_block jinode))" and nz: "bs \<noteq> []"
    and new: "\<not> (files ctx (''ind_'' @ base) \<noteq> None \<and> sz \<le> stat_size ctx (''ind_'' @ base))"
  shows "\<exists>ctx'. recover_indirect_file env ctx ino jinode = Some (0, ctx') \<and>
     files ctx' = (files ctx)(''ind_'' @ base \<mapsto> take sz (concat (map dev bs)))"
proof -
  let ?fd = "''ind_'' @ base"
  have sz: "sz \<noteq> 0" using assms(2,9) by (simp add: unat_eq_zero)
  obtain st where c1: "ctx1 = ctx\<lparr>names := st\<rparr>" using assms(3) by (auto simp: resolve_name_def Let_def)
  have stat: "stat_size ctx1 ?fd = stat_size ctx ?fd" "files ctx1 = files ctx" by (simp_all add: c1 stat_size_def)
  define c2 where "c2 = ctx1\<lparr>files := (files ctx1)(?fd \<mapsto> [])\<rparr>"
  have opn: "open_trunc env ctx1 ?fd = Some c2" using assms(4) by (simp add: open_trunc_def c2_def)
  have io2: "block_io env c2 dev" "0 < blocksize c2" "files c2 ?fd = Some []"
    using io by (simp_all add: c2_def c1 block_io_def ind_read_def pread_block_def)
  have dump: "dump_all env ?fd (i_block jinode) c2 = (c2\<lparr>files := (files c2)(?fd \<mapsto> concat (map dev bs))\<rparr>, length bs, length bs)"
    using dump_all_blocks [OF io2, of "i_block jinode"] by (simp add: dumped_def bs c2_def c1)
  have len: "length (concat (map dev xs)) = length xs * blocksize ctx" if "set xs \<subseteq> set bs" for xs
    using that
  proof (induction xs)
    case (Cons x xs)
    then show ?case using map_blocks_readable [OF io(1), of x "i_block jinode"] by (auto simp: bs dest: in_set_takeD)
  qed simp
  have "recover_indirect_file env ctx ino jinode =
      (let c3 = c2\<lparr>files := (files c2)(?fd \<mapsto> concat (map dev bs))\<rparr>;
           c4 = (if sz < length bs * blocksize c3 then truncate_file env c3 ?fd sz else c3)
       in Some (0, c4\<lparr>journal_recovered := journal_recovered c4 + 1\<rparr>))"
    using assms(1,3,5) sz stat nz dump opn new
    by (simp add: recover_indirect_file_def Let_def assms(9) [symmetric])
  moreover have "blocksize c2 = blocksize ctx" "(files c2)(?fd \<mapsto> x) = (files ctx)(?fd \<mapsto> x)" for x
    by (simp_all add: c2_def c1)
  ultimately show ?thesis
    using assms(6) len [OF subset_refl] by (auto simp: Let_def truncate_file_def)
qed

definition ind_dev :: buffer where
  "ind_dev = [0, 0, 0, 0, 11, 12, 13, 14, 3, 0, 0, 0, 21, 22, 23, 24, 2, 0, 0, 0]"

definition ind_block :: "u32 \<Rightarrow> buffer" where
  "ind_block b = take 4 (drop (unat b * 4) ind_dev)"

definition ind_env :: env where
  "ind_env = (ideal_env [])\<lparr>dev_pread := (\<lambda>off n. take n (drop off ind_dev)), out_pwrite := (\<lambda>_ _ n. int n)\<rparr>"

definition ind_inode :: "nat \<Rightarrow> nat list \<Rightarrow> ext2_inode" where
  "ind_inode sz ps = \<lparr>i_mode = 0x8000, i_size = of_nat sz, i_dtime = 0, i_links_count = 0, i_blocks = 2, i_flags = 0,
     i_block = concat (map (le_bytes 4) ps), i_size_high = 0\<rparr>"

lemma ind_block_io: "block_io ind_env ((base_ctx 4 5)\<lparr>names := st\<rparr>) ind_block"
proof -
  have "length (ind_block b) = 4" if "ucast b < (5 :: blk64_t)" for b :: u32
  proof -
    have "unat (ucast b :: blk64_t) < 5" using that by (simp add: word_less_nat_alt)
    then have "unat b < 5" by (simp add: unat_ucast_up)
    then show ?thesis by (simp add: ind_block_def ind_dev_def)
  qed
  then show ?thesis by (simp add: block_io_def base_ctx_def ind_block_def ind_read_def pread_block_def ind_env_def Let_def unat_ucast_up)
qed

lemma ind_setup:
  obtains st ctx1 where "resolve_name ind_env ((base_ctx 4 5)\<lparr>names := st\<rparr>) 7 = Some (''7_file'', ctx1)"
proof -
  obtain st where st: "fm_inv st" "claims_inv st" "fm_map st = Map.empty" using fresh_state by blast
  have "fallback_name 7 = ''7_file''" by code_simp
  then show ?thesis
    using that resolve_model [OF st(1,2), of 7] st(3) by (auto simp: resolve_name_def ideal_env_def ind_env_def Let_def)
qed

text \<open>
  A hole ends a loop: of a file of 13 blocks of which only the first and the last are mapped, the last one is
  written in place of the second, and the file comes out with two blocks.
\<close>

definition holed_inode :: ext2_inode where
  "holed_inode = ind_inode 52 (1 # replicate 11 0 @ [2, 0, 0])"

lemma hole_shifts_blocks:
  "map (bmap ind_block 1 5 (i_block holed_inode)) [0..<13] = Some 1 # replicate 11 None @ [Some 3]"
  "\<exists>st ctx'. recover_indirect_file ind_env ((base_ctx 4 5)\<lparr>names := st\<rparr>) 7 holed_inode = Some (0, ctx') \<and>
     files ctx' ''ind_7_file'' = Some (ind_block 1 @ ind_block 3)"
proof -
  show "map (bmap ind_block 1 5 (i_block holed_inode)) [0..<13] = Some 1 # replicate 11 None @ [Some 3]" by code_simp
  obtain st ctx1 where c1: "resolve_name ind_env ((base_ctx 4 5)\<lparr>names := st\<rparr>) 7 = Some (''7_file'', ctx1)" by (rule ind_setup)
  have w: "map_blocks ind_block 4 5 (i_block holed_inode) = [1, 3]" by code_simp
  have "\<exists>ctx'. recover_indirect_file ind_env ((base_ctx 4 5)\<lparr>names := st\<rparr>) 7 holed_inode = Some (0, ctx') \<and>
      files ctx' = (files ((base_ctx 4 5)\<lparr>names := st\<rparr>))(''ind_'' @ ''7_file'' \<mapsto> take 52 (concat (map ind_block [1, 3])))"
    by (rule recover_indirect_file_walk [OF _ _ c1 _ _ _ ind_block_io])
      (simp_all add: holed_inode_def ind_inode_def inode_size64_def ind_env_def ideal_env_def base_ctx_def MAX_IND_BLOCKS_def
        w [unfolded holed_inode_def ind_inode_def, simplified])
  moreover have "take 52 (concat (map ind_block [1, 3])) = ind_block 1 @ ind_block 3" by (simp add: ind_block_def ind_dev_def)
  ultimately show "\<exists>st ctx'. recover_indirect_file ind_env ((base_ctx 4 5)\<lparr>names := st\<rparr>) 7 holed_inode = Some (0, ctx') \<and>
     files ctx' ''ind_7_file'' = Some (ind_block 1 @ ind_block 3)" by (auto intro: exI [of _ st])
qed

section \<open>Properties\<close>

text \<open>Property C19: a file of the block-map format without holes is recovered as the format defines it.  Let the
  device be readable and blocks be written whole.  When every one of the first \<open>l\<close> blocks of the file is mapped, where \<open>l\<close> is the
  number of blocks that its size asks for but at most \<open>reach\<close> (the direct, single and double indirect ones, at most
  \<open>MAX_IND_BLOCKS\<close>), the output holds these \<open>l\<close> blocks, block \<open>i\<close> from the device block that the ext2 block map
  assigns to it, cut to the size in the inode; an output that is already as large is left alone.  A larger
  file loses the blocks after these: triple indirect blocks are never read.  Files with holes are not covered
  (see \<open>hole_shifts_blocks\<close>).\<close>

theorem recover_indirect_file_exact:
  assumes "i_flags jinode AND EXT4_EXTENTS_FL = 0" and "inode_size64 jinode \<noteq> 0"
    and "resolve_name env ctx ino = Some (base, ctx1)" and "out_open env (''ind_'' @ base)"
    and "\<forall>n. malloc_ok env n" and "\<forall>name n. out_truncate env name n"
    and "block_io env ctx dev" and "0 < blocksize ctx"
    and "n = blocksize ctx div 4" and "sz = unat (inode_size64 jinode)"
    and "l = min ((sz + blocksize ctx - 1) div blocksize ctx) (reach n)"
    and "\<forall>i<l. bmap dev n (total_blocks ctx) (i_block jinode) i \<noteq> None"
  shows "if files ctx (''ind_'' @ base) \<noteq> None \<and> sz \<le> stat_size ctx (''ind_'' @ base)
    then recover_indirect_file env ctx ino jinode = Some (1, ctx1)
    else \<exists>ctx'. recover_indirect_file env ctx ino jinode = Some (0, ctx') \<and>
       files ctx' = (files ctx)(''ind_'' @ base \<mapsto>
         take sz (concat (map (\<lambda>i. dev (the (bmap dev n (total_blocks ctx) (i_block jinode) i))) [0..<l])))"
proof (cases "files ctx (''ind_'' @ base) \<noteq> None \<and> sz \<le> stat_size ctx (''ind_'' @ base)")
  case True
  obtain st where c1: "ctx1 = ctx\<lparr>names := st\<rparr>" using assms(3) by (auto simp: resolve_name_def Let_def)
  have "stat_size ctx1 x = stat_size ctx x" "files ctx1 = files ctx" for x by (simp_all add: c1 stat_size_def)
  then show ?thesis using True assms(1-3,10) by (simp add: recover_indirect_file_def Let_def unat_eq_zero)
next
  case False
  define bs where "bs = take MAX_IND_BLOCKS (map_blocks dev (blocksize ctx) (total_blocks ctx) (i_block jinode))"
  have "bmap dev n (total_blocks ctx) (i_block jinode) j \<noteq> None" if "j < l" for j using assms(12) that by blast
  note content = map_blocks_content [OF assms(9,7,8,11) this bs_def]
  have "(sz + blocksize ctx - 1) div blocksize ctx \<noteq> 0"
    using assms(2,8,10) unat_gt_0 [of "inode_size64 jinode"] by (simp add: div_eq_0_iff)
  then have "bs \<noteq> []" using content(3) assms(11) by (auto simp: reach_def MAX_IND_BLOCKS_def)
  then show ?thesis
    unfolding if_not_P [OF False] using recover_indirect_file_walk [OF assms(1-8,10) bs_def _ False] by (simp only: content(1) not_False_eq_True)
qed

lemma twelve: "replicate 12 x = [x, x, x, x, x, x, x, x, x, x, x, x]"
  by (simp add: numeral_eq_Suc)

theorem recover_indirect_file_exact_witness:
  "\<exists>st ctx'. recover_indirect_file ind_env ((base_ctx 4 5)\<lparr>names := st\<rparr>) 7 (ind_inode 54 (replicate 12 1 @ [2, 4, 0])) = Some (0, ctx') \<and>
     files ctx' ''ind_7_file'' = Some (concat (replicate 12 (ind_block 1)) @ ind_block 3 @ [21, 22])"
proof -
  let ?j = "ind_inode 54 (replicate 12 1 @ [2, 4, 0])"
  let ?want = "replicate 12 (Some 1) @ [Some 3, Some 3]"
  obtain st ctx1 where c1: "resolve_name ind_env ((base_ctx 4 5)\<lparr>names := st\<rparr>) 7 = Some (''7_file'', ctx1)" by (rule ind_setup)
  have bm: "map (bmap ind_block 1 5 (i_block ?j)) [0..<14] = ?want" by code_simp
  have "bmap ind_block 1 5 (i_block ?j) i \<in> set ?want" if "i < 14" for i
    unfolding bm [symmetric] using that by auto
  then have mapped: "\<forall>i<14. bmap ind_block 1 5 (i_block ?j) i \<noteq> None" by fastforce
  have "map (\<lambda>i. ind_block (the (bmap ind_block 1 5 (i_block ?j) i))) [0..<14] = map (ind_block \<circ> the) ?want"
    unfolding bm [symmetric] by simp
  moreover have blocks: "ind_block 1 = [11, 12, 13, 14]" "ind_block 3 = [21, 22, 23, 24]" by code_simp+
  ultimately have bytes: "take 54 (concat (map (\<lambda>i. ind_block (the (bmap ind_block 1 5 (i_block ?j) i))) [0..<14])) =
      concat (replicate 12 (ind_block 1)) @ ind_block 3 @ [21, 22]"
    by (simp add: blocks twelve)
  have j: "i_flags ?j AND EXT4_EXTENTS_FL = 0" "inode_size64 ?j \<noteq> 0" "54 = unat (inode_size64 ?j)"
    by (simp_all add: ind_inode_def inode_size64_def)
  have "if files ((base_ctx 4 5)\<lparr>names := st\<rparr>) (''ind_'' @ ''7_file'') \<noteq> None \<and> 54 \<le> stat_size ((base_ctx 4 5)\<lparr>names := st\<rparr>) (''ind_'' @ ''7_file'')
    then recover_indirect_file ind_env ((base_ctx 4 5)\<lparr>names := st\<rparr>) 7 ?j = Some (1, ctx1)
    else \<exists>ctx'. recover_indirect_file ind_env ((base_ctx 4 5)\<lparr>names := st\<rparr>) 7 ?j = Some (0, ctx') \<and>
       files ctx' = (files ((base_ctx 4 5)\<lparr>names := st\<rparr>))(''ind_'' @ ''7_file'' \<mapsto>
         take 54 (concat (map (\<lambda>i. ind_block (the (bmap ind_block 1 (total_blocks ((base_ctx 4 5)\<lparr>names := st\<rparr>)) (i_block ?j) i))) [0..<14])))"
    by (rule recover_indirect_file_exact [OF j(1,2) c1 _ _ _ ind_block_io _ _ j(3)])
      (use mapped in \<open>simp_all add: ind_env_def ideal_env_def base_ctx_def reach_def MAX_IND_BLOCKS_def\<close>)
  then obtain ctx' where "recover_indirect_file ind_env ((base_ctx 4 5)\<lparr>names := st\<rparr>) 7 ?j = Some (0, ctx')"
    "files ctx' ''ind_7_file'' = Some (concat (replicate 12 (ind_block 1)) @ ind_block 3 @ [21, 22])"
    using bytes by (auto simp: base_ctx_def)
  then show ?thesis by blast
qed

end
