(* ===== verification/Journal_Scan.thy ===== *)
theory Journal_Scan
  imports Journal_Inode Inode_Table Journal_Versions Indirect_Files
begin

text \<open>
  The scan of the whole journal (\<^verbatim>\<open>journal_recovery_v5.c\<close>: \<open>process_inode_table_block\<close>,
  \<open>is_standalone_extent_block\<close>, \<open>recover_from_journal\<close>).  The inode-table map, a static variable of
  the source, and the tracked versions are passed explicitly.  Journal block numbers are natural
  numbers: they stay far below 2^64 because the journal length is a 32-bit field.  Where the source
  tests \<^verbatim>\<open>ctx->journal_len\<close> the model has the parameter \<open>jlen\<close>.
\<close>

section \<open>Inodes of a journalled inode-table block\<close>

definition EXT2_GOOD_OLD_FIRST_INO :: u32 where
  "EXT2_GOOD_OLD_FIRST_INO = 11"

definition EXT2_ROOT_INO :: u32 where
  "EXT2_ROOT_INO = 2"

definition calc_ino :: "recover_context \<Rightarrow> itable_range list \<Rightarrow> blk64_t \<Rightarrow> nat \<Rightarrow> u32" where
  "calc_ino ctx m fs_block off =
     calc_inode_from_block m (s_inodes_per_group (super ctx)) (s_inode_size (super ctx)) (blocksize ctx) fs_block off"

definition unlinked_now :: "env \<Rightarrow> u32 \<Rightarrow> bool" where
  "unlinked_now env ino \<longleftrightarrow>
     (case lib_read_inode env ino of None \<Rightarrow> False | Some cur \<Rightarrow> i_links_count cur = 0)"

text \<open>
  The branch for inodes without extents hands \<^verbatim>\<open>&state\<close>, the address of its own variable \<^verbatim>\<open>state\<close>, to functions that
  expect \<^verbatim>\<open>state\<close>.  What is behind an argument of type \<^verbatim>\<open>struct journal_scan_state *\<close> is therefore the arrays, or a pointer; reading a
  pointer as if it were the structure has no defined result.
\<close>

datatype state_arg = The_state "tracked list" | Addr_of_state

definition deref_state :: "state_arg \<Rightarrow> tracked list ub" where
  "deref_state a = (case a of The_state vs \<Rightarrow> Some vs | Addr_of_state \<Rightarrow> None)"

definition skip_at :: "state_arg \<Rightarrow> u32 \<Rightarrow> u32 \<Rightarrow> u64 \<Rightarrow> bool \<Rightarrow> bool ub" where
  "skip_at a ino seq sz is_live = map_option (\<lambda>vs. should_skip_version vs ino seq sz is_live) (deref_state a)"

definition mark_at :: "state_arg \<Rightarrow> u32 \<Rightarrow> u64 \<Rightarrow> u32 \<Rightarrow> bool \<Rightarrow> tracked list ub" where
  "mark_at a ino sz seq is_live = map_option (\<lambda>vs. mark_version vs ino sz seq is_live) (deref_state a)"

text \<open>One of the two blocks of the branch: select, recover by \<open>rec\<close>, mark.  The third component tells a skip.\<close>

definition non_extent_copy ::
  "(recover_context \<Rightarrow> (int \<times> recover_context) ub) \<Rightarrow> state_arg \<Rightarrow> u32 \<Rightarrow> u32 \<Rightarrow> u64 \<Rightarrow> bool \<Rightarrow>
   recover_context \<Rightarrow> tracked list \<Rightarrow> (recover_context \<times> tracked list \<times> bool) ub" where
  "non_extent_copy rec a ino seq sz is_live ctx vs =
     do {
       sk \<leftarrow> skip_at a ino seq sz is_live;
       if sk then Some (ctx, vs, True)
       else do {
         (r, ctx) \<leftarrow> rec ctx;
         if r = 0 then map_option (\<lambda>vs. (ctx, vs, False)) (mark_at a ino sz seq is_live)
         else Some (ctx, vs, False)
       }
     }"

definition process_non_extent ::
  "env \<Rightarrow> recover_context \<Rightarrow> tracked list \<Rightarrow> itable_range list \<Rightarrow> blk64_t \<Rightarrow> nat \<Rightarrow> u32 \<Rightarrow> ext2_inode \<Rightarrow>
   (recover_context \<times> tracked list) ub" where
  "process_non_extent env ctx vs m fs_block off seq jinode =
     (let inl = (i_flags jinode AND EXT4_INLINE_DATA_FL \<noteq> 0); file_size = inode_size64 jinode;
          is_live = (i_links_count jinode > 0)
      in do {
        (ctx, vs, skipped) \<leftarrow>
          (if has_inline_data (caps ctx) \<and> inl then
             (let ino = calc_ino ctx m fs_block off in
              if ino > EXT2_GOOD_OLD_FIRST_INO \<and> unlinked_now env ino
              then non_extent_copy (\<lambda>ctx. recover_inline_data env ctx ino jinode) Addr_of_state ino seq file_size is_live ctx vs
              else Some (ctx, vs, False))
           else Some (ctx, vs, False));
        if skipped then Some (ctx, vs)
        else if \<not> inl \<and> file_size > 0 then
          (let ino = calc_ino ctx m fs_block off in
           if ino > EXT2_GOOD_OLD_FIRST_INO \<and> unlinked_now env ino
           then map_option (\<lambda>(ctx, vs, _). (ctx, vs))
                  (non_extent_copy (\<lambda>ctx. recover_indirect_file env ctx ino jinode) Addr_of_state ino seq file_size is_live ctx vs)
           else Some (ctx, vs))
        else Some (ctx, vs)
      })"

text \<open>The copies for which the branch makes such a call.\<close>

definition reaches_state_call :: "env \<Rightarrow> recover_context \<Rightarrow> itable_range list \<Rightarrow> blk64_t \<Rightarrow> nat \<Rightarrow> ext2_inode \<Rightarrow> bool" where
  "reaches_state_call env ctx m fs_block off jinode \<longleftrightarrow>
     (if i_flags jinode AND EXT4_INLINE_DATA_FL \<noteq> 0 then has_inline_data (caps ctx) else inode_size64 jinode > 0) \<and>
     calc_ino ctx m fs_block off > EXT2_GOOD_OLD_FIRST_INO \<and> unlinked_now env (calc_ino ctx m fs_block off)"

lemma non_extent_copy_undefined [simp]: "non_extent_copy rec Addr_of_state ino seq sz l ctx vs = None"
  by (simp add: non_extent_copy_def skip_at_def deref_state_def)

lemma process_non_extent_cases:
  "process_non_extent env ctx vs m fs_block off seq jinode =
     (if reaches_state_call env ctx m fs_block off jinode then None else Some (ctx, vs))"
  by (auto simp: process_non_extent_def reaches_state_call_def Let_def)

definition is_deleted :: "ext2_inode \<Rightarrow> u64 \<Rightarrow> bool" where
  "is_deleted cur file_size \<longleftrightarrow>
     i_links_count cur = 0 \<or> i_dtime cur \<noteq> 0 \<or> i_size cur = 0 \<and> file_size > 0"

definition process_inode ::
  "env \<Rightarrow> itable_range list \<Rightarrow> buffer \<Rightarrow> blk64_t \<Rightarrow> u32 \<Rightarrow> nat \<Rightarrow> recover_context \<times> tracked list \<times> nat \<Rightarrow>
   (recover_context \<times> tracked list \<times> nat) ub" where
  "process_inode env m buf fs_block seq off s =
     (case s of (ctx, vs, recovered) \<Rightarrow>
       case inode_at buf off of None \<Rightarrow> None
       | Some jinode \<Rightarrow>
         let file_size = inode_size64 jinode; eh = header_at (i_block jinode);
             ino = calc_ino ctx m fs_block off; is_live = (i_links_count jinode > 0) in
         if \<not> LINUX_S_ISREG (i_mode jinode) then Some s
         else if file_size = 0 then Some s
         else if i_flags jinode AND EXT4_EXTENTS_FL = 0
         then map_option (\<lambda>(ctx, vs). (ctx, vs, recovered)) (process_non_extent env ctx vs m fs_block off seq jinode)
         else if eh_magic eh \<noteq> EXT4_EXT_MAGIC then Some s
         else if eh_entries eh = 0 then Some s
         else if ino = 0 then Some s
         else if ino \<le> EXT2_GOOD_OLD_FIRST_INO \<and> ino \<noteq> EXT2_ROOT_INO then Some s
         else case lib_read_inode env ino of None \<Rightarrow> Some s
         | Some cur_inode \<Rightarrow>
             if \<not> is_deleted cur_inode file_size then Some s
             else if should_skip_version vs ino seq file_size is_live then Some s
             else case recover_inode_from_journal env ctx ino jinode seq of None \<Rightarrow> None
             | Some (r, ctx') \<Rightarrow>
                 if r = 0 then Some (ctx', mark_version vs ino file_size seq is_live, recovered + 1)
                 else if r = 1 then Some (ctx', mark_version vs ino 0 seq is_live, recovered)
                 else Some (ctx', vs, recovered))"

primrec inode_loop ::
  "env \<Rightarrow> itable_range list \<Rightarrow> buffer \<Rightarrow> blk64_t \<Rightarrow> u32 \<Rightarrow> nat \<Rightarrow> nat list \<Rightarrow> recover_context \<times> tracked list \<times> nat \<Rightarrow>
   (recover_context \<times> tracked list \<times> nat) ub" where
  "inode_loop env m buf fs_block seq isz [] s = Some s"
| "inode_loop env m buf fs_block seq isz (i # is) s =
     (case process_inode env m buf fs_block seq (i * isz) s of
        None \<Rightarrow> None | Some s' \<Rightarrow> inode_loop env m buf fs_block seq isz is s')"

definition process_inode_table_block ::
  "env \<Rightarrow> itable_range list \<Rightarrow> buffer \<Rightarrow> blk64_t \<Rightarrow> u32 \<Rightarrow> recover_context \<Rightarrow> tracked list \<Rightarrow>
   (recover_context \<times> tracked list \<times> nat) ub" where
  "process_inode_table_block env m buf fs_block seq ctx vs =
     (let isz = unat (s_inode_size (super ctx)) in
      if isz = 0 then None
      else inode_loop env m buf fs_block seq isz [0..<blocksize ctx div isz] (ctx, vs, 0))"

definition is_standalone_extent_block :: "buffer \<Rightarrow> nat \<Rightarrow> bool" where
  "is_standalone_extent_block buf bs =
     (let eh = header_at buf; entries = eh_entries eh; max_ent = eh_max eh in
      if eh_magic eh \<noteq> EXT4_EXT_MAGIC then False
      else if entries = 0 \<or> entries > max_ent then False
      else max_ent > 4 \<and> uint max_ent \<le> (int bs - 12) div 12)"

section \<open>Descriptor tags\<close>

definition JBD2_FLAG_ESCAPE :: u32 where "JBD2_FLAG_ESCAPE = 0x0001"

definition JBD2_FLAG_SAME_UUID :: u32 where "JBD2_FLAG_SAME_UUID = 0x0002"

definition JBD2_FLAG_LAST_TAG :: u32 where "JBD2_FLAG_LAST_TAG = 0x0008"

definition JBD2_DESCRIPTOR_BLOCK :: u32 where "JBD2_DESCRIPTOR_BLOCK = 1"

text \<open>The block number and the flags of the tag at \<open>pos\<close>.\<close>

definition decode_tag :: "bool \<Rightarrow> jbd2_tag_format \<Rightarrow> buffer \<Rightarrow> nat \<Rightarrow> (blk64_t \<times> u32) ub" where
  "decode_tag b64 tag_fmt buf pos =
     (if pos + (if b64 then 12 else 8) > length buf then None
      else Some ((if b64 then ucast (be32_at buf pos) OR push_bit 32 (ucast (be32_at buf (pos + 8)))
                  else ucast (be32_at buf pos)),
                 (if tag_fmt = JBD2_TAG_FMT_CSUM_V3 then be32_at buf (pos + 4) else ucast (be16_at buf (pos + 6)))))"

definition jindex_record ::
  "env \<Rightarrow> recover_context \<Rightarrow> blk64_t \<Rightarrow> nat \<Rightarrow> u32 \<Rightarrow> u32 \<Rightarrow> recover_context" where
  "jindex_record env ctx fs_block data_blk seq flags =
     (case jindex ctx of None \<Rightarrow> ctx
      | Some ji \<Rightarrow>
          let ok = malloc_ok env ((if ji_cap ji \<noteq> 0 then ji_cap ji * 2 else 4096) * 24)
          in ctx\<lparr>jindex := Some (snd (jindex_add ok ji fs_block (of_nat data_blk) seq (flags AND JBD2_FLAG_ESCAPE \<noteq> 0)))\<rparr>)"

text \<open>What the loop does with a tag whose block is on the device and whose data block is in the journal.\<close>

definition process_tag ::
  "env \<Rightarrow> itable_range list \<Rightarrow> u32 \<Rightarrow> blk64_t \<Rightarrow> u32 \<Rightarrow> nat \<Rightarrow> recover_context \<times> tracked list \<Rightarrow>
   (recover_context \<times> tracked list) ub" where
  "process_tag env m seq fs_block flags data_blk s =
     (case s of (ctx0, vs) \<Rightarrow>
       let ctx = jindex_record env ctx0 fs_block data_blk seq flags in
       case read_journal_block env ctx data_blk of
         None \<Rightarrow> Some (ctx, vs)
       | Some data \<Rightarrow>
           let data_buf = (if flags AND JBD2_FLAG_ESCAPE \<noteq> 0 then restore_magic data else data) in
           if is_inode_table_block m fs_block
           then map_option (\<lambda>(ctx', vs', _). (ctx', vs'))
                  (process_inode_table_block env m data_buf fs_block seq ctx vs)
           else if is_standalone_extent_block data_buf (blocksize ctx) then Some (ctx, vs)
           else Some (ctx, vs))"

text \<open>
  The \<open>while\<close> loop over the tags: \<open>pos\<close> is \<open>tagp\<close>, \<open>n\<close> counts the data blocks passed, so that
  \<open>data_blk\<close> is \<open>first + n\<close>.  A tag size of 0, which no journal has, gives no result.
\<close>

function tag_loop ::
  "env \<Rightarrow> itable_range list \<Rightarrow> nat \<Rightarrow> u32 \<Rightarrow> bool \<Rightarrow> jbd2_tag_format \<Rightarrow> nat \<Rightarrow> buffer \<Rightarrow> nat \<Rightarrow>
   nat \<Rightarrow> int \<Rightarrow> nat \<Rightarrow> recover_context \<times> tracked list \<Rightarrow> (nat \<times> recover_context \<times> tracked list) ub" where
  "tag_loop env m jlen seq b64 tag_fmt tag_bytes desc first pos remaining n s =
     (if tag_bytes = 0 then None
      else if remaining \<ge> int tag_bytes then
        (case decode_tag b64 tag_fmt desc pos of None \<Rightarrow> None
         | Some (fs_block, flags) \<Rightarrow>
             let uuid = (if flags AND JBD2_FLAG_SAME_UUID = 0 then 16 else 0);
                 pos' = pos + tag_bytes + uuid; remaining' = remaining - int tag_bytes - int uuid;
                 last = (flags AND JBD2_FLAG_LAST_TAG \<noteq> 0)
             in if fs_block = 0 \<or> fs_block \<ge> total_blocks (fst s) then
                  (if last then Some (n + 1, s)
                   else tag_loop env m jlen seq b64 tag_fmt tag_bytes desc first pos' remaining' (n + 1) s)
                else if first + n \<ge> jlen then Some (n, s)
                else case process_tag env m seq fs_block flags (first + n) s of None \<Rightarrow> None
                     | Some s' \<Rightarrow>
                         if last then Some (n + 1, s')
                         else tag_loop env m jlen seq b64 tag_fmt tag_bytes desc first pos' remaining' (n + 1) s')
      else Some (n, s))"
  by pat_completeness auto
termination
  by (relation "measure (\<lambda>(env, m, jlen, seq, b64, tag_fmt, tag_bytes, desc, first, pos, remaining, n, s). nat remaining)")
     (auto simp: Let_def)

declare tag_loop.simps [simp del]

definition tag_params :: "fs_capabilities \<Rightarrow> jbd2_tag_format \<times> nat" where
  "tag_params c = (if journal_probed c then (jbd2_tag_fmt c, jbd2_tag_bytes c) else (JBD2_TAG_FMT_V1, 12))"

section \<open>The scan\<close>

definition walk_descriptor ::
  "env \<Rightarrow> itable_range list \<Rightarrow> nat \<Rightarrow> buffer \<Rightarrow> nat \<Rightarrow> recover_context \<times> tracked list \<Rightarrow>
   (nat \<times> recover_context \<times> tracked list) ub" where
  "walk_descriptor env m jlen desc blk s =
     (let ctx = fst s; (tag_fmt, tag_bytes) = tag_params (caps ctx) in
      tag_loop env m jlen (be32_at desc 8) (jbd2_has_64bit (caps ctx)) tag_fmt tag_bytes desc (blk + 1)
        12 (int (blocksize ctx) - 12) 0 s)"

function journal_scan_loop ::
  "env \<Rightarrow> itable_range list \<Rightarrow> nat \<Rightarrow> nat \<Rightarrow> recover_context \<times> tracked list \<Rightarrow> (recover_context \<times> tracked list) ub" where
  "journal_scan_loop env m jlen blk s =
     (if blk < jlen then
        (case read_journal_block env (fst s) blk of
           None \<Rightarrow> journal_scan_loop env m jlen (blk + 1) s
         | Some desc \<Rightarrow>
             if be32_at desc 0 \<noteq> JBD2_MAGIC_NUMBER then journal_scan_loop env m jlen (blk + 1) s
             else if be32_at desc 4 \<noteq> JBD2_DESCRIPTOR_BLOCK then journal_scan_loop env m jlen (blk + 1) s
             else case walk_descriptor env m jlen desc blk s of None \<Rightarrow> None
                  | Some (n, s') \<Rightarrow> journal_scan_loop env m jlen (blk + 1 + n) s')
      else Some s)"
  by pat_completeness auto
termination
  by (relation "measure (\<lambda>(env, m, jlen, blk, s). jlen - blk)") auto

declare journal_scan_loop.simps [simp del]

definition recover_from_journal :: "env \<Rightarrow> recover_context \<Rightarrow> (int \<times> recover_context) ub" where
  "recover_from_journal env ctx =
     (if \<not> has_journal ctx then Some (0, ctx)
      else case build_itable_map (malloc_ok env (unat (group_desc_count ctx) * 24)) (group_desc_count ctx)
                  (s_inodes_per_group (super ctx)) (s_inode_size (super ctx)) (blocksize ctx) (lib_inode_table_loc env) of
             None \<Rightarrow> Some (-1, ctx)
           | Some m \<Rightarrow>
               if \<not> (malloc_ok env (MAX_RECOVERED_INODES * 4) \<and> malloc_ok env (MAX_RECOVERED_INODES * 8) \<and>
                     malloc_ok env MAX_RECOVERED_INODES)
               then Some (-1, ctx)
               else if \<not> malloc_ok env (blocksize ctx) then Some (-1, ctx)
               else case journal_scan_loop env m (unat (journal_len ctx)) (unat (journal_start ctx)) (ctx, []) of
                      None \<Rightarrow> None
                    | Some (ctx', _) \<Rightarrow> Some (0, ctx'\<lparr>jindex := jindex_sort (jindex ctx')\<rparr>))"

section \<open>The wire format of a descriptor block\<close>

text \<open>What jbd2 stores for a tag: the low half of the block number, flags, the high half, padding for
  the checksum fields, and 16 bytes of UUID unless the flag says it is the same.\<close>

type_synonym tag = "blk64_t \<times> u32"

definition enc_tag :: "jbd2_tag_format \<Rightarrow> bool \<Rightarrow> tag \<Rightarrow> buffer" where
  "enc_tag fmt b64 t =
     be_bytes 4 (unat (fst t) mod 2 ^ 32) @
     (case fmt of
        JBD2_TAG_FMT_CSUM_V3 \<Rightarrow> be_bytes 4 (unat (snd t)) @ be_bytes 4 (unat (fst t) div 2 ^ 32) @ be_bytes 4 0
      | JBD2_TAG_FMT_CSUM_V2 \<Rightarrow> be_bytes 2 0 @ be_bytes 2 (unat (snd t)) @
          (if b64 then be_bytes 4 (unat (fst t) div 2 ^ 32) else []) @ be_bytes 2 0
      | JBD2_TAG_FMT_V1 \<Rightarrow> be_bytes 2 0 @ be_bytes 2 (unat (snd t)) @
          (if b64 then be_bytes 4 (unat (fst t) div 2 ^ 32) else [])) @
     (if snd t AND JBD2_FLAG_SAME_UUID = 0 then replicate 16 0 else [])"

definition tag_ok :: "jbd2_tag_format \<Rightarrow> bool \<Rightarrow> tag \<Rightarrow> bool" where
  "tag_ok fmt b64 t \<longleftrightarrow> (b64 \<or> unat (fst t) < 2 ^ 32) \<and> (fmt = JBD2_TAG_FMT_CSUM_V3 \<or> unat (snd t) < 2 ^ 16)"

definition fmt_bytes :: "jbd2_tag_format \<Rightarrow> bool \<Rightarrow> nat" where
  "fmt_bytes fmt b64 =
     (case fmt of JBD2_TAG_FMT_CSUM_V3 \<Rightarrow> 16
      | JBD2_TAG_FMT_CSUM_V2 \<Rightarrow> if b64 then 14 else 10
      | JBD2_TAG_FMT_V1 \<Rightarrow> if b64 then 12 else 8)"

lemma fmt_bytes_pos: "0 < fmt_bytes fmt b64" "(if b64 then 12 else 8) \<le> fmt_bytes fmt b64"
  by (cases fmt; simp add: fmt_bytes_def)+

lemma length_enc_tag:
  "length (enc_tag fmt b64 t) = fmt_bytes fmt b64 + (if snd t AND JBD2_FLAG_SAME_UUID = 0 then 16 else 0)"
  by (cases fmt) (simp_all add: enc_tag_def fmt_bytes_def)

lemma sub_buf_skip2: "length xs = off \<Longrightarrow> sub_buf (xs @ ys) (off + k) n = sub_buf ys k n"
  by (simp add: sub_buf_def)

lemma u64_high: "unat (b :: u64) div 4294967296 < 4294967296"
proof (rule less_mult_imp_div_less)
  show "unat b < 4294967296 * 4294967296" using unsigned_less [of b] by simp
qed

lemma halves:
  "ucast (of_nat (unat b mod 2 ^ 32) :: u32) OR push_bit 32 (ucast (of_nat (unat b div 2 ^ 32) :: u32)) = (b :: u64)"
proof -
  let ?l = "ucast (of_nat (unat b mod 2 ^ 32) :: u32) :: u64" and ?h = "push_bit 32 (ucast (of_nat (unat b div 2 ^ 32) :: u32)) :: u64"
  have ul: "unat b < 18446744073709551616" using unsigned_less [of b] by simp
  have hd: "unat b div 2 ^ 32 < 2 ^ 32" using u64_high by simp
  have l: "unat ?l = unat b mod 2 ^ 32" by (simp add: unat_ucast_up unat_of_nat)
  have "unat (ucast (of_nat (unat b div 2 ^ 32) :: u32) :: u64) = unat b div 2 ^ 32"
    using hd by (simp add: unat_ucast_up unat_of_nat)
  then have h: "unat ?h = unat b div 2 ^ 32 * 2 ^ 32"
    using hd by (simp add: push_bit_eq_mult unat_word_ariths)
  have "?l AND ?h = 0"
    by (rule bit_word_eqI) (auto simp: bit_and_iff bit_push_bit_iff bit_unsigned_iff dest: bit_imp_le_length)
  then have "?l OR ?h = ?l + ?h" by (simp add: disjunctive_add_eq_or)
  moreover have "unat (?l + ?h) = unat b"
  proof -
    have "unat ?l + unat ?h = unat b" unfolding l h by (simp add: mod_mult_div_eq)
    then show ?thesis using ul by (simp add: unat_word_ariths)
  qed
  ultimately show ?thesis by (simp add: word_unat_eq_iff)
qed

lemma decode_enc:
  assumes "length pre = pos" "tag_ok fmt b64 t"
  shows "decode_tag b64 fmt (pre @ enc_tag fmt b64 t @ post) pos = Some t"
proof -
  obtain b f where t: "t = (b, f)" by (cases t)
  let ?buf = "pre @ enc_tag fmt b64 t @ post"
  have lo: "be32_at ?buf pos = of_nat (unat b mod 2 ^ 32)"
    using assms(1) by (simp add: be32_at_def enc_tag_def t)
  have hi: "be32_at ?buf (pos + 8) = of_nat (unat b div 2 ^ 32)" if b64
    using assms(1) that
    by (cases fmt) (simp_all add: be32_at_def enc_tag_def t sub_buf_skip2 sub_buf_def u64_high)
  have blk: "(if b64 then ucast (be32_at ?buf pos) OR push_bit 32 (ucast (be32_at ?buf (pos + 8)))
              else ucast (be32_at ?buf pos)) = b"
  proof (cases b64)
    case True
    then show ?thesis using lo hi halves [of b] by simp
  next
    case False
    then have "unat b < 2 ^ 32" using assms(2) by (simp add: tag_ok_def t)
    then have "ucast (of_nat (unat b mod 2 ^ 32) :: u32) = b"
      by (simp add: word_unat_eq_iff unsigned_ucast_eq unsigned_take_bit_eq take_bit_nat_eq_self)
    then show ?thesis using lo False by simp
  qed
  have fl: "(if fmt = JBD2_TAG_FMT_CSUM_V3 then be32_at ?buf (pos + 4) else ucast (be16_at ?buf (pos + 6))) = f"
  proof (cases "fmt = JBD2_TAG_FMT_CSUM_V3")
    case True
    then show ?thesis
      using assms(1) u32_less [of f] by (simp add: be32_at_def enc_tag_def t sub_buf_skip2 sub_buf_def)
  next
    case False
    then have f: "unat f < 2 ^ 16" using assms(2) by (simp add: tag_ok_def t)
    then have "be16_at ?buf (pos + 6) = of_nat (unat f)"
      using assms(1) False by (cases fmt) (simp_all add: be16_at_def enc_tag_def t sub_buf_skip2 sub_buf_def)
    moreover have "ucast (of_nat (unat f) :: u16) = f"
      using f by (simp add: word_unat_eq_iff unsigned_ucast_eq unsigned_take_bit_eq take_bit_nat_eq_self)
    ultimately show ?thesis using False by simp
  qed
  have len: "\<not> pos + (if b64 then 12 else 8) > length ?buf"
    using assms(1) fmt_bytes_pos(2) [of b64 fmt] by (simp add: length_enc_tag)
  have "decode_tag b64 fmt ?buf pos = Some (b, f)"
    unfolding decode_tag_def blk fl using len by (rule if_not_P)
  then show ?thesis using t by simp
qed

text \<open>The same loop over the abstract tag list.\<close>

primrec run_tags ::
  "env \<Rightarrow> itable_range list \<Rightarrow> nat \<Rightarrow> u32 \<Rightarrow> nat \<Rightarrow> tag list \<Rightarrow> nat \<Rightarrow> recover_context \<times> tracked list \<Rightarrow>
   (nat \<times> recover_context \<times> tracked list) ub" where
  "run_tags env m jlen seq first [] n s = Some (n, s)"
| "run_tags env m jlen seq first (t # ts) n s =
     (if fst t = 0 \<or> fst t \<ge> total_blocks (fst s) then run_tags env m jlen seq first ts (n + 1) s
      else if first + n \<ge> jlen then Some (n, s)
      else case process_tag env m seq (fst t) (snd t) (first + n) s of None \<Rightarrow> None
           | Some s' \<Rightarrow> run_tags env m jlen seq first ts (n + 1) s')"

definition last_flag :: "tag \<Rightarrow> bool" where
  "last_flag t \<longleftrightarrow> snd t AND JBD2_FLAG_LAST_TAG \<noteq> 0"

lemma tag_loop_run:
  assumes "ts \<noteq> []" "\<forall>t \<in> set ts. tag_ok fmt b64 t" "last_flag (last ts)" "\<forall>t \<in> set (butlast ts). \<not> last_flag t"
    and "desc = pre @ concat (map (enc_tag fmt b64) ts) @ post" "length pre = pos" "rem = int (length desc) - int pos"
  shows "tag_loop env m jlen seq b64 fmt (fmt_bytes fmt b64) desc first pos rem n s = run_tags env m jlen seq first ts n s"
  using assms
proof (induction ts arbitrary: pre pos rem n s)
  case (Cons t ts)
  let ?e = "enc_tag fmt b64 t" and ?u = "if snd t AND JBD2_FLAG_SAME_UUID = 0 then 16 else 0 :: nat"
  let ?tb = "fmt_bytes fmt b64"
  obtain b f where t: "t = (b, f)" by (cases t)
  have d: "desc = pre @ ?e @ (concat (map (enc_tag fmt b64) ts) @ post)" using Cons.prems(5) by simp
  have dec: "decode_tag b64 fmt desc pos = Some (b, f)"
    unfolding d using decode_enc [OF Cons.prems(6)] Cons.prems(2) t by simp
  have room: "int ?tb \<le> rem" using Cons.prems(6,7) d by (simp add: length_enc_tag)
  have nz: "?tb \<noteq> 0" using fmt_bytes_pos(1) [of fmt b64] by simp
  have IH: "tag_loop env m jlen seq b64 fmt ?tb desc first (pos + ?tb + ?u) (rem - int ?tb - int ?u) n' s' =
      run_tags env m jlen seq first ts n' s'" if "ts \<noteq> []" for n' s'
    using Cons.prems that d
    by (intro Cons.IH [of "pre @ ?e"]) (auto simp: length_enc_tag)
  have lf: "(f AND JBD2_FLAG_LAST_TAG \<noteq> 0) = (ts = [])"
    using Cons.prems(3,4) by (cases ts) (auto simp: last_flag_def t)
  show ?case
    apply (subst tag_loop.simps)
    using dec room nz lf IH
    by (auto simp: t Let_def split: option.split)
qed simp

section \<open>What processing a block leaves alone\<close>

definition scan_frame :: "recover_context \<Rightarrow> recover_context \<Rightarrow> bool" where
  "scan_frame c c' \<longleftrightarrow>
     c' = c\<lparr>files := files c', recovered_extents := recovered_extents c', names := names c',
            dedup_skipped := dedup_skipped c', journal_recovered := journal_recovered c'\<rparr>"

lemma scan_frame_refl [simp, intro]: "scan_frame c c"
  by (simp add: scan_frame_def)

lemma scan_frame_trans [trans]:
  assumes "scan_frame a b" "scan_frame b c"
  shows "scan_frame a c"
proof -
  obtain f r n d j f' r' n' d' j' where
    "b = a\<lparr>files := f, recovered_extents := r, names := n, dedup_skipped := d, journal_recovered := j\<rparr>"
    "c = b\<lparr>files := f', recovered_extents := r', names := n', dedup_skipped := d', journal_recovered := j'\<rparr>"
    using assms unfolding scan_frame_def by metis
  then show ?thesis by (simp add: scan_frame_def)
qed

lemma scan_frame_fields:
  assumes "scan_frame c c'"
  shows "jindex c' = jindex c" "total_blocks c' = total_blocks c" "blocksize c' = blocksize c" "super c' = super c"
    "caps c' = caps c" "journal_file c' = journal_file c"
proof -
  obtain f r n d j where
    c: "c' = c\<lparr>files := f, recovered_extents := r, names := n, dedup_skipped := d, journal_recovered := j\<rparr>"
    using assms unfolding scan_frame_def by metis
  show "jindex c' = jindex c" "total_blocks c' = total_blocks c" "blocksize c' = blocksize c" "super c' = super c"
    "caps c' = caps c" "journal_file c' = journal_file c"
    by (simp_all add: c)
qed

lemma touches_scan_frame: "touches fd c c' \<Longrightarrow> scan_frame c c'"
proof -
  assume "touches fd c c'"
  then obtain f r where "c' = c\<lparr>files := f, recovered_extents := r\<rparr>" unfolding touches_def by metis
  then show ?thesis by (simp add: scan_frame_def)
qed

lemma finish_scan_frame: "scan_frame c (snd (finish_output env c tmp base k sz))"
  by (auto simp: finish_output_def Let_def truncate_file_def rename_file_def unlink_def scan_frame_def split: option.split)

lemma via_temp_scan_frame:
  assumes "via_temp env c ino tmp fill sz = Some (r, c')"
    and "\<forall>c c' acc. fill c = Some (c', acc) \<longrightarrow> touches tmp c c'"
  shows "scan_frame c c'"
proof -
  obtain base c1 where n: "resolve_name env c ino = Some (base, c1)"
    using assms(1) by (auto simp: via_temp_def bind_eq_Some_conv)
  then have c1: "scan_frame c c1" by (auto simp: resolve_name_def Let_def scan_frame_def)
  show ?thesis
  proof (cases "open_trunc env c1 tmp")
    case None
    then show ?thesis using assms(1) n c1 by (simp add: via_temp_def)
  next
    case (Some c2)
    then have c2: "scan_frame c1 c2" by (auto simp: open_trunc_def scan_frame_def split: if_splits)
    obtain c3 acc where c3: "fill c2 = Some (c3, acc)" "finish_output env c3 tmp base (blocks_of acc) sz = (r, c')"
      using assms(1) n(1) Some by (auto simp: via_temp_def bind_eq_Some_conv)
    note c1
    also note c2
    also have "scan_frame c2 c3" using assms(2) c3(1) touches_scan_frame by blast
    also have "scan_frame c3 c'" using finish_scan_frame [of c3 env tmp base "blocks_of acc" sz] c3(2) by simp
    finally show ?thesis .
  qed
qed

lemma recover_inode_scan_frame:
  assumes "recover_inode_from_journal env c ino j seq = Some (r, c')"
  shows "scan_frame c c'"
proof -
  let ?is = "[0..<unat (eh_entries (header_at (i_block j)))]"
  have id: "scan_frame c c" "scan_frame c (c\<lparr>dedup_skipped := k\<rparr>)" for k by (simp_all add: scan_frame_def)
  consider "scan_frame c c'"
    | "via_temp env c ino (tmpname_ml ino) (\<lambda>ctx. ml_loop env seq (tmpname_ml ino) (i_block j) ?is ctx []) (inode_size64 j) = Some (r, c')"
    | "via_temp env c ino (tmpname_d0 ino) (\<lambda>ctx. leaf_copy_loop env (tmpname_d0 ino) (i_block j) ?is ctx []) (inode_size64 j) = Some (r, c')"
    using assms id
    by (auto simp: recover_inode_from_journal_def recover_multi_level_def recover_depth0_def Let_def bind_eq_Some_conv
        split: if_splits)
  then show ?thesis
  proof cases
    case 2
    from via_temp_scan_frame [OF 2] ml_touches show ?thesis by blast
  next
    case 3
    from via_temp_scan_frame [OF 3] leaf_copy_touches show ?thesis by blast
  qed
qed

lemma process_inode_scan_frame:
  assumes "process_inode env m buf b seq off s = Some s'"
  shows "scan_frame (fst s) (fst s')"
proof -
  obtain c vs k where s: "s = (c, vs, k)" by (cases s)
  consider "s' = s" | ino j r c' where "recover_inode_from_journal env c ino j seq = Some (r, c')" "fst s' = c'"
    using assms unfolding process_inode_def s
    by (auto simp: Let_def process_non_extent_cases split: option.splits if_splits)
  then show ?thesis using recover_inode_scan_frame s by cases auto
qed

lemma inode_loop_scan_frame:
  "inode_loop env m buf b seq isz is s = Some s' \<Longrightarrow> scan_frame (fst s) (fst s')"
proof (induction "is" arbitrary: s)
  case (Cons i "is")
  then obtain s1 where s1: "process_inode env m buf b seq (i * isz) s = Some s1"
    "inode_loop env m buf b seq isz is s1 = Some s'" by (auto split: option.splits)
  have "scan_frame (fst s) (fst s1)" using process_inode_scan_frame [OF s1(1)] .
  also have "scan_frame (fst s1) (fst s')" using Cons.IH [OF s1(2)] .
  finally show ?case .
qed simp

lemma process_tag_frame:
  assumes "process_tag env m seq b f k (c, vs) = Some (c', vs')"
  shows "scan_frame (jindex_record env c b k seq f) c'"
proof -
  let ?c = "jindex_record env c b k seq f"
  consider "c' = ?c" | buf n where "process_inode_table_block env m buf b seq ?c vs = Some (c', vs', n)"
    using assms by (auto simp: process_tag_def Let_def split: option.splits if_splits)
  then show ?thesis
  proof cases
    case 2
    then show ?thesis using inode_loop_scan_frame
      by (fastforce simp: process_inode_table_block_def Let_def split: if_splits)
  qed simp
qed

section \<open>Every descriptor is walked to its end\<close>

definition keeps :: "recover_context \<Rightarrow> recover_context \<Rightarrow> bool" where
  "keeps c c' \<longleftrightarrow> total_blocks c' = total_blocks c \<and> blocksize c' = blocksize c \<and> super c' = super c \<and>
     caps c' = caps c \<and> journal_file c' = journal_file c"

lemma keeps_refl2 [simp, intro]: "keeps c c"
  by (simp add: keeps_def)

lemma keeps_trans2 [trans]: "keeps a b \<Longrightarrow> keeps b c \<Longrightarrow> keeps a c"
  by (simp add: keeps_def)

lemma read_keeps: "keeps c c' \<Longrightarrow> read_journal_block env c' k = read_journal_block env c k"
  by (simp add: keeps_def read_journal_block_def split: option.split)

lemma jindex_record_keeps: "keeps c (jindex_record env c b k seq f)"
  by (simp add: jindex_record_def keeps_def Let_def split: option.split)

lemma process_tag_keeps:
  assumes "process_tag env m seq b f k s = Some s'"
  shows "keeps (fst s) (fst s')"
proof -
  obtain c vs c' vs' where s: "s = (c, vs)" "s' = (c', vs')" by (cases s; cases s')
  have "keeps c (jindex_record env c b k seq f)" by (rule jindex_record_keeps)
  also have "keeps (jindex_record env c b k seq f) c'"
    using scan_frame_fields [OF process_tag_frame [OF assms [unfolded s]]] by (simp add: keeps_def)
  finally show ?thesis using s by simp
qed

lemma read_length: "read_journal_block env c k = Some buf \<Longrightarrow> length buf = blocksize c"
  by (auto simp: read_journal_block_def split: if_splits option.splits)

text \<open>An invariant \<open>I\<close> under which the inode-table blocks of the journal can be processed.\<close>

definition tables_ok :: "env \<Rightarrow> itable_range list \<Rightarrow> (recover_context \<Rightarrow> bool) \<Rightarrow> bool" where
  "tables_ok env m I \<longleftrightarrow>
     (\<forall>c b k seq f. I c \<longrightarrow> I (jindex_record env c b k seq f)) \<and>
     (\<forall>c b k data buf seq vs. I c \<longrightarrow> is_inode_table_block m b \<longrightarrow> read_journal_block env c k = Some data \<longrightarrow>
        buf \<in> {data, restore_magic data} \<longrightarrow>
        (\<exists>c' vs' n. process_inode_table_block env m buf b seq c vs = Some (c', vs', n) \<and> I c'))"

lemma process_tag_defined:
  assumes "tables_ok env m I" "I (fst s)"
  shows "\<exists>s'. process_tag env m seq b f k s = Some s' \<and> I (fst s')"
proof -
  obtain c vs where s: "s = (c, vs)" by (cases s)
  let ?c = "jindex_record env c b k seq f"
  have c: "I ?c" using assms s by (simp add: tables_ok_def)
  show ?thesis
  proof (cases "read_journal_block env ?c k")
    case (Some data)
    let ?d = "if f AND JBD2_FLAG_ESCAPE \<noteq> 0 then restore_magic data else data"
    have "is_inode_table_block m b \<longrightarrow>
        (\<exists>c' vs' n. process_inode_table_block env m ?d b seq ?c vs = Some (c', vs', n) \<and> I c')"
      using assms(1) c Some unfolding tables_ok_def by (auto split: if_splits)
    then show ?thesis using Some s c by (auto simp: process_tag_def Let_def)
  qed (use c in \<open>simp add: process_tag_def s\<close>)
qed

lemma tag_loop_defined:
  assumes ok: "tables_ok env m I" and "I (fst s)" "(if b64 then 12 else 8) \<le> tb" "rem \<le> int (length desc) - int pos"
  shows "\<exists>n' s'. tag_loop env m jlen seq b64 fmt tb desc first pos rem n s = Some (n', s') \<and> keeps (fst s) (fst s') \<and> I (fst s')"
  using assms
proof (induction env m jlen seq b64 fmt tb desc first pos rem n s rule: tag_loop.induct)
  case (1 env m jlen seq b64 fmt tb desc first pos rem n s)
  have tb: "tb \<noteq> 0" using 1(5) by (auto split: if_splits)
  show ?case
  proof (cases "int tb \<le> rem")
    case False
    then show ?thesis using tb 1(4) by (subst tag_loop.simps) auto
  next
    case True
    then have "pos + (if b64 then 12 else 8) \<le> length desc" using 1(5,6) by (auto split: if_splits)
    then obtain b f where d: "decode_tag b64 fmt desc pos = Some (b, f)" by (simp add: decode_tag_def)
    define u where "u = (if f AND JBD2_FLAG_SAME_UUID = 0 then 16 else 0 :: nat)"
    define p where "p = pos + tb + u"
    define rm where "rm = rem - int tb - int u"
    have le: "rm \<le> int (length desc) - int p" using 1(6) by (simp add: p_def rm_def)
    note IH = 1(1,2) [OF tb True d refl u_def p_def rm_def refl]
    note step = tag_loop.simps [of env m jlen seq b64 fmt tb desc first pos rem n s]
    show ?thesis
    proof (cases "b = 0 \<or> b \<ge> total_blocks (fst s)")
      case bad: True
      then show ?thesis
        using IH(1) [OF bad _ 1(3,4,5) le] tb True d 1(4)
        by (cases "f AND JBD2_FLAG_LAST_TAG \<noteq> 0") (auto simp: step Let_def u_def p_def rm_def)
    next
      case good: False
      show ?thesis
      proof (cases "first + n \<ge> jlen")
        case True
        then show ?thesis using good tb \<open>int tb \<le> rem\<close> d 1(4) by (auto simp: step Let_def)
      next
        case False
        obtain s1 where s1: "process_tag env m seq b f (first + n) s = Some s1" "I (fst s1)"
          using process_tag_defined [OF 1(3,4)] by blast
        note k = process_tag_keeps [OF s1(1)]
        show ?thesis
          using IH(2) [OF good False s1(1) _ 1(3) s1(2) 1(5) le] tb True d good False s1 k
          by (cases "f AND JBD2_FLAG_LAST_TAG \<noteq> 0") (auto simp: step Let_def u_def p_def rm_def intro: keeps_trans2)
      qed
    qed
  qed
qed

lemma tag_params_room: "tag_format_ok c \<Longrightarrow> (if jbd2_has_64bit c then 12 else 8) \<le> snd (tag_params c)"
  by (auto simp: tag_format_ok_def tag_params_def split: if_splits)

lemma walk_defined:
  assumes "tables_ok env m I" "I (fst s)" "tag_format_ok (caps (fst s))" "length desc = blocksize (fst s)"
  shows "\<exists>n s'. walk_descriptor env m jlen desc blk s = Some (n, s') \<and> keeps (fst s) (fst s') \<and> I (fst s')"
  using tag_loop_defined [OF assms(1,2) tag_params_room [OF assms(3)]] assms(4)
  by (auto simp: walk_descriptor_def Let_def split: prod.split)

lemma scan_loop_defined:
  assumes "tables_ok env m I" "I (fst s)" "tag_format_ok (caps (fst s))"
  shows "\<exists>s'. journal_scan_loop env m jlen blk s = Some s' \<and> keeps (fst s) (fst s')"
  using assms
proof (induction env m jlen blk s rule: journal_scan_loop.induct)
  case (1 env m jlen blk s)
  note step = journal_scan_loop.simps [of env m jlen blk s]
  show ?case
  proof (cases "blk < jlen")
    case lt: True
    show ?thesis
    proof (cases "read_journal_block env (fst s) blk")
      case None
      then show ?thesis using 1(1) [OF lt None 1(5,6,7)] lt by (simp add: step)
    next
      case (Some desc)
      show ?thesis
      proof (cases "be32_at desc 0 = JBD2_MAGIC_NUMBER \<and> be32_at desc 4 = JBD2_DESCRIPTOR_BLOCK")
        case True
        obtain n s1 where w: "walk_descriptor env m jlen desc blk s = Some (n, s1)" "keeps (fst s) (fst s1)" "I (fst s1)"
          using walk_defined [OF 1(5,6,7) read_length [OF Some]] by blast
        have "tag_format_ok (caps (fst s1))" using 1(7) w(2) by (simp add: keeps_def)
        from 1(4) [OF lt Some _ _ w(1) refl 1(5) w(3) this] show ?thesis
          using lt Some True w by (auto simp: step intro: keeps_trans2)
      next
        case False
        then show ?thesis
          using 1(2) [OF lt Some _ 1(5,6,7)] 1(3) [OF lt Some _ _ 1(5,6,7)] lt Some
          by (cases "be32_at desc 0 = JBD2_MAGIC_NUMBER") (auto simp: step)
      qed
    qed
  qed (auto simp: step)
qed

section \<open>A journal of complete transactions\<close>

record txn =
  tx_seq :: u32
  tx_tags :: "tag list"
  tx_data :: "buffer list"

definition txn_header :: "nat \<Rightarrow> u32 \<Rightarrow> buffer" where
  "txn_header ty seq = be_bytes 4 0xc03b3998 @ be_bytes 4 ty @ be_bytes 4 (unat seq)"

definition desc_block :: "jbd2_tag_format \<Rightarrow> bool \<Rightarrow> nat \<Rightarrow> txn \<Rightarrow> buffer" where
  "desc_block fmt b64 bs tx =
     (let tags = concat (map (enc_tag fmt b64) (tx_tags tx))
      in txn_header 1 (tx_seq tx) @ tags @ replicate (bs - 12 - length tags) 0)"

definition txn_blocks :: "jbd2_tag_format \<Rightarrow> bool \<Rightarrow> nat \<Rightarrow> txn \<Rightarrow> buffer list" where
  "txn_blocks fmt b64 bs tx =
     desc_block fmt b64 bs tx # tx_data tx @ [txn_header 2 (tx_seq tx) @ replicate (bs - 12) 0]"

definition txn_ok :: "jbd2_tag_format \<Rightarrow> bool \<Rightarrow> nat \<Rightarrow> txn \<Rightarrow> bool" where
  "txn_ok fmt b64 bs tx \<longleftrightarrow>
     tx_tags tx \<noteq> [] \<and> (\<forall>t \<in> set (tx_tags tx). tag_ok fmt b64 t) \<and> last_flag (last (tx_tags tx)) \<and>
     (\<forall>t \<in> set (butlast (tx_tags tx)). \<not> last_flag t) \<and> length (tx_data tx) = length (tx_tags tx) \<and>
     12 + length (concat (map (enc_tag fmt b64) (tx_tags tx))) \<le> bs"

text \<open>The index entries the journal deserves: one for each tag whose block is on the device.\<close>

primrec tag_entries :: "blk64_t \<Rightarrow> u32 \<Rightarrow> nat \<Rightarrow> tag list \<Rightarrow> jindex_entry list" where
  "tag_entries tot seq k [] = []"
| "tag_entries tot seq k (t # ts) =
     (if fst t = 0 \<or> fst t \<ge> tot then []
      else [\<lparr>je_fs_block = fst t, je_journal_blk = of_nat k, je_seq = seq,
             je_escaped = (snd t AND JBD2_FLAG_ESCAPE \<noteq> 0)\<rparr>]) @ tag_entries tot seq (k + 1) ts"

primrec txn_entries :: "blk64_t \<Rightarrow> nat \<Rightarrow> txn list \<Rightarrow> jindex_entry list" where
  "txn_entries tot k [] = []"
| "txn_entries tot k (tx # txs) =
     tag_entries tot (tx_seq tx) (k + 1) (tx_tags tx) @ txn_entries tot (k + 2 + length (tx_tags tx)) txs"

definition index_grew :: "jindex_entry list \<Rightarrow> recover_context \<Rightarrow> recover_context \<Rightarrow> bool" where
  "index_grew es c c' \<longleftrightarrow> keeps c c' \<and>
     (\<forall>ji. jindex c = Some ji \<longrightarrow> (\<exists>ji'. jindex c' = Some ji' \<and> ji_e ji' = ji_e ji @ es))"

lemma index_grew_trans: "index_grew es a b \<Longrightarrow> index_grew es' b c \<Longrightarrow> index_grew (es @ es') a c"
  unfolding index_grew_def by (fastforce intro: keeps_trans2)

lemma process_tag_grew:
  assumes "process_tag env m seq b f k s = Some s'" "malloc_ok env = (\<lambda>_. True)"
  shows "index_grew [\<lparr>je_fs_block = b, je_journal_blk = of_nat k, je_seq = seq, je_escaped = (f AND JBD2_FLAG_ESCAPE \<noteq> 0)\<rparr>] (fst s) (fst s')"
proof -
  obtain c vs c' vs' where s: "s = (c, vs)" "s' = (c', vs')" by (cases s; cases s')
  have "jindex c' = jindex (jindex_record env c b k seq f)"
    using scan_frame_fields(1) [OF process_tag_frame [OF assms(1) [unfolded s]]] .
  then show ?thesis
    using process_tag_keeps [OF assms(1)] assms(2) s
    by (simp add: index_grew_def jindex_record_def jindex_add_def Let_def)
qed

lemma run_tags_grew:
  assumes "run_tags env m jlen seq first ts n s = Some (n', s')" "first + n + length ts \<le> jlen" "malloc_ok env = (\<lambda>_. True)"
  shows "n' = n + length ts \<and> index_grew (tag_entries (total_blocks (fst s)) seq (first + n) ts) (fst s) (fst s')"
  using assms
proof (induction ts arbitrary: n s)
  case Nil
  then show ?case by (auto simp: index_grew_def)
next
  case (Cons t ts)
  show ?case
  proof (cases "fst t = 0 \<or> fst t \<ge> total_blocks (fst s)")
    case True
    then have r: "run_tags env m jlen seq first ts (n + 1) s = Some (n', s')" using Cons.prems(1) by auto
    from Cons.IH [OF r] Cons.prems(2,3) True show ?thesis by auto
  next
    case False
    then obtain s1 where s1: "process_tag env m seq (fst t) (snd t) (first + n) s = Some s1"
      "run_tags env m jlen seq first ts (n + 1) s1 = Some (n', s')"
      using Cons.prems(1,2) by (auto split: option.splits)
    have tot: "total_blocks (fst s1) = total_blocks (fst s)" using process_tag_keeps [OF s1(1)] by (simp add: keeps_def)
    have "n' = n + 1 + length ts \<and> index_grew (tag_entries (total_blocks (fst s1)) seq (first + (n + 1)) ts) (fst s1) (fst s')"
      using Cons.IH [OF s1(2)] Cons.prems(2,3) by simp
    then show ?thesis
      using index_grew_trans [OF process_tag_grew [OF s1(1) assms(3)]] False tot by simp
  qed
qed

lemma header_fields:
  "be32_at (txn_header ty seq @ rest) 0 = JBD2_MAGIC_NUMBER" "be32_at (txn_header ty seq @ rest) 8 = seq"
  "ty < 2 ^ 32 \<Longrightarrow> be32_at (txn_header ty seq @ rest) 4 = of_nat ty" "length (txn_header ty seq) = 12"
proof -
  let ?b = "txn_header ty seq @ rest"
  show "length (txn_header ty seq) = 12" by (simp add: txn_header_def)
  have "sub_buf ?b 0 4 = be_bytes 4 0xc03b3998" "sub_buf ?b 4 4 = be_bytes 4 ty" "sub_buf ?b 8 4 = be_bytes 4 (unat seq)"
    by (simp_all add: txn_header_def sub_buf_def)
  then show "be32_at ?b 0 = JBD2_MAGIC_NUMBER" "be32_at ?b 8 = seq" "ty < 2 ^ 32 \<Longrightarrow> be32_at ?b 4 = of_nat ty"
    using u32_less [of seq] by (simp_all add: be32_at_def JBD2_MAGIC_NUMBER_def)
qed

lemma walk_desc_block:
  assumes "txn_ok fmt b64 bs tx" "tag_params (caps (fst s)) = (fmt, fmt_bytes fmt b64)" "jbd2_has_64bit (caps (fst s)) = b64"
    "blocksize (fst s) = bs"
  shows "walk_descriptor env m jlen (desc_block fmt b64 bs tx) blk s =
     run_tags env m jlen (tx_seq tx) (blk + 1) (tx_tags tx) 0 s"
proof -
  let ?tags = "concat (map (enc_tag fmt b64) (tx_tags tx))"
  have d: "desc_block fmt b64 bs tx = txn_header 1 (tx_seq tx) @ ?tags @ replicate (bs - 12 - length ?tags) 0"
    by (simp add: desc_block_def Let_def)
  have "length (desc_block fmt b64 bs tx) = bs"
    using assms(1) unfolding d by (simp add: header_fields(4) txn_ok_def)
  moreover have "be32_at (desc_block fmt b64 bs tx) 8 = tx_seq tx" unfolding d by (rule header_fields)
  ultimately show ?thesis
    using tag_loop_run [of "tx_tags tx" fmt b64 _ "txn_header 1 (tx_seq tx)" "replicate (bs - 12 - length ?tags) 0" 12
        "int bs - 12" env m jlen "tx_seq tx" "blk + 1" 0 s] assms header_fields(4)
    by (simp add: walk_descriptor_def d Let_def txn_ok_def split: prod.split)
qed

definition journal_holds :: "env \<Rightarrow> recover_context \<Rightarrow> nat \<Rightarrow> buffer list \<Rightarrow> bool" where
  "journal_holds env c blk bs \<longleftrightarrow> (\<forall>k < length bs. read_journal_block env c (blk + k) = Some (bs ! k))"

lemma journal_holds_append:
  "journal_holds env c blk (xs @ ys) \<longleftrightarrow> journal_holds env c blk xs \<and> journal_holds env c (blk + length xs) ys"
proof -
  have "journal_holds env c blk (xs @ ys) \<longleftrightarrow>
      (\<forall>k < length xs. read_journal_block env c (blk + k) = Some (xs ! k)) \<and>
      (\<forall>k < length ys. read_journal_block env c (blk + (length xs + k)) = Some (ys ! k))"
    unfolding journal_holds_def length_append
    by (auto simp: nth_append) (metis add_diff_inverse_nat nat_add_left_cancel_less not_less)
  then show ?thesis by (simp add: journal_holds_def add.assoc)
qed

lemma journal_holds_Cons:
  "journal_holds env c blk (x # xs) \<longleftrightarrow> read_journal_block env c blk = Some x \<and> journal_holds env c (blk + 1) xs"
  using journal_holds_append [of env c blk "[x]" xs] by (simp add: journal_holds_def)

lemma journal_holds_keeps: "keeps c c' \<Longrightarrow> journal_holds env c' blk bs = journal_holds env c blk bs"
  by (simp add: journal_holds_def read_keeps)

lemma scan_txns:
  assumes "journal_scan_loop env m jlen blk s = Some s'" "malloc_ok env = (\<lambda>_. True)"
    and "\<forall>tx \<in> set txs. txn_ok fmt b64 (blocksize (fst s)) tx"
    and "tag_params (caps (fst s)) = (fmt, fmt_bytes fmt b64)" "jbd2_has_64bit (caps (fst s)) = b64"
    and "journal_holds env (fst s) blk (concat (map (txn_blocks fmt b64 (blocksize (fst s))) txs))"
    and "jlen = blk + length (concat (map (txn_blocks fmt b64 (blocksize (fst s))) txs))"
  shows "index_grew (txn_entries (total_blocks (fst s)) blk txs) (fst s) (fst s')"
  using assms
proof (induction txs arbitrary: blk s)
  case Nil
  then show ?case by (auto simp: index_grew_def journal_scan_loop.simps [of env m blk blk s])
next
  case (Cons tx txs)
  let ?bs = "blocksize (fst s)" and ?k = "length (tx_tags tx)"
  let ?d = "desc_block fmt b64 ?bs tx" and ?cm = "txn_header 2 (tx_seq tx) @ replicate (?bs - 12) 0"
  let ?rest = "concat (map (txn_blocks fmt b64 ?bs) txs)"
  have ok: "txn_ok fmt b64 ?bs tx" using Cons.prems(3) by simp
  then have k: "length (tx_data tx) = ?k" by (simp add: txn_ok_def)
  have rd: "read_journal_block env (fst s) blk = Some ?d" "read_journal_block env (fst s) (blk + 1 + ?k) = Some ?cm"
    "journal_holds env (fst s) (blk + 2 + ?k) ?rest"
    using Cons.prems(6) k by (simp_all add: txn_blocks_def [of _ _ _ tx] journal_holds_Cons journal_holds_append)
  have len: "jlen = blk + 2 + ?k + length ?rest" using Cons.prems(7) k by (simp add: txn_blocks_def [of _ _ _ tx])
  then have lt: "blk < jlen" "blk + 1 + ?k < jlen" by simp_all
  have hd: "be32_at ?d 0 = JBD2_MAGIC_NUMBER" "be32_at ?d 4 = JBD2_DESCRIPTOR_BLOCK"
    unfolding desc_block_def Let_def using header_fields(3) [of 1] by (simp_all add: header_fields JBD2_DESCRIPTOR_BLOCK_def)
  obtain n s1 where w: "run_tags env m jlen (tx_seq tx) (blk + 1) (tx_tags tx) 0 s = Some (n, s1)"
    "journal_scan_loop env m jlen (blk + 1 + n) s1 = Some s'"
    using Cons.prems(1) rd(1) lt(1) hd walk_desc_block [OF ok Cons.prems(4,5) refl]
    by (auto simp: journal_scan_loop.simps [of env m jlen blk s] split: option.splits)
  have g: "n = ?k" "index_grew (tag_entries (total_blocks (fst s)) (tx_seq tx) (blk + 1) (tx_tags tx)) (fst s) (fst s1)"
    using run_tags_grew [OF w(1) _ Cons.prems(2)] len by auto
  then have kp: "keeps (fst s) (fst s1)" by (simp add: index_grew_def)
  have "be32_at ?cm 4 \<noteq> JBD2_DESCRIPTOR_BLOCK" using header_fields(3) [of 2] by (simp add: JBD2_DESCRIPTOR_BLOCK_def)
  then have sc: "journal_scan_loop env m jlen (blk + 2 + ?k) s1 = Some s'"
    using w(2) g(1) rd(2) lt(2)
    by (simp add: journal_scan_loop.simps [of env m jlen "Suc (blk + ?k)" s1] read_keeps [OF kp] header_fields)
  have eqs: "blocksize (fst s1) = ?bs" "caps (fst s1) = caps (fst s)" using kp by (simp_all add: keeps_def)
  have "index_grew (txn_entries (total_blocks (fst s1)) (blk + 2 + ?k) txs) (fst s1) (fst s')"
    by (rule Cons.IH [OF sc Cons.prems(2)])
       (use Cons.prems(3,4,5) rd(3) len in \<open>simp_all add: eqs journal_holds_keeps [OF kp]\<close>)
  then show ?case using index_grew_trans [OF g(2)] kp by (simp add: keeps_def)
qed

section \<open>Properties\<close>

definition itable_of :: "env \<Rightarrow> recover_context \<Rightarrow> itable_range list option" where
  "itable_of env ctx =
     build_itable_map (malloc_ok env (unat (group_desc_count ctx) * 24)) (group_desc_count ctx)
       (s_inodes_per_group (super ctx)) (s_inode_size (super ctx)) (blocksize ctx) (lib_inode_table_loc env)"

lemma recover_from_journal_some:
  assumes "tag_format_ok (caps ctx)" "I ctx" "\<And>m. itable_of env ctx = Some m \<Longrightarrow> tables_ok env m I"
  shows "recover_from_journal env ctx \<noteq> None"
proof (cases "itable_of env ctx")
  case None
  then show ?thesis by (simp add: recover_from_journal_def itable_of_def)
next
  case (Some m)
  obtain s' where "journal_scan_loop env m (unat (journal_len ctx)) (unat (journal_start ctx)) (ctx, []) = Some s'"
    using scan_loop_defined [OF assms(3) [OF Some], of "(ctx, [])" "unat (journal_len ctx)" "unat (journal_start ctx)"] assms(1,2)
    by auto
  then show ?thesis using Some by (auto simp: recover_from_journal_def itable_of_def split: prod.split)
qed

text \<open>A journal of one csum_v3 transaction: its superblock, a descriptor with one tag, data, commit.\<close>

definition one_txn :: txn where
  "one_txn = \<lparr>tx_seq = 7, tx_tags = [(5, 0xA)], tx_data = [replicate 40 1]\<rparr>"

definition one_journal :: "buffer list" where
  "one_journal = txn_blocks JBD2_TAG_FMT_CSUM_V3 False 40 one_txn"

definition one_env :: env where
  "one_env = (ideal_env [])\<lparr>lib_file_read := (\<lambda>_ off n. Some ((replicate 40 0 # one_journal) ! (off div n)))\<rparr>"

definition one_ctx :: recover_context where
  "one_ctx = (base_ctx 40 10)\<lparr>caps := fs_capabilities_set_journal (fs_capabilities_detect no_super) 0x10,
     has_journal := True, journal_start := 1, journal_len := 4, journal_file := True,
     jindex := Some \<lparr>ji_e = [], ji_cap = 0\<rparr>\<rparr>"

lemma one_ctx_facts:
  "jbd2_tag_fmt (caps one_ctx) = JBD2_TAG_FMT_CSUM_V3" "\<not> jbd2_has_64bit (caps one_ctx)" "tag_format_ok (caps one_ctx)"
  "blocksize one_ctx = 40" "total_blocks one_ctx = 10" "journal_file one_ctx" "malloc_ok one_env = (\<lambda>_. True)"
  "group_desc_count one_ctx = 0" "unat (journal_start one_ctx) = 1" "unat (journal_len one_ctx) = 4"
  by (simp_all add: one_ctx_def one_env_def ideal_env_def base_ctx_def fs_capabilities_set_journal_def tag_format_ok_def Let_def)

lemma one_ctx_itable: "itable_of one_env one_ctx = Some m \<Longrightarrow> tables_ok one_env m (\<lambda>_. True)"
  by (auto simp: itable_of_def one_ctx_facts build_itable_map_def qsort_by_def tables_ok_def is_inode_table_block_def
      itable_lookup_def itable_search.simps)

lemma one_txn_ok: "txn_ok JBD2_TAG_FMT_CSUM_V3 False 40 one_txn"
  by (simp add: one_txn_def txn_ok_def tag_ok_def last_flag_def length_enc_tag fmt_bytes_def
      JBD2_FLAG_LAST_TAG_def JBD2_FLAG_SAME_UUID_def)

lemma one_journal_holds: "journal_holds one_env one_ctx 1 one_journal" "length one_journal = 3"
proof -
  have l: "length b = 40" if "b \<in> set one_journal" for b
    using that by (auto simp: one_journal_def txn_blocks_def desc_block_def one_txn_def length_enc_tag fmt_bytes_def
        header_fields JBD2_FLAG_SAME_UUID_def Let_def)
  show n: "length one_journal = 3" by (simp add: one_journal_def txn_blocks_def one_txn_def)
  show "journal_holds one_env one_ctx 1 one_journal"
    using l n by (simp add: journal_holds_def read_journal_block_def one_ctx_facts one_env_def)
qed

text \<open>Property C7: no version in the journal is lost.  If the journal consists of complete
  transactions, a descriptor with any number of tags in whatever wire format the feature flags
  announce, its data blocks and a commit block, then the scan leaves a sorted index with exactly one
  entry for every tag whose block is on the device: the right journal block, sequence and escape bit.\<close>

theorem recover_from_journal_indexes_all:
  assumes r: "recover_from_journal env ctx = Some (r, ctx')"
    and caps: "caps ctx = fs_capabilities_set_journal c0 flags" and mem: "malloc_ok env = (\<lambda>_. True)"
    and j: "has_journal ctx" "jindex ctx = Some ji"
    and txns: "\<forall>tx \<in> set txs. txn_ok (jbd2_tag_fmt (caps ctx)) (jbd2_has_64bit (caps ctx)) (blocksize ctx) tx"
    and img: "img = concat (map (txn_blocks (jbd2_tag_fmt (caps ctx)) (jbd2_has_64bit (caps ctx)) (blocksize ctx)) txs)"
      "journal_holds env ctx (unat (journal_start ctx)) img" "unat (journal_len ctx) = unat (journal_start ctx) + length img"
  shows "r = 0 \<and> (\<exists>ji'. jindex ctx' = Some ji' \<and> jindex_sorted (ji_e ji') \<and>
     mset (ji_e ji') = mset (ji_e ji @ txn_entries (total_blocks ctx) (unat (journal_start ctx)) txs))"
proof -
  let ?fmt = "jbd2_tag_fmt (caps ctx)" and ?b64 = "jbd2_has_64bit (caps ctx)"
  obtain m c1 vs where sc: "journal_scan_loop env m (unat (journal_len ctx)) (unat (journal_start ctx)) (ctx, []) = Some (c1, vs)"
    and ctx': "r = 0" "ctx' = c1\<lparr>jindex := jindex_sort (jindex c1)\<rparr>"
    using r mem j(1) by (auto simp: recover_from_journal_def build_itable_map_def split: option.splits)
  have tp: "tag_params (caps ctx) = (?fmt, fmt_bytes ?fmt ?b64)"
    using set_journal_bytes [of c0 flags] by (simp add: tag_params_def caps fmt_bytes_def)
      (simp add: fs_capabilities_set_journal_def Let_def)
  have "index_grew (txn_entries (total_blocks ctx) (unat (journal_start ctx)) txs) ctx c1"
    using scan_txns [OF sc mem _ _ refl, of txs ?fmt] txns tp img by simp
  then obtain j1 where "jindex c1 = Some j1" "ji_e j1 = ji_e ji @ txn_entries (total_blocks ctx) (unat (journal_start ctx)) txs"
    using j(2) by (auto simp: index_grew_def)
  then show ?thesis
    using ctx' by (simp add: jindex_sort_entries jsort.qs_perm jsort.qs_sorted jindex_sorted_def)
qed

theorem recover_from_journal_indexes_all_witness:
  "\<exists>ctx' ji'. recover_from_journal one_env one_ctx = Some (0, ctx') \<and> jindex ctx' = Some ji' \<and>
     ji_e ji' = [\<lparr>je_fs_block = 5, je_journal_blk = 2, je_seq = 7, je_escaped = False\<rparr>]"
proof -
  obtain r ctx' where r: "recover_from_journal one_env one_ctx = Some (r, ctx')"
    using recover_from_journal_some [OF one_ctx_facts(3) _ one_ctx_itable] by auto
  have c: "caps one_ctx = fs_capabilities_set_journal (fs_capabilities_detect no_super) 0x10" "has_journal one_ctx"
      "jindex one_ctx = Some \<lparr>ji_e = [], ji_cap = 0\<rparr>"
    by (simp_all add: one_ctx_def)
  have e: "txn_entries 10 1 [one_txn] = [\<lparr>je_fs_block = 5, je_journal_blk = 2, je_seq = 7, je_escaped = False\<rparr>]"
    by (simp add: one_txn_def JBD2_FLAG_ESCAPE_def)
  have m: "xs = [x]" if "mset xs = {#x#}" for xs and x :: jindex_entry using that by simp
  have "r = 0 \<and> (\<exists>ji'. jindex ctx' = Some ji' \<and> jindex_sorted (ji_e ji') \<and>
      mset (ji_e ji') = mset ([] @ txn_entries (total_blocks one_ctx) (unat (journal_start one_ctx)) [one_txn]))"
    using recover_from_journal_indexes_all [OF r c(1) one_ctx_facts(7) c(2,3), of "[one_txn]" one_journal]
      one_txn_ok one_journal_holds
    by (simp add: one_ctx_facts one_journal_def)
  then obtain ji' where z: "r = 0" "jindex ctx' = Some ji'" "mset (ji_e ji') = mset (txn_entries 10 1 [one_txn])"
    unfolding one_ctx_facts by auto
  have "ji_e ji' = [\<lparr>je_fs_block = 5, je_journal_blk = 2, je_seq = 7, je_escaped = False\<rparr>]"
    by (rule m) (simp only: z(3) e, simp)
  then show ?thesis using r z(1,2) by blast
qed

end
