(* ===== verification/Aggressive_Scan.thy ===== *)
theory Aggressive_Scan
  imports Leaf_Copy
begin

text \<open>
  The full-disk scan for extent blocks (\<^verbatim>\<open>aggressive_scan_v5.c\<close>: \<open>walk_extent_tree\<close>,
  \<open>recover_orphaned_extent_tree\<close>, \<open>recover_orphaned_extent_block\<close>, \<open>scan_for_extent_headers\<close>).
  \<open>io_channel_read_blk64\<close> is the parameter \<open>lib_io_read_blk\<close>; the static hash set of blocks already
  handled is the field \<open>rb\<close> of the context.
\<close>

section \<open>Collecting the extents of a tree\<close>

record collected_extent =
  ce_block :: u32
  ce_len :: u32
  ce_start :: u64
  ce_uninit :: bool

definition collected_ext_cmp :: "collected_extent \<Rightarrow> collected_extent \<Rightarrow> int" where
  "collected_ext_cmp ea eb =
     (if ce_block ea < ce_block eb then -1 else if ce_block ea > ce_block eb then 1 else 0)"

definition MAX_TREE_DEPTH :: nat where "MAX_TREE_DEPTH = 5"

definition MAX_COLLECTED_EXT :: nat where "MAX_COLLECTED_EXT = 65536"

definition mark_block :: "env \<Rightarrow> recover_context \<Rightarrow> blk64_t \<Rightarrow> recover_context ub" where
  "mark_block env ctx blk =
     map_option (\<lambda>s. ctx\<lparr>rb := s\<rparr>)
       (mark_block_recovered (malloc_ok env (pow2_above 4096 ((rb_count (rb ctx) + 1) * 2) * 8)) (rb ctx) blk)"

primrec collect_leaf ::
  "blk64_t \<Rightarrow> nat \<Rightarrow> buffer \<Rightarrow> nat list \<Rightarrow> collected_extent list \<Rightarrow> (int \<times> collected_extent list) ub" where
  "collect_leaf tot cap buf [] out = Some (0, out)"
| "collect_leaf tot cap buf (i # is) out =
     (case extent_at buf i of None \<Rightarrow> None
      | Some ee \<Rightarrow>
          let raw_len = ee_len ee; uninit = (raw_len > 32768);
              use_len = (if uninit then ucast raw_len - 32768 else ucast raw_len) :: u32; start = ee_phys ee in
          if use_len = 0 \<or> start = 0 then collect_leaf tot cap buf is out
          else if start + ucast use_len > tot then collect_leaf tot cap buf is out
          else if length out \<ge> cap then Some (-1, out)
          else collect_leaf tot cap buf is
                 (out @ [\<lparr>ce_block = ee_block ee, ce_len = use_len, ce_start = start, ce_uninit = uninit\<rparr>]))"

primrec walk_index_loop ::
  "env \<Rightarrow> (buffer \<Rightarrow> recover_context \<Rightarrow> collected_extent list \<Rightarrow> (int \<times> recover_context \<times> collected_extent list) ub) \<Rightarrow>
   buffer \<Rightarrow> nat list \<Rightarrow> recover_context \<Rightarrow> collected_extent list \<Rightarrow> (recover_context \<times> collected_extent list) ub" where
  "walk_index_loop env child buf [] ctx out = Some (ctx, out)"
| "walk_index_loop env child buf (i # is) ctx out =
     (case idx_at buf i of None \<Rightarrow> None
      | Some ei \<Rightarrow>
          let leaf_blk = ei_phys ei in
          if leaf_blk < 2 \<or> leaf_blk \<ge> total_blocks ctx then walk_index_loop env child buf is ctx out
          else case lib_io_read_blk env leaf_blk of
            None \<Rightarrow> walk_index_loop env child buf is ctx out
          | Some child_buf \<Rightarrow>
              if eh_magic (header_at child_buf) \<noteq> EXT4_EXT_MAGIC then walk_index_loop env child buf is ctx out
              else case mark_block env ctx leaf_blk of None \<Rightarrow> None
              | Some ctx1 \<Rightarrow>
                  case child child_buf ctx1 out of None \<Rightarrow> None
                  | Some (_, ctx2, out') \<Rightarrow> walk_index_loop env child buf is ctx2 out')"

primrec walk_extent_tree ::
  "env \<Rightarrow> nat \<Rightarrow> nat \<Rightarrow> buffer \<Rightarrow> recover_context \<Rightarrow> collected_extent list \<Rightarrow>
   (int \<times> recover_context \<times> collected_extent list) ub" where
  "walk_extent_tree env cap 0 buf ctx out = Some (-1, ctx, out)"
| "walk_extent_tree env cap (Suc depth_left) buf ctx out =
     (let eh = header_at buf; is = [0..<unat (eh_entries eh)] in
      if \<not> validate_extent_header (Some eh) (int (blocksize ctx)) then Some (-1, ctx, out)
      else if eh_depth eh = 0
      then map_option (\<lambda>(r, out'). (r, ctx, out')) (collect_leaf (total_blocks ctx) cap buf is out)
      else if \<not> malloc_ok env (blocksize ctx) then Some (-1, ctx, out)
      else map_option (\<lambda>(ctx', out'). (0, ctx', out'))
             (walk_index_loop env (walk_extent_tree env cap depth_left) buf is ctx out))"

section \<open>Emitting a tree\<close>

definition covered :: "recovered_intervals \<Rightarrow> collected_extent list \<Rightarrow> nat" where
  "covered ri exts =
     length (filter (\<lambda>e. intervals_query (Some ri) (ce_start e) (ucast (ce_len e)) = 1) exts)"

primrec emit_loop ::
  "env \<Rightarrow> string \<Rightarrow> collected_extent list \<Rightarrow> recover_context \<Rightarrow> nat \<Rightarrow> recover_context \<times> nat" where
  "emit_loop env fd [] ctx recovered = (ctx, recovered)"
| "emit_loop env fd (e # es) ctx recovered =
     (if ce_uninit e then emit_loop env fd es ctx recovered
      else case recover_block_to_file env ctx fd (ce_block e) (ucast (ce_len e)) (ce_start e) of
             (ok, ctx') \<Rightarrow> emit_loop env fd es ctx' (if ok then recovered + 1 else recovered))"

text \<open>The end shared by both kinds of output: count and mark, or remove the empty file.\<close>

definition close_aggressive ::
  "env \<Rightarrow> recover_context \<Rightarrow> string \<Rightarrow> blk64_t \<Rightarrow> nat \<Rightarrow> (int \<times> recover_context) ub" where
  "close_aggressive env ctx filename blk recovered =
     (if recovered > 0
      then map_option (\<lambda>c. (1, c\<lparr>aggressive_recovered := aggressive_recovered c + 1\<rparr>)) (mark_block env ctx blk)
      else Some (0, unlink ctx filename))"

definition tree_name :: "blk64_t \<Rightarrow> string" where
  "tree_name blk = ''aggressive_tree_'' @ udec (unat blk)"

definition recover_orphaned_extent_tree ::
  "env \<Rightarrow> recover_context \<Rightarrow> blk64_t \<Rightarrow> buffer \<Rightarrow> (int \<times> recover_context) ub" where
  "recover_orphaned_extent_tree env ctx root_block root_buf =
     (if \<not> malloc_ok env (MAX_COLLECTED_EXT * 24) then Some (0, ctx)
      else case walk_extent_tree env MAX_COLLECTED_EXT MAX_TREE_DEPTH root_buf ctx [] of None \<Rightarrow> None
      | Some (_, ctx1, collected) \<Rightarrow>
          if length collected = 0 then Some (0, ctx1)
          else
            let exts = qsort_by collected_ext_cmp collected; n = length exts in
            if (case recovered_extents ctx1 of None \<Rightarrow> False | Some ri \<Rightarrow> covered ri exts = n)
            then map_option (Pair 0) (mark_block env ctx1 root_block)
            else case open_trunc env ctx1 (tree_name root_block) of
              None \<Rightarrow> Some (0, ctx1)
            | Some ctx2 \<Rightarrow>
                (case emit_loop env (tree_name root_block) exts ctx2 0 of
                   (ctx3, recovered) \<Rightarrow> close_aggressive env ctx3 (tree_name root_block) root_block recovered))"

section \<open>Emitting a leaf\<close>

text \<open>The extraction loop; it takes \<open>ee_len\<close> as stored, without clearing the uninitialised bit.\<close>

primrec leaf_emit_loop ::
  "env \<Rightarrow> string \<Rightarrow> buffer \<Rightarrow> nat list \<Rightarrow> recover_context \<Rightarrow> nat \<Rightarrow> (recover_context \<times> nat) ub" where
  "leaf_emit_loop env fd buf [] ctx recovered = Some (ctx, recovered)"
| "leaf_emit_loop env fd buf (i # is) ctx recovered =
     (case extent_at buf i of None \<Rightarrow> None
      | Some ee \<Rightarrow>
          if ee_len ee = 0 \<or> ee_phys ee = 0 then leaf_emit_loop env fd buf is ctx recovered
          else if ee_phys ee + ucast (ee_len ee) > total_blocks ctx then leaf_emit_loop env fd buf is ctx recovered
          else case recover_block_to_file env ctx fd (ee_block ee) (ee_len ee) (ee_phys ee) of
                 (ok, ctx') \<Rightarrow> leaf_emit_loop env fd buf is ctx' (if ok then recovered + 1 else recovered))"

definition leaf_name :: "blk64_t \<Rightarrow> string" where
  "leaf_name blk = ''aggressive_'' @ udec (unat blk)"

definition recover_orphaned_extent_block ::
  "env \<Rightarrow> recover_context \<Rightarrow> blk64_t \<Rightarrow> buffer \<Rightarrow> (int \<times> recover_context) ub" where
  "recover_orphaned_extent_block env ctx block_num buf =
     (let eh = header_at buf; is = [0..<unat (eh_entries eh)] in
      if \<not> validate_extent_header (Some eh) (int (blocksize ctx)) then Some (0, ctx)
      else if eh_depth eh \<noteq> 0 then recover_orphaned_extent_tree env ctx block_num buf
      else case (case recovered_extents ctx of None \<Rightarrow> Some (0, 0) | Some ri \<Rightarrow> cover_loop ri buf is (0, 0)) of
        None \<Rightarrow> None
      | Some (tot, fully) \<Rightarrow>
          if tot > 0 \<and> fully = tot then map_option (Pair 0) (mark_block env ctx block_num)
          else case open_trunc env ctx (leaf_name block_num) of
            None \<Rightarrow> Some (-1, ctx)
          | Some ctx1 \<Rightarrow>
              (case leaf_emit_loop env (leaf_name block_num) buf is ctx1 0 of None \<Rightarrow> None
               | Some (ctx2, recovered) \<Rightarrow> close_aggressive env ctx2 (leaf_name block_num) block_num recovered))"

section \<open>The serial scan\<close>

definition scan_block :: "env \<Rightarrow> blk64_t \<Rightarrow> recover_context \<times> nat \<Rightarrow> (recover_context \<times> nat) ub" where
  "scan_block env block s =
     (case s of (ctx, found) \<Rightarrow>
       case is_block_recovered (rb ctx) block of None \<Rightarrow> None
       | Some True \<Rightarrow> Some s
       | Some False \<Rightarrow>
           (case lib_io_read_blk env block of None \<Rightarrow> Some s
            | Some buf \<Rightarrow>
                if eh_magic (header_at buf) \<noteq> EXT4_EXT_MAGIC then Some s
                else case recover_orphaned_extent_block env ctx block buf of None \<Rightarrow> None
                     | Some (r, ctx') \<Rightarrow> Some (ctx', if r > 0 then found + 1 else found)))"

primrec scan_blocks :: "env \<Rightarrow> blk64_t list \<Rightarrow> recover_context \<times> nat \<Rightarrow> (recover_context \<times> nat) ub" where
  "scan_blocks env [] s = Some s"
| "scan_blocks env (b # bs) s = (case scan_block env b s of None \<Rightarrow> None | Some s' \<Rightarrow> scan_blocks env bs s')"

definition block_range :: "blk64_t \<Rightarrow> blk64_t \<Rightarrow> blk64_t list" where
  "block_range start end = map of_nat [unat start..<unat end]"

definition scan_for_extent_headers ::
  "env \<Rightarrow> recover_context \<Rightarrow> blk64_t \<Rightarrow> blk64_t \<Rightarrow> (int \<times> recover_context) ub" where
  "scan_for_extent_headers env ctx start end =
     (if \<not> malloc_ok env (blocksize ctx) then Some (-1, ctx)
      else map_option (\<lambda>(ctx', found). (int found, ctx')) (scan_blocks env (block_range start end) (ctx, 0)))"

section \<open>Writing one output\<close>

definition writes :: "string \<Rightarrow> recover_context \<Rightarrow> recover_context \<Rightarrow> bool" where
  "writes fd c c' \<longleftrightarrow> (\<exists>f re. c' = c\<lparr>files := f, recovered_extents := re\<rparr> \<and> (\<forall>n. n \<noteq> fd \<longrightarrow> f n = files c n))"

lemma writes_refl [simp, intro]: "writes fd c c"
  unfolding writes_def by (intro exI [of _ "files c"] exI [of _ "recovered_extents c"]) simp

lemma writes_trans [trans]:
  assumes "writes fd a b" "writes fd b c"
  shows "writes fd a c"
proof -
  obtain f re f' re' where b: "b = a\<lparr>files := f, recovered_extents := re\<rparr>" "\<forall>n. n \<noteq> fd \<longrightarrow> f n = files a n"
    and c: "c = b\<lparr>files := f', recovered_extents := re'\<rparr>" "\<forall>n. n \<noteq> fd \<longrightarrow> f' n = files b n"
    using assms unfolding writes_def by blast
  have "c = a\<lparr>files := f', recovered_extents := re'\<rparr>" using b(1) c(1) by simp
  moreover have "\<forall>n. n \<noteq> fd \<longrightarrow> f' n = files a n" using b c(2) by simp
  ultimately show ?thesis unfolding writes_def by blast
qed

lemma rbtf_writes: "writes fd c (snd (recover_block_to_file env c fd b l s))"
proof (cases "malloc_ok env (RBTF_CHUNK_BLOCKS * blocksize c)")
  case True
  obtain ok f where r: "rbtf_loop env fd (blocksize c) b (unat l) s 0 (case files c fd of None \<Rightarrow> [] | Some f \<Rightarrow> f) = (ok, f)"
    by fastforce
  let ?c = "c\<lparr>files := (files c)(fd \<mapsto> f)\<rparr>"
  obtain re where re: "register_extent env ?c s (ucast l) = ?c\<lparr>recovered_extents := re\<rparr>"
    using register_update [of env ?c s "ucast l"] by blast
  have w: "writes fd c (c\<lparr>files := (files c)(fd \<mapsto> f), recovered_extents := re'\<rparr>)" for re'
    unfolding writes_def by (intro exI [of _ "(files c)(fd \<mapsto> f)"] exI [of _ re']) simp
  have "recover_block_to_file env c fd b l s = (if ok then (True, ?c\<lparr>recovered_extents := re\<rparr>) else (False, ?c))"
    using True r re by (simp add: recover_block_to_file_def Let_def)
  then show ?thesis using w [of re] w [of "recovered_extents c"] by simp
qed (simp add: recover_block_to_file_def)

lemma emit_writes: "writes fd c (fst (emit_loop env fd es c k))"
proof (induction es arbitrary: c k)
  case (Cons e es)
  let ?r = "recover_block_to_file env c fd (ce_block e) (ucast (ce_len e)) (ce_start e)"
  have "writes fd c (snd ?r)" by (rule rbtf_writes)
  then show ?case using Cons.IH [of c k] Cons.IH [of "snd ?r"]
    by (cases ?r) (auto intro: writes_trans)
qed simp

lemma leaf_emit_writes: "leaf_emit_loop env fd buf is c k = Some (c', k') \<Longrightarrow> writes fd c c'"
proof (induction "is" arbitrary: c k)
  case (Cons i "is")
  then obtain e where e: "extent_at buf i = Some e" by (auto split: option.splits)
  let ?r = "recover_block_to_file env c fd (ee_block e) (ee_len e) (ee_phys e)"
  have "writes fd c (snd ?r)" by (rule rbtf_writes)
  then show ?case using Cons.prems Cons.IH e by (cases ?r) (auto split: if_splits intro: writes_trans)
qed simp

lemma leaf_emit_defined:
  "\<forall>i \<in> set is. extent_at buf i \<noteq> None \<Longrightarrow> leaf_emit_loop env fd buf is c k \<noteq> None"
proof (induction "is" arbitrary: c k)
  case (Cons i "is")
  then obtain e where "extent_at buf i = Some e" by auto
  with Cons show ?case by (auto split: prod.split)
qed simp

lemma collect_leaf_defined:
  "\<forall>i \<in> set is. extent_at buf i \<noteq> None \<Longrightarrow> collect_leaf tot cap buf is out \<noteq> None"
proof (induction "is" arbitrary: out)
  case (Cons i "is")
  then obtain e where "extent_at buf i = Some e" by auto
  with Cons show ?case by (auto simp: Let_def)
qed simp

section \<open>The invariant of the scan\<close>

text \<open>
  The hash set holds device blocks only, so it never grows past the number of blocks, and every
  output but those named \<open>aggressive_\<dots>\<close> stays as it is.
\<close>

definition rb_good :: "recover_context \<Rightarrow> bool" where
  "rb_good c \<longleftrightarrow> rb_inv (rb c) \<and> rb_elems (rb c) \<subseteq> {b. b < total_blocks c} \<and> unat (total_blocks c) \<le> 2 ^ 30"

definition agg_name :: "string \<Rightarrow> bool" where
  "agg_name n \<longleftrightarrow> take 11 n = ''aggressive_''"

definition agg_step :: "recover_context \<Rightarrow> recover_context \<Rightarrow> bool" where
  "agg_step c c' \<longleftrightarrow> rb_good c' \<and> blocksize c' = blocksize c \<and> total_blocks c' = total_blocks c \<and>
     (\<forall>n. \<not> agg_name n \<longrightarrow> files c' n = files c n)"

lemma agg_step_refl: "rb_good c \<Longrightarrow> agg_step c c"
  by (simp add: agg_step_def)

lemma agg_step_trans [trans]: "agg_step a b \<Longrightarrow> agg_step b c \<Longrightarrow> agg_step a c"
  by (simp add: agg_step_def)

lemma agg_names [simp]: "agg_name (leaf_name b)" "agg_name (tree_name b)"
  by (simp_all add: agg_name_def leaf_name_def tree_name_def)

lemma writes_agg_step: "writes fd c c' \<Longrightarrow> agg_name fd \<Longrightarrow> rb_good c \<Longrightarrow> agg_step c c'"
  by (auto simp: writes_def agg_step_def rb_good_def)

lemma open_trunc_agg: "open_trunc env c fd = Some c' \<Longrightarrow> agg_name fd \<Longrightarrow> rb_good c \<Longrightarrow> agg_step c c'"
  by (auto simp: open_trunc_def agg_step_def rb_good_def split: if_splits)

lemma rb_good_count: "rb_good c \<Longrightarrow> rb_count (rb c) < 2 ^ 30"
proof -
  assume g: "rb_good c"
  have fin: "finite {b. b < total_blocks c}" by simp
  have "0 \<notin> rb_elems (rb c)" by (simp add: rb_elems_def)
  then have sub: "rb_elems (rb c) \<subseteq> {b. b < total_blocks c} - {0}" using g by (auto simp: rb_good_def)
  have inj: "unat ` ({b. b < total_blocks c} - {0}) \<subseteq> {1..<unat (total_blocks c)}"
    by (auto simp: word_less_nat_alt unat_gt_0 Suc_le_eq)
  have "card (rb_elems (rb c)) \<le> card ({b. b < total_blocks c} - {0 :: blk64_t})" using sub by (intro card_mono) auto
  also have "\<dots> = card (unat ` ({b. b < total_blocks c} - {0}))" by (rule card_image [symmetric]) (auto simp: inj_on_def word_unat_eq_iff)
  also have "\<dots> \<le> card {1..<unat (total_blocks c)}" using inj by (intro card_mono) auto
  finally have "card (rb_elems (rb c)) \<le> unat (total_blocks c) - 1" by simp
  moreover have "unat (total_blocks c) \<le> 2 ^ 30" "rb_count (rb c) = card (rb_elems (rb c))"
    using g by (simp_all add: rb_good_def rb_inv_def)
  moreover have "(2 :: nat) ^ 30 = 1073741824" by simp
  ultimately show ?thesis by linarith
qed

lemma mark_block_good:
  assumes "rb_good c" "b < total_blocks c"
  shows "\<exists>c'. mark_block env c b = Some c' \<and> agg_step c c'"
proof (cases "b = 0")
  case True
  then show ?thesis using assms(1) by (simp add: mark_block_def mark_block_recovered_def agg_step_def)
next
  case False
  let ?ok = "malloc_ok env (pow2_above 4096 ((rb_count (rb c) + 1) * 2) * 8)"
  obtain s where s: "mark_block_recovered ?ok (rb c) b = Some s" "rb_inv s"
    "rb_elems s = rb_elems (rb c) \<or> rb_elems s = insert b (rb_elems (rb c))"
    using mark_block_recovered_ok [OF _ False rb_good_count [OF assms(1)], of ?ok] assms(1) by (auto simp: rb_good_def)
  then show ?thesis using assms by (auto simp: mark_block_def agg_step_def rb_good_def)
qed

definition io_reads :: "env \<Rightarrow> nat \<Rightarrow> bool" where
  "io_reads env bs \<longleftrightarrow> (\<forall>b buf. lib_io_read_blk env b = Some buf \<longrightarrow> length buf = bs)"

lemma entries_inside:
  assumes "validate_extent_header (Some (header_at buf)) (int (length buf))" "12 \<le> length buf"
    and "i \<in> set [0..<unat (eh_entries (header_at buf))]"
  shows "extent_at buf i \<noteq> None" "idx_at buf i \<noteq> None"
proof -
  have "12 + 12 * unat (eh_entries (header_at buf)) \<le> length buf" using assms(1,2) by (rule validate_entries_fit)
  then have "24 + 12 * i \<le> length buf" using assms(3) by simp
  then show "extent_at buf i \<noteq> None" "idx_at buf i \<noteq> None" by (simp_all add: extent_at_def idx_at_def Let_def)
qed

lemma walk_index_loop_good:
  assumes "\<And>cb c out. length cb = bs \<Longrightarrow> rb_good c \<Longrightarrow> blocksize c = bs \<Longrightarrow>
      \<exists>r c' out'. child cb c out = Some (r, c', out') \<and> agg_step c c'"
    and "io_reads env bs" "rb_good c" "blocksize c = bs" "\<forall>i \<in> set is. idx_at buf i \<noteq> None"
  shows "\<exists>c' out'. walk_index_loop env child buf is c out = Some (c', out') \<and> agg_step c c'"
  using assms(3-5)
proof (induction "is" arbitrary: c out)
  case Nil
  then show ?case by (simp add: agg_step_refl)
next
  case (Cons i "is")
  obtain ei where ei: "idx_at buf i = Some ei" using Cons.prems(3) by auto
  have skip: "\<exists>c' out'. walk_index_loop env child buf is c out = Some (c', out') \<and> agg_step c c'"
    using Cons by auto
  show ?case
  proof (cases "\<not> (ei_phys ei < 2 \<or> ei_phys ei \<ge> total_blocks c) \<and>
      (\<exists>cb. lib_io_read_blk env (ei_phys ei) = Some cb \<and> eh_magic (header_at cb) = EXT4_EXT_MAGIC)")
    case False
    then show ?thesis using skip ei by (auto simp: Let_def split: option.split)
  next
    case True
    then obtain cb where cb: "lib_io_read_blk env (ei_phys ei) = Some cb" "eh_magic (header_at cb) = EXT4_EXT_MAGIC" by blast
    obtain c1 where c1: "mark_block env c (ei_phys ei) = Some c1" "agg_step c c1"
      using mark_block_good [OF Cons.prems(1), of "ei_phys ei" env] True by (auto simp: not_le)
    then have g1: "rb_good c1" "blocksize c1 = bs" using Cons.prems(2) by (simp_all add: agg_step_def)
    have "length cb = bs" using cb(1) assms(2) by (auto simp: io_reads_def)
    then obtain r c2 out2 where c2: "child cb c1 out = Some (r, c2, out2)" "agg_step c1 c2"
      using assms(1) [OF _ g1, of cb out] by blast
    then have g2: "rb_good c2" "blocksize c2 = bs" using g1 by (simp_all add: agg_step_def)
    obtain c3 out3 where c3: "walk_index_loop env child buf is c2 out2 = Some (c3, out3)" "agg_step c2 c3"
      using Cons.IH [OF g2, of out2] Cons.prems(3) by auto
    have "agg_step c c3" using c1(2) c2(2) c3(2) by (blast intro: agg_step_trans)
    then show ?thesis using True ei cb c1(1) c2(1) c3(1) by (auto simp: Let_def)
  qed
qed

lemma walk_good:
  assumes "io_reads env (blocksize c)" "rb_good c" "length buf = blocksize c" "12 \<le> blocksize c"
  shows "\<exists>r c' out'. walk_extent_tree env cap d buf c out = Some (r, c', out') \<and> agg_step c c'"
  using assms
proof (induction d arbitrary: buf c out)
  case 0
  then show ?case by (simp add: agg_step_refl)
next
  case (Suc d)
  let ?v = "validate_extent_header (Some (header_at buf)) (int (blocksize c))" and ?is = "[0..<unat (eh_entries (header_at buf))]"
  have child: "\<exists>r c' out'. walk_extent_tree env cap d cb c1 out1 = Some (r, c', out') \<and> agg_step c1 c'"
    if "length cb = blocksize c" "rb_good c1" "blocksize c1 = blocksize c" for cb c1 out1
    using Suc.IH [of c1 cb out1] Suc.prems that by simp
  show ?case
  proof (cases ?v)
    case True
    then have e: "\<forall>i \<in> set ?is. extent_at buf i \<noteq> None" and x: "\<forall>i \<in> set ?is. idx_at buf i \<noteq> None"
      using entries_inside [of buf] Suc.prems(3,4) by simp_all
    obtain r o1 where l: "collect_leaf (total_blocks c) cap buf ?is out = Some (r, o1)"
      using collect_leaf_defined [OF e] by fastforce
    have "\<exists>c' o2. walk_index_loop env (walk_extent_tree env cap d) buf ?is c out = Some (c', o2) \<and> agg_step c c'"
      by (rule walk_index_loop_good [OF _ Suc.prems(1,2) refl x]) (rule child)
    then obtain c' o2 where w: "walk_index_loop env (walk_extent_tree env cap d) buf ?is c out = Some (c', o2)" "agg_step c c'"
      by blast
    show ?thesis using True l w Suc.prems(2) by (simp add: Let_def agg_step_refl)
  qed (simp add: Let_def Suc.prems(2) agg_step_refl)
qed

lemma close_good:
  assumes "rb_good c" "b < total_blocks c" "agg_name fd"
  shows "\<exists>r c'. close_aggressive env c fd b k = Some (r, c') \<and> agg_step c c'"
proof -
  obtain c1 where c1: "mark_block env c b = Some c1" "agg_step c c1" using mark_block_good [OF assms(1,2)] by blast
  have "agg_step c (c1\<lparr>aggressive_recovered := j\<rparr>)" for j using c1(2) by (auto simp: agg_step_def rb_good_def)
  moreover have "agg_step c (unlink c fd)" using assms by (simp add: agg_step_def unlink_def rb_good_def)
  ultimately show ?thesis using c1(1) by (simp add: close_aggressive_def)
qed

lemma recover_tree_good:
  assumes "io_reads env (blocksize c)" "rb_good c" "length buf = blocksize c" "12 \<le> blocksize c" "b < total_blocks c"
  shows "\<exists>r c'. recover_orphaned_extent_tree env c b buf = Some (r, c') \<and> agg_step c c'"
proof -
  obtain r c1 out where w: "walk_extent_tree env MAX_COLLECTED_EXT MAX_TREE_DEPTH buf c [] = Some (r, c1, out)" "agg_step c c1"
    using walk_good [OF assms(1-4)] by blast
  then have g1: "rb_good c1" "b < total_blocks c1" using assms(5) by (simp_all add: agg_step_def)
  let ?ex = "qsort_by collected_ext_cmp out" and ?fd = "tree_name b"
  have m: "\<exists>c'. mark_block env c1 b = Some c' \<and> agg_step c c'"
    using mark_block_good [OF g1] w(2) by (blast intro: agg_step_trans)
  have em: "\<exists>r c'. (case emit_loop env ?fd ?ex c2 0 of (c3, k) \<Rightarrow> close_aggressive env c3 ?fd b k) = Some (r, c') \<and> agg_step c c'"
    if o: "open_trunc env c1 ?fd = Some c2" for c2
  proof -
    have s2: "agg_step c1 c2" using open_trunc_agg [OF o _ g1(1)] by simp
    obtain c3 k where e: "emit_loop env ?fd ?ex c2 0 = (c3, k)" by fastforce
    have s3: "agg_step c2 c3"
      using emit_writes [of ?fd c2 env ?ex 0] e writes_agg_step [of ?fd c2 c3] s2 by (simp add: agg_step_def)
    have "agg_step c c3" using w(2) s2 s3 by (blast intro: agg_step_trans)
    moreover from this have "rb_good c3" "b < total_blocks c3" using assms(5) by (simp_all add: agg_step_def)
    ultimately show ?thesis using close_good [of c3 b ?fd env k] e by (auto intro: agg_step_trans)
  qed
  show ?thesis
    using w m em assms(2)
    by (auto simp: recover_orphaned_extent_tree_def Let_def agg_step_refl split: option.split)
qed

lemma recover_block_good:
  assumes "io_reads env (blocksize c)" "rb_good c" "length buf = blocksize c" "12 \<le> blocksize c" "b < total_blocks c"
  shows "\<exists>r c'. recover_orphaned_extent_block env c b buf = Some (r, c') \<and> agg_step c c'"
proof -
  let ?h = "header_at buf" and ?is = "[0..<unat (eh_entries (header_at buf))]" and ?fd = "leaf_name b"
  let ?pre = "case recovered_extents c of None \<Rightarrow> Some (0, 0) | Some ri \<Rightarrow> cover_loop ri buf ?is (0, 0)"
  have leaf: "\<exists>r c'. recover_orphaned_extent_block env c b buf = Some (r, c') \<and> agg_step c c'"
    if v: "validate_extent_header (Some ?h) (int (blocksize c))" and d: "eh_depth ?h = 0"
  proof -
    have e: "\<forall>i \<in> set ?is. extent_at buf i \<noteq> None" using entries_inside [of buf] v assms(3,4) by simp
    obtain tot fully where p: "?pre = Some (tot, fully)"
      using cover_loop_total [OF e, of _ "(0, 0)"] by (fastforce split: option.split)
    have m: "\<exists>c'. mark_block env c b = Some c' \<and> agg_step c c'" using mark_block_good [OF assms(2,5)] .
    have em: "\<exists>c3 k r c'. leaf_emit_loop env ?fd buf ?is c2 0 = Some (c3, k) \<and> close_aggressive env c3 ?fd b k = Some (r, c') \<and> agg_step c c'"
      if o: "open_trunc env c ?fd = Some c2" for c2
    proof -
      have s2: "agg_step c c2" using open_trunc_agg [OF o _ assms(2)] by simp
      obtain c3 k where l: "leaf_emit_loop env ?fd buf ?is c2 0 = Some (c3, k)" using leaf_emit_defined [OF e] by fastforce
      have "agg_step c2 c3" using writes_agg_step [OF leaf_emit_writes [OF l]] s2 by (simp add: agg_step_def)
      with s2 have "agg_step c c3" by (rule agg_step_trans)
      moreover from this have "rb_good c3" "b < total_blocks c3" using assms(5) by (simp_all add: agg_step_def)
      ultimately show ?thesis using close_good [of c3 b ?fd env k] l by (auto intro: agg_step_trans)
    qed
    show ?thesis
    proof (cases "open_trunc env c ?fd")
      case None
      then show ?thesis using v d p m assms(2) by (auto simp: recover_orphaned_extent_block_def Let_def agg_step_refl)
    next
      case (Some c2)
      then show ?thesis using v d p m em [OF Some] by (auto simp: recover_orphaned_extent_block_def Let_def)
    qed
  qed
  show ?thesis
    using leaf recover_tree_good [OF assms] assms(2)
    by (cases "validate_extent_header (Some ?h) (int (blocksize c)) \<and> eh_depth ?h = 0")
       (auto simp: recover_orphaned_extent_block_def Let_def agg_step_refl)
qed

lemma scan_block_good:
  assumes "io_reads env (blocksize (fst s))" "rb_good (fst s)" "12 \<le> blocksize (fst s)" "b < total_blocks (fst s)"
  shows "\<exists>s'. scan_block env b s = Some s' \<and> agg_step (fst s) (fst s')"
proof -
  obtain c k where s: "s = (c, k)" by (cases s)
  have "is_block_recovered (rb c) b = Some (b \<in> rb_elems (rb c))"
    using assms(2) s by (intro is_block_recovered_exact) (simp add: rb_good_def)
  moreover have "\<exists>r c'. recover_orphaned_extent_block env c b buf = Some (r, c') \<and> agg_step c c'"
    if "lib_io_read_blk env b = Some buf" for buf
    using recover_block_good [of env c buf b] assms s that by (auto simp: io_reads_def)
  ultimately show ?thesis
    using assms(2) s
    by (cases "b \<in> rb_elems (rb c)"; cases "lib_io_read_blk env b") (auto simp: scan_block_def agg_step_refl)
qed

lemma scan_blocks_good:
  assumes "io_reads env (blocksize (fst s))" "rb_good (fst s)" "12 \<le> blocksize (fst s)" "\<forall>b \<in> set bs. b < total_blocks (fst s)"
  shows "\<exists>s'. scan_blocks env bs s = Some s' \<and> agg_step (fst s) (fst s')"
  using assms
proof (induction bs arbitrary: s)
  case Nil
  then show ?case by (simp add: agg_step_refl)
next
  case (Cons b bs)
  obtain s1 where s1: "scan_block env b s = Some s1" "agg_step (fst s) (fst s1)"
    using scan_block_good [OF Cons.prems(1-3), of b] Cons.prems(4) by auto
  obtain s2 where "scan_blocks env bs s1 = Some s2" "agg_step (fst s1) (fst s2)"
    using Cons.IH [of s1] Cons.prems s1(2) by (auto simp: agg_step_def)
  then show ?case using s1 by (auto intro: agg_step_trans)
qed

lemma block_range_below: "end \<le> tot \<Longrightarrow> b \<in> set (block_range start end) \<Longrightarrow> b < tot"
  unfolding block_range_def
proof (clarsimp simp: word_less_nat_alt word_le_nat_alt)
  fix k assume "unat end \<le> unat tot" "k < unat end"
  moreover have "unat (of_nat k :: blk64_t) \<le> k" by (simp add: unat_of_nat)
  ultimately show "unat (of_nat k :: blk64_t) < unat tot" by linarith
qed

section \<open>Properties\<close>

text \<open>The full-disk scan is total and confined.  Whatever the device holds, reading one
  block at a time, the scan of any range of the device ends with a result: no header, index or
  leaf makes it read outside a block, no probe of the hash set runs forever, no tree is followed
  deeper than five levels; and no file but those named \<open>aggressive_\<dots>\<close> is created, changed or removed.\<close>

theorem scan_for_extent_headers_confined:
  assumes "io_reads env (blocksize ctx)" and "12 \<le> blocksize ctx" and "rb_inv (rb ctx)"
    and "rb_elems (rb ctx) \<subseteq> {b. b < total_blocks ctx}" and "total_blocks ctx \<le> 2 ^ 30" and "end \<le> total_blocks ctx"
  shows "\<exists>r ctx'. scan_for_extent_headers env ctx start end = Some (r, ctx') \<and>
     rb_inv (rb ctx') \<and> (\<forall>n. take 11 n \<noteq> ''aggressive_'' \<longrightarrow> files ctx' n = files ctx n)"
proof -
  have "unat (total_blocks ctx) \<le> unat (2 ^ 30 :: u64)" using assms(5) by (simp add: word_le_nat_alt)
  then have g: "rb_good ctx" using assms(3,4) by (simp add: rb_good_def)
  obtain s' where s': "scan_blocks env (block_range start end) (ctx, 0) = Some s'" "agg_step ctx (fst s')"
    using scan_blocks_good [of env "(ctx, 0)" "block_range start end"] assms(1,2) g block_range_below [OF assms(6)] by auto
  show ?thesis
  proof (cases "malloc_ok env (blocksize ctx)")
    case True
    then show ?thesis
      using s' by (auto simp: scan_for_extent_headers_def agg_step_def rb_good_def agg_name_def split: prod.splits)
  next
    case False
    then show ?thesis using assms(3) by (simp add: scan_for_extent_headers_def)
  qed
qed

theorem scan_for_extent_headers_confined_witness:
  "\<exists>r ctx'. scan_for_extent_headers (tree_env\<lparr>lib_io_read_blk := (\<lambda>b. Some (sub_buf tree_dev (unat b mod 3 * 24) 24))\<rparr>)
       ((base_ctx 24 3)\<lparr>files := [''7_file'' \<mapsto> [1]]\<rparr>) 0 3 = Some (r, ctx') \<and> files ctx' ''7_file'' = Some [1]"
proof -
  let ?e = "tree_env\<lparr>lib_io_read_blk := (\<lambda>b. Some (sub_buf tree_dev (unat b mod 3 * 24) 24))\<rparr>"
  let ?c = "(base_ctx 24 3)\<lparr>files := [''7_file'' \<mapsto> [1]]\<rparr>"
  have "length (sub_buf tree_dev (k mod 3 * 24) 24) = 24" for k
  proof -
    have "k mod 3 < 3" by simp
    then have "k mod 3 * 24 + 24 \<le> length tree_dev" unfolding tree_example by linarith
    then show ?thesis by simp
  qed
  then have "io_reads ?e (blocksize ?c)" by (simp add: io_reads_def base_ctx_def)
  moreover have "rb_inv (rb ?c)" "rb_elems (rb ?c) = {}" by (simp_all add: base_ctx_def rb_inv_def rb_elems_def)
  ultimately have "\<exists>r ctx'. scan_for_extent_headers ?e ?c 0 3 = Some (r, ctx') \<and> rb_inv (rb ctx') \<and>
      (\<forall>n. take 11 n \<noteq> ''aggressive_'' \<longrightarrow> files ctx' n = files ?c n)"
    by (intro scan_for_extent_headers_confined) (simp_all add: base_ctx_def)
  then show ?thesis by fastforce
qed

lemma leaf_emit_copy:
  assumes "\<forall>i \<in> set is. \<forall>e. extent_at buf i = Some e \<longrightarrow> ee_len e \<le> 32768"
  shows "leaf_emit_loop env fd buf is c (length acc) =
     map_option (\<lambda>(c', acc'). (c', length acc')) (leaf_copy_loop env fd buf is c acc)"
  using assms
proof (induction "is" arbitrary: c acc)
  case (Cons i "is")
  have IH: "leaf_emit_loop env fd buf is d (length a) =
      map_option (\<lambda>(c', acc'). (c', length acc')) (leaf_copy_loop env fd buf is d a)" for d a
    using Cons by simp
  show ?case
  proof (cases "extent_at buf i")
    case (Some e)
    then have "init_len (ee_len e) = ee_len e" using Cons.prems by (simp add: init_len_def not_less)
    then show ?thesis
      using Some IH [of c acc] IH [of _ "acc @ [ee_len e]"] IH [of _ acc]
      by (cases "recover_block_to_file env c fd (ee_block e) (ee_len e) (ee_phys e)") (auto simp: Let_def)
  qed simp
qed simp

lemma mark_block_inserts:
  assumes "rb_good c" "b < total_blocks c" "malloc_ok env = (\<lambda>_. True)"
  shows "\<exists>s. mark_block env c b = Some (c\<lparr>rb := s\<rparr>)"
  using mark_block_good [OF assms(1,2), of env] by (auto simp: mark_block_def)

text \<open>Property C27: an orphaned leaf is emitted exactly when it adds something.  For a valid leaf
  block of written extents: if every extent that counts is already recorded, no file is touched;
  otherwise, when an extent is on the device, \<open>aggressive_<block>\<close> becomes exactly these extents at
  their logical offsets, no other file changes, and their blocks join the recorded ones.\<close>

theorem recover_orphaned_leaf_exact:
  assumes io: "io_ok env dev" "unat (total_blocks ctx) * blocksize ctx \<le> length dev" "\<And>n. out_open env n" "malloc_ok env = (\<lambda>_. True)"
    and buf: "length buf = blocksize ctx" "12 \<le> blocksize ctx" "validate_extent_header (Some (header_at buf)) (int (blocksize ctx))"
      "eh_depth (header_at buf) = 0" "extents_at buf (unat (eh_entries (header_at buf))) = Some xs" "\<forall>e \<in> set xs. ee_len e \<le> 32768"
    and es: "es = filter (copyable (total_blocks ctx)) xs" "es \<noteq> []"
    and rb: "rb_good ctx" "b < total_blocks ctx" and dd: "dedup_ok ctx" "recovered_extents ctx \<noteq> None"
  shows "\<exists>r ctx'. recover_orphaned_extent_block env ctx b buf = Some (r, ctx') \<and>
     (if \<forall>e \<in> set xs. counts e \<longrightarrow> extent_blocks e \<subseteq> dedup_blocks ctx
      then r = 0 \<and> files ctx' = files ctx \<and> dedup_blocks ctx' = dedup_blocks ctx
      else r = 1 \<and> files ctx' = (files ctx)(leaf_name b \<mapsto> foldl (write_extent dev (blocksize ctx)) [] es) \<and>
        dedup_blocks ctx' = dedup_blocks ctx \<union> (\<Union>e \<in> set es. extent_blocks e))"
proof -
  let ?is = "[0..<unat (eh_entries (header_at buf))]" and ?fd = "leaf_name b"
  obtain ri where ri: "recovered_extents ctx = Some ri" using dd(2) by auto
  then have inv: "intervals_inv ri" "dedup_blocks ctx = recorded ri" using dd(1) by (simp_all add: dedup_ok_def dedup_blocks_def)
  have xs: "those (map (extent_at buf) ?is) = Some xs" using buf(5) by (simp add: extents_at_def)
  obtain t f where pre: "cover_loop ri buf ?is (0, 0) = Some (t, f)"
    "t > 0 \<and> f = t \<longleftrightarrow> (\<exists>e \<in> set xs. counts e) \<and> (\<forall>e \<in> set xs. counts e \<longrightarrow> extent_blocks e \<subseteq> recorded ri)"
    using cover_loop_decides [OF inv(1) xs] by blast
  obtain e where "e \<in> set es" using es(2) by (meson list.set_sel(1))
  then have "\<exists>e \<in> set xs. counts e" using es(1) by (auto simp: copyable_def)
  then have dec: "t > 0 \<and> f = t \<longleftrightarrow> (\<forall>e \<in> set xs. counts e \<longrightarrow> extent_blocks e \<subseteq> dedup_blocks ctx)"
    using pre(2) inv(2) by simp
  show ?thesis
  proof (cases "t > 0 \<and> f = t")
    case True
    obtain s where "mark_block env ctx b = Some (ctx\<lparr>rb := s\<rparr>)" using mark_block_inserts [OF rb io(4)] by blast
    then have "recover_orphaned_extent_block env ctx b buf = Some (0, ctx\<lparr>rb := s\<rparr>)"
      using buf(3,4) ri pre(1) True by (simp add: recover_orphaned_extent_block_def Let_def)
    then show ?thesis using True dec by (auto simp: dedup_blocks_def)
  next
    case False
    let ?c = "ctx\<lparr>files := (files ctx)(?fd \<mapsto> [])\<rparr>"
    obtain c' where c': "leaf_copy_loop env ?fd buf ?is ?c [] = Some (c', map (init_len \<circ> ee_len) es)" "wrote dev ?fd es ?c c'"
      using leaf_copy_wrote [OF io(1) xs, of ?c ?fd "[]"] io(2) es(1) by auto
    have "\<forall>i \<in> set ?is. \<forall>e. extent_at buf i = Some e \<longrightarrow> ee_len e \<le> 32768"
    proof (intro ballI allI impI)
      fix i e assume i: "i \<in> set ?is" "extent_at buf i = Some e"
      have "length xs = length ?is" "\<forall>k < length ?is. extent_at buf (?is ! k) = Some (xs ! k)"
        using xs unfolding those_eq_Some by auto
      then have "e = xs ! i" "i < length xs" using i by auto
      then show "ee_len e \<le> 32768" using buf(6) by auto
    qed
    then have em: "leaf_emit_loop env ?fd buf ?is ?c 0 = Some (c', length es)"
      using leaf_emit_copy [of ?is buf env ?fd ?c "[]"] c'(1) by simp
    have g: "rb_good c'" "b < total_blocks c'"
      using wrote_frame [OF c'(2)] rb c'(2) by (auto simp: rb_good_def wrote_def touches_frame)
    obtain s where s: "mark_block env c' b = Some (c'\<lparr>rb := s\<rparr>)" using mark_block_inserts [OF g io(4)] by blast
    let ?r = "c'\<lparr>rb := s, aggressive_recovered := aggressive_recovered c' + 1\<rparr>"
    have "recover_orphaned_extent_block env ctx b buf = Some (1, ?r)"
      using buf(3,4) ri pre(1) False io(3) em s es(2)
      by (simp add: recover_orphaned_extent_block_def Let_def open_trunc_def close_aggressive_def)
    moreover have "files c' = (files ctx)(?fd \<mapsto> foldl (write_extent dev (blocksize ctx)) [] es)"
    proof
      fix k show "files c' k = ((files ctx)(?fd \<mapsto> foldl (write_extent dev (blocksize ctx)) [] es)) k"
        using c'(2) by (cases "k = ?fd") (auto simp: wrote_def touches_def)
    qed
    moreover have "dedup_blocks ?r = dedup_blocks ctx \<union> (\<Union>e \<in> set es. extent_blocks e)"
      using c'(2) dd by (auto simp: wrote_def frame_simps) (auto simp: dedup_blocks_def)
    ultimately show ?thesis using False dec by auto
  qed
qed

theorem recover_orphaned_leaf_exact_witness:
  "\<exists>ctx'. recover_orphaned_extent_block tree_env (base_ctx 24 3) 1 (leaf_node 0 1 2) = Some (1, ctx') \<and>
     files ctx' = [''aggressive_1'' \<mapsto> map of_nat [1..<25]] \<and> dedup_blocks ctx' = {2}"
proof -
  define bl where "bl = leaf_node 0 1 2"
  have b: "blocksize (base_ctx 24 3) = 24" "total_blocks (base_ctx 24 3) = 3" "files (base_ctx 24 3) = Map.empty"
    by (simp_all add: base_ctx_def)
  have h: "header_at bl = \<lparr>eh_magic = EXT4_EXT_MAGIC, eh_entries = 1, eh_max = 1, eh_depth = 0\<rparr>"
    by (simp add: bl_def leaf_node_def header_at_def le16_at_def sub_buf_def EXT4_EXT_MAGIC_def)
  have x: "extents_at bl 1 = Some [tree_extent]"
    by (simp add: bl_def leaf_node_def extents_at_def extent_at_def le16_at_def le32_at_def sub_buf_def tree_extent_def)
  have v: "validate_extent_header (Some (header_at bl)) 24"
    by (simp add: h validate_extent_header_def calculate_max_entries_def Let_def)
  have cp: "copyable 3 tree_extent" "ee_len tree_extent = 1"
    by (simp_all add: copyable_def counts_def tree_extent_def ee_phys_def init_len_def)
  have g: "rb_good (base_ctx 24 3)" by (simp add: rb_good_def base_ctx_def rb_inv_def rb_elems_def)
  have em: "\<And>n. out_open tree_env n" "malloc_ok tree_env = (\<lambda>_. True)" by (simp_all add: tree_env_def ideal_env_def)
  have ln: "leaf_name 1 = ''aggressive_1''" by (simp add: leaf_name_def) code_simp
  have lb: "length bl = 24" by (simp add: bl_def leaf_node_def)
  obtain r ctx' where "recover_orphaned_extent_block tree_env (base_ctx 24 3) 1 bl = Some (r, ctx')"
    "if \<forall>e \<in> set [tree_extent]. counts e \<longrightarrow> extent_blocks e \<subseteq> dedup_blocks (base_ctx 24 3)
      then r = 0 \<and> files ctx' = files (base_ctx 24 3) \<and> dedup_blocks ctx' = dedup_blocks (base_ctx 24 3)
      else r = 1 \<and> files ctx' = (files (base_ctx 24 3))(leaf_name 1 \<mapsto> foldl (write_extent tree_dev (blocksize (base_ctx 24 3))) [] [tree_extent]) \<and>
        dedup_blocks ctx' = dedup_blocks (base_ctx 24 3) \<union> (\<Union>e \<in> set [tree_extent]. extent_blocks e)"
    using recover_orphaned_leaf_exact [OF tree_env_ok(1) _ em _ _ _ _ _ _ _ _ g, of bl "[tree_extent]" "[tree_extent]" 1]
      tree_example(5) base_ctx_dedup [of 24 3] lb v x cp by (auto simp: b h)
  then show ?thesis using tree_example(6,7) base_ctx_dedup(3) [of 24 3] cp(1) b ln unfolding bl_def by (auto simp: copyable_def)
qed

end
