(* ===== verification/Parallel_Scan.thy ===== *)
theory Parallel_Scan
  imports Aggressive_Scan
begin

text \<open>
  The parallel variant of the full-disk scan (\<^verbatim>\<open>parallel_scan.c\<close>): a reader thread fills a ring of
  chunk buffers, worker threads search them for extent headers, and the calling thread drains the
  chunks in order.  The program is a step relation on \<open>scan_ctx\<close>; every step is one critical section
  (a slot lock or the gate is held) or a stretch of code on data only its thread may touch.  A thread that
  would block in \<open>pthread_cond_wait\<close> is a thread whose steps are disabled; it may look again at any time, so
  the relation has more schedules than the program.  \<open>Scan_Wakeups\<close> adds the wait sets and the broadcasts, shows that
  its runs are runs of this relation and that no wake-up is lost.  Block numbers and chunk indices are natural numbers.
\<close>

section \<open>State\<close>

definition CHUNK_BYTES :: nat where "CHUNK_BYTES = 8 * 1024 * 1024"

definition RING_SLOTS :: nat where "RING_SLOTS = 16"

definition MAX_WORKERS :: int where "MAX_WORKERS = 16"

datatype chunk_state = SLOT_EMPTY | SLOT_FILLED | SLOT_PROCESSING | SLOT_DONE | SLOT_EOF

record chunk_slot =
  sl_buf :: buffer
  sl_start :: nat
  sl_n_blocks :: nat
  sl_index :: nat
  sl_state :: chunk_state
  sl_hits :: "blk64_t list"
  sl_cap :: nat

datatype worker_pc = W_claim | W_wait nat | W_scan nat | W_exit

datatype writer_pc = D_want | D_wait nat | D_dump nat "blk64_t list" | D_exit

record scan_ctx =
  slots :: "nat \<Rightarrow> chunk_slot"
  next_chunk_to_read :: nat
  next_chunk_to_write :: nat
  total_chunks :: int
  reader_done :: bool
  r_chunk :: nat
  r_cur :: nat
  wpc :: "nat \<Rightarrow> worker_pc"
  dpc :: writer_pc
  rctx :: recover_context
  found :: nat

text \<open>The arguments of one scan.\<close>

record scan_par =
  p_env :: env
  p_bs :: nat
  p_start :: nat
  p_end :: nat
  p_workers :: nat

definition slot_for_chunk :: "nat \<Rightarrow> nat" where
  "slot_for_chunk chunk_index = chunk_index mod RING_SLOTS"

abbreviation slot_of :: "scan_ctx \<Rightarrow> nat \<Rightarrow> chunk_slot" where
  "slot_of s k \<equiv> slots s (slot_for_chunk k)"

definition set_slot :: "scan_ctx \<Rightarrow> nat \<Rightarrow> chunk_slot \<Rightarrow> scan_ctx" where
  "set_slot s k sl = s\<lparr>slots := (slots s)(slot_for_chunk k := sl)\<rparr>"

definition set_wpc :: "scan_ctx \<Rightarrow> nat \<Rightarrow> worker_pc \<Rightarrow> scan_ctx" where
  "set_wpc s i pc = s\<lparr>wpc := (wpc s)(i := pc)\<rparr>"

section \<open>Operations\<close>

definition add_hit :: "env \<Rightarrow> blk64_t list \<times> nat \<Rightarrow> blk64_t \<Rightarrow> blk64_t list \<times> nat" where
  "add_hit env h block =
     (case h of (hits, cap) \<Rightarrow>
       if length hits \<ge> cap then
         (let ncap = (if cap \<noteq> 0 then cap * 2 else 16) in
          if \<not> malloc_ok env (ncap * 8) then (hits, cap) else (hits @ [block], ncap))
       else (hits @ [block], cap))"

definition blocks_per_chunk :: "scan_par \<Rightarrow> nat" where
  "blocks_per_chunk p = CHUNK_BYTES div p_bs p"

definition this_blocks :: "scan_par \<Rightarrow> nat \<Rightarrow> nat" where
  "this_blocks p cur = (if cur + blocks_per_chunk p > p_end p then p_end p - cur else blocks_per_chunk p)"

text \<open>The reader fills one slot.\<close>

definition reader_fill :: "scan_par \<Rightarrow> scan_ctx \<Rightarrow> scan_ctx" where
  "reader_fill p s =
     (let cur = r_cur s; n = this_blocks p cur; got = dev_pread (p_env p) (cur * p_bs p) (n * p_bs p) in
      (set_slot s (r_chunk s)
         ((slot_of s (r_chunk s))\<lparr>sl_buf := got, sl_start := cur, sl_n_blocks := length got div p_bs p,
            sl_index := r_chunk s, sl_hits := [], sl_state := SLOT_FILLED\<rparr>))
       \<lparr>r_cur := cur + n, r_chunk := r_chunk s + 1\<rparr>)"

definition past_end :: "scan_ctx \<Rightarrow> nat \<Rightarrow> bool" where
  "past_end s k \<longleftrightarrow> reader_done s \<and> int k \<ge> total_chunks s"

definition filled_with :: "scan_ctx \<Rightarrow> nat \<Rightarrow> bool" where
  "filled_with s k \<longleftrightarrow> sl_state (slot_of s k) = SLOT_FILLED \<and> sl_index (slot_of s k) = k"

definition done_with :: "scan_ctx \<Rightarrow> nat \<Rightarrow> bool" where
  "done_with s k \<longleftrightarrow> sl_state (slot_of s k) = SLOT_DONE \<and> sl_index (slot_of s k) = k"

primrec scan_chunk :: "scan_par \<Rightarrow> buffer \<Rightarrow> nat \<Rightarrow> nat list \<Rightarrow> blk64_t list \<times> nat \<Rightarrow> blk64_t list \<times> nat" where
  "scan_chunk p buf start [] h = h"
| "scan_chunk p buf start (b # bs) h =
     (let eh = header_at (drop (b * p_bs p) buf) in
      if eh_magic eh \<noteq> EXT4_EXT_MAGIC then scan_chunk p buf start bs h
      else if \<not> validate_extent_header (Some eh) (int (p_bs p)) then scan_chunk p buf start bs h
      else scan_chunk p buf start bs (add_hit (p_env p) h (of_nat (start + b))))"

definition worker_finish :: "scan_par \<Rightarrow> scan_ctx \<Rightarrow> nat \<Rightarrow> scan_ctx" where
  "worker_finish p s k =
     (let sl = slot_of s k;
          (hits, cap) = scan_chunk p (sl_buf sl) (sl_start sl) [0..<sl_n_blocks sl] (sl_hits sl, sl_cap sl)
      in set_slot s k (sl\<lparr>sl_hits := hits, sl_cap := cap, sl_state := SLOT_DONE\<rparr>))"

text \<open>The writer dumps one hit with the serial routine.\<close>

definition dump_hit :: "env \<Rightarrow> nat \<Rightarrow> blk64_t \<Rightarrow> recover_context \<times> nat \<Rightarrow> (recover_context \<times> nat) ub" where
  "dump_hit env bs blk s =
     (case s of (ctx, n) \<Rightarrow>
       case is_block_recovered (rb ctx) blk of None \<Rightarrow> None
       | Some True \<Rightarrow> Some s
       | Some False \<Rightarrow>
           if \<not> malloc_ok env bs then Some s
           else let bbuf = dev_pread env (unat blk * bs) bs in
             if length bbuf \<noteq> bs then Some s
             else if eh_magic (header_at bbuf) \<noteq> EXT4_EXT_MAGIC then Some s
             else case recover_orphaned_extent_block env ctx blk bbuf of None \<Rightarrow> None
                  | Some (r, ctx') \<Rightarrow> Some (ctx', if r > 0 then n + 1 else n))"

definition writer_take :: "scan_ctx \<Rightarrow> nat \<Rightarrow> scan_ctx" where
  "writer_take s k =
     (let sl = slot_of s k in
      (set_slot s k (sl\<lparr>sl_hits := [], sl_cap := 0\<rparr>))\<lparr>dpc := D_dump k (sl_hits sl)\<rparr>)"

definition writer_recycle :: "scan_ctx \<Rightarrow> nat \<Rightarrow> scan_ctx" where
  "writer_recycle s k =
     (set_slot s k ((slot_of s k)\<lparr>sl_state := SLOT_EMPTY\<rparr>))\<lparr>next_chunk_to_write := k + 1, dpc := D_want\<rparr>"

section \<open>Steps\<close>

inductive pstep :: "scan_par \<Rightarrow> scan_ctx \<Rightarrow> scan_ctx \<Rightarrow> bool" for p where
  Reader_fill: "\<not> reader_done s \<Longrightarrow> r_cur s < p_end p \<Longrightarrow> sl_state (slot_of s (r_chunk s)) = SLOT_EMPTY \<Longrightarrow>
    pstep p s (reader_fill p s)"
| Reader_finish: "\<not> reader_done s \<Longrightarrow> \<not> r_cur s < p_end p \<Longrightarrow>
    pstep p s (s\<lparr>reader_done := True, total_chunks := int (r_chunk s)\<rparr>)"
| Worker_claim: "i < p_workers p \<Longrightarrow> wpc s i = W_claim \<Longrightarrow> \<not> past_end s (next_chunk_to_read s) \<Longrightarrow>
    pstep p s (set_wpc (s\<lparr>next_chunk_to_read := next_chunk_to_read s + 1\<rparr>) i (W_wait (next_chunk_to_read s)))"
| Worker_leave: "i < p_workers p \<Longrightarrow> wpc s i = W_claim \<Longrightarrow> past_end s (next_chunk_to_read s) \<Longrightarrow>
    pstep p s (set_wpc s i W_exit)"
| Worker_take: "i < p_workers p \<Longrightarrow> wpc s i = W_wait k \<Longrightarrow> filled_with s k \<Longrightarrow>
    pstep p s (set_wpc (set_slot s k ((slot_of s k)\<lparr>sl_state := SLOT_PROCESSING\<rparr>)) i (W_scan k))"
| Worker_bail: "i < p_workers p \<Longrightarrow> wpc s i = W_wait k \<Longrightarrow> \<not> filled_with s k \<Longrightarrow> past_end s k \<Longrightarrow>
    pstep p s (set_wpc s i W_exit)"
| Worker_finish: "i < p_workers p \<Longrightarrow> wpc s i = W_scan k \<Longrightarrow>
    pstep p s (set_wpc (worker_finish p s k) i W_claim)"
| Writer_want: "dpc s = D_want \<Longrightarrow> \<not> past_end s (next_chunk_to_write s) \<Longrightarrow>
    pstep p s (s\<lparr>dpc := D_wait (next_chunk_to_write s)\<rparr>)"
| Writer_exit: "dpc s = D_want \<Longrightarrow> past_end s (next_chunk_to_write s) \<Longrightarrow> pstep p s (s\<lparr>dpc := D_exit\<rparr>)"
| Writer_take: "dpc s = D_wait k \<Longrightarrow> done_with s k \<Longrightarrow> pstep p s (writer_take s k)"
| Writer_bail: "dpc s = D_wait k \<Longrightarrow> \<not> done_with s k \<Longrightarrow> past_end s k \<Longrightarrow> pstep p s (s\<lparr>dpc := D_exit\<rparr>)"
| Writer_dump: "dpc s = D_dump k (h # hs) \<Longrightarrow> dump_hit (p_env p) (p_bs p) h (rctx s, found s) = Some (ctx', n') \<Longrightarrow>
    pstep p s (s\<lparr>rctx := ctx', found := n', dpc := D_dump k hs\<rparr>)"
| Writer_recycle: "dpc s = D_dump k [] \<Longrightarrow> pstep p s (writer_recycle s k)"

inductive_cases pstep_cases: "pstep p s s'"

abbreviation psteps :: "scan_par \<Rightarrow> scan_ctx \<Rightarrow> scan_ctx \<Rightarrow> bool" where
  "psteps p \<equiv> (pstep p)\<^sup>*\<^sup>*"

section \<open>Entry points\<close>

definition init_slot :: chunk_slot where
  "init_slot = \<lparr>sl_buf = [], sl_start = 0, sl_n_blocks = 0, sl_index = 0, sl_state = SLOT_EMPTY, sl_hits = [], sl_cap = 0\<rparr>"

definition init_scan :: "scan_par \<Rightarrow> recover_context \<Rightarrow> scan_ctx" where
  "init_scan p ctx =
     \<lparr>slots = (\<lambda>_. init_slot), next_chunk_to_read = 0, next_chunk_to_write = 0, total_chunks = -1,
      reader_done = False, r_chunk = 0, r_cur = p_start p, wpc = (\<lambda>_. W_claim), dpc = D_want,
      rctx = ctx, found = 0\<rparr>"

definition all_exited :: "scan_par \<Rightarrow> scan_ctx \<Rightarrow> bool" where
  "all_exited p s \<longleftrightarrow> reader_done s \<and> dpc s = D_exit \<and> (\<forall>i < p_workers p. wpc s i = W_exit)"

definition clamp_workers :: "int \<Rightarrow> nat" where
  "clamp_workers n = nat (let n = (if n < 1 then 1 else n) in if n > MAX_WORKERS then MAX_WORKERS else n)"

definition scan_args :: "env \<Rightarrow> recover_context \<Rightarrow> blk64_t \<Rightarrow> blk64_t \<Rightarrow> int \<Rightarrow> scan_par" where
  "scan_args env ctx start end n_workers =
     \<lparr>p_env = env, p_bs = blocksize ctx, p_start = unat start, p_end = unat end, p_workers = clamp_workers n_workers\<rparr>"

text \<open>A possible outcome of a call: the return value and the context after all threads were joined.\<close>

definition parallel_scan_for_extent_headers ::
  "env \<Rightarrow> recover_context \<Rightarrow> blk64_t \<Rightarrow> blk64_t \<Rightarrow> int \<Rightarrow> int \<Rightarrow> recover_context \<Rightarrow> bool" where
  "parallel_scan_for_extent_headers env ctx start end n_workers r ctx' \<longleftrightarrow>
     (if \<not> malloc_ok env CHUNK_BYTES then r = -1 \<and> ctx' = ctx
      else let p = scan_args env ctx start end n_workers in
        \<exists>s. psteps p (init_scan p ctx) s \<and> all_exited p s \<and> r = int (found s) \<and> ctx' = rctx s)"

text \<open>
  \<open>aggressive_scan\<close> with its choice of the scanner; \<open>first\<close> and \<open>blocks\<close> are the superblock's
  first data block and block count, \<open>ncpu\<close> the number of processors.
\<close>

definition scan_phase ::
  "env \<Rightarrow> recover_context \<Rightarrow> blk64_t \<Rightarrow> blk64_t \<Rightarrow> bool \<Rightarrow> int \<Rightarrow> int \<Rightarrow> int \<Rightarrow> recover_context \<Rightarrow> bool" where
  "scan_phase env ctx first blocks use_parallel n_workers ncpu r ctx' \<longleftrightarrow>
     (if use_parallel then
        (let nw = (if n_workers \<le> 0 then if ncpu > 1 then ncpu - 1 else 1 else n_workers) in
         \<exists>r1 ctx1. parallel_scan_for_extent_headers env ctx first blocks nw r1 ctx1 \<and>
           (if r1 < 0 then scan_for_extent_headers env ctx1 first blocks = Some (r, ctx') else r = r1 \<and> ctx' = ctx1))
      else scan_for_extent_headers env ctx first blocks = Some (r, ctx'))"

definition aggressive_scan ::
  "env \<Rightarrow> recover_context \<Rightarrow> blk64_t \<Rightarrow> blk64_t \<Rightarrow> bool \<Rightarrow> int \<Rightarrow> int \<Rightarrow> int \<Rightarrow> recover_context \<Rightarrow> bool" where
  "aggressive_scan env ctx first blocks use_parallel n_workers ncpu r ctx' \<longleftrightarrow>
     (\<exists>r1 ctx1. scan_phase env (ctx\<lparr>total_blocks := blocks\<rparr>) first blocks use_parallel n_workers ncpu r1 ctx1 \<and>
        ctx' = ctx1\<lparr>rb := free_recovered_list (rb ctx1)\<rparr> \<and> r = (if r1 < 0 then r1 else 0))"

section \<open>Chunks\<close>

definition cstart :: "scan_par \<Rightarrow> nat \<Rightarrow> nat" where
  "cstart p k = p_start p + k * blocks_per_chunk p"

definition n_chunks :: "scan_par \<Rightarrow> nat" where
  "n_chunks p = (p_end p - p_start p + blocks_per_chunk p - 1) div blocks_per_chunk p"

definition chunk_buf :: "scan_par \<Rightarrow> nat \<Rightarrow> buffer" where
  "chunk_buf p k = dev_pread (p_env p) (cstart p k * p_bs p) (this_blocks p (cstart p k) * p_bs p)"

definition chunk_hits :: "scan_par \<Rightarrow> nat \<Rightarrow> blk64_t list" where
  "chunk_hits p k = fst (scan_chunk p (chunk_buf p k) (cstart p k) [0..<length (chunk_buf p k) div p_bs p] ([], 0))"

text \<open>A scan of a non-empty ring: some worker, blocks no larger than a chunk.\<close>

definition par_ok :: "scan_par \<Rightarrow> bool" where
  "par_ok p \<longleftrightarrow> 0 < blocks_per_chunk p \<and> p_start p \<le> p_end p \<and> 0 < p_workers p"

lemma chunk_before_end:
  assumes "par_ok p"
  shows "k < n_chunks p \<longleftrightarrow> cstart p k < p_end p"
proof -
  let ?b = "blocks_per_chunk p" and ?d = "p_end p - p_start p"
  have b: "0 < ?b" using assms by (simp add: par_ok_def)
  have "k < (?d + ?b - 1) div ?b \<longleftrightarrow> Suc k * ?b \<le> ?d + ?b - 1"
    using b by (simp add: less_eq_div_iff_mult_less_eq Suc_le_eq [symmetric] del: mult_Suc)
  also have "\<dots> \<longleftrightarrow> k * ?b < ?d" using b by auto
  finally show ?thesis using assms by (auto simp: n_chunks_def cstart_def par_ok_def)
qed

lemma chunk_advance:
  assumes "par_ok p" "k < n_chunks p"
  shows "cstart p k + this_blocks p (cstart p k) = min (cstart p (Suc k)) (p_end p)"
  using chunk_before_end [OF assms(1), of k] assms(2) by (auto simp: this_blocks_def cstart_def)

lemma ring_inj:
  assumes "w \<le> k" "k < w + RING_SLOTS" "w \<le> k'" "k' < w + RING_SLOTS"
  shows "slot_for_chunk k = slot_for_chunk k' \<longleftrightarrow> k = k'"
proof
  assume eq: "slot_for_chunk k = slot_for_chunk k'"
  have le: "a = b" if "a \<le> b" "b < a + 16" "b mod 16 = a mod 16" for a b :: nat
  proof -
    have "16 dvd b - a" using that by (simp add: mod_eq_dvd_iff_nat)
    moreover have "b - a < 16" using that by simp
    ultimately have "\<not> 0 < b - a" using dvd_imp_le [of 16 "b - a"] by linarith
    then show ?thesis using that(1) by simp
  qed
  show "k = k'"
  proof (cases "k \<le> k'")
    case True
    then show ?thesis using le [of k k'] eq assms by (simp add: slot_for_chunk_def RING_SLOTS_def)
  next
    case False
    then show ?thesis using le [of k' k] eq assms by (simp add: slot_for_chunk_def RING_SLOTS_def)
  qed
qed simp

lemma slot_upd:
  assumes "w \<le> k" "k < w + RING_SLOTS" "w \<le> k'" "k' < w + RING_SLOTS"
  shows "slot_of (set_slot s k sl) k' = (if k' = k then sl else slot_of s k')"
  using ring_inj [OF assms] by (auto simp: set_slot_def)

lemma set_slot_fields [simp]:
  "slot_of (set_slot s k sl) k = sl" "next_chunk_to_read (set_slot s k sl) = next_chunk_to_read s"
  "next_chunk_to_write (set_slot s k sl) = next_chunk_to_write s" "total_chunks (set_slot s k sl) = total_chunks s"
  "reader_done (set_slot s k sl) = reader_done s" "r_chunk (set_slot s k sl) = r_chunk s" "r_cur (set_slot s k sl) = r_cur s"
  "wpc (set_slot s k sl) = wpc s" "dpc (set_slot s k sl) = dpc s" "rctx (set_slot s k sl) = rctx s" "found (set_slot s k sl) = found s"
  by (simp_all add: set_slot_def)

lemma set_wpc_fields [simp]:
  "slots (set_wpc s i pc) = slots s" "next_chunk_to_read (set_wpc s i pc) = next_chunk_to_read s"
  "next_chunk_to_write (set_wpc s i pc) = next_chunk_to_write s" "total_chunks (set_wpc s i pc) = total_chunks s"
  "reader_done (set_wpc s i pc) = reader_done s" "r_chunk (set_wpc s i pc) = r_chunk s" "r_cur (set_wpc s i pc) = r_cur s"
  "wpc (set_wpc s i pc) = (wpc s)(i := pc)" "dpc (set_wpc s i pc) = dpc s" "rctx (set_wpc s i pc) = rctx s" "found (set_wpc s i pc) = found s"
  by (simp_all add: set_wpc_def)

section \<open>Invariant\<close>

definition holds :: "scan_par \<Rightarrow> nat \<Rightarrow> chunk_slot \<Rightarrow> bool" where
  "holds p k sl \<longleftrightarrow> sl_index sl = k \<and> sl_start sl = cstart p k \<and> sl_buf sl = chunk_buf p k \<and>
     sl_n_blocks sl = length (chunk_buf p k) div p_bs p"

definition dumping :: "scan_ctx \<Rightarrow> nat \<Rightarrow> bool" where
  "dumping s k \<longleftrightarrow> (\<exists>hs. dpc s = D_dump k hs)"

text \<open>A slot between the reader and the writer, and a slot waiting for the reader.\<close>

definition busy_slot :: "scan_par \<Rightarrow> nat \<Rightarrow> bool \<Rightarrow> chunk_slot \<Rightarrow> bool" where
  "busy_slot p k d sl \<longleftrightarrow> holds p k sl \<and>
     (sl_state sl = SLOT_FILLED \<and> sl_hits sl = [] \<and> sl_cap sl = 0 \<or>
      sl_state sl = SLOT_PROCESSING \<and> sl_hits sl = [] \<and> sl_cap sl = 0 \<or>
      sl_state sl = SLOT_DONE \<and> (if d then sl_cap sl = 0 else sl_hits sl = chunk_hits p k))"

definition ring_ok :: "scan_par \<Rightarrow> scan_ctx \<Rightarrow> bool" where
  "ring_ok p s \<longleftrightarrow>
     (let w = next_chunk_to_write s; r = r_chunk s in
      w \<le> r \<and> r \<le> w + RING_SLOTS \<and> r \<le> n_chunks p \<and> r_cur s = min (cstart p r) (p_end p) \<and>
      (\<forall>k. w \<le> k \<longrightarrow> k < r \<longrightarrow> busy_slot p k (dumping s k) (slot_of s k)) \<and>
      (\<forall>k. r \<le> k \<longrightarrow> k < w + RING_SLOTS \<longrightarrow> sl_state (slot_of s k) = SLOT_EMPTY \<and> sl_cap (slot_of s k) = 0))"

definition worker_ok :: "scan_par \<Rightarrow> scan_ctx \<Rightarrow> worker_pc \<Rightarrow> bool" where
  "worker_ok p s pc \<longleftrightarrow>
     (case pc of
        W_claim \<Rightarrow> True
      | W_wait k \<Rightarrow> k < next_chunk_to_read s \<and>
          (k < r_chunk s \<longrightarrow> next_chunk_to_write s \<le> k \<and> sl_state (slot_of s k) = SLOT_FILLED)
      | W_scan k \<Rightarrow> k < next_chunk_to_read s \<and> next_chunk_to_write s \<le> k \<and> k < r_chunk s \<and>
          sl_state (slot_of s k) = SLOT_PROCESSING
      | W_exit \<Rightarrow> reader_done s \<and> n_chunks p \<le> next_chunk_to_read s)"

definition workers_ok :: "scan_par \<Rightarrow> scan_ctx \<Rightarrow> bool" where
  "workers_ok p s \<longleftrightarrow>
     (\<forall>i < p_workers p. worker_ok p s (wpc s i)) \<and>
     (\<forall>i < p_workers p. \<forall>j < p_workers p. \<forall>k. wpc s i = W_wait k \<longrightarrow> wpc s j = W_wait k \<longrightarrow> i = j) \<and>
     (\<forall>i < p_workers p. \<forall>j < p_workers p. \<forall>k. wpc s i = W_scan k \<longrightarrow> wpc s j = W_scan k \<longrightarrow> i = j)"

text \<open>Every chunk that is not finished has a worker that will finish it, or is still unclaimed.\<close>

definition claims_ok :: "scan_par \<Rightarrow> scan_ctx \<Rightarrow> bool" where
  "claims_ok p s \<longleftrightarrow>
     (let w = next_chunk_to_write s; r = r_chunk s; c = next_chunk_to_read s in
      w \<le> c \<and>
      (\<forall>k. w \<le> k \<longrightarrow> k < c \<longrightarrow> k < n_chunks p \<longrightarrow> (k < r \<longrightarrow> sl_state (slot_of s k) = SLOT_FILLED) \<longrightarrow>
         (\<exists>i < p_workers p. wpc s i = W_wait k)) \<and>
      (\<forall>k. w \<le> k \<longrightarrow> k < r \<longrightarrow> sl_state (slot_of s k) = SLOT_PROCESSING \<longrightarrow> (\<exists>i < p_workers p. wpc s i = W_scan k)) \<and>
      (\<forall>k. w \<le> k \<longrightarrow> c \<le> k \<longrightarrow> k < r \<longrightarrow> sl_state (slot_of s k) = SLOT_FILLED))"

definition leavers :: "scan_par \<Rightarrow> scan_ctx \<Rightarrow> nat set" where
  "leavers p s = {i. i < p_workers p \<and> (wpc s i = W_exit \<or> (\<exists>k \<ge> n_chunks p. wpc s i = W_wait k))}"

definition reader_ok :: "scan_par \<Rightarrow> scan_ctx \<Rightarrow> bool" where
  "reader_ok p s \<longleftrightarrow>
     (if reader_done s then r_chunk s = n_chunks p \<and> total_chunks s = int (n_chunks p) else total_chunks s = -1) \<and>
     next_chunk_to_read s \<le> n_chunks p + card (leavers p s)"

primrec dump_list :: "env \<Rightarrow> nat \<Rightarrow> blk64_t list \<Rightarrow> recover_context \<times> nat \<Rightarrow> (recover_context \<times> nat) ub" where
  "dump_list env bs [] s = Some s"
| "dump_list env bs (h # hs) s = (case dump_hit env bs h s of None \<Rightarrow> None | Some s' \<Rightarrow> dump_list env bs hs s')"

definition dumped :: "scan_par \<Rightarrow> recover_context \<Rightarrow> blk64_t list \<Rightarrow> scan_ctx \<Rightarrow> bool" where
  "dumped p ctx hs s \<longleftrightarrow> dump_list (p_env p) (p_bs p) hs (ctx, 0) = Some (rctx s, found s)"

definition writer_ok :: "scan_par \<Rightarrow> recover_context \<Rightarrow> scan_ctx \<Rightarrow> bool" where
  "writer_ok p ctx s \<longleftrightarrow>
     (let w = next_chunk_to_write s; before = concat (map (chunk_hits p) [0..<w]) in
      case dpc s of
        D_want \<Rightarrow> dumped p ctx before s
      | D_wait k \<Rightarrow> k = w \<and> dumped p ctx before s
      | D_dump k hs \<Rightarrow> k = w \<and> w < r_chunk s \<and> sl_state (slot_of s k) = SLOT_DONE \<and>
          (\<exists>pre. chunk_hits p k = pre @ hs \<and> dumped p ctx (before @ pre) s)
      | D_exit \<Rightarrow> reader_done s \<and> n_chunks p \<le> w \<and> dumped p ctx before s)"

definition pinv :: "scan_par \<Rightarrow> recover_context \<Rightarrow> scan_ctx \<Rightarrow> bool" where
  "pinv p ctx s \<longleftrightarrow> ring_ok p s \<and> workers_ok p s \<and> claims_ok p s \<and> reader_ok p s \<and> writer_ok p ctx s"

lemma init_pinv:
  assumes "par_ok p"
  shows "pinv p ctx (init_scan p ctx)"
  using assms
  by (auto simp: pinv_def init_scan_def ring_ok_def workers_ok_def worker_ok_def claims_ok_def reader_ok_def writer_ok_def
      dumped_def init_slot_def cstart_def par_ok_def Let_def)

section \<open>Every step keeps the invariant\<close>

lemma window_rep: "\<exists>k'. w \<le> k' \<and> k' < w + RING_SLOTS \<and> slot_for_chunk k' = slot_for_chunk k"
proof -
  define d where "d = (k + 16 - w mod 16) mod 16"
  have "(w + d) mod 16 = k mod 16"
  proof -
    have "(w + d) mod 16 = (w mod 16 + (k + 16 - w mod 16)) mod 16" unfolding d_def by presburger
    also have "w mod 16 + (k + 16 - w mod 16) = k + 16" by (simp add: trans_le_add2)
    finally show ?thesis by simp
  qed
  moreover have "d < 16" by (simp add: d_def)
  ultimately show ?thesis by (intro exI [of _ "w + d"]) (simp add: slot_for_chunk_def RING_SLOTS_def)
qed

lemma ring_bounds:
  assumes "ring_ok p s"
  shows "next_chunk_to_write s \<le> r_chunk s" "r_chunk s \<le> next_chunk_to_write s + RING_SLOTS" "r_chunk s \<le> n_chunks p"
    "r_cur s = min (cstart p (r_chunk s)) (p_end p)"
    "\<And>k. next_chunk_to_write s \<le> k \<Longrightarrow> k < r_chunk s \<Longrightarrow> busy_slot p k (dumping s k) (slot_of s k)"
    "\<And>k. r_chunk s \<le> k \<Longrightarrow> k < next_chunk_to_write s + RING_SLOTS \<Longrightarrow> sl_state (slot_of s k) = SLOT_EMPTY \<and> sl_cap (slot_of s k) = 0"
  using assms by (auto simp: ring_ok_def Let_def)

lemma busy_index: "busy_slot p k d (slot_of s k) \<Longrightarrow> sl_index (slot_of s k) = k \<and> sl_state (slot_of s k) \<noteq> SLOT_EMPTY"
  by (auto simp: busy_slot_def holds_def)

lemma occupied_in_ring:
  assumes "ring_ok p s" "sl_index (slot_of s k) = k" "sl_state (slot_of s k) \<noteq> SLOT_EMPTY"
  shows "next_chunk_to_write s \<le> k \<and> k < r_chunk s"
proof -
  obtain k' where k': "next_chunk_to_write s \<le> k'" "k' < next_chunk_to_write s + RING_SLOTS" "slot_for_chunk k' = slot_for_chunk k"
    using window_rep by blast
  have "k' < r_chunk s" using ring_bounds(6) [OF assms(1), of k'] k' assms(3) by (cases "k' < r_chunk s") auto
  then have "sl_index (slot_of s k') = k'" using ring_bounds(5) [OF assms(1) k'(1)] busy_index by blast
  then have "k' = k" using k'(3) assms(2) by simp
  then show ?thesis using k'(1) \<open>k' < r_chunk s\<close> by simp
qed

lemma fill_room:
  assumes "ring_ok p s" "sl_state (slot_of s (r_chunk s)) = SLOT_EMPTY"
  shows "r_chunk s < next_chunk_to_write s + RING_SLOTS"
proof (rule ccontr)
  assume "\<not> ?thesis"
  then have r: "r_chunk s = next_chunk_to_write s + RING_SLOTS" using ring_bounds(2) [OF assms(1)] by simp
  then have "slot_for_chunk (r_chunk s) = slot_for_chunk (next_chunk_to_write s)" by (simp add: slot_for_chunk_def)
  moreover have "sl_state (slot_of s (next_chunk_to_write s)) \<noteq> SLOT_EMPTY"
    using busy_index [OF ring_bounds(5) [OF assms(1), of "next_chunk_to_write s"]] r by (simp add: RING_SLOTS_def)
  ultimately show False using assms(2) by simp
qed

lemma reader_fill_pinv:
  assumes ok: "par_ok p" and inv: "pinv p ctx s"
    and g: "\<not> reader_done s" "r_cur s < p_end p" "sl_state (slot_of s (r_chunk s)) = SLOT_EMPTY"
  shows "pinv p ctx (reader_fill p s)"
proof -
  let ?r = "r_chunk s" and ?w = "next_chunk_to_write s" and ?s = "reader_fill p s"
  have ri: "ring_ok p s" using inv by (simp add: pinv_def)
  note b = ring_bounds [OF ri]
  have cur: "r_cur s = cstart p ?r" using b(4) g(2) by simp
  have rN: "?r < n_chunks p" using chunk_before_end [OF ok, of ?r] g(2) cur by simp
  have room: "?r < ?w + RING_SLOTS" by (rule fill_room [OF ri g(3)])
  have f: "next_chunk_to_write ?s = ?w" "r_chunk ?s = ?r + 1" "next_chunk_to_read ?s = next_chunk_to_read s" "wpc ?s = wpc s"
    "dpc ?s = dpc s" "reader_done ?s = reader_done s" "total_chunks ?s = total_chunks s" "rctx ?s = rctx s" "found ?s = found s"
    "r_cur ?s = cstart p ?r + this_blocks p (cstart p ?r)"
    by (simp_all add: reader_fill_def Let_def cur)
  have sl: "slot_of ?s k = (if k = ?r then (slot_of s ?r)\<lparr>sl_buf := chunk_buf p ?r, sl_start := cstart p ?r,
        sl_n_blocks := length (chunk_buf p ?r) div p_bs p, sl_index := ?r, sl_hits := [], sl_state := SLOT_FILLED\<rparr> else slot_of s k)"
    if "?w \<le> k" "k < ?w + RING_SLOTS" for k
    using slot_upd [OF b(1) room that] by (simp add: reader_fill_def Let_def cur chunk_buf_def)
  have dm: "dumping ?s k = dumping s k" for k by (simp add: dumping_def f)
  have e: "sl_cap (slot_of s ?r) = 0" using b(6) [of ?r] room by simp
  have "busy_slot p ?r d (slot_of ?s ?r)" for d using sl [of ?r] b(1) room e by (simp add: busy_slot_def holds_def)
  then have "ring_ok p ?s"
    using b rN room chunk_advance [OF ok rN] by (auto simp: ring_ok_def Let_def f sl dm less_Suc_eq)
  moreover have "workers_ok p ?s"
    using inv b room by (auto simp: pinv_def workers_ok_def worker_ok_def f sl less_Suc_eq split: worker_pc.splits)
  moreover have "claims_ok p ?s"
    using inv b room by (auto simp: pinv_def claims_ok_def Let_def f sl less_Suc_eq)
  moreover have "reader_ok p ?s" using inv g(1) by (simp add: pinv_def reader_ok_def leavers_def f)
  moreover have "writer_ok p ctx ?s"
    using inv b room by (auto simp: pinv_def writer_ok_def Let_def f sl dumped_def split: writer_pc.splits)
  ultimately show ?thesis by (simp add: pinv_def)
qed

lemma reader_finish_pinv:
  assumes ok: "par_ok p" and inv: "pinv p ctx s" and g: "\<not> reader_done s" "\<not> r_cur s < p_end p"
  shows "pinv p ctx (s\<lparr>reader_done := True, total_chunks := int (r_chunk s)\<rparr>)"
proof -
  let ?s = "s\<lparr>reader_done := True, total_chunks := int (r_chunk s)\<rparr>"
  note b = ring_bounds [of p s]
  have ri: "ring_ok p s" using inv by (simp add: pinv_def)
  have "\<not> r_chunk s < n_chunks p" using b(4) [OF ri] g(2) chunk_before_end [OF ok, of "r_chunk s"] by auto
  then have r: "r_chunk s = n_chunks p" using b(3) [OF ri] by simp
  have "ring_ok p ?s" using ri by (simp add: ring_ok_def dumping_def)
  moreover have "workers_ok p ?s" using inv g(1) by (auto simp: pinv_def workers_ok_def worker_ok_def split: worker_pc.splits)
  moreover have "claims_ok p ?s" using inv by (simp add: pinv_def claims_ok_def)
  moreover have "reader_ok p ?s" using inv g(1) r by (simp add: pinv_def reader_ok_def leavers_def)
  moreover have "writer_ok p ctx ?s" using inv by (auto simp: pinv_def writer_ok_def Let_def dumped_def split: writer_pc.splits)
  ultimately show ?thesis by (simp add: pinv_def)
qed

lemma past_end_iff:
  assumes "pinv p ctx s"
  shows "past_end s k \<longleftrightarrow> reader_done s \<and> n_chunks p \<le> k"
  using assms by (auto simp: past_end_def pinv_def reader_ok_def)

lemma leavers_finite [simp, intro]: "finite (leavers p s)"
  by (simp add: leavers_def)

lemma leavers_less:
  assumes "i < p_workers p" "i \<notin> leavers p s"
  shows "card (leavers p s) < p_workers p"
proof -
  have "leavers p s \<subset> {..<p_workers p}" using assms by (auto simp: leavers_def)
  then have "card (leavers p s) < card {..<p_workers p}" by (intro psubset_card_mono) auto
  then show ?thesis by simp
qed

lemma worker_pc_pinv:
  assumes inv: "pinv p ctx s" and i: "i < p_workers p"
    and c: "c' = next_chunk_to_read s \<and> (pc = W_exit \<and> reader_done s \<and> n_chunks p \<le> c' \<and>
          (wpc s i = W_claim \<or> (\<exists>k \<ge> n_chunks p. wpc s i = W_wait k))) \<or>
        c' = next_chunk_to_read s + 1 \<and> pc = W_wait (next_chunk_to_read s) \<and> wpc s i = W_claim"
  shows "pinv p ctx (set_wpc (s\<lparr>next_chunk_to_read := c'\<rparr>) i pc)"
proof -
  let ?s = "set_wpc (s\<lparr>next_chunk_to_read := c'\<rparr>) i pc" and ?c = "next_chunk_to_read s"
  have ri: "ring_ok p s" and wo: "workers_ok p s" and cl: "claims_ok p s" using inv by (simp_all add: pinv_def)
  note b = ring_bounds [OF ri]
  have fill: "next_chunk_to_write s \<le> k \<Longrightarrow> ?c \<le> k \<Longrightarrow> k < r_chunk s \<Longrightarrow> sl_state (slot_of s k) = SLOT_FILLED" for k
    using cl by (simp add: claims_ok_def Let_def)
  have wc: "worker_ok p s (wpc s j)" if "j < p_workers p" for j using wo that by (simp add: workers_ok_def)
  have low: "next_chunk_to_write s \<le> ?c" using cl by (simp add: claims_ok_def Let_def)
  have le: "?c \<le> c'" using c by auto
  have lv: "leavers p ?s = (if pc = W_exit \<or> n_chunks p \<le> ?c then insert i (leavers p s) else leavers p s)"
    using c i by (auto simp: leavers_def)
  have "ring_ok p ?s" using ri by (simp add: ring_ok_def dumping_def)
  moreover have "workers_ok p ?s"
  proof -
    have pc: "worker_ok p ?s pc" using c fill [of ?c] low by (auto simp: worker_ok_def)
    have oth: "worker_ok p ?s (wpc s j)" if "j < p_workers p" for j
      using wc [OF that] le by (auto simp: worker_ok_def split: worker_pc.splits)
    have fresh: "wpc s j \<noteq> W_wait ?c" if "j < p_workers p" for j using wc [OF that] by (auto simp: worker_ok_def)
    show ?thesis
      using wo pc oth fresh c unfolding workers_ok_def by (elim disjE conjE) (simp_all, blast+)
  qed
  moreover have "claims_ok p ?s"
  proof -
    have wt: "\<exists>j < p_workers p. wpc ?s j = W_wait k"
      if k: "next_chunk_to_write s \<le> k" "k < c'" "k < n_chunks p" "k < r_chunk s \<longrightarrow> sl_state (slot_of s k) = SLOT_FILLED" for k
    proof (cases "k < ?c")
      case True
      then obtain j where j: "j < p_workers p" "wpc s j = W_wait k" using cl k by (auto simp: claims_ok_def Let_def)
      then have "j \<noteq> i" using c k(3) by auto
      then show ?thesis using j by auto
    next
      case False
      then have "pc = W_wait k" using c k(2) by auto
      then show ?thesis using i by auto
    qed
    have sc: "\<exists>j < p_workers p. wpc ?s j = W_scan k"
      if k: "next_chunk_to_write s \<le> k" "k < r_chunk s" "sl_state (slot_of s k) = SLOT_PROCESSING" for k
    proof -
      obtain j where j: "j < p_workers p" "wpc s j = W_scan k" using cl k by (auto simp: claims_ok_def Let_def)
      then have "j \<noteq> i" using c by auto
      then show ?thesis using j by auto
    qed
    show ?thesis using wt sc fill low le by (simp add: claims_ok_def Let_def)
  qed
  moreover have "reader_ok p ?s"
  proof -
    have r: "?c \<le> n_chunks p + card (leavers p s)" using inv by (simp add: pinv_def reader_ok_def)
    have ni: "i \<notin> leavers p s" if "wpc s i = W_claim" using that by (simp add: leavers_def)
    have mono: "card (leavers p s) \<le> card (insert i (leavers p s))" by (rule card_mono) auto
    have "c' \<le> n_chunks p + card (leavers p ?s)"
      using c r ni mono unfolding lv by (elim disjE conjE) (auto simp del: card_insert_disjoint simp: card_insert_disjoint)
    then show ?thesis using inv by (auto simp: pinv_def reader_ok_def)
  qed
  moreover have "writer_ok p ctx ?s" using inv by (auto simp: pinv_def writer_ok_def Let_def dumped_def split: writer_pc.splits)
  ultimately show ?thesis by (simp add: pinv_def)
qed

text \<open>Steps that change one slot of the ring and the program counter of one worker.\<close>

lemma worker_slot_pinv:
  assumes inv: "pinv p ctx s" and i: "i < p_workers p" and k: "next_chunk_to_write s \<le> k" "k < r_chunk s"
    and b: "busy_slot p k (dumping s k) sl"
    and st: "wpc s i = W_wait k \<and> sl_state (slot_of s k) = SLOT_FILLED \<and> sl_state sl = SLOT_PROCESSING \<and> pc = W_scan k \<or>
      wpc s i = W_scan k \<and> sl_state (slot_of s k) = SLOT_PROCESSING \<and> sl_state sl = SLOT_DONE \<and> pc = W_claim"
  shows "pinv p ctx (set_wpc (set_slot s k sl) i pc)"
proof -
  let ?s = "set_wpc (set_slot s k sl) i pc" and ?w = "next_chunk_to_write s"
  have ri: "ring_ok p s" and wo: "workers_ok p s" and cl: "claims_ok p s" using inv by (simp_all add: pinv_def)
  note rb = ring_bounds [OF ri]
  have kw: "k < ?w + RING_SLOTS" using k rb(2) by simp
  have sl: "slot_of (set_slot s k sl) j = (if j = k then sl else slot_of s j)" if "?w \<le> j" "j < ?w + RING_SLOTS" for j
    using slot_upd [OF k(1) kw that] .
  have dm: "dumping ?s j = dumping s j" for j by (simp add: dumping_def)
  have wc: "worker_ok p s (wpc s j)" if "j < p_workers p" for j using wo that by (simp add: workers_ok_def)
  have kc: "k < next_chunk_to_read s" using wc [OF i] st by (auto simp: worker_ok_def)
  have uq: "j = i" if "j < p_workers p" "wpc s j = W_wait k \<or> wpc s j = W_scan k" for j
  proof -
    have "wpc s j = wpc s i" using wc [OF that(1)] that(2) st k by (auto simp: worker_ok_def)
    then show ?thesis using wo i that unfolding workers_ok_def by metis
  qed
  have "ring_ok p ?s"
    using rb b k kw by (auto simp: ring_ok_def Let_def sl dm)
  moreover have "workers_ok p ?s"
  proof -
    have "worker_ok p ?s ((wpc ?s) j)" if j: "j < p_workers p" for j
    proof (cases "j = i")
      case True
      then show ?thesis using st k kc kw by (auto simp: worker_ok_def sl)
    next
      case False
      then have "wpc s j \<noteq> W_wait k" "wpc s j \<noteq> W_scan k" using uq [OF j] by auto
      then show ?thesis using wc [OF j] False rb(2) by (auto simp: worker_ok_def sl split: worker_pc.splits)
    qed
    moreover have "\<forall>a < p_workers p. \<forall>b < p_workers p. \<forall>k. wpc ?s a = W_wait k \<longrightarrow> wpc ?s b = W_wait k \<longrightarrow> a = b"
      using wo st unfolding workers_ok_def by auto
    moreover have "\<forall>a < p_workers p. \<forall>b < p_workers p. \<forall>k. wpc ?s a = W_scan k \<longrightarrow> wpc ?s b = W_scan k \<longrightarrow> a = b"
    proof (intro allI impI)
      fix a b m assume ab: "a < p_workers p" "b < p_workers p" "wpc ?s a = W_scan m" "wpc ?s b = W_scan m"
      have m: "m = k" if "pc = W_scan m" using that st by auto
      have u: "wpc s j \<noteq> W_scan k" if "j \<noteq> i" "j < p_workers p" for j using uq that by blast
      have ws: "\<forall>a < p_workers p. \<forall>b < p_workers p. \<forall>k. wpc s a = W_scan k \<longrightarrow> wpc s b = W_scan k \<longrightarrow> a = b"
        using wo by (simp add: workers_ok_def)
      consider "a = i" "b = i" | "a = i" "b \<noteq> i" | "a \<noteq> i" "b = i" | "a \<noteq> i" "b \<noteq> i" by blast
      then show "a = b"
      proof cases
        case 4
        then have "wpc s a = W_scan m" "wpc s b = W_scan m" using ab(3,4) by simp_all
        then show ?thesis using ws ab(1,2) by blast
      qed (use ab m u in auto)
    qed
    ultimately show ?thesis by (simp add: workers_ok_def)
  qed
  moreover have "claims_ok p ?s"
  proof -
    have wt: "\<exists>j < p_workers p. wpc ?s j = W_wait m"
      if m: "?w \<le> m" "m < next_chunk_to_read s" "m < n_chunks p" "m < r_chunk s \<longrightarrow> sl_state (slot_of ?s m) = SLOT_FILLED" for m
    proof -
      have "m \<noteq> k" using m(4) k st kw by (auto simp: sl)
      then have "m < r_chunk s \<longrightarrow> sl_state (slot_of s m) = SLOT_FILLED" using m(1,4) rb(2) by (auto simp: sl)
      then obtain j where j: "j < p_workers p" "wpc s j = W_wait m" using cl m by (auto simp: claims_ok_def Let_def)
      then have "j \<noteq> i" using st \<open>m \<noteq> k\<close> by auto
      then show ?thesis using j by auto
    qed
    have sc: "\<exists>j < p_workers p. wpc ?s j = W_scan m"
      if m: "?w \<le> m" "m < r_chunk s" "sl_state (slot_of ?s m) = SLOT_PROCESSING" for m
    proof (cases "m = k")
      case True
      then have "pc = W_scan m" using m(3) st k kw by (auto simp: sl)
      then show ?thesis using i by auto
    next
      case False
      then have "sl_state (slot_of s m) = SLOT_PROCESSING" using m rb(2) by (simp add: sl)
      then obtain j where j: "j < p_workers p" "wpc s j = W_scan m" using cl m by (auto simp: claims_ok_def Let_def)
      then have "j \<noteq> i" using st False by auto
      then show ?thesis using j by auto
    qed
    have un: "sl_state (slot_of ?s m) = SLOT_FILLED" if m: "?w \<le> m" "next_chunk_to_read s \<le> m" "m < r_chunk s" for m
      using cl m kc rb(2) by (auto simp: claims_ok_def Let_def sl)
    show ?thesis using wt sc un cl by (simp add: claims_ok_def Let_def)
  qed
  moreover have "reader_ok p ?s"
  proof -
    have "k < n_chunks p" using k(2) rb(3) by simp
    then have "leavers p ?s = leavers p s" using st i by (auto simp: leavers_def)
    then show ?thesis using inv by (simp add: pinv_def reader_ok_def)
  qed
  moreover have "writer_ok p ctx ?s"
  proof -
    have "\<not> dumping s k" if "sl_state (slot_of s k) \<noteq> SLOT_DONE"
      using inv that by (auto simp: pinv_def writer_ok_def dumping_def Let_def)
    then have "\<not> dumping s k" using st by auto
    then show ?thesis
      using inv rb(2) by (auto simp: pinv_def writer_ok_def dumping_def Let_def dumped_def sl split: writer_pc.splits)
  qed
  ultimately show ?thesis by (simp add: pinv_def)
qed

lemma dump_list_append:
  "dump_list env bs (xs @ ys) s = (case dump_list env bs xs s of None \<Rightarrow> None | Some s' \<Rightarrow> dump_list env bs ys s')"
  by (induction xs arbitrary: s) (auto split: option.split)

text \<open>Steps that move the writer only.\<close>

lemma writer_pc_pinv:
  assumes inv: "pinv p ctx s" and wr: "writer_ok p ctx (s\<lparr>rctx := c', found := n', dpc := d\<rparr>)"
    and dm: "\<And>k. dumping (s\<lparr>rctx := c', found := n', dpc := d\<rparr>) k = dumping s k"
  shows "pinv p ctx (s\<lparr>rctx := c', found := n', dpc := d\<rparr>)"
proof -
  let ?s = "s\<lparr>rctx := c', found := n', dpc := d\<rparr>"
  have "worker_ok p ?s pc = worker_ok p s pc" for pc by (cases pc) (simp_all add: worker_ok_def)
  then show ?thesis
    using inv wr dm by (simp add: pinv_def ring_ok_def workers_ok_def claims_ok_def reader_ok_def leavers_def)
qed

lemma writer_take_pinv:
  assumes inv: "pinv p ctx s" and g: "dpc s = D_wait k" "done_with s k"
  shows "pinv p ctx (writer_take s k)"
proof -
  let ?s = "writer_take s k" and ?w = "next_chunk_to_write s" and ?sl = "(slot_of s k)\<lparr>sl_hits := [], sl_cap := 0\<rparr>"
  have ri: "ring_ok p s" using inv by (simp add: pinv_def)
  note rb = ring_bounds [OF ri]
  have kw: "k = ?w" "dumped p ctx (concat (map (chunk_hits p) [0..<?w])) s"
    using inv g(1) by (auto simp: pinv_def writer_ok_def Let_def)
  have k: "?w \<le> k" "k < r_chunk s" using occupied_in_ring [OF ri, of k] g(2) by (auto simp: done_with_def)
  then have kr: "k < ?w + RING_SLOTS" using rb(2) by simp
  have bs: "busy_slot p k (dumping s k) (slot_of s k)" using rb(5) k by blast
  have nd: "\<not> dumping s j" for j using g(1) by (simp add: dumping_def)
  have dm: "dumping ?s j = (j = k)" for j by (auto simp: dumping_def writer_take_def Let_def)
  have f: "next_chunk_to_write ?s = ?w" "r_chunk ?s = r_chunk s" "next_chunk_to_read ?s = next_chunk_to_read s" "wpc ?s = wpc s"
    "dpc ?s = D_dump k (sl_hits (slot_of s k))" "reader_done ?s = reader_done s" "total_chunks ?s = total_chunks s" "rctx ?s = rctx s"
    "found ?s = found s" "r_cur ?s = r_cur s"
    by (simp_all add: writer_take_def Let_def)
  have sl: "slot_of ?s j = (if j = k then ?sl else slot_of s j)" if "?w \<le> j" "j < ?w + RING_SLOTS" for j
    using slot_upd [OF k(1) kr that] by (simp add: writer_take_def Let_def)
  have st: "sl_state (slot_of ?s j) = sl_state (slot_of s j)" for j
    by (auto simp: writer_take_def Let_def set_slot_def)
  have hits: "sl_hits (slot_of s k) = chunk_hits p k" using bs nd g(2) by (simp add: busy_slot_def done_with_def)
  have "busy_slot p k True ?sl" using bs nd g(2) by (simp add: busy_slot_def holds_def done_with_def)
  then have "ring_ok p ?s" using rb nd k kr by (auto simp: ring_ok_def Let_def f sl dm)
  moreover have "worker_ok p ?s pc = worker_ok p s pc" for pc by (cases pc) (simp_all add: worker_ok_def f st)
  then have "workers_ok p ?s" using inv by (simp add: pinv_def workers_ok_def f)
  moreover have "claims_ok p ?s" using inv by (simp add: pinv_def claims_ok_def f st)
  moreover have "reader_ok p ?s" using inv by (simp add: pinv_def reader_ok_def leavers_def f)
  moreover have "writer_ok p ctx ?s"
  proof -
    have "dumped p ctx (concat (map (chunk_hits p) [0..<?w])) ?s" using kw(2) by (simp add: dumped_def f)
    moreover have "sl_state (slot_of ?s k) = SLOT_DONE" using g(2) by (simp add: st done_with_def)
    moreover have "?w < r_chunk s" using k(2) kw(1) by simp
    ultimately show ?thesis
      unfolding writer_ok_def Let_def f writer_pc.case hits using kw(1) by (intro conjI exI [of _ "[]"]) simp_all
  qed
  ultimately show ?thesis by (simp add: pinv_def)
qed

lemma writer_recycle_pinv:
  assumes inv: "pinv p ctx s" and g: "dpc s = D_dump k []"
  shows "pinv p ctx (writer_recycle s k)"
proof -
  let ?s = "writer_recycle s k" and ?w = "next_chunk_to_write s" and ?sl = "(slot_of s k)\<lparr>sl_state := SLOT_EMPTY\<rparr>"
  have ri: "ring_ok p s" and wo: "workers_ok p s" and cl: "claims_ok p s" using inv by (simp_all add: pinv_def)
  note rb = ring_bounds [OF ri]
  have kw: "?w = k" "k < r_chunk s" "sl_state (slot_of s k) = SLOT_DONE"
    "dumped p ctx (concat (map (chunk_hits p) [0..<?w]) @ chunk_hits p k) s"
    using inv g by (auto simp: pinv_def writer_ok_def Let_def)
  have kr: "?w \<le> k" "k < ?w + RING_SLOTS" using kw(1,2) rb(2) by (simp_all add: RING_SLOTS_def)
  have cap: "sl_cap (slot_of s k) = 0"
    using rb(5) [of k] kw g by (auto simp: busy_slot_def dumping_def)
  have dm: "\<not> dumping ?s j" "dumping s j = (j = k)" for j using g by (auto simp: dumping_def writer_recycle_def)
  have f: "next_chunk_to_write ?s = k + 1" "r_chunk ?s = r_chunk s" "next_chunk_to_read ?s = next_chunk_to_read s" "wpc ?s = wpc s"
    "dpc ?s = D_want" "reader_done ?s = reader_done s" "total_chunks ?s = total_chunks s" "rctx ?s = rctx s"
    "found ?s = found s" "r_cur ?s = r_cur s"
    by (simp_all add: writer_recycle_def)
  have sl: "slot_of ?s j = (if j = k then ?sl else slot_of s j)" if "?w \<le> j" "j < ?w + RING_SLOTS" for j
    using slot_upd [OF kr that] by (simp add: writer_recycle_def)
  have last: "slot_of ?s (?w + RING_SLOTS) = ?sl"
  proof -
    have "slot_for_chunk (?w + RING_SLOTS) = slot_for_chunk k" using kw(1) by (simp add: slot_for_chunk_def)
    then show ?thesis by (simp add: writer_recycle_def set_slot_def)
  qed
  have wc: "worker_ok p s (wpc s j)" if "j < p_workers p" for j using wo that by (simp add: workers_ok_def)
  have keep: "slot_of ?s x = slot_of s x" if "?w \<le> x" "x < r_chunk s" "x \<noteq> k" for x using sl [of x] that rb(2) by simp
  have ne: "x \<noteq> k" if "sl_state (slot_of s x) = SLOT_FILLED \<or> sl_state (slot_of s x) = SLOT_PROCESSING" for x
    using that kw(3) by auto
  have "ring_ok p ?s"
  proof -
    have "sl_state (slot_of ?s j) = SLOT_EMPTY \<and> sl_cap (slot_of ?s j) = 0" if "r_chunk s \<le> j" "j < k + 1 + RING_SLOTS" for j
    proof (cases "j = ?w + RING_SLOTS")
      case True
      then show ?thesis using last cap by simp
    next
      case False
      then have "j < ?w + RING_SLOTS" "?w \<le> j" "j \<noteq> k" using that kw(1,2) by auto
      then show ?thesis using sl [of j] rb(6) [of j] that by simp
    qed
    moreover have "busy_slot p j False (slot_of ?s j)" if "k + 1 \<le> j" "j < r_chunk s" for j
      using that rb(5) [of j] kw(1) sl [of j] rb(2) dm(2) by simp
    ultimately show ?thesis using rb kw(1,2) by (simp add: ring_ok_def Let_def f dm)
  qed
  moreover have "workers_ok p ?s"
  proof -
    have "worker_ok p ?s (wpc s j)" if j: "j < p_workers p" for j
    proof (cases "wpc s j")
      case (W_wait x)
      then show ?thesis using wc [OF j] keep [of x] ne [of x] by (simp add: worker_ok_def f) (metis Suc_leI le_neq_implies_less kw(1))
    next
      case (W_scan x)
      then show ?thesis using wc [OF j] keep [of x] ne [of x] by (simp add: worker_ok_def f) (metis Suc_leI le_neq_implies_less kw(1))
    qed (use wc [OF j] in \<open>simp_all add: worker_ok_def f\<close>)
    then show ?thesis using wo by (simp add: workers_ok_def f)
  qed
  moreover have "claims_ok p ?s"
  proof -
    have unf: "sl_state (slot_of s x) = SLOT_FILLED" if "?w \<le> x" "next_chunk_to_read s \<le> x" "x < r_chunk s" for x
      using cl that by (simp add: claims_ok_def Let_def)
    have kc: "k < next_chunk_to_read s"
    proof (rule ccontr)
      assume "\<not> ?thesis"
      then show False using unf [of k] kw by simp
    qed
    have st: "sl_state (slot_of ?s x) = sl_state (slot_of s x)" if "k < x" "x < r_chunk s" for x
      using keep [of x] that kw(1) by simp
    have "\<exists>i < p_workers p. wpc s i = W_wait x"
      if "k < x" "x < next_chunk_to_read s" "x < n_chunks p" "x < r_chunk s \<longrightarrow> sl_state (slot_of s x) = SLOT_FILLED" for x
      using cl that kw(1) by (simp add: claims_ok_def Let_def)
    moreover have "\<exists>i < p_workers p. wpc s i = W_scan x"
      if "k < x" "x < r_chunk s" "sl_state (slot_of s x) = SLOT_PROCESSING" for x
      using cl that kw(1) by (simp add: claims_ok_def Let_def)
    ultimately show ?thesis using unf st kc kw(1) by (simp add: claims_ok_def Let_def f Suc_le_eq)
  qed
  moreover have "reader_ok p ?s" using inv by (simp add: pinv_def reader_ok_def leavers_def f)
  moreover have "writer_ok p ctx ?s" using kw(1,4) by (simp add: writer_ok_def Let_def f dumped_def)
  ultimately show ?thesis by (simp add: pinv_def)
qed

lemma worker_finish_busy:
  assumes "busy_slot p k d (slot_of s k)" "sl_state (slot_of s k) = SLOT_PROCESSING" "\<not> d"
  shows "\<exists>sl. worker_finish p s k = set_slot s k sl \<and> busy_slot p k d sl \<and> sl_state sl = SLOT_DONE"
proof -
  let ?sl = "slot_of s k"
  obtain hits cap where h: "scan_chunk p (sl_buf ?sl) (sl_start ?sl) [0..<sl_n_blocks ?sl] (sl_hits ?sl, sl_cap ?sl) = (hits, cap)"
    by fastforce
  then have "hits = chunk_hits p k" using assms by (auto simp: busy_slot_def holds_def chunk_hits_def)
  then show ?thesis
    using h assms by (intro exI [of _ "?sl\<lparr>sl_hits := hits, sl_cap := cap, sl_state := SLOT_DONE\<rparr>"])
      (simp add: worker_finish_def busy_slot_def holds_def)
qed

lemma pstep_pinv:
  assumes ok: "par_ok p" and st: "pstep p s s'" and inv: "pinv p ctx s"
  shows "pinv p ctx s'"
  using st
proof (cases rule: pstep.cases)
  case Reader_fill
  then show ?thesis using reader_fill_pinv [OF ok inv] by simp
next
  case Reader_finish
  then show ?thesis using reader_finish_pinv [OF ok inv] by simp
next
  case (Worker_claim i)
  then show ?thesis using worker_pc_pinv [OF inv, of i "next_chunk_to_read s + 1" "W_wait (next_chunk_to_read s)"] by simp
next
  case (Worker_leave i)
  then show ?thesis
    using worker_pc_pinv [OF inv, of i "next_chunk_to_read s" W_exit] past_end_iff [OF inv] by simp
next
  case (Worker_take i k)
  have ri: "ring_ok p s" using inv by (simp add: pinv_def)
  have k: "next_chunk_to_write s \<le> k" "k < r_chunk s"
    using occupied_in_ring [OF ri, of k] Worker_take(4) by (simp_all add: filled_with_def)
  have "busy_slot p k (dumping s k) ((slot_of s k)\<lparr>sl_state := SLOT_PROCESSING\<rparr>)"
    using ring_bounds(5) [OF ri k] Worker_take(4) by (simp add: busy_slot_def holds_def filled_with_def)
  then show ?thesis
    using worker_slot_pinv [OF inv Worker_take(2) k, of _ "W_scan k"] Worker_take by (simp add: filled_with_def)
next
  case (Worker_bail i k)
  have "worker_ok p s (wpc s i)" using inv Worker_bail(2) by (simp add: pinv_def workers_ok_def)
  then have "k < next_chunk_to_read s" using Worker_bail(3) by (simp add: worker_ok_def)
  moreover have "reader_done s" "n_chunks p \<le> k" using past_end_iff [OF inv] Worker_bail(5) by simp_all
  ultimately show ?thesis
    using worker_pc_pinv [OF inv Worker_bail(2), of "next_chunk_to_read s" W_exit] Worker_bail(1,3) by simp
next
  case (Worker_finish i k)
  have ri: "ring_ok p s" using inv by (simp add: pinv_def)
  have "worker_ok p s (wpc s i)" using inv Worker_finish(2) by (simp add: pinv_def workers_ok_def)
  then have k: "next_chunk_to_write s \<le> k" "k < r_chunk s" "sl_state (slot_of s k) = SLOT_PROCESSING"
    using Worker_finish(3) by (simp_all add: worker_ok_def)
  have nd: "\<not> dumping s k" using inv k(3) by (auto simp: pinv_def writer_ok_def dumping_def Let_def)
  obtain sl where "worker_finish p s k = set_slot s k sl" "busy_slot p k (dumping s k) sl" "sl_state sl = SLOT_DONE"
    using worker_finish_busy [OF ring_bounds(5) [OF ri k(1,2)] k(3) nd] by blast
  then show ?thesis using worker_slot_pinv [OF inv Worker_finish(2) k(1,2), of sl W_claim] Worker_finish k(3) by simp
next
  case Writer_want
  then show ?thesis
    using writer_pc_pinv [OF inv, where c' = "rctx s" and n' = "found s" and d = "D_wait (next_chunk_to_write s)"] inv
    by (simp add: pinv_def writer_ok_def Let_def dumping_def dumped_def)
next
  case Writer_exit
  then show ?thesis
    using writer_pc_pinv [OF inv, where c' = "rctx s" and n' = "found s" and d = D_exit] inv past_end_iff [OF inv]
    by (simp add: pinv_def writer_ok_def Let_def dumping_def dumped_def)
next
  case (Writer_take k)
  then show ?thesis using writer_take_pinv [OF inv] by simp
next
  case (Writer_bail k)
  then show ?thesis
    using writer_pc_pinv [OF inv, where c' = "rctx s" and n' = "found s" and d = D_exit] inv past_end_iff [OF inv]
    by (simp add: pinv_def writer_ok_def Let_def dumping_def dumped_def)
next
  case (Writer_dump k h hs c' n')
  let ?s = "s\<lparr>rctx := c', found := n', dpc := D_dump k hs\<rparr>"
  let ?before = "concat (map (chunk_hits p) [0..<next_chunk_to_write s])"
  have "writer_ok p ctx s" using inv by (simp add: pinv_def)
  then obtain pre where w: "k = next_chunk_to_write s" "next_chunk_to_write s < r_chunk s" "sl_state (slot_of s k) = SLOT_DONE"
    "chunk_hits p k = pre @ h # hs" "dumped p ctx (?before @ pre) s"
    using Writer_dump(2) by (auto simp: writer_ok_def Let_def)
  have "dumped p ctx (?before @ pre @ [h]) ?s"
    using w(5) Writer_dump(3) dump_list_append [of "p_env p" "p_bs p" "?before @ pre" "[h]"] by (simp add: dumped_def)
  then have "writer_ok p ctx ?s"
    using w by (auto simp: writer_ok_def Let_def intro!: exI [of _ "pre @ [h]"])
  then show ?thesis
    using writer_pc_pinv [OF inv] Writer_dump(1,2) by (simp add: dumping_def)
next
  case (Writer_recycle k)
  then show ?thesis using writer_recycle_pinv [OF inv] by simp
qed

lemma psteps_pinv:
  assumes "par_ok p" "psteps p s s'" "pinv p ctx s"
  shows "pinv p ctx s'"
  using assms(2,3) by (induction rule: rtranclp_induct) (auto intro: pstep_pinv [OF assms(1)])

section \<open>Progress\<close>

definition scan_ok :: "scan_par \<Rightarrow> recover_context \<Rightarrow> bool" where
  "scan_ok p ctx \<longleftrightarrow> par_ok p \<and> io_reads (p_env p) (p_bs p) \<and> 12 \<le> p_bs p \<and> blocksize ctx = p_bs p \<and> rb_good ctx \<and>
     p_end p \<le> unat (total_blocks ctx) \<and> (\<forall>off n. length (dev_pread (p_env p) off n) \<le> n)"

lemma scan_chunk_set:
  "set (fst (scan_chunk p buf st bs h)) \<subseteq> set (fst h) \<union> (\<lambda>b. of_nat (st + b)) ` set bs"
proof (induction bs arbitrary: h)
  case (Cons b bs)
  let ?h = "add_hit (p_env p) h (of_nat (st + b))"
  have "set (fst ?h) \<subseteq> insert (of_nat (st + b)) (set (fst h))"
    by (cases h) (auto simp: add_hit_def Let_def)
  then have "set (fst (scan_chunk p buf st bs ?h)) \<subseteq> insert (of_nat (st + b)) (set (fst h)) \<union> (\<lambda>b. of_nat (st + b)) ` set bs"
    using Cons.IH [of ?h] by blast
  moreover have "scan_chunk p buf st (b # bs) h = scan_chunk p buf st bs h \<or> scan_chunk p buf st (b # bs) h = scan_chunk p buf st bs ?h"
    by (simp add: Let_def)
  ultimately show ?case using Cons.IH [of h] by auto
qed simp

lemma chunk_hits_below:
  assumes "scan_ok p ctx" "k < n_chunks p" "h \<in> set (chunk_hits p k)"
  shows "h < total_blocks ctx"
proof -
  let ?n = "this_blocks p (cstart p k)"
  have ok: "par_ok p" "12 \<le> p_bs p" "p_end p \<le> unat (total_blocks ctx)" using assms(1) by (simp_all add: scan_ok_def)
  have "length (chunk_buf p k) \<le> ?n * p_bs p" using assms(1) by (simp add: scan_ok_def chunk_buf_def)
  then have len: "length (chunk_buf p k) div p_bs p \<le> ?n" using ok(2)
    by (metis div_le_mono div_mult_self_is_m less_le_trans zero_less_numeral)
  obtain b where b: "h = of_nat (cstart p k + b)" "b < length (chunk_buf p k) div p_bs p"
    using assms(3) scan_chunk_set [of p "chunk_buf p k" "cstart p k" "[0..<length (chunk_buf p k) div p_bs p]" "([], 0)"]
    by (auto simp: chunk_hits_def)
  have "cstart p k + b < p_end p" using chunk_advance [OF ok(1) assms(2)] b(2) len by simp
  then have "cstart p k + b < unat (total_blocks ctx)" using ok(3) by simp
  moreover have "unat h \<le> cstart p k + b" by (simp add: b(1) unat_of_nat del: of_nat_add)
  ultimately show ?thesis by (simp add: word_less_nat_alt)
qed

lemma dump_hit_good:
  assumes "io_reads env (blocksize (fst s))" "rb_good (fst s)" "12 \<le> blocksize (fst s)" "h < total_blocks (fst s)"
  shows "\<exists>s'. dump_hit env (blocksize (fst s)) h s = Some s' \<and> agg_step (fst s) (fst s')"
proof -
  obtain c n where s: "s = (c, n)" by (cases s)
  have "is_block_recovered (rb c) h = Some (h \<in> rb_elems (rb c))"
    using assms(2) s by (intro is_block_recovered_exact) (simp add: rb_good_def)
  moreover define bbuf where "bbuf = dev_pread env (unat h * blocksize c) (blocksize c)"
  have "\<exists>r c'. recover_orphaned_extent_block env c h bbuf = Some (r, c') \<and> agg_step c c'"
    if "length bbuf = blocksize c"
    using recover_block_good [of env c bbuf h] assms s that by simp
  ultimately show ?thesis
    using assms(2) s by (cases "h \<in> rb_elems (rb c)"; cases "length bbuf = blocksize c")
      (auto simp: dump_hit_def Let_def agg_step_refl bbuf_def [symmetric])
qed

lemma dump_list_step:
  assumes "dump_list env bs hs s = Some s'" "io_reads env bs" "blocksize (fst s) = bs" "rb_good (fst s)" "12 \<le> bs"
    "\<forall>h \<in> set hs. h < total_blocks (fst s)"
  shows "agg_step (fst s) (fst s')"
  using assms
proof (induction hs arbitrary: s)
  case Nil
  then show ?case by (simp add: agg_step_refl)
next
  case (Cons h hs)
  obtain s1 where s1: "dump_hit env bs h s = Some s1" "agg_step (fst s) (fst s1)"
    using dump_hit_good [of env s h] Cons.prems by auto
  then have "agg_step (fst s1) (fst s')" using Cons.IH [of s1] Cons.prems by (auto simp: agg_step_def)
  with s1(2) show ?case by (rule agg_step_trans)
qed

lemma before_below:
  assumes "scan_ok p ctx" "w \<le> n_chunks p" "h \<in> set (concat (map (chunk_hits p) [0..<w]))"
  shows "h < total_blocks ctx"
proof -
  obtain k where "k < w" "h \<in> set (chunk_hits p k)" using assms(3) by auto
  then show ?thesis using chunk_hits_below [OF assms(1), of k h] assms(2) by simp
qed

lemma dump_enabled:
  assumes ok: "scan_ok p ctx" and inv: "pinv p ctx s" and d: "dpc s = D_dump k (h # hs)"
  shows "\<exists>c' n'. dump_hit (p_env p) (p_bs p) h (rctx s, found s) = Some (c', n')"
proof -
  let ?before = "concat (map (chunk_hits p) [0..<next_chunk_to_write s])"
  have ri: "ring_ok p s" using inv by (simp add: pinv_def)
  obtain pre where w: "k = next_chunk_to_write s" "k < r_chunk s" "chunk_hits p k = pre @ h # hs" "dumped p ctx (?before @ pre) s"
    using inv d by (auto simp: pinv_def writer_ok_def Let_def)
  have kN: "k < n_chunks p" using w(2) ring_bounds(3) [OF ri] by simp
  have "x < total_blocks ctx" if "x \<in> set (?before @ pre)" for x
    using that before_below [OF ok, of k x] chunk_hits_below [OF ok kN, of x] w(1,3) kN by auto
  then have g: "agg_step ctx (rctx s)"
    using dump_list_step [of "p_env p" "p_bs p" "?before @ pre" "(ctx, 0)" "(rctx s, found s)"] w(4) ok
    by (auto simp: dumped_def scan_ok_def)
  have "h < total_blocks ctx" using chunk_hits_below [OF ok kN, of h] w(3) by simp
  then show ?thesis
    using dump_hit_good [of "p_env p" "(rctx s, found s)" h] g ok by (auto simp: agg_step_def scan_ok_def)
qed

lemma chunk_progress:
  assumes ok: "scan_ok p ctx" and inv: "pinv p ctx s" and w: "next_chunk_to_write s < r_chunk s"
    and nx: "dpc s \<noteq> D_exit"
  shows "\<exists>s'. pstep p s s'"
proof -
  let ?w = "next_chunk_to_write s"
  have ri: "ring_ok p s" and wo: "workers_ok p s" and cl: "claims_ok p s" using inv by (simp_all add: pinv_def)
  have n: "0 < p_workers p" using ok by (simp add: scan_ok_def par_ok_def)
  have bs: "busy_slot p ?w (dumping s ?w) (slot_of s ?w)" using ring_bounds(5) [OF ri, of ?w] w by simp
  then have ix: "sl_index (slot_of s ?w) = ?w" by (simp add: busy_slot_def holds_def)
  consider "sl_state (slot_of s ?w) = SLOT_FILLED" | "sl_state (slot_of s ?w) = SLOT_PROCESSING" | "sl_state (slot_of s ?w) = SLOT_DONE"
    using bs by (auto simp: busy_slot_def)
  then show ?thesis
  proof cases
    case 1
    show ?thesis
    proof (cases "?w < next_chunk_to_read s")
      case True
      then obtain i where "i < p_workers p" "wpc s i = W_wait ?w"
        using cl 1 w ring_bounds(3) [OF ri] by (auto simp: claims_ok_def Let_def)
      then show ?thesis using pstep.Worker_take [of i p s ?w] 1 ix by (auto simp: filled_with_def)
    next
      case False
      have wk: "worker_ok p s (wpc s 0)" using wo n by (simp add: workers_ok_def)
      show ?thesis
      proof (cases "wpc s 0")
        case W_claim
        then show ?thesis using pstep.Worker_claim [OF n W_claim] pstep.Worker_leave [OF n W_claim] by blast
      next
        case (W_wait k)
        then show ?thesis using wk False w by (auto simp: worker_ok_def)
      next
        case (W_scan k)
        then show ?thesis using pstep.Worker_finish [OF n W_scan] by blast
      next
        case W_exit
        then show ?thesis using wk False w ring_bounds(3) [OF ri] by (simp add: worker_ok_def)
      qed
    qed
  next
    case 2
    then obtain i where "i < p_workers p" "wpc s i = W_scan ?w" using cl w by (auto simp: claims_ok_def Let_def)
    then show ?thesis using pstep.Worker_finish by blast
  next
    case 3
    show ?thesis
    proof (cases "dpc s")
      case D_want
      then show ?thesis using pstep.Writer_want [OF D_want] pstep.Writer_exit [OF D_want] by blast
    next
      case (D_wait k)
      then have "k = ?w" using inv by (simp add: pinv_def writer_ok_def Let_def)
      then show ?thesis using pstep.Writer_take [OF D_wait] 3 ix by (auto simp: done_with_def)
    next
      case (D_dump k hs)
      then show ?thesis
        using dump_enabled [OF ok inv] pstep.Writer_recycle [of s k p] pstep.Writer_dump [of s k] by (cases hs) blast+
    qed (use nx in simp)
  qed
qed

lemma pstep_progress:
  assumes ok: "scan_ok p ctx" and inv: "pinv p ctx s" and live: "\<not> all_exited p s"
  shows "\<exists>s'. pstep p s s'"
proof -
  let ?w = "next_chunk_to_write s"
  have ri: "ring_ok p s" and wo: "workers_ok p s" using inv by (simp_all add: pinv_def)
  have pk: "par_ok p" using ok by (simp add: scan_ok_def)
  note rb = ring_bounds [OF ri]
  show ?thesis
  proof (cases "reader_done s")
    case False
    have nx: "dpc s \<noteq> D_exit" using inv False by (auto simp: pinv_def writer_ok_def Let_def)
    show ?thesis
    proof (cases "r_cur s < p_end p")
      case cur: True
      show ?thesis
      proof (cases "r_chunk s < ?w + RING_SLOTS")
        case True
        then show ?thesis using pstep.Reader_fill [OF False cur] rb(6) [of "r_chunk s"] by blast
      next
        case full: False
        then have "?w < r_chunk s" by (simp add: RING_SLOTS_def)
        then show ?thesis using chunk_progress [OF ok inv _ nx] by blast
      qed
    qed (use pstep.Reader_finish [OF False] in blast)
  next
    case True
    then have r: "r_chunk s = n_chunks p" using inv by (simp add: pinv_def reader_ok_def)
    show ?thesis
    proof (cases "dpc s = D_exit")
      case False
      show ?thesis
      proof (cases "?w < r_chunk s")
        case False
        show ?thesis
        proof (cases "dpc s")
          case D_want
          then show ?thesis using pstep.Writer_want [OF D_want] pstep.Writer_exit [OF D_want] by blast
        next
          case (D_wait k)
          then have "k = ?w" using inv by (simp add: pinv_def writer_ok_def Let_def)
          then have "past_end s k" using past_end_iff [OF inv] True False r by simp
          then show ?thesis using pstep.Writer_take [OF D_wait] pstep.Writer_bail [OF D_wait] by blast
        next
          case (D_dump k hs)
          then show ?thesis using inv False by (auto simp: pinv_def writer_ok_def Let_def)
        qed (use \<open>dpc s \<noteq> D_exit\<close> in simp)
      qed (use chunk_progress [OF ok inv] False in blast)
    next
      case dx: True
      then obtain i where i: "i < p_workers p" "wpc s i \<noteq> W_exit" using live True by (auto simp: all_exited_def)
      have wk: "worker_ok p s (wpc s i)" using wo i(1) by (simp add: workers_ok_def)
      show ?thesis
      proof (cases "wpc s i")
        case W_claim
        then show ?thesis using pstep.Worker_claim [OF i(1) W_claim] pstep.Worker_leave [OF i(1) W_claim] by blast
      next
        case (W_wait k)
        show ?thesis
        proof (cases "filled_with s k")
          case True
          then show ?thesis using pstep.Worker_take [OF i(1) W_wait] by blast
        next
          case nf: False
          have "\<not> k < r_chunk s"
          proof
            assume "k < r_chunk s"
            then have "?w \<le> k" "sl_state (slot_of s k) = SLOT_FILLED" using wk W_wait by (simp_all add: worker_ok_def)
            then show False using nf busy_index [OF rb(5)] \<open>k < r_chunk s\<close> by (simp add: filled_with_def)
          qed
          then have "past_end s k" using past_end_iff [OF inv] True r by simp
          then show ?thesis using pstep.Worker_bail [OF i(1) W_wait nf] by blast
        qed
      next
        case (W_scan k)
        then show ?thesis using pstep.Worker_finish [OF i(1) W_scan] by blast
      qed (use i in simp)
    qed
  qed
qed

section \<open>Every run is finite\<close>

primrec wweight :: "worker_pc \<Rightarrow> nat" where
  "wweight W_claim = 1"
| "wweight (W_wait k) = 3"
| "wweight (W_scan k) = 2"
| "wweight W_exit = 0"

definition to_dump :: "scan_par \<Rightarrow> nat \<Rightarrow> nat" where
  "to_dump p w = (\<Sum>k = w..<n_chunks p. length (chunk_hits p k) + 4)"

primrec dweight :: "scan_par \<Rightarrow> nat \<Rightarrow> writer_pc \<Rightarrow> nat" where
  "dweight p w D_want = to_dump p w + 3"
| "dweight p w (D_wait k) = to_dump p w + 2"
| "dweight p w (D_dump k hs) = to_dump p (w + 1) + length hs + 4"
| "dweight p w D_exit = 0"

definition pmeasure :: "scan_par \<Rightarrow> scan_ctx \<Rightarrow> nat" where
  "pmeasure p s =
     (n_chunks p - r_chunk s) + (if reader_done s then 0 else 1) +
     4 * (n_chunks p + p_workers p - next_chunk_to_read s) + (\<Sum>i < p_workers p. wweight (wpc s i)) + dweight p (next_chunk_to_write s) (dpc s)"

lemma wweight_upd:
  assumes "i < (n :: nat)"
  shows "(\<Sum>j < n. wweight ((f(i := pc)) j)) + wweight (f i) = (\<Sum>j < n. wweight (f j)) + wweight pc"
proof -
  have "(\<Sum>j < n. wweight ((f(i := pc)) j)) = wweight pc + (\<Sum>j \<in> {..<n} - {i}. wweight (f j))"
  proof -
    have "(\<Sum>j \<in> {..<n} - {i}. wweight ((f(i := pc)) j)) = (\<Sum>j \<in> {..<n} - {i}. wweight (f j))" by (rule sum.cong) auto
    then show ?thesis using assms by (simp only: sum.remove [OF finite_lessThan, of i] lessThan_iff fun_upd_same)
  qed
  moreover have "(\<Sum>j < n. wweight (f j)) = wweight (f i) + (\<Sum>j \<in> {..<n} - {i}. wweight (f j))"
    using assms by (simp add: sum.remove [of _ i])
  ultimately show ?thesis by simp
qed

lemma to_dump_Suc: "w < n_chunks p \<Longrightarrow> to_dump p w = length (chunk_hits p w) + 4 + to_dump p (Suc w)"
  by (simp add: to_dump_def sum.atLeast_Suc_lessThan)

lemma pstep_decreases:
  assumes ok: "par_ok p" and st: "pstep p s s'" and inv: "pinv p ctx s"
  shows "pmeasure p s' < pmeasure p s"
  using st
proof (cases rule: pstep.cases)
  case Reader_fill
  have "r_cur s = cstart p (r_chunk s)"
    using ring_bounds(4) [of p s] inv Reader_fill(3) by (simp add: pinv_def)
  then have "r_chunk s < n_chunks p" using chunk_before_end [OF ok] Reader_fill(3) by simp
  then show ?thesis using Reader_fill(1) by (simp add: pmeasure_def reader_fill_def Let_def)
next
  case Reader_finish
  then show ?thesis by (simp add: pmeasure_def)
next
  case (Worker_claim i)
  have "i \<notin> leavers p s" using Worker_claim(3) by (simp add: leavers_def)
  then have "card (leavers p s) < p_workers p" using leavers_less Worker_claim(2) by blast
  then have "next_chunk_to_read s < n_chunks p + p_workers p" using inv by (simp add: pinv_def reader_ok_def)
  then show ?thesis
    using wweight_upd [OF Worker_claim(2), of "wpc s" "W_wait (next_chunk_to_read s)"] Worker_claim(1,3)
    by (simp add: pmeasure_def set_wpc_def)
next
  case (Worker_leave i)
  then show ?thesis using wweight_upd [OF Worker_leave(2), of "wpc s" W_exit] by (simp add: pmeasure_def)
next
  case (Worker_take i k)
  then show ?thesis using wweight_upd [OF Worker_take(2), of "wpc s" "W_scan k"] by (simp add: pmeasure_def)
next
  case (Worker_bail i k)
  then show ?thesis using wweight_upd [OF Worker_bail(2), of "wpc s" W_exit] by (simp add: pmeasure_def)
next
  case (Worker_finish i k)
  obtain sl where "worker_finish p s k = set_slot s k sl" by (auto simp: worker_finish_def Let_def case_prod_beta)
  then show ?thesis
    using wweight_upd [OF Worker_finish(2), of "wpc s" W_claim] Worker_finish by (simp add: pmeasure_def)
next
  case (Writer_take k)
  have ri: "ring_ok p s" using inv by (simp add: pinv_def)
  have k: "k = next_chunk_to_write s" using inv Writer_take(2) by (simp add: pinv_def writer_ok_def Let_def)
  have kr: "next_chunk_to_write s \<le> k" "k < r_chunk s" using occupied_in_ring [OF ri, of k] Writer_take(3) by (auto simp: done_with_def)
  then have kN: "next_chunk_to_write s < n_chunks p" using ring_bounds(3) [OF ri] k by simp
  have "sl_hits (slot_of s k) = chunk_hits p k"
    using ring_bounds(5) [OF ri kr] Writer_take(2,3) by (simp add: busy_slot_def done_with_def dumping_def)
  then show ?thesis
    using Writer_take(1,2) to_dump_Suc [OF kN] k by (simp add: pmeasure_def writer_take_def Let_def)
next
  case (Writer_recycle k)
  have "k = next_chunk_to_write s" using inv Writer_recycle(2) by (simp add: pinv_def writer_ok_def Let_def)
  then show ?thesis using Writer_recycle by (simp add: pmeasure_def writer_recycle_def)
qed (simp_all add: pmeasure_def)

lemma run_bounded:
  assumes "par_ok p" "pinv p ctx s" "(pstep p ^^ n) s s'"
  shows "n + pmeasure p s' \<le> pmeasure p s \<and> pinv p ctx s'"
  using assms(3)
proof (induction n arbitrary: s')
  case 0
  then show ?case using assms(2) by simp
next
  case (Suc n)
  then obtain t where t: "(pstep p ^^ n) s t" "pstep p t s'" by auto
  then show ?case
    using Suc.IH [OF t(1)] pstep_decreases [OF assms(1) t(2)] pstep_pinv [OF assms(1) t(2)] by fastforce
qed

section \<open>The parallel scan computes what the serial scan computes\<close>

text \<open>A device that answers every read in full, seen alike by \<open>pread\<close> and by the I/O channel.\<close>

definition full_device :: "env \<Rightarrow> nat \<Rightarrow> buffer \<Rightarrow> bool" where
  "full_device env bs dev \<longleftrightarrow> malloc_ok env = (\<lambda>_. True) \<and> (\<forall>off n. dev_pread env off n = take n (drop off dev)) \<and>
     (\<forall>b. lib_io_read_blk env b =
        (if (unat b + 1) * bs \<le> length dev then Some (sub_buf dev (unat b * bs) bs) else None))"

definition is_hit :: "nat \<Rightarrow> buffer \<Rightarrow> nat \<Rightarrow> bool" where
  "is_hit bs dev b \<longleftrightarrow> eh_magic (header_at (sub_buf dev (b * bs) bs)) = EXT4_EXT_MAGIC \<and>
     validate_extent_header (Some (header_at (sub_buf dev (b * bs) bs))) (int bs)"

lemma header_at_take: "12 \<le> n \<Longrightarrow> header_at (take n buf) = header_at buf"
  by (simp add: header_at_def le16_at_def sub_buf_def drop_take)

lemma scan_chunk_filter:
  assumes "malloc_ok (p_env p) = (\<lambda>_. True)"
    and "\<forall>b \<in> set bs. header_at (drop (b * p_bs p) buf) = header_at (sub_buf dev ((st + b) * p_bs p) (p_bs p))"
  shows "fst (scan_chunk p buf st bs h) = fst h @ map of_nat (filter (is_hit (p_bs p) dev) (map ((+) st) bs))"
  using assms(2)
proof (induction bs arbitrary: h)
  case (Cons b bs)
  have "fst (add_hit (p_env p) h x) = fst h @ [x]" for x
    using assms(1) by (cases h) (simp add: add_hit_def Let_def)
  then show ?case using Cons by (simp add: Let_def is_hit_def)
qed simp

lemma chunk_hits_filter:
  assumes "par_ok p" "12 \<le> p_bs p" "full_device (p_env p) (p_bs p) dev" "p_end p * p_bs p \<le> length dev" "k < n_chunks p"
  shows "chunk_hits p k = map of_nat (filter (is_hit (p_bs p) dev) [cstart p k..<min (cstart p (Suc k)) (p_end p)])"
proof -
  let ?n = "this_blocks p (cstart p k)" and ?bs = "p_bs p" and ?c = "cstart p k"
  have e: "?c + ?n = min (cstart p (Suc k)) (p_end p)" by (rule chunk_advance [OF assms(1,5)])
  then have "(?c + ?n) * ?bs \<le> p_end p * ?bs" by (intro mult_le_mono1) simp
  then have fit: "?c * ?bs + ?n * ?bs \<le> length dev" using assms(4) by (simp add: add_mult_distrib)
  have buf: "chunk_buf p k = take (?n * ?bs) (drop (?c * ?bs) dev)"
    using assms(3) by (simp add: chunk_buf_def full_device_def)
  then have len: "length (chunk_buf p k) div ?bs = ?n" using fit assms(2) by simp
  have "header_at (drop (b * ?bs) (chunk_buf p k)) = header_at (sub_buf dev ((?c + b) * ?bs) ?bs)" if "b < ?n" for b
  proof -
    have "b * ?bs + ?bs \<le> ?n * ?bs" using mult_le_mono1 [of "Suc b" ?n ?bs] that by simp
    then have "12 \<le> ?n * ?bs - b * ?bs" using assms(2) by simp
    then show ?thesis
      using header_at_take [of "?n * ?bs - b * ?bs" "drop ((?c + b) * ?bs) dev"] header_at_take [OF assms(2), of "drop ((?c + b) * ?bs) dev"]
      by (simp add: buf sub_buf_def drop_take add_mult_distrib add.commute)
  qed
  then have "chunk_hits p k = map of_nat (filter (is_hit ?bs dev) (map ((+) ?c) [0..<?n]))"
    using scan_chunk_filter [of p "[0..<?n]" "chunk_buf p k" dev ?c "([], 0)"] assms(3)
    by (simp add: chunk_hits_def len full_device_def)
  moreover have "map ((+) ?c) [0..<?n] = [?c..<?c + ?n]" by (rule nth_equalityI) auto
  ultimately show ?thesis using e by simp
qed

lemma chunks_concat:
  assumes "par_ok p" "m \<le> n_chunks p"
  shows "concat (map (\<lambda>k. [cstart p k..<min (cstart p (Suc k)) (p_end p)]) [0..<m]) = [p_start p..<min (cstart p m) (p_end p)]"
  using assms(2)
proof (induction m)
  case 0
  then show ?case using assms(1) by (simp add: cstart_def par_ok_def)
next
  case (Suc m)
  have lt: "cstart p m < p_end p" using chunk_before_end [OF assms(1), of m] Suc.prems by simp
  have le: "p_start p \<le> cstart p m" "cstart p m \<le> min (cstart p (Suc m)) (p_end p)"
    using lt by (simp_all add: cstart_def)
  have "concat (map (\<lambda>k. [cstart p k..<min (cstart p (Suc k)) (p_end p)]) [0..<Suc m]) =
      [p_start p..<cstart p m] @ [cstart p m..<min (cstart p (Suc m)) (p_end p)]"
    using Suc lt by simp
  also have "\<dots> = [p_start p..<min (cstart p (Suc m)) (p_end p)]"
    using le upt_add_eq_append [of "p_start p" "cstart p m"] by (metis le_add_diff_inverse)
  finally show ?case .
qed

lemma all_hits:
  assumes "par_ok p" "12 \<le> p_bs p" "full_device (p_env p) (p_bs p) dev" "p_end p * p_bs p \<le> length dev"
  shows "concat (map (chunk_hits p) [0..<n_chunks p]) = map of_nat (filter (is_hit (p_bs p) dev) [p_start p..<p_end p])"
proof -
  let ?N = "n_chunks p"
  have "map (chunk_hits p) [0..<?N] =
      map (\<lambda>k. map of_nat (filter (is_hit (p_bs p) dev) [cstart p k..<min (cstart p (Suc k)) (p_end p)])) [0..<?N]"
    using chunk_hits_filter [OF assms] by simp
  then have "concat (map (chunk_hits p) [0..<?N]) = map of_nat (filter (is_hit (p_bs p) dev)
      (concat (map (\<lambda>k. [cstart p k..<min (cstart p (Suc k)) (p_end p)]) [0..<?N])))"
    by (simp only: map_concat filter_concat map_map comp_def)
  moreover have "min (cstart p ?N) (p_end p) = p_end p" using chunk_before_end [OF assms(1), of ?N] by simp
  ultimately show ?thesis using chunks_concat [OF assms(1) order_refl] by simp
qed

lemma full_device_io: "full_device env bs dev \<Longrightarrow> io_reads env bs"
  by (auto simp: full_device_def io_reads_def split: if_splits)

lemma scan_block_hit:
  assumes fd: "full_device env (blocksize (fst s)) dev" and b: "(b + 1) * blocksize (fst s) \<le> length dev" "b < 2 ^ 64"
    and rb: "rb_good (fst s)"
  shows "scan_block env (of_nat b) s =
     (if is_hit (blocksize (fst s)) dev b then dump_hit env (blocksize (fst s)) (of_nat b) s else Some s)"
proof -
  obtain c n where s: "s = (c, n)" by (cases s)
  let ?bs = "blocksize c" and ?buf = "sub_buf dev (b * blocksize c) (blocksize c)"
  have u: "unat (of_nat b :: blk64_t) = b" using b(2) by (simp add: unat_of_nat)
  have rd: "lib_io_read_blk env (of_nat b) = Some ?buf" "dev_pread env (b * ?bs) ?bs = ?buf" "malloc_ok env ?bs"
    using fd b(1) s u by (simp_all add: full_device_def sub_buf_def)
  have ln: "length ?buf = ?bs" using b(1) s by (simp add: algebra_simps)
  have ib: "is_block_recovered (rb c) (of_nat b) = Some (of_nat b \<in> rb_elems (rb c))"
    using rb s by (intro is_block_recovered_exact) (simp add: rb_good_def)
  have inv: "recover_orphaned_extent_block env c (of_nat b) ?buf = Some (0, c)"
    if "\<not> validate_extent_header (Some (header_at ?buf)) (int ?bs)"
    using that by (simp add: recover_orphaned_extent_block_def Let_def)
  show ?thesis
    using rd ln ib inv u
    by (cases "of_nat b \<in> rb_elems (rb c)") (auto simp: s scan_block_def dump_hit_def is_hit_def Let_def)
qed

lemma scan_blocks_dump:
  assumes fd: "full_device env (blocksize (fst s)) dev" and rb: "rb_good (fst s)" "12 \<le> blocksize (fst s)"
    and b: "\<forall>b \<in> set bs. (b + 1) * blocksize (fst s) \<le> length dev \<and> b < unat (total_blocks (fst s))"
  shows "scan_blocks env (map of_nat bs) s = dump_list env (blocksize (fst s)) (map of_nat (filter (is_hit (blocksize (fst s)) dev) bs)) s"
  using assms
proof (induction bs arbitrary: s)
  case (Cons b bs)
  let ?z = "blocksize (fst s)"
  have "unat (total_blocks (fst s)) < 18446744073709551616" using unsigned_less [of "total_blocks (fst s)"] by simp
  then have lt: "b < unat (total_blocks (fst s))" "b < 2 ^ 64" using Cons.prems(4) by auto
  have e: "scan_block env (of_nat b) s = (if is_hit ?z dev b then dump_hit env ?z (of_nat b) s else Some s)"
    using scan_block_hit [OF Cons.prems(1) _ lt(2) Cons.prems(2)] Cons.prems(4) by simp
  have "(of_nat b :: blk64_t) < total_blocks (fst s)" using lt by (simp add: word_less_nat_alt unat_of_nat)
  then obtain s1 where s1: "scan_block env (of_nat b) s = Some s1" "agg_step (fst s) (fst s1)"
    using scan_block_good [OF full_device_io [OF Cons.prems(1)] Cons.prems(2,3)] by blast
  then have "scan_blocks env (map of_nat bs) s1 = dump_list env ?z (map of_nat (filter (is_hit ?z dev) bs)) s1"
    using Cons.IH [of s1] Cons.prems by (simp add: agg_step_def)
  moreover have "if is_hit ?z dev b then dump_hit env ?z (of_nat b) s = Some s1 else s1 = s"
    using e s1(1) by (simp split: if_splits)
  ultimately show ?case using s1(1) by (cases "is_hit ?z dev b") simp_all
qed simp

lemma clamp_workers_pos: "0 < clamp_workers n"
  by (simp add: clamp_workers_def MAX_WORKERS_def Let_def)

lemma scan_args_ok:
  assumes "io_reads env (blocksize ctx)" "12 \<le> blocksize ctx" "blocksize ctx \<le> CHUNK_BYTES" "start \<le> end" "end \<le> total_blocks ctx"
    and "rb_inv (rb ctx)" "rb_elems (rb ctx) \<subseteq> {b. b < total_blocks ctx}" "total_blocks ctx \<le> 2 ^ 30"
    and "\<And>off n. length (dev_pread env off n) \<le> n"
  shows "scan_ok (scan_args env ctx start end nw) ctx"
proof -
  have "unat (total_blocks ctx) \<le> unat (2 ^ 30 :: u64)" using assms(8) by (simp add: word_le_nat_alt)
  then have "rb_good ctx" using assms(6,7) by (simp add: rb_good_def)
  moreover have "0 < CHUNK_BYTES div blocksize ctx" using assms(2,3) by (simp add: div_greater_zero_iff)
  ultimately show ?thesis
    using assms clamp_workers_pos [of nw]
    by (simp add: scan_ok_def par_ok_def scan_args_def blocks_per_chunk_def word_le_nat_alt)
qed

section \<open>Properties\<close>

lemma complete_run:
  assumes "scan_ok p ctx" "pinv p ctx s"
  shows "\<exists>s' n. (pstep p ^^ n) s s' \<and> all_exited p s'"
  using assms(2)
proof (induction "pmeasure p s" arbitrary: s rule: less_induct)
  case less
  have pk: "par_ok p" using assms(1) by (simp add: scan_ok_def)
  show ?case
  proof (cases "all_exited p s")
    case True
    then show ?thesis by (intro exI [of _ s] exI [of _ 0]) simp
  next
    case False
    then obtain t where t: "pstep p s t" using pstep_progress [OF assms(1) less.prems] by blast
    obtain s' n where "(pstep p ^^ n) t s'" "all_exited p s'"
      using less.hyps [OF pstep_decreases [OF pk t less.prems] pstep_pinv [OF pk t less.prems]] by blast
    then show ?thesis using t relpowp_Suc_I2 by metis
  qed
qed

text \<open>The example device, three blocks of 24 bytes.\<close>

definition scan_env :: env where
  "scan_env = tree_env\<lparr>lib_io_read_blk :=
     (\<lambda>b. if (unat b + 1) * 24 \<le> length tree_dev then Some (sub_buf tree_dev (unat b * 24) 24) else None)\<rparr>"

lemma scan_env_full: "full_device scan_env (blocksize (base_ctx 24 3)) tree_dev"
  by (simp add: full_device_def scan_env_def tree_env_def ideal_env_def base_ctx_def)

lemma base_ctx_rb: "rb_inv (rb (base_ctx bs t))" "rb_elems (rb (base_ctx bs t)) = {}"
  by (simp_all add: base_ctx_def rb_inv_def rb_elems_def)

lemma scan_env_reads: "io_reads scan_env (blocksize (base_ctx 24 3))" "length (dev_pread scan_env off n) \<le> n"
  using full_device_io [OF scan_env_full] scan_env_full by (simp_all add: full_device_def)

lemma scan_env_ok: "scan_ok (scan_args scan_env (base_ctx 24 3) 0 3 nw) (base_ctx 24 3)"
  by (rule scan_args_ok [OF scan_env_reads(1)])
     (use base_ctx_rb scan_env_reads(2) in \<open>simp_all add: base_ctx_def CHUNK_BYTES_def\<close>)

text \<open>Property C6: the parallel scan is the serial scan.  On a device that answers every read in full, any
  interleaving of the reader, the workers and the writer that runs to completion returns the same
  count and leaves the same context as the single-threaded scan: the same files, the
  same recorded extents, the same set of handled blocks, whatever the number of workers.\<close>

theorem parallel_equals_serial:
  assumes dev: "full_device env (blocksize ctx) dev" "unat end * blocksize ctx \<le> length dev"
    and bs: "12 \<le> blocksize ctx" "blocksize ctx \<le> CHUNK_BYTES" and rng: "start \<le> end" "end \<le> total_blocks ctx"
    and rb: "rb_inv (rb ctx)" "rb_elems (rb ctx) \<subseteq> {b. b < total_blocks ctx}" "total_blocks ctx \<le> 2 ^ 30"
    and run: "parallel_scan_for_extent_headers env ctx start end n_workers r ctx'"
  shows "scan_for_extent_headers env ctx start end = Some (r, ctx')"
proof -
  let ?p = "scan_args env ctx start end n_workers"
  have m: "malloc_ok env = (\<lambda>_. True)" using dev(1) by (simp add: full_device_def)
  have rd: "length (dev_pread env off n) \<le> n" for off n using dev(1) by (simp add: full_device_def)
  have ok: "scan_ok ?p ctx" by (rule scan_args_ok [OF full_device_io [OF dev(1)] bs rng rb rd])
  then have pk: "par_ok ?p" and g: "rb_good ctx" by (simp_all add: scan_ok_def)
  obtain s where s: "psteps ?p (init_scan ?p ctx) s" "all_exited ?p s" "r = int (found s)" "ctx' = rctx s"
    using run m by (auto simp: parallel_scan_for_extent_headers_def Let_def)
  have inv: "pinv ?p ctx s" using psteps_pinv [OF pk s(1) init_pinv [OF pk]] .
  have w: "dumped ?p ctx (concat (map (chunk_hits ?p) [0..<next_chunk_to_write s])) s" "n_chunks ?p \<le> next_chunk_to_write s"
    using inv s(2) by (auto simp: pinv_def writer_ok_def all_exited_def Let_def)
  have "next_chunk_to_write s = n_chunks ?p"
    using w(2) ring_bounds(1,3) [of ?p s] inv by (auto simp: pinv_def)
  moreover have pf: "p_bs ?p = blocksize ctx" "p_env ?p = env" "p_start ?p = unat start" "p_end ?p = unat end"
    by (simp_all add: scan_args_def)
  ultimately have "dump_list env (blocksize ctx) (map of_nat (filter (is_hit (blocksize ctx) dev) [unat start..<unat end])) (ctx, 0) = Some (ctx', found s)"
    using w(1) all_hits [OF pk, of dev] bs(1) dev s(4) by (simp add: dumped_def)
  moreover have "(b + 1) * blocksize ctx \<le> length dev \<and> b < unat (total_blocks ctx)" if "b \<in> set [unat start..<unat end]" for b
  proof -
    have "(b + 1) * blocksize ctx \<le> unat end * blocksize ctx" using that by (intro mult_le_mono1) simp
    moreover have "b < unat end" "unat end \<le> unat (total_blocks ctx)" using that rng(2) by (simp_all add: word_le_nat_alt)
    ultimately show ?thesis using dev(2) by simp
  qed
  ultimately have "scan_blocks env (map of_nat [unat start..<unat end]) (ctx, 0) = Some (ctx', found s)"
    using scan_blocks_dump [of env "(ctx, 0)" dev "[unat start..<unat end]"] dev(1) g bs(1) by simp
  then show ?thesis using m s(3) by (simp add: scan_for_extent_headers_def block_range_def)
qed

theorem parallel_equals_serial_witness:
  "\<exists>r ctx'. parallel_scan_for_extent_headers scan_env (base_ctx 24 3) 0 3 4 r ctx' \<and>
     scan_for_extent_headers scan_env (base_ctx 24 3) 0 3 = Some (r, ctx')"
proof -
  let ?p = "scan_args scan_env (base_ctx 24 3) 0 3 4"
  have pk: "par_ok ?p" using scan_env_ok by (simp add: scan_ok_def)
  obtain s n where s: "(pstep ?p ^^ n) (init_scan ?p (base_ctx 24 3)) s" "all_exited ?p s"
    using complete_run [OF scan_env_ok init_pinv [OF pk]] by blast
  have "malloc_ok scan_env CHUNK_BYTES" using scan_env_full by (simp add: full_device_def)
  then have r: "parallel_scan_for_extent_headers scan_env (base_ctx 24 3) 0 3 4 (int (found s)) (rctx s)"
    using s relpowp_imp_rtranclp [OF s(1)] by (auto simp: parallel_scan_for_extent_headers_def Let_def)
  have "scan_for_extent_headers scan_env (base_ctx 24 3) 0 3 = Some (int (found s), rctx s)"
    by (rule parallel_equals_serial [OF scan_env_full _ _ _ _ _ base_ctx_rb(1) _ _ r])
       (use tree_example(5) base_ctx_rb in \<open>simp_all add: base_ctx_def CHUNK_BYTES_def\<close>)
  then show ?thesis using r by blast
qed

text \<open>Property C26: slots are never shared.  In every reachable state a slot that a worker scans is in state
  \<open>SLOT_PROCESSING\<close> and holds that worker's chunk, so neither the reader nor the writer may touch
  it; two scanning workers use different slots; and the writer drains chunks the reader has produced.\<close>

theorem parallel_scan_exclusive:
  assumes "par_ok p" and "psteps p (init_scan p ctx) s" and "i < p_workers p" and "wpc s i = W_scan k"
  shows "sl_state (slot_of s k) = SLOT_PROCESSING \<and> sl_index (slot_of s k) = k \<and> \<not> dumping s k \<and>
     next_chunk_to_write s \<le> r_chunk s \<and> r_chunk s \<le> next_chunk_to_write s + RING_SLOTS \<and>
     (\<forall>j < p_workers p. j \<noteq> i \<longrightarrow> (\<forall>k'. wpc s j = W_scan k' \<longrightarrow> slot_for_chunk k' \<noteq> slot_for_chunk k))"
proof -
  have inv: "pinv p ctx s" using psteps_pinv [OF assms(1,2) init_pinv [OF assms(1)]] .
  then have ri: "ring_ok p s" and wo: "workers_ok p s" by (simp_all add: pinv_def)
  note rb = ring_bounds [OF ri]
  have wk: "next_chunk_to_write s \<le> k \<and> k < r_chunk s \<and> sl_state (slot_of s k) = SLOT_PROCESSING"
    if "j < p_workers p" "wpc s j = W_scan k" for j k
  proof -
    have "worker_ok p s (wpc s j)" using wo that(1) by (simp add: workers_ok_def)
    then show ?thesis using that(2) by (simp add: worker_ok_def)
  qed
  note k = wk [OF assms(3,4)]
  have "slot_for_chunk k' \<noteq> slot_for_chunk k" if "j < p_workers p" "j \<noteq> i" "wpc s j = W_scan k'" for j k'
  proof
    assume "slot_for_chunk k' = slot_for_chunk k"
    then have "k' = k" using ring_inj [of "next_chunk_to_write s" k' k] wk [OF that(1,3)] k rb(2) by simp
    then show False using wo that assms(3,4) unfolding workers_ok_def by blast
  qed
  moreover have "\<not> dumping s k" using inv k by (auto simp: pinv_def writer_ok_def dumping_def Let_def)
  ultimately show ?thesis using k rb(1,2) busy_index [OF rb(5), of k] by blast
qed

theorem parallel_scan_exclusive_witness:
  "let p = scan_args scan_env (base_ctx 24 3) 0 3 2 in
   \<exists>s. psteps p (init_scan p (base_ctx 24 3)) s \<and> wpc s 0 = W_scan 0 \<and> sl_state (slot_of s 0) = SLOT_PROCESSING"
proof -
  let ?p = "scan_args scan_env (base_ctx 24 3) 0 3 2" and ?i = "init_scan (scan_args scan_env (base_ctx 24 3) 0 3 2) (base_ctx 24 3)"
  have pk: "par_ok ?p" using scan_env_ok by (simp add: scan_ok_def)
  have n: "0 < p_workers ?p" using pk by (simp add: par_ok_def)
  define a where "a = reader_fill ?p ?i"
  define b where "b = set_wpc (a\<lparr>next_chunk_to_read := next_chunk_to_read a + 1\<rparr>) 0 (W_wait (next_chunk_to_read a))"
  define c where "c = set_wpc (set_slot b 0 ((slot_of b 0)\<lparr>sl_state := SLOT_PROCESSING\<rparr>)) 0 (W_scan 0)"
  have "pstep ?p ?i a" unfolding a_def by (rule pstep.Reader_fill) (simp_all add: init_scan_def scan_args_def init_slot_def)
  moreover have "pstep ?p a b" unfolding b_def
    by (rule pstep.Worker_claim [OF n]) (simp_all add: a_def init_scan_def reader_fill_def past_end_def Let_def)
  moreover have "pstep ?p b c" unfolding c_def
    by (rule pstep.Worker_take [OF n]) (simp_all add: a_def b_def init_scan_def reader_fill_def filled_with_def Let_def)
  ultimately have st: "psteps ?p ?i c" by (meson converse_rtranclp_into_rtranclp rtranclp.rtrancl_refl)
  have w: "wpc c 0 = W_scan 0" by (simp add: c_def)
  from parallel_scan_exclusive [OF pk st n w] show ?thesis using st w by (auto simp: Let_def)
qed

end
