(* ===== verification/Orphans.thy ===== *)
theory Orphans
  imports Extent_Tree
begin

text \<open>
  The two sources of orphan inodes: the chain that starts in the superblock
  (\<^verbatim>\<open>orphan_recovery_v5.c\<close>) and the orphan file of newer file systems (\<^verbatim>\<open>orphan_file.c\<close>).
\<close>

section \<open>The orphan chain\<close>

definition next_orphan :: "recover_context \<Rightarrow> ext2_inode \<Rightarrow> u32" where
  "next_orphan ctx inode = (if i_dtime inode > s_inodes_count (super ctx) then 0 else i_dtime inode)"

text \<open>The counters after an attempt.\<close>

definition count_orphan :: "int \<Rightarrow> recover_context \<Rightarrow> recover_context" where
  "count_orphan r ctx =
     (if r = 0 then ctx\<lparr>orphan_recovered := orphan_recovered ctx + 1, files_recovered := files_recovered ctx + 1\<rparr>
      else ctx\<lparr>files_failed := files_failed ctx + 1\<rparr>)"

definition visit_orphan :: "env \<Rightarrow> u32 \<Rightarrow> ext2_inode \<Rightarrow> recover_context \<Rightarrow> recover_context ub" where
  "visit_orphan env ino inode ctx =
     (if \<not> LINUX_S_ISREG (i_mode inode) \<or> i_links_count inode \<noteq> 0 then Some ctx
      else if i_flags inode AND EXT4_EXTENTS_FL = 0 then Some ctx
      else case recover_from_extent_tree env ctx ino of None \<Rightarrow> None
           | Some (r, ctx') \<Rightarrow> Some (count_orphan r ctx'))"

function orphan_loop :: "env \<Rightarrow> u32 \<Rightarrow> nat \<Rightarrow> recover_context \<Rightarrow> recover_context ub" where
  "orphan_loop env current_ino n ctx =
     (if current_ino = 0 then Some ctx
      else if n > 10000 then Some ctx
      else case lib_read_inode env current_ino of None \<Rightarrow> Some ctx
           | Some inode \<Rightarrow>
               (case visit_orphan env current_ino inode ctx of None \<Rightarrow> None
                | Some ctx' \<Rightarrow> orphan_loop env (next_orphan ctx inode) (n + 1) ctx'))"
  by pat_completeness auto
termination
  by (relation "measure (\<lambda>(env, current_ino, n, ctx). 10001 - n)") auto

declare orphan_loop.simps [simp del]

definition scan_orphan_chain :: "env \<Rightarrow> recover_context \<Rightarrow> u32 \<Rightarrow> (int \<times> recover_context) ub" where
  "scan_orphan_chain env ctx start_ino = map_option (Pair 0) (orphan_loop env start_ino 0 ctx)"

definition recover_orphan_list :: "env \<Rightarrow> recover_context \<Rightarrow> (int \<times> recover_context) ub" where
  "recover_orphan_list env ctx =
     (let orphan_head = s_last_orphan (super ctx) in
      if orphan_head = 0 then Some (0, ctx) else scan_orphan_chain env ctx orphan_head)"

definition is_orphan_inode :: "ext2_inode \<Rightarrow> bool" where
  "is_orphan_inode inode =
     (if \<not> LINUX_S_ISREG (i_mode inode) then False
      else if i_links_count inode \<noteq> 0 then False
      else if i_blocks inode = 0 then False
      else True)"

section \<open>The orphan file\<close>

definition C4_ORPHAN_BLOCK_MAGIC :: u32 where
  "C4_ORPHAN_BLOCK_MAGIC = 0x0b10ca04"

definition inodes_per_orphan_block :: "recover_context \<Rightarrow> nat" where
  "inodes_per_orphan_block ctx = (blocksize ctx - 8) div 4"

definition visit_slot :: "env \<Rightarrow> u32 \<Rightarrow> recover_context \<times> nat \<Rightarrow> (recover_context \<times> nat) ub" where
  "visit_slot env ino s =
     (case s of (ctx, found) \<Rightarrow>
       if ino = 0 \<or> ino > s_inodes_count (super ctx) then Some s
       else case lib_read_inode env ino of None \<Rightarrow> Some s
       | Some inode \<Rightarrow>
           if \<not> LINUX_S_ISREG (i_mode inode) then Some s
           else if i_flags inode AND EXT4_EXTENTS_FL = 0 then Some s
           else case recover_from_extent_tree env ctx ino of None \<Rightarrow> None
                | Some (r, ctx') \<Rightarrow> Some (count_orphan r ctx', if r = 0 then found + 1 else found))"

primrec slot_loop :: "env \<Rightarrow> u32 list \<Rightarrow> recover_context \<times> nat \<Rightarrow> (recover_context \<times> nat) ub" where
  "slot_loop env [] s = Some s"
| "slot_loop env (ino # inos) s = (case visit_slot env ino s of None \<Rightarrow> None | Some s' \<Rightarrow> slot_loop env inos s')"

primrec orphan_block_loop :: "env \<Rightarrow> u32 \<Rightarrow> nat list \<Rightarrow> recover_context \<times> nat \<Rightarrow> (recover_context \<times> nat) ub" where
  "orphan_block_loop env of_inum [] s = Some s"
| "orphan_block_loop env of_inum (b # bs) s =
     (let bsz = blocksize (fst s) in
      case lib_file_read env of_inum (b * bsz) bsz of None \<Rightarrow> orphan_block_loop env of_inum bs s
      | Some buf \<Rightarrow>
          if length buf \<noteq> bsz then orphan_block_loop env of_inum bs s
          else if le32_at buf (bsz - 8) \<noteq> C4_ORPHAN_BLOCK_MAGIC then orphan_block_loop env of_inum bs s
          else case slot_loop env (map (\<lambda>i. le32_at buf (4 * i)) [0..<inodes_per_orphan_block (fst s)]) s of
                 None \<Rightarrow> None
               | Some s' \<Rightarrow> orphan_block_loop env of_inum bs s')"

definition recover_orphan_file :: "env \<Rightarrow> recover_context \<Rightarrow> (int \<times> recover_context) ub" where
  "recover_orphan_file env ctx =
     (let of_inum = s_orphan_file_inum (super ctx) in
      if \<not> has_orphan_file (caps ctx) then Some (0, ctx)
      else if of_inum = 0 then Some (0, ctx)
      else case lib_read_inode env of_inum of None \<Rightarrow> Some (-1, ctx)
      | Some of_inode \<Rightarrow>
          let nblocks = sint (word_of_nat (unat (inode_size64 of_inode) div blocksize ctx) :: 32 word) in
          if nblocks = 0 then Some (0, ctx)
          else if \<not> malloc_ok env (blocksize ctx) then Some (-1, ctx)
          else if \<not> lib_file_open env of_inum then Some (-1, ctx)
          else map_option (\<lambda>(ctx', found). (int found, ctx')) (orphan_block_loop env of_inum [0..<nat nblocks] (ctx, 0)))"

section \<open>The inodes a chain names\<close>

text \<open>The first \<open>n\<close> inodes of the chain from \<open>ino\<close>, as the disk links them.\<close>

primrec chain_inos :: "env \<Rightarrow> recover_context \<Rightarrow> nat \<Rightarrow> u32 \<Rightarrow> (u32 \<times> ext2_inode) list" where
  "chain_inos env ctx 0 ino = []"
| "chain_inos env ctx (Suc n) ino =
     (if ino = 0 then []
      else case lib_read_inode env ino of None \<Rightarrow> []
           | Some inode \<Rightarrow> (ino, inode) # chain_inos env ctx n (next_orphan ctx inode))"

primrec visit_all :: "env \<Rightarrow> (u32 \<times> ext2_inode) list \<Rightarrow> recover_context \<Rightarrow> recover_context ub" where
  "visit_all env [] ctx = Some ctx"
| "visit_all env (x # xs) ctx =
     (case visit_orphan env (fst x) (snd x) ctx of None \<Rightarrow> None | Some ctx' \<Rightarrow> visit_all env xs ctx')"

section \<open>Frames\<close>

lemma create_super: "create_recovery_file env c ino = Some (rc, fd, c') \<Longrightarrow> super c' = super c"
  by (auto simp: create_recovery_file_def resolve_name_def open_trunc_def Let_def split: option.splits if_splits)

lemma recover_tree_super:
  assumes "recover_tree_into env c ino buf depth = Some (r, c')"
  shows "super c' = super c"
proof -
  obtain rc fd c1 where c1: "create_recovery_file env c ino = Some (rc, fd, c1)"
    using assms by (auto simp: recover_tree_into_def bind_eq_Some_conv)
  note s1 = create_super [OF c1]
  show ?thesis
  proof (cases "rc < 0")
    case True
    then show ?thesis using assms c1 s1 by (auto simp: recover_tree_into_def split: if_splits)
  next
    case False
    then obtain ret c2 where c2: "extent_tree_travel env fd depth buf c1 = Some (ret, c2)"
      using assms c1 by (auto simp: recover_tree_into_def bind_eq_Some_conv split: if_splits)
    have s2: "super c2 = super c1" using touches_frame(8) [OF extent_tree_travel_touches [OF c2]] .
    have rs: "resolve_name env c2 ino = Some (b, c3) \<Longrightarrow> super c3 = super c2" for b c3 by (auto simp: resolve_name_def Let_def)
    have "c' = c2 \<or> (\<exists>b. resolve_name env c2 ino = Some (b, c'))"
      using assms c1 c2 False by (auto simp: recover_tree_into_def bind_eq_Some_conv split: if_splits)
    then show ?thesis using s1 s2 rs by metis
  qed
qed

lemma recover_from_extent_tree_super:
  "recover_from_extent_tree env c ino = Some (r, c') \<Longrightarrow> super c' = super c"
  using recover_tree_super
  by (auto simp: recover_from_extent_tree_def Let_def bind_eq_Some_conv split: if_splits option.splits)

lemma visit_orphan_frame: "visit_orphan env ino inode c = Some c' \<Longrightarrow> super c' = super c \<and> keeps_outputs c c'"
  using recover_from_extent_tree_super recover_from_extent_tree_keeps
  by (fastforce simp: visit_orphan_def count_orphan_def keeps_outputs_def split: if_splits option.splits)

lemma orphan_loop_keeps: "orphan_loop env ino n c = Some c' \<Longrightarrow> keeps_outputs c c'"
proof (induction env ino n c rule: orphan_loop.induct)
  case (1 env ino n c)
  show ?case
  proof (cases "ino = 0 \<or> n > 10000 \<or> lib_read_inode env ino = None")
    case True
    then show ?thesis using 1(2) by (auto simp: orphan_loop.simps [of env ino n c] split: if_splits)
  next
    case False
    then obtain inode c1 where i: "lib_read_inode env ino = Some inode" "visit_orphan env ino inode c = Some c1"
      "orphan_loop env (next_orphan c inode) (n + 1) c1 = Some c'"
      using 1(2) by (auto simp: orphan_loop.simps [of env ino n c] split: option.splits)
    have "keeps_outputs c1 c'" using 1(1) [OF _ _ i(1,2,3)] False by simp
    then show ?thesis using visit_orphan_frame [OF i(2)] keeps_trans by blast
  qed
qed

lemma visit_slot_frame: "visit_slot env ino s = Some s' \<Longrightarrow> keeps_outputs (fst s) (fst s')"
  using recover_from_extent_tree_keeps
  by (cases s) (fastforce simp: visit_slot_def count_orphan_def keeps_outputs_def split: if_splits option.splits)

lemma slot_loop_keeps: "slot_loop env inos s = Some s' \<Longrightarrow> keeps_outputs (fst s) (fst s')"
proof (induction inos arbitrary: s)
  case (Cons ino inos)
  then obtain s1 where "visit_slot env ino s = Some s1" "slot_loop env inos s1 = Some s'" by (auto split: option.splits)
  then show ?case using Cons.IH visit_slot_frame keeps_trans by blast
qed simp

lemma orphan_block_keeps: "orphan_block_loop env ofi bs s = Some s' \<Longrightarrow> keeps_outputs (fst s) (fst s')"
proof (induction bs arbitrary: s)
  case (Cons b bs)
  then show ?case using slot_loop_keeps keeps_trans
    by (simp add: Let_def split: option.splits if_splits) blast+
qed simp

lemma recover_orphan_list_keeps: "recover_orphan_list env c = Some (r, c') \<Longrightarrow> keeps_outputs c c'"
  using orphan_loop_keeps by (auto simp: recover_orphan_list_def scan_orphan_chain_def Let_def split: if_splits)

lemma recover_orphan_file_keeps: "recover_orphan_file env c = Some (r, c') \<Longrightarrow> keeps_outputs c c'"
  using orphan_block_keeps
  by (fastforce simp: recover_orphan_file_def Let_def split: if_splits option.splits)

lemma orphan_loop_visits:
  assumes "super c = super ctx" "n \<le> 10001"
  shows "orphan_loop env ino n c = visit_all env (chain_inos env ctx (10001 - n) ino) c"
  using assms
proof (induction env ino n c rule: orphan_loop.induct)
  case (1 env ino n c)
  note step = orphan_loop.simps [of env ino n c]
  show ?case
  proof (cases "n = 10001")
    case True
    then show ?thesis by (simp add: orphan_loop.simps [of env ino 10001 c])
  next
    case False
    then have n: "10001 - n = Suc (10001 - (n + 1))" "\<not> n > 10000" using 1(3) by simp_all
    show ?thesis
    proof (cases "ino = 0 \<or> lib_read_inode env ino = None")
      case True
      then show ?thesis using n by (auto simp: step)
    next
      case False
      then obtain inode where i: "lib_read_inode env ino = Some inode" "ino \<noteq> 0" by auto
      have nx: "next_orphan c inode = next_orphan ctx inode" using 1(2) by (simp add: next_orphan_def)
      show ?thesis
      proof (cases "visit_orphan env ino inode c")
        case None
        then show ?thesis using i n by (simp add: step)
      next
        case (Some c1)
        have "orphan_loop env (next_orphan c inode) (n + 1) c1 = visit_all env (chain_inos env ctx (10001 - (n + 1)) (next_orphan c inode)) c1"
          using 1(1) [OF i(2) n(2) i(1) Some] visit_orphan_frame [OF Some] 1(2) n(2) by simp
        then show ?thesis using i n Some nx by (simp add: step)
      qed
    qed
  qed
qed

section \<open>Properties\<close>

text \<open>Property C28: the walk of the orphan chain ends on every disk, and visits exactly the chain.  It
  handles, in order, the first 10001 inodes that the links name, stopping at a zero or
  implausible link or an unreadable inode; a cyclic chain is cut after 10001 visits; and no output that
  already holds data is altered.\<close>

theorem scan_orphan_chain_visits:
  "scan_orphan_chain env ctx start_ino = map_option (Pair 0) (visit_all env (chain_inos env ctx 10001 start_ino) ctx) \<and>
   length (chain_inos env ctx 10001 start_ino) \<le> 10001 \<and>
   (\<forall>r ctx' n f. scan_orphan_chain env ctx start_ino = Some (r, ctx') \<longrightarrow> files ctx n = Some f \<longrightarrow> f \<noteq> [] \<longrightarrow>
      files ctx' n = Some f)"
proof -
  have "length (chain_inos env ctx n ino) \<le> n" for n ino
    by (induction n arbitrary: ino) (auto split: option.split)
  moreover have "files ctx' n = Some f"
    if "scan_orphan_chain env ctx start_ino = Some (r, ctx')" "files ctx n = Some f" "f \<noteq> []" for r ctx' n f
    using that orphan_loop_keeps [of env start_ino 0 ctx ctx'] by (auto simp: scan_orphan_chain_def keeps_outputs_def)
  ultimately show ?thesis
    using orphan_loop_visits [of ctx ctx 0 env start_ino] by (simp add: scan_orphan_chain_def)
qed

text \<open>A chain of two orphans whose second link points back to the first.\<close>

definition cycle_env :: env where
  "cycle_env = (ideal_env [])\<lparr>lib_read_inode := (\<lambda>ino. Some (tree_inode\<lparr>i_mode := 0, i_dtime := (if ino = 12 then 13 else 12)\<rparr>))\<rparr>"

theorem scan_orphan_chain_visits_witness:
  "\<exists>ctx'. scan_orphan_chain cycle_env ((base_ctx 24 3)\<lparr>super := no_super\<lparr>s_inodes_count := 64\<rparr>, files := [''a'' \<mapsto> [1]]\<rparr>) 12 = Some (0, ctx') \<and>
     files ctx' ''a'' = Some [1]"
proof -
  let ?c = "(base_ctx 24 3)\<lparr>super := no_super\<lparr>s_inodes_count := 64\<rparr>, files := [''a'' \<mapsto> [1]]\<rparr>"
  have reg: "\<not> LINUX_S_ISREG (i_mode (snd x))" if "x \<in> set (chain_inos cycle_env ?c n ino)" for x n ino
    using that by (induction n arbitrary: ino) (auto simp: cycle_env_def LINUX_S_ISREG_def split: if_splits)
  have "visit_all cycle_env xs c = Some c" if "\<forall>x \<in> set xs. \<not> LINUX_S_ISREG (i_mode (snd x))" for xs c
    using that by (induction xs) (auto simp: visit_orphan_def)
  then have "visit_all cycle_env (chain_inos cycle_env ?c 10001 12) ?c = Some ?c" using reg by blast
  then show ?thesis using scan_orphan_chain_visits [of cycle_env ?c 12] by auto
qed

end
