(* ===== verification/Revoke_Scan.thy ===== *)
theory Revoke_Scan
  imports Aggressive_Scan Journal_Inode
begin

text \<open>
  The targeted scan (\<^verbatim>\<open>revoke_scan.c\<close>): the revoke records of the journal name the metadata
  blocks that were freed, and each of them that holds an extent header is recovered into
  \<open>targeted_<block>\<close> (leaf) or through the tree walker (index).
\<close>

section \<open>One revoked block\<close>

definition JBD2_REVOKE_BLOCK_TYPE :: u32 where "JBD2_REVOKE_BLOCK_TYPE = 5"

definition revoke_entries_per_block :: "recover_context \<Rightarrow> bool \<Rightarrow> nat" where
  "revoke_entries_per_block ctx use64 = (blocksize ctx - 16) div (if use64 then 8 else 4)"

definition revoked_version :: "env \<Rightarrow> recover_context \<Rightarrow> blk64_t \<Rightarrow> buffer option" where
  "revoked_version env ctx rblk =
     (let from_disk = (case pread_block env ctx rblk of
                         None \<Rightarrow> None
                       | Some b \<Rightarrow> if eh_magic (header_at b) = EXT4_EXT_MAGIC then Some b else None)
      in case index_read env ctx rblk 0 of
           None \<Rightarrow> from_disk
         | Some (_, b) \<Rightarrow> if eh_magic (header_at b) = EXT4_EXT_MAGIC then Some b else from_disk)"

definition targeted_name :: "blk64_t \<Rightarrow> string" where
  "targeted_name blk = ''targeted_'' @ udec (unat blk)"

definition targeted_leaf :: "env \<Rightarrow> blk64_t \<Rightarrow> buffer \<Rightarrow> recover_context \<times> nat \<Rightarrow> (recover_context \<times> nat) ub" where
  "targeted_leaf env rblk blkbuf s =
     (case leaf_copy_loop env (targeted_name rblk) blkbuf [0..<unat (eh_entries (header_at blkbuf))] (fst s) [] of
        None \<Rightarrow> None
      | Some (ctx', oks) \<Rightarrow>
          if length oks > 0 then Some (ctx'\<lparr>aggressive_recovered := aggressive_recovered ctx' + 1\<rparr>, snd s + 1)
          else Some (unlink ctx' (targeted_name rblk), snd s))"

definition targeted_index :: "env \<Rightarrow> blk64_t \<Rightarrow> buffer \<Rightarrow> recover_context \<times> nat \<Rightarrow> (recover_context \<times> nat) ub" where
  "targeted_index env rblk blkbuf s =
     (case recover_orphaned_extent_block env (fst s) rblk blkbuf of
        None \<Rightarrow> None
      | Some (r, ctx') \<Rightarrow>
          if r > 0 then Some (ctx'\<lparr>aggressive_recovered := aggressive_recovered ctx' + 1\<rparr>, snd s + 1)
          else Some (ctx', snd s))"

definition revoke_visit :: "env \<Rightarrow> blk64_t \<Rightarrow> recover_context \<times> nat \<Rightarrow> (recover_context \<times> nat) ub" where
  "revoke_visit env rblk s =
     (case s of (ctx, found) \<Rightarrow>
       if rblk < 2 \<or> rblk \<ge> total_blocks ctx then Some s
       else case revoked_version env ctx rblk of None \<Rightarrow> Some s
       | Some blkbuf \<Rightarrow>
           case is_block_recovered (rb ctx) rblk of None \<Rightarrow> None
           | Some True \<Rightarrow> Some s
           | Some False \<Rightarrow>
               if stat_size ctx (targeted_name rblk) > 0 then Some s
               else case open_trunc env ctx (targeted_name rblk) of None \<Rightarrow> Some s
               | Some ctx1 \<Rightarrow>
                   if eh_depth (header_at blkbuf) = 0 then targeted_leaf env rblk blkbuf (ctx1, found)
                   else targeted_index env rblk blkbuf (ctx1, found))"

section \<open>The records\<close>

text \<open>\<open>while (p + width <= end)\<close>: \<open>pos\<close> is \<open>p - buf\<close>, \<open>lim\<close> is \<open>r_count\<close>.\<close>

function revoke_entries ::
  "env \<Rightarrow> bool \<Rightarrow> buffer \<Rightarrow> nat \<Rightarrow> nat \<Rightarrow> recover_context \<times> nat \<Rightarrow> (recover_context \<times> nat) ub" where
  "revoke_entries env use64 buf lim pos s =
     (let width = (if use64 then 8 else 4) in
      if pos + width \<le> lim then
        (if pos + width > length buf then None
         else
           let rblk = (if use64 then push_bit 32 (ucast (be32_at buf pos)) OR ucast (be32_at buf (pos + 4))
                       else ucast (be32_at buf pos)) in
           case revoke_visit env rblk s of None \<Rightarrow> None
           | Some s' \<Rightarrow> revoke_entries env use64 buf lim (pos + width) s')
      else Some s)"
  by pat_completeness auto
termination
  by (relation "measure (\<lambda>(env, use64, buf, lim, pos, s). lim - pos)") (auto simp: Let_def split: if_splits)

declare revoke_entries.simps [simp del]

definition revoke_block :: "env \<Rightarrow> bool \<Rightarrow> buffer \<Rightarrow> recover_context \<times> nat \<Rightarrow> (recover_context \<times> nat) ub" where
  "revoke_block env use64 buf s =
     (if be32_at buf 0 \<noteq> 0xc03b3998 then Some s
      else if be32_at buf 4 \<noteq> JBD2_REVOKE_BLOCK_TYPE then Some s
      else let r_count = sint (be32_at buf 12); body_bytes = r_count - 16 in
        if body_bytes \<le> 0 then Some s
        else revoke_entries env use64 buf (nat r_count) 16 s)"

primrec revoke_loop :: "env \<Rightarrow> bool \<Rightarrow> nat list \<Rightarrow> recover_context \<times> nat \<Rightarrow> (recover_context \<times> nat) ub" where
  "revoke_loop env use64 [] s = Some s"
| "revoke_loop env use64 (jblk # jblks) s =
     (case read_journal_block env (fst s) jblk of None \<Rightarrow> revoke_loop env use64 jblks s
      | Some buf \<Rightarrow>
          case revoke_block env use64 buf s of None \<Rightarrow> None
          | Some s' \<Rightarrow> revoke_loop env use64 jblks s')"

definition recover_from_revoke :: "env \<Rightarrow> recover_context \<Rightarrow> (int \<times> recover_context) ub" where
  "recover_from_revoke env ctx =
     (if \<not> has_journal ctx \<or> \<not> journal_file ctx then Some (0, ctx)
      else if \<not> malloc_ok env (blocksize ctx) then Some (-1, ctx)
      else let use64 = (if journal_probed (caps ctx) then jbd2_has_64bit (caps ctx) else False) in
        map_option (\<lambda>(ctx', found). (int found, ctx'))
          (revoke_loop env use64 [unat (journal_start ctx)..<unat (journal_len ctx)] (ctx, 0)))"

section \<open>Which files change\<close>

definition tgt_name :: "string \<Rightarrow> bool" where
  "tgt_name n \<longleftrightarrow> take 9 n = ''targeted_''"

text \<open>Only \<open>targeted_\<close> and \<open>aggressive_\<close> files change, and no \<open>targeted_\<close> file with data.\<close>

definition revoke_keeps :: "recover_context \<Rightarrow> recover_context \<Rightarrow> bool" where
  "revoke_keeps c c' \<longleftrightarrow>
     (\<forall>n. \<not> agg_name n \<longrightarrow> \<not> tgt_name n \<longrightarrow> files c' n = files c n) \<and>
     (\<forall>n f. tgt_name n \<longrightarrow> files c n = Some f \<longrightarrow> f \<noteq> [] \<longrightarrow> files c' n = Some f)"

lemma revoke_keeps_refl [simp, intro]: "revoke_keeps c c"
  by (simp add: revoke_keeps_def)

lemma revoke_keeps_trans [trans]: "revoke_keeps a b \<Longrightarrow> revoke_keeps b c \<Longrightarrow> revoke_keeps a c"
  by (simp add: revoke_keeps_def)

lemma tgt_not_agg [simp]: "tgt_name n \<Longrightarrow> \<not> agg_name n"
  by (cases n) (auto simp: tgt_name_def agg_name_def)

lemma targeted_is_tgt [simp]: "tgt_name (targeted_name b)"
  by (simp add: tgt_name_def targeted_name_def)

lemma mark_block_files: "mark_block env c b = Some c' \<Longrightarrow> files c' = files c \<and> total_blocks c' = total_blocks c"
  by (auto simp: mark_block_def)

lemma walk_index_loop_files:
  assumes "\<And>cb c out r c' o'. child cb c out = Some (r, c', o') \<Longrightarrow> files c' = files c"
  shows "walk_index_loop env child buf is c out = Some (c', out') \<Longrightarrow> files c' = files c"
proof (induction "is" arbitrary: c out)
  case (Cons i "is")
  obtain ei where ei: "idx_at buf i = Some ei" using Cons.prems by (auto split: option.splits)
  consider "walk_index_loop env child buf is c out = Some (c', out')"
    | cb c1 r c2 o2 where "mark_block env c (ei_phys ei) = Some c1" "child cb c1 out = Some (r, c2, o2)"
        "walk_index_loop env child buf is c2 o2 = Some (c', out')"
    using Cons.prems ei by (auto simp: Let_def split: if_splits option.splits)
  then show ?case
  proof cases
    case 1
    then show ?thesis by (rule Cons.IH)
  next
    case 2
    then show ?thesis using Cons.IH [OF 2(3)] assms [OF 2(2)] mark_block_files [OF 2(1)] by simp
  qed
qed simp

lemma walk_files: "walk_extent_tree env cap d buf c out = Some (r, c', out') \<Longrightarrow> files c' = files c"
proof (induction d arbitrary: buf c out r c' out')
  case (Suc d)
  have "walk_index_loop env (walk_extent_tree env cap d) buf is c out = Some (c', o') \<Longrightarrow> files c' = files c" for "is" o'
    by (rule walk_index_loop_files [OF Suc.IH])
  then show ?case using Suc.prems by (auto simp: Let_def split: if_splits)
qed simp

definition agg_files :: "recover_context \<Rightarrow> recover_context \<Rightarrow> bool" where
  "agg_files c c' \<longleftrightarrow> (\<forall>n. \<not> agg_name n \<longrightarrow> files c' n = files c n)"

lemma close_files: "close_aggressive env c fd b k = Some (r, c') \<Longrightarrow> agg_name fd \<Longrightarrow> agg_files c c'"
  using mark_block_files by (fastforce simp: close_aggressive_def agg_files_def unlink_def split: if_splits)

lemma recover_tree_files:
  assumes "recover_orphaned_extent_tree env c b buf = Some (r, c')"
  shows "agg_files c c'"
proof -
  let ?fd = "tree_name b"
  have out: "agg_files c c'"
    if w: "walk_extent_tree env MAX_COLLECTED_EXT MAX_TREE_DEPTH buf c [] = Some (q, c1, out)" and o: "open_trunc env c1 ?fd = Some c2"
      and e: "emit_loop env ?fd ex c2 0 = (c3, k)" and cl: "close_aggressive env c3 ?fd b k = Some (r, c')" for q c1 out c2 ex c3 k
  proof -
    have "writes ?fd c2 c3" using emit_writes [of ?fd c2 env ex 0] e by simp
    then have "\<forall>n. n \<noteq> ?fd \<longrightarrow> files c3 n = files c2 n" by (auto simp: writes_def)
    moreover have "\<forall>n. n \<noteq> ?fd \<longrightarrow> files c2 n = files c1 n" using o by (auto simp: open_trunc_def split: if_splits)
    moreover have "agg_files c3 c'" using close_files [OF cl] by simp
    ultimately show ?thesis using walk_files [OF w] agg_names(2) [of b] unfolding agg_files_def by metis
  qed
  have id: "agg_files c c1" if "walk_extent_tree env MAX_COLLECTED_EXT MAX_TREE_DEPTH buf c [] = Some (q, c1, out)" for q c1 out
    using walk_files [OF that] by (simp add: agg_files_def)
  have mk: "agg_files c c2" if "walk_extent_tree env MAX_COLLECTED_EXT MAX_TREE_DEPTH buf c [] = Some (q, c1, out)"
    "mark_block env c1 b = Some c2" for q c1 out c2
    using walk_files [OF that(1)] mark_block_files [OF that(2)] by (simp add: agg_files_def)
  have rf: "agg_files c c" by (simp add: agg_files_def)
  show ?thesis
    using assms rf
    by (auto simp: recover_orphaned_extent_tree_def Let_def split: if_splits option.splits prod.splits intro: out id mk)
qed

lemma recover_block_files:
  assumes "recover_orphaned_extent_block env c b buf = Some (r, c')"
  shows "agg_files c c'"
proof -
  let ?fd = "leaf_name b"
  have out: "agg_files c c'"
    if o: "open_trunc env c ?fd = Some c2" and e: "leaf_emit_loop env ?fd buf is c2 0 = Some (c3, k)"
      and cl: "close_aggressive env c3 ?fd b k = Some (r, c')" for c2 "is" c3 k
  proof -
    have "\<forall>n. n \<noteq> ?fd \<longrightarrow> files c3 n = files c2 n" using leaf_emit_writes [OF e] by (auto simp: writes_def)
    moreover have "\<forall>n. n \<noteq> ?fd \<longrightarrow> files c2 n = files c n" using o by (auto simp: open_trunc_def split: if_splits)
    moreover have "agg_files c3 c'" using close_files [OF cl] by simp
    ultimately show ?thesis using agg_names(1) [of b] unfolding agg_files_def by metis
  qed
  have mk: "agg_files c c2" if "mark_block env c b = Some c2" for c2 using mark_block_files [OF that] by (simp add: agg_files_def)
  have rf: "agg_files c c" by (simp add: agg_files_def)
  show ?thesis
    using assms rf
    by (auto simp: recover_orphaned_extent_block_def Let_def split: if_splits option.splits prod.splits
        intro: out mk recover_tree_files)
qed

lemma revoke_visit_keeps:
  assumes "revoke_visit env b s = Some s'"
  shows "revoke_keeps (fst s) (fst s')"
proof -
  obtain c k where s: "s = (c, k)" by (cases s)
  let ?fd = "targeted_name b"
  have leaf: "revoke_keeps c (fst s')"
    if sz: "\<not> stat_size c ?fd > 0" and o: "open_trunc env c ?fd = Some c1" and l: "targeted_leaf env b buf (c1, k) = Some s'" for c1 buf
  proof -
    obtain c2 oks where c2: "leaf_copy_loop env ?fd buf [0..<unat (eh_entries (header_at buf))] c1 [] = Some (c2, oks)"
      "\<forall>n. n \<noteq> ?fd \<longrightarrow> files (fst s') n = files c2 n"
      using l by (auto simp: targeted_leaf_def unlink_def split: option.splits if_splits)
    have "\<forall>n. n \<noteq> ?fd \<longrightarrow> files (fst s') n = files c n"
      using leaf_copy_touches [OF c2(1)] c2(2) o by (auto simp: touches_def open_trunc_def split: if_splits)
    moreover have "f = []" if "files c ?fd = Some f" for f using sz that by (simp add: stat_size_def)
    ultimately show ?thesis unfolding revoke_keeps_def using targeted_is_tgt [of b] by metis
  qed
  have idx: "revoke_keeps c (fst s')"
    if sz: "\<not> stat_size c ?fd > 0" and o: "open_trunc env c ?fd = Some c1" and l: "targeted_index env b buf (c1, k) = Some s'" for c1 buf
  proof -
    obtain r c2 where c2: "recover_orphaned_extent_block env c1 b buf = Some (r, c2)" "files (fst s') = files c2"
      using l by (auto simp: targeted_index_def split: option.splits if_splits)
    have "\<forall>n. n \<noteq> ?fd \<longrightarrow> \<not> agg_name n \<longrightarrow> files (fst s') n = files c n"
      using recover_block_files [OF c2(1)] c2(2) o by (auto simp: agg_files_def open_trunc_def split: if_splits)
    moreover have "f = []" if "files c ?fd = Some f" for f using sz that by (simp add: stat_size_def)
    ultimately show ?thesis unfolding revoke_keeps_def using targeted_is_tgt [of b] tgt_not_agg by metis
  qed
  have "s' = s \<or> revoke_keeps c (fst s')"
    using assms leaf idx unfolding revoke_visit_def s by (auto split: if_splits option.splits bool.splits)
  then show ?thesis using s by auto
qed

lemma revoke_entries_keeps: "revoke_entries env u buf lim pos s = Some s' \<Longrightarrow> revoke_keeps (fst s) (fst s')"
proof (induction env u buf lim pos s rule: revoke_entries.induct)
  case (1 env u buf lim pos s)
  define w :: nat where "w = (if u then 8 else 4)"
  define b where "b = (if u then push_bit 32 (ucast (be32_at buf pos)) OR ucast (be32_at buf (pos + 4)) else ucast (be32_at buf pos) :: blk64_t)"
  note step = revoke_entries.simps [of env u buf lim pos s, folded w_def b_def, unfolded Let_def]
  show ?case
  proof (cases "pos + w \<le> lim \<and> \<not> pos + w > length buf")
    case True
    then obtain s1 where s1: "revoke_visit env b s = Some s1" "revoke_entries env u buf lim (pos + w) s1 = Some s'"
      using 1(2) by (auto simp: step split: option.splits)
    have "revoke_keeps (fst s1) (fst s')"
      using 1(1) [OF w_def _ _ b_def s1(1) s1(2)] True by blast
    then show ?thesis using revoke_visit_keeps [OF s1(1)] revoke_keeps_trans by blast
  next
    case False
    then show ?thesis using 1(2) by (auto simp: step split: if_splits)
  qed
qed

lemma revoke_entries_overrun:
  assumes "length buf < lim" "lim - length buf \<ge> 8" "pos \<le> length buf"
  shows "revoke_entries env u buf lim pos s = None"
  using assms
proof (induction env u buf lim pos s rule: revoke_entries.induct)
  case (1 env u buf lim pos s)
  define w :: nat where "w = (if u then 8 else 4)"
  define b where "b = (if u then push_bit 32 (ucast (be32_at buf pos)) OR ucast (be32_at buf (pos + 4)) else ucast (be32_at buf pos) :: blk64_t)"
  note step = revoke_entries.simps [of env u buf lim pos s, folded w_def b_def, unfolded Let_def]
  have le: "pos + w \<le> lim" using 1(2-4) by (auto simp: w_def)
  show ?case
  proof (cases "pos + w > length buf")
    case False
    then have "revoke_entries env u buf lim (pos + w) s1 = None" if "revoke_visit env b s = Some s1" for s1
      using 1(1) [OF w_def le False b_def that 1(2,3)] by simp
    then show ?thesis using le False by (auto simp: step split: option.split)
  qed (use le in \<open>simp add: step\<close>)
qed

lemma revoke_loop_keeps: "revoke_loop env u js s = Some s' \<Longrightarrow> revoke_keeps (fst s) (fst s')"
proof (induction js arbitrary: s)
  case (Cons j js)
  have blk: "revoke_block env u buf s = Some s1 \<Longrightarrow> revoke_keeps (fst s) (fst s1)" for buf s1
    using revoke_entries_keeps by (auto simp: revoke_block_def Let_def split: if_splits)
  show ?case using Cons.prems Cons.IH blk revoke_keeps_trans by (auto split: option.splits) blast
qed simp

section \<open>Properties\<close>

text \<open>Property C29: the targeted scan never damages another output.  Whatever the journal and the device
  contain, it changes no file except those named \<open>targeted_\<dots>\<close> and \<open>aggressive_\<dots>\<close>, and a
  \<open>targeted_\<dots>\<close> file that already holds data stays as it is.\<close>

theorem recover_from_revoke_confined:
  assumes "recover_from_revoke env ctx = Some (r, ctx')"
  shows "(\<forall>n. take 11 n \<noteq> ''aggressive_'' \<longrightarrow> take 9 n \<noteq> ''targeted_'' \<longrightarrow> files ctx' n = files ctx n) \<and>
     (\<forall>n f. take 9 n = ''targeted_'' \<longrightarrow> files ctx n = Some f \<longrightarrow> f \<noteq> [] \<longrightarrow> files ctx' n = Some f)"
proof -
  have "revoke_keeps ctx ctx'"
    using assms revoke_loop_keeps by (fastforce simp: recover_from_revoke_def Let_def split: if_splits)
  then show ?thesis by (simp add: revoke_keeps_def agg_name_def tgt_name_def)
qed

theorem recover_from_revoke_confined_witness:
  "\<exists>ctx'. recover_from_revoke ((ideal_env [])\<lparr>lib_file_read := (\<lambda>_ _ n. Some (replicate n 0))\<rparr>)
       ((base_ctx 24 3)\<lparr>has_journal := True, journal_file := True, journal_start := 1, journal_len := 3,
          files := [''targeted_2'' \<mapsto> [7]]\<rparr>) = Some (0, ctx') \<and> files ctx' ''targeted_2'' = Some [7]"
proof -
  let ?e = "(ideal_env [])\<lparr>lib_file_read := (\<lambda>_ _ n. Some (replicate n 0))\<rparr>"
  let ?c = "(base_ctx 24 3)\<lparr>has_journal := True, journal_file := True, journal_start := 1, journal_len := 3, files := [''targeted_2'' \<mapsto> [7]]\<rparr>"
  have z: "le_val (replicate n 0) = 0" for n by (induction n) auto
  have "be32_at (replicate 24 0) 0 = 0" by (simp add: be32_at_def be_val_def sub_buf_def z)
  then have "revoke_loop ?e u js (?c, 0) = Some (?c, 0)" for u js
    by (induction js) (auto simp: read_journal_block_def revoke_block_def base_ctx_def)
  then have "recover_from_revoke ?e ?c = Some (0, ?c)"
    by (simp add: recover_from_revoke_def Let_def) (simp add: ideal_env_def)
  then show ?thesis using recover_from_revoke_confined [of ?e ?c 0 ?c] by auto
qed

text \<open>The length field of a revoke record is trusted.  For any journal block with the
  revoke header whose \<open>r_count\<close> exceeds the block by at least one entry, the loop over the entries reads
  past the end of the buffer.\<close>

theorem revoke_count_overrun:
  assumes "16 \<le> length buf" and "be32_at buf 0 = 0xc03b3998" and "be32_at buf 4 = JBD2_REVOKE_BLOCK_TYPE"
    and "sint (be32_at buf 12) \<ge> int (length buf) + 8"
  shows "revoke_block env use64 buf s = None"
proof -
  have "nat (sint (be32_at buf 12)) \<ge> length buf + 8" using assms(4) by linarith
  then show ?thesis
    using assms revoke_entries_overrun [of buf "nat (sint (be32_at buf 12))" 16 env use64 s]
    by (auto simp: revoke_block_def Let_def)
qed

theorem revoke_count_overrun_witness:
  "revoke_block (ideal_env []) False (be_bytes 4 0xc03b3998 @ be_bytes 4 5 @ be_bytes 4 1 @ be_bytes 4 32 @ replicate 8 0) (base_ctx 24 3, 0) = None"
proof -
  let ?b = "be_bytes 4 0xc03b3998 @ be_bytes 4 5 @ be_bytes 4 1 @ be_bytes 4 32 @ replicate 8 0 :: buffer"
  have "length ?b = 24" by simp
  moreover have "sub_buf ?b 0 4 = be_bytes 4 0xc03b3998" "sub_buf ?b 4 4 = be_bytes 4 5" "sub_buf ?b 12 4 = be_bytes 4 32"
    by (simp_all add: sub_buf_def)
  then have "be32_at ?b 0 = 0xc03b3998" "be32_at ?b 4 = JBD2_REVOKE_BLOCK_TYPE" "be32_at ?b 12 = 32"
    by (simp_all add: be32_at_def JBD2_REVOKE_BLOCK_TYPE_def)
  ultimately show ?thesis using revoke_count_overrun [of ?b "ideal_env []" False "(base_ctx 24 3, 0)"] by simp
qed

end
