(* ===== verification/Dirents.thy ===== *)
theory Dirents
  imports Recover_IO
begin

text \<open>
  Names of inodes from directory blocks: the entries of the directories on disk and of the directory
  blocks in the journal (\<^verbatim>\<open>utils_v5.c\<close>), and the remains of removed entries in the slack of live
  ones (\<^verbatim>\<open>ghost_dirent.c\<close>).  The reads of an entry at an arbitrary offset may leave the block; they
  are \<open>None\<close> then.
\<close>

section \<open>Entries\<close>

text \<open>The copy of the name, up to its first zero byte.\<close>

definition dirent_name :: "buffer \<Rightarrow> nat \<Rightarrow> nat \<Rightarrow> string" where
  "dirent_name buf off n = map (\<lambda>b. char_of (unat b)) (takeWhile (\<lambda>b. b \<noteq> 0) (sub_buf buf (off + 8) n))"

definition is_dots :: "buffer \<Rightarrow> nat \<Rightarrow> nat \<Rightarrow> bool" where
  "is_dots buf off n \<longleftrightarrow>
     n = 1 \<and> u8_at buf (off + 8) = 46 \<or> n = 2 \<and> u8_at buf (off + 8) = 46 \<and> u8_at buf (off + 9) = 46"

definition add_name :: "env \<Rightarrow> u32 \<Rightarrow> string \<Rightarrow> recover_context \<Rightarrow> recover_context ub" where
  "add_name env ino name ctx =
     (let st = names ctx in
      map_option (\<lambda>r. ctx\<lparr>names := snd r\<rparr>)
        (add_filename_mapping (malloc_ok env (min (filename_capacity st * 2) MAX_FILENAME_MAP * 260))
           (malloc_ok env (pow2_above 1024 ((filename_count st + 1) * 2) * 4)) st ino name))"

text \<open>The body of both entry loops; \<open>max_ino\<close> is the bound of the journal scan.\<close>

definition dir_entry :: "env \<Rightarrow> u32 option \<Rightarrow> buffer \<Rightarrow> nat \<Rightarrow> recover_context \<Rightarrow> recover_context ub" where
  "dir_entry env max_ino buf off ctx =
     (let ino = le32_at buf off in
      if ino = 0 then Some ctx
      else if off + 7 > length buf then None
      else let name_len = unat (u8_at buf (off + 6)) in
        if name_len = 0 then Some ctx
        else if (case max_ino of None \<Rightarrow> False | Some m \<Rightarrow> ino > m) then Some ctx
        else if off + 8 + name_len > length buf then None
        else if is_dots buf off name_len then Some ctx
        else add_name env ino (dirent_name buf off name_len) ctx)"

function dir_entries :: "env \<Rightarrow> u32 option \<Rightarrow> nat \<Rightarrow> buffer \<Rightarrow> nat \<Rightarrow> recover_context \<Rightarrow> recover_context ub" where
  "dir_entries env max_ino bsz buf offset ctx =
     (if offset < bsz then
        (if offset + 6 > length buf then None
         else let rec_len = unat (le16_at buf (offset + 4)) in
           if rec_len = 0 then Some ctx
           else if offset + rec_len > bsz then Some ctx
           else case dir_entry env max_ino buf offset ctx of None \<Rightarrow> None
                | Some ctx' \<Rightarrow> dir_entries env max_ino bsz buf (offset + rec_len) ctx')
      else Some ctx)"
  by pat_completeness auto
termination
  by (relation "measure (\<lambda>(env, max_ino, bsz, buf, offset, ctx). bsz - offset)") auto

declare dir_entries.simps [simp del]

definition dir_block_callback :: "env \<Rightarrow> blk64_t \<Rightarrow> recover_context \<Rightarrow> recover_context ub" where
  "dir_block_callback env blocknr ctx =
     (if \<not> malloc_ok env (blocksize ctx) then Some ctx
      else case lib_io_read_blk env blocknr of None \<Rightarrow> Some ctx
           | Some buf \<Rightarrow> dir_entries env None (blocksize ctx) buf 0 ctx)"

primrec block_iterate ::
  "(blk64_t \<Rightarrow> recover_context \<Rightarrow> recover_context ub) \<Rightarrow> blk64_t list \<Rightarrow> recover_context \<Rightarrow> recover_context ub" where
  "block_iterate cb [] ctx = Some ctx"
| "block_iterate cb (b # bs) ctx = (case cb b ctx of None \<Rightarrow> None | Some ctx' \<Rightarrow> block_iterate cb bs ctx')"

section \<open>Directories on disk and in the journal\<close>

text \<open>What both loops over the inode table do with a directory that is in use.\<close>

definition visit_dir ::
  "(blk64_t \<Rightarrow> recover_context \<Rightarrow> recover_context ub) \<Rightarrow> env \<Rightarrow> u32 \<Rightarrow> ext2_inode \<Rightarrow> recover_context \<Rightarrow> recover_context ub" where
  "visit_dir cb env ino inode ctx =
     (if \<not> LINUX_S_ISDIR (i_mode inode) then Some ctx
      else if i_links_count inode = 0 then Some ctx
      else block_iterate cb (lib_block_iterate env ino) ctx)"

fun dir_scan :: "env \<Rightarrow> scan_item list \<Rightarrow> recover_context \<Rightarrow> recover_context ub" where
  "dir_scan env (Scan_inode ino inode # items) ctx =
     (if ino = 0 then Some ctx
      else case visit_dir (dir_block_callback env) env ino inode ctx of None \<Rightarrow> None
           | Some ctx' \<Rightarrow> dir_scan env items ctx')"
| "dir_scan env (Scan_bad_block # items) ctx = Some ctx"
| "dir_scan env (Scan_error # items) ctx = Some ctx"
| "dir_scan env [] ctx = Some ctx"

definition looks_like_dir :: "recover_context \<Rightarrow> buffer \<Rightarrow> bool" where
  "looks_like_dir ctx buf =
     (let ino = le32_at buf 0; rec_len = unat (le16_at buf 4); name_len = unat (u8_at buf 6) in
      if rec_len < 12 \<or> rec_len > blocksize ctx then False
      else if name_len = 0 then False
      else if ino = 0 \<and> rec_len = blocksize ctx then False
      else rec_len \<ge> 12 \<and> rec_len mod 4 = 0 \<and> name_len > 0 \<and> name_len \<le> 255 \<and> name_len + 8 \<le> rec_len \<and>
           (name_len = 1 \<and> u8_at buf 8 = 46 \<or> ino > 0 \<and> ino \<le> s_inodes_count (super ctx)))"

primrec journal_dir_loop :: "env \<Rightarrow> nat list \<Rightarrow> recover_context \<Rightarrow> recover_context ub" where
  "journal_dir_loop env [] ctx = Some ctx"
| "journal_dir_loop env (blk # blks) ctx =
     (case lib_file_read env (s_journal_inum (super ctx)) (blk * blocksize ctx) (blocksize ctx) of
        None \<Rightarrow> journal_dir_loop env blks ctx
      | Some buf \<Rightarrow>
          if length buf \<noteq> blocksize ctx then journal_dir_loop env blks ctx
          else if length buf < 9 then None
          else if \<not> looks_like_dir ctx buf then journal_dir_loop env blks ctx
          else case dir_entries env (Some (s_inodes_count (super ctx))) (blocksize ctx) buf 0 ctx of None \<Rightarrow> None
               | Some ctx' \<Rightarrow> journal_dir_loop env blks ctx')"

definition parse_journal_directory_blocks :: "env \<Rightarrow> recover_context \<Rightarrow> recover_context ub" where
  "parse_journal_directory_blocks env ctx =
     (if \<not> has_journal ctx \<or> journal_len ctx = 0 then Some ctx
      else if \<not> malloc_ok env (blocksize ctx) then Some ctx
      else if \<not> lib_file_open env (s_journal_inum (super ctx)) then Some ctx
      else journal_dir_loop env [unat (journal_start ctx)..<unat (journal_len ctx)] ctx)"

definition parse_directory_blocks :: "env \<Rightarrow> recover_context \<Rightarrow> recover_context ub" where
  "parse_directory_blocks env ctx =
     (case lib_inode_scan env of None \<Rightarrow> Some ctx
      | Some items \<Rightarrow>
          case dir_scan env items ctx of None \<Rightarrow> None
          | Some ctx' \<Rightarrow> if has_journal ctx' then parse_journal_directory_blocks env ctx' else Some ctx')"

section \<open>Ghost entries\<close>

definition ghost_dirent_looks_valid :: "buffer \<Rightarrow> nat \<Rightarrow> nat \<Rightarrow> u32 \<Rightarrow> nat \<Rightarrow> bool" where
  "ghost_dirent_looks_valid buf ptr buf_end max_ino bsz =
     (if ptr + 8 > buf_end then False
      else let ino = le32_at buf ptr; rec_len = unat (le16_at buf (ptr + 4)); nlen = unat (u8_at buf (ptr + 6)) in
        if ino = 0 \<or> ino > max_ino then False
        else if rec_len < 8 \<or> rec_len > bsz then False
        else if rec_len mod 4 \<noteq> 0 then False
        else if nlen = 0 \<or> nlen > 255 then False
        else if nlen + 8 > rec_len then False
        else if ptr + 8 + nlen > buf_end then False
        else if \<not> list_all (\<lambda>c. c \<noteq> 0 \<and> c \<noteq> 47) (sub_buf buf (ptr + 8) nlen) then False
        else if is_dots buf ptr nlen then False
        else True)"

function ghost_loop :: "env \<Rightarrow> u32 \<Rightarrow> nat \<Rightarrow> buffer \<Rightarrow> nat \<Rightarrow> nat \<Rightarrow> recover_context \<Rightarrow> recover_context ub" where
  "ghost_loop env max_ino bsz buf gap_end goff ctx =
     (if goff + 8 \<le> gap_end then
        (if ghost_dirent_looks_valid buf goff gap_end max_ino bsz then
           (case add_name env (le32_at buf goff) (dirent_name buf goff (unat (u8_at buf (goff + 6)))) ctx of
              None \<Rightarrow> None
            | Some ctx' \<Rightarrow> ghost_loop env max_ino bsz buf gap_end (goff + unat (le16_at buf (goff + 4))) ctx')
         else ghost_loop env max_ino bsz buf gap_end (goff + 4) ctx)
      else Some ctx)"
  by pat_completeness auto
termination
  by (relation "measure (\<lambda>(env, max_ino, bsz, buf, gap_end, goff, ctx). gap_end - goff)")
     (auto simp: ghost_dirent_looks_valid_def Let_def split: if_splits)

declare ghost_loop.simps [simp del]

definition live_used :: "nat \<Rightarrow> nat" where
  "live_used name_len =
     (let u = 8 + name_len in if u mod 4 \<noteq> 0 then u + (4 - u mod 4) else u)"

function scan_dir_block_for_ghosts ::
  "env \<Rightarrow> u32 \<Rightarrow> nat \<Rightarrow> buffer \<Rightarrow> nat \<Rightarrow> recover_context \<Rightarrow> recover_context ub" where
  "scan_dir_block_for_ghosts env max_ino bsz buf offset ctx =
     (if offset < bsz then
        (if offset + 6 > length buf then None
         else let rec_len = unat (le16_at buf (offset + 4)) in
           if rec_len = 0 then Some ctx
           else if offset + rec_len > bsz then Some ctx
           else if offset + 7 > length buf then None
           else case ghost_loop env max_ino bsz buf (offset + rec_len)
                       (offset + live_used (unat (u8_at buf (offset + 6)))) ctx of None \<Rightarrow> None
                | Some ctx' \<Rightarrow> scan_dir_block_for_ghosts env max_ino bsz buf (offset + rec_len) ctx')
      else Some ctx)"
  by pat_completeness auto
termination
  by (relation "measure (\<lambda>(env, max_ino, bsz, buf, offset, ctx). bsz - offset)") auto

declare scan_dir_block_for_ghosts.simps [simp del]

definition ghost_block_cb :: "env \<Rightarrow> blk64_t \<Rightarrow> recover_context \<Rightarrow> recover_context ub" where
  "ghost_block_cb env blocknr ctx =
     (if \<not> malloc_ok env (blocksize ctx) then Some ctx
      else case lib_io_read_blk env blocknr of None \<Rightarrow> Some ctx
           | Some buf \<Rightarrow> scan_dir_block_for_ghosts env (s_inodes_count (super ctx)) (blocksize ctx) buf 0 ctx)"

fun ghost_scan :: "env \<Rightarrow> scan_item list \<Rightarrow> recover_context \<Rightarrow> recover_context ub" where
  "ghost_scan env (Scan_bad_block # items) ctx = ghost_scan env items ctx"
| "ghost_scan env (Scan_inode ino inode # items) ctx =
     (if ino = 0 then Some ctx
      else case visit_dir (ghost_block_cb env) env ino inode ctx of None \<Rightarrow> None
           | Some ctx' \<Rightarrow> ghost_scan env items ctx')"
| "ghost_scan env (Scan_error # items) ctx = Some ctx"
| "ghost_scan env [] ctx = Some ctx"

definition scan_ghost_dirents :: "env \<Rightarrow> recover_context \<Rightarrow> recover_context ub" where
  "scan_ghost_dirents env ctx =
     (case lib_inode_scan env of None \<Rightarrow> Some ctx | Some items \<Rightarrow> ghost_scan env items ctx)"

section \<open>Directory blocks as ext4 writes them\<close>

text \<open>An entry: its name and the slack that belongs to it.  An entry with inode 0 is unused.\<close>

record dirent =
  d_inode :: u32
  d_type :: byte
  d_name :: "byte list"
  d_pad :: "byte list"

definition d_rec :: "dirent \<Rightarrow> nat" where
  "d_rec d = 8 + length (d_name d) + length (d_pad d)"

definition enc_dirent :: "dirent \<Rightarrow> buffer" where
  "enc_dirent d = le_bytes 4 (unat (d_inode d)) @ le_bytes 2 (d_rec d) @ [of_nat (length (d_name d)), d_type d] @ d_name d @ d_pad d"

definition enc_dir :: "dirent list \<Rightarrow> buffer" where
  "enc_dir ds = concat (map enc_dirent ds)"

definition dirent_ok :: "dirent \<Rightarrow> bool" where
  "dirent_ok d \<longleftrightarrow> d_rec d < 65536 \<and> length (d_name d) < 256 \<and> 0 \<notin> set (d_name d) \<and> 47 \<notin> set (d_name d)"

definition d_live :: "dirent \<Rightarrow> bool" where
  "d_live d \<longleftrightarrow> d_inode d \<noteq> 0 \<and> d_name d \<noteq> [] \<and> d_name d \<noteq> [46] \<and> d_name d \<noteq> [46, 46]"

definition d_string :: "dirent \<Rightarrow> string" where
  "d_string d = map (\<lambda>b. char_of (unat b)) (d_name d)"

text \<open>The names a list of entries assigns, later entries first.\<close>

definition dir_map :: "(u32 \<Rightarrow> string option) \<Rightarrow> dirent list \<Rightarrow> u32 \<Rightarrow> string option" where
  "dir_map m ds = foldl (\<lambda>m d. if d_live d then m(d_inode d \<mapsto> d_string d) else m) m ds"

lemma dir_map_append: "dir_map m (xs @ ys) = dir_map (dir_map m xs) ys"
  by (simp add: dir_map_def)

lemma length_enc_dirent: "length (enc_dirent d) = d_rec d"
  by (simp add: enc_dirent_def d_rec_def)

lemma dirent_fields:
  assumes "dirent_ok d" and buf: "buf = pre @ enc_dirent d @ post"
  shows "le32_at buf (length pre) = d_inode d" "unat (le16_at buf (length pre + 4)) = d_rec d"
    "unat (u8_at buf (length pre + 6)) = length (d_name d)"
    "sub_buf buf (length pre + 8) (length (d_name d)) = d_name d"
proof -
  have "unat (d_inode d) < 4294967296" using unsigned_less [of "d_inode d"] by simp
  then show "le32_at buf (length pre) = d_inode d"
    by (simp add: buf le32_at_def sub_buf_def enc_dirent_def del: le_bytes_numeral)
  have "sub_buf buf (length pre + 4) 2 = le_bytes 2 (d_rec d)"
    by (simp add: buf sub_buf_def enc_dirent_def del: le_bytes_numeral)
  then show "unat (le16_at buf (length pre + 4)) = d_rec d"
    using assms(1) by (simp add: le16_at_def dirent_ok_def unat_of_nat del: le_bytes_numeral)
  have "sub_buf buf (length pre + 6) 1 = [of_nat (length (d_name d))]"
    by (simp add: buf sub_buf_def enc_dirent_def del: le_bytes_numeral)
  then show "unat (u8_at buf (length pre + 6)) = length (d_name d)"
    using assms(1) by (simp add: u8_at_def dirent_ok_def unat_of_nat)
  show "sub_buf buf (length pre + 8) (length (d_name d)) = d_name d"
    by (simp add: buf sub_buf_def enc_dirent_def del: le_bytes_numeral)
qed

lemma u8_at_sub: "off + n \<le> length buf \<Longrightarrow> i < n \<Longrightarrow> u8_at buf (off + i) = sub_buf buf off n ! i"
proof -
  assume a: "off + n \<le> length buf" "i < n"
  then have "sub_buf buf (off + i) 1 = [buf ! (off + i)]"
    by (simp add: sub_buf_def take_Suc_conv_app_nth take_Suc hd_drop_conv_nth)
  then show ?thesis using a by (simp add: u8_at_def sub_buf_def)
qed

lemma is_dots_encoded:
  assumes "dirent_ok d" "buf = pre @ enc_dirent d @ post"
  shows "is_dots buf (length pre) (length (d_name d)) \<longleftrightarrow> d_name d = [46] \<or> d_name d = [46, 46]"
proof -
  have len: "length pre + 8 + length (d_name d) \<le> length buf"
    using length_enc_dirent [of d] by (simp add: assms(2) d_rec_def)
  have at: "i < length (d_name d) \<Longrightarrow> u8_at buf (length pre + 8 + i) = d_name d ! i" for i
    using u8_at_sub [OF len, of i] dirent_fields(4) [OF assms] by simp
  consider "length (d_name d) \<noteq> 1 \<and> length (d_name d) \<noteq> 2" | a where "d_name d = [a]" | a b where "d_name d = [a, b]"
    by (cases "d_name d" rule: remdups_adj.cases) auto
  then show ?thesis
    using at [of 0] at [of 1] by cases (auto simp: is_dots_def add.commute)
qed

lemma d_string_safe: "dirent_ok d \<Longrightarrow> d_live d \<Longrightarrow> filename_is_safe (d_string d) \<and> length (d_string d) \<le> 255"
proof -
  assume a: "dirent_ok d" "d_live d"
  have inj: "char_of (unat b) = (CHR ''/'') \<longleftrightarrow> b = 47" "char_of (unat b) = (CHR ''.'') \<longleftrightarrow> b = 46" for b :: byte
  proof -
    have l: "unat b < 256" using unsigned_less [of b] by simp
    have eq: "char_of (unat b) = c \<longleftrightarrow> unat b = of_char c" for c
      using l by (metis char_of_char of_char_of mod_less)
    have "unat b = 47 \<longleftrightarrow> b = 47" "unat b = 46 \<longleftrightarrow> b = 46" by (auto simp: word_unat_eq_iff)
    then show "char_of (unat b) = (CHR ''/'') \<longleftrightarrow> b = 47" "char_of (unat b) = (CHR ''.'') \<longleftrightarrow> b = 46"
      by (simp_all add: eq)
  qed
  have "CHR ''/'' \<notin> set (d_string d)" 
  proof
    assume "CHR ''/'' \<in> set (d_string d)"
    then obtain b where "b \<in> set (d_name d)" "char_of (unat b) = (CHR ''/'')" unfolding d_string_def set_map image_iff by metis
    then show False using a(1) inj(1) [of b] by (simp add: dirent_ok_def)
  qed
  moreover have "d_string d \<noteq> ''.''" "d_string d \<noteq> ''..''" "d_string d \<noteq> []"
    using a(2) inj(2) by (auto simp: d_string_def d_live_def map_eq_Cons_conv)
  ultimately have "filename_is_safe (d_string d)" by (auto simp: filename_is_safe_def list_all_iff)
  then show ?thesis using a(1) by (simp add: dirent_ok_def d_string_def)
qed

section \<open>Reading encoded blocks\<close>

lemma fm_count:
  assumes "fm_inv st"
  shows "finite (dom (fm_map st)) \<and> card (dom (fm_map st)) = filename_count st"
proof -
  obtain es n where es: "fm_entries st = Some es" "index_ok n st es" using assms by (auto simp: fm_inv_def)
  then have d: "distinct (map fe_inode es)" and l: "fm_list st = es" by (auto simp: index_ok_def fm_list_def)
  have dom: "dom (fm_map st) = set (map fe_inode es)" by (force simp: fm_map_def l dom_map_of_conv_image_fst)
  then show ?thesis using distinct_card [OF d] l by simp
qed

text \<open>\<open>r\<close> is \<open>ctx\<close> with the names of \<open>ds\<close> added and nothing else changed.\<close>

definition adds :: "dirent list \<Rightarrow> recover_context \<Rightarrow> recover_context ub \<Rightarrow> bool" where
  "adds ds ctx r \<longleftrightarrow> (\<exists>st. r = Some (ctx\<lparr>names := st\<rparr>) \<and> fm_inv st \<and> fm_map st = dir_map (fm_map (names ctx)) ds \<and>
     filename_count st \<le> filename_count (names ctx) + length ds)"

lemma adds_none: "fm_inv (names ctx) \<Longrightarrow> \<forall>d \<in> set ds. \<not> d_live d \<Longrightarrow> adds ds ctx (Some ctx)"
proof -
  assume a: "fm_inv (names ctx)" "\<forall>d \<in> set ds. \<not> d_live d"
  have "dir_map m ds = m" for m using a(2) by (induction ds arbitrary: m) (auto simp: dir_map_def)
  then show ?thesis using a(1) by (auto simp: adds_def intro!: exI [of _ "names ctx"])
qed

lemma adds_compose:
  assumes "adds xs ctx (Some c1)" "adds ys c1 r"
  shows "adds (xs @ ys) ctx r"
  using assms by (fastforce simp: adds_def dir_map_append)

lemma adds_one:
  assumes "fm_inv (names ctx)" "d_live d" "dirent_ok d" "filename_count (names ctx) < MAX_FILENAME_MAP" "\<forall>n. malloc_ok env n"
  shows "adds [d] ctx (add_name env (d_inode d) (d_string d) ctx)"
proof -
  have safe: "filename_is_safe (d_string d)" "take 255 (d_string d) = d_string d" using d_string_safe [OF assms(3,2)] by auto
  have nz: "d_inode d \<noteq> 0" using assms(2) by (simp add: d_live_def)
  obtain st where st: "add_filename_mapping True True (names ctx) (d_inode d) (d_string d) = Some (0, st)" "fm_inv st"
    "fm_map st = (fm_map (names ctx))(d_inode d \<mapsto> d_string d)"
    using add_existing [OF assms(1) nz _ safe(1), of True True] add_new [OF assms(1) nz _ safe(1) assms(4)] safe(2)
    by (cases "fm_map (names ctx) (d_inode d)") auto
  have "card (dom (fm_map st)) \<le> card (dom (fm_map (names ctx))) + 1"
    using st(3) card_insert_le_m1 by (simp add: card_insert_if fm_count [OF assms(1)])
  then have "filename_count st \<le> filename_count (names ctx) + 1" using fm_count [OF assms(1)] fm_count [OF st(2)] by simp
  then show ?thesis using st assms(2,5) by (auto simp: adds_def add_name_def Let_def dir_map_def intro!: exI [of _ st])
qed

lemma dir_entry_encoded:
  assumes "dirent_ok d" "buf = pre @ enc_dirent d @ post" "fm_inv (names ctx)"
    "filename_count (names ctx) < MAX_FILENAME_MAP" "\<forall>n. malloc_ok env n"
  shows "adds [d] ctx (dir_entry env None buf (length pre) ctx)"
proof -
  note f = dirent_fields [OF assms(1,2)] is_dots_encoded [OF assms(1,2)]
  have len: "\<not> length pre + 8 + length (d_name d) > length buf" "\<not> length pre + 7 > length buf"
    using length_enc_dirent [of d] by (simp_all add: assms(2) d_rec_def)
  have nm: "dirent_name buf (length pre) (length (d_name d)) = d_string d"
  proof -
    have "takeWhile (\<lambda>b. b \<noteq> 0) (d_name d) = d_name d" using assms(1) by (auto simp: dirent_ok_def takeWhile_eq_all_conv)
    then show ?thesis by (simp only: dirent_name_def f(4) d_string_def)
  qed
  have "dir_entry env None buf (length pre) ctx =
      (if d_inode d = 0 then Some ctx else if length (d_name d) = 0 then Some ctx
       else if is_dots buf (length pre) (length (d_name d)) then Some ctx else add_name env (d_inode d) (d_string d) ctx)"
    using len by (simp add: dir_entry_def Let_def f(1-3) nm)
  then have "dir_entry env None buf (length pre) ctx =
      (if d_live d then add_name env (d_inode d) (d_string d) ctx else Some ctx)"
    unfolding f(5) by (auto simp: d_live_def)
  then show ?thesis using adds_one [OF assms(3) _ assms(1,4,5)] adds_none [OF assms(3), of "[d]"] by auto
qed

lemma dir_entries_encoded:
  assumes "\<forall>n. malloc_ok env n"
  shows "list_all dirent_ok ds \<Longrightarrow> fm_inv (names ctx) \<Longrightarrow> filename_count (names ctx) + length ds \<le> MAX_FILENAME_MAP \<Longrightarrow>
    buf = pre @ enc_dir ds \<Longrightarrow> adds ds ctx (dir_entries env None (length buf) buf (length pre) ctx)"
proof (induction ds arbitrary: pre ctx)
  case Nil
  then show ?case using adds_none [of ctx "[]"] by (simp add: enc_dir_def dir_entries.simps [of env None "length pre"])
next
  case (Cons d ds)
  have ok: "dirent_ok d" "buf = pre @ enc_dirent d @ enc_dir ds" using Cons.prems by (auto simp: enc_dir_def)
  have room: "filename_count (names ctx) < MAX_FILENAME_MAP" using Cons.prems(3) by simp
  have one: "adds [d] ctx (dir_entry env None buf (length pre) ctx)"
    by (rule dir_entry_encoded [OF ok Cons.prems(2) room assms])
  then obtain st where st: "dir_entry env None buf (length pre) ctx = Some (ctx\<lparr>names := st\<rparr>)" "fm_inv st"
    "filename_count st \<le> filename_count (names ctx) + 1" by (auto simp: adds_def)
  have rl: "unat (le16_at buf (length pre + 4)) = d_rec d" using dirent_fields(2) [OF ok] .
  have lens: "length pre < length buf" "\<not> length pre + 6 > length buf" "d_rec d \<noteq> 0" "\<not> length pre + d_rec d > length buf"
    using length_enc_dirent [of d] by (auto simp: ok(2) d_rec_def)
  have step: "dir_entries env None (length buf) buf (length pre) ctx =
      dir_entries env None (length buf) buf (length pre + d_rec d) (ctx\<lparr>names := st\<rparr>)"
    using lens st(1) rl by (subst dir_entries.simps) (simp add: Let_def)
  have "adds ds (ctx\<lparr>names := st\<rparr>) (dir_entries env None (length buf) buf (length (pre @ enc_dirent d)) (ctx\<lparr>names := st\<rparr>))"
    using Cons.prems st ok(2) by (intro Cons.IH) auto
  then have "adds ds (ctx\<lparr>names := st\<rparr>) (dir_entries env None (length buf) buf (length pre) ctx)"
    by (simp add: step length_enc_dirent)
  then show ?case using adds_compose [of "[d]" ctx "ctx\<lparr>names := st\<rparr>" ds] one st(1) by simp
qed

text \<open>A scan whose directory blocks \<open>D b\<close> are well formed, and the entries it meets in order.\<close>

definition dirs_readable :: "env \<Rightarrow> nat \<Rightarrow> (blk64_t \<Rightarrow> dirent list) \<Rightarrow> blk64_t set \<Rightarrow> bool" where
  "dirs_readable env bsz D B \<longleftrightarrow>
     (\<forall>b \<in> B. lib_io_read_blk env b = Some (enc_dir (D b)) \<and> length (enc_dir (D b)) = bsz \<and> list_all dirent_ok (D b))"

fun scan_blocks_of :: "env \<Rightarrow> scan_item list \<Rightarrow> blk64_t list" where
  "scan_blocks_of env (Scan_inode ino inode # items) =
     (if ino = 0 then []
      else (if LINUX_S_ISDIR (i_mode inode) \<and> i_links_count inode \<noteq> 0 then lib_block_iterate env ino else []) @
           scan_blocks_of env items)"
| "scan_blocks_of env (_ # items) = []"
| "scan_blocks_of env [] = []"

lemma block_iterate_encoded:
  assumes "\<forall>n. malloc_ok env n"
  shows "dirs_readable env (blocksize ctx) D (set bs) \<Longrightarrow> fm_inv (names ctx) \<Longrightarrow>
    filename_count (names ctx) + length (concat (map D bs)) \<le> MAX_FILENAME_MAP \<Longrightarrow>
    adds (concat (map D bs)) ctx (block_iterate (dir_block_callback env) bs ctx)"
proof (induction bs arbitrary: ctx)
  case Nil
  then show ?case using adds_none [of ctx "[]"] by simp
next
  case (Cons b bs)
  have "dir_block_callback env b ctx = dir_entries env None (length (enc_dir (D b))) (enc_dir (D b)) (length []) ctx"
    using Cons.prems(1) assms by (simp add: dir_block_callback_def dirs_readable_def)
  then have one: "adds (D b) ctx (dir_block_callback env b ctx)"
    using dir_entries_encoded [OF assms, of "D b" ctx "enc_dir (D b)" "[]"] Cons.prems by (simp add: dirs_readable_def)
  then obtain st where st: "dir_block_callback env b ctx = Some (ctx\<lparr>names := st\<rparr>)" "fm_inv st"
    "filename_count st \<le> filename_count (names ctx) + length (D b)" by (auto simp: adds_def)
  have "adds (concat (map D bs)) (ctx\<lparr>names := st\<rparr>) (block_iterate (dir_block_callback env) bs (ctx\<lparr>names := st\<rparr>))"
    using Cons.prems st by (intro Cons.IH) (auto simp: dirs_readable_def)
  then show ?case using adds_compose [of "D b" ctx "ctx\<lparr>names := st\<rparr>"] one st(1) by simp
qed

lemma dir_scan_encoded:
  "\<forall>n. malloc_ok env n \<Longrightarrow> dirs_readable env (blocksize ctx) D (set (scan_blocks_of env items)) \<Longrightarrow> fm_inv (names ctx) \<Longrightarrow>
    filename_count (names ctx) + length (concat (map D (scan_blocks_of env items))) \<le> MAX_FILENAME_MAP \<Longrightarrow>
    adds (concat (map D (scan_blocks_of env items))) ctx (dir_scan env items ctx)"
proof (induction env items ctx rule: dir_scan.induct)
  case (1 env ino inode items ctx)
  show ?case
  proof (cases "ino = 0")
    case True
    then show ?thesis using 1 adds_none [of ctx "[]"] by simp
  next
    case False
    let ?v = "visit_dir (dir_block_callback env) env ino inode ctx"
    let ?bs = "if LINUX_S_ISDIR (i_mode inode) \<and> i_links_count inode \<noteq> 0 then lib_block_iterate env ino else []"
    have parts: "scan_blocks_of env (Scan_inode ino inode # items) = ?bs @ scan_blocks_of env items" using False by simp
    have rd: "dirs_readable env (blocksize ctx) D (set ?bs)"
      "dirs_readable env (blocksize ctx) D (set (scan_blocks_of env items))"
      using 1(3) unfolding parts by (auto simp: dirs_readable_def split: if_splits)
    have ct: "filename_count (names ctx) + length (concat (map D ?bs)) + length (concat (map D (scan_blocks_of env items))) \<le> MAX_FILENAME_MAP"
      using 1(5) unfolding parts by simp
    have one: "adds (concat (map D ?bs)) ctx ?v"
      using block_iterate_encoded [OF 1(2) rd(1) 1(4)] ct by (auto simp: visit_dir_def)
    then obtain st where st: "?v = Some (ctx\<lparr>names := st\<rparr>)" "fm_inv st"
      "filename_count st \<le> filename_count (names ctx) + length (concat (map D ?bs))" by (auto simp: adds_def)
    have "adds (concat (map D (scan_blocks_of env items))) (ctx\<lparr>names := st\<rparr>) (dir_scan env items (ctx\<lparr>names := st\<rparr>))"
      using 1(1) [OF False st(1) 1(2)] rd(2) ct st by simp
    then show ?thesis using adds_compose [of _ ctx "ctx\<lparr>names := st\<rparr>"] one st(1) False
      by (simp only: parts map_append concat_append) simp
  qed
qed (use adds_none in \<open>auto\<close>)

section \<open>Frames\<close>

text \<open>Every routine of this theory changes the name map only.\<close>

definition only_names :: "recover_context \<Rightarrow> recover_context \<Rightarrow> bool" where
  "only_names c c' \<longleftrightarrow> c' = c\<lparr>names := names c'\<rparr>"

lemma only_names_refl [simp, intro]: "only_names c c"
  by (simp add: only_names_def)

lemma only_names_trans [trans]: "only_names a b \<Longrightarrow> only_names b c \<Longrightarrow> only_names a c"
  by (simp add: only_names_def) (metis (no_types, lifting) recover_context.surjective recover_context.update_convs(8))

text \<open>The contract of these routines: they change the context only through \<open>add_name\<close>, for inodes other than 0.  So every
  reflexive and transitive relation that \<open>add_name\<close> respects holds between the contexts before and after.\<close>

locale name_frame =
  fixes env :: env and R :: "recover_context \<Rightarrow> recover_context \<Rightarrow> bool"
  assumes R_refl: "R c c" and R_trans: "R c1 c2 \<Longrightarrow> R c2 c3 \<Longrightarrow> R c1 c3"
    and add_name_R: "ino \<noteq> 0 \<Longrightarrow> add_name env ino name c = Some c' \<Longrightarrow> R c c'"
begin

lemma dir_entries_R: "dir_entries e mi bsz buf off c = Some c' \<Longrightarrow> e = env \<Longrightarrow> R c c'"
proof (induction e mi bsz buf off c rule: dir_entries.induct)
  case (1 e mi bsz buf off c)
  have d: "dir_entry e mi buf off c = Some c1 \<Longrightarrow> R c c1" for c1
    using add_name_R R_refl "1.prems"(2) by (auto simp: dir_entry_def Let_def split: if_splits)
  show ?case
  proof (cases "dir_entry e mi buf off c")
    case (Some c1)
    then show ?thesis using 1(2,3) 1(1) [OF _ _ refl _ _ Some] R_trans [OF d [OF Some]] R_refl
      by (auto simp: dir_entries.simps [of env mi bsz buf off c] Let_def split: if_splits)
  qed (use 1(2,3) R_refl in \<open>auto simp: dir_entries.simps [of env mi bsz buf off c] Let_def split: if_splits\<close>)
qed

lemma ghost_loop_R: "ghost_loop e mi bsz buf ge g c = Some c' \<Longrightarrow> e = env \<Longrightarrow> R c c'"
proof (induction e mi bsz buf ge g c rule: ghost_loop.induct)
  case (1 e mi bsz buf ge g c)
  note step = ghost_loop.simps [of env mi bsz buf ge g c]
  show ?case
  proof (cases "g + 8 \<le> ge \<and> ghost_dirent_looks_valid buf g ge mi bsz")
    case True
    then obtain c1 where c1: "add_name e (le32_at buf g) (dirent_name buf g (unat (u8_at buf (g + 6)))) c = Some c1"
      "ghost_loop e mi bsz buf ge (g + unat (le16_at buf (g + 4))) c1 = Some c'"
      using 1(3,4) by (auto simp: step split: option.splits)
    have "le32_at buf g \<noteq> 0" using True by (auto simp: ghost_dirent_looks_valid_def Let_def split: if_splits)
    then have "R c c1" using add_name_R c1(1) 1(4) by blast
    then show ?thesis using 1(1) [OF _ _ c1] 1(4) True R_trans by blast
  next
    case False
    then show ?thesis using 1(2,3,4) R_refl by (auto simp: step split: if_splits)
  qed
qed

lemma scan_dir_block_R: "scan_dir_block_for_ghosts e mi bsz buf off c = Some c' \<Longrightarrow> e = env \<Longrightarrow> R c c'"
proof (induction e mi bsz buf off c rule: scan_dir_block_for_ghosts.induct)
  case (1 e mi bsz buf off c)
  define g where "g = ghost_loop env mi bsz buf (off + unat (le16_at buf (off + 4))) (off + live_used (unat (u8_at buf (off + 6)))) c"
  note step = scan_dir_block_for_ghosts.simps [of env mi bsz buf off c, unfolded Let_def, folded g_def]
  show ?case
  proof (cases g)
    case (Some c1)
    then show ?thesis
      using 1(2,3) 1(1) [OF _ _ refl _ _ _ Some [unfolded g_def, folded 1(3)]] R_trans [OF ghost_loop_R [OF Some [unfolded g_def] refl]] R_refl
      by (auto simp: step split: if_splits)
  qed (use 1(2,3) R_refl in \<open>auto simp: step split: if_splits\<close>)
qed

lemma block_iterate_R: "(\<And>b c c'. cb b c = Some c' \<Longrightarrow> R c c') \<Longrightarrow> block_iterate cb bs c = Some c' \<Longrightarrow> R c c'"
proof (induction bs arbitrary: c)
  case (Cons b bs)
  then show ?case using R_trans by (auto split: option.splits) blast
qed (simp add: R_refl)

lemma visit_dir_R: "(\<And>b c c'. cb b c = Some c' \<Longrightarrow> R c c') \<Longrightarrow> visit_dir cb e ino inode c = Some c' \<Longrightarrow> R c c'"
  using block_iterate_R R_refl by (auto simp: visit_dir_def split: if_splits)

lemma callbacks_R: "dir_block_callback env b c = Some c' \<Longrightarrow> R c c'" "ghost_block_cb env b c = Some c' \<Longrightarrow> R c c'"
  using dir_entries_R scan_dir_block_R R_refl
  by (auto simp: dir_block_callback_def ghost_block_cb_def split: if_splits option.splits)

lemma dir_scan_R: "dir_scan e items c = Some c' \<Longrightarrow> e = env \<Longrightarrow> R c c'"
proof (induction e items c rule: dir_scan.induct)
  case (1 e ino inode items c)
  show ?case
  proof (cases "ino = 0 \<or> visit_dir (dir_block_callback e) e ino inode c = None")
    case True
    then show ?thesis using 1(2) R_refl by (auto split: if_splits)
  next
    case False
    then obtain c1 where c1: "visit_dir (dir_block_callback e) e ino inode c = Some c1" "dir_scan e items c1 = Some c'" "ino \<noteq> 0"
      using 1(2) by auto
    have "R c c1" by (rule visit_dir_R [OF callbacks_R(1) c1(1) [unfolded 1(3)]])
    then show ?thesis using R_trans 1(1) [OF c1(3,1,2) 1(3)] by blast
  qed
qed (auto intro: R_refl)

lemma ghost_scan_R: "ghost_scan e items c = Some c' \<Longrightarrow> e = env \<Longrightarrow> R c c'"
proof (induction e items c rule: ghost_scan.induct)
  case (2 e ino inode items c)
  show ?case
  proof (cases "ino = 0 \<or> visit_dir (ghost_block_cb e) e ino inode c = None")
    case True
    then show ?thesis using 2(2) R_refl by (auto split: if_splits)
  next
    case False
    then obtain c1 where c1: "visit_dir (ghost_block_cb e) e ino inode c = Some c1" "ghost_scan e items c1 = Some c'" "ino \<noteq> 0"
      using 2(2) by auto
    have "R c c1" by (rule visit_dir_R [OF callbacks_R(2) c1(1) [unfolded 2(3)]])
    then show ?thesis using R_trans 2(1) [OF c1(3,1,2) 2(3)] by blast
  qed
qed (auto intro: R_refl)

lemma journal_dir_R: "journal_dir_loop env bs c = Some c' \<Longrightarrow> R c c'"
proof (induction bs arbitrary: c)
  case (Cons b bs)
  then show ?case using dir_entries_R R_trans by (auto split: option.splits if_splits) blast
qed (simp add: R_refl)

lemma parse_directory_blocks_R: "parse_directory_blocks env c = Some c' \<Longrightarrow> R c c'"
proof -
  assume a: "parse_directory_blocks env c = Some c'"
  have j: "parse_journal_directory_blocks env x = Some y \<Longrightarrow> R x y" for x y
    using journal_dir_R R_refl by (auto simp: parse_journal_directory_blocks_def split: if_splits)
  show ?thesis using a j dir_scan_R [OF _ refl] R_trans R_refl
    by (auto simp: parse_directory_blocks_def split: option.splits if_splits) blast
qed

lemma scan_ghost_dirents_R: "scan_ghost_dirents env c = Some c' \<Longrightarrow> R c c'"
  using ghost_scan_R [OF _ refl] R_refl by (auto simp: scan_ghost_dirents_def split: option.splits)

end

interpretation frame: name_frame env only_names for env
proof unfold_locales
  show "only_names c c" for c by (rule only_names_refl)
  show "only_names c1 c2 \<Longrightarrow> only_names c2 c3 \<Longrightarrow> only_names c1 c3" for c1 c2 c3 by (rule only_names_trans)
  show "add_name env ino name c = Some c' \<Longrightarrow> only_names c c'" for ino name c c'
    by (auto simp: add_name_def Let_def only_names_def)
qed

text \<open>With memory the name table stays well-formed, and the output-name claims are not touched.\<close>

definition names_kept :: "env \<Rightarrow> recover_context \<Rightarrow> recover_context \<Rightarrow> bool" where
  "names_kept env c c' \<longleftrightarrow> name_claims (names c') = name_claims (names c) \<and> claim_capacity (names c') = claim_capacity (names c) \<and>
     ((\<forall>n. malloc_ok env n) \<longrightarrow> fm_inv (names c) \<longrightarrow> fm_inv (names c'))"

interpretation table: name_frame env "names_kept env" for env
proof unfold_locales
  show "names_kept env c c" for c by (simp add: names_kept_def)
  show "names_kept env c1 c2 \<Longrightarrow> names_kept env c2 c3 \<Longrightarrow> names_kept env c1 c3" for c1 c2 c3 by (auto simp: names_kept_def)
  show "names_kept env c c'" if "ino \<noteq> 0" "add_name env ino name c = Some c'" for ino name c c'
    using that(2) add_filename_mapping_claims add_filename_mapping_inv [OF _ that(1)] by (fastforce simp: add_name_def Let_def names_kept_def)
qed

section \<open>Properties\<close>

text \<open>Property C18: the directory scan learns every name.  On a file system whose directories in use consist of
  well-formed blocks, and while the map has room, the scan ends, and afterwards the lookup of an inode gives the
  name of the last entry that refers to it (names \<open>.\<close> and \<open>..\<close>, unused entries and whatever stands in the slack
  of entries are ignored) or the earlier answer; nothing but the map changes.\<close>

theorem parse_directory_blocks_names:
  assumes "\<forall>n. malloc_ok env n" and "lib_inode_scan env = Some items" and "\<not> has_journal ctx"
    and "dirs_readable env (blocksize ctx) D (set (scan_blocks_of env items))" and "fm_inv (names ctx)"
    and "filename_count (names ctx) + length (concat (map D (scan_blocks_of env items))) \<le> MAX_FILENAME_MAP"
  shows "\<exists>st. parse_directory_blocks env ctx = Some (ctx\<lparr>names := st\<rparr>) \<and> fm_inv st \<and>
    (\<forall>j. j \<noteq> 0 \<longrightarrow> get_filename_for_inode st j =
       Some (dir_map (fm_map (names ctx)) (concat (map D (scan_blocks_of env items))) j))"
proof -
  obtain st where st: "dir_scan env items ctx = Some (ctx\<lparr>names := st\<rparr>)" "fm_inv st"
    "fm_map st = dir_map (fm_map (names ctx)) (concat (map D (scan_blocks_of env items)))"
    using dir_scan_encoded [OF assms(1,4,5,6)] by (auto simp: adds_def)
  have "parse_directory_blocks env ctx = Some (ctx\<lparr>names := st\<rparr>)"
    using assms(2,3) st(1) by (simp add: parse_directory_blocks_def)
  then show ?thesis using st(2,3) get_filename_model by (intro exI [of _ st]) auto
qed

definition example_dir :: "dirent list" where
  "example_dir =
     [\<lparr>d_inode = 2, d_type = 2, d_name = [46], d_pad = [0, 0, 0]\<rparr>, \<lparr>d_inode = 2, d_type = 2, d_name = [46, 46], d_pad = [0, 0]\<rparr>,
      \<lparr>d_inode = 12, d_type = 1, d_name = [97, 98], d_pad = [9, 9]\<rparr>]"

definition dir_env :: env where
  "dir_env = (ideal_env [])\<lparr>lib_inode_scan := Some [Scan_inode 2 \<lparr>i_mode = 0x41ED, i_size = 36, i_dtime = 0, i_links_count = 2,
       i_blocks = 0, i_flags = 0, i_block = [], i_size_high = 0\<rparr>],
     lib_block_iterate := (\<lambda>_. [5]), lib_io_read_blk := (\<lambda>_. Some (enc_dir example_dir))\<rparr>"

theorem parse_directory_blocks_names_witness:
  "\<exists>st st'. parse_directory_blocks dir_env ((base_ctx 36 9)\<lparr>names := st\<rparr>) = Some ((base_ctx 36 9)\<lparr>names := st'\<rparr>) \<and>
     get_filename_for_inode st' 12 = Some (Some ''ab'') \<and> get_filename_for_inode st' 2 = Some None"
proof -
  obtain st where st: "fm_inv st" "fm_map st = Map.empty" "fm_list st = []" using fresh_state by blast
  let ?c = "(base_ctx 36 9)\<lparr>names := st\<rparr>"
  obtain items where items: "lib_inode_scan dir_env = Some items" "scan_blocks_of dir_env items = [5]"
    by (simp add: dir_env_def LINUX_S_ISDIR_def)
  have "dirs_readable dir_env (blocksize ?c) (\<lambda>_. example_dir) (set (scan_blocks_of dir_env items))"
    by (simp add: items dirs_readable_def dir_env_def enc_dir_def length_enc_dirent)
       (simp add: example_dir_def d_rec_def dirent_ok_def base_ctx_def length_enc_dirent)
  moreover have "\<forall>n. malloc_ok dir_env n" "\<not> has_journal ?c" by (simp_all add: dir_env_def ideal_env_def base_ctx_def)
  moreover have "filename_count (names ?c) + length (concat (map (\<lambda>_. example_dir) (scan_blocks_of dir_env items))) \<le> MAX_FILENAME_MAP"
    by (simp add: items st(3) example_dir_def MAX_FILENAME_MAP_def)
  ultimately obtain st' where st': "parse_directory_blocks dir_env ?c = Some (?c\<lparr>names := st'\<rparr>)"
    "\<forall>j. j \<noteq> 0 \<longrightarrow> get_filename_for_inode st' j = Some (dir_map (fm_map (names ?c)) (concat (map (\<lambda>_. example_dir) (scan_blocks_of dir_env items))) j)"
    using parse_directory_blocks_names [of dir_env items ?c "\<lambda>_. example_dir"] items(1) st(1) by auto
  have "dir_map Map.empty example_dir = [12 \<mapsto> ''ab'']"
    by (simp add: dir_map_def example_dir_def d_live_def d_string_def char_of_def bit_0 bit_Suc)
  then have "get_filename_for_inode st' 12 = Some (Some ''ab'')" "get_filename_for_inode st' 2 = Some None"
    using st'(2) st(2) items(2) by simp_all
  then show ?thesis using st'(1) by (intro exI [of _ st] exI [of _ st']) simp
qed

text \<open>The entry loops trust \<open>name_len\<close>: an entry whose name would leave the block is copied nonetheless.\<close>

lemma dir_entry_name_overrun:
  assumes "le32_at buf off \<noteq> 0" "off + 8 + unat (u8_at buf (off + 6)) > length buf" "unat (u8_at buf (off + 6)) > 0"
    "off + 6 \<le> length buf" "le16_at buf (off + 4) \<noteq> 0" "off + unat (le16_at buf (off + 4)) \<le> bsz" "off < bsz"
  shows "dir_entries env None bsz buf off ctx = None"
proof -
  have "dir_entry env None buf off ctx = None" using assms by (simp add: dir_entry_def Let_def)
  then show ?thesis using assms by (subst dir_entries.simps) (simp add: Let_def unat_eq_zero)
qed

end
