(* ===== verification/Checkpoint.thy ===== *)
theory Checkpoint
  imports Recover_IO
begin

text \<open>
  Checkpoints (\<^verbatim>\<open>utils_v5.c\<close>): the progress of a run is printed as a small JSON file into the recovery
  directory and read back line by line with \<open>fgets\<close> and \<open>sscanf\<close>.
\<close>

section \<open>State of a run\<close>

text \<open>The fields of \<open>recover_context\<close> that belong to the run as a whole, around those the phases work on.\<close>

record run_state =
  rcx :: recover_context
  device_name :: string
  mode :: u32
  resume_mode :: bool
  use_parallel :: bool
  checkpoint_journal_offset :: blk64_t
  checkpoint_files_recovered :: u64

definition VERSION :: string where "VERSION = ''0.5''"

definition CHECKPOINT_FILE :: string where "CHECKPOINT_FILE = ''.ext4recover_checkpoint.json''"

section \<open>Text files\<close>

definition bytes_of :: "string \<Rightarrow> buffer" where
  "bytes_of s = map (\<lambda>c. of_nat (of_char c)) s"

definition text_of :: "buffer \<Rightarrow> string" where
  "text_of bs = map (\<lambda>b. char_of (unat b)) bs"

text \<open>\<open>fopen(name, "w")\<close>, \<open>fprintf\<close> of the text and \<open>fclose\<close>; stdio repeats short writes and its errors are ignored.\<close>

definition write_text :: "env \<Rightarrow> recover_context \<Rightarrow> string \<Rightarrow> string \<Rightarrow> recover_context option" where
  "write_text env ctx name txt =
     map_option (\<lambda>ctx1. ctx1\<lparr>files := (files ctx1)(name \<mapsto> snd (write_loop env name 0 (length txt) (bytes_of txt) 0 []))\<rparr>)
       (open_trunc env ctx name)"

text \<open>\<open>fgets(line, n + 1, fp)\<close>: up to \<open>n\<close> characters, ending with a newline.\<close>

fun fgets :: "nat \<Rightarrow> string \<Rightarrow> string \<times> string" where
  "fgets 0 s = ([], s)"
| "fgets (Suc n) [] = ([], [])"
| "fgets (Suc n) (c # cs) =
     (if c = CHR 0x0A then ([c], cs) else (case fgets n cs of (l, rest) \<Rightarrow> (c # l, rest)))"

lemma fgets_rest: "length (snd (fgets n s)) \<le> length s"
  by (induction n s rule: fgets.induct) (auto split: prod.splits)

lemma fgets_less: "(l, rest) = fgets 511 s \<Longrightarrow> s \<noteq> [] \<Longrightarrow> length rest < length s"
proof -
  assume a: "(l, rest) = fgets 511 s" "s \<noteq> []"
  then obtain c cs where s: "s = c # cs" by (cases s) auto
  have "fgets 511 s = (if c = CHR 0x0A then ([c], cs) else (case fgets 510 cs of (l, rest) \<Rightarrow> (c # l, rest)))"
    by (simp add: s numeral_eq_Suc)
  then have "length rest \<le> length cs" using a(1) fgets_rest [of 510 cs] by (auto split: if_splits prod.splits)
  then show ?thesis by (simp add: s)
qed

function fgets_lines :: "string \<Rightarrow> string list" where
  "fgets_lines s = (if s = [] then [] else (case fgets 511 s of (l, rest) \<Rightarrow> l # fgets_lines rest))"
  by pat_completeness auto
termination
  by (relation "measure length") (auto dest: fgets_less)

declare fgets_lines.simps [simp del]

section \<open>The scanner\<close>

definition is_space :: "char \<Rightarrow> bool" where
  "is_space c \<longleftrightarrow> c \<in> {CHR '' '', CHR 0x09, CHR 0x0A, CHR 0x0B, CHR 0x0C, CHR 0x0D}"

text \<open>\<open>sscanf\<close> on the part of a format before the conversion: white space matches any white space.\<close>

fun scan_lit :: "string \<Rightarrow> string \<Rightarrow> string option" where
  "scan_lit [] s = Some s"
| "scan_lit (f # fs) s =
     (if is_space f then scan_lit fs (dropWhile is_space s)
      else case s of [] \<Rightarrow> None | c # cs \<Rightarrow> if c = f then scan_lit fs cs else None)"

text \<open>\<open>%lu\<close> and \<open>%llu\<close>: as \<open>strtoul\<close>, with its saturation.\<close>

definition scan_ulong :: "string \<Rightarrow> u64 option" where
  "scan_ulong s =
     (let s1 = dropWhile is_space s;
          neg = (s1 \<noteq> [] \<and> hd s1 = CHR ''-'');
          s2 = (if s1 \<noteq> [] \<and> (hd s1 = CHR ''-'' \<or> hd s1 = CHR ''+'') then tl s1 else s1);
          ds = takeWhile is_digit s2
      in if ds = [] then None
         else let v = udec_val ds in
           Some (if v \<ge> 2 ^ 64 then - 1 else if neg then - of_nat v else of_nat v))"

text \<open>\<open>atoi\<close>: \<open>strtol\<close> with its saturation, cut to an \<open>int\<close>.\<close>

definition atoi :: "string \<Rightarrow> int" where
  "atoi s =
     (let s1 = dropWhile is_space s;
          neg = (s1 \<noteq> [] \<and> hd s1 = CHR ''-'');
          s2 = (if s1 \<noteq> [] \<and> (hd s1 = CHR ''-'' \<or> hd s1 = CHR ''+'') then tl s1 else s1);
          v = int (udec_val (takeWhile is_digit s2));
          l = (if neg then max (- (2 ^ 63)) (- v) else min (2 ^ 63 - 1) v)
      in sint (word_of_int l :: 32 word))"

text \<open>\<open>%255[^"]\<close>: up to 255 characters before a quote, at least one.\<close>

definition scan_quoted :: "string \<Rightarrow> string option" where
  "scan_quoted s = (let v = take 255 (takeWhile (\<lambda>c. c \<noteq> CHR 0x22) s) in if v = [] then None else Some v)"

definition q :: string where "q = [CHR 0x22]"

definition field :: "string \<Rightarrow> string" where
  "field k = ''  '' @ q @ k @ q @ '': ''"

definition sscanf_ulong :: "string \<Rightarrow> string \<Rightarrow> u64 option" where
  "sscanf_ulong k line = Option.bind (scan_lit (field k) line) scan_ulong"

section \<open>Saving, loading and clearing\<close>

definition NL :: string where "NL = [CHR 0x0A]"

definition checkpoint_lines :: "run_state \<Rightarrow> string list" where
  "checkpoint_lines rs =
     [''{'' @ NL,
      field ''version'' @ q @ VERSION @ q @ '','' @ NL,
      field ''device'' @ q @ device_name rs @ q @ '','' @ NL,
      field ''mode'' @ udec (unat (mode rs)) @ '','' @ NL,
      field ''files_recovered'' @ udec (unat (files_recovered (rcx rs))) @ '','' @ NL,
      field ''journal_recovered'' @ udec (unat (journal_recovered (rcx rs))) @ '','' @ NL,
      field ''orphan_recovered'' @ udec (unat (orphan_recovered (rcx rs))) @ '','' @ NL,
      field ''aggressive_recovered'' @ udec (unat (aggressive_recovered (rcx rs))) @ '','' @ NL,
      field ''journal_offset'' @ udec (unat (checkpoint_journal_offset rs)) @ '','' @ NL,
      field ''total_blocks'' @ udec (unat (total_blocks (rcx rs))) @ NL,
      ''}'' @ NL]"

definition save_checkpoint :: "env \<Rightarrow> run_state \<Rightarrow> int \<times> run_state" where
  "save_checkpoint env rs =
     (case write_text env (rcx rs) CHECKPOINT_FILE (concat (checkpoint_lines rs)) of
        None \<Rightarrow> (-1, rs)
      | Some ctx \<Rightarrow> (0, rs\<lparr>rcx := ctx\<rparr>))"

text \<open>One line; \<open>None\<close> when the device does not match.\<close>

definition load_line :: "string \<Rightarrow> run_state \<Rightarrow> run_state option" where
  "load_line line rs =
     (case sscanf_ulong ''files_recovered'' line of Some v \<Rightarrow> Some (rs\<lparr>checkpoint_files_recovered := v\<rparr>)
      | None \<Rightarrow>
     (case sscanf_ulong ''journal_recovered'' line of Some v \<Rightarrow> Some (rs\<lparr>rcx := (rcx rs)\<lparr>journal_recovered := v\<rparr>\<rparr>)
      | None \<Rightarrow>
     (case sscanf_ulong ''orphan_recovered'' line of Some v \<Rightarrow> Some (rs\<lparr>rcx := (rcx rs)\<lparr>orphan_recovered := v\<rparr>\<rparr>)
      | None \<Rightarrow>
     (case sscanf_ulong ''aggressive_recovered'' line of Some v \<Rightarrow> Some (rs\<lparr>rcx := (rcx rs)\<lparr>aggressive_recovered := v\<rparr>\<rparr>)
      | None \<Rightarrow>
     (case sscanf_ulong ''journal_offset'' line of Some v \<Rightarrow> Some (rs\<lparr>checkpoint_journal_offset := v\<rparr>)
      | None \<Rightarrow>
     (case Option.bind (scan_lit (field ''device'' @ q) line) scan_quoted of
        Some dev \<Rightarrow> if dev \<noteq> device_name rs then None else Some rs
      | None \<Rightarrow> Some rs))))))"

text \<open>The lines in turn; the flag tells whether the end of the file was reached.\<close>

primrec load_lines :: "string list \<Rightarrow> run_state \<Rightarrow> bool \<times> run_state" where
  "load_lines [] rs = (True, rs)"
| "load_lines (l # ls) rs =
     (case load_line (takeWhile (\<lambda>c. c \<noteq> CHR 0x00) l) rs of None \<Rightarrow> (False, rs) | Some rs' \<Rightarrow> load_lines ls rs')"

definition load_checkpoint :: "run_state \<Rightarrow> int \<times> run_state" where
  "load_checkpoint rs =
     (case files (rcx rs) CHECKPOINT_FILE of None \<Rightarrow> (-1, rs)
      | Some f \<Rightarrow>
          case load_lines (fgets_lines (text_of f)) rs of
            (False, rs') \<Rightarrow> (-1, rs')
          | (True, rs') \<Rightarrow> (0, rs'\<lparr>rcx := (rcx rs')\<lparr>files_recovered := checkpoint_files_recovered rs'\<rparr>\<rparr>))"

definition clear_checkpoint :: "run_state \<Rightarrow> run_state" where
  "clear_checkpoint rs = (if files (rcx rs) CHECKPOINT_FILE \<noteq> None then rs\<lparr>rcx := unlink (rcx rs) CHECKPOINT_FILE\<rparr> else rs)"

section \<open>Reading back what was written\<close>

lemma text_of_bytes [simp]: "text_of (bytes_of s) = s"
proof (induction s)
  case (Cons c s)
  have "(of_char c :: nat) < 256" by simp
  then have "char_of (unat (of_nat (of_char c) :: byte)) = c" by (simp add: unat_of_nat)
  then show ?case using Cons by (simp add: text_of_def bytes_of_def)
qed (simp add: text_of_def bytes_of_def)

lemma fgets_line:
  assumes "CHR 0x0A \<notin> set l" "length l < n"
  shows "fgets n (l @ NL @ rest) = (l @ NL, rest)"
  using assms
proof (induction l arbitrary: n)
  case Nil
  then show ?case by (cases n) (auto simp: NL_def)
next
  case (Cons c l)
  then obtain m where m: "n = Suc m" by (cases n) auto
  have "fgets m (l @ NL @ rest) = (l @ NL, rest)" using Cons.IH [of m] Cons.prems m by simp
  then show ?case using Cons.prems m by auto
qed

lemma fgets_lines_concat:
  "list_all (\<lambda>l. \<exists>b. l = b @ NL \<and> CHR 0x0A \<notin> set b \<and> length b < 511) ls \<Longrightarrow> fgets_lines (concat ls) = ls"
proof (induction ls)
  case (Cons l ls)
  then obtain b where b: "l = b @ NL" "CHR 0x0A \<notin> set b" "length b < 511" by auto
  have "fgets_lines (concat (l # ls)) = l # fgets_lines (concat ls)"
    using fgets_line [OF b(2,3), of "concat ls"] b(1) by (subst fgets_lines.simps) (simp add: NL_def)
  then show ?case using Cons by simp
qed (simp add: fgets_lines.simps)

lemma digits_no_space: "list_all is_digit ds \<Longrightarrow> ds \<noteq> [] \<Longrightarrow> dropWhile is_space (ds @ r) = ds @ r"
  by (cases ds) (auto simp: is_space_def is_digit_def)

lemma scan_ulong_udec: "\<not> is_digit c \<Longrightarrow> scan_ulong (udec (unat (v :: u64)) @ c # r) = Some v"
proof -
  assume c: "\<not> is_digit c"
  let ?d = "udec (unat v)"
  have d: "list_all is_digit ?d" "?d \<noteq> []" using udec_digits [of "unat v"] by auto
  have h: "is_digit (hd ?d)" using d by (cases ?d) auto
  have "hd ?d \<noteq> CHR ''-''" "hd ?d \<noteq> CHR ''+''" using h by (auto simp: is_digit_def)
  moreover have "takeWhile is_digit (?d @ c # r) = ?d" using d(1) c by (simp add: takeWhile_append2 list_all_iff)
  moreover have "unat v < 18446744073709551616" using unsigned_less [of v] by simp
  ultimately show ?thesis
    using d digits_no_space [OF d] by (simp add: scan_ulong_def Let_def)
qed

section \<open>The lines of a checkpoint\<close>

lemma drop_digits: "dropWhile is_space (udec n @ r) = udec n @ r"
  using digits_no_space udec_digits by blast

lemma comma_nl: "\<not> is_digit CHR '',''" "\<not> is_digit CHR 0x0A"
  by (simp_all add: is_digit_def)

lemma is_space_eval [simp]:
  "is_space CHR '' ''" "\<not> is_space CHR 0x22" "\<not> is_space CHR '':''" "is_space CHR 0x0A" "\<not> is_space CHR ''{''" "\<not> is_space CHR ''}''"
  by (simp_all add: is_space_def)

lemma load_numbers:
  fixes v :: u64
  shows "load_line (field ''files_recovered'' @ udec (unat v) @ '','' @ NL) rs = Some (rs\<lparr>checkpoint_files_recovered := v\<rparr>)"
    "load_line (field ''journal_recovered'' @ udec (unat v) @ '','' @ NL) rs = Some (rs\<lparr>rcx := (rcx rs)\<lparr>journal_recovered := v\<rparr>\<rparr>)"
    "load_line (field ''orphan_recovered'' @ udec (unat v) @ '','' @ NL) rs = Some (rs\<lparr>rcx := (rcx rs)\<lparr>orphan_recovered := v\<rparr>\<rparr>)"
    "load_line (field ''aggressive_recovered'' @ udec (unat v) @ '','' @ NL) rs = Some (rs\<lparr>rcx := (rcx rs)\<lparr>aggressive_recovered := v\<rparr>\<rparr>)"
    "load_line (field ''journal_offset'' @ udec (unat v) @ '','' @ NL) rs = Some (rs\<lparr>checkpoint_journal_offset := v\<rparr>)"
  by (simp_all add: load_line_def sscanf_ulong_def field_def q_def is_space_def drop_digits scan_ulong_udec [OF comma_nl(1)])

lemma load_others:
  "load_line (''{'' @ NL) rs = Some rs" "load_line (''}'' @ NL) rs = Some rs"
  "load_line (field ''version'' @ q @ s) rs = Some rs"
  "load_line (field ''mode'' @ s) rs = Some rs"
  "load_line (field ''total_blocks'' @ s) rs = Some rs"
  by (simp_all add: load_line_def sscanf_ulong_def field_def q_def is_space_def NL_def)

lemma load_device:
  assumes "device_name rs \<noteq> []" "length (device_name rs) \<le> 255" "CHR 0x22 \<notin> set (device_name rs)"
  shows "load_line (field ''device'' @ q @ device_name rs @ q @ '','' @ NL) rs = Some rs"
proof -
  have "takeWhile (\<lambda>c. c \<noteq> CHR 0x22) (device_name rs @ CHR 0x22 # r) = device_name rs" for r
    using assms(3) by (subst takeWhile_append2) auto
  then have "scan_quoted (device_name rs @ CHR 0x22 # r) = Some (device_name rs)" for r
    using assms(1,2) by (simp add: scan_quoted_def Let_def)
  then show ?thesis by (simp add: load_line_def sscanf_ulong_def field_def q_def is_space_def)
qed

lemma udec_chars: "CHR 0x0A \<notin> set (udec n)" "CHR 0x00 \<notin> set (udec n)"
  using udec_digits [of n] by (auto simp: list_all_iff is_digit_def)

lemma udec_short: "20 < k \<Longrightarrow> length (udec (unat (v :: u64))) < k" "20 < k \<Longrightarrow> length (udec (unat (m :: u32))) < k"
proof -
  have "unat v < 18446744073709551616" "unat m < 4294967296" using unsigned_less [of v] unsigned_less [of m] by simp_all
  then have "length (udec (unat v)) \<le> 20" "length (udec (unat m)) \<le> 20"
    using udec_length [of "unat v" 20] udec_length [of "unat m" 20] by simp_all
  then show "20 < k \<Longrightarrow> length (udec (unat v)) < k" "20 < k \<Longrightarrow> length (udec (unat m)) < k" by simp_all
qed

definition device_ok :: "string \<Rightarrow> bool" where
  "device_ok d \<longleftrightarrow> d \<noteq> [] \<and> length d \<le> 255 \<and> set d \<inter> {CHR 0x22, CHR 0x0A, CHR 0x00} = {}"

lemma checkpoint_lines_shape:
  assumes "device_ok (device_name rs)"
  shows "list_all (\<lambda>l. \<exists>b. l = b @ NL \<and> CHR 0x0A \<notin> set b \<and> length b < 511) (checkpoint_lines rs)"
    "list_all (\<lambda>l. takeWhile (\<lambda>c. c \<noteq> CHR 0x00) l = l) (checkpoint_lines rs)"
proof -
  have shape: "l = butlast l @ NL \<and> CHR 0x0A \<notin> set (butlast l) \<and> length (butlast l) < 511" if "l \<in> set (checkpoint_lines rs)" for l
    using that assms
    by (auto simp: checkpoint_lines_def NL_def field_def q_def VERSION_def butlast_append device_ok_def udec_chars udec_short)
  show "list_all (\<lambda>l. \<exists>b. l = b @ NL \<and> CHR 0x0A \<notin> set b \<and> length b < 511) (checkpoint_lines rs)"
    using shape unfolding list_all_iff by blast
  have "CHR 0x00 \<notin> set l" if "l \<in> set (checkpoint_lines rs)" for l
    using that assms udec_chars(2) by (auto simp: checkpoint_lines_def NL_def field_def q_def VERSION_def device_ok_def)
  then show "list_all (\<lambda>l. takeWhile (\<lambda>c. c \<noteq> CHR 0x00) l = l) (checkpoint_lines rs)"
    by (auto simp: list_all_iff takeWhile_eq_all_conv)
qed

lemma load_saved_lines:
  assumes "device_ok (device_name rs)" "device_name rs2 = device_name rs"
  shows "load_lines (checkpoint_lines rs) rs2 =
    (True, rs2\<lparr>checkpoint_files_recovered := files_recovered (rcx rs), checkpoint_journal_offset := checkpoint_journal_offset rs,
       rcx := (rcx rs2)\<lparr>journal_recovered := journal_recovered (rcx rs), orphan_recovered := orphan_recovered (rcx rs),
          aggressive_recovered := aggressive_recovered (rcx rs)\<rparr>\<rparr>)"
proof -
  have t: "\<And>l. l \<in> set (checkpoint_lines rs) \<Longrightarrow> takeWhile (\<lambda>c. c \<noteq> CHR 0x00) l = l"
    using checkpoint_lines_shape(2) [OF assms(1)] by (auto simp: list_all_iff)
  note t' = t [unfolded checkpoint_lines_def, simplified list.set insert_iff empty_iff simp_thms]
  have step: "load_lines (l # ls) r = (case load_line l r of None \<Rightarrow> (False, r) | Some r' \<Rightarrow> load_lines ls r')"
    if "takeWhile (\<lambda>c. c \<noteq> CHR 0x00) l = l" for l ls r
    using that by (simp only: load_lines.simps)
  have dev: "load_line (field ''device'' @ q @ device_name rs @ q @ '','' @ NL) r = Some r" if "device_name r = device_name rs" for r
    using load_device [of r] assms(1) that by (auto simp: device_ok_def)
  show ?thesis
    unfolding checkpoint_lines_def
    by (simp only: step t' simp_thms load_others load_numbers option.case dev assms(2) load_lines.simps(1) run_state.simps) simp
qed

section \<open>Properties\<close>

text \<open>Property C17: a checkpoint restores the run.  After a successful save, loading from that file into any state of
  a run on the same device succeeds and brings back the journal offset and the four counters that are saved (\<open>files_failed\<close> is not), for
  every device name of at most 255 characters without quotes and line breaks.\<close>

theorem checkpoint_roundtrip:
  assumes "device_ok (device_name rs)" and "out_faithful env" and "out_open env CHECKPOINT_FILE"
  shows "\<exists>rs1. save_checkpoint env rs = (0, rs1) \<and>
    (\<forall>rs2. device_name rs2 = device_name rs \<longrightarrow> files (rcx rs2) CHECKPOINT_FILE = files (rcx rs1) CHECKPOINT_FILE \<longrightarrow>
       load_checkpoint rs2 =
         (0, rs2\<lparr>checkpoint_files_recovered := files_recovered (rcx rs), checkpoint_journal_offset := checkpoint_journal_offset rs,
               rcx := (rcx rs2)\<lparr>files_recovered := files_recovered (rcx rs), journal_recovered := journal_recovered (rcx rs),
                 orphan_recovered := orphan_recovered (rcx rs), aggressive_recovered := aggressive_recovered (rcx rs)\<rparr>\<rparr>))"
proof -
  let ?t = "concat (checkpoint_lines rs)"
  have w: "write_loop env CHECKPOINT_FILE 0 (length ?t) (bytes_of ?t) 0 [] = (True, bytes_of ?t)"
    using write_loop_ok [OF assms(2), of 0 "length ?t" "bytes_of ?t" CHECKPOINT_FILE 0 "[]"]
    by (simp add: bytes_of_def file_write_def)
  obtain rs1 where rs1: "save_checkpoint env rs = (0, rs1)" "files (rcx rs1) CHECKPOINT_FILE = Some (bytes_of ?t)"
    using assms(3) w by (simp add: save_checkpoint_def write_text_def open_trunc_def)
  have "fgets_lines (text_of (bytes_of ?t)) = checkpoint_lines rs"
    using fgets_lines_concat [OF checkpoint_lines_shape(1) [OF assms(1)]] by simp
  then show ?thesis
    using rs1 load_saved_lines [OF assms(1)] by (intro exI [of _ rs1]) (simp add: load_checkpoint_def)
qed

definition run_example :: run_state where
  "run_example = \<lparr>rcx = (base_ctx 24 3)\<lparr>files_recovered := 7, journal_recovered := 5\<rparr>, device_name = ''/dev/sda1'', mode = 4,
     resume_mode = False, use_parallel = False, checkpoint_journal_offset = 9, checkpoint_files_recovered = 0\<rparr>"

theorem checkpoint_roundtrip_witness:
  "\<exists>rs1 rs3. save_checkpoint (ideal_env []) run_example = (0, rs1) \<and>
     load_checkpoint (rs1\<lparr>rcx := (rcx rs1)\<lparr>files_recovered := 0, journal_recovered := 0\<rparr>, checkpoint_journal_offset := 0\<rparr>) = (0, rs3) \<and>
     files_recovered (rcx rs3) = 7 \<and> journal_recovered (rcx rs3) = 5 \<and> checkpoint_journal_offset rs3 = 9"
proof -
  have d: "device_ok (device_name run_example)" "device_name run_example = ''/dev/sda1''" by (simp_all add: run_example_def device_ok_def)
  have o: "out_open (ideal_env []) CHECKPOINT_FILE" by (simp add: ideal_env_def)
  obtain rs1 where rs1: "save_checkpoint (ideal_env []) run_example = (0, rs1)"
    "\<And>rs2. device_name rs2 = device_name run_example \<Longrightarrow> files (rcx rs2) CHECKPOINT_FILE = files (rcx rs1) CHECKPOINT_FILE \<Longrightarrow>
       \<exists>rs3. load_checkpoint rs2 = (0, rs3) \<and> files_recovered (rcx rs3) = files_recovered (rcx run_example) \<and>
         journal_recovered (rcx rs3) = journal_recovered (rcx run_example) \<and>
         checkpoint_journal_offset rs3 = checkpoint_journal_offset run_example"
    using checkpoint_roundtrip [OF d(1) ideal_env_faithful(2) o] by auto
  have "device_name rs1 = device_name run_example"
    using rs1(1) by (auto simp: save_checkpoint_def split: option.splits)
  then show ?thesis
    using rs1(2) [of "rs1\<lparr>rcx := (rcx rs1)\<lparr>files_recovered := 0, journal_recovered := 0\<rparr>, checkpoint_journal_offset := 0\<rparr>"] rs1(1)
    by (auto simp: run_example_def)
qed

end
