(* ===== verification/Recovery_Manifest.thy ===== *)
theory Recovery_Manifest
  imports Checkpoint
begin

text \<open>
  The report of a run (\<^verbatim>\<open>content_probe.c\<close>): \<open>manifest.tsv\<close> lists every output with its size, a
  fingerprint, a type guessed from its first bytes and a confidence.  The order of \<open>readdir\<close>,
  the success of \<open>fopen\<close> and the floating-point entropy of a header are parameters.
\<close>

section \<open>Types by signature\<close>

text \<open>A row of \<open>magic_table\<close>: offset, length, the bytes of the literal with its terminating zero, label.\<close>

record magic_entry =
  m_offset :: nat
  m_len :: nat
  m_sig :: "byte list"
  m_label :: string

definition SIG :: "nat \<Rightarrow> byte list \<Rightarrow> string \<Rightarrow> magic_entry" where
  "SIG n bs l = \<lparr>m_offset = 0, m_len = n, m_sig = bs @ [0], m_label = l\<rparr>"

definition magic_table :: "magic_entry list" where
  "magic_table =
     [SIG 4 [0xFF, 0xD8, 0xFF] ''jpeg'',
      SIG 8 [0x89, 0x50, 0x4E, 0x47, 0x0D, 0x0A, 0x1A, 0x0A] ''png'',
      SIG 4 (bytes_of ''GIF8'') ''gif'',
      SIG 4 (bytes_of ''RIFF'') ''riff'',
      SIG 4 (bytes_of ''ftyp'') ''mp4'',
      SIG 4 [0x1A, 0x45, 0xDF, 0xA3] ''mkv'',
      SIG 4 [0x50, 0x4B, 0x03, 0x04] ''zip'',
      SIG 6 (bytes_of ''Rar!'' @ [0x1A, 0x07]) ''rar'',
      SIG 3 [0x1F, 0x8B, 0x08] ''gzip'',
      SIG 6 [0x37, 0x7A, 0xBC, 0xAF, 0x27, 0x1C] ''7zip'',
      SIG 4 (bytes_of ''%PDF'') ''pdf'',
      SIG 8 [0xD0, 0xCF, 0x11, 0xE0] ''msdoc'',
      SIG 4 (bytes_of ''SQLi'') ''sqlite3'',
      SIG 4 (0x7F # bytes_of ''ELF'') ''elf'',
      SIG 4 [0x4D, 0x5A, 0x90, 0x00] ''pe'',
      SIG 4 [0xCA, 0xFE, 0xBA, 0xBE] ''java_class'',
      SIG 4 (bytes_of ''OTTO'') ''otf'',
      SIG 4 (bytes_of ''wOFF'') ''woff'',
      SIG 2 (bytes_of ''BM'') ''bmp'',
      SIG 4 (bytes_of ''ID3'' @ [0x03]) ''mp3'',
      SIG 4 (bytes_of ''OggS'') ''ogg'',
      SIG 4 (bytes_of ''fLaC'') ''flac'']"

text \<open>\<open>memcmp(hdr + offset, sig, len) == 0\<close>, compared from the front; reading past the literal is undefined.\<close>

definition sig_matches :: "magic_entry \<Rightarrow> buffer \<Rightarrow> bool ub" where
  "sig_matches m hdr =
     (let n = min (m_len m) (length (m_sig m)) in
      if sub_buf hdr (m_offset m) n \<noteq> take n (m_sig m) then Some False
      else if m_len m > length (m_sig m) then None
      else Some True)"

primrec probe_loop :: "magic_entry list \<Rightarrow> buffer \<Rightarrow> string option ub" where
  "probe_loop [] hdr = Some None"
| "probe_loop (m # ms) hdr =
     (if m_offset m + m_len m > length hdr then probe_loop ms hdr
      else case sig_matches m hdr of None \<Rightarrow> None
           | Some True \<Rightarrow> Some (Some (m_label m))
           | Some False \<Rightarrow> probe_loop ms hdr)"

definition probe_type :: "buffer \<Rightarrow> string option ub" where
  "probe_type hdr = probe_loop magic_table hdr"

section \<open>Rows\<close>

text \<open>\<open>h = ((h << 5) + h) ^ c\<close>, and \<open>%08lx\<close> of its low half.\<close>

definition fingerprint :: "buffer \<Rightarrow> u64" where
  "fingerprint f = foldl (\<lambda>h c. (push_bit 5 h + h) XOR ucast c) 5381 f"

definition hex_digit :: "nat \<Rightarrow> char" where
  "hex_digit d = (if d < 10 then char_of (48 + d) else char_of (87 + d))"

definition hex8 :: "nat \<Rightarrow> string" where
  "hex8 n = map (\<lambda>i. hex_digit (n div 16 ^ (7 - i) mod 16)) [0..<8]"

definition TAB :: string where "TAB = [CHR 0x09]"

definition manifest_row :: "(buffer \<Rightarrow> int) \<Rightarrow> string \<Rightarrow> buffer \<Rightarrow> string ub" where
  "manifest_row entropy name f =
     (let hdr = take 256 f in
      map_option (\<lambda>type.
        name @ TAB @ udec (length f) @ TAB @
        ''crc32like_'' @ hex8 (unat (fingerprint f AND 0xFFFFFFFF)) @ TAB @
        (case type of None \<Rightarrow> ''unknown'' | Some t \<Rightarrow> t) @ TAB @
        (if type \<noteq> None \<or> entropy hdr < 6800 then ''high'' else ''low'') @ NL)
        (probe_type hdr))"

definition manifest_name :: string where "manifest_name = ''manifest.tsv''"

primrec manifest_rows ::
  "(buffer \<Rightarrow> int) \<Rightarrow> (string \<Rightarrow> bool) \<Rightarrow> recover_context \<Rightarrow> string list \<Rightarrow> string ub" where
  "manifest_rows entropy in_open ctx [] = Some []"
| "manifest_rows entropy in_open ctx (name # ns) =
     (if name \<noteq> [] \<and> hd name = CHR ''.'' \<or> name = manifest_name then manifest_rows entropy in_open ctx ns
      else case files ctx name of None \<Rightarrow> manifest_rows entropy in_open ctx ns
      | Some f \<Rightarrow>
          if f = [] \<or> \<not> in_open name then manifest_rows entropy in_open ctx ns
          else case manifest_row entropy name f of None \<Rightarrow> None
               | Some row \<Rightarrow> map_option (\<lambda>rest. row @ rest) (manifest_rows entropy in_open ctx ns))"

definition manifest_header :: string where
  "manifest_header = ''filename'' @ TAB @ ''size'' @ TAB @ ''md5'' @ TAB @ ''type'' @ TAB @ ''confidence'' @ NL"

text \<open>\<open>dir\<close>: the names \<open>readdir\<close> returns, \<open>None\<close> when the directory cannot be opened.\<close>

definition write_manifest ::
  "env \<Rightarrow> (buffer \<Rightarrow> int) \<Rightarrow> (string \<Rightarrow> bool) \<Rightarrow> string list option \<Rightarrow> recover_context \<Rightarrow> recover_context ub" where
  "write_manifest env entropy in_open dir ctx =
     (case open_trunc env ctx manifest_name of None \<Rightarrow> Some ctx
      | Some ctx1 \<Rightarrow>
          map_option (\<lambda>rows.
            let txt = manifest_header @ rows in
            ctx1\<lparr>files := (files ctx1)(manifest_name \<mapsto> snd (write_loop env manifest_name 0 (length txt) (bytes_of txt) 0 []))\<rparr>)
            (case dir of None \<Rightarrow> Some [] | Some ns \<Rightarrow> manifest_rows entropy in_open ctx1 ns))"

section \<open>Facts\<close>

text \<open>The manifest is pure annotation: no other output changes.\<close>

lemma write_manifest_frame: "write_manifest env e io d c = Some c' \<Longrightarrow> n \<noteq> manifest_name \<Longrightarrow> files c' n = files c n"
  by (auto simp: write_manifest_def open_trunc_def Let_def split: if_splits option.splits)

text \<open>A recovered file with the name of the manifest is lost.\<close>

lemma write_manifest_clobbers:
  assumes "files ctx manifest_name = Some f" "out_open env manifest_name" "out_faithful env"
  shows "write_manifest env e io None ctx = Some (ctx\<lparr>files := (files ctx)(manifest_name \<mapsto> bytes_of manifest_header)\<rparr>)"
proof -
  let ?t = manifest_header
  have "write_loop env manifest_name 0 (length ?t) (bytes_of ?t) 0 [] = (True, bytes_of ?t)"
    using write_loop_ok [OF assms(3), of 0 "length ?t" "bytes_of ?t" manifest_name 0 "[]"]
    by (simp add: bytes_of_def file_write_def)
  then show ?thesis using assms(2) by (simp add: write_manifest_def open_trunc_def)
qed

text \<open>The length of the first row counts the terminating zero of its literal, so no JPEG file with a
  segment marker after \<open>FF D8 FF\<close> is recognised.\<close>

lemma jpeg_not_recognised:
  assumes "c \<noteq> 0"
  shows "probe_type (0xFF # 0xD8 # 0xFF # c # r) = Some None"
  using assms
  by (simp add: probe_type_def magic_table_def SIG_def sig_matches_def sub_buf_def bytes_of_def Let_def)

text \<open>The row for OLE documents compares eight bytes with a literal of five.\<close>

lemma msdoc_overrun: "probe_type ([0xD0, 0xCF, 0x11, 0xE0, 0, a, b, d] @ r) = None"
  by (simp add: probe_type_def magic_table_def SIG_def sig_matches_def sub_buf_def bytes_of_def Let_def)

end
