(* ===== verification/Main_Driver.thy ===== *)
theory Main_Driver
  imports Journal_Scan Parallel_Scan Orphans Revoke_Scan Dirents Recovery_Manifest
begin

text \<open>
  The program (\<^verbatim>\<open>main\<close> of \<^verbatim>\<open>ext4recover_v5.c\<close>): command line, set-up, the five recovery phases with a checkpoint
  after each, and the clean-up.  A run is a relation between its inputs and its possible results,
  because the aggressive phase may use threads.
\<close>

section \<open>Command line\<close>

definition RECOVER_MODE_NORMAL :: u32 where "RECOVER_MODE_NORMAL = 0x01"
definition RECOVER_MODE_ORPHAN :: u32 where "RECOVER_MODE_ORPHAN = 0x02"
definition RECOVER_MODE_JOURNAL :: u32 where "RECOVER_MODE_JOURNAL = 0x04"
definition RECOVER_MODE_AGGRESSIVE :: u32 where "RECOVER_MODE_AGGRESSIVE = 0x08"
definition RECOVER_MODE_TARGETED :: u32 where "RECOVER_MODE_TARGETED = 0x10"
definition RECOVER_MODE_ALL :: u32 where "RECOVER_MODE_ALL = 0xFF"

lemmas mode_defs = RECOVER_MODE_NORMAL_def RECOVER_MODE_ORPHAN_def RECOVER_MODE_JOURNAL_def RECOVER_MODE_AGGRESSIVE_def
  RECOVER_MODE_TARGETED_def RECOVER_MODE_ALL_def

record options =
  o_mode :: u32
  o_resume :: bool
  o_verbose :: bool
  o_trim :: bool
  o_parallel :: bool
  o_workers :: int
  o_dir :: string
  o_device :: "string option"

definition default_options :: options where
  "default_options = \<lparr>o_mode = RECOVER_MODE_JOURNAL, o_resume = False, o_verbose = False, o_trim = False, o_parallel = False,
     o_workers = 0, o_dir = ''./RECOVER'', o_device = None\<rparr>"

datatype cli = Run options | Exit int

fun parse_args :: "string list \<Rightarrow> options \<Rightarrow> cli" where
  "parse_args [] o' = (if o_device o' = None then Exit 1 else Run o')"
| "parse_args (a # as) o' =
     (if a = ''--normal'' then parse_args as (o'\<lparr>o_mode := RECOVER_MODE_NORMAL\<rparr>)
      else if a = ''--journal'' then parse_args as (o'\<lparr>o_mode := RECOVER_MODE_JOURNAL\<rparr>)
      else if a = ''--orphan'' then parse_args as (o'\<lparr>o_mode := RECOVER_MODE_ORPHAN\<rparr>)
      else if a = ''--aggressive'' then parse_args as (o'\<lparr>o_mode := RECOVER_MODE_AGGRESSIVE\<rparr>)
      else if a = ''--all'' then parse_args as (o'\<lparr>o_mode := RECOVER_MODE_ALL\<rparr>)
      else if a = ''--resume'' then parse_args as (o'\<lparr>o_resume := True\<rparr>)
      else if a = ''--verbose'' then parse_args as (o'\<lparr>o_verbose := True\<rparr>)
      else if a = ''--trim'' then parse_args as (o'\<lparr>o_trim := True\<rparr>)
      else if a = ''--targeted'' then parse_args as (o'\<lparr>o_mode := o_mode o' OR RECOVER_MODE_TARGETED\<rparr>)
      else if a = ''--parallel'' then parse_args as (o'\<lparr>o_parallel := True\<rparr>)
      else if a = ''--workers'' then
        (case as of [] \<Rightarrow> parse_args [] o' | n # as' \<Rightarrow> parse_args as' (o'\<lparr>o_workers := atoi n\<rparr>))
      else if a = ''--dir'' then
        (case as of [] \<Rightarrow> parse_args [] o' | d # as' \<Rightarrow> parse_args as' (o'\<lparr>o_dir := take 255 d\<rparr>))
      else if a = ''--version'' then Exit 0
      else if a = ''--help'' then Exit 0
      else if a = [] \<or> hd a \<noteq> CHR ''-'' then parse_args as (o'\<lparr>o_device := Some a\<rparr>)
      else Exit 1)"

section \<open>Set-up\<close>

text \<open>What the operating system and libext2fs report to \<open>main\<close>.\<close>

record host =
  h_fs :: "(nat \<times> blk64_t \<times> super_block \<times> u32) option"
  h_dev_open :: bool
  h_stat_dir :: "nat option"
  h_stat_dev :: "(bool \<times> nat) option"
  h_first :: blk64_t
  h_ncpu :: int
  h_readdir :: "(string \<Rightarrow> buffer option) \<Rightarrow> string list option"
  h_in_open :: "string \<Rightarrow> bool"
  h_entropy :: "buffer \<Rightarrow> int"

definition is_on_device :: "nat option \<Rightarrow> (bool \<times> nat) option \<Rightarrow> int" where
  "is_on_device stat1 stat2 =
     (case stat1 of None \<Rightarrow> -1
      | Some st_dev \<Rightarrow> case stat2 of None \<Rightarrow> -1
        | Some (is_blk, st_rdev) \<Rightarrow> if is_blk \<and> st_dev = st_rdev then 1 else 0)"

text \<open>\<open>has_bigalloc\<close> and \<open>cluster_ratio\<close>; a shift by 31 or more is undefined.\<close>

definition init_cluster_info :: "super_block \<Rightarrow> (bool \<times> int) ub" where
  "init_cluster_info sb =
     (if s_log_cluster_size sb > s_log_block_size sb then
        (let k = unat (s_log_cluster_size sb - s_log_block_size sb) in if k \<ge> 31 then None else Some (True, 2 ^ k))
      else Some (False, 1))"

definition start_run :: "options \<Rightarrow> (string \<Rightarrow> buffer option) \<Rightarrow> run_state" where
  "start_run o' files0 =
     (let rs = \<lparr>rcx = (base_ctx 0 0)\<lparr>recovered_extents := None, files := files0\<rparr>,
                device_name = (case o_device o' of None \<Rightarrow> [] | Some d \<Rightarrow> d), mode = o_mode o', resume_mode = o_resume o',
                use_parallel = o_parallel o', checkpoint_journal_offset = 0, checkpoint_files_recovered = 0\<rparr>
      in if o_resume o' then
           (case load_checkpoint rs of (r, rs') \<Rightarrow> if r = 0 then rs' else rs'\<lparr>resume_mode := False\<rparr>)
         else rs)"

definition open_context :: "env \<Rightarrow> nat \<times> blk64_t \<times> super_block \<times> u32 \<Rightarrow> recover_context \<Rightarrow> recover_context" where
  "open_context env fs ctx =
     (case fs of (bsz, blocks, sb, groups) \<Rightarrow>
       ctx\<lparr>blocksize := bsz, total_blocks := blocks, super := sb, group_desc_count := groups,
           recovered_extents := intervals_init (malloc_ok env (INITIAL_CAPACITY * 8)), caps := fs_capabilities_detect sb\<rparr>)"

definition setup_journal :: "env \<Rightarrow> u32 \<Rightarrow> recover_context \<Rightarrow> recover_context" where
  "setup_journal env md ctx =
     (if md AND RECOVER_MODE_JOURNAL \<noteq> 0 then
        (case init_journal env ctx of (r, ctx1) \<Rightarrow>
           if r = 0 then ctx1\<lparr>jindex := snd (journal_index_build (malloc_ok env 16) (has_journal ctx1) (jindex ctx1))\<rparr> else ctx1)
      else ctx)"

definition setup_names :: "env \<Rightarrow> recover_context \<Rightarrow> recover_context ub" where
  "setup_names env ctx =
     (case init_filename_map (malloc_ok env (4096 * 260)) (malloc_ok env (8192 * 4)) (names ctx) of None \<Rightarrow> None
      | Some (r, st) \<Rightarrow>
          if r = 0 then Option.bind (parse_directory_blocks env (ctx\<lparr>names := st\<rparr>)) (scan_ghost_dirents env)
          else Some (ctx\<lparr>names := st\<rparr>))"

section \<open>Phases\<close>

definition checkpointed :: "env \<Rightarrow> run_state \<Rightarrow> recover_context \<Rightarrow> run_state" where
  "checkpointed env rs ctx = snd (save_checkpoint env (rs\<lparr>rcx := ctx\<rparr>))"

definition phase_orphan :: "env \<Rightarrow> run_state \<Rightarrow> run_state ub" where
  "phase_orphan env rs =
     (if mode rs AND RECOVER_MODE_ORPHAN \<noteq> 0 then
        map_option (\<lambda>(_, ctx). checkpointed env rs ctx)
          (if has_orphan_file (caps (rcx rs)) then recover_orphan_file env (rcx rs) else recover_orphan_list env (rcx rs))
      else Some rs)"

definition phase_journal :: "env \<Rightarrow> run_state \<Rightarrow> run_state ub" where
  "phase_journal env rs =
     (if mode rs AND RECOVER_MODE_JOURNAL \<noteq> 0 then
        map_option (\<lambda>(_, ctx). checkpointed env rs ctx) (recover_from_journal env (rcx rs))
      else Some rs)"

definition normal_visit :: "env \<Rightarrow> u32 \<Rightarrow> ext2_inode \<Rightarrow> recover_context \<Rightarrow> recover_context ub" where
  "normal_visit env icount inode ctx =
     (if icount < 3 then Some ctx
      else if \<not> LINUX_S_ISREG (i_mode inode) then Some ctx
      else if i_links_count inode \<noteq> 0 then Some ctx
      else if i_flags inode AND EXT4_EXTENTS_FL = 0 then Some ctx
      else if eh_magic (header_at (i_block inode)) \<noteq> EXT4_EXT_MAGIC then Some ctx
      else case recover_from_extent_tree env ctx icount of None \<Rightarrow> None
           | Some (r, ctx') \<Rightarrow>
               Some (if r = 0 then ctx'\<lparr>files_recovered := files_recovered ctx' + 1\<rparr>
                     else ctx'\<lparr>files_failed := files_failed ctx' + 1\<rparr>))"

fun normal_scan :: "env \<Rightarrow> scan_item list \<Rightarrow> recover_context \<Rightarrow> recover_context ub" where
  "normal_scan env (Scan_bad_block # items) ctx = normal_scan env items ctx"
| "normal_scan env (Scan_inode icount inode # items) ctx =
     (if icount = 0 then Some ctx
      else case normal_visit env icount inode ctx of None \<Rightarrow> None | Some ctx' \<Rightarrow> normal_scan env items ctx')"
| "normal_scan env (Scan_error # items) ctx = Some ctx"
| "normal_scan env [] ctx = Some ctx"

definition phase_normal :: "env \<Rightarrow> run_state \<Rightarrow> run_state ub" where
  "phase_normal env rs =
     (if mode rs AND RECOVER_MODE_NORMAL \<noteq> 0 then
        map_option (checkpointed env rs)
          (case lib_inode_scan env of None \<Rightarrow> Some (rcx rs) | Some items \<Rightarrow> normal_scan env items (rcx rs))
      else Some rs)"

definition phase_aggressive :: "env \<Rightarrow> host \<Rightarrow> int \<Rightarrow> run_state \<Rightarrow> run_state \<Rightarrow> bool" where
  "phase_aggressive env h n_workers rs rs' \<longleftrightarrow>
     (if mode rs AND RECOVER_MODE_AGGRESSIVE \<noteq> 0 then
        \<exists>r ctx. aggressive_scan env (rcx rs) (h_first h) (total_blocks (rcx rs)) (use_parallel rs) n_workers (h_ncpu h) r ctx \<and>
          rs' = checkpointed env rs ctx
      else rs' = rs)"

definition phase_targeted :: "env \<Rightarrow> run_state \<Rightarrow> run_state ub" where
  "phase_targeted env rs =
     (if mode rs AND RECOVER_MODE_TARGETED \<noteq> 0 then
        map_option (\<lambda>(_, ctx). checkpointed env rs ctx) (recover_from_revoke env (rcx rs))
      else Some rs)"

definition phases :: "env \<Rightarrow> host \<Rightarrow> int \<Rightarrow> run_state \<Rightarrow> run_state \<Rightarrow> bool" where
  "phases env h n_workers rs rs' \<longleftrightarrow>
     (\<exists>rs1 rs2 rs3 rs4. phase_orphan env rs = Some rs1 \<and> phase_journal env rs1 = Some rs2 \<and> phase_normal env rs2 = Some rs3 \<and>
        phase_aggressive env h n_workers rs3 rs4 \<and> phase_targeted env rs4 = Some rs')"

definition finish_run :: "env \<Rightarrow> host \<Rightarrow> run_state \<Rightarrow> recover_context ub" where
  "finish_run env h rs =
     map_option (\<lambda>ctx1.
        let ctx2 = rcx (clear_checkpoint (rs\<lparr>rcx := ctx1\<rparr>));
            ctx3 = ctx2\<lparr>recovered_extents := None, names := free_filename_map (names ctx2), jindex := journal_index_free (jindex ctx2)\<rparr>
        in if has_journal ctx3 then close_journal ctx3 else ctx3)
       (write_manifest env (h_entropy h) (h_in_open h) (h_readdir h (files (rcx rs))) (rcx rs))"

text \<open>The possible results of a run: exit status and context.\<close>

definition main_run ::
  "env \<Rightarrow> host \<Rightarrow> string list \<Rightarrow> (string \<Rightarrow> buffer option) \<Rightarrow> int \<Rightarrow> recover_context \<Rightarrow> bool" where
  "main_run env h args files0 r ctx' \<longleftrightarrow>
     (case parse_args args default_options of
        Exit code \<Rightarrow> r = code \<and> ctx' = (base_ctx 0 0)\<lparr>files := files0\<rparr>
      | Run o' \<Rightarrow>
          (let rs = start_run o' files0 in
           case h_fs h of None \<Rightarrow> r = 1 \<and> ctx' = rcx rs
           | Some fs \<Rightarrow>
               (let ctx1 = open_context env fs (rcx rs) in
                init_cluster_info (super ctx1) \<noteq> None \<and>
                (if \<not> h_dev_open h then r = 1 \<and> ctx' = ctx1
                 else if is_on_device (h_stat_dir h) (h_stat_dev h) = 1 then r = 1 \<and> ctx' = ctx1
                 else \<exists>ctx2 rs2. setup_names env (setup_journal env (mode rs) ctx1) = Some ctx2 \<and>
                    phases env h (o_workers o') (rs\<lparr>rcx := ctx2\<rparr>) rs2 \<and>
                    finish_run env h rs2 = Some ctx' \<and> r = 0))))"

section \<open>What a run keeps\<close>

text \<open>
  The names the program writes without looking at what is there.  The leaf blocks found by the aggressive and by the targeted
  phase truncate their outputs, so the flag says whether one of these phases is on.
\<close>

definition own_name :: "bool \<Rightarrow> string \<Rightarrow> bool" where
  "own_name g n \<longleftrightarrow> n = CHECKPOINT_FILE \<or> n = manifest_name \<or> g \<and> agg_name n"

definition agg_mode :: "u32 \<Rightarrow> bool" where
  "agg_mode m \<longleftrightarrow> m AND RECOVER_MODE_AGGRESSIVE \<noteq> 0 \<or> m AND RECOVER_MODE_TARGETED \<noteq> 0"

definition preserves :: "bool \<Rightarrow> recover_context \<Rightarrow> recover_context \<Rightarrow> bool" where
  "preserves g c c' \<longleftrightarrow> (\<forall>n f. \<not> own_name g n \<longrightarrow> files c n = Some f \<longrightarrow> f \<noteq> [] \<longrightarrow> files c' n = Some f)"

lemma preserves_refl [simp, intro]: "preserves g c c"
  by (simp add: preserves_def)

lemma preserves_trans [trans]: "preserves g a b \<Longrightarrow> preserves g b c \<Longrightarrow> preserves g a c"
  by (simp add: preserves_def)

lemma preserves_files: "files c' = files c \<Longrightarrow> preserves g c c'"
  by (simp add: preserves_def)

lemma preserves_from:
  "keeps_outputs c c' \<Longrightarrow> preserves g c c'" "agg_files c c' \<Longrightarrow> preserves True c c'" "revoke_keeps c c' \<Longrightarrow> preserves True c c'"
  "only_names c c' \<Longrightarrow> preserves g c c'"
  unfolding preserves_def
  subgoal by (simp add: keeps_outputs_def)
  subgoal by (simp add: agg_files_def own_name_def)
  subgoal by (simp add: revoke_keeps_def own_name_def) metis
  subgoal by (simp add: only_names_def) (metis (no_types, lifting) recover_context.select_convs(15) recover_context.surjective recover_context.update_convs(8))
  done

lemma agg_files_refl [simp, intro]: "agg_files c c"
  by (simp add: agg_files_def)

lemma agg_files_trans [trans]: "agg_files a b \<Longrightarrow> agg_files b c \<Longrightarrow> agg_files a c"
  by (simp add: agg_files_def)

lemma scan_blocks_files: "scan_blocks env bs s = Some s' \<Longrightarrow> agg_files (fst s) (fst s')"
proof (induction bs arbitrary: s)
  case (Cons b bs)
  have one: "scan_block env b s = Some s1 \<Longrightarrow> agg_files (fst s) (fst s1)" for s1
    using recover_block_files by (cases s) (auto simp: scan_block_def split: option.splits bool.splits if_splits)
  obtain s1 where "scan_block env b s = Some s1" "scan_blocks env bs s1 = Some s'" using Cons.prems by (auto split: option.splits)
  then show ?case using one Cons.IH agg_files_trans by blast
qed simp

lemma scan_headers_files: "scan_for_extent_headers env c a b = Some (r, c') \<Longrightarrow> agg_files c c'"
  using scan_blocks_files [of env "block_range a b" "(c, 0)"] by (auto simp: scan_for_extent_headers_def split: if_splits)

lemma pstep_files:
  assumes "pstep p s s'"
  shows "agg_files (rctx s) (rctx s')"
  using assms
proof cases
  case (Writer_dump k h hs ctx' n')
  have "dump_hit (p_env p) (p_bs p) h (rctx s, found s) = Some (c', n) \<Longrightarrow> agg_files (rctx s) c'" for c' n
    using recover_block_files by (auto simp: dump_hit_def Let_def split: option.splits bool.splits if_splits)
  then show ?thesis using Writer_dump by auto
qed (auto simp: reader_fill_def set_wpc_def set_slot_def worker_finish_def writer_take_def writer_recycle_def Let_def split: prod.splits)

lemma psteps_files: "psteps p s s' \<Longrightarrow> agg_files (rctx s) (rctx s')"
  by (induction rule: rtranclp_induct) (auto intro: agg_files_trans pstep_files)

lemma parallel_scan_files: "parallel_scan_for_extent_headers env c a b nw r c' \<Longrightarrow> agg_files c c'"
  using psteps_files [of "scan_args env c a b nw" "init_scan (scan_args env c a b nw) c"]
  by (auto simp: parallel_scan_for_extent_headers_def Let_def init_scan_def split: if_splits)

lemma scan_phase_files:
  assumes "scan_phase env c first blocks par nw ncpu r c'"
  shows "agg_files c c'"
proof (cases par)
  case True
  then obtain n r1 c1 where c1: "parallel_scan_for_extent_headers env c first blocks n r1 c1"
    "if r1 < 0 then scan_for_extent_headers env c1 first blocks = Some (r, c') else r = r1 \<and> c' = c1"
    using assms by (auto simp: scan_phase_def Let_def)
  then show ?thesis
    using parallel_scan_files [OF c1(1)] scan_headers_files [of env c1 first blocks r c'] agg_files_trans by (auto split: if_splits)
next
  case False
  then show ?thesis using assms scan_headers_files by (auto simp: scan_phase_def)
qed

lemma aggressive_scan_files: "aggressive_scan env c first blocks par nw ncpu r c' \<Longrightarrow> preserves True c c'"
  using scan_phase_files [of env "c\<lparr>total_blocks := blocks\<rparr>"] preserves_from(2)
  by (fastforce simp: aggressive_scan_def agg_files_def preserves_def own_name_def)

lemma checkpointed_frame: "preserves g c (rcx (checkpointed env rs c))" "mode (checkpointed env rs c) = mode rs"
  by (auto simp: checkpointed_def save_checkpoint_def write_text_def open_trunc_def preserves_def own_name_def split: option.splits if_splits)

lemma normal_scan_keeps: "normal_scan env items c = Some c' \<Longrightarrow> keeps_outputs c c'"
proof (induction env items c rule: normal_scan.induct)
  case (2 env icount inode items c)
  have v: "normal_visit env icount inode c = Some c1 \<Longrightarrow> keeps_outputs c c1" for c1
    using recover_from_extent_tree_keeps
    by (fastforce simp: normal_visit_def keeps_outputs_def split: if_splits option.splits)
  show ?case
  proof (cases "icount = 0 \<or> normal_visit env icount inode c = None")
    case True
    then show ?thesis using 2(2) by (auto split: if_splits)
  next
    case False
    then obtain c1 where c1: "normal_visit env icount inode c = Some c1" "normal_scan env items c1 = Some c'" "icount \<noteq> 0"
      using 2(2) by auto
    show ?thesis by (rule keeps_trans [OF v [OF c1(1)] 2(1) [OF c1(3,1,2)]])
  qed
qed auto

lemma phase_frames:
  "phase_orphan env rs = Some rs' \<Longrightarrow> preserves g (rcx rs) (rcx rs') \<and> mode rs' = mode rs"
  "phase_normal env rs = Some rs' \<Longrightarrow> preserves g (rcx rs) (rcx rs') \<and> mode rs' = mode rs"
  "phase_aggressive env h nw rs rs' \<Longrightarrow> preserves (agg_mode (mode rs)) (rcx rs) (rcx rs') \<and> mode rs' = mode rs"
  "phase_targeted env rs = Some rs' \<Longrightarrow> preserves (agg_mode (mode rs)) (rcx rs) (rcx rs') \<and> mode rs' = mode rs"
proof -
  have cp: "preserves g a c \<Longrightarrow> preserves g a (rcx (checkpointed env rs c)) \<and> mode (checkpointed env rs c) = mode rs" for a c g
    using checkpointed_frame preserves_trans by blast
  show "phase_orphan env rs = Some rs' \<Longrightarrow> preserves g (rcx rs) (rcx rs') \<and> mode rs' = mode rs"
    using cp preserves_from(1) [OF recover_orphan_list_keeps] preserves_from(1) [OF recover_orphan_file_keeps]
    by (auto simp: phase_orphan_def split: if_splits)
  have "lib_inode_scan env = Some items \<Longrightarrow> normal_scan env items (rcx rs) = Some c \<Longrightarrow> preserves g (rcx rs) c" for items c g
    using normal_scan_keeps preserves_from(1) by blast
  then show "phase_normal env rs = Some rs' \<Longrightarrow> preserves g (rcx rs) (rcx rs') \<and> mode rs' = mode rs"
    using cp checkpointed_frame(2) by (auto simp: phase_normal_def split: if_splits option.splits)
  show "phase_aggressive env h nw rs rs' \<Longrightarrow> preserves (agg_mode (mode rs)) (rcx rs) (rcx rs') \<and> mode rs' = mode rs"
    using cp aggressive_scan_files by (auto simp: phase_aggressive_def agg_mode_def split: if_splits)
  have "revoke_keeps (rcx rs) c" if "recover_from_revoke env (rcx rs) = Some (r, c)" for r c
    using that revoke_loop_keeps by (fastforce simp: recover_from_revoke_def Let_def split: if_splits)
  then show "phase_targeted env rs = Some rs' \<Longrightarrow> preserves (agg_mode (mode rs)) (rcx rs) (rcx rs') \<and> mode rs' = mode rs"
    using cp [OF preserves_from(3)] by (auto simp: phase_targeted_def agg_mode_def split: if_splits)
qed

lemma phases_preserve:
  assumes "phases env h nw rs rs'" "mode rs AND RECOVER_MODE_JOURNAL = 0"
  shows "preserves (agg_mode (mode rs)) (rcx rs) (rcx rs')"
proof -
  let ?g = "agg_mode (mode rs)"
  obtain rs1 rs2 rs3 rs4 where p: "phase_orphan env rs = Some rs1" "phase_journal env rs1 = Some rs2" "phase_normal env rs2 = Some rs3"
    "phase_aggressive env h nw rs3 rs4" "phase_targeted env rs4 = Some rs'" using assms(1) by (auto simp: phases_def)
  have m: "mode rs1 = mode rs" using phase_frames(1) [OF p(1)] by simp
  then have "rs2 = rs1" using p(2) assms(2) by (simp add: phase_journal_def)
  then show ?thesis
    using phase_frames(1) [OF p(1), of ?g] phase_frames(2) [OF p(3), of ?g] phase_frames(3) [OF p(4)] phase_frames(4) [OF p(5)] preserves_trans m
    by metis
qed

lemma finish_frame:
  assumes "finish_run env h rs = Some c"
  shows "preserves g (rcx rs) c \<and> files c CHECKPOINT_FILE = None"
proof -
  obtain c1 where c1: "write_manifest env (h_entropy h) (h_in_open h) (h_readdir h (files (rcx rs))) (rcx rs) = Some c1"
    "files c = files (rcx (clear_checkpoint (rs\<lparr>rcx := c1\<rparr>)))"
    using assms by (auto simp: finish_run_def Let_def close_journal_def)
  have "preserves g (rcx rs) c1" using write_manifest_frame [OF c1(1)] by (auto simp: preserves_def own_name_def)
  then show ?thesis using c1(2) by (auto simp: clear_checkpoint_def unlink_def preserves_def own_name_def)
qed

lemma setup_names_files: "setup_names env c = Some c' \<Longrightarrow> preserves g c c'"
proof -
  assume a: "setup_names env c = Some c'"
  obtain r st where i: "init_filename_map (malloc_ok env (4096 * 260)) (malloc_ok env (8192 * 4)) (names c) = Some (r, st)"
    using a by (auto simp: setup_names_def split: option.splits)
  have z: "preserves g c (c\<lparr>names := st\<rparr>)" by (simp add: preserves_files)
  show ?thesis
  proof (cases "r = 0")
    case True
    then obtain c1 where "parse_directory_blocks env (c\<lparr>names := st\<rparr>) = Some c1" "scan_ghost_dirents env c1 = Some c'"
      using a i by (auto simp: setup_names_def bind_eq_Some_conv)
    then show ?thesis
      using frame.parse_directory_blocks_R frame.scan_ghost_dirents_R preserves_from(4) preserves_trans z by metis
  qed (use a i z in \<open>auto simp: setup_names_def\<close>)
qed

lemma load_line_files: "load_line l rs = Some rs' \<Longrightarrow> files (rcx rs') = files (rcx rs) \<and> mode rs' = mode rs"
  by (auto simp: load_line_def split: option.splits if_splits)

lemma load_lines_files: "load_lines ls rs = (b, rs') \<Longrightarrow> files (rcx rs') = files (rcx rs) \<and> mode rs' = mode rs"
proof (induction ls arbitrary: rs)
  case (Cons l ls)
  then show ?case using load_line_files by (auto split: option.splits)
qed simp

lemma load_checkpoint_files: "load_checkpoint rs = (r, rs') \<Longrightarrow> files (rcx rs') = files (rcx rs) \<and> mode rs' = mode rs"
  using load_lines_files by (fastforce simp: load_checkpoint_def split: option.splits prod.splits bool.splits)

lemma start_run_files: "files (rcx (start_run o' files0)) = files0" "mode (start_run o' files0) = o_mode o'"
  using load_checkpoint_files by (auto simp: start_run_def Let_def split: prod.splits)

lemma setup_journal_files: "files (setup_journal env md c) = files c"
  by (auto simp: setup_journal_def init_journal_def Let_def split: option.splits prod.splits if_splits)

section \<open>Properties\<close>

text \<open>Property C3: what a run leaves alone.  Started without the journal phase, whatever the disk contains and
  however the threads of the aggressive phase are scheduled, a run that ends leaves every file of the recovery
  directory that held data as it was, with these exceptions: the checkpoint, which a completed run
  removes; the manifest, which it writes anew; and, only when the aggressive or the targeted phase was asked for, the
  \<open>aggressive_\<dots>\<close> outputs, which these phases truncate.  A run that refuses to start changes nothing at all.\<close>

theorem main_run_preserves:
  assumes "main_run env h args files0 r ctx'" and "parse_args args default_options = Run o'"
    and "o_mode o' AND RECOVER_MODE_JOURNAL = 0"
  shows "(\<forall>n f. n \<noteq> CHECKPOINT_FILE \<longrightarrow> n \<noteq> manifest_name \<longrightarrow>
      (o_mode o' AND (RECOVER_MODE_AGGRESSIVE OR RECOVER_MODE_TARGETED) \<noteq> 0 \<longrightarrow> take 11 n \<noteq> ''aggressive_'') \<longrightarrow>
      files0 n = Some f \<longrightarrow> f \<noteq> [] \<longrightarrow> files ctx' n = Some f) \<and>
    (if r = 0 then files ctx' CHECKPOINT_FILE = None else files ctx' = files0)"
proof -
  define rs where "rs = start_run o' files0"
  note sr = start_run_files [of o' files0, folded rs_def]
  have oc: "files (open_context env fs c) = files c" for fs c by (auto simp: open_context_def split: prod.splits)
  let ?g = "agg_mode (o_mode o')"
  have "r \<noteq> 0 \<and> files ctx' = files0 \<or> r = 0 \<and> preserves ?g (rcx rs) ctx' \<and> files ctx' CHECKPOINT_FILE = None"
  proof (cases "h_fs h")
    case None
    then show ?thesis using assms(1,2) sr by (simp add: main_run_def rs_def [symmetric])
  next
    case (Some fs)
    let ?c1 = "open_context env fs (rcx rs)"
    consider "r = 1" "ctx' = ?c1" | c2 rs2 where "setup_names env (setup_journal env (mode rs) ?c1) = Some c2"
      "phases env h (o_workers o') (rs\<lparr>rcx := c2\<rparr>) rs2" "finish_run env h rs2 = Some ctx'" "r = 0"
      using assms(1,2) Some by (auto simp: main_run_def rs_def [symmetric] Let_def split: if_splits)
    then show ?thesis
    proof cases
      case 1
      then show ?thesis using sr oc by simp
    next
      case 2
      have "preserves ?g (rcx rs) (setup_journal env (mode rs) ?c1)" by (simp add: preserves_files setup_journal_files oc)
      moreover have "preserves ?g c2 (rcx rs2)" using phases_preserve [OF 2(2)] sr(2) assms(3) by simp
      ultimately show ?thesis using setup_names_files [OF 2(1)] finish_frame [OF 2(3)] 2(4) preserves_trans by metis
    qed
  qed
  moreover have "agg_mode (o_mode o') \<longleftrightarrow> o_mode o' AND (RECOVER_MODE_AGGRESSIVE OR RECOVER_MODE_TARGETED) \<noteq> 0"
    by (auto simp: agg_mode_def bit.conj_disj_distrib or_eq_0_iff)
  ultimately show ?thesis using sr(1) by (auto simp: preserves_def own_name_def agg_name_def)
qed

definition plain_host :: host where
  "plain_host = \<lparr>h_fs = Some (24, 3, no_super, 1), h_dev_open = True, h_stat_dir = Some 1, h_stat_dev = Some (True, 2), h_first = 0,
     h_ncpu = 4, h_readdir = (\<lambda>_. None), h_in_open = (\<lambda>_. True), h_entropy = (\<lambda>_. 0)\<rparr>"

theorem main_run_preserves_witness:
  "\<exists>ctx'. main_run (ideal_env []) plain_host [''--normal'', ''/dev/sdb''] [''7_file'' \<mapsto> [1], ''aggressive_9_ext'' \<mapsto> [3], CHECKPOINT_FILE \<mapsto> [2]] 0 ctx' \<and>
     files ctx' ''7_file'' = Some [1] \<and> files ctx' ''aggressive_9_ext'' = Some [3] \<and> files ctx' CHECKPOINT_FILE = None"
proof -
  let ?e = "ideal_env []" and ?a = "[''--normal'', ''/dev/sdb'']" and ?f = "[''7_file'' \<mapsto> [1], ''aggressive_9_ext'' \<mapsto> [3], CHECKPOINT_FILE \<mapsto> [2 :: byte]]"
  define o' where "o' = default_options\<lparr>o_mode := RECOVER_MODE_NORMAL, o_device := Some ''/dev/sdb''\<rparr>"
  have args: "parse_args ?a default_options = Run o'" by (simp add: o'_def default_options_def)
  define rs where "rs = start_run o' ?f"
  have md: "mode rs = RECOVER_MODE_NORMAL" "o_mode o' = RECOVER_MODE_NORMAL"
    by (simp_all add: rs_def start_run_files o'_def)
  define c1 where "c1 = open_context ?e (24, 3, no_super, 1) (rcx rs)"
  have m: "malloc_ok ?e n" "lib_inode_scan ?e = None" "out_open ?e n'" for n n' by (simp_all add: ideal_env_def)
  obtain st where st: "init_filename_map True True (names c1) = Some (0, st)" using init_filename_map_inv by blast
  have hj: "\<not> has_journal c1" by (simp add: c1_def open_context_def rs_def start_run_def o'_def default_options_def base_ctx_def)
  define c2 where "c2 = c1\<lparr>names := st\<rparr>"
  have sn: "setup_names ?e (setup_journal ?e (mode rs) c1) = Some c2"
    using st hj by (simp add: setup_names_def setup_journal_def md mode_defs m parse_directory_blocks_def scan_ghost_dirents_def c2_def)
  define rs2 where "rs2 = checkpointed ?e (rs\<lparr>rcx := c2\<rparr>) c2"
  have ph: "phases ?e plain_host (o_workers o') (rs\<lparr>rcx := c2\<rparr>) rs2"
    unfolding phases_def
    by (intro exI [of _ "rs\<lparr>rcx := c2\<rparr>"] exI [of _ rs2])
       (simp add: phase_orphan_def phase_journal_def phase_normal_def phase_aggressive_def phase_targeted_def md mode_defs m
          rs2_def checkpointed_frame(2))
  obtain ctx' where fin: "finish_run ?e plain_host rs2 = Some ctx'"
    by (simp add: finish_run_def write_manifest_def plain_host_def open_trunc_def m)
  have cl: "init_cluster_info (super c1) = Some (False, 1)" "c1 = open_context ?e (24, 3, no_super, 1) (rcx rs)"
    by (simp_all add: init_cluster_info_def c1_def open_context_def no_super_def)
  have run: "main_run ?e plain_host ?a ?f 0 ctx'"
    unfolding main_run_def args using cl sn ph fin
    by (simp add: rs_def [symmetric] Let_def plain_host_def is_on_device_def) blast
  have "''7_file'' \<noteq> CHECKPOINT_FILE" "''7_file'' \<noteq> manifest_name" "''aggressive_9_ext'' \<noteq> CHECKPOINT_FILE" "''aggressive_9_ext'' \<noteq> manifest_name" by (simp_all add: CHECKPOINT_FILE_def manifest_name_def)
  then show ?thesis
    using main_run_preserves [OF run args] run by (intro exI [of _ ctx']) (simp add: md mode_defs)
qed

text \<open>\<open>--targeted\<close> does nothing next to another mode that clears the journal bit: the journal is not opened then.\<close>

lemma targeted_without_journal:
  assumes "\<not> has_journal ctx"
  shows "recover_from_revoke env ctx = Some (0, ctx)"
    "parse_args [''--aggressive'', ''--targeted'', d] default_options = Run o' \<Longrightarrow> o_mode o' AND RECOVER_MODE_JOURNAL = 0"
  using assms by (auto simp: recover_from_revoke_def mode_defs default_options_def split: if_splits)

end
