(* ===== verification/Main_Exact.thy ===== *)
theory Main_Exact
  imports Main_Driver
begin

text \<open>
  A run as a whole (\<^verbatim>\<open>ext4recover_v5.c\<close>): what the set-up establishes, and what a run with \<^verbatim>\<open>--normal\<close> on a fresh recovery directory leaves
  there.  The theorems compose the directory scan, the name registry, the walk of each inode's tree, the
  checkpoint and the manifest.
\<close>

section \<open>The names after the set-up\<close>

lemma setup_names_kept:
  assumes "setup_names env c = Some c'" "\<forall>n. malloc_ok env n"
  shows "only_names c c' \<and> fm_inv (names c') \<and> name_claims (names c') = name_claims (names c) \<and>
    claim_capacity (names c') = claim_capacity (names c)"
proof -
  obtain st where st: "init_filename_map True True (names c) = Some (0, st)" "fm_inv st"
    using init_filename_map_inv by blast
  let ?c = "c\<lparr>names := st\<rparr>"
  obtain c1 where c1: "parse_directory_blocks env ?c = Some c1" "scan_ghost_dirents env c1 = Some c'"
    using assms st(1) by (auto simp: setup_names_def bind_eq_Some_conv)
  have "only_names c ?c" by (simp add: only_names_def)
  then have "only_names c c'"
    using frame.parse_directory_blocks_R [OF c1(1)] frame.scan_ghost_dirents_R [OF c1(2)] only_names_trans by blast
  moreover have "names_kept env ?c c'"
    using table.R_trans [OF table.parse_directory_blocks_R [OF c1(1)] table.scan_ghost_dirents_R [OF c1(2)]] .
  ultimately show ?thesis
    using st(2) assms(2) init_filename_map_claims [OF st(1)] by (simp add: names_kept_def)
qed

section \<open>What the inode scan selects\<close>

text \<open>The inodes the loop of the normal phase reaches, and those it tries.\<close>

fun reached :: "scan_item list \<Rightarrow> (u32 \<times> ext2_inode) list" where
  "reached (Scan_bad_block # items) = reached items"
| "reached (Scan_inode i inode # items) = (if i = 0 then [] else (i, inode) # reached items)"
| "reached (Scan_error # items) = []"
| "reached [] = []"

definition selected :: "u32 \<times> ext2_inode \<Rightarrow> bool" where
  "selected x \<longleftrightarrow> \<not> fst x < 3 \<and> LINUX_S_ISREG (i_mode (snd x)) \<and> i_links_count (snd x) = 0 \<and>
     i_flags (snd x) AND EXT4_EXTENTS_FL \<noteq> 0 \<and> eh_magic (header_at (i_block (snd x))) = EXT4_EXT_MAGIC"

text \<open>The bytes of an inode, by the specification of its tree.\<close>

definition tree_content :: "buffer \<Rightarrow> nat \<Rightarrow> blk64_t \<Rightarrow> ext2_inode \<Rightarrow> buffer option" where
  "tree_content dev bsz tot inode =
     map_option (foldl (write_extent dev bsz) []) (tree_extents dev bsz tot (unat (eh_depth (header_at (i_block inode)))) (i_block inode))"

definition intact :: "env \<Rightarrow> buffer \<Rightarrow> nat \<Rightarrow> blk64_t \<Rightarrow> u32 \<times> ext2_inode \<Rightarrow> bool" where
  "intact env dev bsz tot x \<longleftrightarrow> lib_extent_open env (fst x) \<and> lib_read_inode env (fst x) = Some (snd x) \<and>
     (let b = i_block (snd x) in eh_depth (header_at b) \<le> 5 \<and> eh_entries (header_at b) \<noteq> 0 \<and>
        (case tree_extents dev bsz tot (unat (eh_depth (header_at b))) b of None \<Rightarrow> False
         | Some es \<Rightarrow> list_all (extent_on_device dev bsz) es))"

text \<open>Nothing is left of the tree: the library refuses the inode, the depth is impossible, or the root is cleared and
  no slot holds a block number.\<close>

definition hopeless :: "env \<Rightarrow> blk64_t \<Rightarrow> u32 \<times> ext2_inode \<Rightarrow> bool" where
  "hopeless env tot x \<longleftrightarrow> \<not> lib_extent_open env (fst x) \<or>
     (case lib_read_inode env (fst x) of None \<Rightarrow> True
      | Some inode \<Rightarrow> let b = i_block inode in eh_depth (header_at b) > 5 \<or>
          eh_entries (header_at b) = 0 \<and> residual_slots b tot [0..<4] 0 = Some 0)"

lemma hopeless_visit:
  "hopeless env (total_blocks c) (i, inode) \<Longrightarrow> recover_from_extent_tree env c i = Some (-1, c)"
  by (auto simp: hopeless_def recover_from_extent_tree_def Let_def word_less_nat_alt unat_eq_0 split: option.splits)

lemma intact_visit:
  assumes io: "io_ok env dev" "block_reads_ok env dev c" "\<forall>n. out_open env n"
    and ok: "intact env dev (blocksize c) (total_blocks c) (i, inode)"
    and name: "resolve_name env c i = Some (base, c1)" "files c base = None"
  shows "\<exists>c' f. recover_from_extent_tree env c i = Some (0, c') \<and> tree_content dev (blocksize c) (total_blocks c) inode = Some f \<and>
    names c' = names c1 \<and> files c' = (files c)(base \<mapsto> f) \<and> blocksize c' = blocksize c \<and> total_blocks c' = total_blocks c"
proof -
  obtain es where es: "tree_extents dev (blocksize c) (total_blocks c) (unat (eh_depth (header_at (i_block inode)))) (i_block inode) = Some es"
    "\<forall>e \<in> set es. extent_on_device dev (blocksize c) e"
    using ok by (auto simp: intact_def Let_def list_all_iff split: option.splits)
  have lib: "lib_extent_open env i" "lib_read_inode env i = Some inode" "eh_depth (header_at (i_block inode)) \<le> 5"
    "eh_entries (header_at (i_block inode)) \<noteq> 0" using ok by (auto simp: intact_def Let_def)
  have "stat_size c base = 0" using name(2) by (simp add: stat_size_def)
  then obtain c' where c': "recover_from_extent_tree env c i = Some (0, c')"
    "wrote dev base es (c1\<lparr>files := (files c1)(base \<mapsto> [])\<rparr>) c'"
    using recover_tree_wrote [OF io(1,2) _ lib es name(1)] io(3) by blast
  obtain ns where n: "c1 = c\<lparr>names := ns\<rparr>" using name(1) by (auto simp: resolve_name_def Let_def)
  have t: "touches base (c1\<lparr>files := (files c1)(base \<mapsto> [])\<rparr>) c'" using c'(2) by (simp add: wrote_def)
  have fr: "names c' = names c1" "blocksize c' = blocksize c" "total_blocks c' = total_blocks c"
    using touches_frame [OF t] n by simp_all
  have "files c' k = ((files c)(base \<mapsto> foldl (write_extent dev (blocksize c)) [] es)) k" for k
    using c'(2) t n by (cases "k = base") (auto simp: wrote_def touches_def)
  then show ?thesis using c'(1) fr es(1) by (intro exI [of _ c']) (auto simp: tree_content_def)
qed

section \<open>The normal phase\<close>

text \<open>A directory entry whose name the program would generate itself.\<close>

definition reserved :: "string \<Rightarrow> bool" where
  "reserved n \<longleftrightarrow> n = CHECKPOINT_FILE \<or> n = manifest_name \<or> (\<exists>j. n = fallback_name j)"

text \<open>The record of a phase: inode, output and bytes of every file it produced.\<close>

type_synonym product = "u32 \<times> string \<times> buffer"

definition name_rule :: "(u32 \<Rightarrow> string option) \<Rightarrow> product list \<Rightarrow> bool" where
  "name_rule nm ps \<longleftrightarrow> distinct (map (fst \<circ> snd) ps) \<and> (\<forall>(j, n, f) \<in> set ps. n = fallback_name j \<or> nm j = Some n)"

text \<open>The state between two inodes, after the products \<open>ps\<close>.\<close>

definition phase_inv :: "env \<Rightarrow> buffer \<Rightarrow> nat \<Rightarrow> blk64_t \<Rightarrow> (u32 \<Rightarrow> string option) \<Rightarrow> product list \<Rightarrow> recover_context \<Rightarrow> bool" where
  "phase_inv env dev bsz tot nm ps c \<longleftrightarrow> fm_inv (names c) \<and> claims_inv (names c) \<and> fm_map (names c) = nm \<and>
     blocksize c = bsz \<and> total_blocks c = tot \<and> block_reads_ok env dev c \<and>
     files c = map_of (map snd ps) \<and> name_rule nm ps \<and>
     (\<forall>(j, n, f) \<in> set ps. nm j = Some n \<longrightarrow> n = fallback_name j \<or> (\<exists>cl \<in> set (name_claims (names c)). nc_name cl = n)) \<and>
     nc_ino ` set (name_claims (names c)) \<subseteq> fst ` set ps"

lemma block_reads_cong:
  "blocksize c' = blocksize c \<Longrightarrow> total_blocks c' = total_blocks c \<Longrightarrow> block_reads_ok env dev c' = block_reads_ok env dev c"
  by (simp add: block_reads_ok_def pread_block_def)

lemma claim_of_mem: "claim_of st n = Some cl \<Longrightarrow> cl \<in> set (name_claims st)"
  by (auto simp: claim_of_def find_Some_iff)

lemma claim_of_None: "claim_of st n = None \<Longrightarrow> cl \<in> set (name_claims st) \<Longrightarrow> nc_name cl \<noteq> n"
  by (auto simp: claim_of_def find_None_iff)

text \<open>The name of the next inode is free.\<close>

lemma next_name_free:
  assumes inv: "phase_inv env dev bsz tot nm ps c" and plain: "\<forall>j n. nm j = Some n \<longrightarrow> \<not> reserved n"
    and i: "i \<noteq> 0" "i \<notin> fst ` set ps" and mem: "\<forall>n. malloc_ok env n"
  shows "\<exists>base st. resolve_name env c i = Some (base, c\<lparr>names := st\<rparr>) \<and> files c base = None \<and>
    fm_inv st \<and> claims_inv st \<and> fm_map st = nm \<and> (base = fallback_name i \<or> nm i = Some base) \<and>
    (nm i = Some base \<longrightarrow> base = fallback_name i \<or> (\<exists>cl \<in> set (name_claims st). nc_name cl = base)) \<and>
    set (name_claims (names c)) \<subseteq> set (name_claims st) \<and> nc_ino ` set (name_claims st) \<subseteq> insert i (fst ` set ps)"
proof -
  have c: "fm_inv (names c)" "claims_inv (names c)" "fm_map (names c) = nm" "files c = map_of (map snd ps)" "name_rule nm ps"
    using inv by (simp_all add: phase_inv_def)
  have own: "nc_ino ` set (name_claims (names c)) \<subseteq> fst ` set ps" using inv by (simp add: phase_inv_def)
  have claimed: "nm j = Some n \<Longrightarrow> (j, n, f) \<in> set ps \<Longrightarrow> \<exists>cl \<in> set (name_claims (names c)). nc_name cl = n" for j n f
    using inv plain by (fastforce simp: phase_inv_def reserved_def)
  define base where "base = (case nm i of None \<Rightarrow> fallback_name i
        | Some name \<Rightarrow> (case claim_of (names c) name of Some cl \<Rightarrow> if nc_ino cl = i then name else fallback_name i | None \<Rightarrow> name))"
  obtain st where st: "resolve_output_name True (names c) i = Some (base, st)" "fm_inv st" "claims_inv st" "fm_map st = nm"
    "name_claims st = name_claims (names c) @ (case nm i of None \<Rightarrow> []
       | Some name \<Rightarrow> (case claim_of (names c) name of Some cl \<Rightarrow> [] | None \<Rightarrow> [\<lparr>nc_ino = i, nc_name = take 255 name\<rparr>]))"
    using resolve_model [OF c(1,2) i(1)] unfolding c(3) base_def by blast
  have rn: "resolve_name env c i = Some (base, c\<lparr>names := st\<rparr>)" using st(1) mem by (simp add: resolve_name_def Let_def)
  have short: "take 255 n = n" if "nm i = Some n" for n using fm_map_bounds [OF c(1)] c(3) that by auto
  have cases: "base = fallback_name i \<or> nm i = Some base \<and> claim_of (names c) base = None"
  proof (cases "nm i")
    case (Some n)
    have "claim_of (names c) n = Some cl \<Longrightarrow> nc_ino cl \<noteq> i" for cl using claim_of_mem own i(2) by fastforce
    then show ?thesis using Some by (auto simp: base_def split: option.splits)
  qed (simp add: base_def)
  have "base \<noteq> n" if "(j, n, f) \<in> set ps" for j n f
  proof
    assume e: "base = n"
    have r: "n = fallback_name j \<or> nm j = Some n" using c(5) that by (auto simp: name_rule_def)
    have ne: "j \<noteq> i" using i(2) that by (force simp: image_iff)
    from cases show False
    proof
      assume "base = fallback_name i"
      then show False using r e ne fallback_inj plain unfolding reserved_def by metis
    next
      assume a: "nm i = Some base \<and> claim_of (names c) base = None"
      then have "nm j = Some n" using r e plain by (auto simp: reserved_def)
      then show False using claimed [OF _ that] a e claim_of_None by blast
    qed
  qed
  then have "base \<notin> fst ` set (map snd ps)" by force
  then have "files c base = None" unfolding c(4) map_of_eq_None_iff .
  moreover have "\<exists>cl \<in> set (name_claims st). nc_name cl = base" if "nm i = Some base" "base \<noteq> fallback_name i"
    using cases that st(5) short by auto
  ultimately show ?thesis
    using rn st cases own by (intro exI [of _ base] exI [of _ st]) (auto split: option.splits)
qed

lemma normal_visit_selected:
  "normal_visit env i inode c =
     (if \<not> selected (i, inode) then Some c
      else case recover_from_extent_tree env c i of None \<Rightarrow> None
           | Some (r, c') \<Rightarrow> Some (if r = 0 then c'\<lparr>files_recovered := files_recovered c' + 1\<rparr> else c'\<lparr>files_failed := files_failed c' + 1\<rparr>))"
  by (auto simp: normal_visit_def selected_def)

lemma phase_inv_counters:
  "phase_inv env dev bsz tot nm ps (c\<lparr>files_recovered := k\<rparr>) = phase_inv env dev bsz tot nm ps c"
  "phase_inv env dev bsz tot nm ps (c\<lparr>files_failed := k\<rparr>) = phase_inv env dev bsz tot nm ps c"
  by (simp_all add: phase_inv_def block_reads_ok_def pread_block_def)

text \<open>One inode: an intact one becomes a product, the others leave the state as it is.\<close>

definition produce :: "env \<Rightarrow> buffer \<Rightarrow> nat \<Rightarrow> blk64_t \<Rightarrow> u32 \<times> ext2_inode \<Rightarrow> bool" where
  "produce env dev bsz tot x \<longleftrightarrow> selected x \<and> intact env dev bsz tot x"

lemma visit_inv:
  assumes inv: "phase_inv env dev bsz tot nm ps c" and plain: "\<forall>j n. nm j = Some n \<longrightarrow> \<not> reserved n"
    and i: "i \<noteq> 0" "i \<notin> fst ` set ps" and io: "io_ok env dev" "\<forall>n. out_open env n"
    and kind: "selected (i, inode) \<Longrightarrow> intact env dev bsz tot (i, inode) \<or> hopeless env tot (i, inode)"
  shows "\<exists>c' qs. normal_visit env i inode c = Some c' \<and> phase_inv env dev bsz tot nm (ps @ qs) c' \<and>
    map (\<lambda>(j, n, f). (j, Some f)) qs = map (\<lambda>(j, d). (j, tree_content dev bsz tot d)) (filter (produce env dev bsz tot) [(i, inode)])"
proof -
  have c: "blocksize c = bsz" "total_blocks c = tot" "block_reads_ok env dev c" using inv by (simp_all add: phase_inv_def)
  consider "\<not> selected (i, inode)" | "selected (i, inode)" "\<not> intact env dev bsz tot (i, inode)" "hopeless env tot (i, inode)"
    | "selected (i, inode)" "intact env dev bsz tot (i, inode)" using kind by blast
  then show ?thesis
  proof cases
    case 1
    then show ?thesis using inv by (intro exI [of _ c] exI [of _ "[]"]) (simp add: normal_visit_selected produce_def)
  next
    case 2
    then show ?thesis using inv hopeless_visit [of env c i inode] c
      by (intro exI [of _ "c\<lparr>files_failed := files_failed c + 1\<rparr>"] exI [of _ "[]"])
         (simp add: normal_visit_selected produce_def phase_inv_counters)
  next
    case 3
    have mem: "\<forall>n. malloc_ok env n" using io(1) by (simp add: io_ok_def)
    obtain base st where b: "resolve_name env c i = Some (base, c\<lparr>names := st\<rparr>)" "files c base = None" "fm_inv st" "claims_inv st"
      "fm_map st = nm" "base = fallback_name i \<or> nm i = Some base"
      "nm i = Some base \<longrightarrow> base = fallback_name i \<or> (\<exists>cl \<in> set (name_claims st). nc_name cl = base)"
      "set (name_claims (names c)) \<subseteq> set (name_claims st)" "nc_ino ` set (name_claims st) \<subseteq> insert i (fst ` set ps)"
      using next_name_free [OF inv plain i mem] by blast
    obtain c' f where c': "recover_from_extent_tree env c i = Some (0, c')" "tree_content dev bsz tot inode = Some f"
      "names c' = st" "files c' = (files c)(base \<mapsto> f)" "blocksize c' = bsz" "total_blocks c' = tot"
      using intact_visit [OF io(1) c(3) io(2) _ b(1,2), of inode] 3(2) c(1,2) by auto
    have free: "base \<notin> (fst \<circ> snd) ` set ps" using b(2) inv by (auto simp: phase_inv_def map_of_eq_None_iff image_comp)
    have "files c' = map_of (map snd (ps @ [(i, base, f)]))"
      using c'(4) inv free map_of_snoc [of base "map snd ps" f] by (simp add: phase_inv_def image_comp comp_def del: map_of_append)
    moreover have "name_rule nm (ps @ [(i, base, f)])"
      using inv free b(6) by (auto simp: phase_inv_def name_rule_def)
    moreover have "block_reads_ok env dev c'" using c(3) block_reads_cong [of c' c] c'(5,6) c(1,2) by simp
    moreover have "\<exists>cl \<in> set (name_claims st). nc_name cl = n" if "(j, n, g) \<in> set (ps @ [(i, base, f)])" "nm j = Some n" "n \<noteq> fallback_name j" for j n g
    proof (cases "(j, n, g) \<in> set ps")
      case True
      then have "\<exists>cl \<in> set (name_claims (names c)). nc_name cl = n" using inv that(2,3) by (auto simp: phase_inv_def)
      then show ?thesis using b(8) by blast
    qed (use that b(7) in auto)
    moreover have "nc_ino ` set (name_claims st) \<subseteq> fst ` set (ps @ [(i, base, f)])" using b(9) by simp
    ultimately have "phase_inv env dev bsz tot nm (ps @ [(i, base, f)]) c'"
      using b(3,4,5) c'(3,5,6) unfolding phase_inv_def by blast
    then show ?thesis using 3 c'(1,2)
      by (intro exI [of _ "c'\<lparr>files_recovered := files_recovered c' + 1\<rparr>"] exI [of _ "[(i, base, f)]"])
         (simp add: normal_visit_selected produce_def phase_inv_counters)
  qed
qed

lemma normal_scan_inv:
  assumes plain: "\<forall>j n. nm j = Some n \<longrightarrow> \<not> reserved n" and io: "io_ok env dev" "\<forall>n. out_open env n"
  shows "phase_inv env dev bsz tot nm ps c \<Longrightarrow> distinct (map fst (reached items)) \<Longrightarrow>
    fst ` set (reached items) \<inter> fst ` set ps = {} \<Longrightarrow>
    \<forall>x \<in> set (reached items). selected x \<longrightarrow> intact env dev bsz tot x \<or> hopeless env tot x \<Longrightarrow>
    \<exists>c' qs. normal_scan env items c = Some c' \<and> phase_inv env dev bsz tot nm (ps @ qs) c' \<and>
      map (\<lambda>(j, n, f). (j, Some f)) qs = map (\<lambda>(j, d). (j, tree_content dev bsz tot d)) (filter (produce env dev bsz tot) (reached items))"
proof (induction items arbitrary: ps c rule: reached.induct)
  case (2 i inode items)
  show ?case
  proof (cases "i = 0")
    case True
    then show ?thesis using 2 by (intro exI [of _ c] exI [of _ "[]"]) simp
  next
    case False
    have "i \<notin> fst ` set ps" "selected (i, inode) \<Longrightarrow> intact env dev bsz tot (i, inode) \<or> hopeless env tot (i, inode)"
      using "2.prems" False by auto
    then obtain c1 qs where c1: "normal_visit env i inode c = Some c1" "phase_inv env dev bsz tot nm (ps @ qs) c1"
      "map (\<lambda>(j, n, f). (j, Some f)) qs = map (\<lambda>(j, d). (j, tree_content dev bsz tot d)) (filter (produce env dev bsz tot) [(i, inode)])"
      using visit_inv [OF "2.prems"(1) plain False _ io] by blast
    have "map fst qs = map fst (map (\<lambda>(j, n, f). (j, Some f)) qs)" by (simp add: comp_def case_prod_unfold)
    also have "set \<dots> \<subseteq> {i}" unfolding c1(3) by auto
    finally have q: "fst ` set qs \<subseteq> {i}" by simp
    have "fst ` set (reached items) \<inter> fst ` set (ps @ qs) = {}" using q "2.prems"(2,3) False by auto
    then obtain c' rs where c': "normal_scan env items c1 = Some c'" "phase_inv env dev bsz tot nm ((ps @ qs) @ rs) c'"
      "map (\<lambda>(j, n, f). (j, Some f)) rs = map (\<lambda>(j, d). (j, tree_content dev bsz tot d)) (filter (produce env dev bsz tot) (reached items))"
      using 2(1) [OF False c1(2)] "2.prems"(2,4) False by auto
    show ?thesis using c1 c' False by (intro exI [of _ c'] exI [of _ "qs @ rs"]) simp
  qed
qed (auto intro: exI [of _ "[]"])

section \<open>The manifest is written\<close>

text \<open>The one signature that is compared past its end.\<close>

definition probe_safe :: "buffer \<Rightarrow> bool" where
  "probe_safe f \<longleftrightarrow> take 5 f \<noteq> [0xD0, 0xCF, 0x11, 0xE0, 0]"

lemma probe_loop_defined: "\<forall>m \<in> set ms. sig_matches m hdr \<noteq> None \<Longrightarrow> probe_loop ms hdr \<noteq> None"
  by (induction ms) (auto split: option.splits bool.splits)

lemma probe_type_defined:
  assumes "probe_safe f"
  shows "probe_type (take 256 f) \<noteq> None"
proof -
  let ?doc = "SIG 8 [0xD0, 0xCF, 0x11, 0xE0] ''msdoc''"
  have rows: "\<forall>m \<in> set magic_table. m_len m \<le> length (m_sig m) \<or> m = ?doc"
    by (simp add: magic_table_def SIG_def bytes_of_def)
  have doc: "sig_matches ?doc (take 256 f) \<noteq> None" using assms by (auto simp: SIG_def sig_matches_def sub_buf_def probe_safe_def numeral_eq_Suc)
  have "sig_matches m (take 256 f) \<noteq> None" if "m_len m \<le> length (m_sig m)" for m
    using that by (auto simp: sig_matches_def Let_def)
  then have "\<forall>m \<in> set magic_table. sig_matches m (take 256 f) \<noteq> None" using rows doc by metis
  then show ?thesis unfolding probe_type_def by (rule probe_loop_defined)
qed

lemma manifest_rows_defined:
  assumes "\<forall>n f. files c n = Some f \<longrightarrow> hd n \<noteq> CHR ''.'' \<longrightarrow> n \<noteq> manifest_name \<longrightarrow> probe_safe f" "\<forall>n. files c n \<noteq> None \<longrightarrow> n \<noteq> []"
  shows "manifest_rows entropy in_open c ns \<noteq> None"
proof (induction ns)
  case (Cons n ns)
  have "manifest_row entropy n f \<noteq> None" if "files c n = Some f" "\<not> (n \<noteq> [] \<and> hd n = CHR ''.'' \<or> n = manifest_name)" for f
    using probe_type_defined [of f] assms that by (auto simp: manifest_row_def Let_def)
  then show ?case using Cons by (auto simp del: hd_conv_nth split: option.splits) blast+
qed simp

section \<open>A run in normal mode\<close>

lemma reserved_names: "name_rule nm ps \<Longrightarrow> \<forall>j n. nm j = Some n \<longrightarrow> \<not> reserved n \<Longrightarrow> (j, n, f) \<in> set ps \<Longrightarrow>
  n \<noteq> CHECKPOINT_FILE \<and> n \<noteq> manifest_name"
proof -
  have "CHR ''.'' \<notin> set (fallback_name j)" "CHR ''.'' \<in> set CHECKPOINT_FILE" "CHR ''.'' \<in> set manifest_name"
    using fallback_chars [of j] by (auto simp: CHECKPOINT_FILE_def manifest_name_def is_digit_def)
  then have "fallback_name j \<noteq> CHECKPOINT_FILE" "fallback_name j \<noteq> manifest_name" by auto
  then show "name_rule nm ps \<Longrightarrow> \<forall>j n. nm j = Some n \<longrightarrow> \<not> reserved n \<Longrightarrow> (j, n, f) \<in> set ps \<Longrightarrow>
      n \<noteq> CHECKPOINT_FILE \<and> n \<noteq> manifest_name"
    by (fastforce simp: name_rule_def reserved_def)
qed

lemma start_run_fresh: "rcx (start_run o' Map.empty) = (base_ctx 0 0)\<lparr>recovered_extents := None, files := Map.empty\<rparr> \<and>
    mode (start_run o' Map.empty) = o_mode o'"
  by (auto simp: start_run_def load_checkpoint_def Let_def)

lemma normal_phases:
  assumes "mode rs = RECOVER_MODE_NORMAL" "lib_inode_scan env = Some items" "normal_scan env items (rcx rs) = Some c"
  shows "phases env h nw rs rs' \<longleftrightarrow> rs' = checkpointed env rs c"
  using assms checkpointed_frame(2) [of env rs c]
  by (auto simp: phases_def phase_orphan_def phase_journal_def phase_normal_def phase_aggressive_def phase_targeted_def mode_defs)

lemma checkpointed_files:
  assumes "\<forall>n. out_open env n"
  shows "\<exists>t. files (rcx (checkpointed env rs c)) = (files c)(CHECKPOINT_FILE \<mapsto> t)"
  using assms by (auto simp: checkpointed_def save_checkpoint_def write_text_def open_trunc_def)

lemma finish_run_files:
  assumes "\<forall>n. out_open env n" "\<forall>n f. files (rcx rs) n = Some f \<longrightarrow> n \<noteq> [] \<and> (hd n = CHR ''.'' \<or> n = manifest_name \<or> probe_safe f)"
  shows "\<exists>c' t. finish_run env h rs = Some c' \<and> files c' = (files (rcx rs))(manifest_name \<mapsto> t, CHECKPOINT_FILE := None)"
proof -
  let ?c = "(rcx rs)\<lparr>files := (files (rcx rs))(manifest_name \<mapsto> [])\<rparr>"
  have ot: "open_trunc env (rcx rs) manifest_name = Some ?c" using assms(1) by (simp add: open_trunc_def)
  have "manifest_name \<noteq> []" by (simp add: manifest_name_def)
  then have "manifest_rows (h_entropy h) (h_in_open h) ?c ns \<noteq> None" for ns
    using assms(2) by (intro manifest_rows_defined) auto
  then obtain rows where "(case h_readdir h (files (rcx rs)) of None \<Rightarrow> Some [] | Some ns \<Rightarrow> manifest_rows (h_entropy h) (h_in_open h) ?c ns) = Some rows"
    by (cases "h_readdir h (files (rcx rs))") auto
  then obtain c1 t where c1: "write_manifest env (h_entropy h) (h_in_open h) (h_readdir h (files (rcx rs))) (rcx rs) = Some c1"
    "files c1 = (files (rcx rs))(manifest_name \<mapsto> t)"
    using ot by (simp add: write_manifest_def Let_def)
  have "CHECKPOINT_FILE \<noteq> manifest_name" by (simp add: CHECKPOINT_FILE_def manifest_name_def)
  then have "files (rcx (clear_checkpoint (rs\<lparr>rcx := c1\<rparr>))) = (files (rcx rs))(manifest_name \<mapsto> t, CHECKPOINT_FILE := None)"
    using c1(2) by (auto simp: clear_checkpoint_def unlink_def fun_eq_iff)
  then show ?thesis using c1(1) by (auto simp: finish_run_def Let_def close_journal_def)
qed

text \<open>What the set-up of a run on a fresh directory gives to the phases.\<close>

definition fresh_setup :: "env \<Rightarrow> host \<Rightarrow> options \<Rightarrow> nat \<Rightarrow> blk64_t \<Rightarrow> recover_context \<Rightarrow> bool" where
  "fresh_setup env h o' bsz tot c \<longleftrightarrow> h_dev_open h \<and> is_on_device (h_stat_dir h) (h_stat_dev h) \<noteq> 1 \<and>
     (case h_fs h of None \<Rightarrow> False
      | Some fs \<Rightarrow> fst fs = bsz \<and> fst (snd fs) = tot \<and> init_cluster_info (fst (snd (snd fs))) \<noteq> None \<and>
          setup_names env (open_context env fs (rcx (start_run o' Map.empty))) = Some c)"

lemma fresh_setup_inv:
  assumes "fresh_setup env h o' bsz tot c" "\<forall>n. malloc_ok env n" "\<forall>b < tot. dev_pread env (unat b * bsz) bsz = sub_buf dev (unat b * bsz) bsz"
    "\<forall>b < tot. length (sub_buf dev (unat b * bsz) bsz) = bsz"
  shows "phase_inv env dev bsz tot (fm_map (names c)) [] c"
proof -
  obtain sb gr where s: "h_fs h = Some (bsz, tot, sb, gr)" "setup_names env (open_context env (bsz, tot, sb, gr) (rcx (start_run o' Map.empty))) = Some c"
    using assms(1) by (auto simp: fresh_setup_def split: option.splits)
  let ?c = "open_context env (bsz, tot, sb, gr) (rcx (start_run o' Map.empty))"
  note k = setup_names_kept [OF s(2) assms(2)]
  have o: "blocksize ?c = bsz" "total_blocks ?c = tot" "files ?c = Map.empty" "name_claims (names ?c) = []"
    using start_run_fresh [of o'] by (simp_all add: open_context_def base_ctx_def no_names_def)
  have f: "blocksize c = blocksize ?c" "total_blocks c = total_blocks ?c" "files c = files ?c"
  proof -
    have e: "c = ?c\<lparr>names := names c\<rparr>" using k unfolding only_names_def by blast
    show "blocksize c = blocksize ?c" "total_blocks c = total_blocks ?c" "files c = files ?c" by (subst e, simp)+
  qed
  then show ?thesis using k o assms(3,4)
    by (simp add: phase_inv_def name_rule_def claims_inv_def block_reads_ok_def pread_block_def)
qed

section \<open>Properties\<close>

text \<open>Property C38: the name table is well-formed after the set-up, whatever live directories, the slack of their blocks and
  the journal contain: the scans change nothing else, every lookup ends, and every name in the table is a single path component of
  at most 255 characters other than \<open>.\<close> and \<open>..\<close>.\<close>

theorem setup_names_well_formed:
  assumes "setup_names env ctx = Some ctx'" and "\<forall>n. malloc_ok env n"
  shows "ctx' = ctx\<lparr>names := names ctx'\<rparr> \<and> fm_inv (names ctx') \<and>
    (\<forall>ino. ino \<noteq> 0 \<longrightarrow> (\<exists>r. get_filename_for_inode (names ctx') ino = Some r \<and>
       (\<forall>name. r = Some name \<longrightarrow> filename_is_safe name \<and> length name \<le> 255)))"
proof -
  have k: "only_names ctx ctx'" "fm_inv (names ctx')" using setup_names_kept [OF assms] by auto
  show ?thesis
    using k(1) get_filename_model [OF k(2)] fm_map_bounds [OF k(2)] k(2) unfolding only_names_def by auto
qed

definition normal_env :: env where
  "normal_env = tree_env\<lparr>lib_inode_scan := Some [Scan_bad_block, Scan_inode 7 tree_inode]\<rparr>"

lemma normal_env_setup:
  assumes "\<not> has_journal c"
  shows "\<exists>st. setup_names normal_env c = Some (c\<lparr>names := st\<rparr>) \<and> fm_map st = Map.empty"
proof -
  obtain st where st: "init_filename_map True True (names c) = Some (0, st)" "fm_map st = Map.empty"
    using init_filename_map_inv by blast
  have "malloc_ok normal_env n" for n by (simp add: normal_env_def tree_env_def ideal_env_def)
  then have "setup_names normal_env c = Some (c\<lparr>names := st\<rparr>)"
    using st(1) assms by (simp add: setup_names_def parse_directory_blocks_def scan_ghost_dirents_def normal_env_def visit_dir_def
        tree_inode_def LINUX_S_ISDIR_def)
  then show ?thesis using st(2) by blast
qed

theorem setup_names_well_formed_witness:
  "\<exists>ctx'. setup_names normal_env (base_ctx 24 3) = Some ctx' \<and> fm_inv (names ctx') \<and> files ctx' = Map.empty"
proof -
  have m: "\<forall>n. malloc_ok normal_env n" "\<not> has_journal (base_ctx 24 3)"
    by (simp_all add: normal_env_def tree_env_def ideal_env_def base_ctx_def)
  obtain st where st: "setup_names normal_env (base_ctx 24 3) = Some ((base_ctx 24 3)\<lparr>names := st\<rparr>)"
    using normal_env_setup [OF m(2)] by blast
  show ?thesis using setup_names_well_formed [OF st m(1)] st by (simp add: base_ctx_def)
qed

text \<open>Property C1: a run with \<^verbatim>\<open>--normal\<close> recovers everything that is intact.  Let the recovery directory be empty and every
  deleted regular file with extents either intact or beyond recovery, the names of the directories not of the form the
  program generates itself, and no recovered content begin like an OLE document.  Then the run ends with status 0, its result is
  unique, and the directory holds, besides the manifest, exactly one file for every intact inode, with exactly the
  bytes of its tree, under the inode's directory name or its number, no two under the same name.\<close>

theorem main_run_normal_exact:
  assumes cli: "parse_args args default_options = Run o'" "o_mode o' = RECOVER_MODE_NORMAL"
    and start: "fresh_setup env h o' bsz tot c"
    and io: "io_ok env dev" "\<forall>n. out_open env n" "\<forall>b < tot. dev_pread env (unat b * bsz) bsz = sub_buf dev (unat b * bsz) bsz"
      "\<forall>b < tot. length (sub_buf dev (unat b * bsz) bsz) = bsz"
    and scan: "lib_inode_scan env = Some items" "distinct (map fst (reached items))"
    and kind: "\<forall>x \<in> set (reached items). selected x \<longrightarrow> intact env dev bsz tot x \<or> hopeless env tot x"
    and plain: "\<forall>j n. fm_map (names c) j = Some n \<longrightarrow> \<not> reserved n"
    and probe: "\<forall>x \<in> set (reached items). \<forall>f. tree_content dev bsz tot (snd x) = Some f \<longrightarrow> probe_safe f"
  shows "\<exists>ctx' ps. (\<forall>r d. main_run env h args Map.empty r d \<longleftrightarrow> r = 0 \<and> d = ctx') \<and>
    (\<forall>n. n \<noteq> manifest_name \<longrightarrow> files ctx' n = map_of (map snd ps) n) \<and>
    map (\<lambda>(j, n, f). (j, Some f)) ps =
      map (\<lambda>(j, d). (j, tree_content dev bsz tot d)) (filter (\<lambda>x. selected x \<and> intact env dev bsz tot x) (reached items)) \<and>
    name_rule (fm_map (names c)) ps"
proof -
  define rs where "rs = (start_run o' Map.empty)\<lparr>rcx := c\<rparr>"
  have mem: "\<forall>n. malloc_ok env n" using io(1) by (simp add: io_ok_def)
  have md: "mode rs = RECOVER_MODE_NORMAL" "rcx rs = c" "mode (start_run o' Map.empty) = RECOVER_MODE_NORMAL"
    using start_run_fresh [of o'] cli(2) by (auto simp: rs_def)
  obtain c1 ps where c1: "normal_scan env items c = Some c1" "phase_inv env dev bsz tot (fm_map (names c)) ps c1"
    "map (\<lambda>(j, n, f). (j, Some f)) ps = map (\<lambda>(j, d). (j, tree_content dev bsz tot d)) (filter (produce env dev bsz tot) (reached items))"
    using normal_scan_inv [OF plain io(1,2) fresh_setup_inv [OF start mem io(3,4)] scan(2) _ kind] by auto
  have ps: "files c1 = map_of (map snd ps)" "name_rule (fm_map (names c)) ps" using c1(2) by (simp_all add: phase_inv_def)
  define rs1 where "rs1 = checkpointed env rs c1"
  have ph: "phases env h nw rs r1 \<longleftrightarrow> r1 = rs1" for nw r1
    using normal_phases [OF md(1) scan(1)] c1(1) md(2) by (simp add: rs1_def)
  obtain t where t: "files (rcx rs1) = (map_of (map snd ps))(CHECKPOINT_FILE \<mapsto> t)"
    using checkpointed_files [OF io(2)] ps(1) unfolding rs1_def by metis
  have safe: "n \<noteq> [] \<and> probe_safe f" if p: "(j, n, f) \<in> set ps" for j n f
  proof -
    have "(j, Some f) \<in> set (map (\<lambda>(j, n, f). (j, Some f)) ps)" using p by force
    then have "probe_safe f" unfolding c1(3) using probe by force
    moreover have "fm_inv (names c)" using fresh_setup_inv [OF start mem io(3,4)] by (simp add: phase_inv_def)
    then have "n \<noteq> []" using ps(2) p fallback_safe [of j] fm_map_bounds [of "names c" j n] by (auto simp: name_rule_def filename_is_safe_def)
    ultimately show ?thesis by simp
  qed
  obtain c' t' where c': "finish_run env h rs1 = Some c'" "files c' = (files (rcx rs1))(manifest_name \<mapsto> t', CHECKPOINT_FILE := None)"
  proof -
    have "n \<noteq> [] \<and> (hd n = CHR ''.'' \<or> n = manifest_name \<or> probe_safe f)" if "files (rcx rs1) n = Some f" for n f
    proof (cases "n = CHECKPOINT_FILE")
      case True
      then show ?thesis by (simp add: CHECKPOINT_FILE_def)
    next
      case False
      then have "(n, f) \<in> snd ` set ps" using map_of_SomeD [of "map snd ps"] that by (simp add: t)
      then show ?thesis using safe by force
    qed
    then show ?thesis using finish_run_files [OF io(2), of rs1 h] that by blast
  qed
  have res: "files c' n = map_of (map snd ps) n" if "n \<noteq> manifest_name" for n
  proof (cases "n = CHECKPOINT_FILE")
    case True
    have "CHECKPOINT_FILE \<notin> fst ` set (map snd ps)" using reserved_names [OF ps(2) plain] by force
    then have "map_of (map snd ps) CHECKPOINT_FILE = None" unfolding map_of_eq_None_iff .
    then show ?thesis using True c'(2) by simp
  next
    case False
    then show ?thesis using that c'(2) t by simp
  qed
  have "main_run env h args Map.empty r d \<longleftrightarrow> r = 0 \<and> d = c'" for r d
  proof -
    obtain fs where fs: "h_fs h = Some fs" "init_cluster_info (fst (snd (snd fs))) \<noteq> None" "h_dev_open h"
      "is_on_device (h_stat_dir h) (h_stat_dev h) \<noteq> 1" "setup_names env (open_context env fs (rcx (start_run o' Map.empty))) = Some c"
      using start by (auto simp: fresh_setup_def split: option.splits)
    have "super (open_context env fs x) = fst (snd (snd fs))" for x by (cases fs) (simp add: open_context_def)
    moreover have "setup_journal env RECOVER_MODE_NORMAL x = x" for x by (simp add: setup_journal_def mode_defs)
    ultimately show ?thesis
      using fs ph c'(1) md(3) by (auto simp: main_run_def cli(1) Let_def rs_def [symmetric])
  qed
  then show ?thesis using res c1(3) ps(2) by (intro exI [of _ c'] exI [of _ ps]) (auto simp: produce_def [abs_def])
qed

theorem main_run_normal_exact_witness:
  "\<exists>ctx'. main_run normal_env plain_host [''--normal'', ''/dev/sdb''] Map.empty 0 ctx' \<and>
     files ctx' ''7_file'' = Some (map of_nat [1..<25])"
proof -
  let ?a = "[''--normal'', ''/dev/sdb'']"
  define o' where "o' = default_options\<lparr>o_mode := RECOVER_MODE_NORMAL, o_device := Some ''/dev/sdb''\<rparr>"
  have args: "parse_args ?a default_options = Run o'" "o_mode o' = RECOVER_MODE_NORMAL" by (simp_all add: o'_def default_options_def)
  define c1 where "c1 = open_context normal_env (24, 3, no_super, 1) (rcx (start_run o' Map.empty))"
  have hj: "\<not> has_journal c1" using start_run_fresh [of o'] by (auto simp: c1_def open_context_def base_ctx_def)
  obtain st where st: "setup_names normal_env c1 = Some (c1\<lparr>names := st\<rparr>)" "fm_map st = Map.empty" using normal_env_setup [OF hj] by blast
  have start: "fresh_setup normal_env plain_host o' 24 3 (c1\<lparr>names := st\<rparr>)"
    using st(1) by (simp add: fresh_setup_def plain_host_def is_on_device_def init_cluster_info_def no_super_def c1_def)
  have io: "io_ok normal_env tree_dev" "\<forall>n. out_open normal_env n"
    using tree_env_ok(1) by (auto simp: normal_env_def io_ok_def dev_faithful_def out_faithful_def tree_env_def ideal_env_def)
  have rd: "\<forall>b < (3 :: blk64_t). dev_pread normal_env (unat b * 24) 24 = sub_buf tree_dev (unat b * 24) 24"
    by (simp add: normal_env_def tree_env_def sub_buf_def)
  have ln: "\<forall>b < (3 :: blk64_t). length (sub_buf tree_dev (unat b * 24) 24) = 24"
    using tree_example(5) by (auto simp: sub_buf_def word_less_nat_alt)
  have sc: "lib_inode_scan normal_env = Some [Scan_bad_block, Scan_inode 7 tree_inode]" by (simp add: normal_env_def)
  have b: "i_block tree_inode = idx_node 1" by (simp add: tree_inode_def)
  have ct: "tree_content tree_dev 24 3 tree_inode = Some (map of_nat [1..<25])"
    using tree_example by (simp add: tree_content_def b)
  have int: "intact normal_env tree_dev 24 3 (7, tree_inode)"
    using tree_example by (simp add: intact_def b normal_env_def tree_env_def)
  have "eh_magic (header_at (idx_node 1)) = EXT4_EXT_MAGIC"
    by (simp add: idx_node_def header_at_def le16_at_def sub_buf_def EXT4_EXT_MAGIC_def)
  then have sel: "selected (7, tree_inode)"
    by (simp add: selected_def b) (simp add: tree_inode_def LINUX_S_ISREG_def EXT4_EXTENTS_FL_def)
  have pr: "probe_safe (map of_nat [1..<25])" by (simp add: probe_safe_def upt_rec)
  have nm: "names (c1\<lparr>names := st\<rparr>) = st" by simp
  let ?items = "[Scan_bad_block, Scan_inode 7 tree_inode]"
  have h: "distinct (map fst (reached ?items))"
    "\<forall>x \<in> set (reached ?items). selected x \<longrightarrow> intact normal_env tree_dev 24 3 x \<or> hopeless normal_env 3 x"
    "\<forall>j n. fm_map (names (c1\<lparr>names := st\<rparr>)) j = Some n \<longrightarrow> \<not> reserved n"
    "\<forall>x \<in> set (reached ?items). \<forall>f. tree_content tree_dev 24 3 (snd x) = Some f \<longrightarrow> probe_safe f"
    using int ct pr st(2) by simp_all
  have "filter (\<lambda>x. selected x \<and> intact normal_env tree_dev 24 3 x) (reached ?items) = [(7, tree_inode)]" using sel int by simp
  note main_run_normal_exact [OF args start io rd ln sc h, unfolded this nm st(2) list.map prod.case ct]
  then obtain ctx' ps where r: "main_run normal_env plain_host ?a Map.empty 0 ctx'"
    "\<forall>n. n \<noteq> manifest_name \<longrightarrow> files ctx' n = map_of (map snd ps) n"
    "map (\<lambda>(j, n, f). (j, Some f)) ps = [(7, Some (map of_nat [1..<25]))]" "name_rule Map.empty ps"
    by (elim exE conjE) (rule that, simp_all only: simp_thms)
  obtain n where ps: "ps = [(7, n, map of_nat [1..<25])]" using r(3) by (auto simp: map_eq_Cons_conv)
  have "fallback_name 7 = ''7_file''" by code_simp
  then have "n = ''7_file''" using r(4) ps by (simp add: name_rule_def)
  then have "files ctx' ''7_file'' = Some (map of_nat [1..<25])" using r(2) ps by (simp add: manifest_name_def)
  then show ?thesis using r(1) by blast
qed

end
