(* ===== verification/Scan_Wakeups.thy ===== *)
theory Scan_Wakeups
  imports Parallel_Scan
begin

text \<open>
  The condition variables of the parallel scan (\<^verbatim>\<open>parallel_scan.c\<close>).  \<open>Parallel_Scan\<close> lets a blocked thread look
  again at any time; here a thread that finds its slot not ready goes to sleep in \<^verbatim>\<open>pthread_cond_wait\<close> and runs
  again only when somebody broadcasts on the condition variable of that slot.  A step is one critical section, or one
  unlocked stretch of code.  The test \<^verbatim>\<open>sc->reader_done && my_chunk >= sc->total_chunks\<close> of a worker, which does not
  take the gate, is one step: the reader writes \<^verbatim>\<open>total_chunks\<close> for the last time before it sets the flag.  The two critical sections
  at the end of the writer's loop are one step: nobody else reads \<^verbatim>\<open>next_chunk_to_write\<close>.
\<close>

section \<open>State\<close>

datatype thread = T_reader | T_worker nat | T_writer

text \<open>Where the reader is: in its loop, between its two stores to \<^verbatim>\<open>total_chunks\<close>, in its last loop, or gone.\<close>

datatype reader_pc = R_loop | R_gate | R_bcast nat | R_exit

record cond_scan =
  st :: scan_ctx
  rpc :: reader_pc
  asleep :: "thread \<Rightarrow> nat option"

definition broadcast :: "nat \<Rightarrow> cond_scan \<Rightarrow> cond_scan" where
  "broadcast j c = c\<lparr>asleep := (\<lambda>t. if asleep c t = Some j then None else asleep c t)\<rparr>"

definition cond_wait :: "thread \<Rightarrow> nat \<Rightarrow> cond_scan \<Rightarrow> cond_scan" where
  "cond_wait t j c = c\<lparr>asleep := (asleep c)(t \<mapsto> j)\<rparr>"

definition init_cond :: "scan_par \<Rightarrow> recover_context \<Rightarrow> cond_scan" where
  "init_cond p ctx = \<lparr>st = init_scan p ctx, rpc = R_loop, asleep = (\<lambda>_. None)\<rparr>"

section \<open>Steps\<close>

inductive cstep :: "scan_par \<Rightarrow> cond_scan \<Rightarrow> cond_scan \<Rightarrow> bool" for p where
  CReader_fill: "rpc c = R_loop \<Longrightarrow> asleep c T_reader = None \<Longrightarrow> r_cur (st c) < p_end p \<Longrightarrow>
    sl_state (slot_of (st c) (r_chunk (st c))) = SLOT_EMPTY \<Longrightarrow>
    cstep p c (broadcast (slot_for_chunk (r_chunk (st c))) (c\<lparr>st := reader_fill p (st c)\<rparr>))"
| CReader_wait: "rpc c = R_loop \<Longrightarrow> asleep c T_reader = None \<Longrightarrow> r_cur (st c) < p_end p \<Longrightarrow>
    sl_state (slot_of (st c) (r_chunk (st c))) \<noteq> SLOT_EMPTY \<Longrightarrow>
    cstep p c (cond_wait T_reader (slot_for_chunk (r_chunk (st c))) c)"
| CReader_total: "rpc c = R_loop \<Longrightarrow> asleep c T_reader = None \<Longrightarrow> \<not> r_cur (st c) < p_end p \<Longrightarrow>
    cstep p c (c\<lparr>st := (st c)\<lparr>total_chunks := int (r_chunk (st c))\<rparr>, rpc := R_gate\<rparr>)"
| CReader_done: "rpc c = R_gate \<Longrightarrow>
    cstep p c (c\<lparr>st := (st c)\<lparr>reader_done := True, total_chunks := int (r_chunk (st c))\<rparr>, rpc := R_bcast 0\<rparr>)"
| CReader_bcast: "rpc c = R_bcast j \<Longrightarrow> j < RING_SLOTS \<Longrightarrow> cstep p c (broadcast j (c\<lparr>rpc := R_bcast (j + 1)\<rparr>))"
| CReader_return: "rpc c = R_bcast j \<Longrightarrow> \<not> j < RING_SLOTS \<Longrightarrow> cstep p c (c\<lparr>rpc := R_exit\<rparr>)"
| CWorker_claim: "i < p_workers p \<Longrightarrow> wpc (st c) i = W_claim \<Longrightarrow> \<not> past_end (st c) (next_chunk_to_read (st c)) \<Longrightarrow>
    cstep p c (c\<lparr>st := set_wpc ((st c)\<lparr>next_chunk_to_read := next_chunk_to_read (st c) + 1\<rparr>) i (W_wait (next_chunk_to_read (st c)))\<rparr>)"
| CWorker_leave: "i < p_workers p \<Longrightarrow> wpc (st c) i = W_claim \<Longrightarrow> past_end (st c) (next_chunk_to_read (st c)) \<Longrightarrow>
    cstep p c (c\<lparr>st := set_wpc (st c) i W_exit\<rparr>)"
| CWorker_take: "i < p_workers p \<Longrightarrow> wpc (st c) i = W_wait k \<Longrightarrow> asleep c (T_worker i) = None \<Longrightarrow> filled_with (st c) k \<Longrightarrow>
    cstep p c (c\<lparr>st := set_wpc (set_slot (st c) k ((slot_of (st c) k)\<lparr>sl_state := SLOT_PROCESSING\<rparr>)) i (W_scan k)\<rparr>)"
| CWorker_bail: "i < p_workers p \<Longrightarrow> wpc (st c) i = W_wait k \<Longrightarrow> asleep c (T_worker i) = None \<Longrightarrow> \<not> filled_with (st c) k \<Longrightarrow>
    past_end (st c) k \<Longrightarrow> cstep p c (c\<lparr>st := set_wpc (st c) i W_exit\<rparr>)"
| CWorker_wait: "i < p_workers p \<Longrightarrow> wpc (st c) i = W_wait k \<Longrightarrow> asleep c (T_worker i) = None \<Longrightarrow> \<not> filled_with (st c) k \<Longrightarrow>
    \<not> past_end (st c) k \<Longrightarrow> cstep p c (cond_wait (T_worker i) (slot_for_chunk k) c)"
| CWorker_finish: "i < p_workers p \<Longrightarrow> wpc (st c) i = W_scan k \<Longrightarrow>
    cstep p c (broadcast (slot_for_chunk k) (c\<lparr>st := set_wpc (worker_finish p (st c) k) i W_claim\<rparr>))"
| CWriter_want: "dpc (st c) = D_want \<Longrightarrow> \<not> past_end (st c) (next_chunk_to_write (st c)) \<Longrightarrow>
    cstep p c (c\<lparr>st := (st c)\<lparr>dpc := D_wait (next_chunk_to_write (st c))\<rparr>\<rparr>)"
| CWriter_exit: "dpc (st c) = D_want \<Longrightarrow> past_end (st c) (next_chunk_to_write (st c)) \<Longrightarrow>
    cstep p c (c\<lparr>st := (st c)\<lparr>dpc := D_exit\<rparr>\<rparr>)"
| CWriter_take: "dpc (st c) = D_wait k \<Longrightarrow> asleep c T_writer = None \<Longrightarrow> done_with (st c) k \<Longrightarrow>
    cstep p c (c\<lparr>st := writer_take (st c) k\<rparr>)"
| CWriter_bail: "dpc (st c) = D_wait k \<Longrightarrow> asleep c T_writer = None \<Longrightarrow> \<not> done_with (st c) k \<Longrightarrow> past_end (st c) k \<Longrightarrow>
    cstep p c (c\<lparr>st := (st c)\<lparr>dpc := D_exit\<rparr>\<rparr>)"
| CWriter_wait: "dpc (st c) = D_wait k \<Longrightarrow> asleep c T_writer = None \<Longrightarrow> \<not> done_with (st c) k \<Longrightarrow> \<not> past_end (st c) k \<Longrightarrow>
    cstep p c (cond_wait T_writer (slot_for_chunk k) c)"
| CWriter_dump: "dpc (st c) = D_dump k (h # hs) \<Longrightarrow>
    dump_hit (p_env p) (p_bs p) h (rctx (st c), found (st c)) = Some (ctx', n') \<Longrightarrow>
    cstep p c (c\<lparr>st := (st c)\<lparr>rctx := ctx', found := n', dpc := D_dump k hs\<rparr>\<rparr>)"
| CWriter_recycle: "dpc (st c) = D_dump k [] \<Longrightarrow>
    cstep p c (broadcast (slot_for_chunk k) (c\<lparr>st := writer_recycle (st c) k\<rparr>))"

text \<open>POSIX also lets a sleeping thread wake up on its own.\<close>

inductive spurious :: "cond_scan \<Rightarrow> cond_scan \<Rightarrow> bool" where
  "asleep c t = Some j \<Longrightarrow> spurious c (c\<lparr>asleep := (asleep c)(t := None)\<rparr>)"

definition all_returned :: "scan_par \<Rightarrow> cond_scan \<Rightarrow> bool" where
  "all_returned p c \<longleftrightarrow> rpc c = R_exit \<and> all_exited p (st c)"

section \<open>A run with condition variables is a run\<close>

text \<open>The abstract state does not show the first store to \<^verbatim>\<open>total_chunks\<close>, which nobody may read yet.\<close>

definition untold :: "scan_ctx \<Rightarrow> scan_ctx" where
  "untold s = (if reader_done s then s else s\<lparr>total_chunks := -1\<rparr>)"

lemma untold_fields [simp]:
  "slots (untold s) = slots s" "next_chunk_to_read (untold s) = next_chunk_to_read s"
  "next_chunk_to_write (untold s) = next_chunk_to_write s" "reader_done (untold s) = reader_done s"
  "r_chunk (untold s) = r_chunk s" "r_cur (untold s) = r_cur s" "wpc (untold s) = wpc s" "dpc (untold s) = dpc s"
  "rctx (untold s) = rctx s" "found (untold s) = found s" "past_end (untold s) k = past_end s k"
  "filled_with (untold s) k = filled_with s k" "done_with (untold s) k = done_with s k"
  by (simp_all add: untold_def past_end_def filled_with_def done_with_def)

lemma untold_ops:
  "untold (reader_fill p s) = reader_fill p (untold s)" "untold (set_wpc s i pc) = set_wpc (untold s) i pc"
  "untold (set_slot s k sl) = set_slot (untold s) k sl" "untold (worker_finish p s k) = worker_finish p (untold s) k"
  "untold (writer_take s k) = writer_take (untold s) k" "untold (writer_recycle s k) = writer_recycle (untold s) k"
  "untold (s\<lparr>dpc := d\<rparr>) = (untold s)\<lparr>dpc := d\<rparr>" "untold (s\<lparr>next_chunk_to_read := n\<rparr>) = (untold s)\<lparr>next_chunk_to_read := n\<rparr>"
  "untold (s\<lparr>rctx := x, found := f\<rparr>) = (untold s)\<lparr>rctx := x, found := f\<rparr>"
  by (auto simp: untold_def reader_fill_def set_wpc_def set_slot_def worker_finish_def writer_take_def writer_recycle_def
      Let_def split: prod.splits)

lemma untold_done: "untold (s\<lparr>reader_done := True, total_chunks := int (r_chunk s)\<rparr>) =
    (untold s)\<lparr>reader_done := True, total_chunks := int (r_chunk s)\<rparr>"
  by (simp add: untold_def)

lemma broadcast_st [simp]: "st (broadcast j c) = st c" "rpc (broadcast j c) = rpc c" "st (cond_wait t j c) = st c" "rpc (cond_wait t j c) = rpc c"
  by (simp_all add: broadcast_def cond_wait_def)

definition rpc_ok :: "scan_par \<Rightarrow> cond_scan \<Rightarrow> bool" where
  "rpc_ok p c \<longleftrightarrow>
     (case rpc c of
        R_loop \<Rightarrow> \<not> reader_done (st c)
      | R_gate \<Rightarrow> \<not> reader_done (st c) \<and> \<not> r_cur (st c) < p_end p
      | R_bcast j \<Rightarrow> reader_done (st c) \<and> j \<le> RING_SLOTS
      | R_exit \<Rightarrow> reader_done (st c))"

text \<open>A step goes to sleep, advances the last part of the reader, or is a step of \<open>Parallel_Scan\<close>.\<close>

definition threads :: "scan_par \<Rightarrow> thread set" where
  "threads p = insert T_reader (insert T_writer (T_worker ` {..<p_workers p}))"

definition rrank :: "reader_pc \<Rightarrow> nat" where
  "rrank r = (case r of R_loop \<Rightarrow> 19 | R_gate \<Rightarrow> 18 | R_bcast j \<Rightarrow> 17 - j | R_exit \<Rightarrow> 0)"

lemma cstep_pstep:
  assumes "cstep p c c'" "rpc_ok p c"
  shows "(\<exists>t j. c' = cond_wait t j c \<and> t \<in> threads p \<and> asleep c t = None) \<or>
    untold (st c') = untold (st c) \<and> rrank (rpc c') < rrank (rpc c) \<or>
    pstep p (untold (st c)) (untold (st c')) \<and> rrank (rpc c') \<le> rrank (rpc c)"
  using assms(1)
proof (cases rule: cstep.cases)
  case CReader_fill
  then show ?thesis using assms(2) pstep.Reader_fill [of "untold (st c)" p] by (simp add: untold_ops rpc_ok_def)
next
  case CReader_total
  then show ?thesis using assms(2) by (simp add: untold_def rpc_ok_def rrank_def)
next
  case CReader_done
  then show ?thesis using assms(2) pstep.Reader_finish [of "untold (st c)" p] by (simp add: untold_done rpc_ok_def rrank_def)
next
  case (CReader_bcast j)
  then have "rrank (rpc c') < rrank (rpc c)" by (simp add: rrank_def RING_SLOTS_def)
  then show ?thesis using CReader_bcast by simp
next
  case (CReader_return j)
  then show ?thesis using assms(2) by (simp add: rrank_def rpc_ok_def RING_SLOTS_def)
next
  case (CWorker_claim i)
  then show ?thesis using pstep.Worker_claim [of i p "untold (st c)"] by (simp add: untold_ops)
next
  case (CWorker_leave i)
  then show ?thesis using pstep.Worker_leave [of i p "untold (st c)"] by (simp add: untold_ops)
next
  case (CWorker_take i k)
  then show ?thesis using pstep.Worker_take [of i p "untold (st c)" k] by (simp add: untold_ops)
next
  case (CWorker_bail i k)
  then show ?thesis using pstep.Worker_bail [of i p "untold (st c)" k] by (simp add: untold_ops)
next
  case (CWorker_finish i k)
  then show ?thesis using pstep.Worker_finish [of i p "untold (st c)" k] by (simp add: untold_ops)
next
  case CWriter_want
  then show ?thesis using pstep.Writer_want [of "untold (st c)" p] by (simp add: untold_ops)
next
  case CWriter_exit
  then show ?thesis using pstep.Writer_exit [of "untold (st c)" p] by (simp add: untold_ops)
next
  case (CWriter_take k)
  then show ?thesis using pstep.Writer_take [of "untold (st c)" k p] by (simp add: untold_ops)
next
  case (CWriter_bail k)
  then show ?thesis using pstep.Writer_bail [of "untold (st c)" k p] by (simp add: untold_ops)
next
  case (CWriter_dump k h hs x n)
  then show ?thesis using pstep.Writer_dump [of "untold (st c)" k h hs p x n] by (simp add: untold_ops)
next
  case (CWriter_recycle k)
  then show ?thesis using pstep.Writer_recycle [of "untold (st c)" k p] by (simp add: untold_ops)
qed (auto simp: threads_def)

section \<open>No wake-up is lost\<close>

text \<open>Why a sleeping thread sleeps: what it waits for has not happened, or the broadcast that tells it is still to come.\<close>

definition to_come :: "cond_scan \<Rightarrow> nat \<Rightarrow> bool" where
  "to_come c j \<longleftrightarrow> (\<exists>b. rpc c = R_bcast b \<and> b \<le> j)"

definition waits :: "scan_par \<Rightarrow> cond_scan \<Rightarrow> thread \<Rightarrow> nat \<Rightarrow> bool" where
  "waits p c t j \<longleftrightarrow>
     (case t of
        T_reader \<Rightarrow> rpc c = R_loop \<and> r_cur (st c) < p_end p \<and> j = slot_for_chunk (r_chunk (st c)) \<and>
          sl_state (slot_of (st c) (r_chunk (st c))) \<noteq> SLOT_EMPTY
      | T_worker i \<Rightarrow> i < p_workers p \<and> (\<exists>k. wpc (st c) i = W_wait k \<and> j = slot_for_chunk k \<and> \<not> filled_with (st c) k \<and>
          (past_end (st c) k \<longrightarrow> to_come c j))
      | T_writer \<Rightarrow> (\<exists>k. dpc (st c) = D_wait k \<and> j = slot_for_chunk k \<and> \<not> done_with (st c) k \<and>
          (past_end (st c) k \<longrightarrow> to_come c j)))"

definition cinv :: "scan_par \<Rightarrow> recover_context \<Rightarrow> cond_scan \<Rightarrow> bool" where
  "cinv p ctx c \<longleftrightarrow> pinv p ctx (untold (st c)) \<and> rpc_ok p c \<and> (\<forall>t j. asleep c t = Some j \<longrightarrow> waits p c t j)"

lemma init_cinv: "par_ok p \<Longrightarrow> cinv p ctx (init_cond p ctx)"
  using init_pinv [of p ctx] by (simp add: cinv_def init_cond_def rpc_ok_def) (simp add: untold_def init_scan_def)

lemma cstep_rpc_ok:
  assumes "cstep p c c'" "rpc_ok p c"
  shows "rpc_ok p c'"
  using assms
  by (cases rule: cstep.cases)
    (auto simp: rpc_ok_def broadcast_def cond_wait_def reader_fill_def set_wpc_def set_slot_def worker_finish_def
      writer_take_def writer_recycle_def Let_def split: reader_pc.splits prod.splits)

lemma slot_for_chunk_less: "slot_for_chunk k < RING_SLOTS"
  by (simp add: slot_for_chunk_def RING_SLOTS_def)

lemma waits_cong: "st c' = st c \<Longrightarrow> rpc c' = rpc c \<Longrightarrow> waits p c' t j = waits p c t j"
  by (simp add: waits_def to_come_def split: thread.split)

text \<open>A sleeper keeps its reason as long as nothing it waits for happens at its slot.\<close>

lemma waits_stable:
  assumes w: "waits p c t j"
    and slot: "\<And>k. slot_for_chunk k = j \<Longrightarrow> (filled_with (st c') k \<longrightarrow> filled_with (st c) k) \<and>
      (done_with (st c') k \<longrightarrow> done_with (st c) k) \<and>
      (sl_state (slot_of (st c') k) = SLOT_EMPTY \<longrightarrow> sl_state (slot_of (st c) k) = SLOT_EMPTY)"
    and pc: "case t of T_reader \<Rightarrow> rpc c' = rpc c \<and> r_cur (st c') = r_cur (st c) \<and> r_chunk (st c') = r_chunk (st c)
      | T_worker i \<Rightarrow> wpc (st c') i = wpc (st c) i | T_writer \<Rightarrow> dpc (st c') = dpc (st c)"
    and told: "\<And>k. past_end (st c') k \<Longrightarrow> to_come c' j \<or> past_end (st c) k \<and> \<not> to_come c j"
  shows "waits p c' t j"
proof (cases t)
  case T_reader
  then show ?thesis using w pc slot [of "r_chunk (st c)"] by (auto simp: waits_def)
next
  case (T_worker i)
  then obtain k where "i < p_workers p" "wpc (st c) i = W_wait k" "j = slot_for_chunk k" "\<not> filled_with (st c) k"
    "past_end (st c) k \<longrightarrow> to_come c j" using w by (auto simp: waits_def)
  then show ?thesis using T_worker pc slot [of k] told [of k] by (auto simp: waits_def)
next
  case T_writer
  then obtain k where "dpc (st c) = D_wait k" "j = slot_for_chunk k" "\<not> done_with (st c) k"
    "past_end (st c) k \<longrightarrow> to_come c j" using w by (auto simp: waits_def)
  then show ?thesis using T_writer pc slot [of k] told [of k] by (auto simp: waits_def)
qed

lemma broadcast_asleep: "asleep (broadcast i c) t = Some j \<longleftrightarrow> asleep c t = Some j \<and> i \<noteq> j"
  by (auto simp: broadcast_def)

lemma slot_ops:
  "slot_of (set_wpc s i pc) k = slot_of s k"
  "slot_of (set_slot s k' sl) k = (if slot_for_chunk k' = slot_for_chunk k then sl else slot_of s k)"
  "past_end (set_wpc s i pc) k = past_end s k" "past_end (set_slot s k' sl) k = past_end s k"
  "wpc (set_slot s k' sl) = wpc s" "dpc (set_slot s k' sl) = dpc s" "dpc (set_wpc s i pc) = dpc s"
  "wpc (set_wpc s i pc) i' = (if i' = i then pc else wpc s i')"
  "r_cur (set_slot s k' sl) = r_cur s" "r_cur (set_wpc s i pc) = r_cur s"
  "r_chunk (set_slot s k' sl) = r_chunk s" "r_chunk (set_wpc s i pc) = r_chunk s"
  by (auto simp: set_slot_def set_wpc_def past_end_def)

lemma finish_ops:
  "slot_for_chunk k \<noteq> slot_for_chunk k' \<Longrightarrow> slot_of (worker_finish p s k) k' = slot_of s k'"
  "past_end (worker_finish p s k) = past_end s" "wpc (worker_finish p s k) = wpc s" "dpc (worker_finish p s k) = dpc s"
  "r_cur (worker_finish p s k) = r_cur s" "r_chunk (worker_finish p s k) = r_chunk s"
  by (auto simp: worker_finish_def slot_ops Let_def fun_eq_iff split: prod.split)

lemma writer_ops:
  "sl_state (slot_of (writer_take s k) k') = sl_state (slot_of s k')" "sl_index (slot_of (writer_take s k) k') = sl_index (slot_of s k')"
  "slot_for_chunk k \<noteq> slot_for_chunk k' \<Longrightarrow> slot_of (writer_recycle s k) k' = slot_of s k'"
  "past_end (writer_take s k) = past_end s" "past_end (writer_recycle s k) = past_end s"
  "wpc (writer_take s k) = wpc s" "wpc (writer_recycle s k) = wpc s"
  "r_cur (writer_take s k) = r_cur s" "r_chunk (writer_take s k) = r_chunk s"
  "r_cur (writer_recycle s k) = r_cur s" "r_chunk (writer_recycle s k) = r_chunk s"
  by (auto simp: writer_take_def writer_recycle_def set_slot_def past_end_def Let_def fun_eq_iff)

lemma cstep_waits:
  assumes step: "cstep p c c'" and rp: "rpc_ok p c" and z: "\<forall>t j. asleep c t = Some j \<longrightarrow> waits p c t j"
    and a: "asleep c' t = Some j"
  shows "waits p c' t j"
proof -
  note ops = slot_ops filled_with_def done_with_def broadcast_asleep
  have w: "waits p c t j" if "asleep c t = Some j" using z that by simp
  have tc: "to_come c' j = to_come c j" if "rpc c' = rpc c" using that by (simp add: to_come_def)
  show ?thesis
    using step
  proof (cases rule: cstep.cases)
    case CReader_fill
    have "asleep c t = Some j" "j \<noteq> slot_for_chunk (r_chunk (st c))"
      using a CReader_fill(1) by (auto simp: broadcast_asleep)
    then show ?thesis using CReader_fill rp
      by (intro waits_stable [OF w]) (auto simp: ops reader_fill_def Let_def past_end_def rpc_ok_def split: thread.split)
  next
    case CReader_wait
    show ?thesis
    proof (cases "t = T_reader")
      case True
      then show ?thesis using a CReader_wait by (simp add: waits_def cond_wait_def)
    next
      case False
      then have "asleep c t = Some j" using a CReader_wait(1) by (simp add: cond_wait_def)
      then show ?thesis using w waits_cong [of c' c] CReader_wait(1) by simp
    qed
  next
    case CReader_total
    then have "asleep c t = Some j" "t \<noteq> T_reader" using a by auto
    then show ?thesis using CReader_total rp
      by (intro waits_stable [OF w]) (auto simp: ops past_end_def rpc_ok_def split: thread.split)
  next
    case CReader_done
    then have "asleep c t = Some j" using a by auto
    moreover from w [OF this] have "t \<noteq> T_reader" using CReader_done by (auto simp: waits_def)
    ultimately show ?thesis using CReader_done rp
      by (intro waits_stable [OF w]) (auto simp: ops to_come_def split: thread.split)
  next
    case (CReader_bcast b)
    then have s: "asleep c t = Some j" "j \<noteq> b" using a by (auto simp: broadcast_asleep)
    moreover from w [OF s(1)] have "t \<noteq> T_reader" using CReader_bcast by (auto simp: waits_def)
    ultimately show ?thesis using CReader_bcast rp
      by (intro waits_stable [OF w]) (auto simp: ops to_come_def split: thread.split)
  next
    case (CReader_return b)
    then have s: "asleep c t = Some j" using a by auto
    moreover from w [OF this] have "t \<noteq> T_reader" "j < RING_SLOTS"
      using CReader_return slot_for_chunk_less by (auto simp: waits_def split: thread.splits)
    ultimately show ?thesis using CReader_return rp
      by (intro waits_stable [OF w]) (auto simp: ops to_come_def split: thread.split)
  next
    case (CWorker_claim i)
    then have "asleep c t = Some j" "t \<noteq> T_worker i" using a w by (auto simp: waits_def)
    then show ?thesis using CWorker_claim tc
      by (intro waits_stable [OF w]) (auto simp: ops past_end_def split: thread.split)
  next
    case (CWorker_leave i)
    then have "asleep c t = Some j" "t \<noteq> T_worker i" using a w by (auto simp: waits_def)
    then show ?thesis using CWorker_leave tc
      by (intro waits_stable [OF w]) (auto simp: ops split: thread.split if_splits)
  next
    case (CWorker_take i k)
    then have s: "asleep c t = Some j" "t \<noteq> T_worker i" using a by auto
    have "sl_state (slot_of (st c') k') = (if slot_for_chunk k = slot_for_chunk k' then SLOT_PROCESSING else sl_state (slot_of (st c) k'))"
      "sl_index (slot_of (st c') k') = sl_index (slot_of (st c) k')" for k'
      using CWorker_take(1) by (simp_all add: set_wpc_def set_slot_def)
    moreover have "SLOT_FILLED = sl_state (slot_of (st c) k')" if "slot_for_chunk k = slot_for_chunk k'" for k'
      using CWorker_take(5) that by (simp add: filled_with_def)
    ultimately show ?thesis using CWorker_take(1) tc s(2)
      by (intro waits_stable [OF w [OF s(1)]]) (auto simp: slot_ops filled_with_def done_with_def split: thread.split if_splits)
  next
    case (CWorker_bail i k)
    then have "asleep c t = Some j" "t \<noteq> T_worker i" using a by auto
    then show ?thesis using CWorker_bail tc
      by (intro waits_stable [OF w]) (auto simp: ops split: thread.split if_splits)
  next
    case (CWorker_wait i k)
    show ?thesis
    proof (cases "t = T_worker i")
      case True
      then show ?thesis using a CWorker_wait by (simp add: waits_def cond_wait_def)
    next
      case False
      then have "asleep c t = Some j" using a CWorker_wait(1) by (simp add: cond_wait_def)
      then show ?thesis using w waits_cong [of c' c] CWorker_wait(1) by simp
    qed
  next
    case (CWorker_finish i k)
    have s: "asleep c t = Some j" "slot_for_chunk k \<noteq> j" using a CWorker_finish(1) by (auto simp: broadcast_asleep)
    moreover have "t \<noteq> T_worker i" using w [OF s(1)] CWorker_finish by (auto simp: waits_def)
    ultimately show ?thesis using CWorker_finish tc
      by (intro waits_stable [OF w]) (auto simp: ops finish_ops split: thread.split)
  next
    case CWriter_want
    then have "asleep c t = Some j" "t \<noteq> T_writer" using a w by (auto simp: waits_def)
    then show ?thesis using CWriter_want tc
      by (intro waits_stable [OF w]) (auto simp: ops past_end_def split: thread.split)
  next
    case CWriter_exit
    then have "asleep c t = Some j" "t \<noteq> T_writer" using a w by (auto simp: waits_def)
    then show ?thesis using CWriter_exit tc
      by (intro waits_stable [OF w]) (auto simp: ops past_end_def split: thread.split)
  next
    case (CWriter_take k)
    then have "asleep c t = Some j" "t \<noteq> T_writer" using a by auto
    then show ?thesis using CWriter_take tc
      by (intro waits_stable [OF w]) (auto simp: ops writer_ops split: thread.split)
  next
    case (CWriter_bail k)
    then have "asleep c t = Some j" "t \<noteq> T_writer" using a by auto
    then show ?thesis using CWriter_bail tc
      by (intro waits_stable [OF w]) (auto simp: ops past_end_def split: thread.split)
  next
    case (CWriter_wait k)
    show ?thesis
    proof (cases "t = T_writer")
      case True
      then show ?thesis using a CWriter_wait by (simp add: waits_def cond_wait_def)
    next
      case False
      then have "asleep c t = Some j" using a CWriter_wait(1) by (simp add: cond_wait_def)
      then show ?thesis using w waits_cong [of c' c] CWriter_wait(1) by simp
    qed
  next
    case (CWriter_dump k h hs ctx' n')
    then have "asleep c t = Some j" "t \<noteq> T_writer" using a w by (auto simp: waits_def)
    then show ?thesis using CWriter_dump tc
      by (intro waits_stable [OF w]) (auto simp: ops past_end_def split: thread.split)
  next
    case (CWriter_recycle k)
    have s: "asleep c t = Some j" "slot_for_chunk k \<noteq> j" using a CWriter_recycle(1) by (auto simp: broadcast_asleep)
    moreover have "t \<noteq> T_writer" using w [OF s(1)] CWriter_recycle by (auto simp: waits_def)
    ultimately show ?thesis using CWriter_recycle tc
      by (intro waits_stable [OF w]) (auto simp: ops writer_ops split: thread.split)
  qed
qed

lemma cstep_cinv:
  assumes "par_ok p" "cstep p c c'" "cinv p ctx c"
  shows "cinv p ctx c'"
proof -
  have "pinv p ctx (untold (st c'))"
    using cstep_pstep [OF assms(2)] pstep_pinv [OF assms(1)] assms(3) by (auto simp: cinv_def)
  then show ?thesis
    using cstep_rpc_ok [OF assms(2)] cstep_waits [OF assms(2)] assms(3) by (simp add: cinv_def)
qed

lemma spurious_cinv:
  assumes "spurious c c'" "cinv p ctx c"
  shows "cinv p ctx c'"
proof -
  obtain t where e: "c' = c\<lparr>asleep := (asleep c)(t := None)\<rparr>" using assms(1) by (auto elim: spurious.cases)
  have f: "st c' = st c" "rpc c' = rpc c" using e by simp_all
  have "rpc_ok p c' = rpc_ok p c" unfolding rpc_ok_def f by (rule refl)
  moreover have "asleep c' u = Some i \<Longrightarrow> asleep c u = Some i" for u i using e by (auto split: if_splits)
  ultimately show ?thesis using assms(2) waits_cong [OF f] by (auto simp: cinv_def f)
qed

section \<open>Some thread can run, and not for ever\<close>

lemma cstep_progress:
  assumes ok: "scan_ok p ctx" and inv: "cinv p ctx c" and live: "\<not> all_returned p c"
  shows "\<exists>c'. cstep p c c'"
proof (cases "\<exists>b. rpc c = R_bcast b \<or> rpc c = R_gate")
  case True
  then show ?thesis using cstep.CReader_bcast cstep.CReader_return cstep.CReader_done by blast
next
  case False
  have rp: "rpc_ok p c" and w: "\<And>t j. asleep c t = Some j \<Longrightarrow> waits p c t j"
    using inv by (simp_all add: cinv_def)
  have tc: "\<not> to_come c j" for j using False by (simp add: to_come_def)
  have rl: "rpc c = (if reader_done (st c) then R_exit else R_loop)"
    using rp False by (auto simp: rpc_ok_def split: reader_pc.splits)
  have up: "asleep c t = None" if "\<And>j. \<not> waits p c t j" for t using w that by (cases "asleep c t") auto
  have "\<not> all_exited p (untold (st c))" using live rl by (auto simp: all_returned_def all_exited_def)
  then obtain s' where "pstep p (untold (st c)) s'"
    using pstep_progress [OF ok, of "untold (st c)"] inv by (auto simp: cinv_def)
  then show ?thesis
  proof (cases rule: pstep.cases)
    case Reader_fill
    then have "asleep c T_reader = None" by (intro up) (simp add: waits_def)
    then show ?thesis using cstep.CReader_fill [of c p] Reader_fill rl by auto
  next
    case Reader_finish
    then have "asleep c T_reader = None" by (intro up) (simp add: waits_def)
    then show ?thesis using cstep.CReader_total [of c p] Reader_finish rl by auto
  next
    case (Worker_take i k)
    then have "asleep c (T_worker i) = None" by (intro up) (simp add: waits_def)
    then show ?thesis using cstep.CWorker_take [of i p c k] Worker_take by auto
  next
    case (Worker_bail i k)
    then have "asleep c (T_worker i) = None" using tc by (intro up) (simp add: waits_def)
    then show ?thesis using cstep.CWorker_bail [of i p c k] Worker_bail by auto
  next
    case (Writer_take k)
    then have "asleep c T_writer = None" by (intro up) (simp add: waits_def)
    then show ?thesis using cstep.CWriter_take [of c k p] Writer_take by auto
  next
    case (Writer_bail k)
    then have "asleep c T_writer = None" using tc by (intro up) (simp add: waits_def)
    then show ?thesis using cstep.CWriter_bail [of c k p] Writer_bail by auto
  next
    case (Writer_dump k h hs x n)
    then show ?thesis using cstep.CWriter_dump [of c k h hs p x n] by auto
  next
    case (Worker_claim i)
    then show ?thesis using cstep.CWorker_claim [of i p c] by auto
  next
    case (Worker_leave i)
    then show ?thesis using cstep.CWorker_leave [of i p c] by auto
  next
    case (Worker_finish i k)
    then show ?thesis using cstep.CWorker_finish [of i p c k] by auto
  next
    case Writer_want
    then show ?thesis using cstep.CWriter_want [of c p] by auto
  next
    case Writer_exit
    then show ?thesis using cstep.CWriter_exit [of c p] by auto
  next
    case (Writer_recycle k)
    then show ?thesis using cstep.CWriter_recycle [of c k p] by auto
  qed
qed

text \<open>Sleeping costs one of the threads awake; every other step costs more than it can wake up.\<close>

definition awake :: "scan_par \<Rightarrow> cond_scan \<Rightarrow> nat" where
  "awake p c = card {t \<in> threads p. asleep c t = None}"

definition cmeasure :: "scan_par \<Rightarrow> cond_scan \<Rightarrow> nat" where
  "cmeasure p c = (pmeasure p (st c) + rrank (rpc c)) * (p_workers p + 3) + awake p c"

lemma threads_finite: "finite (threads p)" "card (threads p) = p_workers p + 2"
proof -
  have "card (T_worker ` {..<p_workers p}) = p_workers p" by (simp add: card_image inj_on_def)
  then show "finite (threads p)" "card (threads p) = p_workers p + 2"
    by (auto simp: threads_def card_insert_if)
qed

lemma awake_bound: "awake p c \<le> p_workers p + 2"
  unfolding awake_def threads_finite(2) [symmetric] by (rule card_mono [OF threads_finite(1)]) auto

lemma awake_wait:
  assumes "t \<in> threads p" "asleep c t = None"
  shows "awake p (cond_wait t j c) < awake p c"
  unfolding awake_def
proof (rule psubset_card_mono)
  show "finite {t \<in> threads p. asleep c t = None}" using threads_finite(1) by simp
  show "{t' \<in> threads p. asleep (cond_wait t j c) t' = None} \<subset> {t \<in> threads p. asleep c t = None}"
    using assms by (auto simp: cond_wait_def)
qed

lemma pmeasure_untold: "pmeasure p (untold s) = pmeasure p s"
  by (simp add: pmeasure_def)

lemma cstep_decreases:
  assumes ok: "par_ok p" and step: "cstep p c c'" and inv: "cinv p ctx c"
  shows "cmeasure p c' < cmeasure p c"
proof -
  have "rpc_ok p c" "pinv p ctx (untold (st c))" using inv by (simp_all add: cinv_def)
  then consider t j where "c' = cond_wait t j c" "t \<in> threads p" "asleep c t = None"
    | "pmeasure p (st c') + rrank (rpc c') < pmeasure p (st c) + rrank (rpc c)"
    using cstep_pstep [OF step] pstep_decreases [OF ok] by (metis add_less_le_mono add_le_less_mono order_refl pmeasure_untold)
  then show ?thesis
  proof cases
    case 1
    then show ?thesis using awake_wait by (simp add: cmeasure_def)
  next
    case 2
    then have "Suc (pmeasure p (st c') + rrank (rpc c')) * (p_workers p + 3) \<le> (pmeasure p (st c) + rrank (rpc c)) * (p_workers p + 3)"
      by (intro mult_le_mono1) simp
    then show ?thesis using awake_bound [of p c'] by (simp add: cmeasure_def)
  qed
qed

lemma csteps_bounded:
  assumes "par_ok p" "cinv p ctx c" "(cstep p ^^ n) c c'"
  shows "n + cmeasure p c' \<le> cmeasure p c"
  using assms(2,3)
proof (induction n arbitrary: c)
  case (Suc n)
  obtain d where d: "cstep p c d" "(cstep p ^^ n) d c'" by (rule relpowp_Suc_E2 [OF Suc.prems(2)])
  then show ?case
    using Suc.IH [OF cstep_cinv [OF assms(1) d(1) Suc.prems(1)] d(2)] cstep_decreases [OF assms(1) d(1) Suc.prems(1)] by simp
qed simp

section \<open>Properties\<close>

definition crun :: "scan_par \<Rightarrow> cond_scan \<Rightarrow> cond_scan \<Rightarrow> bool" where
  "crun p = (\<lambda>c c'. cstep p c c' \<or> spurious c c')\<^sup>*\<^sup>*"

lemma crun_inv:
  assumes "par_ok p" "crun p (init_cond p ctx) c"
  shows "cinv p ctx c \<and> psteps p (untold (init_scan p ctx)) (untold (st c))"
  using assms(2) unfolding crun_def
proof (induction rule: rtranclp_induct)
  case base
  then show ?case using init_cinv [OF assms(1)] by (simp add: init_cond_def)
next
  case (step c c')
  then have inv: "cinv p ctx c" by simp
  show ?case
  proof (cases "cstep p c c'")
    case True
    have "untold (st c') = untold (st c) \<or> pstep p (untold (st c)) (untold (st c'))"
      using cstep_pstep [OF True] inv by (auto simp: cinv_def)
    then show ?thesis using cstep_cinv [OF assms(1) True inv] step.IH by (auto intro: rtranclp.rtrancl_into_rtrancl)
  next
    case False
    then have sp: "spurious c c'" using step.hyps(2) by simp
    then have "st c' = st c" by (auto elim: spurious.cases)
    then show ?thesis using spurious_cinv [OF sp inv] step.IH by simp
  qed
qed

text \<open>Property C20: the parallel scan always finishes and no wake-up is lost.  Take any state that a run can reach,
  with any schedule, short reads, read errors and spurious wake-ups.  From there the threads
  make at most \<open>cmeasure\<close> more steps, going to sleep included; and as long as the reader, a worker or the writer has not returned,
  a thread that is awake can run, so that the broadcasts in the code reach every sleeper.  When all have
  returned, the result is one of \<open>parallel_scan_for_extent_headers\<close>, that is, the one of the serial scan.\<close>

theorem parallel_scan_terminates:
  assumes "io_reads env (blocksize ctx)" and "12 \<le> blocksize ctx" and "blocksize ctx \<le> CHUNK_BYTES"
    and "start \<le> end" and "end \<le> total_blocks ctx"
    and "rb_inv (rb ctx)" and "rb_elems (rb ctx) \<subseteq> {b. b < total_blocks ctx}" and "total_blocks ctx \<le> 2 ^ 30"
    and "\<And>off n. length (dev_pread env off n) \<le> n" and "malloc_ok env CHUNK_BYTES"
    and "p = scan_args env ctx start end n_workers" and "crun p (init_cond p ctx) c"
  shows "(\<forall>n c'. (cstep p ^^ n) c c' \<longrightarrow> n \<le> cmeasure p c) \<and>
    ((\<exists>c'. cstep p c c') \<longleftrightarrow> \<not> all_returned p c) \<and>
    (all_returned p c \<longrightarrow> parallel_scan_for_extent_headers env ctx start end n_workers (int (found (st c))) (rctx (st c)))"
proof -
  have ok: "scan_ok p ctx" unfolding assms(11) by (rule scan_args_ok [OF assms(1-9)])
  then have pk: "par_ok p" by (simp add: scan_ok_def)
  have inv: "cinv p ctx c" "psteps p (init_scan p ctx) (untold (st c))"
    using crun_inv [OF pk assms(12)] by (simp_all add: untold_def init_scan_def)
  have "\<not> cstep p c c'" if "all_returned p c" for c'
    using that by (auto simp: all_returned_def all_exited_def elim!: cstep.cases)
  moreover have "parallel_scan_for_extent_headers env ctx start end n_workers (int (found (st c))) (rctx (st c))" if "all_returned p c"
    using that inv(2) assms(10)
    unfolding parallel_scan_for_extent_headers_def assms(11) [symmetric] Let_def
    by (auto simp: all_returned_def all_exited_def intro!: exI [of _ "untold (st c)"])
  moreover have "n \<le> cmeasure p c" if "(cstep p ^^ n) c c'" for n c'
    using csteps_bounded [OF pk inv(1) that] by simp
  ultimately show ?thesis using cstep_progress [OF ok inv(1)] by blast
qed

lemma complete_crun:
  assumes "scan_ok p ctx" "cinv p ctx c"
  shows "\<exists>c'. crun p c c' \<and> all_returned p c'"
  using assms(2)
proof (induction "cmeasure p c" arbitrary: c rule: less_induct)
  case less
  have pk: "par_ok p" using assms(1) by (simp add: scan_ok_def)
  show ?case
  proof (cases "all_returned p c")
    case True
    then show ?thesis by (auto simp: crun_def)
  next
    case False
    then obtain d where d: "cstep p c d" using cstep_progress [OF assms(1) less.prems] by blast
    obtain c' where "crun p d c'" "all_returned p c'"
      using less.hyps [OF cstep_decreases [OF pk d less.prems] cstep_cinv [OF pk d less.prems]] by blast
    moreover from this(1) d have "crun p c c'"
      unfolding crun_def by (intro converse_rtranclp_into_rtranclp [of _ c d c']) simp_all
    ultimately show ?thesis by blast
  qed
qed

text \<open>Four workers on three blocks: a run in which everybody returns, at the end of which nothing can move.\<close>

theorem parallel_scan_terminates_witness:
  "let p = scan_args scan_env (base_ctx 24 3) 0 3 4 in
   \<exists>c. crun p (init_cond p (base_ctx 24 3)) c \<and> all_returned p c \<and> (\<forall>c'. \<not> cstep p c c') \<and>
     parallel_scan_for_extent_headers scan_env (base_ctx 24 3) 0 3 4 (int (found (st c))) (rctx (st c))"
proof -
  let ?p = "scan_args scan_env (base_ctx 24 3) 0 3 4"
  have pk: "par_ok ?p" using scan_env_ok by (simp add: scan_ok_def)
  obtain c where c: "crun ?p (init_cond ?p (base_ctx 24 3)) c" "all_returned ?p c"
    using complete_crun [OF scan_env_ok init_cinv [OF pk]] by blast
  have m: "malloc_ok scan_env CHUNK_BYTES" using scan_env_full by (simp add: full_device_def)
  have "((\<exists>c'. cstep ?p c c') \<longleftrightarrow> \<not> all_returned ?p c) \<and> (all_returned ?p c \<longrightarrow>
      parallel_scan_for_extent_headers scan_env (base_ctx 24 3) 0 3 4 (int (found (st c))) (rctx (st c)))"
    using parallel_scan_terminates [OF scan_env_reads(1) _ _ _ _ base_ctx_rb(1) _ _ scan_env_reads(2) m refl c(1)] base_ctx_rb
    by (simp add: base_ctx_def CHUNK_BYTES_def)
  then show ?thesis using c by (auto simp: Let_def)
qed

end
