(* ===== verification/Journal_Selection.thy ===== *)
theory Journal_Selection
  imports Journal_Scan
begin

text \<open>
  The journal phase as a whole (\<^verbatim>\<open>recover_from_journal\<close> of \<^verbatim>\<open>journal_recovery_v5.c\<close>).  On a journal of complete
  transactions the scan is a sequence of operations, index a tag or process an inode copy, which is computed from the
  transactions alone.  From it follow which copy of an inode becomes its output, and which copies leave the scan
  without a defined result.
\<close>

section \<open>One inode copy\<close>

text \<open>The guards of \<open>process_inode_table_block\<close>: the candidate that a slot of an inode-table block is, if it is one.\<close>

definition copy_of ::
  "env \<Rightarrow> recover_context \<Rightarrow> itable_range list \<Rightarrow> buffer \<Rightarrow> blk64_t \<Rightarrow> u32 \<Rightarrow> nat \<Rightarrow> (version \<times> ext2_inode) option" where
  "copy_of env ctx m buf fs_block seq off =
     (case inode_at buf off of None \<Rightarrow> None
      | Some j \<Rightarrow>
          let sz = inode_size64 j; ino = calc_ino ctx m fs_block off in
          if LINUX_S_ISREG (i_mode j) \<and> sz \<noteq> 0 \<and> i_flags j AND EXT4_EXTENTS_FL \<noteq> 0 \<and>
             eh_magic (header_at (i_block j)) = EXT4_EXT_MAGIC \<and> eh_entries (header_at (i_block j)) \<noteq> 0 \<and>
             ino \<noteq> 0 \<and> (EXT2_GOOD_OLD_FIRST_INO < ino \<or> ino = EXT2_ROOT_INO) \<and>
             (case lib_read_inode env ino of None \<Rightarrow> False | Some cur \<Rightarrow> is_deleted cur sz)
          then Some (\<lparr>v_ino = ino, v_seq = seq, v_size = sz, v_live = (0 < i_links_count j)\<rparr>, j) else None)"

text \<open>A copy without extents that reaches a call with \<^verbatim>\<open>&state\<close>.\<close>

definition stray_copy :: "env \<Rightarrow> recover_context \<Rightarrow> itable_range list \<Rightarrow> buffer \<Rightarrow> blk64_t \<Rightarrow> nat \<Rightarrow> bool" where
  "stray_copy env ctx m buf fs_block off \<longleftrightarrow>
     (case inode_at buf off of None \<Rightarrow> False
      | Some j \<Rightarrow> LINUX_S_ISREG (i_mode j) \<and> inode_size64 j \<noteq> 0 \<and> i_flags j AND EXT4_EXTENTS_FL = 0 \<and>
          reaches_state_call env ctx m fs_block off j)"

lemma process_inode_copy:
  "process_inode env m buf b seq off (ctx, vs, k) =
     (if inode_at buf off = None \<or> stray_copy env ctx m buf b off then None
      else case copy_of env ctx m buf b seq off of None \<Rightarrow> Some (ctx, vs, k)
           | Some (c, j) \<Rightarrow>
               if skip_of vs c then Some (ctx, vs, k)
               else case recover_inode_from_journal env ctx (v_ino c) j (v_seq c) of None \<Rightarrow> None
                    | Some (r, ctx') \<Rightarrow> Some (ctx', after vs (c, Some r), if r = 0 then k + 1 else k))"
proof (cases "inode_at buf off")
  case None
  then show ?thesis by (simp add: process_inode_def)
next
  case (Some j)
  define sz where "sz = inode_size64 j"
  define ino where "ino = calc_ino ctx m b off"
  define ok where "ok \<longleftrightarrow> LINUX_S_ISREG (i_mode j) \<and> sz \<noteq> 0"
  define ext where "ext \<longleftrightarrow> i_flags j AND EXT4_EXTENTS_FL \<noteq> 0"
  define st where "st \<longleftrightarrow> reaches_state_call env ctx m b off j"
  define hd where "hd \<longleftrightarrow> eh_magic (header_at (i_block j)) = EXT4_EXT_MAGIC \<and> eh_entries (header_at (i_block j)) \<noteq> 0"
  define del where "del \<longleftrightarrow> (case lib_read_inode env ino of None \<Rightarrow> False | Some cur \<Rightarrow> is_deleted cur sz)"
  define nr where "nr \<longleftrightarrow> ino \<noteq> 0 \<and> (EXT2_GOOD_OLD_FIRST_INO < ino \<or> ino = EXT2_ROOT_INO)"
  have stray: "stray_copy env ctx m buf b off \<longleftrightarrow> ok \<and> \<not> ext \<and> st"
    using Some by (auto simp: stray_copy_def ok_def ext_def st_def sz_def)
  have cand: "copy_of env ctx m buf b seq off = (if ok \<and> ext \<and> hd \<and> nr \<and> del
      then Some (\<lparr>v_ino = ino, v_seq = seq, v_size = sz, v_live = (0 < i_links_count j)\<rparr>, j) else None)"
    unfolding copy_of_def Some ok_def ext_def hd_def nr_def del_def by (simp add: Let_def sz_def [symmetric] ino_def [symmetric])
  have "process_inode env m buf b seq off (ctx, vs, k) =
     (if \<not> ok then Some (ctx, vs, k)
      else if \<not> ext then (if st then None else Some (ctx, vs, k))
      else if \<not> hd \<or> \<not> nr \<or> \<not> del then Some (ctx, vs, k)
      else if should_skip_version vs ino seq sz (0 < i_links_count j) then Some (ctx, vs, k)
      else case recover_inode_from_journal env ctx ino j seq of None \<Rightarrow> None
           | Some (r, ctx') \<Rightarrow>
               if r = 0 then Some (ctx', mark_version vs ino sz seq (0 < i_links_count j), k + 1)
               else if r = 1 then Some (ctx', mark_version vs ino 0 seq (0 < i_links_count j), k)
               else Some (ctx', vs, k))"
    using Some
    by (auto simp: process_inode_def Let_def process_non_extent_cases ok_def ext_def st_def hd_def nr_def del_def sz_def [symmetric]
        ino_def [symmetric] not_less split: option.split)
  then show ?thesis
    by (auto simp: stray cand Some skip_of_def after_def split: option.split)
qed

section \<open>The scan as a sequence of operations\<close>

datatype scan_op = Op_index blk64_t nat u32 u32 | Op_inode buffer blk64_t u32 nat

type_synonym scan_state = "recover_context \<times> tracked list"

primrec op_step :: "env \<Rightarrow> itable_range list \<Rightarrow> scan_op \<Rightarrow> scan_state \<Rightarrow> scan_state ub" where
  "op_step env m (Op_index b k seq f) s = Some (jindex_record env (fst s) b k seq f, snd s)"
| "op_step env m (Op_inode buf b seq off) s =
     map_option (\<lambda>(ctx, vs, _). (ctx, vs)) (process_inode env m buf b seq off (fst s, snd s, 0))"

primrec run_ops :: "env \<Rightarrow> itable_range list \<Rightarrow> scan_op list \<Rightarrow> scan_state \<Rightarrow> scan_state ub" where
  "run_ops env m [] s = Some s"
| "run_ops env m (x # xs) s = Option.bind (op_step env m x s) (run_ops env m xs)"

lemma run_ops_append: "run_ops env m (xs @ ys) s = Option.bind (run_ops env m xs s) (run_ops env m ys)"
proof (induction xs arbitrary: s)
  case (Cons x xs)
  then show ?case by (cases "op_step env m x s") simp_all
qed simp

text \<open>The operations for a tag whose data block is \<open>data\<close>, for a list of tags, and for transactions from journal block \<open>k\<close> on;
  \<open>isz\<close> is the inode size, \<open>bs\<close> the block size, \<open>tot\<close> the number of device blocks.\<close>

definition tag_ops :: "itable_range list \<Rightarrow> nat \<Rightarrow> nat \<Rightarrow> nat \<Rightarrow> u32 \<Rightarrow> tag \<Rightarrow> buffer \<Rightarrow> scan_op list" where
  "tag_ops m isz bs k seq t data =
     Op_index (fst t) k seq (snd t) #
     (if is_inode_table_block m (fst t)
      then map (\<lambda>i. Op_inode (if snd t AND JBD2_FLAG_ESCAPE \<noteq> 0 then restore_magic data else data) (fst t) seq (i * isz)) [0..<bs div isz]
      else [])"

primrec tags_ops :: "blk64_t \<Rightarrow> itable_range list \<Rightarrow> nat \<Rightarrow> nat \<Rightarrow> nat \<Rightarrow> u32 \<Rightarrow> (tag \<times> buffer) list \<Rightarrow> scan_op list" where
  "tags_ops tot m isz bs k seq [] = []"
| "tags_ops tot m isz bs k seq (x # xs) =
     (if fst (fst x) = 0 \<or> fst (fst x) \<ge> tot then [] else tag_ops m isz bs k seq (fst x) (snd x)) @
     tags_ops tot m isz bs (k + 1) seq xs"

primrec scan_ops :: "blk64_t \<Rightarrow> itable_range list \<Rightarrow> nat \<Rightarrow> nat \<Rightarrow> nat \<Rightarrow> txn list \<Rightarrow> scan_op list" where
  "scan_ops tot m isz bs k [] = []"
| "scan_ops tot m isz bs k (tx # txs) =
     tags_ops tot m isz bs (k + 1) (tx_seq tx) (zip (tx_tags tx) (tx_data tx)) @
     scan_ops tot m isz bs (k + 2 + length (tx_tags tx)) txs"

lemma op_step_keeps:
  assumes "op_step env m x s = Some s'"
  shows "keeps (fst s) (fst s')"
proof (cases x)
  case (Op_index b k seq f)
  then show ?thesis using assms jindex_record_keeps by auto
next
  case (Op_inode buf b seq off)
  then obtain t where t: "process_inode env m buf b seq off (fst s, snd s, 0) = Some t" "fst s' = fst t"
    using assms by auto
  show ?thesis using scan_frame_fields [OF process_inode_scan_frame [OF t(1)]] t(2) by (simp add: keeps_def)
qed

lemma run_ops_keeps: "run_ops env m xs s = Some s' \<Longrightarrow> keeps (fst s) (fst s')"
proof (induction xs arbitrary: s)
  case (Cons x xs)
  then obtain s1 where s1: "op_step env m x s = Some s1" "run_ops env m xs s1 = Some s'" by (auto simp: bind_eq_Some_conv)
  then show ?case using op_step_keeps [OF s1(1)] Cons.IH [OF s1(2)] keeps_trans2 by blast
qed simp

lemma inode_loop_ops:
  "map_option (\<lambda>(ctx, vs, _). (ctx, vs)) (inode_loop env m buf b seq isz is (c, vs, k)) =
     run_ops env m (map (\<lambda>i. Op_inode buf b seq (i * isz)) is) (c, vs)"
proof (induction "is" arbitrary: c vs k)
  case (Cons i "is")
  have z: "map_option (\<lambda>(ctx, vs, _). (ctx, vs)) (process_inode env m buf b seq (i * isz) (c, vs, k)) =
      map_option (\<lambda>(ctx, vs, _). (ctx, vs)) (process_inode env m buf b seq (i * isz) (c, vs, 0))"
    by (simp add: process_inode_copy split: option.split)
  show ?case
  proof (cases "process_inode env m buf b seq (i * isz) (c, vs, k)")
    case None
    then show ?thesis using z by simp
  next
    case (Some s')
    obtain c1 vs1 k1 where s': "s' = (c1, vs1, k1)" by (cases s')
    have "map_option (\<lambda>(ctx, vs, _). (ctx, vs)) (process_inode env m buf b seq (i * isz) (c, vs, 0)) = Some (c1, vs1)"
      using z Some s' by simp
    then show ?thesis using Some s' Cons.IH [of c1 vs1 k1] by auto
  qed
qed simp

lemma process_tag_ops:
  assumes "read_journal_block env (fst s) k = Some data" "unat (s_inode_size (super (fst s))) \<noteq> 0"
  shows "process_tag env m seq b f k s =
    run_ops env m (tag_ops m (unat (s_inode_size (super (fst s)))) (blocksize (fst s)) k seq (b, f) data) s"
proof -
  obtain c vs where s: "s = (c, vs)" by (cases s)
  let ?c = "jindex_record env c b k seq f"
  have kp: "keeps c ?c" by (rule jindex_record_keeps)
  have "read_journal_block env ?c k = Some data" using assms(1) read_keeps [OF kp] s by simp
  moreover have "super ?c = super c" "blocksize ?c = blocksize c" using kp by (simp_all add: keeps_def)
  ultimately show ?thesis
    using assms(2) inode_loop_ops [of env m _ b seq "unat (s_inode_size (super c))" _ ?c vs 0]
    by (simp add: s process_tag_def tag_ops_def process_inode_table_block_def Let_def)
qed

lemma run_tags_ops:
  assumes "first + n + length ts \<le> jlen" "length ds = length ts" "journal_holds env (fst s) (first + n) ds"
    "unat (s_inode_size (super (fst s))) \<noteq> 0"
  shows "run_tags env m jlen seq first ts n s = map_option (\<lambda>s'. (n + length ts, s'))
    (run_ops env m (tags_ops (total_blocks (fst s)) m (unat (s_inode_size (super (fst s)))) (blocksize (fst s)) (first + n) seq (zip ts ds)) s)"
  using assms
proof (induction ts arbitrary: n ds s)
  case (Cons t ts)
  let ?isz = "unat (s_inode_size (super (fst s)))" and ?bs = "blocksize (fst s)" and ?tot = "total_blocks (fst s)"
  obtain d ds' where ds: "ds = d # ds'" using Cons.prems(2) by (cases ds) auto
  have rd: "read_journal_block env (fst s) (first + n) = Some d" "journal_holds env (fst s) (first + (n + 1)) ds'"
    using Cons.prems(3) by (simp_all add: ds journal_holds_Cons)
  show ?case
  proof (cases "fst t = 0 \<or> fst t \<ge> ?tot")
    case True
    then show ?thesis using Cons.IH [of "n + 1" ds' s] Cons.prems rd(2) by (simp add: ds)
  next
    case False
    note pt = process_tag_ops [OF rd(1) Cons.prems(4), of m seq "fst t" "snd t"]
    show ?thesis
    proof (cases "process_tag env m seq (fst t) (snd t) (first + n) s")
      case None
      then show ?thesis using False Cons.prems(1) pt by (simp add: ds run_ops_append)
    next
      case (Some s1)
      have kp: "keeps (fst s) (fst s1)" using run_ops_keeps pt Some by metis
      then have eqs: "super (fst s1) = super (fst s)" "blocksize (fst s1) = ?bs" "total_blocks (fst s1) = ?tot"
        by (simp_all add: keeps_def)
      have "run_ops env m (tag_ops m ?isz ?bs (first + n) seq t d) s = Some s1" using pt Some by simp
      then show ?thesis
        using False Some Cons.prems Cons.IH [of "n + 1" ds' s1] rd(2) journal_holds_keeps [OF kp]
        by (simp add: ds run_ops_append eqs)
    qed
  qed
qed simp

lemma scan_loop_ops:
  assumes "\<forall>tx \<in> set txs. txn_ok fmt b64 (blocksize (fst s)) tx"
    and "tag_params (caps (fst s)) = (fmt, fmt_bytes fmt b64)" "jbd2_has_64bit (caps (fst s)) = b64"
    and "journal_holds env (fst s) blk (concat (map (txn_blocks fmt b64 (blocksize (fst s))) txs))"
    and "jlen = blk + length (concat (map (txn_blocks fmt b64 (blocksize (fst s))) txs))"
    and "unat (s_inode_size (super (fst s))) \<noteq> 0"
  shows "journal_scan_loop env m jlen blk s =
    run_ops env m (scan_ops (total_blocks (fst s)) m (unat (s_inode_size (super (fst s)))) (blocksize (fst s)) blk txs) s"
  using assms
proof (induction txs arbitrary: blk s)
  case Nil
  then show ?case by (simp add: journal_scan_loop.simps [of env m blk blk s])
next
  case (Cons tx txs)
  let ?bs = "blocksize (fst s)" and ?k = "length (tx_tags tx)"
  let ?d = "desc_block fmt b64 ?bs tx" and ?cm = "txn_header 2 (tx_seq tx) @ replicate (?bs - 12) 0"
  let ?rest = "concat (map (txn_blocks fmt b64 ?bs) txs)"
  have ok: "txn_ok fmt b64 ?bs tx" using Cons.prems(1) by simp
  then have k: "length (tx_data tx) = ?k" by (simp add: txn_ok_def)
  have rd: "read_journal_block env (fst s) blk = Some ?d" "journal_holds env (fst s) (blk + 1) (tx_data tx)"
    "read_journal_block env (fst s) (blk + 1 + ?k) = Some ?cm" "journal_holds env (fst s) (blk + 2 + ?k) ?rest"
    using Cons.prems(4) k by (simp_all add: txn_blocks_def [of _ _ _ tx] journal_holds_Cons journal_holds_append)
  have len: "jlen = blk + 2 + ?k + length ?rest" using Cons.prems(5) k by (simp add: txn_blocks_def [of _ _ _ tx])
  then have lt: "blk < jlen" "blk + 1 + ?k < jlen" by simp_all
  have hd: "be32_at ?d 0 = JBD2_MAGIC_NUMBER" "be32_at ?d 4 = JBD2_DESCRIPTOR_BLOCK"
    unfolding desc_block_def Let_def using header_fields(3) [of 1] by (simp_all add: header_fields JBD2_DESCRIPTOR_BLOCK_def)
  let ?r = "run_ops env m (tags_ops (total_blocks (fst s)) m (unat (s_inode_size (super (fst s)))) ?bs (blk + 1) (tx_seq tx) (zip (tx_tags tx) (tx_data tx))) s"
  have w: "walk_descriptor env m jlen ?d blk s = map_option (\<lambda>s'. (?k, s')) ?r"
    using walk_desc_block [OF ok Cons.prems(2,3) refl, of env m jlen blk]
      run_tags_ops [of "blk + 1" 0 "tx_tags tx" jlen "tx_data tx" env s] rd(2) k len Cons.prems(6) by simp
  have step: "journal_scan_loop env m jlen blk s =
      (case ?r of None \<Rightarrow> None | Some s1 \<Rightarrow> journal_scan_loop env m jlen (blk + 1 + ?k) s1)"
    using rd(1) lt(1) hd w by (simp add: journal_scan_loop.simps [of env m jlen blk s] split: option.split)
  show ?case
  proof (cases ?r)
    case None
    then show ?thesis using step by (simp add: run_ops_append)
  next
    case (Some s1)
    have kp: "keeps (fst s) (fst s1)" using run_ops_keeps [OF Some] .
    then have eqs: "super (fst s1) = super (fst s)" "blocksize (fst s1) = ?bs" "total_blocks (fst s1) = total_blocks (fst s)"
      "caps (fst s1) = caps (fst s)" by (simp_all add: keeps_def)
    have "be32_at ?cm 4 \<noteq> JBD2_DESCRIPTOR_BLOCK" using header_fields(3) [of 2] by (simp add: JBD2_DESCRIPTOR_BLOCK_def)
    then have "journal_scan_loop env m jlen (blk + 1 + ?k) s1 = journal_scan_loop env m jlen (blk + 2 + ?k) s1"
      using rd(3) lt(2)
      by (simp add: journal_scan_loop.simps [of env m jlen "Suc (blk + ?k)" s1] read_keeps [OF kp] header_fields)
    moreover have "journal_scan_loop env m jlen (blk + 2 + ?k) s1 =
        run_ops env m (scan_ops (total_blocks (fst s1)) m (unat (s_inode_size (super (fst s1)))) (blocksize (fst s1)) (blk + 2 + ?k) txs) s1"
      by (rule Cons.IH) (use Cons.prems rd(4) len in \<open>simp_all add: eqs journal_holds_keeps [OF kp]\<close>)
    ultimately show ?thesis using step Some by (simp add: run_ops_append eqs)
  qed
qed

text \<open>A journal of complete transactions, in the wire format that its feature flags announce.\<close>

definition complete_journal :: "env \<Rightarrow> recover_context \<Rightarrow> txn list \<Rightarrow> bool" where
  "complete_journal env ctx txs \<longleftrightarrow>
     (let fmt = jbd2_tag_fmt (caps ctx); b64 = jbd2_has_64bit (caps ctx); bs = blocksize ctx;
          img = concat (map (txn_blocks fmt b64 bs) txs)
      in has_journal ctx \<and> (\<exists>c0 flags. caps ctx = fs_capabilities_set_journal c0 flags) \<and>
         (\<forall>tx \<in> set txs. txn_ok fmt b64 bs tx) \<and> journal_holds env ctx (unat (journal_start ctx)) img \<and>
         unat (journal_len ctx) = unat (journal_start ctx) + length img)"

definition journal_ops :: "recover_context \<Rightarrow> itable_range list \<Rightarrow> txn list \<Rightarrow> scan_op list" where
  "journal_ops ctx m txs =
     scan_ops (total_blocks ctx) m (unat (s_inode_size (super ctx))) (blocksize ctx) (unat (journal_start ctx)) txs"

lemma recover_from_journal_ops:
  assumes "complete_journal env ctx txs" "itable_of env ctx = Some m" "malloc_ok env = (\<lambda>_. True)"
    "unat (s_inode_size (super ctx)) \<noteq> 0"
  shows "recover_from_journal env ctx =
    map_option (\<lambda>(c, _). (0, c\<lparr>jindex := jindex_sort (jindex c)\<rparr>)) (run_ops env m (journal_ops ctx m txs) (ctx, []))"
proof -
  let ?fmt = "jbd2_tag_fmt (caps ctx)" and ?b64 = "jbd2_has_64bit (caps ctx)"
  obtain c0 flags where caps: "caps ctx = fs_capabilities_set_journal c0 flags"
    using assms(1) by (auto simp: complete_journal_def Let_def)
  have tp: "tag_params (caps ctx) = (?fmt, fmt_bytes ?fmt ?b64)"
    using set_journal_bytes [of c0 flags] by (simp add: tag_params_def caps fmt_bytes_def)
      (simp add: fs_capabilities_set_journal_def Let_def)
  have "journal_scan_loop env m (unat (journal_len ctx)) (unat (journal_start ctx)) (ctx, []) =
      run_ops env m (journal_ops ctx m txs) (ctx, [])"
    unfolding journal_ops_def
    using scan_loop_ops [where txs = txs and fmt = ?fmt and ?b64.0 = ?b64 and s = "(ctx, [])"] assms(1,4) tp
    by (simp add: complete_journal_def Let_def)
  then show ?thesis
    using assms by (auto simp: recover_from_journal_def itable_of_def complete_journal_def Let_def split: option.split)
qed

section \<open>What happens to the candidates\<close>

definition op_copy :: "env \<Rightarrow> recover_context \<Rightarrow> itable_range list \<Rightarrow> scan_op \<Rightarrow> (version \<times> ext2_inode) option" where
  "op_copy env ctx m x = (case x of Op_index b k seq f \<Rightarrow> None | Op_inode buf b seq off \<Rightarrow> copy_of env ctx m buf b seq off)"

definition stray_op :: "env \<Rightarrow> recover_context \<Rightarrow> itable_range list \<Rightarrow> scan_op \<Rightarrow> bool" where
  "stray_op env ctx m x = (case x of Op_index b k seq f \<Rightarrow> False | Op_inode buf b seq off \<Rightarrow> stray_copy env ctx m buf b off)"

definition journal_copies :: "env \<Rightarrow> recover_context \<Rightarrow> itable_range list \<Rightarrow> txn list \<Rightarrow> (version \<times> ext2_inode) list" where
  "journal_copies env ctx m txs = List.map_filter (op_copy env ctx m) (journal_ops ctx m txs)"

text \<open>
  The attempts on the candidates in order, with their contexts: a skipped copy changes nothing, any other is handed to
  \<open>recover_inode_from_journal\<close>, whose value is in the trace; in between only the journal index changes.
\<close>

inductive attempts :: "env \<Rightarrow> recover_context \<Rightarrow> ((version \<times> ext2_inode) \<times> int option) list \<Rightarrow> recover_context \<Rightarrow> bool" for env where
  Att_done: "attempts env c [] c"
| Att_index: "attempts env (c\<lparr>jindex := ji\<rparr>) tr c' \<Longrightarrow> attempts env c tr c'"
| Att_skip: "attempts env c tr c' \<Longrightarrow> attempts env c ((x, None) # tr) c'"
| Att_try: "recover_inode_from_journal env c (v_ino v) j (v_seq v) = Some (r, c1) \<Longrightarrow> attempts env c1 tr c' \<Longrightarrow>
    attempts env c (((v, j), Some r) # tr) c'"

definition versions_of :: "((version \<times> ext2_inode) \<times> int option) list \<Rightarrow> attempt list" where
  "versions_of tr = map (\<lambda>((v, j), r). (v, r)) tr"

lemma copy_keeps:
  assumes "keeps c c'"
  shows "op_copy env c' m x = op_copy env c m x" "stray_op env c' m x = stray_op env c m x"
proof -
  have "calc_ino c' m b off = calc_ino c m b off" for b off using assms by (simp add: keeps_def calc_ino_def)
  then show "op_copy env c' m x = op_copy env c m x" "stray_op env c' m x = stray_op env c m x"
    using assms
    by (simp_all add: keeps_def op_copy_def stray_op_def copy_of_def stray_copy_def reaches_state_call_def Let_def split: scan_op.split option.split)
qed

lemma jindex_record_update: "\<exists>ji. jindex_record env c b k seq f = c\<lparr>jindex := ji\<rparr>"
proof (cases "jindex c")
  case None
  then have "jindex_record env c b k seq f = c\<lparr>jindex := jindex c\<rparr>" by (simp add: jindex_record_def)
  then show ?thesis by blast
qed (auto simp: jindex_record_def Let_def)

lemma attempts_keeps_end: "attempts env c tr c' \<Longrightarrow> attempts env c tr (c'\<lparr>jindex := ji\<rparr>)"
proof (induction rule: attempts.induct)
  case (Att_done c)
  then show ?case by (rule attempts.Att_index [OF attempts.Att_done])
qed (auto intro: attempts.intros)

lemma run_ops_trace:
  assumes "run_ops env m xs (c, vs) = Some (c', vs')"
  shows "\<exists>tr. map fst tr = List.map_filter (op_copy env c m) xs \<and> attempts env c tr c' \<and> selects vs (versions_of tr)"
  using assms
proof (induction xs arbitrary: c vs)
  case Nil
  then show ?case by (auto simp: versions_of_def intro!: exI [of _ "[]"] attempts.Att_done)
next
  case (Cons x xs)
  then obtain c1 vs1 where s1: "op_step env m x (c, vs) = Some (c1, vs1)" "run_ops env m xs (c1, vs1) = Some (c', vs')"
    by (auto simp: bind_eq_Some_conv)
  have kp: "keeps c c1" using op_step_keeps [OF s1(1)] by simp
  have eq: "op_copy env c1 m = op_copy env c m" using copy_keeps(1) [OF kp] by (simp add: fun_eq_iff)
  obtain tr where tr: "map fst tr = List.map_filter (op_copy env c m) xs" "attempts env c1 tr c'" "selects vs1 (versions_of tr)"
    using Cons.IH [OF s1(2)] unfolding eq by blast
  show ?case
  proof (cases x)
    case (Op_index b k seq f)
    then have v: "vs1 = vs" "c1 = jindex_record env c b k seq f" using s1(1) by simp_all
    then obtain ji where "c1 = c\<lparr>jindex := ji\<rparr>" using jindex_record_update by blast
    then have "attempts env c tr c'" using tr(2) attempts.Att_index by simp
    moreover have "List.map_filter (op_copy env c m) (x # xs) = List.map_filter (op_copy env c m) xs"
      using Op_index by (simp add: op_copy_def map_filter_simps)
    ultimately show ?thesis using tr v(1) by auto
  next
    case (Op_inode buf b seq off)
    then have mf: "List.map_filter (op_copy env c m) (x # xs) = (case copy_of env c m buf b seq off of
        None \<Rightarrow> List.map_filter (op_copy env c m) xs | Some y \<Rightarrow> y # List.map_filter (op_copy env c m) xs)"
      by (simp add: op_copy_def map_filter_simps)
    show ?thesis
    proof (cases "copy_of env c m buf b seq off")
      case None
      then have "vs1 = vs" "c1 = c" using s1(1) Op_inode by (auto simp: process_inode_copy split: if_splits)
      then show ?thesis using tr mf None by auto
    next
      case (Some x0)
      obtain v j where x0: "x0 = (v, j)" by (cases x0)
      show ?thesis
      proof (cases "skip_of vs v")
        case True
        then have "vs1 = vs" "c1 = c" using s1(1) Op_inode Some x0 by (auto simp: process_inode_copy split: if_splits)
        then show ?thesis using tr mf Some x0 True
          by (intro exI [of _ "((v, j), None) # tr"]) (simp add: versions_of_def after_def attempts.Att_skip)
      next
        case False
        then obtain r where "recover_inode_from_journal env c (v_ino v) j (v_seq v) = Some (r, c1)" "vs1 = after vs (v, Some r)"
          using s1(1) Op_inode Some x0 by (auto simp: process_inode_copy split: if_splits option.splits)
        then show ?thesis using tr mf Some x0 False attempts.Att_try [of env c v j r c1 tr c']
          by (intro exI [of _ "((v, j), Some r) # tr"]) (simp add: versions_of_def)
      qed
    qed
  qed
qed

lemma recover_inode_one:
  assumes "recover_inode_from_journal env c ino j seq = Some (1, c')"
  shows "i_links_count j = 0"
proof (rule ccontr)
  assume l: "i_links_count j \<noteq> 0"
  have v: "via_temp env c ino tmp fill sz = Some (1, c') \<Longrightarrow> False" for tmp fill sz
  proof -
    assume "via_temp env c ino tmp fill sz = Some (1, c')"
    then obtain c3 base k where "finish_output env c3 tmp base k sz = (1, c')"
      by (auto simp: via_temp_def bind_eq_Some_conv split: option.splits)
    then show False using finish_output_effect by fastforce
  qed
  show False using assms l v
    by (auto simp: recover_inode_from_journal_def recover_multi_level_def recover_depth0_def Let_def bind_eq_Some_conv
        split: if_splits option.splits)
qed

lemma attempts_ok:
  assumes "attempts env c tr c'" "\<forall>x \<in> set tr. 0 < v_size (fst (fst x)) \<and> v_live (fst (fst x)) = (0 < i_links_count (snd (fst x)))"
  shows "\<forall>x \<in> set (versions_of tr). attempt_ok x"
  using assms
proof (induction rule: attempts.induct)
  case (Att_try c v j r c1 tr c')
  then have "r \<in> {-1, 0, 1}" "r = 1 \<longrightarrow> i_links_count j = 0"
    using recover_inode_effect [OF Att_try.hyps(1)] recover_inode_one [of env c "v_ino v" j "v_seq v" c1] by auto
  then show ?case using Att_try by (auto simp: versions_of_def attempt_ok_def)
qed (auto simp: versions_of_def attempt_ok_def)

lemma copy_of_from:
  "copy_of env ctx m buf b seq off = Some x \<Longrightarrow> 0 < v_size (fst x) \<and> v_live (fst x) = (0 < i_links_count (snd x))"
  by (auto simp: copy_of_def Let_def word_gt_0 split: option.splits if_splits)

lemma journal_copies_from:
  assumes "x \<in> set (journal_copies env ctx m txs)"
  shows "0 < v_size (fst x) \<and> v_live (fst x) = (0 < i_links_count (snd x))"
proof -
  obtain y where "op_copy env ctx m y = Some x" using assms by (auto simp: journal_copies_def List.map_filter_def)
  then show ?thesis using copy_of_from by (cases y) (simp_all add: op_copy_def)
qed

lemma selected_iff:
  "selected xs \<longleftrightarrow> (let ws = written xs in
     if ws = [] then \<forall>(c, o') \<in> set xs. o' \<noteq> None
     else if \<exists>w \<in> set ws. v_live w
     then v_live (last ws) \<and> (\<forall>(c, o') \<in> set xs. v_live c \<longrightarrow> o' = Some (-1) \<or> v_seq c \<le> v_seq (last ws))
     else \<forall>(c, o') \<in> set xs. if v_live c then o' = Some (-1) else o' \<in> {Some (-1), Some 1} \<or> v_size c \<le> v_size (last ws))"
  by (simp add: selected_def best_live_def largest_def Let_def case_prod_beta)

section \<open>Copies that can be processed\<close>

text \<open>The copies in a block whose processing is defined whatever else happens: not stray, and with the extents in the inode.\<close>

definition shallow_copies :: "env \<Rightarrow> recover_context \<Rightarrow> itable_range list \<Rightarrow> blk64_t \<Rightarrow> buffer \<Rightarrow> bool" where
  "shallow_copies env ctx m b buf \<longleftrightarrow>
     (let isz = unat (s_inode_size (super ctx)) in
      \<forall>i < blocksize ctx div isz. \<not> stray_copy env ctx m buf b (i * isz) \<and>
        (\<forall>seq v j. copy_of env ctx m buf b seq (i * isz) = Some (v, j) \<longrightarrow> eh_depth (header_at (i_block j)) = 0))"

lemma resolve_output_inv:
  assumes "fm_inv st" "ino \<noteq> 0"
  shows "\<exists>base st'. resolve_output_name ok st ino = Some (base, st') \<and> fm_inv st'"
  using get_filename_model [OF assms] assms(1)
  by (auto simp: resolve_output_name_def Let_def frame_simps split: option.split)

lemma resolve_name_inv:
  assumes "fm_inv (names c)" "ino \<noteq> 0"
  shows "\<exists>base st. resolve_name env c ino = Some (base, c\<lparr>names := st\<rparr>) \<and> fm_inv st"
  unfolding resolve_name_def Let_def using resolve_output_inv [OF assms] by (fastforce split: option.split)

lemma via_temp_inv:
  assumes "via_temp env c ino tmp fill sz = Some (r, c')" "fm_inv (names c)" "ino \<noteq> 0"
    and "\<forall>c c' acc. fill c = Some (c', acc) \<longrightarrow> touches tmp c c'"
  shows "fm_inv (names c')"
proof -
  obtain base st where n: "resolve_name env c ino = Some (base, c\<lparr>names := st\<rparr>)" "fm_inv st"
    using resolve_name_inv [OF assms(2,3)] by blast
  have nm: "names (snd (finish_output env c3 tmp base k sz)) = names c3" for c3 k
    by (auto simp: finish_output_def Let_def truncate_file_def rename_file_def unlink_def split: option.split)
  have tc: "names c4 = names c3" if "touches tmp c3 c4" for c3 c4
  proof -
    have "c4 = c3\<lparr>files := files c4, recovered_extents := recovered_extents c4\<rparr>" using that by (simp add: touches_def)
    then have "names c4 = names (c3\<lparr>files := files c4, recovered_extents := recovered_extents c4\<rparr>)" by (rule arg_cong)
    then show ?thesis by simp
  qed
  show ?thesis
  proof (cases "open_trunc env (c\<lparr>names := st\<rparr>) tmp")
    case None
    then have "c' = c\<lparr>names := st\<rparr>" using assms(1) n(1) by (simp add: via_temp_def)
    then show ?thesis using n(2) by simp
  next
    case (Some c2)
    then have c2: "names c2 = st" by (auto simp: open_trunc_def split: if_splits)
    obtain c3 acc where c3: "fill c2 = Some (c3, acc)" "finish_output env c3 tmp base (blocks_of acc) sz = (r, c')"
      using assms(1) n(1) Some by (auto simp: via_temp_def bind_eq_Some_conv)
    then have "names c' = st" using nm [of c3 "blocks_of acc"] tc [of c2 c3] assms(4) c2 by auto
    then show ?thesis using n(2) by simp
  qed
qed

lemma recover_inode_inv:
  assumes "recover_inode_from_journal env c ino j seq = Some (r, c')" "fm_inv (names c)" "ino \<noteq> 0"
  shows "fm_inv (names c')"
proof -
  let ?is = "[0..<unat (eh_entries (header_at (i_block j)))]"
  consider "names c' = names c"
    | "via_temp env c ino (tmpname_ml ino) (\<lambda>ctx. ml_loop env seq (tmpname_ml ino) (i_block j) ?is ctx []) (inode_size64 j) = Some (r, c')"
    | "via_temp env c ino (tmpname_d0 ino) (\<lambda>ctx. leaf_copy_loop env (tmpname_d0 ino) (i_block j) ?is ctx []) (inode_size64 j) = Some (r, c')"
    using assms(1)
    by (auto simp: recover_inode_from_journal_def recover_multi_level_def recover_depth0_def Let_def bind_eq_Some_conv
        split: if_splits)
  then show ?thesis
  proof cases
    case 2
    from via_temp_inv [OF 2 assms(2,3)] ml_touches show ?thesis by blast
  next
    case 3
    from via_temp_inv [OF 3 assms(2,3)] leaf_copy_touches show ?thesis by blast
  qed (use assms(2) in simp)
qed

definition names_kept :: "recover_context \<Rightarrow> recover_context \<Rightarrow> bool" where
  "names_kept ctx c \<longleftrightarrow> keeps ctx c \<and> fm_inv (names c)"

lemma copy_keeps_slot:
  assumes "keeps c c'"
  shows "copy_of env c' m buf b seq off = copy_of env c m buf b seq off" "stray_copy env c' m buf b off = stray_copy env c m buf b off"
  using copy_keeps [OF assms, of env m "Op_inode buf b seq off"] by (simp_all add: op_copy_def stray_op_def)

lemma process_inode_defined:
  assumes inv: "names_kept ctx c" and j: "inode_at buf off = Some j" "\<not> stray_copy env ctx m buf b off"
    and d: "\<And>v j. copy_of env ctx m buf b seq off = Some (v, j) \<Longrightarrow> eh_depth (header_at (i_block j)) = 0"
  shows "\<exists>c' vs' k'. process_inode env m buf b seq off (c, vs, k) = Some (c', vs', k') \<and> names_kept ctx c'"
proof -
  have kp: "keeps ctx c" and fm: "fm_inv (names c)" using inv by (simp_all add: names_kept_def)
  note slot = copy_keeps_slot [OF kp]
  show ?thesis
  proof (cases "copy_of env ctx m buf b seq off")
    case None
    then show ?thesis using inv j by (simp add: process_inode_copy slot)
  next
    case (Some x)
    obtain v j' where x: "x = (v, j')" by (cases x)
    then have v: "j' = j" "v_ino v \<noteq> 0"
      using Some j(1) by (auto simp: copy_of_def Let_def split: if_splits)
    have "length (i_block j) = 60" using j(1) by (auto simp: inode_at_def sub_buf_def split: if_splits)
    moreover have "resolve_name env c (v_ino v) \<noteq> None" using resolve_name_inv [OF fm v(2), of env] by auto
    ultimately obtain r c1 where r: "recover_inode_from_journal env c (v_ino v) j (v_seq v) = Some (r, c1)"
      using recover_inode_depth0_defined [of j env c "v_ino v" "v_seq v"] d Some x v(1) by auto
    have "keeps c c1" using scan_frame_fields [OF recover_inode_scan_frame [OF r]] by (simp add: keeps_def)
    then have "names_kept ctx c1"
      using kp recover_inode_inv [OF r fm v(2)] keeps_trans2 by (auto simp: names_kept_def)
    then show ?thesis using inv j r Some x v(1) by (simp add: process_inode_copy slot)
  qed
qed

lemma inode_loop_defined:
  assumes "shallow_copies env ctx m b buf" "length buf = blocksize ctx" "112 \<le> isz" "isz = unat (s_inode_size (super ctx))"
  shows "names_kept ctx c \<Longrightarrow> set is \<subseteq> {..<blocksize ctx div isz} \<Longrightarrow>
    \<exists>c' vs' n. inode_loop env m buf b seq isz is (c, vs, k) = Some (c', vs', n) \<and> names_kept ctx c'"
proof (induction "is" arbitrary: c vs k)
  case (Cons i "is")
  have "Suc i * isz \<le> blocksize ctx div isz * isz" using Cons.prems(2) by (intro mult_le_mono1) auto
  also have "\<dots> \<le> blocksize ctx" by (rule div_times_less_eq_dividend)
  finally obtain j where j: "inode_at buf (i * isz) = Some j" using assms(2,3) by (auto simp: inode_at_def)
  have "\<not> stray_copy env ctx m buf b (i * isz)"
    "\<forall>v j. copy_of env ctx m buf b seq (i * isz) = Some (v, j) \<longrightarrow> eh_depth (header_at (i_block j)) = 0"
    using assms(1,4) Cons.prems(2) by (auto simp: shallow_copies_def Let_def)
  then obtain c1 vs1 k1 where
    "process_inode env m buf b seq (i * isz) (c, vs, k) = Some (c1, vs1, k1)" "names_kept ctx c1"
    using process_inode_defined [OF Cons.prems(1) j, where seq = seq and vs = vs and k = k] by blast
  then show ?case using Cons.IH [of c1 vs1 k1] Cons.prems(2) by simp
qed simp

lemma shallow_tables_ok:
  assumes isz: "112 \<le> unat (s_inode_size (super ctx))" and bs: "4 \<le> blocksize ctx"
    and sh: "\<And>k data b. read_journal_block env ctx k = Some data \<Longrightarrow> is_inode_table_block m b \<Longrightarrow>
        shallow_copies env ctx m b data \<and> shallow_copies env ctx m b (restore_magic data)"
  shows "tables_ok env m (names_kept ctx)"
  unfolding tables_ok_def
proof (intro conjI allI impI)
  fix c b k seq f assume c: "names_kept ctx c"
  have "names (jindex_record env c b k seq f) = names c" by (simp add: jindex_record_def Let_def split: option.split)
  then show "names_kept ctx (jindex_record env c b k seq f)"
    using c keeps_trans2 [OF _ jindex_record_keeps] by (auto simp: names_kept_def)
next
  fix c b k data buf seq vs
  assume c: "names_kept ctx c" and b: "is_inode_table_block m b" and rd: "read_journal_block env c k = Some data"
    and buf: "buf \<in> {data, restore_magic data}"
  have kp: "keeps ctx c" using c by (simp add: names_kept_def)
  then have eqs: "super c = super ctx" "blocksize c = blocksize ctx" by (simp_all add: keeps_def)
  have s: "shallow_copies env ctx m b buf" using sh [OF _ b] rd read_keeps [OF kp] buf by auto
  have "length data = blocksize ctx" using read_length [OF rd] eqs by simp
  then have "length buf = blocksize ctx" using buf bs by (auto simp: restore_magic_def)
  from inode_loop_defined [OF s this isz refl c, of "[0..<blocksize ctx div unat (s_inode_size (super ctx))]" seq vs 0]
  show "\<exists>c' vs' n. process_inode_table_block env m buf b seq c vs = Some (c', vs', n) \<and> names_kept ctx c'"
    using isz by (auto simp: process_inode_table_block_def eqs Let_def atLeast0LessThan)
qed

lemma scan_shallow_defined:
  assumes "tag_format_ok (caps ctx)" "4 \<le> blocksize ctx" "112 \<le> unat (s_inode_size (super ctx))" "fm_inv (names ctx)"
    and "\<And>m k data b. itable_of env ctx = Some m \<Longrightarrow> read_journal_block env ctx k = Some data \<Longrightarrow> is_inode_table_block m b \<Longrightarrow>
        shallow_copies env ctx m b data \<and> shallow_copies env ctx m b (restore_magic data)"
  shows "recover_from_journal env ctx \<noteq> None"
proof -
  have "names_kept ctx ctx" using assms(4) by (simp add: names_kept_def)
  moreover have "tables_ok env m (names_kept ctx)" if "itable_of env ctx = Some m" for m
    by (rule shallow_tables_ok [OF assms(3,2)]) (use assms(5) [OF that] in blast)
  ultimately show ?thesis using recover_from_journal_some [OF assms(1), of "names_kept ctx" env] by blast
qed


section \<open>An example\<close>

text \<open>A journal of one transaction with one data block, block 16 of the only inode table, which holds one copy of inode 12.\<close>

definition copy_bytes :: "nat \<Rightarrow> nat \<Rightarrow> buffer" where
  "copy_bytes flags links =
     le_bytes 2 0x8180 @ replicate 2 0 @ le_bytes 4 5 @ replicate 18 0 @ le_bytes 2 links @ replicate 4 0 @
     le_bytes 4 flags @ replicate 4 0 @ (leaf_node 0 1 2 @ replicate 36 0) @ replicate 28 0"

definition table_txn :: "nat \<Rightarrow> txn" where
  "table_txn flags = \<lparr>tx_seq = 7, tx_tags = [(16, 0xA)], tx_data = [copy_bytes flags 1]\<rparr>"

definition table_env :: "nat \<Rightarrow> env" where
  "table_env flags = (ideal_env [])\<lparr>
     lib_file_read := (\<lambda>_ off n. Some ((replicate 128 0 # txn_blocks JBD2_TAG_FMT_CSUM_V3 False 128 (table_txn flags)) ! (off div n mod 4))),
     lib_inode_table_loc := (\<lambda>_. 5), lib_read_inode := (\<lambda>_. Some tree_inode)\<rparr>"

definition table_ctx :: "fname_state \<Rightarrow> recover_context" where
  "table_ctx ns = (base_ctx 128 32)\<lparr>super := no_super\<lparr>s_inodes_per_group := 16, s_inode_size := 128\<rparr>, group_desc_count := 1,
     caps := fs_capabilities_set_journal (fs_capabilities_detect no_super) 0x10, names := ns,
     has_journal := True, journal_start := 1, journal_len := 4, journal_file := True\<rparr>"

definition table_map :: "itable_range list" where
  "table_map = [\<lparr>it_start = 5, it_end = 21, it_group = 0\<rparr>]"

lemma table_ctx_facts:
  "jbd2_tag_fmt (caps (table_ctx ns)) = JBD2_TAG_FMT_CSUM_V3" "\<not> jbd2_has_64bit (caps (table_ctx ns))" "tag_format_ok (caps (table_ctx ns))"
  "blocksize (table_ctx ns) = 128" "total_blocks (table_ctx ns) = 32" "journal_file (table_ctx ns)" "has_journal (table_ctx ns)"
  "super (table_ctx ns) = no_super\<lparr>s_inodes_per_group := 16, s_inode_size := 128\<rparr>" "names (table_ctx ns) = ns"
  "malloc_ok (table_env fl) = (\<lambda>_. True)" "group_desc_count (table_ctx ns) = 1"
  "unat (journal_start (table_ctx ns)) = 1" "unat (journal_len (table_ctx ns)) = 4"
  "caps (table_ctx ns) = fs_capabilities_set_journal (fs_capabilities_detect no_super) 0x10"
  by (simp_all add: table_ctx_def table_env_def ideal_env_def base_ctx_def fs_capabilities_set_journal_def tag_format_ok_def Let_def)

lemma table_itable: "itable_of (table_env fl) (table_ctx ns) = Some table_map" "is_inode_table_block table_map 16"
proof -
  show "itable_of (table_env fl) (table_ctx ns) = Some table_map"
    unfolding itable_of_def table_ctx_facts build_itable_map_def
    by (simp add: table_env_def table_map_def itb_blocks_def qsort_by_def itable_collect_def)
  show "is_inode_table_block table_map 16"
    by (simp add: is_inode_table_block_def itable_lookup_def itable_search.simps table_map_def)
qed

lemma copy_bytes_facts:
  assumes "flags < 2 ^ 32" "links < 2 ^ 16"
  shows "length (copy_bytes flags links) = 128"
    "inode_at (copy_bytes flags links) 0 = Some \<lparr>i_mode = 0x8180, i_size = 5, i_dtime = 0, i_links_count = of_nat links, i_blocks = 0,
       i_flags = of_nat flags, i_block = leaf_node 0 1 2 @ replicate 36 0, i_size_high = 0\<rparr>"
proof -
  have z: "le_val (replicate n 0) = 0" for n by (induction n) auto
  show "length (copy_bytes flags links) = 128" by (simp add: copy_bytes_def leaf_node_def)
  show "inode_at (copy_bytes flags links) 0 = Some \<lparr>i_mode = 0x8180, i_size = 5, i_dtime = 0, i_links_count = of_nat links, i_blocks = 0,
       i_flags = of_nat flags, i_block = leaf_node 0 1 2 @ replicate 36 0, i_size_high = 0\<rparr>"
    using assms
    by (simp add: inode_at_def copy_bytes_def le16_at_def le32_at_def sub_buf_def z leaf_node_def del: le_bytes_numeral)
qed

lemma table_txn_ok: "txn_ok JBD2_TAG_FMT_CSUM_V3 False 128 (table_txn flags)"
  by (simp add: table_txn_def txn_ok_def tag_ok_def last_flag_def length_enc_tag fmt_bytes_def
      JBD2_FLAG_LAST_TAG_def JBD2_FLAG_SAME_UUID_def)

lemma table_blocks_list:
  "length (txn_blocks JBD2_TAG_FMT_CSUM_V3 False 128 (table_txn flags)) = 3"
  "flags < 2 ^ 32 \<Longrightarrow> b \<in> set (txn_blocks JBD2_TAG_FMT_CSUM_V3 False 128 (table_txn flags)) \<Longrightarrow> length b = 128"
  using copy_bytes_facts(1) [of flags 1]
  by (auto simp: txn_blocks_def desc_block_def table_txn_def length_enc_tag fmt_bytes_def header_fields JBD2_FLAG_SAME_UUID_def Let_def)

lemma table_read:
  assumes "flags < 2 ^ 32"
  shows "read_journal_block (table_env flags) (table_ctx ns) k =
    Some ((replicate 128 0 # txn_blocks JBD2_TAG_FMT_CSUM_V3 False 128 (table_txn flags)) ! (k mod 4))"
proof -
  let ?xs = "replicate 128 (0 :: byte) # txn_blocks JBD2_TAG_FMT_CSUM_V3 False 128 (table_txn flags)"
  have "?xs ! (k mod 4) \<in> set ?xs" using table_blocks_list(1) by (intro nth_mem) simp
  then have "length (?xs ! (k mod 4)) = 128" using table_blocks_list(2) [OF assms] by auto
  then show ?thesis by (simp add: read_journal_block_def table_ctx_facts table_env_def)
qed

lemma table_complete:
  assumes "flags < 2 ^ 32"
  shows "complete_journal (table_env flags) (table_ctx ns) [table_txn flags]"
proof -
  have "(\<exists>c0 fl. caps (table_ctx ns) = fs_capabilities_set_journal c0 fl)" using table_ctx_facts(14) by blast
  moreover have "journal_holds (table_env flags) (table_ctx ns) 1 (txn_blocks JBD2_TAG_FMT_CSUM_V3 False 128 (table_txn flags))"
    using table_blocks_list(1) by (simp add: journal_holds_def table_read [OF assms])
  ultimately show ?thesis
    using table_txn_ok table_blocks_list(1) by (simp add: complete_journal_def table_ctx_facts(1-13) Let_def)
qed

lemma table_copy:
  "op_copy (table_env 0x80000) (table_ctx ns) table_map (Op_inode (copy_bytes 0x80000 1) 16 7 0) =
    Some (\<lparr>v_ino = 12, v_seq = 7, v_size = 5, v_live = True\<rparr>, the (inode_at (copy_bytes 0x80000 1) 0))"
  "stray_op (table_env 0) (table_ctx ns) table_map (Op_inode (copy_bytes 0 1) 16 7 0)"
  "journal_ops (table_ctx ns) table_map [table_txn flags] = [Op_index 16 2 7 0xA, Op_inode (copy_bytes flags 1) 16 7 0]"
proof -
  have i: "calc_ino (table_ctx ns) table_map 16 0 = 12"
    by (simp add: calc_ino_def calc_inode_from_block_def itable_lookup_def itable_search.simps table_map_def table_ctx_facts Let_def)
  have h: "header_at (leaf_node 0 1 2 @ replicate 36 0) = \<lparr>eh_magic = EXT4_EXT_MAGIC, eh_entries = 1, eh_max = 1, eh_depth = 0\<rparr>"
    using leaf_inode_facts(1) by (simp add: leaf_inode_def)
  have r: "lib_read_inode (table_env fl) n = Some tree_inode" for fl n by (simp add: table_env_def)
  have d: "is_deleted tree_inode 5" "i_links_count tree_inode = 0" by (simp_all add: is_deleted_def tree_inode_def)
  show "op_copy (table_env 0x80000) (table_ctx ns) table_map (Op_inode (copy_bytes 0x80000 1) 16 7 0) =
    Some (\<lparr>v_ino = 12, v_seq = 7, v_size = 5, v_live = True\<rparr>, the (inode_at (copy_bytes 0x80000 1) 0))"
    by (simp add: op_copy_def copy_of_def copy_bytes_facts i r h [simplified] d inode_size64_def LINUX_S_ISREG_def EXT4_EXTENTS_FL_def
        EXT2_GOOD_OLD_FIRST_INO_def Let_def)
  show "stray_op (table_env 0) (table_ctx ns) table_map (Op_inode (copy_bytes 0 1) 16 7 0)"
    by (simp add: stray_op_def stray_copy_def copy_bytes_facts i r d inode_size64_def LINUX_S_ISREG_def reaches_state_call_def unlinked_now_def
        EXT2_GOOD_OLD_FIRST_INO_def)
  show "journal_ops (table_ctx ns) table_map [table_txn flags] = [Op_index 16 2 7 0xA, Op_inode (copy_bytes flags 1) 16 7 0]"
    using table_itable(2)
    by (simp add: journal_ops_def table_ctx_facts table_txn_def tag_ops_def JBD2_FLAG_ESCAPE_def)
qed

lemma not_regular_shallow:
  assumes "\<not> LINUX_S_ISREG (le16_at buf 0)"
  shows "shallow_copies env (table_ctx ns) m b buf"
proof -
  have "\<not> LINUX_S_ISREG (i_mode j)" if "inode_at buf 0 = Some j" for j
    using that assms by (auto simp: inode_at_def split: if_splits)
  then show ?thesis by (auto simp: shallow_copies_def table_ctx_facts stray_copy_def copy_of_def Let_def split: option.splits)
qed

lemma table_shallow:
  assumes "read_journal_block (table_env 0x80000) (table_ctx ns) k = Some data"
  shows "shallow_copies (table_env 0x80000) (table_ctx ns) m b data" "shallow_copies (table_env 0x80000) (table_ctx ns) m b (restore_magic data)"
proof -
  have magic: "\<not> LINUX_S_ISREG (le16_at (be_bytes 4 0xc03b3998 @ xs) 0)" for xs
    by (simp add: le16_at_def sub_buf_def be_bytes_def LINUX_S_ISREG_def)
  then show "shallow_copies (table_env 0x80000) (table_ctx ns) m b (restore_magic data)"
    unfolding restore_magic_def by (intro not_regular_shallow) simp
  have "k mod 4 < 4" by simp
  then consider "k mod 4 = 0" | "k mod 4 = 1" | "k mod 4 = 2" | "k mod 4 = 3" by linarith
  then show "shallow_copies (table_env 0x80000) (table_ctx ns) m b data"
  proof cases
    case 1
    then have "data = replicate 128 0" using assms table_read [of "0x80000" ns k] by simp
    moreover have "le16_at (replicate 128 0) 0 = 0" by (simp add: le16_at_def sub_buf_def numeral_2_eq_2)
    ultimately show ?thesis by (intro not_regular_shallow) (simp add: LINUX_S_ISREG_def)
  next
    case 2
    then have "data = desc_block JBD2_TAG_FMT_CSUM_V3 False 128 (table_txn 0x80000)"
      using assms table_read [of "0x80000" ns k] by (simp add: txn_blocks_def)
    then show ?thesis using magic by (intro not_regular_shallow) (simp add: desc_block_def txn_header_def Let_def)
  next
    case 3
    then have d: "data = copy_bytes 0x80000 1"
      using assms table_read [of "0x80000" ns k] by (simp add: txn_blocks_def table_txn_def)
    have h: "eh_depth (header_at (leaf_node 0 1 2 @ replicate 36 0)) = 0"
      using leaf_inode_facts(1) by (simp add: leaf_inode_def)
    then show ?thesis
      by (auto simp: d shallow_copies_def table_ctx_facts stray_copy_def copy_of_def copy_bytes_facts EXT4_EXTENTS_FL_def Let_def split: if_splits)
  next
    case 4
    then have "data = txn_header 2 7 @ replicate 116 0"
      using assms table_read [of "0x80000" ns k] by (simp add: txn_blocks_def table_txn_def numeral_3_eq_3)
    then show ?thesis using magic by (intro not_regular_shallow) (simp add: txn_header_def)
  qed
qed

lemma table_defined:
  assumes "fm_inv ns"
  shows "\<exists>r ctx'. recover_from_journal (table_env 0x80000) (table_ctx ns) = Some (r, ctx')"
proof -
  have "recover_from_journal (table_env 0x80000) (table_ctx ns) \<noteq> None"
    by (rule scan_shallow_defined) (use table_shallow assms table_ctx_facts(3) in \<open>simp_all add: table_ctx_facts(4,8,9)\<close>)
  then show ?thesis by auto
qed

section \<open>Properties\<close>

text \<open>Property C5: the journal phase keeps the right copy of every inode.  Take a journal of complete transactions.  The candidates
  are the copies of deleted regular files with extents in its inode-table blocks, in the order of the journal.  The scan skips some of
  them and hands the others to \<open>recover_inode_from_journal\<close>, one after the other, and does nothing else to the directory; that
  call may write the output, find it redundant or fail.  Whatever the outcomes: a copy is skipped only when a copy of the inode was
  written.  The last one written, which the output holds, is a live copy (links > 0) if any live copy was written, and then every live
  copy with a higher sequence number failed; otherwise every live copy failed, and every larger copy failed or was
  redundant.  At most 65536 distinct inodes are tracked.\<close>

theorem journal_version_selection:
  assumes "recover_from_journal env ctx = Some (r, ctx')"
    and "complete_journal env ctx txs" and "itable_of env ctx = Some m" and "malloc_ok env = (\<lambda>_. True)"
    and "unat (s_inode_size (super ctx)) \<noteq> 0"
    and "card (v_ino ` fst ` set (journal_copies env ctx m txs)) \<le> MAX_RECOVERED_INODES"
  shows "\<exists>tr. map fst tr = journal_copies env ctx m txs \<and> attempts env ctx tr ctx' \<and>
    (\<forall>ino. let xs = of_ino ino (versions_of tr); ws = written xs in
       if ws = [] then \<forall>(c, o') \<in> set xs. o' \<noteq> None
       else if \<exists>w \<in> set ws. v_live w
       then v_live (last ws) \<and> (\<forall>(c, o') \<in> set xs. v_live c \<longrightarrow> o' = Some (-1) \<or> v_seq c \<le> v_seq (last ws))
       else \<forall>(c, o') \<in> set xs. if v_live c then o' = Some (-1) else o' \<in> {Some (-1), Some 1} \<or> v_size c \<le> v_size (last ws))"
proof -
  obtain c vs where run: "run_ops env m (journal_ops ctx m txs) (ctx, []) = Some (c, vs)"
    and ctx': "ctx' = c\<lparr>jindex := jindex_sort (jindex c)\<rparr>"
    using assms(1) recover_from_journal_ops [OF assms(2-5)] by auto
  obtain tr where tr: "map fst tr = journal_copies env ctx m txs" "attempts env ctx tr c" "selects [] (versions_of tr)"
    using run_ops_trace [OF run] by (auto simp: journal_copies_def)
  have "fst x \<in> set (journal_copies env ctx m txs)" if "x \<in> set tr" for x using that by (simp flip: tr(1))
  then have ok: "\<forall>x \<in> set (versions_of tr). attempt_ok x"
    using attempts_ok [OF tr(2)] journal_copies_from by blast
  have "fst ` set (versions_of tr) = fst ` set (map fst tr)" by (force simp: versions_of_def image_image)
  then have "selected (of_ino ino (versions_of tr))" for ino
    using selects_best [OF tr(3) ok] assms(6) tr(1) by simp
  then show ?thesis
    using tr(1) attempts_keeps_end [OF tr(2)] unfolding ctx' selected_iff Let_def by blast
qed

theorem journal_version_selection_witness:
  "\<exists>ns ctx' tr r. recover_from_journal (table_env 0x80000) (table_ctx ns) = Some (0, ctx') \<and> attempts (table_env 0x80000) (table_ctx ns) tr ctx' \<and>
     versions_of tr = [(\<lparr>v_ino = 12, v_seq = 7, v_size = 5, v_live = True\<rparr>, Some r)]"
proof -
  obtain ns where ns: "fm_inv ns" using fresh_state by blast
  have lt: "(0x80000 :: nat) < 2 ^ 32" by simp
  obtain r ctx' where run: "recover_from_journal (table_env 0x80000) (table_ctx ns) = Some (r, ctx')"
    using table_defined [OF ns] by blast
  have r: "r = 0" using run recover_from_journal_ops [OF table_complete [OF lt] table_itable(1) table_ctx_facts(10)] by (auto simp: table_ctx_facts(8))
  have isz: "unat (s_inode_size (super (table_ctx ns))) \<noteq> 0" by (simp add: table_ctx_facts(8))
  let ?v = "\<lparr>v_ino = 12, v_seq = 7, v_size = 5, v_live = True\<rparr>"
  have cs: "journal_copies (table_env 0x80000) (table_ctx ns) table_map [table_txn 0x80000] = [(?v, the (inode_at (copy_bytes 0x80000 1) 0))]"
    unfolding journal_copies_def table_copy(3) using table_copy(1) by (simp add: map_filter_simps) (simp add: op_copy_def)
  have cap: "card (v_ino ` fst ` set (journal_copies (table_env 0x80000) (table_ctx ns) table_map [table_txn 0x80000])) \<le> MAX_RECOVERED_INODES"
    unfolding cs by (simp add: MAX_RECOVERED_INODES_def)
  have "\<exists>tr. map fst tr = [(?v, the (inode_at (copy_bytes 0x80000 1) 0))] \<and> attempts (table_env 0x80000) (table_ctx ns) tr ctx' \<and>
      (\<forall>ino. selected (of_ino ino (versions_of tr)))"
    using journal_version_selection [OF run table_complete [OF lt] table_itable(1) table_ctx_facts(10) isz cap]
    unfolding cs selected_iff Let_def .
  then obtain tr where tr: "map fst tr = [(?v, the (inode_at (copy_bytes 0x80000 1) 0))]" "attempts (table_env 0x80000) (table_ctx ns) tr ctx'"
    and all: "\<forall>ino. selected (of_ino ino (versions_of tr))" by (elim exE conjE)
  note sel = all [rule_format, of 12]
  obtain o' where o': "tr = [((?v, the (inode_at (copy_bytes 0x80000 1) 0)), o')]" using tr(1) by (auto simp: map_eq_Cons_conv)
  then have "o' \<noteq> None" using sel by (auto simp: versions_of_def of_ino_def written_def selected_def split: if_splits)
  then obtain q where "o' = Some q" by blast
  then have "versions_of tr = [(?v, Some q)]" by (simp add: o' versions_of_def)
  then show ?thesis using run tr(2) unfolding r by blast
qed

text \<open>Property C24: the journal scan always ends with a result.  The journal may hold
  any bytes: any block may pose as a descriptor, with any tags, flags and claimed block numbers; every tag is read inside its
  descriptor and every loop ends.  What is asked of the journal is only that no copy of an inode in a block of the inode tables is one of
  the two kinds whose processing can be undefined: those without extents that reach the call with \<^verbatim>\<open>&state\<close>, and those whose
  tree has index nodes, which the recovery may leave.\<close>

theorem recover_from_journal_defined:
  assumes "tag_format_ok (caps ctx)" and "4 \<le> blocksize ctx" and "112 \<le> unat (s_inode_size (super ctx))" and "fm_inv (names ctx)"
    and "\<And>m k data b. itable_of env ctx = Some m \<Longrightarrow> read_journal_block env ctx k = Some data \<Longrightarrow> is_inode_table_block m b \<Longrightarrow>
        shallow_copies env ctx m b data \<and> shallow_copies env ctx m b (restore_magic data)"
  shows "\<exists>r ctx'. recover_from_journal env ctx = Some (r, ctx')"
  using scan_shallow_defined [OF assms] by auto

theorem recover_from_journal_defined_witness:
  "\<exists>ns m r ctx'. itable_of (table_env 0x80000) (table_ctx ns) = Some m \<and> is_inode_table_block m 16 \<and>
     recover_from_journal (table_env 0x80000) (table_ctx ns) = Some (r, ctx')"
proof -
  obtain ns where ns: "fm_inv ns" using fresh_state by blast
  have "\<exists>r ctx'. recover_from_journal (table_env 0x80000) (table_ctx ns) = Some (r, ctx')"
    by (rule recover_from_journal_defined) (use table_shallow ns in \<open>simp_all add: table_ctx_facts(1-13) table_ctx_facts(3) [simplified]\<close>)
  then show ?thesis using table_itable by blast
qed



end
