(* ===== verification/Carving.thy ===== *)
theory Carving
  imports Checkpoint "HOL-Library.Sublist"
begin

text \<open>
  The carving tools of the original distribution (\<^verbatim>\<open>original/src/bgrep*.c\<close>): they read a device block by
  block, look for byte patterns and copy what lies between a start and an end into a
  new file.  A run sees the results of its \<open>read\<close> calls up to the one that returns 0; the
  buffer keeps what a short read does not overwrite, and an access outside it is undefined
  (\<open>None\<close>).
\<close>

section \<open>Searching a block\<close>

datatype rd = Rd buffer | Rd_err

text \<open>The position of the first occurrence, as \<open>memmem(hay, n, needle, m) - hay\<close>.\<close>

fun memmem :: "buffer \<Rightarrow> buffer \<Rightarrow> nat option" where
  "memmem hay needle =
     (if prefix needle hay then Some 0
      else case hay of [] \<Rightarrow> None | _ # t \<Rightarrow> map_option Suc (memmem t needle))"

declare memmem.simps [simp del]

text \<open>\<open>read(fd, buf + base, n)\<close> into the array.\<close>

definition put_at :: "buffer \<Rightarrow> nat \<Rightarrow> buffer \<Rightarrow> buffer ub" where
  "put_at buf base d =
     (if base + length d \<le> length buf then Some (take base buf @ d @ drop (base + length d) buf) else None)"

section \<open>bgrep and bgrep_non_zero\<close>

definition BUFLEN :: nat where "BUFLEN = 4096"

text \<open>The matches that \<open>bgrep\<close> prints.  After a read error \<open>nread\<close> is the largest \<open>size_t\<close>.\<close>

fun bgrep_loop :: "buffer \<Rightarrow> nat \<Rightarrow> rd list \<Rightarrow> (nat \<times> nat) list ub" where
  "bgrep_loop needle blk_num [] = Some []"
| "bgrep_loop needle blk_num (Rd d # rs) =
     map_option (\<lambda>out. (case memmem d needle of None \<Rightarrow> out | Some off \<Rightarrow> (blk_num, off) # out))
       (bgrep_loop needle (blk_num + 1) rs)"
| "bgrep_loop needle blk_num (Rd_err # rs) = None"

text \<open>\<open>argv[2]\<close> is the length of the needle in \<open>argv[3]\<close>, which ends with a zero byte.\<close>

definition bgrep :: "string \<Rightarrow> string \<Rightarrow> rd list \<Rightarrow> (nat \<times> nat) list ub" where
  "bgrep len_arg str_arg rs =
     (let needle_len = atoi len_arg; bytes = bytes_of str_arg @ [0] in
      if needle_len < 0 \<or> needle_len > int (length bytes) then None
      else bgrep_loop (take (nat needle_len) bytes) 0 rs)"

text \<open>The runs that \<open>bgrep_non_zero\<close> prints.  The comparison always covers the whole buffer.\<close>

fun non_zero_loop :: "nat \<Rightarrow> nat option \<Rightarrow> buffer \<Rightarrow> rd list \<Rightarrow> (nat \<times> nat) list" where
  "non_zero_loop blk_num blk_start buf [] =
     (case blk_start of None \<Rightarrow> [] | Some s \<Rightarrow> [(s, blk_num)])"
| "non_zero_loop blk_num blk_start buf (r # rs) =
     (let buf' = (case r of Rd d \<Rightarrow> d @ drop (length d) buf | Rd_err \<Rightarrow> buf) in
      if buf' \<noteq> replicate (length buf') 0 then
        non_zero_loop (blk_num + 1) (Some (case blk_start of None \<Rightarrow> blk_num | Some s \<Rightarrow> s)) buf' rs
      else case blk_start of
             None \<Rightarrow> non_zero_loop (blk_num + 1) None buf' rs
           | Some s \<Rightarrow> (s, blk_num) # non_zero_loop (blk_num + 1) None buf' rs)"

definition bgrep_non_zero :: "buffer \<Rightarrow> rd list \<Rightarrow> (nat \<times> nat) list" where
  "bgrep_non_zero buf rs = non_zero_loop 0 None buf rs"

section \<open>Carving between markers\<close>

definition BLOCK_SIZE :: nat where "BLOCK_SIZE = 4096"
definition MAX_VALID_BLOCKS :: nat where "MAX_VALID_BLOCKS = 131072"

text \<open>What the operating system answers: which files open, and how much of a \<open>write\<close> is taken.\<close>

record carve_io =
  cio_open :: "string \<Rightarrow> bool"
  cio_write :: "string \<Rightarrow> nat \<Rightarrow> nat \<Rightarrow> nat"

text \<open>The variables of \<open>main\<close>; \<open>cv_base\<close> is how far \<open>buf\<close> has moved, \<open>cv_outs\<close> the files written.\<close>

record carve =
  cv_buf :: buffer
  cv_base :: nat
  cv_started :: bool
  cv_nblocks :: nat
  cv_size :: u64
  cv_name :: string
  cv_blk :: u64
  cv_outs :: "string \<Rightarrow> buffer option"

definition cv_write :: "carve_io \<Rightarrow> nat \<Rightarrow> carve \<Rightarrow> carve ub" where
  "cv_write io n st =
     (if cv_base st + n > length (cv_buf st) then None
      else let f = (case cv_outs st (cv_name st) of None \<Rightarrow> [] | Some f \<Rightarrow> f);
               w = cio_write io (cv_name st) (length f) n
           in Some (st\<lparr>cv_outs := (cv_outs st)(cv_name st \<mapsto> f @ take (min w n) (sub_buf (cv_buf st) (cv_base st) n))\<rparr>))"

text \<open>\<open>open(wfilename, O_WRONLY | O_CREAT | O_TRUNC)\<close>\<close>

definition cv_open :: "carve_io \<Rightarrow> string \<Rightarrow> carve \<Rightarrow> carve option" where
  "cv_open io name st =
     (if cio_open io name
      then Some (st\<lparr>cv_started := True, cv_nblocks := 0, cv_name := name, cv_outs := (cv_outs st)(name \<mapsto> [])\<rparr>) else None)"

definition match_end :: buffer where "match_end = [0xc0, 0x28, 0x93, 0xe8, 0, 0, 0, 0]"

text \<open>The \<open>if (started)\<close> part of the Lucene tools.\<close>

definition carve_copy :: "carve_io \<Rightarrow> nat \<Rightarrow> carve \<Rightarrow> carve ub" where
  "carve_copy io nread st =
     (if \<not> cv_started st then Some st
      else case memmem (sub_buf (cv_buf st) (cv_base st) nread) match_end of
             Some pend \<Rightarrow> map_option (cv_started_update (\<lambda>_. False)) (cv_write io (pend + length match_end + 8) st)
           | None \<Rightarrow>
               if cv_nblocks st > MAX_VALID_BLOCKS
               then map_option (cv_started_update (\<lambda>_. False)) (cv_write io nread st)
               else map_option (cv_nblocks_update (\<lambda>n. n + 1)) (cv_write io nread st))"

text \<open>One block of a Lucene tool; \<open>start\<close> gives the output name and the offset of the signature.  The flag is
  \<open>False\<close> when the program returns because the output cannot be opened.\<close>

definition carve_block ::
  "(buffer \<Rightarrow> u64 \<Rightarrow> (string \<times> nat) option) \<Rightarrow> carve_io \<Rightarrow> rd \<Rightarrow> carve \<Rightarrow> (bool \<times> carve) ub" where
  "carve_block start io r st =
     (case r of Rd_err \<Rightarrow> None
      | Rd d \<Rightarrow>
          (case put_at (cv_buf st) (cv_base st) d of None \<Rightarrow> None
           | Some buf \<Rightarrow>
               (let st1 = st\<lparr>cv_buf := buf\<rparr>;
                    hit = (if cv_started st then None else start d (cv_blk st));
                    go = (\<lambda>n s. map_option (\<lambda>s'. (True, s'\<lparr>cv_blk := cv_blk s' + 1\<rparr>)) (carve_copy io n s))
                in case hit of
                     None \<Rightarrow> go (length d) st1
                   | Some (name, off) \<Rightarrow>
                       (case cv_open io name (st1\<lparr>cv_base := cv_base st1 + off\<rparr>) of
                          None \<Rightarrow> Some (False, st1)
                        | Some st2 \<Rightarrow> go (length d - off) st2))))"

primrec carve_run ::
  "(buffer \<Rightarrow> u64 \<Rightarrow> (string \<times> nat) option) \<Rightarrow> carve_io \<Rightarrow> rd list \<Rightarrow> carve \<Rightarrow> (bool \<times> carve) ub" where
  "carve_run start io [] st = Some (True, st)"
| "carve_run start io (r # rs) st =
     (case carve_block start io r st of None \<Rightarrow> None
      | Some (False, st') \<Rightarrow> Some (False, st')
      | Some (True, st') \<Rightarrow> carve_run start io rs st')"

section \<open>The Lucene tools\<close>

definition lucene :: "byte \<Rightarrow> string \<Rightarrow> buffer" where
  "lucene n name = [0x3f, 0xd7, 0x6c, 0x17, n] @ bytes_of name"

text \<open>\<open>bgrep_demo\<close> and \<open>bgrep_es_cfs_cfe\<close> accept a signature only at the start of a block.\<close>

definition demo_start :: "buffer \<Rightarrow> u64 \<Rightarrow> (string \<times> nat) option" where
  "demo_start d blk =
     (if memmem d (lucene 0x1c ''Lucene50StoredFieldsFastData'') = Some 0 \<or>
         memmem d (lucene 0x1c ''Lucene50StoredFieldsHighData'') = Some 0
      then Some (udec (unat blk) @ ''.fdt'', 0) else None)"

definition cfs_start :: "buffer \<Rightarrow> u64 \<Rightarrow> (string \<times> nat) option" where
  "cfs_start d blk =
     (if memmem d (lucene 0x14 ''Lucene50CompoundData'') = Some 0 then Some (udec (unat blk) @ ''.cfs'', 0)
      else if memmem d (lucene 0x17 ''Lucene50CompoundEntries'') = Some 0 then Some (udec (unat blk) @ ''.cfe'', 0)
      else None)"

text \<open>\<open>bgrep_es_lucene87\<close> accepts it anywhere and moves \<open>buf\<close> to it.\<close>

definition lucene87_start :: "buffer \<Rightarrow> u64 \<Rightarrow> (string \<times> nat) option" where
  "lucene87_start d blk =
     map_option (Pair (udec (unat blk) @ ''.fdt''))
       (case memmem d (lucene 0x1c ''Lucene87StoredFieldsFastData'') of Some p \<Rightarrow> Some p
        | None \<Rightarrow> case memmem d (lucene 0x1c ''Lucene87StoredFieldsHighData'') of Some p \<Rightarrow> Some p
        | None \<Rightarrow> memmem d (lucene 0x1c ''Lucene87StoredFieldsZstandard''))"

definition carve_init :: "buffer \<Rightarrow> u64 \<Rightarrow> carve" where
  "carve_init buf blk0 =
     \<lparr>cv_buf = buf, cv_base = 0, cv_started = False, cv_nblocks = 0, cv_size = 0, cv_name = [], cv_blk = blk0, cv_outs = Map.empty\<rparr>"

text \<open>The tools on an initial buffer; the block counter of the first two starts with whatever is on the stack.\<close>

definition bgrep_demo :: "carve_io \<Rightarrow> buffer \<Rightarrow> u64 \<Rightarrow> rd list \<Rightarrow> (bool \<times> carve) ub" where
  "bgrep_demo io buf blk0 rs = carve_run demo_start io rs (carve_init buf blk0)"

definition bgrep_es_cfs_cfe :: "carve_io \<Rightarrow> buffer \<Rightarrow> u64 \<Rightarrow> rd list \<Rightarrow> (bool \<times> carve) ub" where
  "bgrep_es_cfs_cfe io buf blk0 rs = carve_run cfs_start io rs (carve_init buf blk0)"

definition bgrep_es_lucene87 :: "carve_io \<Rightarrow> buffer \<Rightarrow> rd list \<Rightarrow> (bool \<times> carve) ub" where
  "bgrep_es_lucene87 io buf rs = carve_run lucene87_start io rs (carve_init buf 0)"

section \<open>The FoundationDB tool\<close>

text \<open>The name and \<open>file_size\<close> of a recognised file; the header fields are read from the array.\<close>

definition fdb_start :: "int \<Rightarrow> buffer \<Rightarrow> buffer \<Rightarrow> u64 \<Rightarrow> (string \<times> u64) option" where
  "fdb_start max_file_size d buf blk =
     (let named = (\<lambda>suffix sz. Some (udec (unat blk) @ suffix, sz)); limit = word_of_int max_file_size :: u64 in
      if memmem d (bytes_of ''FoundationDB100'' @ [0]) = Some 0 then named ''.sqlite'' limit
      else if memmem d [0x01, 0x00, 0x01, 0x70, 0xa5, 0x00, 0xdb, 0x0f] = Some 0 then named ''.processId'' limit
      else if memmem d [0x37, 0x7f, 0x06, 0x82, 0x00, 0x2d, 0xe2, 0x18, 0x00, 0x00, 0x10] = Some 0 then named ''.sqlite-wal'' limit
      else if memmem d (bytes_of ''SQLite format 3'' @ [0]) = Some 0 then
        (let file_size = ucast (be32_at buf 28) * ucast (be16_at buf 16) in
         named ''.sqlite.db'' (if max_file_size > 0 \<and> file_size > limit then limit else file_size))
      else None)"

definition fdb_copy :: "carve_io \<Rightarrow> nat \<Rightarrow> carve \<Rightarrow> carve ub" where
  "fdb_copy io nread st =
     (if \<not> cv_started st then Some st
      else if (cv_nblocks st + 1) * BLOCK_SIZE \<ge> unat (cv_size st)
      then map_option (cv_started_update (\<lambda>_. False)) (cv_write io (unat (cv_size st) - cv_nblocks st * BLOCK_SIZE) st)
      else map_option (cv_nblocks_update (\<lambda>n. n + 1)) (cv_write io nread st))"

definition fdb_block :: "int \<Rightarrow> carve_io \<Rightarrow> rd \<Rightarrow> carve \<Rightarrow> (bool \<times> carve) ub" where
  "fdb_block max_file_size io r st =
     (case r of Rd_err \<Rightarrow> None
      | Rd d \<Rightarrow>
          (case put_at (cv_buf st) 0 d of None \<Rightarrow> None
           | Some buf \<Rightarrow>
               (let st1 = st\<lparr>cv_buf := buf\<rparr>;
                    go = (\<lambda>s. map_option (\<lambda>s'. (True, s'\<lparr>cv_blk := cv_blk s' + 1\<rparr>)) (fdb_copy io (length d) s))
                in case (if cv_started st then None else fdb_start max_file_size d buf (cv_blk st)) of
                     None \<Rightarrow> go st1
                   | Some (name, sz) \<Rightarrow>
                       (case cv_open io name st1 of None \<Rightarrow> Some (False, st1)
                        | Some st2 \<Rightarrow> go (st2\<lparr>cv_size := sz\<rparr>)))))"

primrec fdb_run :: "int \<Rightarrow> carve_io \<Rightarrow> rd list \<Rightarrow> carve \<Rightarrow> (bool \<times> carve) ub" where
  "fdb_run max_file_size io [] st = Some (True, st)"
| "fdb_run max_file_size io (r # rs) st =
     (case fdb_block max_file_size io r st of None \<Rightarrow> None
      | Some (False, st') \<Rightarrow> Some (False, st')
      | Some (True, st') \<Rightarrow> fdb_run max_file_size io rs st')"

definition bgrep_foundationdb :: "carve_io \<Rightarrow> string option \<Rightarrow> buffer \<Rightarrow> rd list \<Rightarrow> (bool \<times> carve) ub" where
  "bgrep_foundationdb io size_arg buf rs =
     fdb_run (case size_arg of None \<Rightarrow> 0 | Some a \<Rightarrow> atoi a) io rs (carve_init buf 0)"

section \<open>First occurrences\<close>

lemma memmem_Some:
  "memmem h n = Some i \<Longrightarrow> i \<le> length h \<and> prefix n (drop i h) \<and> (\<forall>j < i. \<not> prefix n (drop j h))"
proof (induction h arbitrary: i)
  case Nil
  then show ?case by (auto simp: memmem.simps [of "[]"] split: if_splits)
next
  case (Cons x h)
  show ?case
  proof (cases "prefix n (x # h)")
    case True
    then show ?thesis using Cons.prems by (simp add: memmem.simps [of "x # h"])
  next
    case False
    then obtain k where k: "memmem h n = Some k" "i = Suc k" using Cons.prems by (auto simp: memmem.simps [of "x # h"])
    have "\<not> prefix n (drop j (x # h))" if "j < Suc k" for j
      using that Cons.IH [OF k(1)] False by (cases j) auto
    then show ?thesis using Cons.IH [OF k(1)] k(2) by simp
  qed
qed

lemma memmem_None: "memmem h n = None \<Longrightarrow> j \<le> length h \<Longrightarrow> \<not> prefix n (drop j h)"
proof (induction h arbitrary: j)
  case Nil
  then show ?case by (auto simp: memmem.simps [of "[]"] split: if_splits)
next
  case (Cons x h)
  then show ?case by (cases j) (auto simp: memmem.simps [of "x # h"] split: if_splits)
qed

lemma memmem_zero: "memmem h n = Some 0 \<longleftrightarrow> prefix n h"
  using memmem_Some [of h n 0] by (auto simp: memmem.simps [of h])

lemma memmem_absent: "x \<notin> set h \<Longrightarrow> memmem h (x # xs) = None"
  by (induction h) (auto simp: memmem.simps)

lemma bgrep_loop_exact:
  "\<exists>out. bgrep_loop needle k (map Rd ds) = Some out \<and>
     (\<forall>b off. (b, off) \<in> set out \<longleftrightarrow> k \<le> b \<and> b < k + length ds \<and> memmem (ds ! (b - k)) needle = Some off)"
proof (induction ds arbitrary: k)
  case (Cons d ds)
  obtain out where out: "bgrep_loop needle (k + 1) (map Rd ds) = Some out"
    "\<And>b off. (b, off) \<in> set out \<longleftrightarrow> k + 1 \<le> b \<and> b < k + 1 + length ds \<and> memmem (ds ! (b - (k + 1))) needle = Some off"
    using Cons.IH [of "k + 1"] by blast
  have nth: "(d # ds) ! (b - k) = ds ! (b - (k + 1))" if "k + 1 \<le> b" for b using that by (auto simp: nth_Cons')
  define res where "res = (case memmem d needle of None \<Rightarrow> out | Some off \<Rightarrow> (k, off) # out)"
  have "(b, off) \<in> set res \<longleftrightarrow> k \<le> b \<and> b < k + length (d # ds) \<and> memmem ((d # ds) ! (b - k)) needle = Some off" for b off
  proof (cases "b = k")
    case True
    then show ?thesis using out(2) [of b off] by (auto simp: res_def split: option.splits)
  next
    case False
    then have "(b, off) \<in> set res \<longleftrightarrow> (b, off) \<in> set out" by (auto simp: res_def split: option.splits)
    then show ?thesis using out(2) [of b off] nth [of b] False by auto
  qed
  moreover have "bgrep_loop needle k (map Rd (d # ds)) = Some res" using out(1) by (simp add: res_def)
  ultimately show ?case by blast
qed simp

section \<open>Runs of blocks\<close>

text \<open>Half-open intervals in increasing order with a gap between any two.\<close>

fun runs_ok :: "nat \<Rightarrow> (nat \<times> nat) list \<Rightarrow> bool" where
  "runs_ok lo [] = True"
| "runs_ok lo ((a, b) # rs) \<longleftrightarrow> lo \<le> a \<and> a < b \<and> runs_ok (b + 1) rs"

definition in_runs :: "(nat \<times> nat) list \<Rightarrow> nat \<Rightarrow> bool" where
  "in_runs rs k \<longleftrightarrow> (\<exists>(a, b) \<in> set rs. a \<le> k \<and> k < b)"

lemma in_runs_simps [simp]: "\<not> in_runs [] k" "in_runs ((a, b) # rs) k \<longleftrightarrow> a \<le> k \<and> k < b \<or> in_runs rs k"
  by (auto simp: in_runs_def)

lemma runs_ok_above: "runs_ok lo rs \<Longrightarrow> in_runs rs k \<Longrightarrow> lo \<le> k"
  by (induction lo rs rule: runs_ok.induct) auto

lemma runs_ok_mono: "runs_ok lo rs \<Longrightarrow> lo' \<le> lo \<Longrightarrow> runs_ok lo' rs"
  by (cases rs) auto

definition zero_block :: "buffer \<Rightarrow> bool" where
  "zero_block d \<longleftrightarrow> d = replicate (length d) 0"

lemma non_zero_loop_exact:
  assumes "\<forall>d \<in> set ds. length d = length buf"
  shows "(\<forall>out. non_zero_loop n None buf (map Rd ds) = out \<longrightarrow> runs_ok n out \<and>
       (\<forall>k. in_runs out k \<longleftrightarrow> n \<le> k \<and> k < n + length ds \<and> \<not> zero_block (ds ! (k - n)))) \<and>
     (\<forall>out s. s < n \<longrightarrow> non_zero_loop n (Some s) buf (map Rd ds) = out \<longrightarrow> runs_ok s out \<and>
       (\<forall>k. in_runs out k \<longleftrightarrow> s \<le> k \<and> k < n \<or> n \<le> k \<and> k < n + length ds \<and> \<not> zero_block (ds ! (k - n))))"
  using assms
proof (induction ds arbitrary: n buf)
  case (Cons d ds)
  have len: "length d = length buf" "\<forall>x \<in> set ds. length x = length d" using Cons.prems by auto
  let ?P = "\<lambda>k. n + 1 \<le> k \<and> k < n + 1 + length ds \<and> \<not> zero_block (ds ! (k - (n + 1)))"
  have split: "n \<le> k \<and> k < n + length (d # ds) \<and> \<not> zero_block ((d # ds) ! (k - n)) \<longleftrightarrow> k = n \<and> \<not> zero_block d \<or> ?P k" for k
    by (auto simp: nth_Cons')
  have IH: "runs_ok (n + 1) (non_zero_loop (n + 1) None d (map Rd ds))"
    "in_runs (non_zero_loop (n + 1) None d (map Rd ds)) k \<longleftrightarrow> ?P k"
    "s < n + 1 \<Longrightarrow> runs_ok s (non_zero_loop (n + 1) (Some s) d (map Rd ds))"
    "s < n + 1 \<Longrightarrow> in_runs (non_zero_loop (n + 1) (Some s) d (map Rd ds)) k \<longleftrightarrow> s \<le> k \<and> k < n + 1 \<or> ?P k" for k s
    using Cons.IH [OF len(2), of "n + 1"] by blast+
  have step: "non_zero_loop n st buf (map Rd (d # ds)) =
      (if \<not> zero_block d then non_zero_loop (n + 1) (Some (case st of None \<Rightarrow> n | Some s \<Rightarrow> s)) d (map Rd ds)
       else case st of None \<Rightarrow> non_zero_loop (n + 1) None d (map Rd ds)
            | Some s \<Rightarrow> (s, n) # non_zero_loop (n + 1) None d (map Rd ds))" for st
    using len(1) by (simp add: zero_block_def Let_def)
  note step' = step [unfolded list.map]
  have z: "runs_ok n (non_zero_loop (n + 1) None d (map Rd ds))" using runs_ok_mono [OF IH(1)] by simp
  show ?case
  proof (intro conjI allI impI)
    fix out assume o: "non_zero_loop n None buf (map Rd (d # ds)) = out"
    show "runs_ok n out" using o z IH(3) [of n] by (auto simp: step' simp del: non_zero_loop.simps split: if_splits)
    fix k
    show "in_runs out k \<longleftrightarrow> n \<le> k \<and> k < n + length (d # ds) \<and> \<not> zero_block ((d # ds) ! (k - n))"
      unfolding split using o IH(2) [of k] IH(4) [of n k] by (auto simp: step' simp del: non_zero_loop.simps split: if_splits)
  next
    fix out s assume s: "s < n" and o: "non_zero_loop n (Some s) buf (map Rd (d # ds)) = out"
    show "runs_ok s out" using o s IH(1) IH(3) [of s] by (auto simp: step' simp del: non_zero_loop.simps split: if_splits)
    fix k
    show "in_runs out k \<longleftrightarrow> s \<le> k \<and> k < n \<or> n \<le> k \<and> k < n + length (d # ds) \<and> \<not> zero_block ((d # ds) ! (k - n))"
      unfolding split using o s IH(2) [of k] IH(4) [of s k] by (auto simp: step' simp del: non_zero_loop.simps split: if_splits)
  qed
qed auto

section \<open>Copying blocks\<close>

definition full_writes :: "carve_io \<Rightarrow> bool" where
  "full_writes io \<longleftrightarrow> (\<forall>name off n. n \<le> cio_write io name off n)"

text \<open>A run that is inside the file \<open>name\<close>, having copied \<open>f\<close> in \<open>m\<close> blocks.\<close>

definition copying :: "string \<Rightarrow> buffer \<Rightarrow> nat \<Rightarrow> carve \<Rightarrow> bool" where
  "copying name f m st \<longleftrightarrow> cv_started st \<and> cv_name st = name \<and> cv_outs st name = Some f \<and> cv_nblocks st = m \<and>
     cv_base st = 0 \<and> length (cv_buf st) = BLOCK_SIZE"

lemma put_at_full: "length buf = n \<Longrightarrow> length d = n \<Longrightarrow> put_at buf 0 d = Some d"
  by (simp add: put_at_def)

lemma cv_write_full:
  assumes "full_writes io" "cv_outs st (cv_name st) = Some f" "cv_base st = 0" "n \<le> length (cv_buf st)"
  shows "cv_write io n st = Some (st\<lparr>cv_outs := (cv_outs st)(cv_name st \<mapsto> f @ take n (cv_buf st))\<rparr>)"
proof -
  have "min (cio_write io (cv_name st) (length f) n) n = n" using assms(1) by (simp add: full_writes_def min_absorb2)
  then show ?thesis using assms(2-4) by (simp add: cv_write_def sub_buf_def)
qed

lemma carve_block_inside:
  assumes io: "full_writes io" and c: "copying name f m st" and d: "length d = BLOCK_SIZE" "memmem d match_end = None" "m \<le> MAX_VALID_BLOCKS"
  shows "\<exists>st'. carve_block start io (Rd d) st = Some (True, st') \<and> copying name (f @ d) (m + 1) st' \<and>
     (\<forall>x. x \<noteq> name \<longrightarrow> cv_outs st' x = cv_outs st x) \<and> cv_blk st' = cv_blk st + 1"
proof -
  let ?s = "st\<lparr>cv_buf := d\<rparr>"
  have cp: "cv_started st" "cv_name st = name" "cv_outs st name = Some f" "cv_nblocks st = m" "cv_base st = 0" "length (cv_buf st) = BLOCK_SIZE"
    using c by (auto simp: copying_def)
  have w: "cv_write io (length d) ?s = Some (?s\<lparr>cv_outs := (cv_outs st)(name \<mapsto> f @ d)\<rparr>)"
    using cv_write_full [OF io, of ?s f "length d"] cp by simp
  have "carve_copy io (length d) ?s = Some (?s\<lparr>cv_outs := (cv_outs st)(name \<mapsto> f @ d), cv_nblocks := m + 1\<rparr>)"
    using w cp d by (simp add: carve_copy_def sub_buf_def)
  then show ?thesis
    using put_at_full [OF cp(6) d(1)] cp d(1) by (simp add: carve_block_def copying_def Let_def)
qed

lemma carve_block_last:
  assumes io: "full_writes io" and c: "copying name f m st" and d: "length d = BLOCK_SIZE" "memmem d match_end = Some e" "e + 16 \<le> BLOCK_SIZE"
  shows "\<exists>st'. carve_block start io (Rd d) st = Some (True, st') \<and> \<not> cv_started st' \<and>
     cv_outs st' = (cv_outs st)(name \<mapsto> f @ take (e + 16) d) \<and> cv_blk st' = cv_blk st + 1"
proof -
  let ?s = "st\<lparr>cv_buf := d\<rparr>"
  have cp: "cv_started st" "cv_name st = name" "cv_outs st name = Some f" "cv_base st = 0" "length (cv_buf st) = BLOCK_SIZE"
    using c by (auto simp: copying_def)
  have w: "cv_write io (e + 16) ?s = Some (?s\<lparr>cv_outs := (cv_outs st)(name \<mapsto> f @ take (e + 16) d)\<rparr>)"
    using cv_write_full [OF io, of ?s f "e + 16"] cp d by simp
  have "carve_copy io (length d) ?s = Some (?s\<lparr>cv_outs := (cv_outs st)(name \<mapsto> f @ take (e + 16) d), cv_started := False\<rparr>)"
    using w cp d by (simp add: carve_copy_def sub_buf_def match_end_def add.commute [of _ e])
  then show ?thesis
    using put_at_full [OF cp(5) d(1)] cp d(1) by (simp add: carve_block_def Let_def)
qed

lemma carve_run_inside:
  assumes io: "full_writes io" and last: "length l = BLOCK_SIZE" "memmem l match_end = Some e" "e + 16 \<le> BLOCK_SIZE"
  shows "copying name f m st \<Longrightarrow> \<forall>d \<in> set ds. length d = BLOCK_SIZE \<and> memmem d match_end = None \<Longrightarrow> m + length ds \<le> MAX_VALID_BLOCKS + 1 \<Longrightarrow>
    \<exists>st'. carve_run start io (map Rd ds @ Rd l # rest) st = carve_run start io rest st' \<and> \<not> cv_started st' \<and>
      cv_outs st' = (cv_outs st)(name \<mapsto> f @ concat ds @ take (e + 16) l) \<and> cv_blk st' = cv_blk st + of_nat (length ds + 1)"
proof (induction ds arbitrary: f m st)
  case Nil
  obtain s1 where "carve_block start io (Rd l) st = Some (True, s1)" "\<not> cv_started s1"
    "cv_outs s1 = (cv_outs st)(name \<mapsto> f @ take (e + 16) l)" "cv_blk s1 = cv_blk st + 1"
    using carve_block_last [OF io Nil(1) last, of start] by auto
  then show ?case by (intro exI [of _ s1]) simp
next
  case (Cons d ds)
  have d: "length d = BLOCK_SIZE" "memmem d match_end = None" "m \<le> MAX_VALID_BLOCKS" using Cons.prems by auto
  obtain s1 where s1: "carve_block start io (Rd d) st = Some (True, s1)" "copying name (f @ d) (m + 1) s1"
    "\<forall>x. x \<noteq> name \<longrightarrow> cv_outs s1 x = cv_outs st x" "cv_blk s1 = cv_blk st + 1"
    using carve_block_inside [OF io Cons.prems(1) d] by blast
  obtain s2 where s2: "carve_run start io (map Rd ds @ Rd l # rest) s1 = carve_run start io rest s2" "\<not> cv_started s2"
    "cv_outs s2 = (cv_outs s1)(name \<mapsto> (f @ d) @ concat ds @ take (e + 16) l)" "cv_blk s2 = cv_blk s1 + of_nat (length ds + 1)"
  proof -
    have "\<forall>d \<in> set ds. length d = BLOCK_SIZE \<and> memmem d match_end = None" "m + 1 + length ds \<le> MAX_VALID_BLOCKS + 1"
      using Cons.prems by auto
    from Cons.IH [OF s1(2) this] show ?thesis using that by blast
  qed
  have "(cv_outs s1)(name \<mapsto> x) = (cv_outs st)(name \<mapsto> x)" for x using s1(3) by auto
  then show ?case using s1 s2 by (intro exI [of _ s2]) (simp add: add.commute add.left_commute)
qed

text \<open>A block with a signature at its start is handled as if the file had been open already.\<close>

lemma carve_block_start:
  assumes "\<not> cv_started st" "cv_base st = 0" "start d (cv_blk st) = Some (name, 0)" "cio_open io name"
  shows "carve_block start io (Rd d) st =
    carve_block start io (Rd d) (st\<lparr>cv_started := True, cv_nblocks := 0, cv_name := name, cv_outs := (cv_outs st)(name \<mapsto> [])\<rparr>)"
  using assms by (cases st) (auto simp: carve_block_def cv_open_def Let_def split: option.splits)

section \<open>Copying a database\<close>

lemma fdb_block_inside:
  assumes io: "full_writes io" and c: "copying name f m st" and d: "length d = BLOCK_SIZE" "(m + 1) * BLOCK_SIZE < unat (cv_size st)"
  shows "\<exists>st'. fdb_block lim io (Rd d) st = Some (True, st') \<and> copying name (f @ d) (m + 1) st' \<and> cv_size st' = cv_size st \<and>
     (\<forall>x. x \<noteq> name \<longrightarrow> cv_outs st' x = cv_outs st x)"
proof -
  let ?s = "st\<lparr>cv_buf := d\<rparr>"
  have cp: "cv_started st" "cv_name st = name" "cv_outs st name = Some f" "cv_nblocks st = m" "cv_base st = 0" "length (cv_buf st) = BLOCK_SIZE"
    using c by (auto simp: copying_def)
  have w: "cv_write io (length d) ?s = Some (?s\<lparr>cv_outs := (cv_outs st)(name \<mapsto> f @ d)\<rparr>)"
    using cv_write_full [OF io, of ?s f "length d"] cp by simp
  have "fdb_copy io (length d) ?s = Some (?s\<lparr>cv_outs := (cv_outs st)(name \<mapsto> f @ d), cv_nblocks := m + 1\<rparr>)"
    using w cp d by (simp add: fdb_copy_def)
  then show ?thesis
    using put_at_full [OF cp(6) d(1)] cp d(1) by (simp add: fdb_block_def copying_def Let_def)
qed

lemma fdb_block_last:
  assumes io: "full_writes io" and c: "copying name f m st" and d: "length d = BLOCK_SIZE" "m * BLOCK_SIZE \<le> unat (cv_size st)"
      "unat (cv_size st) \<le> (m + 1) * BLOCK_SIZE"
  shows "\<exists>st'. fdb_block lim io (Rd d) st = Some (True, st') \<and> \<not> cv_started st' \<and>
     cv_outs st' = (cv_outs st)(name \<mapsto> f @ take (unat (cv_size st) - m * BLOCK_SIZE) d)"
proof -
  let ?s = "st\<lparr>cv_buf := d\<rparr>" and ?n = "unat (cv_size st) - m * BLOCK_SIZE"
  have cp: "cv_started st" "cv_name st = name" "cv_outs st name = Some f" "cv_nblocks st = m" "cv_base st = 0" "length (cv_buf st) = BLOCK_SIZE"
    using c by (auto simp: copying_def)
  have "?n \<le> BLOCK_SIZE" using d(2,3) by simp
  then have w: "cv_write io ?n ?s = Some (?s\<lparr>cv_outs := (cv_outs st)(name \<mapsto> f @ take ?n d)\<rparr>)"
    using cv_write_full [OF io, of ?s f ?n] cp d(1) by simp
  have "fdb_copy io (length d) ?s = Some (?s\<lparr>cv_outs := (cv_outs st)(name \<mapsto> f @ take ?n d), cv_started := False\<rparr>)"
    using w cp d by (simp add: fdb_copy_def)
  then show ?thesis
    using put_at_full [OF cp(6) d(1)] cp d(1) by (simp add: fdb_block_def Let_def)
qed

lemma fdb_run_inside:
  assumes io: "full_writes io"
  shows "copying name f m st \<Longrightarrow> \<forall>d \<in> set ds. length d = BLOCK_SIZE \<Longrightarrow> ds \<noteq> [] \<Longrightarrow>
    (m + length ds - 1) * BLOCK_SIZE < unat (cv_size st) \<Longrightarrow> unat (cv_size st) \<le> (m + length ds) * BLOCK_SIZE \<Longrightarrow>
    \<exists>st'. fdb_run lim io (map Rd ds @ rest) st = fdb_run lim io rest st' \<and> \<not> cv_started st' \<and>
      cv_outs st' = (cv_outs st)(name \<mapsto> f @ take (unat (cv_size st) - m * BLOCK_SIZE) (concat ds))"
proof (induction ds arbitrary: f m st)
  case (Cons d ds)
  have d: "length d = BLOCK_SIZE" using Cons.prems(2) by simp
  show ?case
  proof (cases "ds = []")
    case True
    then have "m * BLOCK_SIZE \<le> unat (cv_size st)" "unat (cv_size st) \<le> (m + 1) * BLOCK_SIZE" using Cons.prems(4,5) by simp_all
    then obtain s1 where "fdb_block lim io (Rd d) st = Some (True, s1)" "\<not> cv_started s1"
      "cv_outs s1 = (cv_outs st)(name \<mapsto> f @ take (unat (cv_size st) - m * BLOCK_SIZE) d)"
      using fdb_block_last [OF io Cons.prems(1) d] by blast
    then show ?thesis using True by (intro exI [of _ s1]) simp
  next
    case False
    then obtain k where k: "length ds = Suc k" by (cases ds) auto
    have lt: "(m + 1) * BLOCK_SIZE < unat (cv_size st)"
      by (rule le_less_trans [OF mult_le_mono1 Cons.prems(4)]) (simp add: k)
    obtain s1 where s1: "fdb_block lim io (Rd d) st = Some (True, s1)" "copying name (f @ d) (m + 1) s1" "cv_size s1 = cv_size st"
      "\<forall>x. x \<noteq> name \<longrightarrow> cv_outs s1 x = cv_outs st x"
      using fdb_block_inside [OF io Cons.prems(1) d lt] by blast
    have "(m + 1 + length ds - 1) * BLOCK_SIZE < unat (cv_size s1)" "unat (cv_size s1) \<le> (m + 1 + length ds) * BLOCK_SIZE"
      "\<forall>d \<in> set ds. length d = BLOCK_SIZE" using Cons.prems s1(3) by simp_all
    then obtain s2 where s2: "fdb_run lim io (map Rd ds @ rest) s1 = fdb_run lim io rest s2" "\<not> cv_started s2"
      "cv_outs s2 = (cv_outs s1)(name \<mapsto> (f @ d) @ take (unat (cv_size s1) - (m + 1) * BLOCK_SIZE) (concat ds))"
      using Cons.IH [OF s1(2) _ False] by blast
    have up: "(cv_outs s1)(name \<mapsto> x) = (cv_outs st)(name \<mapsto> x)" for x using s1(4) by auto
    have "take (unat (cv_size st) - m * BLOCK_SIZE) (d @ concat ds) = d @ take (unat (cv_size st) - (m + 1) * BLOCK_SIZE) (concat ds)"
      using d lt by (simp add: add.commute)
    then show ?thesis using s1(1,3) s2 by (intro exI [of _ s2]) (simp add: up)
  qed
qed simp

section \<open>Properties\<close>

text \<open>The output of \<open>bgrep_non_zero\<close>: it prints exactly the maximal runs of non-zero blocks.  When every read fills the
  buffer, the printed intervals are in increasing order with at least one zero block between any
  two, and a block lies in one of them exactly if it holds a byte other than zero.\<close>

theorem bgrep_non_zero_runs:
  assumes "\<forall>d \<in> set ds. length d = length buf"
  shows "runs_ok 0 (bgrep_non_zero buf (map Rd ds)) \<and>
    (\<forall>k. in_runs (bgrep_non_zero buf (map Rd ds)) k \<longleftrightarrow> k < length ds \<and> ds ! k \<noteq> replicate (length buf) 0)"
proof -
  have z: "k < length ds \<Longrightarrow> zero_block (ds ! k) \<longleftrightarrow> ds ! k = replicate (length buf) 0" for k
    using assms by (auto simp: zero_block_def)
  then show ?thesis
    using non_zero_loop_exact [OF assms, of 0] by (auto simp: bgrep_non_zero_def)
qed

theorem bgrep_non_zero_runs_witness:
  "bgrep_non_zero [9, 9] (map Rd [[0, 0], [1, 0], [0, 2], [0, 0], [3, 3]]) = [(1, 3), (4, 5)] \<and>
   in_runs [(1, 3), (4, 5)] 2 \<and> \<not> in_runs [(1, 3), (4, 5)] 3"
proof -
  let ?ds = "[[0, 0], [1, 0], [0, 2], [0, 0], [3, 3]] :: buffer list"
  have e: "bgrep_non_zero [9, 9] (map Rd ?ds) = [(1, 3), (4, 5)]" by (simp add: bgrep_non_zero_def)
  then show ?thesis
    using bgrep_non_zero_runs [of ?ds "[9, 9]"] by simp
qed

text \<open>A Lucene file is carved exactly.  When a block starts with the signature, the following blocks hold no end
  marker, the last one does with its 8 bytes of checksum, and the file has at most \<open>MAX_VALID_BLOCKS\<close> further
  blocks, the tool writes these blocks up to and including the checksum into the file named after the
  first block, touches no other output and is ready for the next file; whatever the
  blocks before were.\<close>

theorem bgrep_demo_exact:
  assumes "full_writes io" and "cio_open io name" and "demo_start b (cv_blk st) = Some (name, 0)"
    and "\<not> cv_started st" and "cv_base st = 0" and "length (cv_buf st) = BLOCK_SIZE"
    and "\<forall>d \<in> set (b # ds). length d = BLOCK_SIZE \<and> memmem d match_end = None" and "length ds \<le> MAX_VALID_BLOCKS"
    and "length l = BLOCK_SIZE" and "memmem l match_end = Some e" and "e + 16 \<le> BLOCK_SIZE"
  shows "\<exists>st'. carve_run demo_start io (map Rd (b # ds) @ Rd l # rest) st = carve_run demo_start io rest st' \<and> \<not> cv_started st' \<and>
    cv_outs st' = (cv_outs st)(name \<mapsto> b @ concat ds @ take (e + 16) l) \<and> cv_blk st' = cv_blk st + of_nat (length ds + 2)"
proof -
  let ?s = "st\<lparr>cv_started := True, cv_nblocks := 0, cv_name := name, cv_outs := (cv_outs st)(name \<mapsto> [])\<rparr>"
  have "copying name [] 0 ?s" using assms(5,6) by (simp add: copying_def)
  then obtain st' where "carve_run demo_start io (map Rd (b # ds) @ Rd l # rest) ?s = carve_run demo_start io rest st'" "\<not> cv_started st'"
    "cv_outs st' = (cv_outs ?s)(name \<mapsto> [] @ concat (b # ds) @ take (e + 16) l)" "cv_blk st' = cv_blk ?s + of_nat (length (b # ds) + 1)"
    using carve_run_inside [OF assms(1,9,10,11), of name "[]" 0 ?s "b # ds" demo_start rest] assms(7,8) by fastforce
  then show ?thesis
    using carve_block_start [of st demo_start b name io, OF assms(4,5,3,2)] by (intro exI [of _ st']) simp
qed

text \<open>The signature of a stored-fields file, one block of zeros behind it, and a block with the footer.\<close>

definition example_block :: buffer where
  "example_block = lucene 0x1c ''Lucene50StoredFieldsFastData'' @ replicate 4063 0"

lemma length_bytes_of [simp]: "length (bytes_of s) = length s"
  by (simp add: bytes_of_def)

theorem bgrep_demo_exact_witness:
  "\<exists>st'. carve_run demo_start \<lparr>cio_open = (\<lambda>_. True), cio_write = (\<lambda>_ _ n. n)\<rparr>
       [Rd example_block, Rd (replicate 4096 1), Rd (match_end @ replicate 4088 7)] (carve_init (replicate 4096 0) 3) = Some (True, st') \<and>
     cv_outs st' = [''3.fdt'' \<mapsto> example_block @ replicate 4096 1 @ match_end @ replicate 8 7]"
proof -
  let ?io = "\<lparr>cio_open = (\<lambda>_. True), cio_write = (\<lambda>_ _ n. n)\<rparr>" and ?s = "carve_init (replicate 4096 0) 3"
    and ?l = "match_end @ replicate 4088 7 :: buffer"
  have u: "udec 3 = ''3''" by code_simp
  have len: "length example_block = BLOCK_SIZE" "length ?l = BLOCK_SIZE" "length match_end = 8"
    by (simp_all add: example_block_def lucene_def BLOCK_SIZE_def match_end_def)
  have st: "demo_start example_block (cv_blk ?s) = Some (''3.fdt'', 0)"
    by (simp add: demo_start_def memmem_zero example_block_def carve_init_def u)
  have "set (bytes_of ''Lucene50StoredFieldsFastData'') \<subseteq> {b. b < 128}" by (simp add: bytes_of_def)
  then have "0xc0 \<notin> set example_block" by (auto simp: example_block_def lucene_def)
  then have no: "memmem example_block match_end = None" "memmem (replicate 4096 1) match_end = None"
    by (simp_all add: match_end_def memmem_absent)
  have e: "memmem ?l match_end = Some 0" by (simp add: memmem_zero)
  have "\<exists>st'. carve_run demo_start ?io (map Rd (example_block # [replicate 4096 1]) @ Rd ?l # []) ?s = carve_run demo_start ?io [] st' \<and>
      \<not> cv_started st' \<and> cv_outs st' = (cv_outs ?s)(''3.fdt'' \<mapsto> example_block @ concat [replicate 4096 1] @ take (0 + 16) ?l) \<and>
      cv_blk st' = cv_blk ?s + of_nat (length [replicate 4096 (1 :: byte)] + 2)"
    by (rule bgrep_demo_exact [OF _ _ st])
       (use len no e in \<open>simp_all add: full_writes_def carve_init_def BLOCK_SIZE_def MAX_VALID_BLOCKS_def\<close>)
  then show ?thesis using len(3) by (auto simp: carve_init_def)
qed

text \<open>\<open>bgrep_es_lucene87\<close> overruns its heap buffer.  It moves \<open>buf\<close> to the signature and keeps reading whole
  blocks there, so a signature anywhere but at the start of a block, followed by another full block, makes \<open>read\<close> write
  past the allocation.\<close>

theorem bgrep_es_lucene87_overflow:
  assumes "length buf = BLOCK_SIZE" and "length d = BLOCK_SIZE" and "length d' = BLOCK_SIZE"
    and "lucene87_start d 0 = Some (name, off)" and "0 < off" and "cio_open io name"
  shows "bgrep_es_lucene87 io buf (Rd d # Rd d' # rs) = None"
proof -
  have p: "put_at buf 0 d = Some d" by (rule put_at_full [OF assms(1,2)])
  define s where "s = (carve_init buf 0)\<lparr>cv_buf := d, cv_base := off, cv_started := True, cv_nblocks := 0, cv_name := name, cv_outs := [name \<mapsto> []]\<rparr>"
  have b: "carve_block lucene87_start io (Rd d) (carve_init buf 0) =
      map_option (\<lambda>s'. (True, s'\<lparr>cv_blk := cv_blk s' + 1\<rparr>)) (carve_copy io (length d - off) s)"
    using p assms(4,6) by (simp add: carve_block_def carve_init_def cv_open_def Let_def s_def)
  have w: "cv_base s1 = cv_base s0 \<and> length (cv_buf s1) = length (cv_buf s0)" if "cv_write io n s0 = Some s1" for n s0 s1
    using that by (auto simp: cv_write_def Let_def split: if_splits)
  have c: "cv_base s1 = off \<and> length (cv_buf s1) = BLOCK_SIZE" if "carve_copy io n s = Some s1" for n s1
    using that w [of _ s] assms(2) by (fastforce simp: carve_copy_def s_def split: if_splits option.splits)
  have "carve_block lucene87_start io (Rd d') (s1\<lparr>cv_blk := k\<rparr>) = None" if "carve_copy io n s = Some s1" for n s1 k
    using c [OF that] assms(3,5) by (simp add: carve_block_def put_at_def)
  then show ?thesis
    by (cases "carve_copy io (length d - off) s") (simp_all add: bgrep_es_lucene87_def b)
qed

theorem bgrep_es_lucene87_overflow_witness:
  "bgrep_es_lucene87 \<lparr>cio_open = (\<lambda>_. True), cio_write = (\<lambda>_ _ n. n)\<rparr> (replicate 4096 0)
     [Rd (0 # lucene 0x1c ''Lucene87StoredFieldsFastData'' @ replicate 4062 0), Rd (replicate 4096 0)] = None"
proof -
  let ?sig = "lucene 0x1c ''Lucene87StoredFieldsFastData''"
  have "memmem (0 # ?sig @ r) ?sig = Some 1" for r
  proof -
    have "memmem (?sig @ r) ?sig = Some 0" by (simp add: memmem_zero)
    moreover have "\<not> prefix ?sig (0 # ?sig @ r)" by (simp add: lucene_def)
    ultimately show ?thesis by (simp add: memmem.simps [of "0 # ?sig @ r"])
  qed
  then have "lucene87_start (0 # ?sig @ replicate 4062 0) 0 = Some (udec 0 @ ''.fdt'', 1)" by (simp add: lucene87_start_def)
  moreover have "length (0 # ?sig @ replicate 4062 0) = BLOCK_SIZE" by (simp add: lucene_def BLOCK_SIZE_def)
  ultimately show ?thesis
    using bgrep_es_lucene87_overflow [of "replicate 4096 0" "0 # ?sig @ replicate 4062 0" "replicate 4096 0"] by (simp add: BLOCK_SIZE_def)
qed

text \<open>Property C31: an SQLite database that lies contiguously on the device is carved byte for byte.  Let its first bytes
  carry the SQLite signature, a page size and a page count whose product is its length; when
  its blocks come up, the tool writes exactly the file, without the padding of the last block, and is
  ready for the next one.\<close>

theorem bgrep_foundationdb_roundtrip:
  assumes "full_writes io" and "cio_open io (udec (unat (cv_blk st)) @ ''.sqlite.db'')"
    and "\<not> cv_started st" and "cv_base st = 0" and "length (cv_buf st) = BLOCK_SIZE"
    and "prefix (bytes_of ''SQLite format 3'' @ [0]) db" and "0 < length db"
    and "unat (be16_at db 16) * unat (be32_at db 28) = length db" and "32 \<le> length db"
    and "concat ds = db @ pad" and "\<forall>d \<in> set ds. length d = BLOCK_SIZE" and "length pad < BLOCK_SIZE"
  shows "\<exists>st'. fdb_run 0 io (map Rd ds @ rest) st = fdb_run 0 io rest st' \<and> \<not> cv_started st' \<and>
    cv_outs st' = (cv_outs st)(udec (unat (cv_blk st)) @ ''.sqlite.db'' \<mapsto> db)"
proof -
  obtain d ds' where ds: "ds = d # ds'" using assms(7,10) by (cases ds) auto
  let ?n = "udec (unat (cv_blk st)) @ ''.sqlite.db''" and ?sz = "ucast (be32_at db 28) * ucast (be16_at db 16) :: u64"
  have d: "length d = BLOCK_SIZE" using assms(11) ds by simp
  have same: "take k d = take k db" if "k \<le> length db" "k \<le> BLOCK_SIZE" for k
    using arg_cong [OF assms(10), of "take k"] that d by (simp add: ds)
  have sub: "sub_buf d off k = sub_buf db off k" if "off + k \<le> 32" for off k
    using same [of "off + k"] that assms(9) by (simp add: sub_buf_def take_drop BLOCK_SIZE_def add.commute)
  have hdr: "be16_at d 16 = be16_at db 16" "be32_at d 28 = be32_at db 28" by (simp_all add: be16_at_def be32_at_def sub)
  have "take 16 d = bytes_of ''SQLite format 3'' @ [0]"
    using same [of 16] assms(6,9) by (auto simp: BLOCK_SIZE_def prefix_def bytes_of_def)
  then have pre: "d = (bytes_of ''SQLite format 3'' @ [0]) @ drop 16 d" by (metis append_take_drop_id)
  have sz: "unat ?sz = length db"
  proof -
    have "unat (be32_at db 28) < 2 ^ 32" "unat (be16_at db 16) < 2 ^ 16"
      using unsigned_less [of "be32_at db 28"] unsigned_less [of "be16_at db 16"] by simp_all
    then have "unat (be32_at db 28) * unat (be16_at db 16) < 2 ^ 32 * 2 ^ 16" by (intro mult_strict_mono) auto
    then show ?thesis using assms(8) by (simp add: unat_word_ariths unat_ucast_up mult.commute)
  qed
  have start: "fdb_start 0 d d blk = Some (udec (unat blk) @ ''.sqlite.db'', ?sz)" for blk
  proof -
    have "memmem d (bytes_of ''SQLite format 3'' @ [0]) = Some 0" by (subst pre) (simp add: memmem_zero)
    moreover have "\<not> prefix (bytes_of ''FoundationDB100'' @ [0]) d"
      "\<not> prefix [0x01, 0x00, 0x01, 0x70, 0xa5, 0x00, 0xdb, 0x0f] d"
      "\<not> prefix [0x37, 0x7f, 0x06, 0x82, 0x00, 0x2d, 0xe2, 0x18, 0x00, 0x00, 0x10] d"
      by (subst pre, simp add: bytes_of_def)+
    ultimately show ?thesis by (simp add: fdb_start_def memmem_zero hdr Let_def)
  qed
  define s where "s = st\<lparr>cv_started := True, cv_nblocks := 0, cv_name := ?n, cv_outs := (cv_outs st)(?n \<mapsto> []), cv_size := ?sz\<rparr>"
  have first: "fdb_block 0 io (Rd d) st = fdb_block 0 io (Rd d) s"
    using assms(2-5) d start put_at_full [of "cv_buf st" BLOCK_SIZE d]
    by (cases st) (simp add: fdb_block_def cv_open_def Let_def s_def)
  have cp: "copying ?n [] 0 s" using assms(4,5) by (simp add: copying_def s_def)
  have total: "length ds * BLOCK_SIZE = length db + length pad"
  proof -
    have "length (concat ds) = length ds * BLOCK_SIZE" using assms(11) by (induction ds) auto
    then show ?thesis using assms(10) by simp
  qed
  have b1: "(0 + length ds - 1) * BLOCK_SIZE < unat (cv_size s)" "unat (cv_size s) \<le> (0 + length ds) * BLOCK_SIZE"
    using total assms(12) sz ds by (simp_all add: s_def)
  obtain st' where st': "fdb_run 0 io (map Rd ds @ rest) s = fdb_run 0 io rest st'" "\<not> cv_started st'"
    "cv_outs st' = (cv_outs s)(?n \<mapsto> [] @ take (unat (cv_size s) - 0 * BLOCK_SIZE) (concat ds))"
    using fdb_run_inside [OF assms(1) cp assms(11) _ b1] ds by blast
  have "cv_outs st' = (cv_outs st)(?n \<mapsto> db)" using st'(3) sz by (simp add: s_def assms(10))
  moreover have "fdb_run 0 io (map Rd ds @ rest) st = fdb_run 0 io rest st'" using st'(1) first by (simp add: ds)
  ultimately show ?thesis using st'(2) by blast
qed

definition example_db :: buffer where
  "example_db = bytes_of ''SQLite format 3'' @ [0, 2, 0] @ replicate 10 0 @ [0, 0, 0, 1] @ replicate 480 5"

theorem bgrep_foundationdb_roundtrip_witness:
  "\<exists>st'. bgrep_foundationdb \<lparr>cio_open = (\<lambda>_. True), cio_write = (\<lambda>_ _ n. n)\<rparr> None (replicate 4096 0)
       [Rd (example_db @ replicate 3584 9)] = Some (True, st') \<and>
     cv_outs st' ''0.sqlite.db'' = Some example_db"
proof -
  let ?io = "\<lparr>cio_open = (\<lambda>_. True), cio_write = (\<lambda>_ _ n. n)\<rparr>" and ?s = "carve_init (replicate 4096 0) 0"
  have u: "udec (unat (0 :: u64)) = ''0''" by code_simp
  have len: "length example_db = 512" by (simp add: example_db_def)
  have sub: "sub_buf example_db 16 2 = [2, 0]" "sub_buf example_db 28 4 = [0, 0, 0, 1]"
    by (simp_all add: example_db_def sub_buf_def bytes_of_def)
  have hdr: "unat (be16_at example_db 16) = 512" "unat (be32_at example_db 28) = 1"
    by (simp_all add: be16_at_def be32_at_def be_val_def sub)
  have "prefix (bytes_of ''SQLite format 3'' @ [0]) example_db" by (simp add: example_db_def bytes_of_def)
  then have "\<exists>st'. fdb_run 0 ?io (map Rd [example_db @ replicate 3584 9] @ []) ?s = fdb_run 0 ?io [] st' \<and> \<not> cv_started st' \<and>
      cv_outs st' = (cv_outs ?s)(udec (unat (cv_blk ?s)) @ ''.sqlite.db'' \<mapsto> example_db)"
    by (intro bgrep_foundationdb_roundtrip [where pad = "replicate 3584 9"])
       (simp_all add: full_writes_def carve_init_def BLOCK_SIZE_def len hdr)
  then show ?thesis using u by (auto simp: bgrep_foundationdb_def carve_init_def)
qed

text \<open>SQLite stores a page size of 65536 as 1; such a database is cut after as many bytes as it has pages.\<close>

lemma fdb_page_size_one:
  assumes "be16_at d 16 = 1" "fdb_start 0 d d blk = Some (name, sz)" "memmem d (bytes_of ''SQLite format 3'' @ [0]) = Some 0"
  shows "sz = ucast (be32_at d 28)"
proof -
  have pre: "prefix (bytes_of ''SQLite format 3'' @ [0]) d" using assms(3) memmem_zero by blast
  then have "\<not> prefix (bytes_of ''FoundationDB100'' @ [0]) d"
    "\<not> prefix [0x01, 0x00, 0x01, 0x70, 0xa5, 0x00, 0xdb, 0x0f] d"
    "\<not> prefix [0x37, 0x7f, 0x06, 0x82, 0x00, 0x2d, 0xe2, 0x18, 0x00, 0x00, 0x10] d"
    by (auto simp: prefix_def bytes_of_def)
  then show ?thesis using assms by (simp add: fdb_start_def memmem_zero Let_def)
qed

end
