(* ===== verification/Ext_Scan.thy ===== *)
theory Ext_Scan
  imports Carving Extent_Tree
begin

text \<open>
  The extent printer of the original distribution (\<^verbatim>\<open>original/ext4/ext_scan.c\<close>): every block of a device that looks
  like an extent header is printed together with the tree below it.  The recursion follows block
  numbers found on the disk and is bounded by fuel; \<open>Running\<close> means that the fuel did not suffice.
\<close>

section \<open>Output\<close>

datatype line =
    L_hdr nat ext3_extent_header u32
  | L_bad_entries nat u16
  | L_idx nat ext3_extent_idx blk64_t
  | L_ext nat ext3_extent blk64_t
  | L_untrusted nat blk64_t ext3_extent_header
  | L_read_failed nat blk64_t
  | L_found u64

datatype 'a res = Done 'a | Undefined | Running

primrec res_map :: "('a \<Rightarrow> 'b) \<Rightarrow> 'a res \<Rightarrow> 'b res" where
  "res_map f (Done x) = Done (f x)"
| "res_map f Undefined = Undefined"
| "res_map f Running = Running"

primrec res_bind :: "'a res \<Rightarrow> ('a \<Rightarrow> 'b res) \<Rightarrow> 'b res" where
  "res_bind (Done x) f = f x"
| "res_bind Undefined f = Undefined"
| "res_bind Running f = Running"

lemma res_map_eq_Done: "res_map f r = Done y \<longleftrightarrow> (\<exists>x. r = Done x \<and> y = f x)"
  by (cases r) auto

lemma res_bind_eq_Done: "res_bind r f = Done y \<longleftrightarrow> (\<exists>x. r = Done x \<and> f x = Done y)"
  by (cases r) auto

section \<open>The printer\<close>

definition VALID_DEPTH :: u16 where "VALID_DEPTH = 5"
definition VALID_ENTRY :: u16 where "VALID_ENTRY = 1024"

definition trusted :: "ext3_extent_header \<Rightarrow> bool" where
  "trusted hdr \<longleftrightarrow> eh_magic hdr = EXT4_EXT_MAGIC \<and> eh_entries hdr \<le> eh_max hdr \<and> eh_max hdr < VALID_ENTRY \<and> eh_depth hdr < VALID_DEPTH"

definition print_ext :: "ext3_extent \<Rightarrow> nat \<Rightarrow> line list" where
  "print_ext ext indent = [L_ext indent ext (push_bit 32 (ucast (ee_start_hi ext)) OR ucast (ee_start ext))]"

text \<open>\<open>read_ext_hdr_block\<close> and \<open>print_ext_hdr\<close> one level down are parameters.  The caller passes a positive depth.\<close>

definition print_ext_idx ::
  "(blk64_t \<Rightarrow> buffer option) \<Rightarrow> (nat \<Rightarrow> buffer \<Rightarrow> line list res) \<Rightarrow> ext3_extent_idx \<Rightarrow> nat \<Rightarrow> line list res" where
  "print_ext_idx rd child idx indent =
     (let block_num = push_bit 32 (ucast (ei_leaf_hi idx)) OR ucast (ei_leaf idx) in
      res_map (\<lambda>ls. L_idx indent idx block_num # ls)
        (case rd block_num of
           None \<Rightarrow> Done [L_read_failed (indent + 1) block_num]
         | Some hdr \<Rightarrow>
             if trusted (header_at hdr) then child (indent + 1) hdr
             else Done [L_untrusted (indent + 1) block_num (header_at hdr)]))"

primrec entry_loop ::
  "(blk64_t \<Rightarrow> buffer option) \<Rightarrow> (nat \<Rightarrow> buffer \<Rightarrow> line list res) \<Rightarrow> buffer \<Rightarrow> nat \<Rightarrow> nat list \<Rightarrow> line list res" where
  "entry_loop rd child hdr indent [] = Done []"
| "entry_loop rd child hdr indent (i # is) =
     res_bind
       (if eh_depth (header_at hdr) > 0
        then (case idx_at hdr i of None \<Rightarrow> Undefined | Some idx \<Rightarrow> print_ext_idx rd child idx (indent + 1))
        else (case extent_at hdr i of None \<Rightarrow> Undefined | Some ext \<Rightarrow> Done (print_ext ext (indent + 1))))
       (\<lambda>ls. res_map (\<lambda>ls'. ls @ ls') (entry_loop rd child hdr indent is))"

primrec print_ext_hdr :: "nat \<Rightarrow> (blk64_t \<Rightarrow> buffer option) \<Rightarrow> nat \<Rightarrow> buffer \<Rightarrow> line list res" where
  "print_ext_hdr 0 rd indent hdr = Running"
| "print_ext_hdr (Suc fuel) rd indent hdr =
     (let h = header_at hdr; first = L_hdr indent h (le32_at hdr 8) in
      if eh_entries h > eh_max h \<or> eh_entries h \<ge> VALID_ENTRY then Done [first, L_bad_entries (indent + 1) (eh_entries h)]
      else res_map (\<lambda>ls. first # ls) (entry_loop rd (print_ext_hdr fuel rd) hdr indent [0..<unat (eh_entries h)]))"

definition read_ext_hdr_block :: "env \<Rightarrow> blk64_t \<Rightarrow> buffer option" where
  "read_ext_hdr_block env blknum =
     (if \<not> malloc_ok env BLOCK_SIZE then None
      else let got = dev_pread env (unat blknum * BLOCK_SIZE) BLOCK_SIZE in if length got = BLOCK_SIZE then Some got else None)"

text \<open>\<open>main\<close>: the results of \<open>read\<close> up to the first that is not positive.\<close>

primrec scan_main :: "nat \<Rightarrow> env \<Rightarrow> buffer \<Rightarrow> u64 \<Rightarrow> buffer list \<Rightarrow> line list res" where
  "scan_main fuel env buf blk_number [] = Done []"
| "scan_main fuel env buf blk_number (d # ds) =
     (let buf' = d @ drop (length d) buf; rest = scan_main fuel env buf' (blk_number + 1) ds in
      if length d < 12 then rest
      else if trusted (header_at buf') then
        res_bind (print_ext_hdr fuel (read_ext_hdr_block env) 0 buf') (\<lambda>ls. res_map (\<lambda>ls'. L_found blk_number # ls @ ls') rest)
      else rest)"

section \<open>Trees\<close>

text \<open>The leaf extents of a tree whose headers count their levels down to 0.\<close>

primrec level_tree :: "(blk64_t \<Rightarrow> buffer option) \<Rightarrow> nat \<Rightarrow> buffer \<Rightarrow> ext3_extent list option" where
  "level_tree rd 0 hdr =
     (if trusted (header_at hdr) \<and> eh_depth (header_at hdr) = 0 then extents_at hdr (unat (eh_entries (header_at hdr))) else None)"
| "level_tree rd (Suc n) hdr =
     (if trusted (header_at hdr) \<and> unat (eh_depth (header_at hdr)) = Suc n then
        (case idxs_at hdr (unat (eh_entries (header_at hdr))) of None \<Rightarrow> None
         | Some is \<Rightarrow> map_option concat (those (map (\<lambda>ix. Option.bind (rd (ei_phys ix)) (level_tree rd n)) is)))
      else None)"

definition printed :: "line list \<Rightarrow> ext3_extent list" where
  "printed ls = concat (map (\<lambda>l. case l of L_ext _ e _ \<Rightarrow> [e] | _ \<Rightarrow> []) ls)"

lemma printed_simps [simp]:
  "printed [] = []" "printed (ls @ ls') = printed ls @ printed ls'" "printed (L_hdr a b c # ls) = printed ls"
  "printed (L_idx a b' c' # ls) = printed ls" "printed (L_ext a e c' # ls) = e # printed ls"
  by (simp_all add: printed_def)

lemma idx_block: "push_bit 32 (ucast (ei_leaf_hi x)) OR ucast (ei_leaf x) = ei_phys x"
proof -
  have "push_bit 32 (ucast (ei_leaf_hi x)) AND ucast (ei_leaf x) = (0 :: u64)"
    by (rule bit_word_eqI) (auto simp: bit_simps dest: bit_imp_le_length)
  from disjunctive_add_eq_or [OF this] show ?thesis by (simp add: ei_phys_def add.commute)
qed

lemma those_Cons_Some: "those (x # xs) = Some ys \<longleftrightarrow> (\<exists>z zs. x = Some z \<and> those xs = Some zs \<and> ys = z # zs)"
  by (auto split: option.splits)

text \<open>One level: entries that print what \<open>g\<close> says.\<close>

lemma entry_loop_leaf:
  assumes "eh_depth (header_at hdr) = 0"
  shows "those (map (extent_at hdr) is) = Some es \<Longrightarrow> \<exists>ls. entry_loop rd child hdr indent is = Done ls \<and> printed ls = es"
proof (induction "is" arbitrary: es)
  case (Cons i "is")
  then obtain e es' where e: "extent_at hdr i = Some e" "those (map (extent_at hdr) is) = Some es'" "es = e # es'"
    by (auto split: option.splits)
  then obtain ls where "entry_loop rd child hdr indent is = Done ls" "printed ls = es'" using Cons.IH by blast
  then show ?case using assms e by (simp add: print_ext_def)
qed simp

lemma entry_loop_index:
  assumes "eh_depth (header_at hdr) > 0"
    and child: "\<And>b x i. T b = Some x \<Longrightarrow> trusted (header_at b) \<and> (\<exists>ls. child i b = Done ls \<and> printed ls = x)"
  shows "those (map (idx_at hdr) is) = Some xs \<Longrightarrow> those (map (\<lambda>ix. Option.bind (rd (ei_phys ix)) T) xs) = Some ess \<Longrightarrow>
    \<exists>ls. entry_loop rd child hdr indent is = Done ls \<and> printed ls = concat ess"
proof (induction "is" arbitrary: xs ess)
  case (Cons i "is")
  then obtain x xs' where x: "idx_at hdr i = Some x" "those (map (idx_at hdr) is) = Some xs'" "xs = x # xs'"
    by (auto split: option.splits)
  then obtain b es ess' where b: "rd (ei_phys x) = Some b" "T b = Some es"
    "those (map (\<lambda>ix. Option.bind (rd (ei_phys ix)) T) xs') = Some ess'" "ess = es # ess'"
    using Cons.prems(2) by (auto split: option.splits simp: bind_eq_Some_conv)
  obtain ls where ls: "entry_loop rd child hdr indent is = Done ls" "printed ls = concat ess'" using Cons.IH [OF x(2) b(3)] by blast
  obtain ls1 where "trusted (header_at b)" "child (indent + 1 + 1) b = Done ls1" "printed ls1 = es" using child [OF b(2)] by blast
  then have "print_ext_idx rd child x (indent + 1) = Done (L_idx (indent + 1) x (ei_phys x) # ls1)"
    using b(1) by (simp add: print_ext_idx_def idx_block Let_def)
  then show ?case using assms(1) x(1) ls b(4) \<open>printed ls1 = es\<close> by simp
qed simp

lemma level_tree_trusted: "level_tree rd n b = Some es \<Longrightarrow> trusted (header_at b)"
  by (cases n) (auto split: if_splits)

lemma trusted_prints:
  "trusted (header_at hdr) \<Longrightarrow> print_ext_hdr (Suc fuel) rd indent hdr =
     res_map (\<lambda>ls. L_hdr indent (header_at hdr) (le32_at hdr 8) # ls)
       (entry_loop rd (print_ext_hdr fuel rd) hdr indent [0..<unat (eh_entries (header_at hdr))])"
  by (auto simp: trusted_def Let_def dest: le_less_trans)

lemma level_tree_printed:
  "level_tree rd n hdr = Some es \<Longrightarrow> n < fuel \<Longrightarrow> \<exists>ls. print_ext_hdr fuel rd indent hdr = Done ls \<and> printed ls = es"
proof (induction n arbitrary: hdr es fuel indent)
  case 0
  then obtain k where k: "fuel = Suc k" by (cases fuel) auto
  have t: "trusted (header_at hdr)" "eh_depth (header_at hdr) = 0" "extents_at hdr (unat (eh_entries (header_at hdr))) = Some es"
    using 0(1) by (auto split: if_splits)
  then show ?case
    using entry_loop_leaf [OF t(2) t(3) [unfolded extents_at_def], of rd "print_ext_hdr k rd" indent] trusted_prints [OF t(1)] k by auto
next
  case (Suc n)
  then obtain k where k: "fuel = Suc k" "n < k" by (cases fuel) auto
  have t: "trusted (header_at hdr)" "unat (eh_depth (header_at hdr)) = Suc n" using Suc.prems(1) by (auto split: if_splits)
  obtain xs ess where x: "idxs_at hdr (unat (eh_entries (header_at hdr))) = Some xs"
    "those (map (\<lambda>ix. Option.bind (rd (ei_phys ix)) (level_tree rd n)) xs) = Some ess" "es = concat ess"
    using Suc.prems(1) by (auto split: if_splits option.splits)
  have pos: "eh_depth (header_at hdr) > 0" using t(2) by (simp add: word_greater_zero_iff unat_gt_0 flip: word_neq_0_conv) auto
  have "\<exists>ls. entry_loop rd (print_ext_hdr k rd) hdr indent [0..<unat (eh_entries (header_at hdr))] = Done ls \<and> printed ls = concat ess"
    using entry_loop_index [OF pos _ x(1) [unfolded idxs_at_def] x(2), of "print_ext_hdr k rd" indent]
      Suc.IH [OF _ k(2)] level_tree_trusted by blast
  then show ?case using trusted_prints [OF t(1)] k(1) x(3) by auto
qed

section \<open>Properties\<close>

text \<open>The printer lists a tree completely.  For a header whose tree counts its levels down and lies in
  readable blocks, more fuel than levels suffices, nothing outside a block is read, and the extents
  printed are exactly those of the leaves, in tree order.\<close>

theorem print_ext_hdr_exact:
  assumes "level_tree rd n hdr = Some es" and "n < fuel"
  shows "\<exists>ls. print_ext_hdr fuel rd indent hdr = Done ls \<and> printed ls = es"
  using level_tree_printed [OF assms] .

lemma node_example:
  "header_at (idx_node 9) = \<lparr>eh_magic = 0xF30A, eh_entries = 1, eh_max = 4, eh_depth = 1\<rparr>"
  "header_at (leaf_node 5 3 2) = \<lparr>eh_magic = 0xF30A, eh_entries = 1, eh_max = 1, eh_depth = 0\<rparr>"
  "idx_at (idx_node 9) 0 = Some \<lparr>ei_block = 0, ei_leaf = 9, ei_leaf_hi = 0\<rparr>"
  "extent_at (leaf_node 5 3 2) 0 = Some \<lparr>ee_block = 5, ee_len = 3, ee_start_hi = 0, ee_start = 2\<rparr>"
  by (simp_all add: idx_node_def leaf_node_def header_at_def le16_at_def le32_at_def sub_buf_def extent_at_def idx_at_def)

theorem print_ext_hdr_exact_witness:
  "\<exists>ls. print_ext_hdr 2 (\<lambda>b. if b = 9 then Some (leaf_node 5 3 2) else None) 0 (idx_node 9) = Done ls \<and>
     printed ls = [\<lparr>ee_block = 5, ee_len = 3, ee_start_hi = 0, ee_start = 2\<rparr>]"
proof -
  have "level_tree (\<lambda>b. if b = 9 then Some (leaf_node 5 3 2) else None) 1 (idx_node 9) =
      Some [\<lparr>ee_block = 5, ee_len = 3, ee_start_hi = 0, ee_start = 2\<rparr>]"
    using node_example
    by (simp add: trusted_def VALID_ENTRY_def VALID_DEPTH_def EXT4_EXT_MAGIC_def extents_at_def idxs_at_def ei_phys_def)
  from print_ext_hdr_exact [OF this] show ?thesis by simp
qed

text \<open>The printer does not end on a cycle.  The checks on a child look at its own header only, so a trusted index block whose
  first entry names the block itself is descended forever: no amount of fuel suffices.\<close>

theorem print_ext_hdr_endless:
  assumes "rd b = Some hdr" and "trusted (header_at hdr)" and "eh_depth (header_at hdr) > 0" and "eh_entries (header_at hdr) > 0"
    and "idx_at hdr 0 = Some idx" and "ei_phys idx = b"
  shows "print_ext_hdr fuel rd indent hdr = Running"
proof (induction fuel arbitrary: indent)
  case (Suc fuel)
  obtain k where k: "unat (eh_entries (header_at hdr)) = Suc k"
    using assms(4) by (cases "unat (eh_entries (header_at hdr))") (auto simp: unat_eq_zero)
  have "[0..<Suc k] = 0 # [1..<Suc k]" by (simp add: upt_conv_Cons)
  moreover have "print_ext_idx rd (print_ext_hdr fuel rd) idx (indent + 1) = Running"
    using assms(1,2,6) Suc by (simp add: print_ext_idx_def idx_block Let_def)
  ultimately have "entry_loop rd (print_ext_hdr fuel rd) hdr indent [0..<unat (eh_entries (header_at hdr))] = Running"
    using assms(3,5) by (simp only: k entry_loop.simps) simp
  then show ?case using trusted_prints [OF assms(2)] by simp
qed simp

theorem print_ext_hdr_endless_witness:
  "print_ext_hdr 100 (\<lambda>b. if b = 9 then Some (idx_node 9) else None) 0 (idx_node 9) = Running"
  by (rule print_ext_hdr_endless [of _ 9 _ "\<lparr>ei_block = 0, ei_leaf = 9, ei_leaf_hi = 0\<rparr>"])
    (simp_all add: node_example trusted_def VALID_ENTRY_def VALID_DEPTH_def EXT4_EXT_MAGIC_def ei_phys_def)

end
