(* ===== verification/Disk_Copy.thy ===== *)
theory Disk_Copy
  imports Ext_Scan
begin

text \<open>
  The environment of the versions that read the device with \<open>lseek\<close> and \<open>read\<close>, and the copy of one extent in the form that the repaired
  first version (\<^verbatim>\<open>improved/ext4recover.c\<close>) and version 0.4 share.  The system calls are functions of the
  number of calls made so far, so that a repeated call may have another result.
\<close>

section \<open>Environment and state\<close>

text \<open>\<open>None\<close> is an error; \<open>io_seek\<close> and \<open>io_seek_out\<close> say whether \<open>lseek\<close> accepts an offset.  The last four are libext2fs:
  \<open>ext2fs_get_mem\<close>, \<open>io_channel_read_blk64\<close>, \<open>ext2fs_read_inode\<close> and the \<open>i_block\<close> of the handle that \<open>ext2fs_extent_open\<close> returns.\<close>

record disk_io =
  io_read :: "nat \<Rightarrow> nat \<Rightarrow> nat \<Rightarrow> buffer option"
  io_write :: "nat \<Rightarrow> string \<Rightarrow> nat \<Rightarrow> nat \<Rightarrow> nat option"
  io_seek :: "nat \<Rightarrow> bool"
  io_seek_out :: "string \<Rightarrow> nat \<Rightarrow> bool"
  io_open :: "string \<Rightarrow> bool"
  io_mem :: "nat \<Rightarrow> bool"
  io_blk :: "blk64_t \<Rightarrow> buffer option"
  io_inode :: "u32 \<Rightarrow> ext2_inode option"
  io_extent_open :: "u32 \<Rightarrow> buffer option"

record orig =
  o_files :: "string \<Rightarrow> buffer option"
  o_dev_pos :: nat
  o_out_pos :: nat
  o_calls :: nat
  o_flag :: bool

definition o_file :: "orig \<Rightarrow> string \<Rightarrow> buffer" where
  "o_file st fd = (case o_files st fd of None \<Rightarrow> [] | Some f \<Rightarrow> f)"

section \<open>Copying an extent\<close>

definition seek_dev :: "disk_io \<Rightarrow> nat \<Rightarrow> orig \<Rightarrow> orig" where
  "seek_dev io off st = (if io_seek io off then st\<lparr>o_dev_pos := off\<rparr> else st)"

definition seek_out :: "disk_io \<Rightarrow> string \<Rightarrow> nat \<Rightarrow> orig \<Rightarrow> orig" where
  "seek_out io fd off st = (if io_seek_out io fd off then st\<lparr>o_out_pos := off\<rparr> else st)"

text \<open>The loop that fills the buffer; \<open>None\<close> is the \<open>return 0\<close> after an error or at the end of the device.\<close>

function fix_read :: "disk_io \<Rightarrow> nat \<Rightarrow> buffer \<Rightarrow> orig \<Rightarrow> buffer option \<times> orig" where
  "fix_read io bs acc st =
     (if length acc < bs then
        (let st1 = st\<lparr>o_calls := o_calls st + 1\<rparr> in
         case io_read io (o_calls st) (o_dev_pos st) (bs - length acc) of
           None \<Rightarrow> (None, st1)
         | Some d \<Rightarrow> if d = [] then (None, st1)
                    else fix_read io bs (acc @ d) (st1\<lparr>o_dev_pos := o_dev_pos st + length d\<rparr>))
      else (Some acc, st))"
  by pat_completeness auto
termination
  by (relation "measure (\<lambda>(io, bs, acc, st). bs - length acc)") (auto simp: neq_Nil_conv)

function fix_write :: "disk_io \<Rightarrow> nat \<Rightarrow> string \<Rightarrow> buffer \<Rightarrow> nat \<Rightarrow> orig \<Rightarrow> bool \<times> orig" where
  "fix_write io bs fd buf written st =
     (if written < bs then
        (let st1 = st\<lparr>o_calls := o_calls st + 1\<rparr> in
         case io_write io (o_calls st) fd (o_out_pos st) (bs - written) of
           None \<Rightarrow> (False, st1)
         | Some ret \<Rightarrow>
             if ret = 0 then (False, st1)
             else fix_write io bs fd buf (written + ret)
                    (st1\<lparr>o_out_pos := o_out_pos st + ret,
                         o_files := (o_files st)(fd \<mapsto> file_write (o_file st fd) (o_out_pos st) (take ret (drop written buf)))\<rparr>))
      else (True, st))"
  by pat_completeness auto
termination
  by (relation "measure (\<lambda>(io, bs, fd, buf, written, st). bs - written)") auto

declare fix_read.simps [simp del] fix_write.simps [simp del]

primrec fix_copy :: "disk_io \<Rightarrow> nat \<Rightarrow> string \<Rightarrow> nat \<Rightarrow> orig \<Rightarrow> bool \<times> orig" where
  "fix_copy io bs fd 0 st = (True, st)"
| "fix_copy io bs fd (Suc n) st =
     (case fix_read io bs [] st of
        (None, st) \<Rightarrow> (False, st)
      | (Some buf, st) \<Rightarrow>
          (case fix_write io bs fd buf 0 st of
             (False, st) \<Rightarrow> (False, st)
           | (True, st) \<Rightarrow> fix_copy io bs fd n st))"

text \<open>\<^verbatim>\<open>(off_t)start * blocksize\<close> is a signed product.\<close>

definition fix_recover_block_to_file ::
  "disk_io \<Rightarrow> nat \<Rightarrow> string \<Rightarrow> u32 \<Rightarrow> u16 \<Rightarrow> u64 \<Rightarrow> orig \<Rightarrow> (bool \<times> orig) res" where
  "fix_recover_block_to_file io bs fd block len start st =
     (let off = unat start * bs; offset_ino = unat block * bs in
      if off \<ge> 2 ^ 63 then Undefined
      else if \<not> io_seek io off then Done (False, st)
      else if \<not> io_seek_out io fd offset_ino then Done (False, seek_dev io off st)
      else Done (fix_copy io bs fd (unat len) (seek_out io fd offset_ino (seek_dev io off st))))"

section \<open>Faithful devices\<close>

definition copy_extent :: "buffer \<Rightarrow> nat \<Rightarrow> buffer \<Rightarrow> ext3_extent \<Rightarrow> buffer" where
  "copy_extent dev bs f e =
     file_write f (unat (ee_block e) * bs) (sub_buf dev (unat (ee_phys e) * bs) (unat (ee_len e) * bs))"

definition copy_on_device :: "buffer \<Rightarrow> nat \<Rightarrow> ext3_extent \<Rightarrow> bool" where
  "copy_on_device dev bs e \<longleftrightarrow> (unat (ee_phys e) + unat (ee_len e)) * bs \<le> length dev"

text \<open>System calls without errors: reads and writes may be short but make progress, and every offset on the device can be reached.\<close>

definition orig_faithful :: "disk_io \<Rightarrow> buffer \<Rightarrow> bool" where
  "orig_faithful io dev \<longleftrightarrow> length dev < 2 ^ 63 \<and>
     (\<forall>c off n. 0 < n \<longrightarrow> off < length dev \<longrightarrow> (\<exists>m. 0 < m \<and> m \<le> n \<and> io_read io c off n = Some (take m (drop off dev)))) \<and>
     (\<forall>c fd off n. 0 < n \<longrightarrow> (\<exists>m. 0 < m \<and> m \<le> n \<and> io_write io c fd off n = Some m)) \<and>
     (\<forall>off \<le> length dev. io_seek io off) \<and> (\<forall>fd off. io_seek_out io fd off) \<and> (\<forall>n. io_mem io n)"

lemma faithful_read:
  assumes "orig_faithful io dev" "0 < n" "off + n \<le> length dev"
  obtains d where "io_read io c off n = Some d" "0 < length d" "length d \<le> n" "d = sub_buf dev off (length d)"
proof -
  have "off < length dev" using assms by linarith
  then obtain m where m: "0 < m" "m \<le> n" "io_read io c off n = Some (take m (drop off dev))"
    using assms(1,2) unfolding orig_faithful_def by blast
  have "length (take m (drop off dev)) = m" using m(2) assms(3) by simp
  then show thesis using that [OF m(3)] m(1,2) by (simp add: sub_buf_def)
qed

lemma faithful_write:
  assumes "orig_faithful io dev" "0 < n"
  obtains m where "0 < m" "m \<le> n" "io_write io c fd off n = Some m"
  using assms unfolding orig_faithful_def by blast

section \<open>Exact copies\<close>

lemma fix_read_ok:
  assumes "orig_faithful io dev"
  shows "length acc \<le> bs \<Longrightarrow> o_dev_pos st + (bs - length acc) \<le> length dev \<Longrightarrow>
    \<exists>st'. fix_read io bs acc st = (Some (acc @ sub_buf dev (o_dev_pos st) (bs - length acc)), st') \<and>
      o_files st' = o_files st \<and> o_dev_pos st' = o_dev_pos st + (bs - length acc) \<and> o_out_pos st' = o_out_pos st"
proof (induction "bs - length acc" arbitrary: acc st rule: less_induct)
  case less
  show ?case
  proof (cases "length acc < bs")
    case False
    then show ?thesis using less.prems by (simp add: fix_read.simps [of io bs acc st] sub_buf_def)
  next
    case True
    let ?n = "bs - length acc" and ?p = "o_dev_pos st"
    have n: "0 < ?n" using True by simp
    obtain d where d: "io_read io (o_calls st) ?p ?n = Some d" "0 < length d" "length d \<le> ?n" "d = sub_buf dev ?p (length d)"
      by (rule faithful_read [OF assms n less.prems(2)])
    let ?st = "st\<lparr>o_calls := o_calls st + 1, o_dev_pos := ?p + length d\<rparr>"
    have b: "bs - length (acc @ d) = ?n - length d" by simp
    have side: "bs - length (acc @ d) < ?n" "length (acc @ d) \<le> bs" "o_dev_pos ?st + (bs - length (acc @ d)) \<le> length dev"
      unfolding b using d(2,3) less.prems True by (linarith, simp, simp)
    have "sub_buf dev ?p (length d + (?n - length d)) = d @ sub_buf dev (?p + length d) (?n - length d)"
      unfolding sub_buf_split using d(4) by simp
    then have "sub_buf dev ?p ?n = d @ sub_buf dev (?p + length d) (?n - length d)" using d(3) by (simp del: diff_diff_left)
    moreover have "fix_read io bs acc st = fix_read io bs (acc @ d) ?st"
      using True d(1,2) by (simp add: fix_read.simps [of io bs acc st] Let_def)
    ultimately show ?thesis using d(3) less.hyps [OF side] unfolding b by auto
  qed
qed

lemma fix_write_ok:
  assumes "orig_faithful io dev" and "length buf = bs"
  shows "w \<le> bs \<Longrightarrow> o_files st fd = Some f \<Longrightarrow>
    \<exists>st'. fix_write io bs fd buf w st = (True, st') \<and>
      o_files st' = (o_files st)(fd \<mapsto> file_write f (o_out_pos st) (drop w buf)) \<and>
      o_dev_pos st' = o_dev_pos st \<and> o_out_pos st' = o_out_pos st + (bs - w)"
proof (induction "bs - w" arbitrary: w st f rule: less_induct)
  case less
  show ?case
  proof (cases "w < bs")
    case False
    then show ?thesis using less.prems assms(2) by (simp add: fix_write.simps [of io bs fd buf bs st] file_write_def fun_upd_idem)
  next
    case True
    let ?p = "o_out_pos st"
    obtain m where m: "0 < m" "m \<le> bs - w" "io_write io (o_calls st) fd ?p (bs - w) = Some m"
      using faithful_write [OF assms(1)] True by (metis zero_less_diff)
    let ?a = "take m (drop w buf)" and ?b = "drop (w + m) buf"
    let ?fs = "(o_files st)(fd \<mapsto> file_write f ?p ?a)"
    let ?st = "st\<lparr>o_calls := o_calls st + 1, o_out_pos := ?p + m, o_files := ?fs\<rparr>"
    have side: "bs - (w + m) < bs - w" "w + m \<le> bs" "o_files ?st fd = Some (file_write f ?p ?a)" using m True by auto
    obtain st' where st': "fix_write io bs fd buf (w + m) ?st = (True, st')"
      "o_files st' = ?fs(fd \<mapsto> file_write (file_write f ?p ?a) (?p + m) ?b)"
      "o_dev_pos st' = o_dev_pos st" "o_out_pos st' = ?p + m + (bs - (w + m))"
      using less.hyps [OF side] by fastforce
    have la: "length ?a = m" using m(2) assms(2) by simp
    have "?a @ ?b = drop w buf" by (metis append_take_drop_id drop_drop add.commute)
    then have w: "file_write (file_write f ?p ?a) (?p + m) ?b = file_write f ?p (drop w buf)"
      using file_write_append [of f ?p ?a ?b] la by simp
    have "o_files st' = (o_files st)(fd \<mapsto> file_write f ?p (drop w buf))" unfolding st'(2) w fun_upd_upd ..
    moreover have "fix_write io bs fd buf w st = (True, st')"
      using True m st'(1) less.prems(2) by (simp add: fix_write.simps [of io bs fd buf w st] Let_def o_file_def)
    ultimately show ?thesis using st'(3,4) m(2) by auto
  qed
qed

lemma fix_copy_ok:
  assumes "orig_faithful io dev"
  shows "o_dev_pos st + n * bs \<le> length dev \<Longrightarrow> o_files st fd = Some f \<Longrightarrow>
    \<exists>st'. fix_copy io bs fd n st = (True, st') \<and>
      o_files st' = (o_files st)(fd \<mapsto> file_write f (o_out_pos st) (sub_buf dev (o_dev_pos st) (n * bs)))"
proof (induction n arbitrary: st f)
  case 0
  then show ?case by (simp add: file_write_def sub_buf_def fun_upd_idem)
next
  case (Suc n)
  let ?p = "o_dev_pos st" and ?q = "o_out_pos st"
  let ?d = "sub_buf dev ?p bs"
  have fit: "?p + bs \<le> length dev" using Suc.prems(1) by simp
  obtain st1 where st1: "fix_read io bs [] st = (Some ?d, st1)"
    "o_files st1 = o_files st" "o_dev_pos st1 = ?p + bs" "o_out_pos st1 = ?q"
    using fix_read_ok [OF assms, of "[]" bs st] fit by auto
  have ld: "length ?d = bs" using fit by simp
  have f1: "o_files st1 fd = Some f" using st1(2) Suc.prems(2) by simp
  obtain st2 where st2: "fix_write io bs fd ?d 0 st1 = (True, st2)"
    "o_files st2 = (o_files st1)(fd \<mapsto> file_write f ?q ?d)" "o_dev_pos st2 = ?p + bs" "o_out_pos st2 = ?q + bs"
    using fix_write_ok [OF assms ld _ f1, of 0] st1(3,4) by auto
  have side: "o_dev_pos st2 + n * bs \<le> length dev" "o_files st2 fd = Some (file_write f ?q ?d)" using Suc.prems(1) st2 by auto
  obtain st3 where st3: "fix_copy io bs fd n st2 = (True, st3)"
    "o_files st3 = (o_files st2)(fd \<mapsto> file_write (file_write f ?q ?d) (?q + bs) (sub_buf dev (?p + bs) (n * bs)))"
    using Suc.IH [OF side] unfolding st2(3,4) by blast
  have w: "file_write (file_write f ?q ?d) (?q + bs) (sub_buf dev (?p + bs) (n * bs)) = file_write f ?q (sub_buf dev ?p (bs + n * bs))"
    using file_write_append [of f ?q ?d "sub_buf dev (?p + bs) (n * bs)"] ld by (simp add: sub_buf_split)
  have "o_files st3 = (o_files st)(fd \<mapsto> file_write f ?q (sub_buf dev ?p (Suc n * bs)))"
    unfolding st3(2) st2(2) st1(2) w fun_upd_upd mult_Suc ..
  moreover have "fix_copy io bs fd (Suc n) st = (True, st3)" using st1(1) st2(1) st3(1) by simp
  ultimately show ?case by blast
qed

text \<open>A call that succeeded and changed the bytes of one output by \<open>g\<close>.\<close>

definition edits :: "string \<Rightarrow> (buffer \<Rightarrow> buffer) \<Rightarrow> orig \<Rightarrow> (bool \<times> orig) res \<Rightarrow> bool" where
  "edits fd g st r \<longleftrightarrow> (\<exists>st'. r = Done (True, st') \<and> (\<exists>f. o_files st fd = Some f \<and> o_files st' = (o_files st)(fd \<mapsto> g f)))"

lemma edits_id: "o_files st fd \<noteq> None \<Longrightarrow> edits fd (\<lambda>f. f) st (Done (True, st))"
  by (auto simp: edits_def fun_upd_idem)

lemma edits_from: "edits fd g st1 r \<Longrightarrow> o_files st1 = o_files st \<Longrightarrow> edits fd g st r"
  by (simp add: edits_def)

lemma edits_bind:
  assumes "edits fd g st r" and "\<And>st'. o_files st' fd \<noteq> None \<Longrightarrow> edits fd h st' (k (True, st'))"
  shows "edits fd (\<lambda>f. h (g f)) st (res_bind r k)"
proof -
  obtain st' f where r: "r = Done (True, st')" "o_files st fd = Some f" "o_files st' = (o_files st)(fd \<mapsto> g f)"
    using assms(1) by (auto simp: edits_def)
  then obtain st'' where "k (True, st') = Done (True, st'')" "o_files st'' = (o_files st')(fd \<mapsto> h (g f))"
    using assms(2) [of st'] by (auto simp: edits_def)
  then show ?thesis using r by (auto simp: edits_def)
qed

text \<open>A call that succeeded and wrote \<open>es\<close>.\<close>

definition copied :: "buffer \<Rightarrow> nat \<Rightarrow> string \<Rightarrow> ext3_extent list \<Rightarrow> orig \<Rightarrow> (bool \<times> orig) res \<Rightarrow> bool" where
  "copied dev bs fd es = edits fd (\<lambda>f. foldl (copy_extent dev bs) f es)"

lemma copied_iff:
  "copied dev bs fd es st r \<longleftrightarrow>
     (\<exists>st'. r = Done (True, st') \<and>
        (\<exists>f. o_files st fd = Some f \<and> o_files st' = (o_files st)(fd \<mapsto> foldl (copy_extent dev bs) f es)))"
  by (simp add: copied_def edits_def)

lemma copies_nil: "o_files st fd \<noteq> None \<Longrightarrow> copied dev bs fd [] st (Done (True, st))"
  by (simp add: copied_def edits_id)

lemma copies_flag: "copied dev bs fd es (st\<lparr>o_flag := b\<rparr>) r = copied dev bs fd es st r"
  by (simp add: copied_iff)

lemma copies_bind:
  assumes "copied dev bs fd es st r"
    and "\<And>st'. o_files st' fd \<noteq> None \<Longrightarrow> copied dev bs fd es' st' (k (True, st'))"
  shows "copied dev bs fd (es @ es') st (res_bind r k)"
  using edits_bind [OF assms [unfolded copied_def]] by (simp add: copied_def)

lemma fix_rbtf_copies:
  assumes io: "orig_faithful io dev" and "copy_on_device dev bs e" "o_files st fd \<noteq> None"
  shows "copied dev bs fd [e] st (fix_recover_block_to_file io bs fd (ee_block e) (ee_len e) (ee_phys e) st)"
proof -
  obtain f where f: "o_files st fd = Some f" using assms(3) by auto
  let ?p = "unat (ee_phys e) * bs" and ?q = "unat (ee_block e) * bs" and ?n = "unat (ee_len e)"
  have fit: "?p + ?n * bs \<le> length dev" using assms(2) by (simp add: copy_on_device_def distrib_right)
  then have "?p \<le> length dev" by simp
  then have sk: "io_seek io ?p" "\<And>off. io_seek_out io fd off" "\<not> 2 ^ 63 \<le> ?p" using io unfolding orig_faithful_def by auto
  let ?st = "st\<lparr>o_dev_pos := ?p, o_out_pos := ?q\<rparr>"
  obtain st' where st': "fix_copy io bs fd ?n ?st = (True, st')"
    "o_files st' = (o_files st)(fd \<mapsto> file_write f ?q (sub_buf dev ?p (?n * bs)))"
    using fix_copy_ok [OF io, of ?st ?n bs fd f] fit f by auto
  then show ?thesis
    using f sk by (simp add: copied_iff fix_recover_block_to_file_def Let_def seek_dev_def seek_out_def copy_extent_def)
qed

end
