(* ===== verification/Original_Recover.thy ===== *)
theory Original_Recover
  imports Disk_Copy
begin

text \<open>
  The first version of the program (\<^verbatim>\<open>original/src/ext4recover.c\<close>): for every deleted regular file whose first index entry
  survives it follows the four in-inode slots and copies the extents it finds.  The system calls are functions of the
  number of calls made so far, so that a repeated call may have another result.  The
  retry loops and the descent are bounded by fuel; \<open>Running\<close> means that it did not suffice.
\<close>

section \<open>Copying an extent\<close>

text \<open>\<open>while (offset < blocksize) { size = read(\<dots>); \<dots> }\<close>; \<open>acc\<close> holds \<open>buf[0..<offset]\<close>.\<close>

primrec read_dev :: "nat \<Rightarrow> disk_io \<Rightarrow> nat \<Rightarrow> nat \<Rightarrow> buffer \<Rightarrow> orig \<Rightarrow> (buffer \<times> orig) res" where
  "read_dev 0 io bs offset_dev acc st = Running"
| "read_dev (Suc fuel) io bs offset_dev acc st =
     (if length acc < bs then
        (let st1 = st\<lparr>o_calls := o_calls st + 1\<rparr> in
         case io_read io (o_calls st) (o_dev_pos st) (bs - length acc) of
           None \<Rightarrow> read_dev fuel io bs offset_dev acc (seek_dev io (offset_dev + bs) st1)
         | Some d \<Rightarrow> read_dev fuel io bs offset_dev (acc @ d) (st1\<lparr>o_dev_pos := o_dev_pos st + length d\<rparr>))
      else Done (acc, st))"

text \<open>\<open>while (offset != 0) { ret = write(\<dots>); \<dots> }\<close>\<close>

primrec write_ino :: "nat \<Rightarrow> disk_io \<Rightarrow> nat \<Rightarrow> string \<Rightarrow> nat \<Rightarrow> buffer \<Rightarrow> nat \<Rightarrow> orig \<Rightarrow> orig res" where
  "write_ino 0 io bs fd offset_ino buf offset st = Running"
| "write_ino (Suc fuel) io bs fd offset_ino buf offset st =
     (if offset \<noteq> 0 then
        (let st1 = st\<lparr>o_calls := o_calls st + 1\<rparr> in
         case io_write io (o_calls st) fd (o_out_pos st) offset of
           None \<Rightarrow> write_ino fuel io bs fd offset_ino buf offset (seek_out io fd (offset_ino + bs) st1)
         | Some ret \<Rightarrow>
             write_ino fuel io bs fd offset_ino buf (offset - ret)
               (st1\<lparr>o_out_pos := o_out_pos st + ret,
                    o_files := (o_files st)(fd \<mapsto> file_write (o_file st fd) (o_out_pos st) (take ret (drop (bs - offset) buf)))\<rparr>))
      else Done st)"

text \<open>The loop over the blocks; the argument counts the blocks left.\<close>

primrec orig_copy_loop :: "nat \<Rightarrow> disk_io \<Rightarrow> nat \<Rightarrow> string \<Rightarrow> nat \<Rightarrow> nat \<Rightarrow> nat \<Rightarrow> orig \<Rightarrow> orig res" where
  "orig_copy_loop fuel io bs fd offset_dev offset_ino 0 st = Done st"
| "orig_copy_loop fuel io bs fd offset_dev offset_ino (Suc n) st =
     res_bind (read_dev fuel io bs offset_dev [] st)
       (\<lambda>(buf, st). res_bind (write_ino fuel io bs fd offset_ino buf bs st)
         (orig_copy_loop fuel io bs fd offset_dev offset_ino n))"

definition orig_recover_block_to_file ::
  "nat \<Rightarrow> disk_io \<Rightarrow> nat \<Rightarrow> string \<Rightarrow> u32 \<Rightarrow> u16 \<Rightarrow> u64 \<Rightarrow> orig \<Rightarrow> (bool \<times> orig) res" where
  "orig_recover_block_to_file fuel io bs fd block len start st =
     (let off = start * of_nat bs :: u64; offset_ino = unat block * bs in
      if sint off < 0 \<or> \<not> io_seek io (unat off) then Done (False, st)
      else if \<not> io_seek_out io fd offset_ino then Done (False, seek_dev io (unat off) st)
      else res_bind (orig_copy_loop fuel io bs fd (unat off) offset_ino (unat len)
                       (seek_out io fd offset_ino (seek_dev io (unat off) st)))
        (\<lambda>st. if \<not> io_seek io 0 then Done (False, st)
              else if \<not> io_seek_out io fd 0 then Done (False, seek_dev io 0 st)
              else Done (True, seek_out io fd 0 (seek_dev io 0 st))))"

section \<open>The tree\<close>

text \<open>The loop over a leaf; \<open>cpy\<close> is \<open>recover_block_to_file\<close> on the fields of an extent.\<close>

primrec dump_loop :: "(ext3_extent \<Rightarrow> orig \<Rightarrow> (bool \<times> orig) res) \<Rightarrow> buffer \<Rightarrow> nat list \<Rightarrow> orig \<Rightarrow> (bool \<times> orig) res" where
  "dump_loop cpy buf [] st = Done (True, st)"
| "dump_loop cpy buf (i # is) st =
     (case extent_at buf i of None \<Rightarrow> Undefined
      | Some ee \<Rightarrow> res_bind (cpy ee st) (\<lambda>(ok, st). if ok then dump_loop cpy buf is st else Done (False, st)))"

definition leaf_accepted :: "buffer \<Rightarrow> bool" where
  "leaf_accepted buf \<longleftrightarrow>
     \<not> eh_entries (header_at buf) > 340 \<and> eh_magic (header_at buf) = EXT4_EXT_MAGIC \<and> eh_max (header_at buf) = 340"

definition dump_dir_extent :: "(ext3_extent \<Rightarrow> orig \<Rightarrow> (bool \<times> orig) res) \<Rightarrow> buffer \<Rightarrow> orig \<Rightarrow> (bool \<times> orig) res" where
  "dump_dir_extent cpy buf st =
     (if \<not> leaf_accepted buf then Done (True, st) else dump_loop cpy buf [0..<unat (eh_entries (header_at buf))] st)"

definition orig_rb :: "nat \<Rightarrow> disk_io \<Rightarrow> nat \<Rightarrow> string \<Rightarrow> ext3_extent \<Rightarrow> orig \<Rightarrow> (bool \<times> orig) res" where
  "orig_rb fuel io bs fd ee = orig_recover_block_to_file fuel io bs fd (ee_block ee) (ee_len ee) (ee_phys ee)"

text \<open>The loop over the index entries; a failed read returns its error code, which every caller takes for success.  The \<open>return\<close> without a
  value after a failed allocation is undefined.\<close>

primrec index_loop ::
  "disk_io \<Rightarrow> nat \<Rightarrow> (buffer \<Rightarrow> orig \<Rightarrow> (bool \<times> orig) res) \<Rightarrow> buffer \<Rightarrow> nat list \<Rightarrow> orig \<Rightarrow> (bool \<times> orig) res" where
  "index_loop io bs child buf [] st = Done (True, st)"
| "index_loop io bs child buf (i # is) st =
     (if \<not> io_mem io bs then Undefined
      else case idx_at buf i of None \<Rightarrow> Undefined
      | Some ei \<Rightarrow>
          (case io_blk io (ei_phys ei) of None \<Rightarrow> Done (True, st)
           | Some next \<Rightarrow> res_bind (child next st) (\<lambda>(ok, st). index_loop io bs child buf is st)))"

primrec orig_extent_tree_travel ::
  "nat \<Rightarrow> nat \<Rightarrow> disk_io \<Rightarrow> nat \<Rightarrow> string \<Rightarrow> buffer \<Rightarrow> orig \<Rightarrow> (bool \<times> orig) res" where
  "orig_extent_tree_travel 0 fuel io bs fd buf st = Running"
| "orig_extent_tree_travel (Suc k) fuel io bs fd buf st =
     (let eh = header_at buf in
      if eh_depth eh = 0 then dump_dir_extent (orig_rb fuel io bs fd) buf st
      else if eh_depth eh \<le> 4 then
        index_loop io bs (orig_extent_tree_travel k fuel io bs fd) buf [0..<unat (eh_entries eh)] (st\<lparr>o_flag := True\<rparr>)
      else Done (True, st))"

primrec orig_slot_loop ::
  "disk_io \<Rightarrow> (buffer \<Rightarrow> orig \<Rightarrow> (bool \<times> orig) res) \<Rightarrow> buffer \<Rightarrow> nat list \<Rightarrow> orig \<Rightarrow> (bool \<times> orig) res" where
  "orig_slot_loop io travel i_blk [] st = Done (True, st)"
| "orig_slot_loop io travel i_blk (i # is) st =
     (case idx_at i_blk i of None \<Rightarrow> Undefined
      | Some ix \<Rightarrow>
          (case io_blk io (ei_phys ix) of None \<Rightarrow> Done (True, st)
           | Some next \<Rightarrow>
               res_bind (travel next st)
                 (\<lambda>(ok, st). if \<not> ok then Done (False, st)
                             else if eh_entries (header_at next) < 340 then Done (True, st)
                             else orig_slot_loop io travel i_blk is st)))"

definition prase_ino_extent :: "nat \<Rightarrow> nat \<Rightarrow> disk_io \<Rightarrow> nat \<Rightarrow> string \<Rightarrow> buffer \<Rightarrow> orig \<Rightarrow> (bool \<times> orig) res" where
  "prase_ino_extent k fuel io bs fd i_blk st =
     (if \<not> io_mem io bs then Done (False, st)
      else orig_slot_loop io (orig_extent_tree_travel k fuel io bs fd) i_blk [0..<4] st)"

section \<open>The program\<close>

text \<open>\<open>ei\<close> is the first index entry, 12 bytes into \<open>i_block\<close>.\<close>

definition is_inode_extent_clear :: "ext2_inode \<Rightarrow> bool" where
  "is_inode_extent_clear inode \<longleftrightarrow>
     \<not> (le32_at (i_block inode) 16 > 1 \<and> LINUX_S_ISREG (i_mode inode) \<and> i_links_count inode = 0)"

text \<open>\<^verbatim>\<open>%d\<close> prints the inode number as a signed integer.\<close>

definition orig_name :: "u32 \<Rightarrow> string" where
  "orig_name ino = ''./RECOVER/'' @ (if sint ino < 0 then ''-'' @ udec (nat (- sint ino)) else udec (unat ino)) @ ''_file''"

datatype exit_status = Status int | Return_void

primrec orig_inode_loop ::
  "nat \<Rightarrow> nat \<Rightarrow> disk_io \<Rightarrow> nat \<Rightarrow> nat list \<Rightarrow> orig \<Rightarrow> (exit_status \<times> orig) res" where
  "orig_inode_loop k fuel io bs [] st = Done (Status 0, st)"
| "orig_inode_loop k fuel io bs (n # ns) st =
     (let icount = of_nat n; st = st\<lparr>o_flag := False\<rparr>; filename = orig_name icount in
      case io_inode io icount of
        None \<Rightarrow> orig_inode_loop k fuel io bs ns st
      | Some inode \<Rightarrow>
          if is_inode_extent_clear inode then orig_inode_loop k fuel io bs ns st
          else if \<not> io_open io filename then orig_inode_loop k fuel io bs ns st
          else let st = st\<lparr>o_files := (o_files st)(filename \<mapsto> []), o_out_pos := 0\<rparr> in
            case io_extent_open io icount of
              None \<Rightarrow> Done (Return_void, st)
            | Some i_blk \<Rightarrow>
                res_bind (prase_ino_extent k fuel io bs filename i_blk st)
                  (\<lambda>(ok, st). if ok then orig_inode_loop k fuel io bs ns st else Done (Status 1, st)))"

definition orig_is_on_device :: "nat option \<Rightarrow> (bool \<times> nat) option \<Rightarrow> int" where
  "orig_is_on_device stat1 stat2 =
     (case stat1 of None \<Rightarrow> -1
      | Some st_dev \<Rightarrow> (case stat2 of None \<Rightarrow> -1 | Some (is_blk, st_rdev) \<Rightarrow> if is_blk \<and> st_dev = st_rdev then 1 else 0))"

text \<open>What \<open>main\<close> finds before its loop: the result of \<open>ext2fs_open\<close> (an error code, or the block size and the number of inodes), of
  \<open>open\<close>, of \<open>mkdir\<close> (an existing directory counts as success), and the two \<open>stat\<close> calls.\<close>

record orig_host =
  oh_fs :: "int + (nat \<times> u32)"
  oh_open :: bool
  oh_mkdir :: bool
  oh_stat_dir :: "nat option"
  oh_stat_dev :: "(bool \<times> nat) option"

definition orig_main ::
  "nat \<Rightarrow> nat \<Rightarrow> nat \<Rightarrow> orig_host \<Rightarrow> disk_io \<Rightarrow> (string \<Rightarrow> buffer option) \<Rightarrow> (exit_status \<times> (string \<Rightarrow> buffer option)) res" where
  "orig_main k fuel argc h io fs0 =
     (if argc \<noteq> 2 then Done (Status 1, fs0)
      else case oh_fs h of
        Inl e \<Rightarrow> Done (Status e, fs0)
      | Inr (bs, imax) \<Rightarrow>
          if \<not> oh_open h then Done (Status 1, fs0)
          else if \<not> oh_mkdir h then Done (Status 1, fs0)
          else if orig_is_on_device (oh_stat_dir h) (oh_stat_dev h) = 1 then Done (Status 1, fs0)
          else res_map (\<lambda>(e, st). (e, o_files st))
                 (orig_inode_loop k fuel io bs [3..<unat (imax + 1)]
                    \<lparr>o_files = fs0, o_dev_pos = 0, o_out_pos = 0, o_calls = 0, o_flag = False\<rparr>))"

section \<open>Reference\<close>

text \<open>What the walk should copy: the entries of every leaf it accepts, in tree order.\<close>

definition orig_leaf :: "buffer \<Rightarrow> ext3_extent list option" where
  "orig_leaf buf = (if leaf_accepted buf then extents_at buf (unat (eh_entries (header_at buf))) else Some [])"

primrec orig_extents :: "(blk64_t \<Rightarrow> buffer option) \<Rightarrow> nat \<Rightarrow> buffer \<Rightarrow> ext3_extent list option" where
  "orig_extents rd 0 buf = None"
| "orig_extents rd (Suc k) buf =
     (let eh = header_at buf in
      if eh_depth eh = 0 then orig_leaf buf
      else if eh_depth eh \<le> 4 then
        (case idxs_at buf (unat (eh_entries eh)) of None \<Rightarrow> None
         | Some is \<Rightarrow> map_option concat (those (map (\<lambda>ix. Option.bind (rd (ei_phys ix)) (orig_extents rd k)) is)))
      else Some [])"

primrec slot_extents :: "(blk64_t \<Rightarrow> buffer option) \<Rightarrow> nat \<Rightarrow> buffer \<Rightarrow> nat list \<Rightarrow> ext3_extent list option" where
  "slot_extents rd k i_blk [] = Some []"
| "slot_extents rd k i_blk (i # is) =
     Option.bind (idx_at i_blk i) (\<lambda>ix. Option.bind (rd (ei_phys ix)) (\<lambda>next. Option.bind (orig_extents rd k next) (\<lambda>es.
       if eh_entries (header_at next) < 340 then Some es
       else map_option (\<lambda>es'. es @ es') (slot_extents rd k i_blk is))))"

section \<open>Copying on a faithful device\<close>

text \<open>Where the repaired copy succeeds, the original one does the same, with more fuel than bytes in a block.\<close>

lemma read_dev_fix: "fix_read io bs acc st = (Some b, st') \<Longrightarrow> bs - length acc < fuel \<Longrightarrow> read_dev fuel io bs od acc st = Done (b, st')"
proof (induction fuel arbitrary: acc st)
  case (Suc fuel)
  show ?case
  proof (cases "length acc < bs")
    case True
    then obtain d where d: "io_read io (o_calls st) (o_dev_pos st) (bs - length acc) = Some d" "d \<noteq> []"
      "fix_read io bs (acc @ d) (st\<lparr>o_calls := o_calls st + 1, o_dev_pos := o_dev_pos st + length d\<rparr>) = (Some b, st')"
      using Suc.prems(1) by (subst (asm) fix_read.simps) (auto simp: Let_def split: option.splits if_splits)
    then have "0 < length d" by simp
    then have "bs - length (acc @ d) < fuel" using Suc.prems(2) True by (simp del: length_greater_0_conv)
    from Suc.IH [OF d(3) this] show ?thesis using True d(1) by (simp add: Let_def)
  qed (use Suc.prems in \<open>simp add: fix_read.simps [of io bs acc st]\<close>)
qed simp

lemma write_ino_fix:
  "fix_write io bs fd buf w st = (True, st') \<Longrightarrow> bs - w < fuel \<Longrightarrow> write_ino fuel io bs fd oi buf (bs - w) st = Done st'"
proof (induction fuel arbitrary: w st)
  case (Suc fuel)
  show ?case
  proof (cases "w < bs")
    case True
    then obtain r where r: "io_write io (o_calls st) fd (o_out_pos st) (bs - w) = Some r" "r \<noteq> 0"
      "fix_write io bs fd buf (w + r) (st\<lparr>o_calls := o_calls st + 1, o_out_pos := o_out_pos st + r,
         o_files := (o_files st)(fd \<mapsto> file_write (o_file st fd) (o_out_pos st) (take r (drop w buf)))\<rparr>) = (True, st')"
      using Suc.prems(1) by (subst (asm) fix_write.simps) (auto simp: Let_def split: option.splits if_splits)
    have "bs - (w + r) < fuel" using Suc.prems(2) True r(2) by simp
    from Suc.IH [OF r(3) this] show ?thesis using True r(1) by (simp add: Let_def)
  qed (use Suc.prems in \<open>simp add: fix_write.simps [of io bs fd buf w st]\<close>)
qed simp

lemma orig_copy_loop_fix: "fix_copy io bs fd n st = (True, st') \<Longrightarrow> bs < fuel \<Longrightarrow> orig_copy_loop fuel io bs fd od oi n st = Done st'"
proof (induction n arbitrary: st)
  case (Suc n)
  obtain b st1 st2 where s: "fix_read io bs [] st = (Some b, st1)" "fix_write io bs fd b 0 st1 = (True, st2)" "fix_copy io bs fd n st2 = (True, st')"
    using Suc.prems(1) by (auto split: prod.splits option.splits bool.splits)
  show ?case
    using read_dev_fix [OF s(1), of fuel od] write_ino_fix [OF s(2), of fuel oi] Suc.IH [OF s(3)] Suc.prems(2) by simp
qed simp

lemma sint_nonneg: "unat (w :: u64) < 2 ^ 63 \<Longrightarrow> \<not> sint w < 0"
proof -
  assume "unat w < 2 ^ 63"
  then have "int (unat w) < int (2 ^ 63)" by (simp only: of_nat_less_iff)
  then have "uint w < 2 ^ 63" by simp
  then have "sint w = uint w" by (simp add: sint_uint signed_take_bit_int_eq_self_iff order_trans [OF _ uint_ge_0])
  then show ?thesis by simp
qed

lemma ee_fits:
  assumes "copy_on_device dev bs e" "length dev < 2 ^ 63"
  shows "unat (ee_phys e * of_nat bs :: u64) = unat (ee_phys e) * bs" "\<not> sint (ee_phys e * of_nat bs :: u64) < 0"
proof -
  have le: "unat (ee_phys e) * bs \<le> length dev" using assms(1) by (simp add: copy_on_device_def distrib_right)
  show u: "unat (ee_phys e * of_nat bs :: u64) = unat (ee_phys e) * bs"
  proof (cases "ee_phys e = 0")
    case False
    then have "1 \<le> unat (ee_phys e)" by (simp add: Suc_le_eq unat_gt_0)
    then have "1 * bs \<le> unat (ee_phys e) * bs" by (rule mult_le_mono1)
    then have "bs < 2 ^ 63" using le assms(2) by linarith
    then have "bs < 2 ^ 64" by simp
    then show ?thesis using le assms(2) by (simp add: unat_word_ariths unat_of_nat)
  qed simp
  show "\<not> sint (ee_phys e * of_nat bs :: u64) < 0"
    by (rule sint_nonneg) (use u le assms(2) in linarith)
qed

lemma orig_rb_copies:
  assumes io: "orig_faithful io dev" and "bs < fuel" "copy_on_device dev bs e" "o_files st fd \<noteq> None"
  shows "copied dev bs fd [e] st (orig_rb fuel io bs fd e st)"
proof -
  obtain f where f: "o_files st fd = Some f" using assms(4) by auto
  have l: "length dev < 2 ^ 63" using io by (simp add: orig_faithful_def)
  note fits = ee_fits [OF assms(3) l]
  let ?p = "unat (ee_phys e) * bs" and ?q = "unat (ee_block e) * bs" and ?n = "unat (ee_len e)"
  have fit: "?p + ?n * bs \<le> length dev" using assms(3) by (simp add: copy_on_device_def distrib_right)
  then have sk: "io_seek io ?p" "io_seek io 0" "\<And>off. io_seek_out io fd off" using io by (simp_all add: orig_faithful_def)
  let ?st = "st\<lparr>o_dev_pos := ?p, o_out_pos := ?q\<rparr>"
  obtain st' where st': "fix_copy io bs fd ?n ?st = (True, st')"
    "o_files st' = (o_files st)(fd \<mapsto> file_write f ?q (sub_buf dev ?p (?n * bs)))"
    using fix_copy_ok [OF io, of ?st ?n bs fd f] fit f by auto
  from orig_copy_loop_fix [OF this(1) assms(2)] st'(2) show ?thesis
    using f fits sk
    by (simp add: copied_iff orig_rb_def orig_recover_block_to_file_def Let_def seek_dev_def seek_out_def copy_extent_def)
qed

lemma dump_loop_copies:
  assumes cpy: "\<And>e st. P e \<Longrightarrow> o_files st fd \<noteq> None \<Longrightarrow> copied dev bs fd [e] st (cpy e st)"
  shows "those (map (extent_at buf) is) = Some es \<Longrightarrow> \<forall>e \<in> set es. P e \<Longrightarrow> o_files st fd \<noteq> None \<Longrightarrow>
    copied dev bs fd es st (dump_loop cpy buf is st)"
proof (induction "is" arbitrary: es st)
  case (Cons i "is")
  obtain e es' where e: "extent_at buf i = Some e" "those (map (extent_at buf) is) = Some es'" "es = e # es'"
    using Cons.prems(1) by (auto split: option.splits)
  have "copied dev bs fd ([e] @ es') st (dump_loop cpy buf (i # is) st)"
    using copies_bind [OF cpy [of e st]] Cons.IH [OF e(2)] Cons.prems(2,3) e by simp
  then show ?case using e(3) by simp
qed (auto intro: copies_nil)

lemma dump_dir_copies:
  assumes cpy: "\<And>e st. P e \<Longrightarrow> o_files st fd \<noteq> None \<Longrightarrow> copied dev bs fd [e] st (cpy e st)"
    and "orig_leaf buf = Some es" "\<forall>e \<in> set es. P e" "o_files st fd \<noteq> None"
  shows "copied dev bs fd es st (dump_dir_extent cpy buf st)"
proof (cases "leaf_accepted buf")
  case True
  then have "those (map (extent_at buf) [0..<unat (eh_entries (header_at buf))]) = Some es"
    using assms(2) by (simp add: orig_leaf_def extents_at_def)
  from dump_loop_copies [where P = P, OF cpy this assms(3,4)] show ?thesis using True by (simp add: dump_dir_extent_def)
next
  case False
  then show ?thesis using assms(2,4) by (auto simp: orig_leaf_def dump_dir_extent_def intro: copies_nil)
qed

lemma index_loop_copies:
  assumes mem: "io_mem io bs"
    and child: "\<And>b x st. T b = Some x \<Longrightarrow> \<forall>e \<in> set x. P e \<Longrightarrow> o_files st fd \<noteq> None \<Longrightarrow> copied dev bs fd x st (child b st)"
  shows "those (map (idx_at buf) is) = Some xs \<Longrightarrow> those (map (\<lambda>ix. Option.bind (io_blk io (ei_phys ix)) T) xs) = Some ess \<Longrightarrow>
    \<forall>e \<in> set (concat ess). P e \<Longrightarrow> o_files st fd \<noteq> None \<Longrightarrow> copied dev bs fd (concat ess) st (index_loop io bs child buf is st)"
proof (induction "is" arbitrary: xs ess st)
  case Nil
  then show ?case by (auto intro: copies_nil)
next
  case (Cons i "is")
  obtain x xs' where x: "idx_at buf i = Some x" "those (map (idx_at buf) is) = Some xs'" "xs = x # xs'"
    using Cons.prems(1) by (auto split: option.splits)
  obtain b es ess' where b: "io_blk io (ei_phys x) = Some b" "T b = Some es"
    "those (map (\<lambda>ix. Option.bind (io_blk io (ei_phys ix)) T) xs') = Some ess'" "ess = es # ess'"
    using Cons.prems(2) x(3) by (auto split: option.splits simp: bind_eq_Some_conv)
  have "copied dev bs fd es st (child b st)" using child [OF b(2)] Cons.prems(3,4) b(4) by simp
  from copies_bind [OF this, of "concat ess'" "\<lambda>(ok, st). index_loop io bs child buf is st"]
  show ?case using Cons.IH [OF x(2) b(3)] Cons.prems(3) b mem x(1) by simp
qed

lemma orig_travel_copies:
  assumes "orig_faithful io dev" "bs < fuel"
  shows "orig_extents (io_blk io) k buf = Some es \<Longrightarrow> \<forall>e \<in> set es. copy_on_device dev bs e \<Longrightarrow> o_files st fd \<noteq> None \<Longrightarrow>
    copied dev bs fd es st (orig_extent_tree_travel k fuel io bs fd buf st)"
proof (induction k arbitrary: buf es st)
  case (Suc k)
  let ?h = "header_at buf"
  have mem: "io_mem io bs" using assms(1) by (simp add: orig_faithful_def)
  consider "eh_depth ?h = 0" | "eh_depth ?h \<noteq> 0" "eh_depth ?h \<le> 4" | "eh_depth ?h \<noteq> 0" "\<not> eh_depth ?h \<le> 4" by blast
  then show ?case
  proof cases
    case 1
    then show ?thesis using dump_dir_copies [where P = "copy_on_device dev bs", OF orig_rb_copies [OF assms] _ Suc.prems(2,3)] Suc.prems(1) by (simp add: Let_def)
  next
    case 2
    obtain xs ess where x: "idxs_at buf (unat (eh_entries ?h)) = Some xs" "es = concat ess"
      "those (map (\<lambda>ix. Option.bind (io_blk io (ei_phys ix)) (orig_extents (io_blk io) k)) xs) = Some ess"
      using 2 Suc.prems(1) by (auto simp: Let_def split: option.splits)
    have "copied dev bs fd (concat ess) (st\<lparr>o_flag := True\<rparr>)
        (index_loop io bs (orig_extent_tree_travel k fuel io bs fd) buf [0..<unat (eh_entries ?h)] (st\<lparr>o_flag := True\<rparr>))"
      by (rule index_loop_copies [where P = "copy_on_device dev bs", OF mem Suc.IH x(1) [unfolded idxs_at_def] x(3)])
        (use Suc.prems x(2) in auto)
    then show ?thesis using 2 x(2) by (simp add: Let_def copies_flag)
  next
    case 3
    then show ?thesis using Suc.prems by (auto simp: Let_def intro: copies_nil)
  qed
qed simp

lemma orig_slot_loop_copies:
  assumes "orig_faithful io dev" "bs < fuel"
  shows "slot_extents (io_blk io) k ib is = Some es \<Longrightarrow> \<forall>e \<in> set es. copy_on_device dev bs e \<Longrightarrow> o_files st fd \<noteq> None \<Longrightarrow>
    copied dev bs fd es st (orig_slot_loop io (orig_extent_tree_travel k fuel io bs fd) ib is st)"
proof (induction "is" arbitrary: es st)
  case (Cons i "is")
  obtain x b es1 where x: "idx_at ib i = Some x" "io_blk io (ei_phys x) = Some b" "orig_extents (io_blk io) k b = Some es1"
    "(if eh_entries (header_at b) < 340 then Some es1 else map_option (\<lambda>es'. es1 @ es') (slot_extents (io_blk io) k ib is)) = Some es"
    using Cons.prems(1) by (auto simp: bind_eq_Some_conv)
  obtain es2 where es: "es = es1 @ es2"
    "if eh_entries (header_at b) < 340 then es2 = [] else slot_extents (io_blk io) k ib is = Some es2"
    using x(4) by (auto split: if_splits)
  have "copied dev bs fd es1 st (orig_extent_tree_travel k fuel io bs fd b st)"
    using orig_travel_copies [OF assms x(3)] Cons.prems(2,3) es by simp
  moreover have "copied dev bs fd es2 st' (if eh_entries (header_at b) < 340 then Done (True, st')
      else orig_slot_loop io (orig_extent_tree_travel k fuel io bs fd) ib is st')" if "o_files st' fd \<noteq> None" for st'
    using that es Cons.IH [of es2 st'] Cons.prems(2) by (auto intro: copies_nil)
  ultimately show ?case using copies_bind x(1,2) es(1) by simp
qed (auto intro: copies_nil)

section \<open>Output names\<close>

lemma udec_not_minus: "udec n = ''-'' @ xs \<Longrightarrow> False"
  using udec_digits [of n] by (auto simp: is_digit_def)

lemma orig_name_inj: "orig_name a = orig_name b \<Longrightarrow> a = b"
proof -
  assume "orig_name a = orig_name b"
  then have e: "(if sint a < 0 then ''-'' @ udec (nat (- sint a)) else udec (unat a)) =
      (if sint b < 0 then ''-'' @ udec (nat (- sint b)) else udec (unat b))"
    unfolding orig_name_def by (simp only: same_append_eq append_same_eq)
  show "a = b"
  proof (cases "sint a < 0")
    case True
    then have b: "sint b < 0" using e True udec_not_minus [of "unat b" "udec (nat (- sint a))"] by (auto split: if_splits)
    then have "nat (- sint a) = nat (- sint b)" using True e udec_inj by simp
    then have "sint a = sint b" using True b by simp
    then show ?thesis by (simp only: signed_word_eqI)
  next
    case False
    then have "\<not> sint b < 0" using e False udec_not_minus [of "unat a" "udec (nat (- sint b))"] by (auto split: if_splits)
    then show ?thesis using False e udec_inj by (metis word_unat_eq_iff)
  qed
qed

section \<open>The whole run\<close>

text \<open>An inode that the run recovers, and what it copies.\<close>

definition wanted :: "disk_io \<Rightarrow> nat \<Rightarrow> bool" where
  "wanted io n \<longleftrightarrow> (case io_inode io (of_nat n) of None \<Rightarrow> False | Some inode \<Rightarrow> \<not> is_inode_extent_clear inode)"

definition run_ok :: "disk_io \<Rightarrow> buffer \<Rightarrow> nat \<Rightarrow> nat \<Rightarrow> (nat \<Rightarrow> ext3_extent list) \<Rightarrow> nat \<Rightarrow> bool" where
  "run_ok io dev bs k es n \<longleftrightarrow> io_open io (orig_name (of_nat n)) \<and>
     (\<exists>ib. io_extent_open io (of_nat n) = Some ib \<and> slot_extents (io_blk io) k ib [0..<4] = Some (es n)) \<and>
     (\<forall>e \<in> set (es n). copy_on_device dev bs e)"

lemma orig_inode_loop_exact:
  assumes io: "orig_faithful io dev" "bs < fuel"
  shows "\<forall>n \<in> set ns. wanted io n \<longrightarrow> run_ok io dev bs k es n \<Longrightarrow>
    \<exists>st'. orig_inode_loop k fuel io bs ns st = Done (Status 0, st') \<and>
      o_files st' = foldl (\<lambda>fs n. if wanted io n then fs(orig_name (of_nat n) \<mapsto> foldl (copy_extent dev bs) [] (es n)) else fs) (o_files st) ns"
proof (induction ns arbitrary: st)
  case (Cons n ns)
  let ?st = "st\<lparr>o_flag := False\<rparr>"
  let ?F = "\<lambda>fs n. if wanted io n then fs(orig_name (of_nat n) \<mapsto> foldl (copy_extent dev bs) [] (es n)) else fs"
  have rest: "\<forall>n \<in> set ns. wanted io n \<longrightarrow> run_ok io dev bs k es n" using Cons.prems by simp
  show ?case
  proof (cases "wanted io n")
    case False
    then have "orig_inode_loop k fuel io bs (n # ns) st = orig_inode_loop k fuel io bs ns ?st"
      by (simp add: wanted_def Let_def split: option.splits)
    then show ?thesis using Cons.IH [OF rest, of ?st] False by simp
  next
    case True
    let ?fn = "orig_name (of_nat n)" and ?c = "foldl (copy_extent dev bs) [] (es n)"
    let ?st1 = "?st\<lparr>o_files := (o_files st)(?fn \<mapsto> []), o_out_pos := 0\<rparr>"
    obtain inode where i: "io_inode io (of_nat n) = Some inode" "\<not> is_inode_extent_clear inode"
      using True by (auto simp: wanted_def split: option.splits)
    obtain ib where ib: "io_open io ?fn" "io_extent_open io (of_nat n) = Some ib"
      "slot_extents (io_blk io) k ib [0..<4] = Some (es n)" "\<forall>e \<in> set (es n). copy_on_device dev bs e"
      using Cons.prems True by (auto simp: run_ok_def)
    have "copied dev bs ?fn (es n) ?st1 (orig_slot_loop io (orig_extent_tree_travel k fuel io bs ?fn) ib [0..<4] ?st1)"
      by (rule orig_slot_loop_copies [OF io ib(3,4)]) simp
    then obtain st2 where st2: "prase_ino_extent k fuel io bs ?fn ib ?st1 = Done (True, st2)" "o_files st2 = (o_files st)(?fn \<mapsto> ?c)"
      using io(1) by (auto simp: copied_iff prase_ino_extent_def orig_faithful_def)
    have "orig_inode_loop k fuel io bs (n # ns) st = orig_inode_loop k fuel io bs ns st2"
      using i ib st2(1) by (simp add: Let_def)
    moreover have "foldl ?F (o_files st) (n # ns) = foldl ?F (o_files st2) ns" by (simp only: foldl_Cons True if_True st2(2))
    ultimately show ?thesis using Cons.IH [OF rest, of st2] by (simp only:)
  qed
qed simp

lemma foldl_updates:
  assumes "inj_on g (set ns)"
  shows "foldl (\<lambda>fs n. if P n then fs(g n \<mapsto> c n) else fs) fs ns x =
    (case find (\<lambda>n. P n \<and> g n = x) ns of None \<Rightarrow> fs x | Some n \<Rightarrow> Some (c n))"
  using assms
proof (induction ns arbitrary: fs)
  case (Cons n ns)
  have "find (\<lambda>m. P m \<and> g m = x) ns = Some m \<Longrightarrow> g n = x \<Longrightarrow> n = m" for m
    using Cons.prems by (auto simp: find_Some_iff inj_on_def)
  then show ?case using Cons by (auto split: option.splits)
qed simp

section \<open>Past the end of the device\<close>

lemma loops_defined:
  "read_dev fuel io bs od acc st \<noteq> Undefined" "write_ino fuel io bs fd oi buf offset st \<noteq> Undefined"
  by (induction fuel arbitrary: acc st offset) (auto simp: Let_def split: option.splits)

lemma write_ino_dev_pos: "write_ino fuel io bs fd oi buf offset st = Done st' \<Longrightarrow> o_dev_pos st' = o_dev_pos st"
  by (induction fuel arbitrary: st offset) (fastforce simp: Let_def seek_out_def split: option.splits if_splits)+

lemma read_dev_pos:
  assumes "orig_faithful io dev"
  shows "read_dev fuel io bs od acc st = Done (b, st') \<Longrightarrow> length acc \<le> bs \<Longrightarrow> o_dev_pos st + (bs - length acc) \<le> length dev \<Longrightarrow>
    o_dev_pos st' = o_dev_pos st + (bs - length acc)"
proof (induction fuel arbitrary: acc st)
  case (Suc fuel)
  show ?case
  proof (cases "length acc < bs")
    case True
    then have n: "0 < bs - length acc" by simp
    obtain d where d: "io_read io (o_calls st) (o_dev_pos st) (bs - length acc) = Some d" "length d \<le> bs - length acc"
      using faithful_read [OF assms n Suc.prems(3)] by metis
    have "o_dev_pos st' = o_dev_pos st + length d + (bs - length (acc @ d))"
      using Suc.IH [of "acc @ d" "st\<lparr>o_calls := o_calls st + 1, o_dev_pos := o_dev_pos st + length d\<rparr>"] Suc.prems True d
      by (simp add: Let_def)
    then show ?thesis using d(2) True by simp
  qed (use Suc.prems in auto)
qed simp

lemma read_dev_past:
  assumes "orig_faithful io dev" and eof: "\<And>c off n. length dev \<le> off \<Longrightarrow> io_read io c off n = Some []"
  shows "o_dev_pos st \<le> length dev \<Longrightarrow> length dev < o_dev_pos st + (bs - length acc) \<Longrightarrow> read_dev fuel io bs od acc st = Running"
proof (induction fuel arbitrary: acc st)
  case (Suc fuel)
  let ?n = "bs - length acc" and ?p = "o_dev_pos st"
  have n: "0 < ?n" "length acc < bs" using Suc.prems by auto
  obtain d where d: "io_read io (o_calls st) ?p ?n = Some d" "length d \<le> ?n" "?p + length d \<le> length dev"
  proof (cases "?p < length dev")
    case True
    then obtain m where "m \<le> ?n" "io_read io (o_calls st) ?p ?n = Some (take m (drop ?p dev))"
      using assms(1) n(1) unfolding orig_faithful_def by blast
    then show thesis using that True by auto
  next
    case False
    then show thesis using that eof Suc.prems(1) by simp
  qed
  let ?st = "st\<lparr>o_calls := o_calls st + 1, o_dev_pos := ?p + length d\<rparr>"
  have "read_dev fuel io bs od (acc @ d) ?st = Running"
    by (rule Suc.IH) (use d Suc.prems in auto)
  then show ?case using n(2) d(1) by (simp add: Let_def)
qed simp

lemma orig_copy_loop_past:
  assumes "orig_faithful io dev" and eof: "\<And>c off n. length dev \<le> off \<Longrightarrow> io_read io c off n = Some []"
  shows "o_dev_pos st \<le> length dev \<Longrightarrow> length dev < o_dev_pos st + n * bs \<Longrightarrow> orig_copy_loop fuel io bs fd od oi n st = Running"
proof (induction n arbitrary: st)
  case (Suc n)
  show ?case
  proof (cases "length dev < o_dev_pos st + bs")
    case True
    then have "read_dev fuel io bs od [] st = Running" using read_dev_past [OF assms Suc.prems(1), of bs "[]"] by simp
    then show ?thesis by simp
  next
    case False
    show ?thesis
    proof (cases "read_dev fuel io bs od [] st")
      case (Done r)
      obtain b st1 where r: "r = (b, st1)" by (cases r)
      then have p1: "o_dev_pos st1 = o_dev_pos st + bs" using read_dev_pos [OF assms(1)] Done False by fastforce
      show ?thesis
      proof (cases "write_ino fuel io bs fd oi b bs st1")
        case D: (Done st2)
        have "o_dev_pos st2 = o_dev_pos st + bs" using write_ino_dev_pos [OF D] p1 by simp
        then have "orig_copy_loop fuel io bs fd od oi n st2 = Running" using Suc.IH [of st2] Suc.prems(2) False by simp
        then show ?thesis using Done D r by simp
      qed (use Done r loops_defined in auto)
    qed (use loops_defined in auto)
  qed
qed simp

section \<open>Properties\<close>

text \<open>Property C30: a run of the first version is exact.  Let the device be free of read errors, and let every inode it selects (a deleted regular file whose first
  index entry survives) have an output that opens and a readable tree whose extents lie on the
  device.  Then, with more fuel than bytes in a block, the program ends with status 0, the output of
  every selected inode holds exactly the extents its tree reaches, at their logical offsets, whatever the
  file held before, and no other file changes.\<close>

theorem orig_main_exact:
  assumes io: "orig_faithful io dev" "bs < fuel"
    and host: "oh_fs h = Inr (bs, imax)" "oh_open h" "oh_mkdir h" "orig_is_on_device (oh_stat_dir h) (oh_stat_dev h) \<noteq> 1"
    and run: "\<And>n. 3 \<le> n \<Longrightarrow> n < unat (imax + 1) \<Longrightarrow> wanted io n \<Longrightarrow> run_ok io dev bs k es n"
  shows "\<exists>fs. orig_main k fuel 2 h io fs0 = Done (Status 0, fs) \<and>
    (\<forall>n. 3 \<le> n \<longrightarrow> n < unat (imax + 1) \<longrightarrow> wanted io n \<longrightarrow>
       fs (orig_name (of_nat n)) = Some (foldl (copy_extent dev bs) [] (es n))) \<and>
    (\<forall>x. (\<forall>n. 3 \<le> n \<longrightarrow> n < unat (imax + 1) \<longrightarrow> wanted io n \<longrightarrow> x \<noteq> orig_name (of_nat n)) \<longrightarrow> fs x = fs0 x)"
proof -
  let ?ns = "[3..<unat (imax + 1)]" and ?g = "\<lambda>n. orig_name (of_nat n)"
  let ?st = "\<lparr>o_files = fs0, o_dev_pos = 0, o_out_pos = 0, o_calls = 0, o_flag = False\<rparr>"
  let ?c = "\<lambda>n. foldl (copy_extent dev bs) [] (es n)"
  define fs where "fs = foldl (\<lambda>fs n. if wanted io n then fs(?g n \<mapsto> ?c n) else fs) fs0 ?ns"
  have "\<forall>n \<in> set ?ns. wanted io n \<longrightarrow> run_ok io dev bs k es n" using run by simp
  from orig_inode_loop_exact [OF io this, of ?st] have m: "orig_main k fuel 2 h io fs0 = Done (Status 0, fs)"
    using host by (auto simp: orig_main_def fs_def)
  have lt: "n < 2 ^ 32" if "n \<in> set ?ns" for n using that u32_less [of "imax + 1"] by simp
  have inj: "inj_on ?g (set ?ns)"
  proof (rule inj_onI)
    fix a b assume ab: "a \<in> set ?ns" "b \<in> set ?ns" "?g a = ?g b"
    then have "(of_nat a :: u32) = of_nat b" using orig_name_inj by blast
    then have "unat (of_nat a :: u32) = unat (of_nat b :: u32)" by simp
    then show "a = b" using lt [OF ab(1)] lt [OF ab(2)] by (simp add: unat_of_nat)
  qed
  have look: "fs x = (case find (\<lambda>n. wanted io n \<and> ?g n = x) ?ns of None \<Rightarrow> fs0 x | Some n \<Rightarrow> Some (?c n))" for x
    unfolding fs_def using foldl_updates [OF inj] .
  have "fs (?g n) = Some (?c n)" if n: "3 \<le> n" "n < unat (imax + 1)" "wanted io n" for n
  proof -
    have ns: "n \<in> set ?ns" using n by simp
    then have "find (\<lambda>m. wanted io m \<and> ?g m = ?g n) ?ns \<noteq> None" using n(3) by (auto simp: find_None_iff)
    then obtain m where m: "find (\<lambda>m. wanted io m \<and> ?g m = ?g n) ?ns = Some m" by blast
    then have "m \<in> set ?ns" "?g m = ?g n" by (auto simp: find_Some_iff)
    then have "m = n" using inj ns by (auto simp: inj_on_def)
    then show ?thesis using look [of "?g n"] m by simp
  qed
  moreover have "fs x = fs0 x"
    if "\<forall>n. 3 \<le> n \<longrightarrow> n < unat (imax + 1) \<longrightarrow> wanted io n \<longrightarrow> x \<noteq> ?g n" for x
  proof -
    have "find (\<lambda>n. wanted io n \<and> ?g n = x) ?ns = None" using that by (auto simp: find_None_iff)
    then show ?thesis using look [of x] by simp
  qed
  ultimately show ?thesis using m by blast
qed

text \<open>A device of three blocks: data in block 1 and a leaf in block 2, which the deleted inode 7 still names.\<close>

definition leaf340 :: buffer where
  "leaf340 = le_bytes 2 0xF30A @ le_bytes 2 1 @ le_bytes 2 340 @ le_bytes 2 0 @ le_bytes 4 0 @
             le_bytes 4 0 @ le_bytes 2 1 @ le_bytes 2 0 @ le_bytes 4 1"

definition first_dev :: buffer where
  "first_dev = replicate 24 0 @ map of_nat [1..<25] @ leaf340"

definition first_io :: disk_io where
  "first_io = \<lparr>io_read = \<lambda>c off n. Some (take n (drop off first_dev)), io_write = \<lambda>c fd off n. Some n, io_seek = \<lambda>_. True,
     io_seek_out = \<lambda>_ _. True, io_open = \<lambda>_. True, io_mem = \<lambda>_. True,
     io_blk = \<lambda>b. if b = 2 then Some leaf340 else None,
     io_inode = \<lambda>n. if n = 7 then Some (tree_inode\<lparr>i_block := idx_node 2, i_mode := 0x81A4, i_links_count := 0\<rparr>) else None,
     io_extent_open = \<lambda>n. if n = 7 then Some (idx_node 2) else None\<rparr>"

lemma first_io_ok: "orig_faithful first_io first_dev"
proof -
  have l: "length first_dev = 72" by (simp add: first_dev_def leaf340_def)
  then show ?thesis unfolding orig_faithful_def by (auto simp: first_io_def)
qed

definition first_extent :: ext3_extent where
  "first_extent = \<lparr>ee_block = 0, ee_len = 1, ee_start_hi = 0, ee_start = 1\<rparr>"

lemma first_example:
  "slot_extents (io_blk first_io) 1 (idx_node 2) [0..<4] = Some [first_extent]"
  "wanted first_io n \<longleftrightarrow> (of_nat n :: u32) = 7"
  "copy_extent first_dev 24 [] first_extent = map of_nat [1..<25]" "copy_on_device first_dev 24 first_extent"
proof -
  have i: "idx_at (idx_node 2) 0 = Some \<lparr>ei_block = 0, ei_leaf = 2, ei_leaf_hi = 0\<rparr>" "le32_at (idx_node 2) 16 = 2"
    by (simp_all add: idx_node_def idx_at_def le16_at_def le32_at_def sub_buf_def)
  have h: "header_at leaf340 = \<lparr>eh_magic = 0xF30A, eh_entries = 1, eh_max = 340, eh_depth = 0\<rparr>"
    "extent_at leaf340 0 = Some first_extent"
    by (simp_all add: leaf340_def header_at_def extent_at_def le16_at_def le32_at_def sub_buf_def first_extent_def)
  have r: "[0..<4] = [0, 1, 2, 3 :: nat]" by (simp add: upt_rec)
  show "slot_extents (io_blk first_io) 1 (idx_node 2) [0..<4] = Some [first_extent]"
    using i h by (simp add: r first_io_def ei_phys_def orig_leaf_def leaf_accepted_def EXT4_EXT_MAGIC_def extents_at_def)
  show "wanted first_io n \<longleftrightarrow> (of_nat n :: u32) = 7"
    using i by (simp add: wanted_def first_io_def is_inode_extent_clear_def LINUX_S_ISREG_def)
  have "sub_buf first_dev 24 24 = map of_nat [1..<25]" by (simp add: first_dev_def sub_buf_def)
  then show "copy_extent first_dev 24 [] first_extent = map of_nat [1..<25]"
    by (simp add: copy_extent_def first_extent_def ee_phys_def file_write_def)
  show "copy_on_device first_dev 24 first_extent"
    by (simp add: copy_on_device_def first_extent_def ee_phys_def first_dev_def leaf340_def)
qed

theorem orig_main_exact_witness:
  "\<exists>fs. orig_main 1 25 2 \<lparr>oh_fs = Inr (24, 7), oh_open = True, oh_mkdir = True, oh_stat_dir = Some 1, oh_stat_dev = Some (True, 2)\<rparr>
     first_io Map.empty = Done (Status 0, fs) \<and> fs ''./RECOVER/7_file'' = Some (map of_nat [1..<25])"
proof -
  let ?h = "\<lparr>oh_fs = Inr (24, 7), oh_open = True, oh_mkdir = True, oh_stat_dir = Some 1, oh_stat_dev = Some (True, 2)\<rparr>"
  have run: "run_ok first_io first_dev 24 1 (\<lambda>_. [first_extent]) n" if "3 \<le> n" "n < unat (7 + 1 :: u32)" "wanted first_io n" for n
    using that first_example by (simp add: run_ok_def first_io_def)
  have nm: "orig_name 7 = ''./RECOVER/7_file''" by code_simp
  have "\<exists>fs. orig_main 1 25 2 ?h first_io Map.empty = Done (Status 0, fs) \<and>
      (\<forall>n. 3 \<le> n \<longrightarrow> n < unat (7 + 1 :: u32) \<longrightarrow> wanted first_io n \<longrightarrow>
         fs (orig_name (of_nat n)) = Some (foldl (copy_extent first_dev 24) [] [first_extent]))"
    using orig_main_exact [OF first_io_ok, of 24 25 ?h 7 1 "\<lambda>_. [first_extent]" Map.empty] run
    by (auto simp: orig_is_on_device_def)
  then obtain fs where fs: "orig_main 1 25 2 ?h first_io Map.empty = Done (Status 0, fs)"
    "\<And>n. 3 \<le> n \<Longrightarrow> n < unat (7 + 1 :: u32) \<Longrightarrow> wanted first_io n \<Longrightarrow>
       fs (orig_name (of_nat n)) = Some (foldl (copy_extent first_dev 24) [] [first_extent])" by blast
  from fs(2) [of 7] show ?thesis using fs(1) first_example nm by simp
qed

text \<open>An extent that reaches past the end of the device is copied forever.  At the end of the device \<open>read\<close> returns 0, which the retry loop
  does not distinguish from progress; no amount of fuel suffices.\<close>

theorem orig_copy_endless:
  assumes "orig_faithful io dev" and "\<And>c off n. length dev \<le> off \<Longrightarrow> io_read io c off n = Some []"
    and "unat (ee_phys e) * bs \<le> length dev" and "length dev < (unat (ee_phys e) + unat (ee_len e)) * bs"
  shows "orig_recover_block_to_file fuel io bs fd (ee_block e) (ee_len e) (ee_phys e) st = Running"
proof -
  let ?e = "e\<lparr>ee_len := 0\<rparr>"
  have l: "length dev < 2 ^ 63" using assms(1) by (simp add: orig_faithful_def)
  have "copy_on_device dev bs ?e" using assms(3) by (simp add: copy_on_device_def ee_phys_def)
  from ee_fits [OF this l] have f: "unat (ee_phys e * of_nat bs :: u64) = unat (ee_phys e) * bs" "\<not> sint (ee_phys e * of_nat bs :: u64) < 0"
    by (simp_all add: ee_phys_def)
  have sk: "io_seek io (unat (ee_phys e) * bs)" "\<And>off. io_seek_out io fd off"
    using assms(1,3) by (simp_all add: orig_faithful_def)
  have "orig_copy_loop fuel io bs fd (unat (ee_phys e) * bs) (unat (ee_block e) * bs) (unat (ee_len e))
      (st\<lparr>o_dev_pos := unat (ee_phys e) * bs, o_out_pos := unat (ee_block e) * bs\<rparr>) = Running"
    by (rule orig_copy_loop_past [OF assms(1,2)]) (use assms(3,4) in \<open>simp_all add: distrib_right\<close>)
  then show ?thesis using f sk by (simp add: orig_recover_block_to_file_def Let_def seek_dev_def seek_out_def)
qed

theorem orig_copy_endless_witness:
  "orig_recover_block_to_file 1000 first_io 24 ''f'' 0 2 2
     \<lparr>o_files = Map.empty, o_dev_pos = 0, o_out_pos = 0, o_calls = 0, o_flag = False\<rparr> = Running"
proof -
  let ?e = "\<lparr>ee_block = 0, ee_len = 2, ee_start_hi = 0, ee_start = 2\<rparr>"
  have l: "length first_dev = 72" by (simp add: first_dev_def leaf340_def)
  show ?thesis
    using orig_copy_endless [OF first_io_ok, of ?e 24 1000 "''f''"] l by (simp add: first_io_def ee_phys_def)
qed

end
