(* ===== verification/Version_Agreement.thy ===== *)
theory Version_Agreement
  imports Original_Recover
begin

text \<open>
  The first version of the program against the current one: on trees both accept, the walks of
  \<^verbatim>\<open>original/src/ext4recover.c\<close> and \<^verbatim>\<open>improved/ext4recover_v5.c\<close> copy the same extents and leave the same file.
\<close>

section \<open>Trees both versions accept\<close>

text \<open>Leaves of the 4096-byte format without empty or unwritten extents, levels that count down, and pointers inside the file
  system.\<close>

primrec uniform_tree :: "(blk64_t \<Rightarrow> buffer option) \<Rightarrow> blk64_t \<Rightarrow> nat \<Rightarrow> buffer \<Rightarrow> bool" where
  "uniform_tree rd tot 0 buf \<longleftrightarrow>
     (let eh = header_at buf in
      eh_depth eh = 0 \<and> eh_magic eh = EXT4_EXT_MAGIC \<and> eh_max eh = 340 \<and> eh_entries eh \<le> 340 \<and>
      (case extents_at buf (unat (eh_entries eh)) of None \<Rightarrow> False
       | Some es \<Rightarrow> list_all (\<lambda>e. ee_len e \<noteq> 0 \<and> ee_len e \<le> 32768 \<and> ee_phys e \<noteq> 0) es))"
| "uniform_tree rd tot (Suc n) buf \<longleftrightarrow>
     (let eh = header_at buf in
      unat (eh_depth eh) = Suc n \<and> Suc n \<le> 4 \<and>
      (case idxs_at buf (unat (eh_entries eh)) of None \<Rightarrow> False
       | Some is \<Rightarrow> list_all (\<lambda>ix. 1 \<le> ei_phys ix \<and> ei_phys ix < tot \<and>
            (case rd (ei_phys ix) of None \<Rightarrow> False | Some b \<Rightarrow> uniform_tree rd tot n b)) is))"

text \<open>A root whose children are full except the last.\<close>

definition packed_root :: "(blk64_t \<Rightarrow> buffer option) \<Rightarrow> blk64_t \<Rightarrow> nat \<Rightarrow> buffer \<Rightarrow> bool" where
  "packed_root rd tot n root \<longleftrightarrow>
     (let m = unat (eh_entries (header_at root)) in
      0 < m \<and> m \<le> 4 \<and>
      (case idxs_at root m of None \<Rightarrow> False
       | Some is \<Rightarrow> list_all (\<lambda>i. 1 \<le> ei_phys (is ! i) \<and> ei_phys (is ! i) < tot \<and>
            (case rd (ei_phys (is ! i)) of None \<Rightarrow> False
             | Some b \<Rightarrow> uniform_tree rd tot n b \<and>
                 (if i + 1 < m then eh_entries (header_at b) = 340 else m = 4 \<or> eh_entries (header_at b) < 340))) [0..<m]))"

lemma those_map_all: "(\<And>x. x \<in> set xs \<Longrightarrow> f x = Some (g x)) \<Longrightarrow> those (map f xs) = Some (map g xs)"
  by (induction xs) auto

lemma uniform_agree:
  assumes rd: "\<And>b. b < tot \<Longrightarrow> rd b = Some (sub_buf dev (unat b * bs) bs)" and bs: "340 \<le> calculate_max_entries (int bs) True"
  shows "uniform_tree rd tot n buf \<Longrightarrow>
    \<exists>es. orig_extents rd (Suc n) buf = Some es \<and> tree_extents dev bs tot n buf = Some es \<and> (\<forall>e \<in> set es. ee_len e \<le> 32768)"
proof (induction n arbitrary: buf)
  case 0
  then obtain es where es: "extents_at buf (unat (eh_entries (header_at buf))) = Some es"
    "\<forall>e \<in> set es. ee_len e \<noteq> 0 \<and> ee_len e \<le> 32768 \<and> ee_phys e \<noteq> 0"
    by (auto simp: Let_def list_all_iff split: option.splits)
  have e: "eh_entries (header_at buf) \<le> 340" using 0 by (simp add: Let_def)
  then have "uint (eh_entries (header_at buf)) \<le> uint (340 :: u16)" by (simp only: word_le_def)
  then have "uint (eh_entries (header_at buf)) \<le> calculate_max_entries (int bs) True" using bs by simp
  moreover have "filter (\<lambda>e. ee_len e \<noteq> 0 \<and> ee_phys e \<noteq> 0) es = es" using es(2) by simp
  ultimately show ?case using 0 es by (auto simp: Let_def orig_leaf_def leaf_accepted_def leaf_extents_def)
next
  case (Suc n)
  let ?c = "\<lambda>ix. sub_buf dev (unat (ei_phys ix) * bs) bs"
  obtain xs where xs: "idxs_at buf (unat (eh_entries (header_at buf))) = Some xs"
    and ok: "\<And>ix. ix \<in> set xs \<Longrightarrow> 1 \<le> ei_phys ix \<and> ei_phys ix < tot \<and> rd (ei_phys ix) = Some (?c ix) \<and> uniform_tree rd tot n (?c ix)"
    using Suc.prems rd by (fastforce simp: Let_def list_all_iff split: option.splits)
  let ?P = "\<lambda>ix es. orig_extents rd (Suc n) (?c ix) = Some es \<and> tree_extents dev bs tot n (?c ix) = Some es \<and> (\<forall>e \<in> set es. ee_len e \<le> 32768)"
  have "\<forall>ix \<in> set xs. \<exists>es. ?P ix es" using Suc.IH ok by blast
  from bchoice [OF this] obtain E where "\<forall>ix \<in> set xs. ?P ix (E ix)" ..
  then have E: "\<And>ix. ix \<in> set xs \<Longrightarrow> ?P ix (E ix)" by (rule bspec)
  have d: "eh_depth (header_at buf) \<noteq> 0" "eh_depth (header_at buf) \<le> 4"
    using Suc.prems by (auto simp: Let_def word_le_nat_alt)
  have "those (map (\<lambda>ix. Option.bind (rd (ei_phys ix)) (orig_extents rd (Suc n))) xs) = Some (map E xs)"
    by (rule those_map_all) (use ok E in auto)
  moreover have "filter (\<lambda>b. 1 \<le> b \<and> b < tot) (map ei_phys xs) = map ei_phys xs" using ok by auto
  moreover have "those (map (\<lambda>ix. tree_extents dev bs tot n (?c ix)) xs) = Some (map E xs)"
    by (rule those_map_all) (use E in auto)
  ultimately have "orig_extents rd (Suc (Suc n)) buf = Some (concat (map E xs))"
      "tree_extents dev bs tot (Suc n) buf = Some (concat (map E xs))"
    using xs d by (simp_all add: Let_def comp_def orig_extents.simps(2) [of rd "Suc n"] del: orig_extents.simps)
  then show ?case using E by auto
qed

lemma slots_packed:
  assumes "m \<le> 4"
    and "\<And>i. i < m \<Longrightarrow> idx_at root i = Some (xs i) \<and> rd (ei_phys (xs i)) = Some (b i) \<and> orig_extents rd k (b i) = Some (E i)"
    and "\<And>i. i + 1 < m \<Longrightarrow> eh_entries (header_at (b i)) = 340"
    and "m = 4 \<or> eh_entries (header_at (b (m - 1))) < 340"
  shows "p < m \<Longrightarrow> slot_extents rd k root [p..<4] = Some (concat (map E [p..<m]))"
proof (induction "m - p" arbitrary: p)
  case (Suc d)
  have p: "p < 4" "[p..<4] = p # [p + 1..<4]" "[p..<m] = p # [p + 1..<m]"
    using Suc.prems assms(1) by (simp_all add: upt_conv_Cons)
  note x = assms(2) [OF Suc.prems]
  show ?case
  proof (cases "p + 1 < m")
    case True
    then have "slot_extents rd k root [p + 1..<4] = Some (concat (map E [p + 1..<m]))" using Suc.hyps by simp
    then show ?thesis unfolding p(2,3) using x assms(3) [OF True] by simp
  next
    case False
    then have m: "m = p + 1" using Suc.prems by simp
    then have e: "[p + 1..<m] = []" "m = 4 \<Longrightarrow> [p + 1..<4] = []" by simp_all
    show ?thesis unfolding p(2,3) e(1) using x assms(4) e(2) m by auto
  qed
qed simp

lemma packed_agree:
  assumes rd: "\<And>b. b < tot \<Longrightarrow> rd b = Some (sub_buf dev (unat b * bs) bs)" and bs: "340 \<le> calculate_max_entries (int bs) True"
    and root: "packed_root rd tot n root"
  shows "\<exists>es. slot_extents rd (Suc n) root [0..<4] = Some es \<and> tree_extents dev bs tot (Suc n) root = Some es \<and>
    (\<forall>e \<in> set es. ee_len e \<le> 32768)"
proof -
  let ?m = "unat (eh_entries (header_at root))"
  obtain xs where xs: "idxs_at root ?m = Some xs" using root by (auto simp: packed_root_def Let_def split: option.splits)
  let ?c = "\<lambda>i. sub_buf dev (unat (ei_phys (xs ! i)) * bs) bs"
  have m: "0 < ?m" "?m \<le> 4" using root by (auto simp: packed_root_def Let_def)
  have ok: "1 \<le> ei_phys (xs ! i) \<and> ei_phys (xs ! i) < tot \<and> rd (ei_phys (xs ! i)) = Some (?c i) \<and> uniform_tree rd tot n (?c i) \<and>
      (if i + 1 < ?m then eh_entries (header_at (?c i)) = 340 else ?m = 4 \<or> eh_entries (header_at (?c i)) < 340)" if "i < ?m" for i
  proof -
    let ?B = "\<lambda>i. 1 \<le> ei_phys (xs ! i) \<and> ei_phys (xs ! i) < tot \<and>
      (case rd (ei_phys (xs ! i)) of None \<Rightarrow> False
       | Some b \<Rightarrow> uniform_tree rd tot n b \<and>
           (if i + 1 < ?m then eh_entries (header_at b) = 340 else ?m = 4 \<or> eh_entries (header_at b) < 340))"
    have "list_all ?B [0..<?m]" using root xs by (simp add: packed_root_def Let_def)
    then have B: "?B i" using that by (simp add: list_all_iff)
    then have "rd (ei_phys (xs ! i)) = Some (?c i)" using rd by blast
    then show ?thesis using B by simp
  qed
  have len: "length xs = ?m" and nth: "\<And>i. i < ?m \<Longrightarrow> idx_at root i = Some (xs ! i)"
    using xs by (auto simp: idxs_at_def those_eq_Some)
  let ?P = "\<lambda>i es. orig_extents rd (Suc n) (?c i) = Some es \<and> tree_extents dev bs tot n (?c i) = Some es \<and> (\<forall>e \<in> set es. ee_len e \<le> 32768)"
  have "\<forall>i \<in> {..<?m}. \<exists>es. ?P i es" using uniform_agree [OF rd bs] ok by auto
  from bchoice [OF this] obtain E where "\<forall>i \<in> {..<?m}. ?P i (E i)" ..
  then have E: "\<And>i. i < ?m \<Longrightarrow> ?P i (E i)" by (rule bspec) simp
  have "slot_extents rd (Suc n) root [0..<4] = Some (concat (map E [0..<?m]))"
    by (rule slots_packed [OF m(2), where xs = "\<lambda>i. xs ! i" and b = ?c]) (use m nth ok E in \<open>auto simp del: orig_extents.simps\<close>)
  moreover have "tree_extents dev bs tot (Suc n) root = Some (concat (map E [0..<?m]))"
  proof -
    have xm: "xs = map (\<lambda>i. xs ! i) [0..<?m]" using len map_nth [of xs] by simp
    have "filter (\<lambda>b. 1 \<le> b \<and> b < tot) (map ei_phys xs) = map ei_phys xs"
      using ok len by (auto simp: filter_id_conv in_set_conv_nth)
    moreover have "those (map (\<lambda>i. tree_extents dev bs tot n (?c i)) [0..<?m]) = Some (map E [0..<?m])"
      by (rule those_map_all) (use E in auto)
    moreover have "map (\<lambda>b. tree_extents dev bs tot n (sub_buf dev (unat b * bs) bs)) (map ei_phys xs) =
        map (\<lambda>i. tree_extents dev bs tot n (?c i)) [0..<?m]"
      by (subst xm) (simp add: comp_def)
    ultimately show ?thesis using xs by simp
  qed
  ultimately show ?thesis using E by auto
qed

lemma init_len_le: "l \<le> 32768 \<Longrightarrow> init_len l = l"
  by (simp add: init_len_def)

lemma copy_is_write: "\<forall>e \<in> set es. ee_len e \<le> 32768 \<Longrightarrow> foldl (copy_extent dev bs) f es = foldl (write_extent dev bs) f es"
  by (rule foldl_cong) (auto simp: copy_extent_def write_extent_def init_len_le)

section \<open>Properties\<close>

text \<open>Property C11: the two versions agree.  On a device that both read without errors, let the root hold up to four index
  entries whose subtrees count their levels down and whose children are full except the last, with leaves in the
  format of 4096-byte blocks, no unwritten extents and every extent on the device.  Then the walk of the current
  version and that of the first version both succeed, and they leave the same bytes in the output.\<close>

theorem versions_agree:
  assumes old: "orig_faithful io dev" "bs < fuel" "o_files st fd = Some []"
    and new: "io_ok env dev" "block_reads_ok env dev c" "files c fd = Some []" "blocksize c = bs"
    and dev: "\<And>b. b < total_blocks c \<Longrightarrow> io_blk io b = Some (sub_buf dev (unat b * bs) bs)"
      "340 \<le> calculate_max_entries (int bs) True"
    and tree: "packed_root (io_blk io) (total_blocks c) n root"
      "\<And>es e. tree_extents dev bs (total_blocks c) (Suc n) root = Some es \<Longrightarrow> e \<in> set es \<Longrightarrow> extent_on_device dev bs e"
  shows "\<exists>c' st' f. extent_tree_travel env fd (Suc n) root c = Some (True, c') \<and> files c' fd = Some f \<and>
    prase_ino_extent (Suc n) fuel io bs fd root st = Done (True, st') \<and> o_files st' fd = Some f"
proof -
  obtain es where es: "slot_extents (io_blk io) (Suc n) root [0..<4] = Some es"
    "tree_extents dev bs (total_blocks c) (Suc n) root = Some es" "\<forall>e \<in> set es. ee_len e \<le> 32768"
    using packed_agree [OF dev tree(1)] by blast
  have on: "\<forall>e \<in> set es. extent_on_device dev bs e" using tree(2) [OF es(2)] by blast
  obtain c' where c': "extent_tree_travel env fd (Suc n) root c = Some (True, c')" "wrote dev fd es c c'"
    using extent_tree_travel_wrote [OF new(1), of c "Suc n" root es fd] es(2) on new(2-4) by auto
  have "\<forall>e \<in> set es. copy_on_device dev bs e"
    using on es(3) by (auto simp: copy_on_device_def extent_on_device_def init_len_le)
  from orig_slot_loop_copies [OF old(1,2) es(1) this, of st fd]
  obtain st' where st': "prase_ino_extent (Suc n) fuel io bs fd root st = Done (True, st')"
    "o_files st' = (o_files st)(fd \<mapsto> foldl (copy_extent dev bs) [] es)"
    using old(1,3) by (auto simp: copied_iff prase_ino_extent_def orig_faithful_def)
  have "files c' fd = Some (foldl (write_extent dev bs) [] es)" using c'(2) new(3,4) by (simp add: wrote_def)
  moreover have "o_files st' fd = Some (foldl (write_extent dev bs) [] es)"
    unfolding st'(2) copy_is_write [OF es(3)] by simp
  ultimately show ?thesis using c'(1) st'(1) by blast
qed

text \<open>Three blocks of 4096 bytes: block 1 holds data, block 2 a leaf with one extent.\<close>

definition big_dev :: buffer where
  "big_dev = replicate 4096 0 @ replicate 4096 7 @ leaf340 @ replicate 4072 0"

definition big_io :: disk_io where
  "big_io = first_io\<lparr>io_read := \<lambda>c off n. Some (take n (drop off big_dev)),
     io_blk := \<lambda>b. if b < 3 then Some (sub_buf big_dev (unat b * 4096) 4096) else None\<rparr>"

definition big_env :: env where
  "big_env = (ideal_env big_dev)\<lparr>dev_pread := \<lambda>off n. take n (drop off big_dev)\<rparr>"

lemma big_example:
  "length big_dev = 12288" "orig_faithful big_io big_dev" "io_ok big_env big_dev"
  "block_reads_ok big_env big_dev ((base_ctx 4096 3)\<lparr>files := fs\<rparr>)"
  "sub_buf big_dev 8192 4096 = leaf340 @ replicate 4072 0"
proof -
  have l3: "length leaf340 = 24" by (simp add: leaf340_def)
  show l: "length big_dev = 12288" by (simp add: big_dev_def l3)
  show "orig_faithful big_io big_dev" unfolding orig_faithful_def l by (auto simp: big_io_def first_io_def)
  have "dev_faithful big_env big_dev" unfolding dev_faithful_def by (auto simp: big_env_def)
  then show "io_ok big_env big_dev" by (auto simp: io_ok_def out_faithful_def big_env_def ideal_env_def)
  show "block_reads_ok big_env big_dev ((base_ctx 4096 3)\<lparr>files := fs\<rparr>)"
  proof (unfold block_reads_ok_def, intro allI impI)
    fix b assume "b < total_blocks ((base_ctx 4096 3)\<lparr>files := fs\<rparr>)"
    then have "unat b < 3" by (simp add: base_ctx_def word_less_nat_alt)
    then have "unat b * 4096 + 4096 \<le> length big_dev" unfolding l by linarith
    then show "pread_block big_env ((base_ctx 4096 3)\<lparr>files := fs\<rparr>) b = Some (sub_buf big_dev
        (unat b * blocksize ((base_ctx 4096 3)\<lparr>files := fs\<rparr>)) (blocksize ((base_ctx 4096 3)\<lparr>files := fs\<rparr>)))"
      by (simp add: pread_block_def big_env_def base_ctx_def sub_buf_def Let_def)
  qed
  have "big_dev = (replicate 4096 0 @ replicate 4096 7) @ leaf340 @ replicate 4072 0" by (simp add: big_dev_def)
  moreover have "length (replicate 4096 0 @ replicate 4096 7 :: buffer) = 8192" by simp
  ultimately have "drop 8192 big_dev = leaf340 @ replicate 4072 0" by (metis append_eq_conv_conj)
  then show "sub_buf big_dev 8192 4096 = leaf340 @ replicate 4072 0" by (simp add: sub_buf_def l3)
qed

lemma big_tree:
  "packed_root (io_blk big_io) 3 0 (idx_node 2)"
  "tree_extents big_dev 4096 3 1 (idx_node 2) = Some [first_extent]" "extent_on_device big_dev 4096 first_extent"
proof -
  let ?leaf = "leaf340 @ replicate 4072 0"
  have n: "header_at (idx_node 2) = \<lparr>eh_magic = 0xF30A, eh_entries = 1, eh_max = 4, eh_depth = 1\<rparr>"
    "idx_at (idx_node 2) 0 = Some \<lparr>ei_block = 0, ei_leaf = 2, ei_leaf_hi = 0\<rparr>"
    by (simp_all add: idx_node_def idx_at_def header_at_def le16_at_def le32_at_def sub_buf_def)
  have h: "header_at ?leaf = \<lparr>eh_magic = 0xF30A, eh_entries = 1, eh_max = 340, eh_depth = 0\<rparr>"
    "extent_at ?leaf 0 = Some first_extent"
    by (simp_all add: leaf340_def header_at_def extent_at_def le16_at_def le32_at_def sub_buf_def first_extent_def)
  have u: "uniform_tree (io_blk big_io) 3 0 ?leaf"
    using h by (simp add: EXT4_EXT_MAGIC_def extents_at_def first_extent_def ee_phys_def)
  show "packed_root (io_blk big_io) 3 0 (idx_node 2)"
    using n u h(1) big_example(5)
    by (simp add: packed_root_def idxs_at_def ei_phys_def big_io_def first_io_def del: uniform_tree.simps)
  have "leaf_extents 4096 ?leaf = Some [first_extent]"
    using h by (simp add: leaf_extents_def calculate_max_entries_def EXT4_EXT_MAGIC_def extents_at_def first_extent_def ee_phys_def)
  then show "tree_extents big_dev 4096 3 1 (idx_node 2) = Some [first_extent]"
    using n big_example(5) by (simp add: idxs_at_def ei_phys_def)
  show "extent_on_device big_dev 4096 first_extent"
    unfolding extent_on_device_def big_example(1) by (simp add: first_extent_def ee_phys_def init_len_def)
qed

theorem versions_agree_witness:
  "\<exists>c' st' f. extent_tree_travel big_env ''f'' 1 (idx_node 2) ((base_ctx 4096 3)\<lparr>files := [''f'' \<mapsto> []]\<rparr>) = Some (True, c') \<and>
     files c' ''f'' = Some f \<and>
     prase_ino_extent 1 4097 big_io 4096 ''f'' (idx_node 2)
       \<lparr>o_files = [''f'' \<mapsto> []], o_dev_pos = 0, o_out_pos = 0, o_calls = 0, o_flag = False\<rparr> = Done (True, st') \<and> o_files st' ''f'' = Some f"
proof -
  let ?c = "(base_ctx 4096 3)\<lparr>files := [''f'' \<mapsto> []]\<rparr>"
  let ?st = "\<lparr>o_files = [''f'' \<mapsto> []], o_dev_pos = 0, o_out_pos = 0, o_calls = 0, o_flag = False\<rparr>"
  have c: "blocksize ?c = 4096" "total_blocks ?c = 3" by (simp_all add: base_ctx_def)
  have blk: "io_blk big_io b = Some (sub_buf big_dev (unat b * 4096) 4096)" if "b < total_blocks ?c" for b
    using that c(2) by (simp add: big_io_def)
  have m: "340 \<le> calculate_max_entries (int 4096) True" by (simp add: calculate_max_entries_def)
  have t: "packed_root (io_blk big_io) (total_blocks ?c) 0 (idx_node 2)" using big_tree(1) c(2) by simp
  have on: "extent_on_device big_dev 4096 e"
    if "tree_extents big_dev 4096 (total_blocks ?c) (Suc 0) (idx_node 2) = Some es" "e \<in> set es" for es e
  proof -
    have "es = [first_extent]" using that(1) big_tree(2) unfolding c(2) One_nat_def by simp
    then show ?thesis using that(2) big_tree(3) by simp
  qed
  show ?thesis unfolding One_nat_def
    by (rule versions_agree [OF big_example(2) _ _ big_example(3) big_example(4) _ c(1) blk m t on]) simp_all
qed

end
