(* ===== verification/Fixed_Recover.thy ===== *)
theory Fixed_Recover
  imports Original_Recover
begin

text \<open>
  The repaired first version (\<^verbatim>\<open>improved/ext4recover.c\<close>): the same walk as in \<^verbatim>\<open>original/src/ext4recover.c\<close>, with every failure of a system call
  reported to the caller, a check of each header before the descent, and a main loop that skips an
  inode it cannot recover.  The copy loops end on every device; only the descent needs fuel, and it ends where
  depths fall from a block to its children.
\<close>

section \<open>The tree\<close>

definition fix_rb :: "disk_io \<Rightarrow> nat \<Rightarrow> string \<Rightarrow> ext3_extent \<Rightarrow> orig \<Rightarrow> (bool \<times> orig) res" where
  "fix_rb io bs fd ee = fix_recover_block_to_file io bs fd (ee_block ee) (ee_len ee) (ee_phys ee)"

text \<open>The sanity check before a descent.\<close>

definition child_valid :: "buffer \<Rightarrow> bool" where
  "child_valid buf \<longleftrightarrow>
     (let eh = header_at buf in
      \<not> (eh_magic eh \<noteq> EXT4_EXT_MAGIC \<or> eh_entries eh > eh_max eh \<or> eh_max eh > 1024 \<or> eh_depth eh \<ge> 5))"

text \<open>
  The loop over the children of an index node, the descent and the loop over the slots of the root.  Version 0.4 kept their
  control flow, so its own checks (\<open>valid\<close>, \<open>partial\<close>), its leaf and what it sets before an index node (\<open>pre\<close>) are parameters.
\<close>

primrec fix_index_loop ::
  "(buffer \<Rightarrow> bool) \<Rightarrow> disk_io \<Rightarrow> nat \<Rightarrow> (buffer \<Rightarrow> orig \<Rightarrow> (bool \<times> orig) res) \<Rightarrow> buffer \<Rightarrow> nat list \<Rightarrow> orig \<Rightarrow> (bool \<times> orig) res" where
  "fix_index_loop valid io bs child buf [] st = Done (True, st)"
| "fix_index_loop valid io bs child buf (i # is) st =
     (if \<not> io_mem io bs then Done (False, st)
      else case idx_at buf i of None \<Rightarrow> Undefined
      | Some ei \<Rightarrow>
          (case io_blk io (ei_phys ei) of None \<Rightarrow> Done (False, st)
           | Some next \<Rightarrow>
               if \<not> valid next then fix_index_loop valid io bs child buf is st
               else res_bind (child next st) (\<lambda>(ok, st). fix_index_loop valid io bs child buf is st)))"

primrec tree_walk ::
  "(buffer \<Rightarrow> orig \<Rightarrow> (bool \<times> orig) res) \<Rightarrow> (buffer \<Rightarrow> bool) \<Rightarrow> (orig \<Rightarrow> orig) \<Rightarrow> disk_io \<Rightarrow> nat \<Rightarrow> nat \<Rightarrow> buffer \<Rightarrow> orig \<Rightarrow> (bool \<times> orig) res" where
  "tree_walk leaf valid pre io bs 0 buf st = Running"
| "tree_walk leaf valid pre io bs (Suc k) buf st =
     (let eh = header_at buf in
      if eh_depth eh = 0 then leaf buf st
      else if eh_depth eh \<le> 4 then
        fix_index_loop valid io bs (tree_walk leaf valid pre io bs k) buf [0..<unat (eh_entries eh)] (pre st)
      else Done (True, st))"

primrec fix_slot_loop ::
  "(buffer \<Rightarrow> bool) \<Rightarrow> (buffer \<Rightarrow> bool) \<Rightarrow> disk_io \<Rightarrow> (buffer \<Rightarrow> orig \<Rightarrow> (bool \<times> orig) res) \<Rightarrow> buffer \<Rightarrow> nat list \<Rightarrow> orig \<Rightarrow> (bool \<times> orig) res" where
  "fix_slot_loop valid partial io travel i_blk [] st = Done (True, st)"
| "fix_slot_loop valid partial io travel i_blk (i # is) st =
     (case idx_at i_blk i of None \<Rightarrow> Undefined
      | Some ix \<Rightarrow>
          (case io_blk io (ei_phys ix) of None \<Rightarrow> Done (False, st)
           | Some next \<Rightarrow>
               if \<not> valid next then Done (False, st)
               else res_bind (travel next st)
                      (\<lambda>(ok, st). if \<not> ok then Done (False, st)
                                  else if partial next then Done (True, st)
                                  else fix_slot_loop valid partial io travel i_blk is st)))"

definition fix_extent_tree_travel :: "nat \<Rightarrow> disk_io \<Rightarrow> nat \<Rightarrow> string \<Rightarrow> buffer \<Rightarrow> orig \<Rightarrow> (bool \<times> orig) res" where
  "fix_extent_tree_travel k io bs fd =
     tree_walk (dump_dir_extent (fix_rb io bs fd)) child_valid (\<lambda>st. st\<lparr>o_flag := True\<rparr>) io bs k"

definition fix_prase_ino_extent :: "nat \<Rightarrow> disk_io \<Rightarrow> nat \<Rightarrow> string \<Rightarrow> buffer \<Rightarrow> orig \<Rightarrow> (bool \<times> orig) res" where
  "fix_prase_ino_extent k io bs fd i_blk st =
     (if \<not> io_mem io bs then Done (False, st)
      else fix_slot_loop child_valid (\<lambda>next. eh_entries (header_at next) < 340) io (fix_extent_tree_travel k io bs fd) i_blk [0..<4] st)"

section \<open>The program\<close>

primrec fix_inode_loop :: "nat \<Rightarrow> disk_io \<Rightarrow> nat \<Rightarrow> nat list \<Rightarrow> orig \<Rightarrow> orig res" where
  "fix_inode_loop k io bs [] st = Done st"
| "fix_inode_loop k io bs (n # ns) st =
     (let icount = of_nat n; st = st\<lparr>o_flag := False\<rparr>; filename = orig_name icount in
      case io_inode io icount of
        None \<Rightarrow> fix_inode_loop k io bs ns st
      | Some inode \<Rightarrow>
          if is_inode_extent_clear inode then fix_inode_loop k io bs ns st
          else if \<not> io_open io filename then fix_inode_loop k io bs ns st
          else let st = st\<lparr>o_files := (o_files st)(filename \<mapsto> []), o_out_pos := 0\<rparr> in
            case io_extent_open io icount of
              None \<Rightarrow> fix_inode_loop k io bs ns st
            | Some i_blk \<Rightarrow>
                res_bind (fix_prase_ino_extent k io bs filename i_blk st) (\<lambda>(ok, st). fix_inode_loop k io bs ns st))"

definition fix_main ::
  "nat \<Rightarrow> nat \<Rightarrow> orig_host \<Rightarrow> disk_io \<Rightarrow> (string \<Rightarrow> buffer option) \<Rightarrow> (int \<times> (string \<Rightarrow> buffer option)) res" where
  "fix_main k argc h io fs0 =
     (if argc \<noteq> 2 then Done (1, fs0)
      else case oh_fs h of
        Inl e \<Rightarrow> Done (e, fs0)
      | Inr (bs, imax) \<Rightarrow>
          if \<not> oh_open h then Done (1, fs0)
          else if \<not> oh_mkdir h then Done (1, fs0)
          else if orig_is_on_device (oh_stat_dir h) (oh_stat_dev h) = 1 then Done (1, fs0)
          else res_map (\<lambda>st. (0, o_files st))
                 (fix_inode_loop k io bs [3..<unat (imax + 1)]
                    \<lparr>o_files = fs0, o_dev_pos = 0, o_out_pos = 0, o_calls = 0, o_flag = False\<rparr>))"

section \<open>When a run ends\<close>

text \<open>Trees whose entries lie in their blocks and whose levels end: the header checks do not imply either.\<close>

primrec walk_safe :: "(buffer \<Rightarrow> bool) \<Rightarrow> (buffer \<Rightarrow> bool) \<Rightarrow> (blk64_t \<Rightarrow> buffer option) \<Rightarrow> nat \<Rightarrow> buffer \<Rightarrow> bool" where
  "walk_safe valid fits rd 0 buf \<longleftrightarrow> False"
| "walk_safe valid fits rd (Suc k) buf \<longleftrightarrow>
     (let eh = header_at buf; n = unat (eh_entries eh) in
      if eh_depth eh = 0 then fits buf
      else if eh_depth eh \<le> 4 then
        12 + 12 * n \<le> length buf \<and>
        list_all (\<lambda>i. case idx_at buf i of None \<Rightarrow> False
                  | Some ei \<Rightarrow> (case rd (ei_phys ei) of None \<Rightarrow> True
                                | Some b \<Rightarrow> valid b \<longrightarrow> walk_safe valid fits rd k b)) [0..<n]
      else True)"

definition roots_safe :: "(buffer \<Rightarrow> bool) \<Rightarrow> (buffer \<Rightarrow> bool) \<Rightarrow> (blk64_t \<Rightarrow> buffer option) \<Rightarrow> nat \<Rightarrow> buffer \<Rightarrow> nat list \<Rightarrow> bool" where
  "roots_safe valid fits rd k i_blk is \<longleftrightarrow>
     list_all (\<lambda>i. case idx_at i_blk i of None \<Rightarrow> False
               | Some ei \<Rightarrow> (case rd (ei_phys ei) of None \<Rightarrow> True
                             | Some b \<Rightarrow> valid b \<longrightarrow> walk_safe valid fits rd k b)) is"

definition leaf_fits :: "buffer \<Rightarrow> bool" where
  "leaf_fits buf \<longleftrightarrow> leaf_accepted buf \<longrightarrow> 12 + 12 * unat (eh_entries (header_at buf)) \<le> length buf"

definition slots_safe :: "(blk64_t \<Rightarrow> buffer option) \<Rightarrow> nat \<Rightarrow> buffer \<Rightarrow> bool" where
  "slots_safe rd k i_blk \<longleftrightarrow> length i_blk = 60 \<and> roots_safe child_valid leaf_fits rd k i_blk [0..<4]"

text \<open>
  A property of the device that gives both: no readable block that passes the header check announces more entries than it
  holds, and the children of an index block that pass the check have a smaller depth than the block itself, as ext4 writes them.  The depth of a
  checked block is below 5, so five levels are enough.
\<close>

definition sound_blocks :: "(blk64_t \<Rightarrow> buffer option) \<Rightarrow> bool" where
  "sound_blocks rd \<longleftrightarrow> (\<forall>b buf. rd b = Some buf \<longrightarrow> child_valid buf \<longrightarrow>
     12 + 12 * unat (eh_entries (header_at buf)) \<le> length buf \<and>
     (\<forall>i ei next. i < unat (eh_entries (header_at buf)) \<longrightarrow> idx_at buf i = Some ei \<longrightarrow> rd (ei_phys ei) = Some next \<longrightarrow>
        child_valid next \<longrightarrow> eh_depth (header_at buf) \<noteq> 0 \<longrightarrow> eh_depth (header_at next) < eh_depth (header_at buf)))"

lemma idx_at_inside: "12 + 12 * n \<le> length buf \<Longrightarrow> i < n \<Longrightarrow> idx_at buf i \<noteq> None"
  by (simp add: idx_at_def Let_def)

lemma sound_walk_safe:
  assumes s: "sound_blocks rd"
  shows "rd b = Some buf \<Longrightarrow> child_valid buf \<Longrightarrow> unat (eh_depth (header_at buf)) < k \<Longrightarrow> walk_safe child_valid leaf_fits rd k buf"
proof (induction k arbitrary: b buf)
  case (Suc k)
  let ?n = "unat (eh_entries (header_at buf))"
  have fit: "12 + 12 * ?n \<le> length buf" using s Suc.prems(1,2) by (simp add: sound_blocks_def)
  have down: "walk_safe child_valid leaf_fits rd k next"
    if "i < ?n" "idx_at buf i = Some ei" "rd (ei_phys ei) = Some next" "child_valid next" "eh_depth (header_at buf) \<noteq> 0" for i ei "next"
  proof (rule Suc.IH [OF that(3,4)])
    have "eh_depth (header_at next) < eh_depth (header_at buf)" using s Suc.prems(1,2) that by (simp add: sound_blocks_def)
    then show "unat (eh_depth (header_at next)) < k" using Suc.prems(3) by (simp add: word_less_nat_alt)
  qed
  have "case idx_at buf i of None \<Rightarrow> False
      | Some ei \<Rightarrow> (case rd (ei_phys ei) of None \<Rightarrow> True | Some b \<Rightarrow> child_valid b \<longrightarrow> walk_safe child_valid leaf_fits rd k b)"
    if "i < ?n" "eh_depth (header_at buf) \<noteq> 0" for i
    using idx_at_inside [OF fit that(1)] down [OF that(1)] that(2) by (auto split: option.splits)
  moreover have "leaf_fits buf" using fit by (simp add: leaf_fits_def)
  ultimately show ?case using fit by (simp add: Let_def list_all_iff)
qed simp

lemma sound_slots_safe:
  assumes "sound_blocks rd" "length ib = 60"
  shows "slots_safe rd 5 ib"
proof -
  have "walk_safe child_valid leaf_fits rd 5 buf" if "rd b = Some buf" "child_valid buf" for b buf
  proof (rule sound_walk_safe [OF assms(1) that])
    have "eh_depth (header_at buf) < 5" using that(2) by (simp add: child_valid_def Let_def not_le)
    then show "unat (eh_depth (header_at buf)) < 5" by (simp add: word_less_nat_alt)
  qed
  moreover have "idx_at ib i \<noteq> None" if "i < 4" for i by (rule idx_at_inside [of 4]) (use assms(2) that in simp_all)
  ultimately show ?thesis using assms(2) by (auto simp: slots_safe_def roots_safe_def list_all_iff split: option.splits)
qed

text \<open>Without it the descent need not end: a block that names itself passes the check at every level.\<close>

lemma self_naming_endless:
  assumes "io_mem io bs" and "io_blk io b = Some buf" and "child_valid buf" and "eh_depth (header_at buf) \<noteq> 0"
    and "eh_entries (header_at buf) \<noteq> 0" and "idx_at buf 0 = Some ei" and "ei_phys ei = b"
  shows "fix_extent_tree_travel k io bs fd buf st = Running"
proof (induction k arbitrary: st)
  case (Suc k)
  have d: "eh_depth (header_at buf) \<le> 4"
  proof -
    have "eh_depth (header_at buf) < 5" using assms(3) by (simp add: child_valid_def Let_def not_le)
    then have "unat (eh_depth (header_at buf)) < 5" by (simp add: word_less_nat_alt)
    then show ?thesis by (simp add: word_le_nat_alt)
  qed
  have "[0..<unat (eh_entries (header_at buf))] = 0 # [1..<unat (eh_entries (header_at buf))]"
    using assms(5) by (simp add: upt_conv_Cons unat_gt_0)
  then show ?case using assms d Suc by (simp add: fix_extent_tree_travel_def Let_def)
qed (simp add: fix_extent_tree_travel_def)

text \<open>A call that ends, and touches one file only.\<close>

definition ends :: "string \<Rightarrow> orig \<Rightarrow> (bool \<times> orig) res \<Rightarrow> bool" where
  "ends fd st r \<longleftrightarrow> (\<exists>ok st'. r = Done (ok, st') \<and> (\<forall>x. x \<noteq> fd \<longrightarrow> o_files st' x = o_files st x))"

lemma ends_done [simp]: "ends fd st (Done (ok, st))"
  by (simp add: ends_def)

lemma ends_cong: "o_files s = o_files st \<Longrightarrow> ends fd s r = ends fd st r"
  by (simp add: ends_def)

lemma ends_flag: "ends fd (st\<lparr>o_flag := b\<rparr>) r = ends fd st r"
  by (simp add: ends_def)

lemma ends_bind:
  assumes "ends fd st r" and "\<And>ok st'. ends fd st' (k (ok, st'))"
  shows "ends fd st (res_bind r k)"
proof -
  obtain ok st' where r: "r = Done (ok, st')" "\<forall>x. x \<noteq> fd \<longrightarrow> o_files st' x = o_files st x"
    using assms(1) by (auto simp: ends_def)
  then show ?thesis using assms(2) [of st' ok] by (auto simp: ends_def)
qed

lemma fix_read_files: "o_files (snd (fix_read io bs acc st)) = o_files st"
proof (induction io bs acc st rule: fix_read.induct)
  case (1 io bs acc st)
  then show ?case by (subst fix_read.simps) (auto simp: Let_def split: option.splits)
qed

lemma fix_write_files: "x \<noteq> fd \<Longrightarrow> o_files (snd (fix_write io bs fd buf w st)) x = o_files st x"
proof (induction io bs fd buf w st rule: fix_write.induct)
  case (1 io bs fd buf w st)
  then show ?case by (subst fix_write.simps) (auto simp: Let_def split: option.splits)
qed

lemma fix_copy_files: "x \<noteq> fd \<Longrightarrow> o_files (snd (fix_copy io bs fd n st)) x = o_files st x"
proof (induction n arbitrary: st)
  case (Suc n)
  then show ?case
    using fix_read_files [of io bs "[]" st]
    by (auto split: prod.splits option.splits bool.splits) (metis fix_write_files snd_conv)+
qed simp

lemma fix_rb_ends:
  assumes "bs \<le> 32768"
  shows "ends fd st (fix_rb io bs fd e st)"
proof -
  have "unat (ee_phys e) * bs \<le> unat (ee_phys e) * 32768" using assms by simp
  also have "\<dots> < 2 ^ 48 * 32768" using ee_phys_less [of e] by simp
  finally have "\<not> unat (ee_phys e) * bs \<ge> 2 ^ 63" by simp
  moreover have "ends fd s (Done (fix_copy io bs fd n s))" for n s
    using fix_copy_files [of _ fd io bs n s] by (cases "fix_copy io bs fd n s") (auto simp: ends_def)
  then have "ends fd st (Done (fix_copy io bs fd n (seek_out io fd a (seek_dev io b st))))" for n a b
    by (subst ends_cong [of _ "seek_out io fd a (seek_dev io b st)"]) (simp_all add: seek_out_def seek_dev_def)
  moreover have "ends fd st (Done (False, seek_dev io b st))" for b by (auto simp: ends_def seek_dev_def)
  ultimately show ?thesis by (simp add: fix_rb_def fix_recover_block_to_file_def Let_def)
qed

lemma idx_at_exists: "i < n \<Longrightarrow> 12 + 12 * n \<le> length buf \<Longrightarrow> \<exists>x. idx_at buf i = Some x"
  by (simp add: idx_at_def)

lemma extent_at_exists: "i < n \<Longrightarrow> 12 + 12 * n \<le> length buf \<Longrightarrow> \<exists>x. extent_at buf i = Some x"
  by (simp add: extent_at_def)

lemma dump_loop_ends:
  assumes "\<And>e st. ends fd st (cpy e st)"
  shows "\<forall>i \<in> set is. \<exists>e. extent_at buf i = Some e \<Longrightarrow> ends fd st (dump_loop cpy buf is st)"
proof (induction "is" arbitrary: st)
  case (Cons i "is")
  then obtain e where e: "extent_at buf i = Some e" by auto
  show ?case using Cons e by (auto intro!: ends_bind assms)
qed simp

lemma dump_dir_ends:
  assumes "\<And>e st. ends fd st (cpy e st)" and "leaf_fits buf"
  shows "ends fd st (dump_dir_extent cpy buf st)"
  using assms(2) extent_at_exists by (auto simp: dump_dir_extent_def leaf_fits_def intro!: dump_loop_ends [OF assms(1)])

lemma fix_index_loop_ends:
  assumes "\<And>b st. P b \<Longrightarrow> ends fd st (child b st)"
  shows "list_all (\<lambda>i. case idx_at buf i of None \<Rightarrow> False
            | Some ei \<Rightarrow> (case io_blk io (ei_phys ei) of None \<Rightarrow> True | Some b \<Rightarrow> valid b \<longrightarrow> P b)) is \<Longrightarrow>
    ends fd st (fix_index_loop valid io bs child buf is st)"
proof (induction "is" arbitrary: st)
  case (Cons i "is")
  then show ?case by (auto split: option.splits if_splits intro!: ends_bind assms)
qed simp

lemma fix_slot_loop_ends:
  assumes "\<And>b st. P b \<Longrightarrow> ends fd st (travel b st)"
  shows "list_all (\<lambda>i. case idx_at ib i of None \<Rightarrow> False
            | Some ei \<Rightarrow> (case io_blk io (ei_phys ei) of None \<Rightarrow> True | Some b \<Rightarrow> valid b \<longrightarrow> P b)) is \<Longrightarrow>
    ends fd st (fix_slot_loop valid partial io travel ib is st)"
proof (induction "is" arbitrary: st)
  case (Cons i "is")
  then show ?case by (auto split: option.splits if_splits intro!: ends_bind assms)
qed simp

section \<open>What a walk copies\<close>

text \<open>What a tree holds: children with an invalid header are left out.\<close>

primrec walk_extents ::
  "(buffer \<Rightarrow> bool) \<Rightarrow> (buffer \<Rightarrow> ext3_extent list option) \<Rightarrow> (blk64_t \<Rightarrow> buffer option) \<Rightarrow> nat \<Rightarrow> buffer \<Rightarrow> ext3_extent list option" where
  "walk_extents valid leaf rd 0 buf = None"
| "walk_extents valid leaf rd (Suc k) buf =
     (let eh = header_at buf in
      if eh_depth eh = 0 then leaf buf
      else if eh_depth eh \<le> 4 then
        (case idxs_at buf (unat (eh_entries eh)) of None \<Rightarrow> None
         | Some is \<Rightarrow> map_option concat (those (map (\<lambda>ix. Option.bind (rd (ei_phys ix))
             (\<lambda>b. if valid b then walk_extents valid leaf rd k b else Some [])) is)))
      else Some [])"

primrec root_extents ::
  "(buffer \<Rightarrow> bool) \<Rightarrow> (buffer \<Rightarrow> bool) \<Rightarrow> (buffer \<Rightarrow> ext3_extent list option) \<Rightarrow> (blk64_t \<Rightarrow> buffer option) \<Rightarrow> buffer \<Rightarrow> nat list \<Rightarrow>
   ext3_extent list option" where
  "root_extents valid partial tree rd i_blk [] = Some []"
| "root_extents valid partial tree rd i_blk (i # is) =
     Option.bind (idx_at i_blk i) (\<lambda>ix. Option.bind (rd (ei_phys ix)) (\<lambda>next.
       if \<not> valid next then None
       else Option.bind (tree next) (\<lambda>es.
         if partial next then Some es
         else map_option (\<lambda>es'. es @ es') (root_extents valid partial tree rd i_blk is))))"

lemma fix_index_loop_copies:
  assumes mem: "io_mem io bs"
    and child: "\<And>b x st. T b = Some x \<Longrightarrow> \<forall>e \<in> set x. P e \<Longrightarrow> o_files st fd \<noteq> None \<Longrightarrow> copied dev bs fd x st (child b st)"
  shows "those (map (idx_at buf) is) = Some xs \<Longrightarrow>
    those (map (\<lambda>ix. Option.bind (io_blk io (ei_phys ix)) (\<lambda>b. if valid b then T b else Some [])) xs) = Some ess \<Longrightarrow>
    \<forall>e \<in> set (concat ess). P e \<Longrightarrow> o_files st fd \<noteq> None \<Longrightarrow> copied dev bs fd (concat ess) st (fix_index_loop valid io bs child buf is st)"
proof (induction "is" arbitrary: xs ess st)
  case Nil
  then show ?case by (auto intro: copies_nil)
next
  case (Cons i "is")
  obtain x xs' where x: "idx_at buf i = Some x" "those (map (idx_at buf) is) = Some xs'" "xs = x # xs'"
    using Cons.prems(1) by (auto split: option.splits)
  obtain b es ess' where b: "io_blk io (ei_phys x) = Some b" "(if valid b then T b else Some []) = Some es"
    "those (map (\<lambda>ix. Option.bind (io_blk io (ei_phys ix)) (\<lambda>b. if valid b then T b else Some [])) xs') = Some ess'" "ess = es # ess'"
    using Cons.prems(2) x(3) by (auto split: option.splits simp: bind_eq_Some_conv)
  note IH = Cons.IH [OF x(2) b(3)]
  show ?case
  proof (cases "valid b")
    case True
    then have "copied dev bs fd es st (child b st)" using child b(2,4) Cons.prems(3,4) by simp
    from copies_bind [OF this, of "concat ess'" "\<lambda>(ok, st). fix_index_loop valid io bs child buf is st"]
    show ?thesis using IH Cons.prems(3) b mem x(1) True by simp
  next
    case False
    then show ?thesis using IH [OF _ Cons.prems(4)] Cons.prems(3) b mem x(1) by simp
  qed
qed

lemma fix_slot_loop_copies:
  assumes travel: "\<And>b x st. T b = Some x \<Longrightarrow> \<forall>e \<in> set x. P e \<Longrightarrow> o_files st fd \<noteq> None \<Longrightarrow> copied dev bs fd x st (travel b st)"
  shows "root_extents valid partial T (io_blk io) ib is = Some es \<Longrightarrow> \<forall>e \<in> set es. P e \<Longrightarrow> o_files st fd \<noteq> None \<Longrightarrow>
    copied dev bs fd es st (fix_slot_loop valid partial io travel ib is st)"
proof (induction "is" arbitrary: es st)
  case (Cons i "is")
  obtain x b es1 where x: "idx_at ib i = Some x" "io_blk io (ei_phys x) = Some b" "valid b" "T b = Some es1"
    "(if partial b then Some es1 else map_option (\<lambda>es'. es1 @ es') (root_extents valid partial T (io_blk io) ib is)) = Some es"
    using Cons.prems(1) by (auto simp: bind_eq_Some_conv split: if_splits)
  obtain es2 where es: "es = es1 @ es2"
    "if partial b then es2 = [] else root_extents valid partial T (io_blk io) ib is = Some es2"
    using x(5) by (auto split: if_splits)
  have "copied dev bs fd es1 st (travel b st)" using travel [OF x(4)] Cons.prems(2,3) es by simp
  moreover have "copied dev bs fd es2 st' (if partial b then Done (True, st') else fix_slot_loop valid partial io travel ib is st')"
    if "o_files st' fd \<noteq> None" for st'
    using that es Cons.IH [of es2 st'] Cons.prems(2) by (auto intro: copies_nil)
  ultimately show ?case using copies_bind x(1,2,3) es(1) by simp
qed (auto intro: copies_nil)

section \<open>The contract of a walk\<close>

text \<open>
  What a version provides: an environment \<open>'e\<close> with its channel and block size, a header check, a leaf that copies exactly the
  extents \<open>leaf_list\<close> of the block on a device without errors (\<open>calm\<close>) and that ends when the block holds them (\<open>fits\<close>).
\<close>

locale tree_reader =
  fixes chan :: "'e \<Rightarrow> disk_io" and bsize :: "'e \<Rightarrow> nat" and valid :: "'e \<Rightarrow> buffer \<Rightarrow> bool" and pre :: "orig \<Rightarrow> orig"
    and leaf :: "'e \<Rightarrow> string \<Rightarrow> buffer \<Rightarrow> orig \<Rightarrow> (bool \<times> orig) res" and leaf_list :: "'e \<Rightarrow> buffer \<Rightarrow> ext3_extent list option"
    and calm :: "'e \<Rightarrow> buffer \<Rightarrow> bool" and fits :: "'e \<Rightarrow> buffer \<Rightarrow> bool"
  assumes calm_mem: "calm e dev \<Longrightarrow> io_mem (chan e) (bsize e)"
    and pre_files: "o_files (pre st) = o_files st"
    and leaf_copies: "calm e dev \<Longrightarrow> leaf_list e buf = Some es \<Longrightarrow> \<forall>x \<in> set es. copy_on_device dev (bsize e) x \<Longrightarrow>
      o_files st fd \<noteq> None \<Longrightarrow> copied dev (bsize e) fd es st (leaf e fd buf st)"
    and leaf_ends: "bsize e \<le> 32768 \<Longrightarrow> fits e buf \<Longrightarrow> ends fd st (leaf e fd buf st)"
begin

lemma walk_ends:
  assumes "bsize e \<le> 32768"
  shows "walk_safe (valid e) (fits e) (io_blk (chan e)) k buf \<Longrightarrow>
    ends fd st (tree_walk (leaf e fd) (valid e) pre (chan e) (bsize e) k buf st)"
proof (induction k arbitrary: buf st)
  case (Suc k)
  let ?h = "header_at buf"
  consider "eh_depth ?h = 0" | "eh_depth ?h \<noteq> 0" "eh_depth ?h \<le> 4" | "eh_depth ?h \<noteq> 0" "\<not> eh_depth ?h \<le> 4" by blast
  then show ?case
  proof cases
    case 1
    then show ?thesis using Suc.prems leaf_ends [OF assms] by (simp add: Let_def)
  next
    case 2
    then have "ends fd (pre st) (tree_walk (leaf e fd) (valid e) pre (chan e) (bsize e) (Suc k) buf st)"
      using Suc.prems fix_index_loop_ends [where P = "walk_safe (valid e) (fits e) (io_blk (chan e)) k", OF Suc.IH] by (simp add: Let_def)
    then show ?thesis using ends_cong [OF pre_files] by blast
  next
    case 3
    then show ?thesis by (simp add: Let_def)
  qed
qed simp

lemma roots_ends:
  assumes "bsize e \<le> 32768" "roots_safe (valid e) (fits e) (io_blk (chan e)) k ib is"
  shows "ends fd st (fix_slot_loop (valid e) partial (chan e) (tree_walk (leaf e fd) (valid e) pre (chan e) (bsize e) k) ib is st)"
  by (rule fix_slot_loop_ends [where P = "walk_safe (valid e) (fits e) (io_blk (chan e)) k", OF walk_ends [OF assms(1)]])
    (use assms(2) in \<open>simp_all add: roots_safe_def\<close>)

lemma walk_copies:
  assumes "calm e dev"
  shows "walk_extents (valid e) (leaf_list e) (io_blk (chan e)) k buf = Some es \<Longrightarrow> \<forall>x \<in> set es. copy_on_device dev (bsize e) x \<Longrightarrow>
    o_files st fd \<noteq> None \<Longrightarrow>
    copied dev (bsize e) fd es st (tree_walk (leaf e fd) (valid e) pre (chan e) (bsize e) k buf st)"
proof (induction k arbitrary: buf es st)
  case (Suc k)
  let ?h = "header_at buf" and ?T = "walk_extents (valid e) (leaf_list e) (io_blk (chan e)) k"
  consider "eh_depth ?h = 0" | "eh_depth ?h \<noteq> 0" "eh_depth ?h \<le> 4" | "eh_depth ?h \<noteq> 0" "\<not> eh_depth ?h \<le> 4" by blast
  then show ?case
  proof cases
    case 1
    then show ?thesis using leaf_copies [OF assms] Suc.prems by (simp add: Let_def)
  next
    case 2
    obtain xs ess where x: "idxs_at buf (unat (eh_entries ?h)) = Some xs" "es = concat ess"
      "those (map (\<lambda>ix. Option.bind (io_blk (chan e) (ei_phys ix)) (\<lambda>b. if valid e b then ?T b else Some [])) xs) = Some ess"
      using 2 Suc.prems(1) by (auto simp: Let_def split: option.splits)
    have "copied dev (bsize e) fd (concat ess) (pre st) (fix_index_loop (valid e) (chan e) (bsize e)
        (tree_walk (leaf e fd) (valid e) pre (chan e) (bsize e) k) buf [0..<unat (eh_entries ?h)] (pre st))"
      by (rule fix_index_loop_copies [where P = "copy_on_device dev (bsize e)", OF calm_mem [OF assms] Suc.IH x(1) [unfolded idxs_at_def] x(3)])
        (use Suc.prems x(2) pre_files in auto)
    then show ?thesis using 2 x(2) by (simp add: Let_def copied_iff pre_files)
  next
    case 3
    then show ?thesis using Suc.prems by (auto simp: Let_def intro: copies_nil)
  qed
qed simp

lemma roots_copies:
  assumes "calm e dev"
    and "root_extents (valid e) partial (walk_extents (valid e) (leaf_list e) (io_blk (chan e)) k) (io_blk (chan e)) ib is = Some es"
    and "\<forall>x \<in> set es. copy_on_device dev (bsize e) x" "o_files st fd \<noteq> None"
  shows "copied dev (bsize e) fd es st
    (fix_slot_loop (valid e) partial (chan e) (tree_walk (leaf e fd) (valid e) pre (chan e) (bsize e) k) ib is st)"
  by (rule fix_slot_loop_copies [where P = "copy_on_device dev (bsize e)", OF walk_copies [OF assms(1)] assms(2,3,4)])

end

text \<open>The repaired version provides it.\<close>

lemma fix_rb_copies:
  "orig_faithful io dev \<Longrightarrow> copy_on_device dev bs e \<Longrightarrow> o_files st fd \<noteq> None \<Longrightarrow> copied dev bs fd [e] st (fix_rb io bs fd e st)"
  unfolding fix_rb_def by (rule fix_rbtf_copies)

interpretation fixed: tree_reader fst snd "\<lambda>_. child_valid" "\<lambda>st. st\<lparr>o_flag := True\<rparr>" "\<lambda>e fd. dump_dir_extent (fix_rb (fst e) (snd e) fd)"
    "\<lambda>_. orig_leaf" "\<lambda>e. orig_faithful (fst e)" "\<lambda>_. leaf_fits"
proof unfold_locales
  fix e :: "disk_io \<times> nat" and dev es fd buf and st :: orig
  assume "orig_faithful (fst e) dev" "orig_leaf buf = Some es" "\<forall>x \<in> set es. copy_on_device dev (snd e) x" "o_files st fd \<noteq> None"
  then show "copied dev (snd e) fd es st (dump_dir_extent (fix_rb (fst e) (snd e) fd) buf st)"
    by (intro dump_dir_copies [where P = "copy_on_device dev (snd e)", OF fix_rb_copies])
next
  fix e :: "disk_io \<times> nat" and fd buf and st :: orig
  assume "snd e \<le> 32768" "leaf_fits buf"
  then show "ends fd st (dump_dir_extent (fix_rb (fst e) (snd e) fd) buf st)" by (intro dump_dir_ends fix_rb_ends)
qed (simp_all add: orig_faithful_def)

lemma fix_prase_ends:
  assumes "bs \<le> 32768" "slots_safe (io_blk io) k ib"
  shows "ends fd st (fix_prase_ino_extent k io bs fd ib st)"
  using fixed.roots_ends [of "(io, bs)"] assms by (simp add: fix_prase_ino_extent_def fix_extent_tree_travel_def slots_safe_def)

text \<open>The inodes whose output the run opens.\<close>

definition opened :: "disk_io \<Rightarrow> nat \<Rightarrow> bool" where
  "opened io n \<longleftrightarrow> wanted io n \<and> io_open io (orig_name (of_nat n))"

lemma fix_inode_loop_cases:
  "fix_inode_loop k io bs (n # ns) st =
     (if opened io n then
        (let st = st\<lparr>o_flag := False, o_files := (o_files st)(orig_name (of_nat n) \<mapsto> []), o_out_pos := 0\<rparr> in
         case io_extent_open io (of_nat n) of
           None \<Rightarrow> fix_inode_loop k io bs ns st
         | Some ib \<Rightarrow> res_bind (fix_prase_ino_extent k io bs (orig_name (of_nat n)) ib st) (\<lambda>(ok, st). fix_inode_loop k io bs ns st))
      else fix_inode_loop k io bs ns (st\<lparr>o_flag := False\<rparr>))"
  by (auto simp: opened_def wanted_def Let_def split: option.splits)

lemma fix_inode_loop_ends:
  assumes "bs \<le> 32768"
  shows "\<forall>n \<in> set ns. \<forall>ib. opened io n \<longrightarrow> io_extent_open io (of_nat n) = Some ib \<longrightarrow> slots_safe (io_blk io) k ib \<Longrightarrow>
    \<exists>st'. fix_inode_loop k io bs ns st = Done st' \<and>
      (\<forall>x. (\<forall>n \<in> set ns. opened io n \<longrightarrow> x \<noteq> orig_name (of_nat n)) \<longrightarrow> o_files st' x = o_files st x)"
proof (induction ns arbitrary: st)
  case (Cons n ns)
  let ?fn = "orig_name (of_nat n)"
  let ?st = "st\<lparr>o_flag := False, o_files := (o_files st)(?fn \<mapsto> []), o_out_pos := 0\<rparr>"
  obtain st1 where st1: "fix_inode_loop k io bs (n # ns) st = fix_inode_loop k io bs ns st1"
    "\<forall>x. (opened io n \<longrightarrow> x \<noteq> ?fn) \<longrightarrow> o_files st1 x = o_files st x"
  proof (cases "opened io n")
    case False
    then show thesis using that [of "st\<lparr>o_flag := False\<rparr>"] by (simp only: fix_inode_loop_cases) simp
  next
    case True
    show thesis
    proof (cases "io_extent_open io (of_nat n)")
      case None
      then show thesis using that [of ?st] True by (simp only: fix_inode_loop_cases) simp
    next
      case (Some ib)
      then have "slots_safe (io_blk io) k ib" using Cons.prems True by simp
      from fix_prase_ends [OF assms this, of ?fn ?st]
      obtain ok st2 where st2: "fix_prase_ino_extent k io bs ?fn ib ?st = Done (ok, st2)" "\<forall>x. x \<noteq> ?fn \<longrightarrow> o_files st2 x = o_files st x"
        by (auto simp: ends_def)
      then show thesis using that [of st2] True Some by (simp only: fix_inode_loop_cases) simp
    qed
  qed
  have rest: "\<forall>n \<in> set ns. \<forall>ib. opened io n \<longrightarrow> io_extent_open io (of_nat n) = Some ib \<longrightarrow> slots_safe (io_blk io) k ib"
    using Cons.prems by simp
  obtain st' where st': "fix_inode_loop k io bs ns st1 = Done st'"
    "\<forall>x. (\<forall>n \<in> set ns. opened io n \<longrightarrow> x \<noteq> orig_name (of_nat n)) \<longrightarrow> o_files st' x = o_files st1 x"
    using Cons.IH [OF rest, of st1] by blast
  then show ?case using st1 by auto
qed simp

section \<open>Exact runs\<close>

definition fix_slots :: "(blk64_t \<Rightarrow> buffer option) \<Rightarrow> nat \<Rightarrow> buffer \<Rightarrow> ext3_extent list option" where
  "fix_slots rd k i_blk =
     root_extents child_valid (\<lambda>next. eh_entries (header_at next) < 340) (walk_extents child_valid orig_leaf rd k) rd i_blk [0..<4]"

lemma fix_prase_copies:
  assumes "orig_faithful io dev" "fix_slots (io_blk io) k ib = Some es" "\<forall>e \<in> set es. copy_on_device dev bs e" "o_files st fd \<noteq> None"
  shows "copied dev bs fd es st (fix_prase_ino_extent k io bs fd ib st)"
  using fixed.roots_copies [of "(io, bs)" dev] assms
  by (simp add: fix_slots_def fix_prase_ino_extent_def fix_extent_tree_travel_def orig_faithful_def)

lemma fix_inode_loop_append:
  "fix_inode_loop k io bs (xs @ ys) st = res_bind (fix_inode_loop k io bs xs st) (fix_inode_loop k io bs ys)"
proof (induction xs arbitrary: st)
  case (Cons n xs)
  have bind: "res_bind (res_bind r (\<lambda>(ok, s). g s)) f = res_bind r (\<lambda>(ok, s). res_bind (g s) f)" for r :: "(bool \<times> orig) res" and g f
    by (cases r) auto
  show ?case
    unfolding append_Cons fix_inode_loop_cases Cons.IH
    by (simp add: Let_def bind split: option.splits)
qed simp

section \<open>Properties\<close>

text \<open>Property C37: the repaired version ends whatever the system calls do.  Reads, writes, seeks, allocations and
  opens may fail or be short in any way.  What is asked of the device is \<open>sound_blocks\<close>: no block that passes the header check
  announces entries behind its end, and depths fall from a block to its children; the check does not ensure this, and a block
  that names itself keeps the descent going for ever (\<open>self_naming_endless\<close>).  Then five levels suffice, the run ends, and
  it changes no file but the outputs of the inodes it selects.\<close>

theorem fix_main_ends:
  assumes "oh_fs h = Inr (bs, imax)" and "bs \<le> 32768" and "sound_blocks (io_blk io)"
    and "\<forall>n ib. io_extent_open io n = Some ib \<longrightarrow> length ib = 60"
  shows "\<exists>e fs. fix_main 5 argc h io fs0 = Done (e, fs) \<and>
    (\<forall>x. (\<forall>n. 3 \<le> n \<longrightarrow> n < unat (imax + 1) \<longrightarrow> opened io n \<longrightarrow> x \<noteq> orig_name (of_nat n)) \<longrightarrow> fs x = fs0 x)"
proof -
  let ?ns = "[3..<unat (imax + 1)]"
  have "\<forall>n \<in> set ?ns. \<forall>ib. opened io n \<longrightarrow> io_extent_open io (of_nat n) = Some ib \<longrightarrow> slots_safe (io_blk io) 5 ib"
    using sound_slots_safe [OF assms(3)] assms(4) by blast
  from fix_inode_loop_ends [OF assms(2) this, of "\<lparr>o_files = fs0, o_dev_pos = 0, o_out_pos = 0, o_calls = 0, o_flag = False\<rparr>"]
  obtain st' where "fix_inode_loop 5 io bs ?ns \<lparr>o_files = fs0, o_dev_pos = 0, o_out_pos = 0, o_calls = 0, o_flag = False\<rparr> = Done st'"
    "\<forall>x. (\<forall>n \<in> set ?ns. opened io n \<longrightarrow> x \<noteq> orig_name (of_nat n)) \<longrightarrow> o_files st' x = fs0 x"
    by auto
  then show ?thesis using assms(1) by (auto simp: fix_main_def)
qed

text \<open>The device of \<open>first_io\<close> with a second deleted inode, whose tree is gone.\<close>

definition second_io :: disk_io where
  "second_io = first_io\<lparr>io_inode := \<lambda>n. if n = 7 \<or> n = 8 then io_inode first_io 7 else None,
     io_extent_open := \<lambda>n. if n = 7 then Some (idx_node 2) else if n = 8 then Some (idx_node 5) else None\<rparr>"

definition plain_orig_host :: orig_host where
  "plain_orig_host = \<lparr>oh_fs = Inr (24, 9), oh_open = True, oh_mkdir = True, oh_stat_dir = Some 1, oh_stat_dev = Some (True, 2)\<rparr>"

lemma second_nodes:
  "length (idx_node 2) = 60" "length (idx_node 5) = 60"
  "map (idx_at (idx_node 2)) [0..<4] = Some \<lparr>ei_block = 0, ei_leaf = 2, ei_leaf_hi = 0\<rparr> # replicate 3 (Some \<lparr>ei_block = 0, ei_leaf = 0, ei_leaf_hi = 0\<rparr>)"
  "map (idx_at (idx_node 5)) [0..<4] = Some \<lparr>ei_block = 0, ei_leaf = 5, ei_leaf_hi = 0\<rparr> # replicate 3 (Some \<lparr>ei_block = 0, ei_leaf = 0, ei_leaf_hi = 0\<rparr>)"
  "header_at leaf340 = \<lparr>eh_magic = 0xF30A, eh_entries = 1, eh_max = 340, eh_depth = 0\<rparr>" "length leaf340 = 24"
proof -
  have r: "[0..<4] = [0, 1, 2, 3 :: nat]" by (simp add: upt_rec)
  have k: "replicate 36 (0 :: byte) = [0,0,0,0,0,0,0,0,0,0,0,0,0,0,0,0,0,0,0,0,0,0,0,0,0,0,0,0,0,0,0,0,0,0,0,0]"
    by (simp add: numeral_eq_Suc)
  show "map (idx_at (idx_node 2)) [0..<4] = Some \<lparr>ei_block = 0, ei_leaf = 2, ei_leaf_hi = 0\<rparr> # replicate 3 (Some \<lparr>ei_block = 0, ei_leaf = 0, ei_leaf_hi = 0\<rparr>)"
    "map (idx_at (idx_node 5)) [0..<4] = Some \<lparr>ei_block = 0, ei_leaf = 5, ei_leaf_hi = 0\<rparr> # replicate 3 (Some \<lparr>ei_block = 0, ei_leaf = 0, ei_leaf_hi = 0\<rparr>)"
    by (simp_all add: r k idx_node_def idx_at_def le16_at_def le32_at_def sub_buf_def numeral_3_eq_3)
  show "length (idx_node 2) = 60" "length (idx_node 5) = 60" by (simp_all add: idx_node_def)
  show "header_at leaf340 = \<lparr>eh_magic = 0xF30A, eh_entries = 1, eh_max = 340, eh_depth = 0\<rparr>" "length leaf340 = 24"
    by (simp_all add: leaf340_def header_at_def le16_at_def sub_buf_def)
qed

lemma second_safe: "slots_safe (io_blk second_io) 1 (idx_node 2)" "slots_safe (io_blk second_io) 1 (idx_node 5)"
proof -
  have r: "[0..<4] = [0, 1, 2, 3 :: nat]" by (simp add: upt_rec)
  have "walk_safe child_valid leaf_fits (io_blk second_io) 1 leaf340" using second_nodes(5,6) by (simp add: leaf_fits_def)
  then show "slots_safe (io_blk second_io) 1 (idx_node 2)" "slots_safe (io_blk second_io) 1 (idx_node 5)"
    using second_nodes(1-4) unfolding slots_safe_def roots_safe_def r by (simp_all add: second_io_def first_io_def ei_phys_def numeral_3_eq_3 del: walk_safe.simps)
qed

lemma second_sound: "sound_blocks (io_blk second_io)"
proof -
  show ?thesis using second_nodes(5,6) by (auto simp: sound_blocks_def second_io_def first_io_def split: if_splits)
qed

theorem fix_main_ends_witness:
  "\<exists>e fs. fix_main 5 2 plain_orig_host (second_io\<lparr>io_read := \<lambda>_ _ _. None\<rparr>) [''a'' \<mapsto> [1]] = Done (e, fs) \<and> fs ''a'' = Some [1]"
proof -
  let ?io = "second_io\<lparr>io_read := \<lambda>_ _ _. None\<rparr>"
  have s: "sound_blocks (io_blk ?io)" "\<forall>n ib. io_extent_open ?io n = Some ib \<longrightarrow> length ib = 60"
    using second_sound second_nodes(1,2) by (auto simp: second_io_def split: if_splits)
  have nm: "''a'' \<noteq> orig_name x" for x by (simp add: orig_name_def)
  show ?thesis using fix_main_ends [of plain_orig_host 24 9 ?io 2 "[''a'' \<mapsto> [1]]", OF _ _ s] nm by (auto simp: plain_orig_host_def)
qed

text \<open>Property C13: one bad inode does not spoil the others.  On a device without errors, an inode whose own tree is
  intact and lies on the device is recovered exactly, and the run ends with status 0, though other selected inodes
  may have lost their tree, name blocks that cannot be read or carry no valid header, or hold extents beyond the device.
  Not every damage is allowed: the walk of each opened inode must stay inside its blocks and end within \<open>k\<close> levels
  (\<open>slots_safe\<close>; \<open>sound_slots_safe\<close> gives it for trees whose depths fall and whose entries fit).  A block that names itself, or
  announces more entries than it holds, in any opened inode is excluded.\<close>

theorem fix_main_robust:
  assumes host: "oh_fs h = Inr (bs, imax)" "oh_open h" "oh_mkdir h" "orig_is_on_device (oh_stat_dir h) (oh_stat_dev h) \<noteq> 1"
    and io: "orig_faithful io dev" "bs \<le> 32768"
    and safe: "\<And>n ib. 3 \<le> n \<Longrightarrow> n < unat (imax + 1) \<Longrightarrow> opened io n \<Longrightarrow> io_extent_open io (of_nat n) = Some ib \<Longrightarrow>
        slots_safe (io_blk io) k ib"
    and m: "3 \<le> m" "m < unat (imax + 1)" "opened io m" "io_extent_open io (of_nat m) = Some ib"
    and tree: "fix_slots (io_blk io) k ib = Some es" "\<forall>e \<in> set es. copy_on_device dev bs e"
  shows "\<exists>fs. fix_main k 2 h io fs0 = Done (0, fs) \<and> fs (orig_name (of_nat m)) = Some (foldl (copy_extent dev bs) [] es)"
proof -
  let ?N = "unat (imax + 1)" and ?fn = "orig_name (of_nat m)" and ?c = "foldl (copy_extent dev bs) [] es"
  let ?st = "\<lparr>o_files = fs0, o_dev_pos = 0, o_out_pos = 0, o_calls = 0, o_flag = False\<rparr>"
  have ends: "\<exists>st'. fix_inode_loop k io bs ns s = Done st' \<and>
      (\<forall>x. (\<forall>n \<in> set ns. opened io n \<longrightarrow> x \<noteq> orig_name (of_nat n)) \<longrightarrow> o_files st' x = o_files s x)" if "set ns \<subseteq> {3..<?N}" for ns s
  proof (rule fix_inode_loop_ends [OF io(2)], intro ballI allI impI)
    fix n ib assume n: "n \<in> set ns" "opened io n" "io_extent_open io (of_nat n) = Some ib"
    then have "3 \<le> n" "n < ?N" using that by auto
    then show "slots_safe (io_blk io) k ib" using safe n(2,3) by blast
  qed
  obtain st1 where st1: "fix_inode_loop k io bs [3..<m] ?st = Done st1" using ends [of "[3..<m]" ?st] m(2) by auto
  let ?s = "st1\<lparr>o_flag := False, o_files := (o_files st1)(?fn \<mapsto> []), o_out_pos := 0\<rparr>"
  have "copied dev bs ?fn es ?s (fix_prase_ino_extent k io bs ?fn ib ?s)" by (rule fix_prase_copies [OF io(1) tree]) simp
  then obtain st2 where st2: "fix_prase_ino_extent k io bs ?fn ib ?s = Done (True, st2)" "o_files st2 ?fn = Some ?c"
    by (auto simp: copied_iff)
  obtain st3 where st3: "fix_inode_loop k io bs [m + 1..<?N] st2 = Done st3"
    "\<forall>x. (\<forall>n \<in> set [m + 1..<?N]. opened io n \<longrightarrow> x \<noteq> orig_name (of_nat n)) \<longrightarrow> o_files st3 x = o_files st2 x"
    using ends [of "[m + 1..<?N]" st2] m(1) by auto
  have "?fn \<noteq> orig_name (of_nat n)" if "n \<in> set [m + 1..<?N]" for n
  proof
    assume "?fn = orig_name (of_nat n)"
    then have "(of_nat m :: u32) = of_nat n" by (rule orig_name_inj)
    then have "unat (of_nat m :: u32) = unat (of_nat n :: u32)" by simp
    moreover have "m < 2 ^ 32" "n < 2 ^ 32" using that m(2) u32_less [of "imax + 1"] by auto
    ultimately have "m = n" by (simp add: unat_of_nat)
    then show False using that by simp
  qed
  then have f: "o_files st3 ?fn = Some ?c" using st3(2) st2(2) by simp
  have "[3..<?N] = [3..<m] @ m # [m + 1..<?N]" 
    using upt_add_eq_append [of 3 m "?N - m"] m(1,2) by (simp add: upt_conv_Cons)
  moreover have "fix_inode_loop k io bs (m # [m + 1..<?N]) st1 = Done st3"
    unfolding fix_inode_loop_cases using m(3,4) st2(1) st3(1) by simp
  ultimately have "fix_inode_loop k io bs [3..<?N] ?st = Done st3" using st1 by (simp only: fix_inode_loop_append res_bind.simps)
  then show ?thesis using host f by (simp add: fix_main_def)
qed

theorem fix_main_robust_witness:
  "\<exists>fs. fix_main 1 2 plain_orig_host second_io Map.empty = Done (0, fs) \<and> fs ''./RECOVER/7_file'' = Some (map of_nat [1..<25])"
proof -
  have s: "slots_safe (io_blk second_io) 1 ib" if "io_extent_open second_io (of_nat n) = Some ib" for n ib
    using that second_safe by (auto simp: second_io_def split: if_splits)
  have f: "orig_faithful second_io first_dev"
    using first_io_ok by (simp add: orig_faithful_def second_io_def)
  have o7: "opened second_io 7" "io_extent_open second_io (of_nat 7) = Some (idx_node 2)"
    using first_example(2) [of 7] by (simp_all add: opened_def wanted_def second_io_def first_io_def)
  have "idx_at (idx_node 2) 0 = Some \<lparr>ei_block = 0, ei_leaf = 2, ei_leaf_hi = 0\<rparr>"
    using second_nodes(3) by (simp add: upt_rec)
  moreover have "orig_leaf leaf340 = Some [first_extent]"
    using second_nodes(5) by (simp add: orig_leaf_def leaf_accepted_def EXT4_EXT_MAGIC_def extents_at_def leaf340_def extent_at_def
      le16_at_def le32_at_def sub_buf_def first_extent_def)
  moreover have "[0..<4] = [0, 1, 2, 3 :: nat]" by (simp add: upt_rec)
  ultimately have sl: "fix_slots (io_blk second_io) 1 (idx_node 2) = Some [first_extent]"
    using second_nodes(5) by (simp add: fix_slots_def second_io_def first_io_def ei_phys_def child_valid_def EXT4_EXT_MAGIC_def)
  have nm: "orig_name 7 = ''./RECOVER/7_file''" by code_simp
  have h: "oh_fs plain_orig_host = Inr (24, 9)" "oh_open plain_orig_host" "oh_mkdir plain_orig_host"
    "orig_is_on_device (oh_stat_dir plain_orig_host) (oh_stat_dev plain_orig_host) \<noteq> 1"
    by (simp_all add: plain_orig_host_def orig_is_on_device_def)
  show ?thesis
    using fix_main_robust [where ?fs0.0 = Map.empty, OF h f _ s _ _ o7 sl] first_example(3,4) nm by simp
qed

end
