(* ===== verification/Version4.thy ===== *)
theory Version4
  imports Fixed_Recover
begin

text \<open>
  Version 0.4 (\<^verbatim>\<open>improved/ext4recover_v2.c\<close>, \<^verbatim>\<open>orphan_recovery.c\<close>, \<^verbatim>\<open>aggressive_scan.c\<close> with \<^verbatim>\<open>ext4_common.h\<close>): the tree recovery with
  validated headers, the orphan list and the scan of the whole device.  An output is named relative to the recovery directory.
\<close>

section \<open>Context\<close>

text \<open>The fields of \<open>struct recover_context\<close> that change, around the state of the copy; \<open>v_list\<close> is the static \<open>recovered_list\<close>.\<close>

record v4 =
  v_io :: orig
  v_files_recovered :: u64
  v_files_failed :: u64
  v_orphan :: u64
  v_aggressive :: u64
  v_journal :: u64
  v_total :: blk64_t
  v_has_journal :: bool
  v_journal_start :: blk64_t
  v_journal_len :: blk64_t
  v_list :: "blk64_t list"

text \<open>What the file system reports: block size, superblock fields, the place of the inode tables, the result of loading the block
  bitmap, the journal file (opening, seeking, reading) and the allocator; whether truncating or renaming a file works.\<close>

record v4_fs =
  vf_bs :: nat
  vf_first :: u32
  vf_blocks :: blk64_t
  vf_inodes :: u32
  vf_last_orphan :: u32
  vf_compat :: u32
  vf_journal_inum :: u32
  vf_groups :: u32
  vf_inodes_per_group :: u32
  vf_inode_size :: u32
  vf_table_loc :: "u32 \<Rightarrow> blk64_t"
  vf_journal_open :: bool
  vf_journal_seek :: "nat \<Rightarrow> bool"
  vf_journal_read :: "nat \<Rightarrow> nat \<Rightarrow> buffer option"
  vf_truncate :: "string \<Rightarrow> bool"
  vf_rename :: "string \<Rightarrow> bool"
  vf_bitmap :: "(blk64_t \<Rightarrow> bool) option"
  vf_malloc :: "nat \<Rightarrow> bool"

section \<open>Copying and creating\<close>

definition v4_rb :: "v4_fs \<Rightarrow> disk_io \<Rightarrow> string \<Rightarrow> ext3_extent \<Rightarrow> orig \<Rightarrow> (bool \<times> orig) res" where
  "v4_rb fs io fd ee st =
     (if \<not> vf_malloc fs (vf_bs fs) then Done (False, st)
      else fix_recover_block_to_file io (vf_bs fs) fd (ee_block ee) (ee_len ee) (ee_phys ee) st)"

text \<open>The result and, on success, the truncated output.\<close>

definition v4_create_recovery_file :: "disk_io \<Rightarrow> u32 \<Rightarrow> orig \<Rightarrow> int \<times> orig" where
  "v4_create_recovery_file io ino st =
     (let name = fallback_name ino in
      if o_file st name \<noteq> [] then (-2, st)
      else if \<not> io_open io name then (-1, st)
      else (0, st\<lparr>o_files := (o_files st)(name \<mapsto> []), o_out_pos := 0\<rparr>))"

section \<open>The tree\<close>

primrec v4_dump_loop :: "(ext3_extent \<Rightarrow> orig \<Rightarrow> (bool \<times> orig) res) \<Rightarrow> buffer \<Rightarrow> nat list \<Rightarrow> orig \<Rightarrow> (bool \<times> orig) res" where
  "v4_dump_loop cpy buf [] st = Done (True, st)"
| "v4_dump_loop cpy buf (i # is) st =
     (case extent_at buf i of None \<Rightarrow> Undefined
      | Some ee \<Rightarrow>
          if ee_len ee = 0 \<or> ee_phys ee = 0 then v4_dump_loop cpy buf is st
          else res_bind (cpy ee st) (\<lambda>(ok, st). if ok then v4_dump_loop cpy buf is st else Done (False, st)))"

definition v4_dump_leaf :: "(ext3_extent \<Rightarrow> orig \<Rightarrow> (bool \<times> orig) res) \<Rightarrow> nat \<Rightarrow> buffer \<Rightarrow> orig \<Rightarrow> (bool \<times> orig) res" where
  "v4_dump_leaf cpy bs buf st =
     (let eh = header_at buf; max_entries = calculate_max_entries (int bs) True in
      if uint (eh_entries eh) > max_entries then Done (True, st)
      else if eh_magic eh \<noteq> EXT4_EXT_MAGIC then Done (True, st)
      else v4_dump_loop cpy buf [0..<unat (eh_entries eh)] st)"

definition v4_dump_leaf_extent :: "v4_fs \<Rightarrow> disk_io \<Rightarrow> string \<Rightarrow> buffer \<Rightarrow> orig \<Rightarrow> (bool \<times> orig) res" where
  "v4_dump_leaf_extent fs io fd = v4_dump_leaf (v4_rb fs io fd) (vf_bs fs)"

definition v4_valid :: "v4_fs \<Rightarrow> buffer \<Rightarrow> bool" where
  "v4_valid fs next \<longleftrightarrow> validate_extent_header (Some (header_at next)) (int (vf_bs fs))"

definition v4_extent_tree_travel :: "nat \<Rightarrow> v4_fs \<Rightarrow> disk_io \<Rightarrow> string \<Rightarrow> buffer \<Rightarrow> orig \<Rightarrow> (bool \<times> orig) res" where
  "v4_extent_tree_travel k fs io fd = tree_walk (v4_dump_leaf_extent fs io fd) (v4_valid fs) id io (vf_bs fs) k"

text \<open>A child with room left is the last.\<close>

definition v4_partial :: "v4_fs \<Rightarrow> buffer \<Rightarrow> bool" where
  "v4_partial fs next \<longleftrightarrow>
     uint (eh_entries (header_at next)) < calculate_max_entries (int (vf_bs fs)) (eh_depth (header_at next) = 0)"

definition v4_max_scan :: "buffer \<Rightarrow> nat" where
  "v4_max_scan i_blk = min 4 (unat (eh_entries (header_at i_blk)))"

definition v4_parse_ino_extent :: "nat \<Rightarrow> v4_fs \<Rightarrow> disk_io \<Rightarrow> string \<Rightarrow> buffer \<Rightarrow> orig \<Rightarrow> (bool \<times> orig) res" where
  "v4_parse_ino_extent k fs io fd i_blk st =
     (if \<not> io_mem io (vf_bs fs) then Done (False, st)
      else fix_slot_loop (v4_valid fs) (v4_partial fs) io (v4_extent_tree_travel k fs io fd) i_blk [0..<v4_max_scan i_blk] st)"

text \<open>The handle of the library; an error code is positive.\<close>

definition v4_recover_from_extent_tree :: "nat \<Rightarrow> v4_fs \<Rightarrow> disk_io \<Rightarrow> u32 \<Rightarrow> orig \<Rightarrow> (int \<times> orig) res" where
  "v4_recover_from_extent_tree k fs io ino st =
     (case v4_create_recovery_file io ino st of (r, st1) \<Rightarrow>
        if r < 0 then Done (-1, st1)
        else case io_extent_open io ino of None \<Rightarrow> Done (1, st1)
             | Some i_blk \<Rightarrow>
                 res_map (\<lambda>(ok, st2). (if ok then 0 else -1, st2)) (v4_parse_ino_extent k fs io (fallback_name ino) i_blk st1))"

section \<open>The orphan list\<close>

definition v4_visit_orphan :: "nat \<Rightarrow> v4_fs \<Rightarrow> disk_io \<Rightarrow> u32 \<Rightarrow> ext2_inode \<Rightarrow> v4 \<Rightarrow> v4 res" where
  "v4_visit_orphan k fs io ino inode c =
     (if \<not> LINUX_S_ISREG (i_mode inode) \<or> i_links_count inode \<noteq> 0 then Done c
      else if i_flags inode AND EXT4_EXTENTS_FL = 0 then Done c
      else res_map (\<lambda>(r, st). if r = 0 then c\<lparr>v_io := st, v_orphan := v_orphan c + 1, v_files_recovered := v_files_recovered c + 1\<rparr>
                              else c\<lparr>v_io := st, v_files_failed := v_files_failed c + 1\<rparr>)
             (v4_recover_from_extent_tree k fs io ino (v_io c)))"

function v4_orphan_loop :: "nat \<Rightarrow> v4_fs \<Rightarrow> disk_io \<Rightarrow> u32 \<Rightarrow> nat \<Rightarrow> v4 \<Rightarrow> v4 res" where
  "v4_orphan_loop k fs io current_ino n c =
     (if current_ino = 0 then Done c
      else if n > 10000 then Done c
      else case io_inode io current_ino of None \<Rightarrow> Done c
           | Some inode \<Rightarrow>
               res_bind (v4_visit_orphan k fs io current_ino inode c) (v4_orphan_loop k fs io (i_dtime inode) (n + 1)))"
  by pat_completeness auto
termination
  by (relation "measure (\<lambda>(k, fs, io, current_ino, n, c). 10001 - n)") auto

declare v4_orphan_loop.simps [simp del]

definition v4_recover_orphan_list :: "nat \<Rightarrow> v4_fs \<Rightarrow> disk_io \<Rightarrow> v4 \<Rightarrow> v4 res" where
  "v4_recover_orphan_list k fs io c =
     (if vf_last_orphan fs = 0 then Done c else v4_orphan_loop k fs io (vf_last_orphan fs) 0 c)"

section \<open>The scan of the device\<close>

definition v4_is_block_recovered :: "v4 \<Rightarrow> blk64_t \<Rightarrow> bool" where
  "v4_is_block_recovered c block \<longleftrightarrow> block \<in> set (v_list c)"

definition v4_mark_block_recovered :: "v4_fs \<Rightarrow> blk64_t \<Rightarrow> v4 \<Rightarrow> v4" where
  "v4_mark_block_recovered fs block c = (if vf_malloc fs 16 then c\<lparr>v_list := block # v_list c\<rparr> else c)"

definition v4_free_recovered_list :: "v4 \<Rightarrow> v4" where
  "v4_free_recovered_list c = c\<lparr>v_list := []\<rparr>"

definition v4_is_block_free :: "v4_fs \<Rightarrow> blk64_t \<Rightarrow> bool" where
  "v4_is_block_free fs block = (case vf_bitmap fs of None \<Rightarrow> True | Some bm \<Rightarrow> \<not> bm block)"

text \<open>Copy the extents that \<open>pick\<close> selects, and add up the \<open>weight\<close> of those whose copy succeeds.\<close>

primrec v4_copy_loop ::
  "(ext3_extent \<Rightarrow> ext3_extent option) \<Rightarrow> (ext3_extent \<Rightarrow> nat) \<Rightarrow> (ext3_extent \<Rightarrow> orig \<Rightarrow> (bool \<times> orig) res) \<Rightarrow> buffer \<Rightarrow> nat list \<Rightarrow>
   nat \<Rightarrow> orig \<Rightarrow> (nat \<times> orig) res" where
  "v4_copy_loop pick weight cpy buf [] recovered st = Done (recovered, st)"
| "v4_copy_loop pick weight cpy buf (i # is) recovered st =
     (case extent_at buf i of None \<Rightarrow> Undefined
      | Some ee \<Rightarrow>
          (case pick ee of None \<Rightarrow> v4_copy_loop pick weight cpy buf is recovered st
           | Some e \<Rightarrow>
               res_bind (cpy e st)
                 (\<lambda>(ok, st). v4_copy_loop pick weight cpy buf is (if ok then recovered + weight e else recovered) st)))"

definition v4_pick :: "blk64_t \<Rightarrow> ext3_extent \<Rightarrow> ext3_extent option" where
  "v4_pick tot ee =
     (if ee_len ee = 0 \<or> ee_phys ee = 0 then None
      else if ee_phys ee + ucast (ee_len ee) > tot then None
      else Some ee)"

definition v4_leaf_loop ::
  "(ext3_extent \<Rightarrow> orig \<Rightarrow> (bool \<times> orig) res) \<Rightarrow> blk64_t \<Rightarrow> buffer \<Rightarrow> nat list \<Rightarrow> nat \<Rightarrow> orig \<Rightarrow> (nat \<times> orig) res" where
  "v4_leaf_loop cpy tot = v4_copy_loop (v4_pick tot) (\<lambda>_. 1) cpy"

definition v4_aggressive_name :: "blk64_t \<Rightarrow> string" where
  "v4_aggressive_name block = ''aggressive_'' @ udec (unat block)"

definition v4_recover_orphaned_extent_block :: "v4_fs \<Rightarrow> disk_io \<Rightarrow> blk64_t \<Rightarrow> buffer \<Rightarrow> v4 \<Rightarrow> (int \<times> v4) res" where
  "v4_recover_orphaned_extent_block fs io block_num buf c =
     (let eh = header_at buf; name = v4_aggressive_name block_num; st = v_io c in
      if eh_depth eh \<noteq> 0 then Done (0, c)
      else if \<not> validate_extent_header (Some eh) (int (vf_bs fs)) then Done (0, c)
      else if \<not> io_open io name then Done (-1, c)
      else res_map (\<lambda>(recovered, st).
             if recovered > 0
             then (1, (v4_mark_block_recovered fs block_num (c\<lparr>v_io := st\<rparr>))\<lparr>v_aggressive := v_aggressive c + 1\<rparr>)
             else (0, c\<lparr>v_io := st\<lparr>o_files := (o_files st)(name := None)\<rparr>\<rparr>))
           (v4_leaf_loop (v4_rb fs io name) (v_total c) buf [0..<unat (eh_entries eh)] 0
              (st\<lparr>o_files := (o_files st)(name \<mapsto> []), o_out_pos := 0\<rparr>)))"

text \<open>One block of either scan.\<close>

definition v4_scan_block :: "v4_fs \<Rightarrow> disk_io \<Rightarrow> blk64_t \<Rightarrow> nat \<times> v4 \<Rightarrow> (nat \<times> v4) res" where
  "v4_scan_block fs io block s =
     (case s of (found, c) \<Rightarrow>
        if v4_is_block_recovered c block then Done s
        else case io_blk io block of None \<Rightarrow> Done s
             | Some buf \<Rightarrow>
                 if eh_magic (header_at buf) \<noteq> EXT4_EXT_MAGIC then Done s
                 else res_map (\<lambda>(r, c). (if r > 0 then found + 1 else found, c)) (v4_recover_orphaned_extent_block fs io block buf c))"

primrec v4_scan_loop :: "v4_fs \<Rightarrow> disk_io \<Rightarrow> (blk64_t \<Rightarrow> bool) \<Rightarrow> nat list \<Rightarrow> nat \<times> v4 \<Rightarrow> (nat \<times> v4) res" where
  "v4_scan_loop fs io sel [] s = Done s"
| "v4_scan_loop fs io sel (b # bs) s =
     (if sel (of_nat b) then res_bind (v4_scan_block fs io (of_nat b) s) (v4_scan_loop fs io sel bs)
      else v4_scan_loop fs io sel bs s)"

definition v4_scan_for_extent_headers :: "v4_fs \<Rightarrow> disk_io \<Rightarrow> nat \<Rightarrow> nat \<Rightarrow> v4 \<Rightarrow> (int \<times> v4) res" where
  "v4_scan_for_extent_headers fs io start_block end_block c =
     (if \<not> io_mem io (vf_bs fs) then Done (-1, c)
      else res_map (\<lambda>(found, c). (int found, c)) (v4_scan_loop fs io (\<lambda>_. True) [start_block..<end_block] (0, c)))"

definition v4_aggressive_scan :: "v4_fs \<Rightarrow> disk_io \<Rightarrow> v4 \<Rightarrow> (int \<times> v4) res" where
  "v4_aggressive_scan fs io c =
     res_map (\<lambda>(r, c). (if r < 0 then r else 0, v4_free_recovered_list c))
       (v4_scan_for_extent_headers fs io (unat (vf_first fs)) (unat (vf_blocks fs)) (c\<lparr>v_total := vf_blocks fs\<rparr>))"

definition v4_aggressive_scan_free_blocks :: "v4_fs \<Rightarrow> disk_io \<Rightarrow> v4 \<Rightarrow> (int \<times> v4) res" where
  "v4_aggressive_scan_free_blocks fs io c =
     (if vf_bitmap fs = None then Done (-1, c)
      else if \<not> io_mem io (vf_bs fs) then Done (-1, c)
      else res_map (\<lambda>(found, c). (0, v4_free_recovered_list c))
             (v4_scan_loop fs io (v4_is_block_free fs) [unat (vf_first fs)..<unat (vf_blocks fs)] (0, c)))"

section \<open>The tree: termination and exactness\<close>

definition v4_fits :: "v4_fs \<Rightarrow> buffer \<Rightarrow> bool" where
  "v4_fits fs buf \<longleftrightarrow> vf_bs fs \<le> length buf"

text \<open>The extents a leaf block contributes.\<close>

definition v4_leaf_list :: "v4_fs \<Rightarrow> buffer \<Rightarrow> ext3_extent list option" where
  "v4_leaf_list fs buf =
     (let eh = header_at buf in
      if uint (eh_entries eh) > calculate_max_entries (int (vf_bs fs)) True \<or> eh_magic eh \<noteq> EXT4_EXT_MAGIC then Some []
      else map_option (filter (\<lambda>e. \<not> (ee_len e = 0 \<or> ee_phys e = 0))) (extents_at buf (unat (eh_entries eh))))"

definition v4_faithful :: "v4_fs \<Rightarrow> disk_io \<Rightarrow> buffer \<Rightarrow> bool" where
  "v4_faithful fs io dev \<longleftrightarrow> orig_faithful io dev \<and> (\<forall>n. vf_malloc fs n)"

lemma v4_rb_copy:
  assumes "v4_faithful fs io dev" "copy_on_device dev (vf_bs fs) e" "o_files st fd \<noteq> None"
  shows "copied dev (vf_bs fs) fd [e] st (v4_rb fs io fd e st)"
  using fix_rbtf_copies [OF _ assms(2,3)] assms(1) by (simp add: v4_rb_def v4_faithful_def)

lemma v4_rb_ends: "vf_bs fs \<le> 32768 \<Longrightarrow> ends fd st (v4_rb fs io fd e st)"
  using fix_rb_ends [of "vf_bs fs" fd st io e] by (simp add: v4_rb_def fix_rb_def)

text \<open>Whatever the copy of one extent does to the output, a leaf does for its usable extents in turn.\<close>

lemma v4_dump_loop_edits:
  assumes cpy: "\<And>e st. P e \<Longrightarrow> o_files st fd \<noteq> None \<Longrightarrow> edits fd (\<lambda>f. w f e) st (cpy e st)"
  shows "those (map (extent_at buf) is) = Some xs \<Longrightarrow> \<forall>e \<in> set xs. \<not> (ee_len e = 0 \<or> ee_phys e = 0) \<longrightarrow> P e \<Longrightarrow>
    o_files st fd \<noteq> None \<Longrightarrow>
    edits fd (\<lambda>f. foldl w f (filter (\<lambda>e. \<not> (ee_len e = 0 \<or> ee_phys e = 0)) xs)) st (v4_dump_loop cpy buf is st)"
proof (induction "is" arbitrary: xs st)
  case Nil
  then show ?case by (auto intro: edits_id)
next
  case (Cons i "is")
  obtain e es where e: "extent_at buf i = Some e" "those (map (extent_at buf) is) = Some es" "xs = e # es"
    using Cons.prems(1) by (auto split: option.splits)
  note IH = Cons.IH [OF e(2)]
  show ?case
  proof (cases "ee_len e = 0 \<or> ee_phys e = 0")
    case True
    then show ?thesis using IH Cons.prems(2,3) e(1,3) by auto
  next
    case False
    then have "edits fd (\<lambda>f. w f e) st (cpy e st)" using cpy Cons.prems(2,3) e(3) by simp
    from edits_bind [OF this, of "\<lambda>f. foldl w f (filter (\<lambda>e. \<not> (ee_len e = 0 \<or> ee_phys e = 0)) es)"
        "\<lambda>(ok, st). if ok then v4_dump_loop cpy buf is st else Done (False, st)"]
    show ?thesis using IH Cons.prems(2) False e(1,3) by simp
  qed
qed

lemma v4_dump_loop_ends:
  assumes "\<And>e st. ends fd st (cpy e st)"
  shows "\<forall>i \<in> set is. \<exists>e. extent_at buf i = Some e \<Longrightarrow> ends fd st (v4_dump_loop cpy buf is st)"
proof (induction "is" arbitrary: st)
  case (Cons i "is")
  then obtain e where "extent_at buf i = Some e" by auto
  then show ?case using Cons by (auto intro!: ends_bind assms)
qed simp

lemma v4_entries_fit:
  assumes "\<not> uint (n :: u16) > calculate_max_entries (int bs) True"
  shows "n = 0 \<or> 12 + 12 * unat n \<le> bs"
proof (cases "12 \<le> bs")
  case True
  then have "int (unat n) \<le> int ((bs - 12) div 12)" using assms by (simp add: calculate_max_entries_nat not_less)
  then have "unat n \<le> (bs - 12) div 12" unfolding of_nat_le_iff .
  then show ?thesis using True by auto
next
  case False
  then have "calculate_max_entries (int bs) True \<le> 0" by (simp add: calculate_max_entries_def)
  then have "uint n = 0" using assms uint_nonnegative [of n] by linarith
  then show ?thesis by (simp add: uint_0_iff)
qed

lemma v4_dump_leaf_edits:
  assumes cpy: "\<And>e st. P e \<Longrightarrow> o_files st fd \<noteq> None \<Longrightarrow> edits fd (\<lambda>f. w f e) st (cpy e st)"
    and "v4_leaf_list fs buf = Some es" "\<forall>e \<in> set es. P e" "o_files st fd \<noteq> None"
  shows "edits fd (\<lambda>f. foldl w f es) st (v4_dump_leaf cpy (vf_bs fs) buf st)"
proof (cases "uint (eh_entries (header_at buf)) > calculate_max_entries (int (vf_bs fs)) True \<or> eh_magic (header_at buf) \<noteq> EXT4_EXT_MAGIC")
  case True
  then have "es = []" "v4_dump_leaf cpy (vf_bs fs) buf st = Done (True, st)"
    using assms(2) by (auto simp: v4_leaf_list_def v4_dump_leaf_def Let_def)
  then show ?thesis using edits_id [OF assms(4)] by simp
next
  case False
  then have d: "v4_dump_leaf cpy (vf_bs fs) buf st = v4_dump_loop cpy buf [0..<unat (eh_entries (header_at buf))] st"
    unfolding v4_dump_leaf_def Let_def by presburger
  obtain xs where xs: "extents_at buf (unat (eh_entries (header_at buf))) = Some xs" "es = filter (\<lambda>e. \<not> (ee_len e = 0 \<or> ee_phys e = 0)) xs"
    using False assms(2) unfolding v4_leaf_list_def Let_def by (auto simp del: de_Morgan_disj)
  then show ?thesis unfolding d xs(2)
    by (intro v4_dump_loop_edits [where P = P, OF cpy xs(1) [unfolded extents_at_def] _ assms(4)]) (use assms(3) xs(2) in simp_all)
qed

lemma v4_dump_leaf_copies:
  assumes "v4_faithful fs io dev" "v4_leaf_list fs buf = Some es" "\<forall>x \<in> set es. copy_on_device dev (vf_bs fs) x" "o_files st fd \<noteq> None"
  shows "copied dev (vf_bs fs) fd es st (v4_dump_leaf_extent fs io fd buf st)"
  unfolding copied_def v4_dump_leaf_extent_def
proof (rule v4_dump_leaf_edits [where P = "copy_on_device dev (vf_bs fs)", OF _ assms(2,3,4)])
  show "edits fd (\<lambda>f. copy_extent dev (vf_bs fs) f e) st (v4_rb fs io fd e st)"
    if "copy_on_device dev (vf_bs fs) e" "o_files st fd \<noteq> None" for e st
    using v4_rb_copy [OF assms(1) that] by (simp add: copied_def)
qed

interpretation v4: tree_reader snd "\<lambda>e. vf_bs (fst e)" "\<lambda>e. v4_valid (fst e)" id "\<lambda>e fd. v4_dump_leaf_extent (fst e) (snd e) fd"
    "\<lambda>e. v4_leaf_list (fst e)" "\<lambda>e. v4_faithful (fst e) (snd e)" "\<lambda>e. v4_fits (fst e)"
proof unfold_locales
  show "copied dev (vf_bs (fst e)) fd es st (v4_dump_leaf_extent (fst e) (snd e) fd buf st)"
    if "v4_faithful (fst e) (snd e) dev" "v4_leaf_list (fst e) buf = Some es" "\<forall>x \<in> set es. copy_on_device dev (vf_bs (fst e)) x"
      "o_files st fd \<noteq> None" for e dev es fd buf st
    using v4_dump_leaf_copies [OF that] .
next
  fix e :: "v4_fs \<times> disk_io" and fd buf and st :: orig
  assume a: "vf_bs (fst e) \<le> 32768" "v4_fits (fst e) buf"
  let ?n = "eh_entries (header_at buf)"
  have "\<forall>i \<in> set [0..<unat ?n]. \<exists>x. extent_at buf i = Some x" if "\<not> uint ?n > calculate_max_entries (int (vf_bs (fst e))) True"
    using v4_entries_fit [OF that] a(2) extent_at_exists [of _ "unat ?n" buf] by (auto simp: v4_fits_def)
  then show "ends fd st (v4_dump_leaf_extent (fst e) (snd e) fd buf st)"
    using v4_dump_loop_ends [OF v4_rb_ends [OF a(1)]] by (auto simp: v4_dump_leaf_extent_def v4_dump_leaf_def Let_def)
qed (simp_all add: v4_faithful_def orig_faithful_def)

section \<open>Exactness of the scan\<close>

text \<open>What a block of the device is to the scan: a leaf with its usable extents, or nothing.\<close>

definition v4_leaf :: "v4_fs \<Rightarrow> buffer \<Rightarrow> ext3_extent list option" where
  "v4_leaf fs buf =
     (let eh = header_at buf in
      if eh_magic eh = EXT4_EXT_MAGIC \<and> eh_depth eh = 0 \<and> validate_extent_header (Some eh) (int (vf_bs fs))
      then map_option (List.map_filter (v4_pick (vf_blocks fs))) (extents_at buf (unat (eh_entries eh))) else None)"

definition v4_calm :: "v4_fs \<Rightarrow> disk_io \<Rightarrow> buffer \<Rightarrow> bool" where
  "v4_calm fs io dev \<longleftrightarrow> v4_faithful fs io dev \<and> (\<forall>x. io_open io x) \<and>
     unat (vf_blocks fs) * vf_bs fs \<le> length dev \<and> 12 \<le> vf_bs fs \<and>
     (\<forall>b < vf_blocks fs. io_blk io b = Some (sub_buf dev (unat b * vf_bs fs) (vf_bs fs)))"

lemma u64_less: "unat (x :: u64) < 18446744073709551616"
  using unsigned_less [of x] by simp

lemma in_blocks_on_device:
  assumes "\<not> ee_phys e + ucast (ee_len e) > tot" "unat tot * bs \<le> length dev"
  shows "copy_on_device dev bs e"
proof -
  have "unat (ee_phys e + ucast (ee_len e)) \<le> unat tot" using assms(1) by (simp add: word_le_nat_alt not_less)
  then have "(unat (ee_phys e) + unat (ee_len e)) * bs \<le> unat tot * bs" by (simp only: unat_phys_len) (rule mult_le_mono1)
  also have "\<dots> \<le> length dev" by (rule assms(2))
  finally show ?thesis by (simp only: copy_on_device_def)
qed

lemma v4_copy_loop_copies:
  assumes "v4_faithful fs io dev" and on: "\<forall>ee e. pick ee = Some e \<longrightarrow> copy_on_device dev (vf_bs fs) e"
  shows "those (map (extent_at buf) is) = Some xs \<Longrightarrow> o_files st fd = Some f \<Longrightarrow>
    \<exists>st'. v4_copy_loop pick weight (v4_rb fs io fd) buf is n st = Done (n + sum_list (map weight (List.map_filter pick xs)), st') \<and>
      o_files st' = (o_files st)(fd \<mapsto> foldl (copy_extent dev (vf_bs fs)) f (List.map_filter pick xs))"
proof (induction "is" arbitrary: xs st f n)
  case Nil
  then show ?case by (simp add: fun_upd_idem map_filter_def)
next
  case (Cons i "is")
  obtain x es' where x: "extent_at buf i = Some x" "those (map (extent_at buf) is) = Some es'" "xs = x # es'"
    using Cons.prems(1) by (auto split: option.splits)
  show ?case
  proof (cases "pick x")
    case None
    then show ?thesis using Cons.IH [OF x(2) Cons.prems(2), of n] x(1,3) by (auto simp: map_filter_def)
  next
    case (Some e)
    obtain st1 where st1: "v4_rb fs io fd e st = Done (True, st1)" "o_files st1 = (o_files st)(fd \<mapsto> copy_extent dev (vf_bs fs) f e)"
      using v4_rb_copy [OF assms(1), of e st fd] on Some Cons.prems(2) by (auto simp: copied_iff)
    have f1: "o_files st1 fd = Some (copy_extent dev (vf_bs fs) f e)" using st1(2) by simp
    let ?g = "List.map_filter pick es'" and ?n = "n + weight e"
    obtain st' where st': "v4_copy_loop pick weight (v4_rb fs io fd) buf is ?n st1 = Done (?n + sum_list (map weight ?g), st')"
      "o_files st' = (o_files st1)(fd \<mapsto> foldl (copy_extent dev (vf_bs fs)) (copy_extent dev (vf_bs fs) f e) ?g)"
      using Cons.IH [OF x(2) f1, of ?n] by blast
    have m: "List.map_filter pick xs = e # ?g" using Some x(3) by (simp add: map_filter_def)
    have "o_files st' = (o_files st)(fd \<mapsto> foldl (copy_extent dev (vf_bs fs)) f (List.map_filter pick xs))"
      unfolding st'(2) st1(2) fun_upd_upd m by simp
    moreover have "v4_copy_loop pick weight (v4_rb fs io fd) buf (i # is) n st = Done (n + sum_list (map weight (List.map_filter pick xs)), st')"
      using Some x(1) st1(1) st'(1) m by (simp add: add.assoc)
    ultimately show ?thesis by blast
  qed
qed

text \<open>The effect of one block on the output directory.\<close>

definition v4_effect :: "v4_fs \<Rightarrow> buffer \<Rightarrow> nat \<Rightarrow> (string \<Rightarrow> buffer option) \<Rightarrow> string \<Rightarrow> buffer option" where
  "v4_effect fs dev b m =
     (case v4_leaf fs (sub_buf dev (b * vf_bs fs) (vf_bs fs)) of
        None \<Rightarrow> m
      | Some es \<Rightarrow> m(v4_aggressive_name (of_nat b) := if es = [] then None else Some (foldl (copy_extent dev (vf_bs fs)) [] es)))"

lemma v4_scan_block_effect:
  assumes calm: "v4_calm fs io dev" and b: "b < unat (vf_blocks fs)"
    and c: "of_nat b \<notin> set (v_list c)" "v_total c = vf_blocks fs"
  shows "\<exists>found' c'. v4_scan_block fs io (of_nat b) (found, c) = Done (found', c') \<and>
    o_files (v_io c') = v4_effect fs dev b (o_files (v_io c)) \<and> v_total c' = v_total c \<and> set (v_list c') \<subseteq> insert (of_nat b) (set (v_list c))"
proof -
  let ?buf = "sub_buf dev (b * vf_bs fs) (vf_bs fs)" and ?n = "v4_aggressive_name (of_nat b)" and ?h = "header_at (sub_buf dev (b * vf_bs fs) (vf_bs fs))"
  have ub: "unat (of_nat b :: blk64_t) = b" using b u64_less [of "vf_blocks fs"] by (simp add: unat_of_nat)
  have "of_nat b < vf_blocks fs" using b ub by (simp add: word_less_nat_alt)
  then have rd: "io_blk io (of_nat b) = Some ?buf" using calm ub unfolding v4_calm_def by metis
  have "(b + 1) * vf_bs fs \<le> unat (vf_blocks fs) * vf_bs fs" using b by (intro mult_le_mono1) simp
  then have lb: "length ?buf = vf_bs fs" using calm by (intro length_sub_buf) (simp add: v4_calm_def)
  have nm: "\<not> v4_is_block_recovered c (of_nat b)" using c(1) by (simp add: v4_is_block_recovered_def)
  consider "eh_magic ?h \<noteq> EXT4_EXT_MAGIC" | "eh_magic ?h = EXT4_EXT_MAGIC" "eh_depth ?h \<noteq> 0 \<or> \<not> validate_extent_header (Some ?h) (int (vf_bs fs))"
    | "eh_magic ?h = EXT4_EXT_MAGIC" "eh_depth ?h = 0" "validate_extent_header (Some ?h) (int (vf_bs fs))" by blast
  then show ?thesis
  proof cases
    case 1
    then show ?thesis using nm rd by (auto simp: v4_scan_block_def v4_effect_def v4_leaf_def Let_def)
  next
    case 2
    then have "v4_leaf fs ?buf = None" by (auto simp: v4_leaf_def Let_def)
    then show ?thesis using 2 nm rd by (auto simp: v4_scan_block_def v4_recover_orphaned_extent_block_def v4_effect_def Let_def)
  next
    case 3
    have "12 + 12 * unat (eh_entries ?h) \<le> length ?buf" unfolding lb using 3(3) calm by (intro validate_entries_fit) (auto simp: v4_calm_def)
    then obtain xs where xs: "extents_at ?buf (unat (eh_entries ?h)) = Some xs" by (simp add: fmt_simps)
    let ?g = "List.map_filter (v4_pick (vf_blocks fs)) xs" and ?st = "(v_io c)\<lparr>o_files := (o_files (v_io c))(?n \<mapsto> []), o_out_pos := 0\<rparr>"
    have f0: "o_files ?st ?n = Some []" by simp
    have fa: "v4_faithful fs io dev" "unat (vf_blocks fs) * vf_bs fs \<le> length dev" using calm by (simp_all add: v4_calm_def)
    then have "\<forall>ee e. v4_pick (vf_blocks fs) ee = Some e \<longrightarrow> copy_on_device dev (vf_bs fs) e"
      using in_blocks_on_device by (auto simp: v4_pick_def split: if_splits)
    from v4_copy_loop_copies [where pick = "v4_pick (vf_blocks fs)", OF fa(1) this xs [unfolded extents_at_def] f0, where weight = "\<lambda>_. 1" and n = 0]
    obtain st' where st': "v4_leaf_loop (v4_rb fs io ?n) (v_total c) ?buf [0..<unat (eh_entries ?h)] 0 ?st = Done (length ?g, st')"
      "o_files st' = (o_files (v_io c))(?n \<mapsto> foldl (copy_extent dev (vf_bs fs)) [] ?g)"
      using c(2) by (auto simp: v4_leaf_loop_def sum_list_triv)
    have op: "io_open io ?n" "\<And>n. vf_malloc fs n" using calm by (simp_all add: v4_calm_def v4_faithful_def)
    have leaf: "v4_leaf fs ?buf = Some ?g" using 3 xs by (simp add: v4_leaf_def Let_def)
    show ?thesis
    proof (cases "?g = []")
      case True
      then have e: "v4_recover_orphaned_extent_block fs io (of_nat b) ?buf c = Done (0, c\<lparr>v_io := st'\<lparr>o_files := (o_files st')(?n := None)\<rparr>\<rparr>)"
        using 3 op st'(1) by (simp add: v4_recover_orphaned_extent_block_def Let_def)
      have "(o_files st')(?n := None) = v4_effect fs dev b (o_files (v_io c))"
        unfolding st'(2) fun_upd_upd v4_effect_def leaf using True by simp
      then show ?thesis using e nm rd 3(1) by (auto simp: v4_scan_block_def)
    next
      case False
      then have e: "v4_recover_orphaned_extent_block fs io (of_nat b) ?buf c =
          Done (1, c\<lparr>v_io := st', v_list := of_nat b # v_list c, v_aggressive := v_aggressive c + 1\<rparr>)"
        using 3 op st'(1) by (simp add: v4_recover_orphaned_extent_block_def v4_mark_block_recovered_def Let_def)
      have "o_files st' = v4_effect fs dev b (o_files (v_io c))"
        unfolding st'(2) v4_effect_def leaf using False by simp
      then show ?thesis using e nm rd 3(1) by (auto simp: v4_scan_block_def)
    qed
  qed
qed

lemma v4_scan_loop_effect:
  assumes calm: "v4_calm fs io dev"
  shows "\<forall>b \<in> set bs. b < unat (vf_blocks fs) \<Longrightarrow> distinct bs \<Longrightarrow> \<forall>b \<in> set bs. of_nat b \<notin> set (v_list c) \<Longrightarrow> v_total c = vf_blocks fs \<Longrightarrow>
    \<exists>found' c'. v4_scan_loop fs io (\<lambda>_. True) bs (found, c) = Done (found', c') \<and>
      o_files (v_io c') = foldl (\<lambda>m b. v4_effect fs dev b m) (o_files (v_io c)) bs"
proof (induction bs arbitrary: found c)
  case (Cons b bs)
  have b: "b < unat (vf_blocks fs)" "of_nat b \<notin> set (v_list c)" using Cons.prems by auto
  obtain f1 c1 where c1: "v4_scan_block fs io (of_nat b) (found, c) = Done (f1, c1)" "o_files (v_io c1) = v4_effect fs dev b (o_files (v_io c))"
    "v_total c1 = v_total c" "set (v_list c1) \<subseteq> insert (of_nat b) (set (v_list c))"
    using v4_scan_block_effect [OF calm b Cons.prems(4)] by blast
  have "of_nat b' \<notin> set (v_list c1)" if b': "b' \<in> set bs" for b'
  proof
    assume "of_nat b' \<in> set (v_list c1)"
    then have "(of_nat b' :: blk64_t) = of_nat b" using c1(4) Cons.prems(3) b' by auto
    then have "unat (of_nat b' :: blk64_t) = unat (of_nat b :: blk64_t)" by simp
    moreover have "b' < 2 ^ 64" "b < 2 ^ 64"
      using Cons.prems(1) b' u64_less [of "vf_blocks fs"] by (auto intro: less_trans)
    ultimately have "b' = b" by (simp add: unat_of_nat)
    then show False using Cons.prems(2) b' by simp
  qed
  then obtain f2 c2 where "v4_scan_loop fs io (\<lambda>_. True) bs (f1, c1) = Done (f2, c2)"
    "o_files (v_io c2) = foldl (\<lambda>m b. v4_effect fs dev b m) (o_files (v_io c1)) bs"
    using Cons.IH [of c1 f1] Cons.prems c1(3) by auto
  then show ?case using c1(1,2) by simp
qed simp

lemma v4_effects_lookup:
  assumes "\<forall>b \<in> set bs. b < 2 ^ 64" "distinct bs"
  shows "foldl (\<lambda>m b. v4_effect fs dev b m) m bs x =
    (case find (\<lambda>b. v4_leaf fs (sub_buf dev (b * vf_bs fs) (vf_bs fs)) \<noteq> None \<and> v4_aggressive_name (of_nat b) = x) bs of
       None \<Rightarrow> m x | Some b \<Rightarrow> v4_effect fs dev b m x)"
  using assms
proof (induction bs arbitrary: m)
  case (Cons b bs)
  let ?L = "\<lambda>b. v4_leaf fs (sub_buf dev (b * vf_bs fs) (vf_bs fs))" and ?N = "\<lambda>b. v4_aggressive_name (of_nat b)"
  have inj: "b' = b" if "b' \<in> set bs" "?N b' = ?N b" for b'
  proof -
    have "unat (of_nat b' :: blk64_t) = unat (of_nat b :: blk64_t)" using that(2) by (simp add: v4_aggressive_name_def udec_inj)
    then show ?thesis using Cons.prems(1) that(1) by (simp add: unat_of_nat)
  qed
  show ?case
  proof (cases "?L b \<noteq> None \<and> ?N b = x")
    case True
    then have "find (\<lambda>b. ?L b \<noteq> None \<and> ?N b = x) bs = None"
      using inj Cons.prems(2) by (auto simp: find_None_iff)
    then show ?thesis using Cons True by simp
  next
    case False
    then have e: "v4_effect fs dev b m x = m x" by (auto simp: v4_effect_def split: option.splits)
    have "v4_effect fs dev b' (v4_effect fs dev b m) x = v4_effect fs dev b' m x" if "?N b' = x" "?L b' \<noteq> None" for b'
      using that by (auto simp: v4_effect_def split: option.splits)
    note E = this
    show ?thesis
    proof (cases "find (\<lambda>b. ?L b \<noteq> None \<and> ?N b = x) bs")
      case None
      then show ?thesis using Cons e False by simp
    next
      case (Some b')
      then have "?N b' = x" "?L b' \<noteq> None" by (auto simp: find_Some_iff)
      then show ?thesis using Cons Some False E by auto
    qed
  qed
qed simp

section \<open>Properties\<close>

text \<open>Property C12: the device scan of version 0.4 is exact.  On a device without errors it ends with result 0; every block of
  the scanned range that is a valid leaf with usable extents has an output that holds exactly these extents at their
  logical offsets, and no file changes but the outputs named after valid leaves.\<close>

theorem v4_aggressive_scan_exact:
  assumes "v4_calm fs io dev" and "v_list c = []"
  shows "\<exists>c'. v4_aggressive_scan fs io c = Done (0, c') \<and>
    (\<forall>b es. unat (vf_first fs) \<le> b \<longrightarrow> b < unat (vf_blocks fs) \<longrightarrow>
       v4_leaf fs (sub_buf dev (b * vf_bs fs) (vf_bs fs)) = Some es \<longrightarrow> es \<noteq> [] \<longrightarrow>
       o_files (v_io c') (v4_aggressive_name (of_nat b)) = Some (foldl (copy_extent dev (vf_bs fs)) [] es)) \<and>
    (\<forall>x. (\<forall>b. unat (vf_first fs) \<le> b \<longrightarrow> b < unat (vf_blocks fs) \<longrightarrow>
        v4_leaf fs (sub_buf dev (b * vf_bs fs) (vf_bs fs)) \<noteq> None \<longrightarrow> x \<noteq> v4_aggressive_name (of_nat b)) \<longrightarrow>
      o_files (v_io c') x = o_files (v_io c) x)"
proof -
  let ?bs = "[unat (vf_first fs)..<unat (vf_blocks fs)]" and ?c = "c\<lparr>v_total := vf_blocks fs\<rparr>"
  let ?L = "\<lambda>b. v4_leaf fs (sub_buf dev (b * vf_bs fs) (vf_bs fs))" and ?N = "\<lambda>b. v4_aggressive_name (of_nat b)"
  have mem: "io_mem io (vf_bs fs)" using assms(1) by (simp add: v4_calm_def v4_faithful_def orig_faithful_def)
  obtain f' c1 where c1: "v4_scan_loop fs io (\<lambda>_. True) ?bs (0, ?c) = Done (f', c1)"
    "o_files (v_io c1) = foldl (\<lambda>m b. v4_effect fs dev b m) (o_files (v_io c)) ?bs"
    using v4_scan_loop_effect [OF assms(1), of ?bs ?c 0] assms(2) by auto
  define c' where "c' = v4_free_recovered_list c1"
  have r: "v4_aggressive_scan fs io c = Done (0, c')"
    using c1(1) mem by (simp add: v4_aggressive_scan_def v4_scan_for_extent_headers_def c'_def)
  have lt: "\<forall>b \<in> set ?bs. b < 2 ^ 64" using u64_less [of "vf_blocks fs"] by (auto intro: less_trans)
  have look: "o_files (v_io c') x = (case find (\<lambda>b. ?L b \<noteq> None \<and> ?N b = x) ?bs of
      None \<Rightarrow> o_files (v_io c) x | Some b \<Rightarrow> v4_effect fs dev b (o_files (v_io c)) x)" for x
    using v4_effects_lookup [OF lt] c1(2) by (simp add: c'_def v4_free_recovered_list_def)
  have "o_files (v_io c') (?N b) = Some (foldl (copy_extent dev (vf_bs fs)) [] es)"
    if b: "unat (vf_first fs) \<le> b" "b < unat (vf_blocks fs)" "?L b = Some es" "es \<noteq> []" for b es
  proof -
    have bs: "b \<in> set ?bs" using b by simp
    then have "find (\<lambda>b'. ?L b' \<noteq> None \<and> ?N b' = ?N b) ?bs \<noteq> None" using b(3) by (auto simp: find_None_iff)
    then obtain b' where f: "find (\<lambda>b'. ?L b' \<noteq> None \<and> ?N b' = ?N b) ?bs = Some b'" by blast
    then have b': "b' \<in> set ?bs" "?N b' = ?N b" by (auto simp: find_Some_iff)
    have "unat (of_nat b' :: blk64_t) = unat (of_nat b :: blk64_t)" using b'(2) by (simp add: v4_aggressive_name_def udec_inj)
    then have "b' = b" using lt b'(1) bs by (simp add: unat_of_nat)
    then show ?thesis using look [of "?N b"] f b(3,4) by (simp add: v4_effect_def)
  qed
  moreover have "o_files (v_io c') x = o_files (v_io c) x"
    if "\<forall>b. unat (vf_first fs) \<le> b \<longrightarrow> b < unat (vf_blocks fs) \<longrightarrow> ?L b \<noteq> None \<longrightarrow> x \<noteq> ?N b" for x
  proof -
    have "find (\<lambda>b. ?L b \<noteq> None \<and> ?N b = x) ?bs = None" using that by (auto simp: find_None_iff)
    then show ?thesis using look [of x] by simp
  qed
  ultimately show ?thesis using r by blast
qed


text \<open>A device of three blocks, of which block 2 is a leaf that names the data in block 1.\<close>

definition small_leaf :: buffer where
  "small_leaf = le_bytes 2 0xF30A @ le_bytes 2 1 @ le_bytes 2 1 @ le_bytes 2 0 @ le_bytes 4 0 @
                le_bytes 4 0 @ le_bytes 2 1 @ le_bytes 2 0 @ le_bytes 4 1"

definition small_dev :: buffer where
  "small_dev = replicate 24 0 @ map of_nat [1..<25] @ small_leaf"

text \<open>A root whose only slot names block 2, with entry count \<open>n\<close>.\<close>

definition small_root :: "nat \<Rightarrow> buffer" where
  "small_root n = le_bytes 2 0xF30A @ le_bytes 2 n @ drop 4 (idx_node 2)"

definition small_io :: disk_io where
  "small_io = first_io\<lparr>io_read := \<lambda>c off n. Some (take n (drop off small_dev)),
     io_blk := \<lambda>b. Some (sub_buf small_dev (unat b * 24) 24),
     io_extent_open := \<lambda>n. Some (small_root (if n = 7 then 1 else 0))\<rparr>"

definition small_fs :: v4_fs where
  "small_fs = \<lparr>vf_bs = 24, vf_first = 0, vf_blocks = 3, vf_inodes = 9, vf_last_orphan = 0, vf_compat = 0, vf_journal_inum = 0,
     vf_groups = 0, vf_inodes_per_group = 0, vf_inode_size = 128, vf_table_loc = \<lambda>_. 0, vf_journal_open = False, vf_journal_seek = \<lambda>_. True,
     vf_journal_read = \<lambda>_ _. None, vf_truncate = \<lambda>_. True, vf_rename = \<lambda>_. True, vf_bitmap = None, vf_malloc = \<lambda>_. True\<rparr>"

definition small_ctx :: v4 where
  "small_ctx = \<lparr>v_io = \<lparr>o_files = Map.empty, o_dev_pos = 0, o_out_pos = 0, o_calls = 0, o_flag = False\<rparr>,
     v_files_recovered = 0, v_files_failed = 0, v_orphan = 0, v_aggressive = 0, v_journal = 0, v_total = 0,
     v_has_journal = False, v_journal_start = 0, v_journal_len = 0, v_list = []\<rparr>"

lemma small_example:
  "v4_faithful small_fs small_io small_dev" "sub_buf small_dev 48 24 = small_leaf" "length small_dev = 72"
  "header_at small_leaf = \<lparr>eh_magic = 0xF30A, eh_entries = 1, eh_max = 1, eh_depth = 0\<rparr>" "extent_at small_leaf 0 = Some first_extent"
  "copy_extent small_dev 24 [] first_extent = map of_nat [1..<25]"
proof -
  show l: "length small_dev = 72" by (simp add: small_dev_def small_leaf_def)
  then show "v4_faithful small_fs small_io small_dev"
    unfolding v4_faithful_def orig_faithful_def by (auto simp: small_io_def first_io_def small_fs_def)
  show "sub_buf small_dev 48 24 = small_leaf" by (simp add: small_dev_def small_leaf_def sub_buf_def)
  show "header_at small_leaf = \<lparr>eh_magic = 0xF30A, eh_entries = 1, eh_max = 1, eh_depth = 0\<rparr>" "extent_at small_leaf 0 = Some first_extent"
    by (simp_all add: small_leaf_def header_at_def extent_at_def le16_at_def le32_at_def sub_buf_def first_extent_def)
  have "sub_buf small_dev 24 24 = map of_nat [1..<25]" by (simp add: small_dev_def sub_buf_def)
  then show "copy_extent small_dev 24 [] first_extent = map of_nat [1..<25]"
    by (simp add: copy_extent_def first_extent_def ee_phys_def file_write_def)
qed

theorem v4_aggressive_scan_exact_witness:
  "\<exists>c'. v4_aggressive_scan small_fs small_io small_ctx = Done (0, c') \<and>
     o_files (v_io c') ''aggressive_2'' = Some (map of_nat [1..<25])"
proof -
  have calm: "v4_calm small_fs small_io small_dev"
    using small_example(1,3) by (simp add: v4_calm_def small_fs_def small_io_def first_io_def)
  have "calculate_max_entries 24 True = 1" by (simp add: calculate_max_entries_def)
  then have leaf: "v4_leaf small_fs (sub_buf small_dev (2 * 24) 24) = Some [first_extent]"
    using small_example(2,4,5)
    by (simp add: v4_leaf_def small_fs_def EXT4_EXT_MAGIC_def validate_extent_header_def extents_at_def v4_pick_def map_filter_def first_extent_def ee_phys_def)
  have nm: "v4_aggressive_name (of_nat 2) = ''aggressive_2''" by (simp add: v4_aggressive_name_def) code_simp
  from v4_aggressive_scan_exact [OF calm, of small_ctx]
  obtain c' where c': "v4_aggressive_scan small_fs small_io small_ctx = Done (0, c')"
    "\<And>b es. b < 3 \<Longrightarrow> v4_leaf small_fs (sub_buf small_dev (b * 24) 24) = Some es \<Longrightarrow> es \<noteq> [] \<Longrightarrow>
       o_files (v_io c') (v4_aggressive_name (of_nat b)) = Some (foldl (copy_extent small_dev 24) [] es)"
    by (auto simp: small_ctx_def small_fs_def)
  then show ?thesis using c'(2) [of 2 "[first_extent]"] leaf small_example(6) nm by simp
qed

text \<open>Property C32: the tree recovery of version 0.4 is exact where the root is intact.  When the entries the root announces lead to
  a readable tree on the device and no output is there yet, the call returns 0 and the output holds exactly the extents of
  the tree, at their logical offsets; no other file changes.\<close>

theorem v4_recover_tree_exact:
  assumes "v4_faithful fs io dev" "io_open io (fallback_name ino)" "o_file st (fallback_name ino) = []" "io_extent_open io ino = Some ib"
    and "root_extents (v4_valid fs) (v4_partial fs) (walk_extents (v4_valid fs) (v4_leaf_list fs) (io_blk io) k) (io_blk io) ib
           [0..<v4_max_scan ib] = Some es"
    and "\<forall>e \<in> set es. copy_on_device dev (vf_bs fs) e"
  shows "\<exists>st'. v4_recover_from_extent_tree k fs io ino st = Done (0, st') \<and>
    o_files st' = (o_files st)(fallback_name ino \<mapsto> foldl (copy_extent dev (vf_bs fs)) [] es)"
proof -
  let ?n = "fallback_name ino"
  let ?st = "st\<lparr>o_files := (o_files st)(?n \<mapsto> []), o_out_pos := 0\<rparr>"
  have "copied dev (vf_bs fs) ?n es ?st (v4_parse_ino_extent k fs io ?n ib ?st)"
    using v4.roots_copies [of "(fs, io)" dev "v4_partial fs" k ib "[0..<v4_max_scan ib]" es ?st ?n] assms(1,5,6) v4.calm_mem [of "(fs, io)" dev]
    by (simp add: v4_parse_ino_extent_def v4_extent_tree_travel_def)
  then obtain st' where st': "v4_parse_ino_extent k fs io ?n ib ?st = Done (True, st')"
    "o_files st' = (o_files ?st)(?n \<mapsto> foldl (copy_extent dev (vf_bs fs)) [] es)"
    unfolding copied_iff by auto
  have "v4_create_recovery_file io ino st = (0, ?st)" using assms(2,3) by (simp add: v4_create_recovery_file_def Let_def)
  then have "v4_recover_from_extent_tree k fs io ino st = Done (0, st')"
    using assms(4) st'(1) by (simp add: v4_recover_from_extent_tree_def)
  moreover have "o_files st' = (o_files st)(?n \<mapsto> foldl (copy_extent dev (vf_bs fs)) [] es)" unfolding st'(2) by simp
  ultimately show ?thesis by blast
qed

text \<open>A root whose entry count the deletion has cleared is never read.  Although the slots may still name every block of
  the file, no block is read, the output stays empty, and the call reports success.\<close>

theorem v4_cleared_root_empty:
  assumes "io_extent_open io ino = Some ib" "eh_entries (header_at ib) = 0"
    and "io_mem io (vf_bs fs)" "io_open io (fallback_name ino)" "o_file st (fallback_name ino) = []"
  shows "\<exists>st'. v4_recover_from_extent_tree k fs io ino st = Done (0, st') \<and> o_files st' = (o_files st)(fallback_name ino \<mapsto> [])"
  using assms
  by (simp add: v4_recover_from_extent_tree_def v4_create_recovery_file_def Let_def v4_parse_ino_extent_def v4_max_scan_def)

lemma small_roots:
  "io_extent_open small_io 7 = Some (small_root 1)"
  "io_extent_open small_io 8 = Some (small_root 0)"
  "eh_entries (header_at (small_root 1)) = 1"
  "eh_entries (header_at (small_root 0)) = 0"
  "idx_at (small_root 1) 0 = Some \<lparr>ei_block = 0, ei_leaf = 2, ei_leaf_hi = 0\<rparr>"
  "fallback_name 7 = ''7_file''" "fallback_name 8 = ''8_file''"
  "io_open small_io x" "io_mem small_io n" "o_file (v_io small_ctx) x = []"
  by (simp_all add: small_io_def first_io_def small_ctx_def o_file_def small_root_def header_at_def idx_at_def idx_node_def le16_at_def
      le32_at_def sub_buf_def) code_simp+

theorem v4_recover_tree_exact_witness:
  "\<exists>st'. v4_recover_from_extent_tree 1 small_fs small_io 7 (v_io small_ctx) = Done (0, st') \<and> o_files st' ''7_file'' = Some (map of_nat [1..<25])"
proof -
  let ?ib = "small_root 1"
  have m: "calculate_max_entries 24 True = 1" by (simp add: calculate_max_entries_def)
  then have leaf: "v4_leaf_list small_fs small_leaf = Some [first_extent]" "v4_valid small_fs small_leaf"
    using small_example(4,5)
    by (simp_all add: v4_leaf_list_def v4_valid_def small_fs_def EXT4_EXT_MAGIC_def validate_extent_header_def extents_at_def first_extent_def ee_phys_def)
  have "root_extents (v4_valid small_fs) (v4_partial small_fs) (walk_extents (v4_valid small_fs) (v4_leaf_list small_fs) (io_blk small_io) 1)
      (io_blk small_io) ?ib [0..<v4_max_scan ?ib] = Some [first_extent]"
    using small_roots(3,5) leaf small_example(2,4) by (simp add: v4_max_scan_def small_io_def ei_phys_def)
  moreover have "copy_on_device small_dev (vf_bs small_fs) first_extent"
    using small_example(3) by (simp add: copy_on_device_def first_extent_def ee_phys_def small_fs_def)
  ultimately show ?thesis
    using v4_recover_tree_exact [OF small_example(1), of 7 "v_io small_ctx" ?ib 1 "[first_extent]"] small_roots(1,6,8,10) small_example(6)
    by (auto simp: small_fs_def)
qed

theorem v4_cleared_root_empty_witness:
  "\<exists>st'. v4_recover_from_extent_tree 1 small_fs small_io 8 (v_io small_ctx) = Done (0, st') \<and> o_files st' ''8_file'' = Some []"
  using v4_cleared_root_empty [OF small_roots(2,4), of small_fs "v_io small_ctx" 1] small_roots(7-10) by auto

end
