(* ===== verification/Journal4.thy ===== *)
theory Journal4
  imports Version4 Journal_Scan
begin

text \<open>
  The journal recovery of version 0.4 (\<^verbatim>\<open>improved/journal_recovery.c\<close>).  A journalled inode is written to a temporary file, which
  replaces the output only when it is larger.  The arrays \<open>recovered_inodes\<close> and \<open>recovered_sizes\<close> are one list of pairs; block counts
  are natural numbers, and so are journal block numbers, which stay far below 2^64 because the journal length is a 32-bit field.
\<close>

section \<open>Which inodes were recovered\<close>

type_synonym v4_tracked = "(u32 \<times> u64) list"

primrec v4_already_recovered_larger :: "v4_tracked \<Rightarrow> u32 \<Rightarrow> u64 \<Rightarrow> bool" where
  "v4_already_recovered_larger [] ino sz = False"
| "v4_already_recovered_larger (e # es) ino sz =
     (if fst e = ino then snd e \<ge> sz else v4_already_recovered_larger es ino sz)"

primrec v4_mark_loop :: "v4_tracked \<Rightarrow> u32 \<Rightarrow> u64 \<Rightarrow> v4_tracked option" where
  "v4_mark_loop [] ino sz = None"
| "v4_mark_loop (e # es) ino sz =
     (if fst e = ino then Some ((ino, sz) # es) else map_option ((#) e) (v4_mark_loop es ino sz))"

definition v4_mark_recovered :: "v4_tracked \<Rightarrow> u32 \<Rightarrow> u64 \<Rightarrow> v4_tracked" where
  "v4_mark_recovered vs ino sz =
     (case v4_mark_loop vs ino sz of
        Some vs' \<Rightarrow> vs'
      | None \<Rightarrow> if length vs < MAX_RECOVERED_INODES then vs @ [(ino, sz)] else vs)"

section \<open>Inode tables\<close>

text \<open>Here the size of a table is computed in 32 bits.\<close>

definition v4_table_blocks :: "v4_fs \<Rightarrow> blk64_t" where
  "v4_table_blocks fs =
     ucast ((vf_inodes_per_group fs * vf_inode_size fs + of_nat (vf_bs fs) - 1) div of_nat (vf_bs fs) :: u32)"

definition v4_in_table :: "v4_fs \<Rightarrow> blk64_t \<Rightarrow> u32 \<Rightarrow> bool" where
  "v4_in_table fs fs_block g \<longleftrightarrow>
     fs_block \<ge> vf_table_loc fs g \<and> fs_block < vf_table_loc fs g + v4_table_blocks fs"

primrec v4_group_loop :: "v4_fs \<Rightarrow> blk64_t \<Rightarrow> u32 list \<Rightarrow> u32 option" where
  "v4_group_loop fs fs_block [] = None"
| "v4_group_loop fs fs_block (g # gs) = (if v4_in_table fs fs_block g then Some g else v4_group_loop fs fs_block gs)"

definition v4_is_inode_table_block :: "v4_fs \<Rightarrow> blk64_t \<Rightarrow> bool" where
  "v4_is_inode_table_block fs fs_block = (v4_group_loop fs fs_block (map of_nat [0..<unat (vf_groups fs)]) \<noteq> None)"

definition v4_calc_inode_from_block :: "v4_fs \<Rightarrow> blk64_t \<Rightarrow> nat \<Rightarrow> u32" where
  "v4_calc_inode_from_block fs fs_block offset_in_block =
     (case v4_group_loop fs fs_block (map of_nat [0..<unat (vf_groups fs)]) of
        None \<Rightarrow> 0
      | Some g \<Rightarrow>
          (let block_offset = fs_block - vf_table_loc fs g;
               inodes_per_block = vf_bs fs div unat (vf_inode_size fs);
               local_inode = ucast (block_offset * of_nat inodes_per_block +
                                    of_nat (offset_in_block div unat (vf_inode_size fs))) :: u32
           in g * vf_inodes_per_group fs + local_inode + 1))"

section \<open>One journalled inode\<close>

text \<open>\<^verbatim>\<open>pread(fd, buf, blocksize, block * blocksize) == blocksize\<close>\<close>

definition v4_pread :: "v4_fs \<Rightarrow> disk_io \<Rightarrow> blk64_t \<Rightarrow> orig \<Rightarrow> buffer option \<times> orig" where
  "v4_pread fs io blk st =
     ((case io_read io (o_calls st) (unat blk * vf_bs fs) (vf_bs fs) of
         None \<Rightarrow> None
       | Some d \<Rightarrow> if length d = vf_bs fs then Some d else None),
      st\<lparr>o_calls := o_calls st + 1\<rparr>)"

definition v4_child_out :: "blk64_t \<Rightarrow> blk64_t \<Rightarrow> bool" where
  "v4_child_out tot blk \<longleftrightarrow> blk = 0 \<or> blk \<ge> tot"

primrec v4_any_valid :: "v4_fs \<Rightarrow> disk_io \<Rightarrow> blk64_t \<Rightarrow> buffer \<Rightarrow> nat list \<Rightarrow> orig \<Rightarrow> (bool \<times> orig) res" where
  "v4_any_valid fs io tot i_blk [] st = Done (False, st)"
| "v4_any_valid fs io tot i_blk (i # is) st =
     (case idx_at i_blk i of None \<Rightarrow> Undefined
      | Some idx \<Rightarrow>
          if v4_child_out tot (ei_phys idx) then v4_any_valid fs io tot i_blk is st
          else if \<not> io_mem io (vf_bs fs) then v4_any_valid fs io tot i_blk is st
          else (case v4_pread fs io (ei_phys idx) st of
                  (None, st) \<Rightarrow> v4_any_valid fs io tot i_blk is st
                | (Some vbuf, st) \<Rightarrow>
                    if eh_magic (header_at vbuf) = EXT4_EXT_MAGIC \<and> eh_entries (header_at vbuf) > 0 then Done (True, st)
                    else v4_any_valid fs io tot i_blk is st))"

text \<open>The extents of a leaf, in the inode or in a block; the length of an unwritten extent is made initialised.\<close>

definition v4_pick_init :: "blk64_t \<Rightarrow> ext3_extent \<Rightarrow> ext3_extent option" where
  "v4_pick_init tot ee =
     (let len = init_len (ee_len ee) in
      if len = 0 \<or> ee_phys ee = 0 then None
      else if ee_phys ee + ucast len > tot then None
      else Some (ee\<lparr>ee_len := len\<rparr>))"

definition v4_jleaf_loop ::
  "(ext3_extent \<Rightarrow> orig \<Rightarrow> (bool \<times> orig) res) \<Rightarrow> blk64_t \<Rightarrow> buffer \<Rightarrow> nat list \<Rightarrow> nat \<Rightarrow> orig \<Rightarrow> (nat \<times> orig) res" where
  "v4_jleaf_loop cpy tot = v4_copy_loop (v4_pick_init tot) (\<lambda>e. unat (ee_len e)) cpy"

primrec v4_ml2_loop ::
  "v4_fs \<Rightarrow> disk_io \<Rightarrow> string \<Rightarrow> blk64_t \<Rightarrow> buffer \<Rightarrow> nat list \<Rightarrow> nat \<Rightarrow> orig \<Rightarrow> (nat \<times> orig) res" where
  "v4_ml2_loop fs io fd tot cbuf [] n st = Done (n, st)"
| "v4_ml2_loop fs io fd tot cbuf (j # js) n st =
     (case idx_at cbuf j of None \<Rightarrow> Undefined
      | Some idx2 \<Rightarrow>
          if v4_child_out tot (ei_phys idx2) then v4_ml2_loop fs io fd tot cbuf js n st
          else if \<not> io_mem io (vf_bs fs) then v4_ml2_loop fs io fd tot cbuf js n st
          else (case v4_pread fs io (ei_phys idx2) st of
                  (None, st) \<Rightarrow> v4_ml2_loop fs io fd tot cbuf js n st
                | (Some lbuf, st) \<Rightarrow>
                    if eh_magic (header_at lbuf) = EXT4_EXT_MAGIC \<and> eh_depth (header_at lbuf) = 0
                    then res_bind (v4_jleaf_loop (v4_rb fs io fd) tot lbuf [0..<unat (eh_entries (header_at lbuf))] n st)
                           (\<lambda>(n, st). v4_ml2_loop fs io fd tot cbuf js n st)
                    else v4_ml2_loop fs io fd tot cbuf js n st))"

primrec v4_ml_loop ::
  "v4_fs \<Rightarrow> disk_io \<Rightarrow> string \<Rightarrow> blk64_t \<Rightarrow> buffer \<Rightarrow> nat list \<Rightarrow> nat \<Rightarrow> orig \<Rightarrow> (nat \<times> orig) res" where
  "v4_ml_loop fs io fd tot i_blk [] n st = Done (n, st)"
| "v4_ml_loop fs io fd tot i_blk (i # is) n st =
     (case idx_at i_blk i of None \<Rightarrow> Undefined
      | Some idx \<Rightarrow>
          if v4_child_out tot (ei_phys idx) then v4_ml_loop fs io fd tot i_blk is n st
          else if \<not> io_mem io (vf_bs fs) then v4_ml_loop fs io fd tot i_blk is n st
          else (case v4_pread fs io (ei_phys idx) st of
                  (None, st) \<Rightarrow> v4_ml_loop fs io fd tot i_blk is n st
                | (Some cbuf, st) \<Rightarrow>
                    if eh_magic (header_at cbuf) \<noteq> EXT4_EXT_MAGIC then v4_ml_loop fs io fd tot i_blk is n st
                    else res_bind
                           (if eh_depth (header_at cbuf) = 0
                            then v4_jleaf_loop (v4_rb fs io fd) tot cbuf [0..<unat (eh_entries (header_at cbuf))] n st
                            else v4_ml2_loop fs io fd tot cbuf [0..<unat (eh_entries (header_at cbuf))] n st)
                           (\<lambda>(n, st). v4_ml_loop fs io fd tot i_blk is n st)))"

text \<open>The end of both branches: cut the temporary file to the size of the inode, then rename it over the output unless that is at
  least as long.  Neither \<open>truncate\<close> nor \<open>rename\<close> is checked.\<close>

definition v4_promote :: "v4_fs \<Rightarrow> string \<Rightarrow> string \<Rightarrow> nat \<Rightarrow> u64 \<Rightarrow> orig \<Rightarrow> v4 \<Rightarrow> int \<times> v4" where
  "v4_promote fs tmp name recovered_blocks orig_size st c =
     (if recovered_blocks > 0 then
        (let st1 = (if orig_size > 0 \<and> unat orig_size < recovered_blocks * vf_bs fs \<and> vf_truncate fs tmp
                    then st\<lparr>o_files := (o_files st)(tmp \<mapsto> take (unat orig_size) (o_file st tmp) @
                              replicate (unat orig_size - length (o_file st tmp)) 0)\<rparr> else st);
             do_replace = \<not> (o_file st1 name \<noteq> [] \<and> length (o_file st1 tmp) \<le> length (o_file st1 name))
         in if do_replace
            then (0, c\<lparr>v_io := (if vf_rename fs tmp then st1\<lparr>o_files := (o_files st1)(name := o_files st1 tmp, tmp := None)\<rparr> else st1),
                       v_journal := v_journal c + 1\<rparr>)
            else (0, c\<lparr>v_io := st1\<lparr>o_files := (o_files st1)(tmp := None)\<rparr>\<rparr>))
      else (-1, c\<lparr>v_io := st\<lparr>o_files := (o_files st)(tmp := None)\<rparr>\<rparr>))"

definition v4_via_temp ::
  "v4_fs \<Rightarrow> disk_io \<Rightarrow> string \<Rightarrow> string \<Rightarrow> u64 \<Rightarrow> (orig \<Rightarrow> (nat \<times> orig) res) \<Rightarrow> v4 \<Rightarrow> (int \<times> v4) res" where
  "v4_via_temp fs io tmp name orig_size fill c =
     (if \<not> io_open io tmp then Done (-1, c)
      else res_map (\<lambda>(n, st). v4_promote fs tmp name n orig_size st c)
             (fill ((v_io c)\<lparr>o_files := (o_files (v_io c))(tmp \<mapsto> []), o_out_pos := 0\<rparr>)))"

definition v4_recover_inode_from_journal :: "v4_fs \<Rightarrow> disk_io \<Rightarrow> u32 \<Rightarrow> ext2_inode \<Rightarrow> v4 \<Rightarrow> (int \<times> v4) res" where
  "v4_recover_inode_from_journal fs io ino jinode c =
     (let i_blk = i_block jinode; eh = header_at i_blk; entries = eh_entries eh; max_ent = eh_max eh; depth = eh_depth eh;
          is = [0..<unat entries]; tot = v_total c in
      if eh_magic eh \<noteq> EXT4_EXT_MAGIC then Done (-1, c)
      else if entries = 0 \<or> entries > max_ent then Done (-1, c)
      else if max_ent > 4 \<and> max_ent > (60 - 12) div 12 then Done (-1, c)
      else if depth > 5 then Done (-1, c)
      else if depth \<noteq> 0 then
        res_bind (v4_any_valid fs io tot i_blk is (v_io c))
          (\<lambda>(any_valid, st).
             if \<not> any_valid then Done (-1, c\<lparr>v_io := st\<rparr>)
             else v4_via_temp fs io (tmpname_ml ino) (fallback_name ino) (inode_size64 jinode)
                    (v4_ml_loop fs io (tmpname_ml ino) tot i_blk is 0) (c\<lparr>v_io := st\<rparr>))
      else v4_via_temp fs io (tmpname_d0 ino) (fallback_name ino) (inode_size64 jinode)
             (v4_jleaf_loop (v4_rb fs io (tmpname_d0 ino)) tot i_blk is 0) c)"

section \<open>The inodes of a journalled table block\<close>

definition v4_process_inode ::
  "v4_fs \<Rightarrow> disk_io \<Rightarrow> buffer \<Rightarrow> blk64_t \<Rightarrow> nat \<Rightarrow> v4 \<times> v4_tracked \<Rightarrow> (v4 \<times> v4_tracked) res" where
  "v4_process_inode fs io buf fs_block off s =
     (case s of (c, vs) \<Rightarrow>
       case inode_at buf off of None \<Rightarrow> Undefined
       | Some jinode \<Rightarrow>
         let file_size = inode_size64 jinode; eh = header_at (i_block jinode); ino = v4_calc_inode_from_block fs fs_block off in
         if \<not> LINUX_S_ISREG (i_mode jinode) then Done s
         else if file_size = 0 then Done s
         else if i_flags jinode AND EXT4_EXTENTS_FL = 0 then Done s
         else if eh_magic eh \<noteq> EXT4_EXT_MAGIC then Done s
         else if eh_entries eh = 0 then Done s
         else if ino = 0 then Done s
         else if ino \<le> EXT2_GOOD_OLD_FIRST_INO \<and> ino \<noteq> EXT2_ROOT_INO then Done s
         else case io_inode io ino of None \<Rightarrow> Done s
         | Some cur_inode \<Rightarrow>
             if \<not> is_deleted cur_inode file_size then Done s
             else if v4_already_recovered_larger vs ino file_size then Done s
             else res_map (\<lambda>(r, c). if r = 0 then (c, v4_mark_recovered vs ino file_size) else (c, vs))
                    (v4_recover_inode_from_journal fs io ino jinode c))"

primrec v4_inode_slots ::
  "v4_fs \<Rightarrow> disk_io \<Rightarrow> buffer \<Rightarrow> blk64_t \<Rightarrow> nat \<Rightarrow> nat list \<Rightarrow> v4 \<times> v4_tracked \<Rightarrow> (v4 \<times> v4_tracked) res" where
  "v4_inode_slots fs io buf fs_block isz [] s = Done s"
| "v4_inode_slots fs io buf fs_block isz (i # is) s =
     res_bind (v4_process_inode fs io buf fs_block (i * isz) s) (v4_inode_slots fs io buf fs_block isz is)"

definition v4_process_inode_table_block ::
  "v4_fs \<Rightarrow> disk_io \<Rightarrow> buffer \<Rightarrow> blk64_t \<Rightarrow> v4 \<times> v4_tracked \<Rightarrow> (v4 \<times> v4_tracked) res" where
  "v4_process_inode_table_block fs io buf fs_block s =
     (let isz = unat (vf_inode_size fs) in
      if isz = 0 then Undefined
      else v4_inode_slots fs io buf fs_block isz [0..<vf_bs fs div isz] s)"

section \<open>Journal access\<close>

definition v4_read_journal_block :: "v4_fs \<Rightarrow> nat \<Rightarrow> buffer option" where
  "v4_read_journal_block fs journal_blk =
     (if \<not> vf_journal_open fs then None
      else if \<not> vf_journal_seek fs (journal_blk * vf_bs fs) then None
      else case vf_journal_read fs (journal_blk * vf_bs fs) (vf_bs fs) of
             None \<Rightarrow> None
           | Some buf \<Rightarrow> if length buf \<noteq> vf_bs fs then None else Some buf)"

definition v4_init_journal :: "v4_fs \<Rightarrow> disk_io \<Rightarrow> v4 \<Rightarrow> int \<times> v4" where
  "v4_init_journal fs io c =
     (if vf_compat fs AND 0x0004 = 0 then (0, c\<lparr>v_has_journal := False\<rparr>)
      else let c = c\<lparr>v_has_journal := True\<rparr> in
        if vf_journal_inum fs = 0 then (-1, c)
        else if \<not> io_mem io (vf_bs fs) then (-1, c)
        else case v4_read_journal_block fs 0 of
               None \<Rightarrow> (-1, c)
             | Some buf \<Rightarrow>
                 if be32_at buf 0 \<noteq> JBD2_MAGIC_NUMBER then (-1, c)
                 else (0, c\<lparr>v_journal_start := ucast (be32_at buf 20), v_journal_len := ucast (be32_at buf 16)\<rparr>))"

section \<open>The scan\<close>

text \<open>A tag at \<open>pos\<close>: the block, the flags, and the bytes to move on.  Flags above 15 are taken for a sign of the larger tag, whose
  flags have their low half in the same place.\<close>

definition v4_decode_tag :: "buffer \<Rightarrow> nat \<Rightarrow> (blk64_t \<times> u16 \<times> nat) ub" where
  "v4_decode_tag desc pos =
     (if pos + 12 > length desc then None
      else let flags = be16_at desc (pos + 6); fs_block = ucast (be32_at desc pos) OR push_bit 32 (ucast (be32_at desc (pos + 8))) in
        if flags > 0x000F \<and> flags \<noteq> 0 then Some (fs_block, ucast (be32_at desc (pos + 4) AND 0xFFFF), 16)
        else Some (fs_block, flags, 12 + (if flags AND 0x0002 = 0 then 16 else 0)))"

definition v4_process_tag ::
  "v4_fs \<Rightarrow> disk_io \<Rightarrow> blk64_t \<Rightarrow> u16 \<Rightarrow> nat \<Rightarrow> v4 \<times> v4_tracked \<Rightarrow> (v4 \<times> v4_tracked) res" where
  "v4_process_tag fs io fs_block flags data_blk s =
     (case v4_read_journal_block fs data_blk of
        None \<Rightarrow> Done s
      | Some data \<Rightarrow>
          let data_buf = (if flags AND 0x0001 \<noteq> 0 then restore_magic data else data) in
          if v4_is_inode_table_block fs fs_block then v4_process_inode_table_block fs io data_buf fs_block s
          else Done s)"

text \<open>\<open>n\<close> counts the data blocks passed, so that \<open>data_blk\<close> is \<open>first + n\<close>.\<close>

function v4_tag_loop ::
  "v4_fs \<Rightarrow> disk_io \<Rightarrow> nat \<Rightarrow> buffer \<Rightarrow> nat \<Rightarrow> nat \<Rightarrow> int \<Rightarrow> nat \<Rightarrow> v4 \<times> v4_tracked \<Rightarrow> (nat \<times> v4 \<times> v4_tracked) res" where
  "v4_tag_loop fs io jlen desc first pos remaining n s =
     (if remaining \<ge> 12 then
        (case v4_decode_tag desc pos of None \<Rightarrow> Undefined
         | Some (fs_block, flags, step) \<Rightarrow>
             let pos' = pos + step; remaining' = remaining - int step; last = (flags AND 0x0008 \<noteq> 0) in
             if step = 0 then Undefined
             else if fs_block = 0 \<or> fs_block \<ge> v_total (fst s) then
               (if last then Done (n + 1, s) else v4_tag_loop fs io jlen desc first pos' remaining' (n + 1) s)
             else if first + n \<ge> jlen then Done (n, s)
             else res_bind (v4_process_tag fs io fs_block flags (first + n) s)
                    (\<lambda>s. if last then Done (n + 1, s) else v4_tag_loop fs io jlen desc first pos' remaining' (n + 1) s))
      else Done (n, s))"
  by pat_completeness auto
termination
  by (relation "measure (\<lambda>(fs, io, jlen, desc, first, pos, remaining, n, s). nat remaining)") auto

declare v4_tag_loop.simps [simp del]

function v4_journal_loop ::
  "v4_fs \<Rightarrow> disk_io \<Rightarrow> nat \<Rightarrow> nat \<Rightarrow> v4 \<times> v4_tracked \<Rightarrow> (v4 \<times> v4_tracked) res" where
  "v4_journal_loop fs io jlen blk s =
     (if blk < jlen then
        (case v4_read_journal_block fs blk of
           None \<Rightarrow> v4_journal_loop fs io jlen (blk + 1) s
         | Some desc \<Rightarrow>
             if be32_at desc 0 \<noteq> JBD2_MAGIC_NUMBER then v4_journal_loop fs io jlen (blk + 1) s
             else if be32_at desc 4 \<noteq> JBD2_DESCRIPTOR_BLOCK then v4_journal_loop fs io jlen (blk + 1) s
             else res_bind (v4_tag_loop fs io jlen desc (blk + 1) 12 (int (vf_bs fs) - 12) 0 s)
                    (\<lambda>(n, s). v4_journal_loop fs io jlen (blk + 1 + n) s))
      else Done s)"
  by pat_completeness auto
termination
  by (relation "measure (\<lambda>(fs, io, jlen, blk, s). jlen - blk)") auto

declare v4_journal_loop.simps [simp del]

definition v4_recover_from_journal :: "v4_fs \<Rightarrow> disk_io \<Rightarrow> v4 \<Rightarrow> (int \<times> v4) res" where
  "v4_recover_from_journal fs io c =
     (if \<not> v_has_journal c then Done (0, c)
      else if \<not> (vf_malloc fs (MAX_RECOVERED_INODES * 4) \<and> vf_malloc fs (MAX_RECOVERED_INODES * 8)) then Done (-1, c)
      else if \<not> io_mem io (vf_bs fs) then Done (-1, c)
      else res_map (\<lambda>(c, vs). (0, c)) (v4_journal_loop fs io (unat (v_journal_len c)) (unat (v_journal_start c)) (c, [])))"

section \<open>What a recovery leaves alone\<close>

text \<open>A call that, if it has a result, changes one file only.\<close>

definition frames :: "string \<Rightarrow> orig \<Rightarrow> ('a \<times> orig) res \<Rightarrow> bool" where
  "frames fd st r \<longleftrightarrow> (\<forall>a st'. r = Done (a, st') \<longrightarrow> (\<forall>x. x \<noteq> fd \<longrightarrow> o_files st' x = o_files st x))"

lemma frames_simps [simp]: "frames fd st Undefined" "frames fd st Running" "frames fd st (Done (a, st))"
  by (simp_all add: frames_def)

lemma frames_cong: "o_files s = o_files st \<Longrightarrow> frames fd s r = frames fd st r"
  by (simp add: frames_def)

lemma frames_bind:
  assumes "frames fd st r" "\<And>a st'. frames fd st' (k (a, st'))"
  shows "frames fd st (res_bind r k)"
proof (cases r)
  case (Done x)
  obtain a st' where x: "x = (a, st')" by (cases x)
  then have "\<forall>y. y \<noteq> fd \<longrightarrow> o_files st' y = o_files st y" using assms(1) Done by (simp add: frames_def)
  then show ?thesis using assms(2) [of st' a] Done x by (simp add: frames_def)
qed simp_all

lemma v4_rb_frames: "frames fd st (v4_rb fs io fd e st)"
proof -
  let ?s = "seek_out io fd (unat (ee_block e) * vf_bs fs) (seek_dev io (unat (ee_phys e) * vf_bs fs) st)"
  have s: "o_files ?s = o_files st" "o_files (seek_dev io off st) = o_files st" for off by (simp_all add: seek_out_def seek_dev_def)
  have "frames fd st (Done (fix_copy io (vf_bs fs) fd (unat (ee_len e)) ?s))"
    unfolding frames_def using fix_copy_files [of _ fd io "vf_bs fs" "unat (ee_len e)" ?s] s(1) by (metis res.inject snd_conv)
  moreover have "frames fd st (Done (False, seek_dev io off st))" for off using s(2) by (simp add: frames_def)
  ultimately show ?thesis by (simp add: v4_rb_def fix_recover_block_to_file_def Let_def)
qed

lemma v4_copy_loop_frames:
  assumes "\<And>e st. frames fd st (cpy e st)"
  shows "frames fd st (v4_copy_loop pick weight cpy buf is n st)"
proof (induction "is" arbitrary: n st)
  case (Cons i "is")
  then show ?case by (auto split: option.split intro!: frames_bind assms)
qed simp

lemma v4_jleaf_frames: "frames fd st (v4_jleaf_loop (v4_rb fs io fd) tot buf is n st)"
  unfolding v4_jleaf_loop_def by (rule v4_copy_loop_frames [OF v4_rb_frames])

lemma v4_pread_files: "v4_pread fs io b st = (r, st') \<Longrightarrow> o_files st' = o_files st"
  by (auto simp: v4_pread_def)

lemma v4_any_valid_files: "v4_any_valid fs io tot ib is st = Done (b, st') \<Longrightarrow> o_files st' = o_files st"
proof (induction "is" arbitrary: st)
  case (Cons i "is")
  then show ?case
    by (auto split: option.splits if_splits prod.splits dest!: v4_pread_files)
qed simp

lemma frames_pread: "v4_pread fs io b st = (d, st') \<Longrightarrow> frames fd st' r \<Longrightarrow> frames fd st r"
  by (drule v4_pread_files) (simp add: frames_def)

lemma v4_ml2_frames: "frames fd st (v4_ml2_loop fs io fd tot buf js n st)"
proof (induction js arbitrary: n st)
  case (Cons j js)
  show ?case
  proof (cases "idx_at buf j")
    case (Some x)
    obtain d st' where p: "v4_pread fs io (ei_phys x) st = (d, st')" by fastforce
    have "frames fd st' (res_bind (v4_jleaf_loop (v4_rb fs io fd) tot b is n st') (\<lambda>(n, st). v4_ml2_loop fs io fd tot buf js n st))" for b "is"
      by (rule frames_bind [OF v4_jleaf_frames]) (simp add: Cons.IH)
    then show ?thesis using Some p Cons.IH by (simp add: frames_pread [OF p] split: option.split)
  qed simp
qed simp

lemma v4_ml_frames: "frames fd st (v4_ml_loop fs io fd tot buf is n st)"
proof (induction "is" arbitrary: n st)
  case (Cons i "is")
  show ?case
  proof (cases "idx_at buf i")
    case (Some x)
    obtain d st' where p: "v4_pread fs io (ei_phys x) st = (d, st')" by fastforce
    have b: "frames fd st' (res_bind r (\<lambda>(n, st). v4_ml_loop fs io fd tot buf is n st))" if "frames fd st' r" for r
      by (rule frames_bind [OF that]) (simp add: Cons.IH)
    show ?thesis using Some p Cons.IH b [OF v4_jleaf_frames] b [OF v4_ml2_frames] by (simp add: frames_pread [OF p] split: option.split)
  qed simp
qed simp

text \<open>Files whose name does not start with a dot never get shorter.\<close>

definition visible :: "string \<Rightarrow> bool" where
  "visible x \<longleftrightarrow> take 1 x \<noteq> ''.''"

definition grown :: "v4 \<Rightarrow> v4 \<Rightarrow> bool" where
  "grown c c' \<longleftrightarrow> v_total c' = v_total c \<and> (\<forall>x. visible x \<longrightarrow> length (o_file (v_io c) x) \<le> length (o_file (v_io c') x))"

lemma grown_refl: "grown c c"
  by (simp add: grown_def)

lemma grown_trans: "grown a b \<Longrightarrow> grown b c \<Longrightarrow> grown a c"
  by (auto simp: grown_def intro: le_trans)

lemma output_names: "visible (fallback_name ino)" "\<not> visible (tmpname_ml ino)" "\<not> visible (tmpname_d0 ino)"
proof -
  obtain d ds where d: "udec (unat ino) = d # ds" "is_digit d"
    using udec_digits [of "unat ino"] by (cases "udec (unat ino)") auto
  then have "d \<noteq> CHR ''.''" by (auto simp: is_digit_def)
  then show "visible (fallback_name ino)" using d(1) by (simp add: visible_def fallback_name_def)
qed (simp_all add: visible_def tmpname_ml_def tmpname_d0_def)

lemma v4_promote_grown:
  assumes "v4_promote fs tmp name n sz st c = (r, c')" "\<not> visible tmp" "visible name"
    and "\<And>x. x \<noteq> tmp \<Longrightarrow> o_files st x = o_files (v_io c) x"
  shows "grown c c'"
proof -
  have f: "o_file (v_io c) x = o_file st x" if "visible x" for x
  proof -
    have "x \<noteq> tmp" using that assms(2) by auto
    then show ?thesis using assms(4) by (simp add: o_file_def)
  qed
  have ne: "x \<noteq> tmp" if "visible x" for x using that assms(2) by auto
  show ?thesis
    using assms(1) f ne assms(3)
    by (auto simp: grown_def v4_promote_def Let_def o_file_def split: if_splits)
qed

lemma v4_via_temp_grown:
  assumes "v4_via_temp fs io tmp name sz fill c = Done (r, c')" "\<And>st. frames tmp st (fill st)" "\<not> visible tmp" "visible name"
  shows "grown c c'"
proof (cases "io_open io tmp")
  case True
  let ?st = "(v_io c)\<lparr>o_files := (o_files (v_io c))(tmp \<mapsto> []), o_out_pos := 0\<rparr>"
  obtain n st where f: "fill ?st = Done (n, st)" "v4_promote fs tmp name n sz st c = (r, c')"
    using assms(1) True by (cases "fill ?st") (auto simp: v4_via_temp_def)
  then have "o_files st x = o_files (v_io c) x" if "x \<noteq> tmp" for x
    using assms(2) [of ?st] that by (simp add: frames_def)
  then show ?thesis using v4_promote_grown [OF f(2) assms(3,4)] by blast
qed (use assms(1) in \<open>simp add: v4_via_temp_def grown_refl\<close>)

lemma grown_io: "o_files st = o_files (v_io c) \<Longrightarrow> grown (c\<lparr>v_io := st\<rparr>) c' = grown c c'"
  by (simp add: grown_def o_file_def)

lemma v4_recover_inode_grown:
  assumes "v4_recover_inode_from_journal fs io ino jinode c = Done (r, c')"
  shows "grown c c'"
proof -
  let ?ib = "i_block jinode" let ?is = "[0..<unat (eh_entries (header_at ?ib))]"
  consider "c' = c"
    | "v4_via_temp fs io (tmpname_d0 ino) (fallback_name ino) (inode_size64 jinode)
         (v4_jleaf_loop (v4_rb fs io (tmpname_d0 ino)) (v_total c) ?ib ?is 0) c = Done (r, c')"
    | b st where "v4_any_valid fs io (v_total c) ?ib ?is (v_io c) = Done (b, st)"
        "c' = c\<lparr>v_io := st\<rparr> \<or> v4_via_temp fs io (tmpname_ml ino) (fallback_name ino) (inode_size64 jinode)
           (v4_ml_loop fs io (tmpname_ml ino) (v_total c) ?ib ?is 0) (c\<lparr>v_io := st\<rparr>) = Done (r, c')"
    using assms unfolding v4_recover_inode_from_journal_def Let_def
    by (cases "v4_any_valid fs io (v_total c) ?ib ?is (v_io c)") (auto split: if_splits)
  then show ?thesis
  proof cases
    case 2
    then show ?thesis using v4_via_temp_grown [OF 2 v4_jleaf_frames] output_names by blast
  next
    case 3
    then have st: "o_files st = o_files (v_io c)" by (auto dest: v4_any_valid_files)
    from 3(2) show ?thesis
    proof
      assume "c' = c\<lparr>v_io := st\<rparr>"
      then show ?thesis using st by (simp add: grown_def o_file_def)
    next
      assume "v4_via_temp fs io (tmpname_ml ino) (fallback_name ino) (inode_size64 jinode)
        (v4_ml_loop fs io (tmpname_ml ino) (v_total c) ?ib ?is 0) (c\<lparr>v_io := st\<rparr>) = Done (r, c')"
      from v4_via_temp_grown [OF this v4_ml_frames] show ?thesis using output_names grown_io [OF st] by blast
    qed
  qed (simp add: grown_refl)
qed

lemma v4_process_inode_grown:
  assumes "v4_process_inode fs io buf b off s = Done s'"
  shows "grown (fst s) (fst s')"
proof -
  obtain c vs where s: "s = (c, vs)" by (cases s)
  have "s' = s \<or> (\<exists>ino j r. v4_recover_inode_from_journal fs io ino j c = Done (r, fst s'))"
    using assms unfolding v4_process_inode_def s prod.case Let_def
    by (auto simp: res_map_eq_Done split: option.splits if_splits)
  then show ?thesis using v4_recover_inode_grown s grown_refl by auto
qed

lemma v4_table_block_grown:
  assumes "v4_process_inode_table_block fs io buf b s = Done s'"
  shows "grown (fst s) (fst s')"
proof -
  have "grown (fst s) (fst s')" if "v4_inode_slots fs io buf b isz is s = Done s'" for "is" isz s
    using that
  proof (induction "is" arbitrary: s)
    case (Cons i "is")
    then show ?case by (auto simp: res_bind_eq_Done intro: grown_trans v4_process_inode_grown)
  qed (simp add: grown_refl)
  then show ?thesis using assms by (auto simp: v4_process_inode_table_block_def Let_def split: if_splits)
qed

lemma v4_process_tag_grown: "v4_process_tag fs io b flags blk s = Done s' \<Longrightarrow> grown (fst s) (fst s')"
  by (auto simp: v4_process_tag_def Let_def grown_refl split: option.splits if_splits intro: v4_table_block_grown)

lemma v4_tag_loop_grown:
  "v4_tag_loop fs io jlen desc first pos remaining n s = Done (n', s') \<Longrightarrow> grown (fst s) (fst s')"
proof (induction fs io jlen desc first pos remaining n s rule: v4_tag_loop.induct)
  case (1 fs io jlen desc first pos remaining n s)
  show ?case
  proof (cases "remaining \<ge> 12")
    case True
    obtain b flags step where d: "v4_decode_tag desc pos = Some (b, flags, step)"
      using 1(3) True by (auto simp: v4_tag_loop.simps [of _ _ _ _ _ _ remaining] split: option.splits)
    show ?thesis
      using 1(3) 1(1) [OF True d refl refl refl refl refl] 1(2) [OF True d refl refl refl refl refl] True d
      by (auto simp: v4_tag_loop.simps [of _ _ _ _ _ _ remaining] Let_def res_bind_eq_Done grown_refl split: if_splits
          intro: grown_trans v4_process_tag_grown)
  qed (use 1(3) in \<open>simp add: v4_tag_loop.simps [of _ _ _ _ _ _ remaining] grown_refl\<close>)
qed

lemma v4_journal_loop_grown: "v4_journal_loop fs io jlen blk s = Done s' \<Longrightarrow> grown (fst s) (fst s')"
proof (induction fs io jlen blk s rule: v4_journal_loop.induct)
  case (1 fs io jlen blk s)
  show ?case
  proof (cases "blk < jlen")
    case True
    show ?thesis
    proof (cases "v4_read_journal_block fs blk")
      case None
      then show ?thesis using 1(1) [OF True None] 1(5) True by (simp add: v4_journal_loop.simps [of _ _ _ blk])
    next
      case (Some desc)
      show ?thesis
        using 1(2-4) [OF True Some] 1(5) True Some
        by (auto simp: v4_journal_loop.simps [of _ _ _ blk] res_bind_eq_Done split: if_splits prod.splits intro: grown_trans v4_tag_loop_grown)
    qed
  qed (use 1(5) in \<open>simp add: v4_journal_loop.simps [of _ _ _ blk] grown_refl\<close>)
qed

section \<open>The tags of a 64-bit journal\<close>

text \<open>The loop over the abstract tag list.\<close>

primrec v4_run_tags ::
  "v4_fs \<Rightarrow> disk_io \<Rightarrow> nat \<Rightarrow> nat \<Rightarrow> tag list \<Rightarrow> nat \<Rightarrow> v4 \<times> v4_tracked \<Rightarrow> (nat \<times> v4 \<times> v4_tracked) res" where
  "v4_run_tags fs io jlen first [] n s = Done (n, s)"
| "v4_run_tags fs io jlen first (t # ts) n s =
     (if fst t = 0 \<or> fst t \<ge> v_total (fst s) then v4_run_tags fs io jlen first ts (n + 1) s
      else if first + n \<ge> jlen then Done (n, s)
      else res_bind (v4_process_tag fs io (fst t) (ucast (snd t)) (first + n) s) (v4_run_tags fs io jlen first ts (n + 1)))"

lemma flag_bits:
  "(x AND m = 0) = (ucast x AND ucast m = (0 :: u32))" "(x > m) = (ucast x > (ucast m :: u32))" "ucast (ucast x :: u32) = x"
  for x m :: u16
proof -
  have "(ucast x AND ucast m :: u32) = ucast (x AND m)" by (simp add: unsigned_and_eq)
  then show "(x AND m = 0) = (ucast x AND ucast m = (0 :: u32))" by (simp add: word_unat_eq_iff unat_ucast_up)
  show "(x > m) = (ucast x > (ucast m :: u32))" by (simp add: word_less_nat_alt unat_ucast_up)
  show "ucast (ucast x :: u32) = x" using u16_less [of x] by (simp add: word_unat_eq_iff unsigned_ucast_eq unsigned_take_bit_eq take_bit_nat_eq_self)
qed

lemma v4_decode_enc:
  assumes "length pre = pos" "tag_ok JBD2_TAG_FMT_V1 True t" "snd t \<le> 15"
  shows "v4_decode_tag (pre @ enc_tag JBD2_TAG_FMT_V1 True t @ post) pos = Some (fst t, ucast (snd t), length (enc_tag JBD2_TAG_FMT_V1 True t))"
proof -
  let ?buf = "pre @ enc_tag JBD2_TAG_FMT_V1 True t @ post" let ?fl = "be16_at ?buf (pos + 6)"
  have d: "\<not> pos + 12 > length ?buf" "ucast (be32_at ?buf pos) OR push_bit 32 (ucast (be32_at ?buf (pos + 8))) = fst t" "ucast ?fl = snd t"
    using decode_enc [OF assms(1,2), of post] by (auto simp: decode_tag_def prod_eq_iff split: if_splits)
  have "\<not> ?fl > 15" using flag_bits(2) [of 15 ?fl] assms(3) d(3) by (simp add: not_less)
  moreover have "(?fl AND 2 = 0) = (snd t AND JBD2_FLAG_SAME_UUID = 0)" using flag_bits(1) [of ?fl 2] d(3) by (simp add: JBD2_FLAG_SAME_UUID_def)
  moreover have "?fl = ucast (snd t)" using flag_bits(3) [of ?fl] d(3) by simp
  ultimately show ?thesis using d(1,2) unfolding v4_decode_tag_def Let_def by (simp add: length_enc_tag fmt_bytes_def)
qed

lemma v4_tag_loop_run:
  assumes "ts \<noteq> []" "\<forall>t \<in> set ts. tag_ok JBD2_TAG_FMT_V1 True t \<and> snd t \<le> 15" "last_flag (last ts)" "\<forall>t \<in> set (butlast ts). \<not> last_flag t"
    and "desc = pre @ concat (map (enc_tag JBD2_TAG_FMT_V1 True) ts) @ post" "length pre = pos" "rem = int (length desc) - int pos"
  shows "v4_tag_loop fs io jlen desc first pos rem n s = v4_run_tags fs io jlen first ts n s"
  using assms
proof (induction ts arbitrary: pre pos rem n s)
  case (Cons t ts)
  let ?e = "enc_tag JBD2_TAG_FMT_V1 True t"
  have d: "desc = pre @ ?e @ (concat (map (enc_tag JBD2_TAG_FMT_V1 True) ts) @ post)" using Cons.prems(5) by simp
  have dec: "v4_decode_tag desc pos = Some (fst t, ucast (snd t), length ?e)"
    unfolding d using v4_decode_enc [OF Cons.prems(6)] Cons.prems(2) by simp
  have e: "12 \<le> length ?e" by (simp add: length_enc_tag fmt_bytes_def)
  have room: "12 \<le> rem" using Cons.prems(6,7) d e by simp
  have IH: "v4_tag_loop fs io jlen desc first (pos + length ?e) (rem - int (length ?e)) n' s' = v4_run_tags fs io jlen first ts n' s'"
    if "ts \<noteq> []" for n' s'
    using Cons.prems that d by (intro Cons.IH [of "pre @ ?e"]) auto
  have "unat (snd t) < 2 ^ 16" using Cons.prems(2) by (simp add: tag_ok_def)
  then have "ucast (ucast (snd t) :: u16) = snd t" by (simp add: word_unat_eq_iff unsigned_ucast_eq unsigned_take_bit_eq take_bit_nat_eq_self)
  then have lf: "((ucast (snd t) :: u16) AND 8 \<noteq> 0) = (ts = [])"
    using Cons.prems(3,4) flag_bits(1) [of "ucast (snd t)" 8] by (cases ts) (auto simp: last_flag_def JBD2_FLAG_LAST_TAG_def)
  have ext: "(\<lambda>s. if ts = [] then Done (n + 1, s) else v4_tag_loop fs io jlen desc first (pos + length ?e) (rem - int (length ?e)) (n + 1) s)
      = v4_run_tags fs io jlen first ts (n + 1)"
    using IH by auto
  show ?case
    apply (subst v4_tag_loop.simps)
    using dec room lf IH e ext by (auto simp: Let_def)
qed simp

lemma be16_low:
  assumes "p + 4 \<le> length buf"
  shows "be16_at buf (p + 2) = ucast (be32_at buf p)"
proof -
  have "4 \<le> length (drop p buf)" using assms by simp
  then obtain a b c d r where r: "drop p buf = a # b # c # d # r"
    by (auto simp: numeral_eq_Suc Suc_le_length_iff simp del: length_drop)
  then have "drop (p + 2) buf = c # d # r" by (metis add.commute drop_drop drop_Suc_Cons drop_0 numeral_2_eq_2)
  then have l: "be16_at buf (p + 2) = of_nat (unat d + 256 * unat c)"
    by (simp add: be16_at_def sub_buf_def be_val_def)
  have h: "be32_at buf p = of_nat (unat d + 256 * unat c + 65536 * (unat b + 256 * unat a))"
  proof -
    have "sub_buf buf p 4 = [a, b, c, d]" unfolding sub_buf_def r by simp
    then show ?thesis by (simp add: be32_at_def be_val_def)
  qed
  have "unat (ucast (of_nat n :: u32) :: u16) = n mod 65536" for n
    by (simp add: unsigned_ucast_eq unat_of_nat take_bit_eq_mod mod_mod_cancel)
  moreover have "unat (of_nat n :: u16) = n mod 65536" for n by (simp add: unat_of_nat)
  ultimately show ?thesis unfolding l h word_unat_eq_iff by (simp only: mod_mult_self2)
qed

section \<open>Both maps of the inode tables\<close>

lemma unat_v4_table_blocks:
  assumes "0 < vf_bs fs" "unat (vf_inodes_per_group fs) * unat (vf_inode_size fs) + vf_bs fs < 2 ^ 32"
  shows "v4_table_blocks fs = itb_blocks (vf_inodes_per_group fs) (vf_inode_size fs) (vf_bs fs)"
proof -
  let ?i = "vf_inodes_per_group fs" and ?s = "vf_inode_size fs"
  have b: "unat (of_nat (vf_bs fs) :: u32) = vf_bs fs" using assms by (simp add: unat_of_nat)
  have p: "unat (?i * ?s) = unat ?i * unat ?s" using assms(2) by (simp add: unat_word_ariths)
  have a: "unat (?i * ?s + of_nat (vf_bs fs)) = unat ?i * unat ?s + vf_bs fs" using assms(2) p b by (simp add: unat_word_ariths)
  have "(1 :: u32) \<le> ?i * ?s + of_nat (vf_bs fs)" using a assms(1) by (simp add: word_le_nat_alt)
  then have "unat (?i * ?s + of_nat (vf_bs fs) - 1) = unat ?i * unat ?s + vf_bs fs - 1" using a by (simp add: unat_sub)
  then have "unat (v4_table_blocks fs) = table_blocks ?i ?s (vf_bs fs)"
    by (simp add: v4_table_blocks_def unat_ucast_up unat_div b table_blocks_def)
  then show ?thesis using unat_itb_blocks [of "vf_bs fs" ?i ?s] assms by (simp add: word_unat_eq_iff)
qed

lemma v4_group_loop_Some: "v4_group_loop fs b gs = Some g \<Longrightarrow> g \<in> set gs \<and> v4_in_table fs b g"
  by (induction gs) (auto split: if_splits)

lemma v4_group_loop_None: "v4_group_loop fs b gs = None \<longleftrightarrow> (\<forall>g \<in> set gs. \<not> v4_in_table fs b g)"
  by (induction gs) auto

lemma v4_journal_grown:
  assumes "v4_recover_from_journal fs io c = Done (r, c')"
  shows "grown c c'"
proof (cases "v_has_journal c \<and> vf_malloc fs (MAX_RECOVERED_INODES * 4) \<and> vf_malloc fs (MAX_RECOVERED_INODES * 8) \<and> io_mem io (vf_bs fs)")
  case True
  then obtain s where "v4_journal_loop fs io (unat (v_journal_len c)) (unat (v_journal_start c)) (c, []) = Done s" "c' = fst s"
    using assms by (auto simp: v4_recover_from_journal_def res_map_eq_Done)
  then show ?thesis using v4_journal_loop_grown by fastforce
next
  case False
  then show ?thesis using assms by (auto simp: v4_recover_from_journal_def grown_refl split: if_splits)
qed

section \<open>Properties\<close>

text \<open>Property C35: on the descriptor blocks of a 64-bit journal without checksums in its tags, the tag walk of version 0.4 is exact: it
  handles the tags jbd2 stored, in order, each with its data block, and stops after the one marked last.\<close>

theorem v4_tag_walk_exact:
  assumes "ts \<noteq> []" "\<forall>t \<in> set ts. tag_ok JBD2_TAG_FMT_V1 True t \<and> snd t \<le> 15" "last_flag (last ts)" "\<forall>t \<in> set (butlast ts). \<not> last_flag t"
    and "desc = txn_header 1 seq @ concat (map (enc_tag JBD2_TAG_FMT_V1 True) ts) @ post" "length desc = vf_bs fs"
  shows "v4_tag_loop fs io jlen desc first 12 (int (vf_bs fs) - 12) 0 s = v4_run_tags fs io jlen first ts 0 s"
  by (rule v4_tag_loop_run [OF assms(1-5)]) (use assms(6) in \<open>simp_all add: txn_header_def\<close>)

text \<open>Property C36: where jbd2 keeps a checksum in each tag (the third tag format, the default since 2014), version 0.4 moves on by four bytes
  too few.  Block and flags of the tag itself are right, but the next tag is read from the wrong place.\<close>

theorem v4_checksum_tag_short:
  assumes "snd t \<le> 15"
  shows "v4_decode_tag (pre @ enc_tag JBD2_TAG_FMT_CSUM_V3 True t @ post) (length pre) =
    Some (fst t, ucast (snd t), length (enc_tag JBD2_TAG_FMT_CSUM_V3 True t) - 4)"
proof -
  let ?e = "enc_tag JBD2_TAG_FMT_CSUM_V3 True t" let ?buf = "pre @ ?e @ post" and ?pos = "length pre" let ?fl = "be16_at ?buf (?pos + 6)"
  have e: "12 \<le> length ?e" by (simp add: length_enc_tag fmt_bytes_def)
  have d: "ucast (be32_at ?buf ?pos) OR push_bit 32 (ucast (be32_at ?buf (?pos + 8))) = fst t" "be32_at ?buf (?pos + 4) = snd t"
    using decode_enc [of pre ?pos JBD2_TAG_FMT_CSUM_V3 True t post] by (auto simp: decode_tag_def tag_ok_def prod_eq_iff split: if_splits)
  have fl: "?fl = ucast (snd t)" using be16_low [of "?pos + 4" ?buf] e d(2) by (simp add: add.commute)
  have "unat (snd t) < 2 ^ 16" using assms by (simp add: word_le_nat_alt)
  then have u: "ucast ?fl = snd t"
    unfolding fl by (simp add: word_unat_eq_iff unsigned_ucast_eq unsigned_take_bit_eq take_bit_nat_eq_self)
  have "\<not> ?fl > 15" using flag_bits(2) [of 15 ?fl] assms u by (simp add: not_less)
  moreover have "(?fl AND 2 = 0) = (snd t AND JBD2_FLAG_SAME_UUID = 0)" using flag_bits(1) [of ?fl 2] u by (simp add: JBD2_FLAG_SAME_UUID_def)
  ultimately show ?thesis using d(1) e fl unfolding v4_decode_tag_def Let_def by (simp add: length_enc_tag fmt_bytes_def)
qed

text \<open>Property C34: version 0.4, which searches all block groups for each block, and version 5, which searches a sorted map, agree.  They
  recognise the same inode-table blocks, and wherever version 5 gives a number for a byte of such a block,
  version 0.4 gives the same.  The table of a group must be smaller than 4 GiB, because version 0.4 computes its size in 32 bits.\<close>

theorem versions_number_inodes_alike:
  assumes lay: "itable_layout (vf_groups fs) (vf_inodes_per_group fs) (vf_inode_size fs) (vf_bs fs) (vf_table_loc fs)"
    and m: "build_itable_map True (vf_groups fs) (vf_inodes_per_group fs) (vf_inode_size fs) (vf_bs fs) (vf_table_loc fs) = Some m"
    and loc: "\<forall>g < vf_groups fs. vf_table_loc fs g \<noteq> 0"
    and small: "unat (vf_inodes_per_group fs) * unat (vf_inode_size fs) + vf_bs fs < 2 ^ 32"
  shows "v4_is_inode_table_block fs b = is_inode_table_block m b \<and>
    (calc_inode_from_block m (vf_inodes_per_group fs) (vf_inode_size fs) (vf_bs fs) b off \<noteq> 0 \<longrightarrow>
     v4_calc_inode_from_block fs b off = calc_inode_from_block m (vf_inodes_per_group fs) (vf_inode_size fs) (vf_bs fs) b off)"
proof -
  let ?itb = "itb_blocks (vf_inodes_per_group fs) (vf_inode_size fs) (vf_bs fs)"
  let ?r = "\<lambda>g. \<lparr>it_start = vf_table_loc fs g, it_end = vf_table_loc fs g + ?itb, it_group = g\<rparr>"
  let ?gs = "map of_nat [0..<unat (vf_groups fs)] :: u32 list"
  note ok = build_itable_map_ok [OF lay m]
  have in_t: "v4_in_table fs b g = in_range b (?r g)" for g
    using unat_v4_table_blocks [OF _ small] lay by (simp add: v4_in_table_def in_range_def itable_layout_def)
  have set_m: "set m = ?r ` set ?gs" unfolding group_list ok(2) using loc by auto
  show ?thesis
  proof (cases "v4_group_loop fs b ?gs")
    case None
    then have "\<forall>r \<in> set m. \<not> in_range b r" using set_m in_t v4_group_loop_None by auto
    then have "itable_lookup m b = None" using itable_lookup_spec [OF ok(1), of b] by (auto split: option.splits)
    then show ?thesis using None by (simp add: v4_is_inode_table_block_def is_inode_table_block_def calc_inode_from_block_def)
  next
    case (Some g)
    then have g: "g \<in> set ?gs" "in_range b (?r g)" using v4_group_loop_Some [OF Some] in_t by simp_all
    then have mem: "?r g \<in> set m" using set_m by blast
    have "itable_lookup m b = Some (?r g)"
    proof (cases "itable_lookup m b")
      case None
      then show ?thesis using itable_lookup_spec [OF ok(1), of b] mem g(2) by simp
    next
      case (Some r)
      then have "r \<in> set m" "in_range b r" using itable_lookup_spec [OF ok(1), of b] by simp_all
      then show ?thesis using separated_unique [OF ok(1) mem _ g(2)] Some by simp
    qed
    then show ?thesis
      using Some by (auto simp: v4_is_inode_table_block_def is_inode_table_block_def calc_inode_from_block_def v4_calc_inode_from_block_def Let_def)
  qed
qed

text \<open>A file as \<open>truncate\<close> leaves it.\<close>

definition cut :: "nat \<Rightarrow> buffer \<Rightarrow> buffer" where
  "cut n f = take n f @ replicate (n - length f) 0"

text \<open>Property C33: a journalled inode whose extents lie in the inode is recovered exactly.  On a device without errors the call returns 0
  and the output holds the extents that lie on the device, at their logical offsets and with unwritten extents at their real length, cut to the
  size of the inode when that is smaller than the copied blocks; an output that is already at least as long stays.
  The temporary file is gone.\<close>

theorem v4_recover_leaf_inode_exact:
  assumes dev: "v4_faithful fs io dev" "unat (v_total c) * vf_bs fs \<le> length dev" "io_open io (tmpname_d0 ino)"
      "vf_truncate fs (tmpname_d0 ino)" "vf_rename fs (tmpname_d0 ino)"
    and hdr: "header_at (i_block j) = \<lparr>eh_magic = EXT4_EXT_MAGIC, eh_entries = n, eh_max = mx, eh_depth = 0\<rparr>" "n \<noteq> 0" "n \<le> mx" "mx \<le> 4"
    and ext: "extents_at (i_block j) (unat n) = Some xs" "es = List.map_filter (v4_pick_init (v_total c)) xs" "es \<noteq> []"
    and out: "content = foldl (copy_extent dev (vf_bs fs)) [] es" "blocks = sum_list (map (\<lambda>e. unat (ee_len e)) es)" "sz = unat (inode_size64 j)"
      "out = (if 0 < sz \<and> sz < blocks * vf_bs fs then cut sz content else content)"
  shows "\<exists>c'. v4_recover_inode_from_journal fs io ino j c = Done (0, c') \<and>
    o_file (v_io c') (fallback_name ino) =
      (let old = o_file (v_io c) (fallback_name ino) in if old \<noteq> [] \<and> length out \<le> length old then old else out) \<and>
    o_files (v_io c') (tmpname_d0 ino) = None"
proof -
  let ?tmp = "tmpname_d0 ino" and ?name = "fallback_name ino"
  let ?st = "(v_io c)\<lparr>o_files := (o_files (v_io c))(?tmp \<mapsto> []), o_out_pos := 0\<rparr>"
  have pos: "0 < unat (ee_len e)" if e: "e \<in> set es" for e
  proof -
    obtain x where "v4_pick_init (v_total c) x = Some e" using e ext(2) by (auto simp: map_filter_def)
    then have "ee_len e \<noteq> 0" by (auto simp: v4_pick_init_def Let_def split: if_splits)
    then show ?thesis by (simp add: unat_gt_0)
  qed
  have "hd es \<in> set es" using ext(3) by simp
  then have bl: "0 < blocks" using pos [of "hd es"] member_le_sum_list [of "unat (ee_len (hd es))" "map (\<lambda>e. unat (ee_len e)) es"] out(2) by auto
  have on: "\<forall>ee e. v4_pick_init (v_total c) ee = Some e \<longrightarrow> copy_on_device dev (vf_bs fs) e"
  proof (intro allI impI)
    fix ee e assume "v4_pick_init (v_total c) ee = Some e"
    then have "\<not> ee_phys e + ucast (ee_len e) > v_total c"
      by (auto simp: v4_pick_init_def Let_def ee_phys_def split: if_splits)
    then show "copy_on_device dev (vf_bs fs) e" using dev(2) by (rule in_blocks_on_device)
  qed
  have f0: "o_files ?st ?tmp = Some []" by simp
  obtain st where st: "v4_jleaf_loop (v4_rb fs io ?tmp) (v_total c) (i_block j) [0..<unat n] 0 ?st = Done (blocks, st)"
    "o_files st = (o_files (v_io c))(?tmp \<mapsto> content)"
    using v4_copy_loop_copies [OF dev(1) on ext(1) [unfolded extents_at_def] f0, where weight = "\<lambda>e. unat (ee_len e)" and n = 0]
    unfolding v4_jleaf_loop_def out(1,2) ext(2) by auto
  have ne: "?name \<noteq> ?tmp" using output_names by metis
  have call: "v4_recover_inode_from_journal fs io ino j c = Done (v4_promote fs ?tmp ?name blocks (inode_size64 j) st c)"
    using hdr(1,2) hdr(3,4) [folded not_less] dev(3) st(1) by (simp add: v4_recover_inode_from_journal_def v4_via_temp_def Let_def)
  have tmp: "o_file st ?tmp = content" "o_file st ?name = o_file (v_io c) ?name" using st(2) ne by (simp_all add: o_file_def)
  have z: "(inode_size64 j > 0) = (0 < sz)" using out(3) by (simp add: word_less_nat_alt)
  let ?c' = "snd (v4_promote fs ?tmp ?name blocks (inode_size64 j) st c)"
  have "fst (v4_promote fs ?tmp ?name blocks (inode_size64 j) st c) = 0" using bl by (simp add: v4_promote_def Let_def)
  moreover have "o_file (v_io ?c') ?name =
      (let old = o_file (v_io c) ?name in if old \<noteq> [] \<and> length out \<le> length old then old else out) \<and> o_files (v_io ?c') ?tmp = None"
    using bl dev(4,5) ne tmp z out(3) unfolding out(4) cut_def v4_promote_def Let_def by (simp add: o_file_def)
  ultimately show ?thesis using call by (metis prod.collapse)
qed

section \<open>Examples\<close>

definition journal_ctx :: v4 where
  "journal_ctx = small_ctx\<lparr>v_total := 3, v_has_journal := True, v_journal_start := 3, v_journal_len := 4,
     v_io := (v_io small_ctx)\<lparr>o_files := [''7_file'' \<mapsto> [1, 2]]\<rparr>\<rparr>"

text \<open>Two tags; the second names the last block of the transaction.\<close>

theorem v4_tag_walk_exact_witness:
  "v4_tag_loop (small_fs\<lparr>vf_bs := 52\<rparr>) small_io 9
     (txn_header 1 5 @ enc_tag JBD2_TAG_FMT_V1 True (7, 0) @ enc_tag JBD2_TAG_FMT_V1 True (8, 10)) 4 12 40 0 (small_ctx, []) =
   Done (2, small_ctx, [])"
proof -
  have e: "length (enc_tag JBD2_TAG_FMT_V1 True (7, 0)) = 28" "length (enc_tag JBD2_TAG_FMT_V1 True (8, 10)) = 12"
    by (simp_all add: length_enc_tag fmt_bytes_def JBD2_FLAG_SAME_UUID_def)
  show ?thesis
    using v4_tag_walk_exact [of "[(7, 0), (8, 10)]" _ 5 "[]" "small_fs\<lparr>vf_bs := 52\<rparr>" small_io 9 4 "(small_ctx, [])"] e
    by (simp add: tag_ok_def last_flag_def JBD2_FLAG_LAST_TAG_def txn_header_def small_ctx_def)
qed

theorem v4_checksum_tag_short_witness:
  "v4_decode_tag (enc_tag JBD2_TAG_FMT_CSUM_V3 True (7, 2) @ [1]) 0 = Some (7, 2, 12) \<and> length (enc_tag JBD2_TAG_FMT_CSUM_V3 True (7, 2)) = 16"
  using v4_checksum_tag_short [of "(7, 2)" "[]" "[1]"] by (simp add: length_enc_tag fmt_bytes_def JBD2_FLAG_SAME_UUID_def)

definition flex_fs :: v4_fs where
  "flex_fs = small_fs\<lparr>vf_bs := 4096, vf_groups := 2, vf_inodes_per_group := 32, vf_inode_size := 256, vf_table_loc := flex_loc\<rparr>"

theorem versions_number_inodes_alike_witness:
  "\<exists>m. build_itable_map True 2 32 256 4096 flex_loc = Some m \<and> v4_is_inode_table_block flex_fs 21 = is_inode_table_block m 21 \<and>
     v4_calc_inode_from_block flex_fs 21 1024 = calc_inode_from_block m 32 256 4096 21 1024"
proof -
  obtain m where m: "build_itable_map True 2 32 256 4096 flex_loc = Some m" by (simp add: build_itable_map_def)
  have tb: "table_blocks 32 256 4096 = 2" by (simp add: table_blocks_def)
  have "itable_lookup m 21 = Some \<lparr>it_start = 20, it_end = 20 + itb_blocks 32 256 4096, it_group = 1\<rparr>"
    using lookup_group(1) [OF flex_layout m, of 1 1] tb by (simp add: flex_loc_def)
  then have "calc_inode_from_block m 32 256 4096 21 1024 \<noteq> 0" by (simp add: calc_inode_from_block_def Let_def)
  moreover have "unat (32 :: u32) * unat (256 :: u32) + 4096 < 2 ^ 32" by simp
  ultimately show ?thesis
    using versions_number_inodes_alike [of flex_fs m 21 1024] flex_layout m by (auto simp: flex_fs_def flex_loc_def)
qed

text \<open>An inode of 20 bytes whose only extent is block 1 of the small device.\<close>

definition leaf20 :: ext2_inode where
  "leaf20 = tree_inode\<lparr>i_size := 20, i_size_high := 0, i_block := le_bytes 2 0xF30A @ le_bytes 2 1 @ le_bytes 2 4 @ le_bytes 2 0 @ le_bytes 4 0 @
     le_bytes 4 0 @ le_bytes 2 1 @ le_bytes 2 0 @ le_bytes 4 1 @ replicate 36 0\<rparr>"

theorem v4_recover_leaf_inode_exact_witness:
  "\<exists>c'. v4_recover_inode_from_journal small_fs small_io 7 leaf20 journal_ctx = Done (0, c') \<and>
     o_file (v_io c') ''7_file'' = map of_nat [1..<21]"
proof -
  have h: "header_at (i_block leaf20) = \<lparr>eh_magic = EXT4_EXT_MAGIC, eh_entries = 1, eh_max = 4, eh_depth = 0\<rparr>"
    "extents_at (i_block leaf20) (unat (1 :: u16)) = Some [first_extent]" "unat (inode_size64 leaf20) = 20"
    by (simp_all add: leaf20_def header_at_def extents_at_def extent_at_def le16_at_def le32_at_def sub_buf_def first_extent_def EXT4_EXT_MAGIC_def
        inode_size64_def)
  have p: "[first_extent] = List.map_filter (v4_pick_init (v_total journal_ctx)) [first_extent]"
    by (simp add: map_filter_def v4_pick_init_def first_extent_def journal_ctx_def init_len_def ee_phys_def)
  have o: "foldl (copy_extent small_dev (vf_bs small_fs)) [] [first_extent] = map of_nat [1..<25]"
    "sum_list (map (\<lambda>e. unat (ee_len e)) [first_extent]) = 1" using small_example(6) by (simp_all add: small_fs_def first_extent_def)
  have ctx: "unat (v_total journal_ctx) * vf_bs small_fs \<le> length small_dev" "o_file (v_io journal_ctx) (fallback_name 7) = [1, 2]"
    "vf_truncate small_fs x" "vf_rename small_fs x" "vf_bs small_fs = 24" for x
    using small_example(3) small_roots(6) by (simp_all add: journal_ctx_def small_fs_def o_file_def)
  have "cut 20 (map of_nat [1..<25]) = (map of_nat [1..<21] :: buffer)" by (simp add: cut_def take_map)
  then show ?thesis
    using v4_recover_leaf_inode_exact [where ino = 7, OF small_example(1) ctx(1) small_roots(8) ctx(3,4) h(1) _ _ _ h(2) p _ o(1) [symmetric]
        o(2) [symmetric] h(3) [symmetric] refl] ctx(2,5) small_roots(6) by auto
qed

end
