(* ===== verification/Main4.thy ===== *)
theory Main4
  imports Journal4
begin

text \<open>
  The main program of version 0.4 (\<^verbatim>\<open>improved/ext4recover_v2.c\<close>: arguments, checks, and the four phases).  What the machine answers
  (the file system found on the named device, \<open>open\<close>, \<open>mkdir\<close>, the two \<open>stat\<close> calls) depends on the device name and the recovery directory.
\<close>

section \<open>Arguments\<close>

record v4_config =
  g_mode :: u32
  g_verbose :: bool
  g_trim_zeros :: bool
  g_recover_dir :: string
  g_device_name :: "string option"

definition v4_default :: v4_config where
  "v4_default = \<lparr>g_mode = 0x01, g_verbose = False, g_trim_zeros = False, g_recover_dir = ''./RECOVER'', g_device_name = None\<rparr>"

text \<open>\<open>None\<close> is the exit after an unknown option.  An empty argument is taken for the device.\<close>

function v4_parse_args :: "string list \<Rightarrow> v4_config \<Rightarrow> v4_config option" where
  "v4_parse_args argv g =
     (case argv of [] \<Rightarrow> Some g
      | a # rest \<Rightarrow>
          if a = ''--normal'' then v4_parse_args rest (g\<lparr>g_mode := g_mode g OR 0x01\<rparr>)
          else if a = ''--orphan'' then v4_parse_args rest (g\<lparr>g_mode := g_mode g OR 0x02\<rparr>)
          else if a = ''--journal'' then v4_parse_args rest (g\<lparr>g_mode := g_mode g OR 0x04\<rparr>)
          else if a = ''--aggressive'' then v4_parse_args rest (g\<lparr>g_mode := g_mode g OR 0x08\<rparr>)
          else if a = ''--all'' then v4_parse_args rest (g\<lparr>g_mode := 0xFF\<rparr>)
          else if a = ''--verbose'' then v4_parse_args rest (g\<lparr>g_verbose := True\<rparr>)
          else if a = ''--trim'' then v4_parse_args rest (g\<lparr>g_trim_zeros := True\<rparr>)
          else if a = ''--dir'' then
            (case rest of [] \<Rightarrow> v4_parse_args [] g
             | d # rest' \<Rightarrow> v4_parse_args rest' (g\<lparr>g_recover_dir := take 255 d\<rparr>))
          else if take 1 a \<noteq> ''-'' then v4_parse_args rest (g\<lparr>g_device_name := Some a\<rparr>)
          else None)"
  by pat_completeness auto
termination
  by (relation "measure (\<lambda>(argv, g). length argv)") auto

declare v4_parse_args.simps [simp del]

section \<open>The phases\<close>

definition v4_try_inode :: "nat \<Rightarrow> v4_fs \<Rightarrow> disk_io \<Rightarrow> u32 \<Rightarrow> v4 \<Rightarrow> v4 res" where
  "v4_try_inode k fs io icount c =
     (case io_inode io icount of None \<Rightarrow> Done c
      | Some inode \<Rightarrow>
          if is_inode_extent_clear inode then Done c
          else res_map (\<lambda>(r, st). if r = 0 then c\<lparr>v_io := st, v_files_recovered := v_files_recovered c + 1\<rparr>
                                  else c\<lparr>v_io := st, v_files_failed := v_files_failed c + 1\<rparr>)
                 (v4_recover_from_extent_tree k fs io icount (v_io c)))"

primrec v4_inode_loop :: "nat \<Rightarrow> v4_fs \<Rightarrow> disk_io \<Rightarrow> nat list \<Rightarrow> v4 \<Rightarrow> v4 res" where
  "v4_inode_loop k fs io [] c = Done c"
| "v4_inode_loop k fs io (n # ns) c = res_bind (v4_try_inode k fs io (of_nat n) c) (v4_inode_loop k fs io ns)"

text \<open>The counter is unsigned and compared by \<^verbatim>\<open><=\<close>: with the largest number of inodes it never leaves the loop.\<close>

definition v4_normal_phase :: "nat \<Rightarrow> v4_fs \<Rightarrow> disk_io \<Rightarrow> v4 \<Rightarrow> v4 res" where
  "v4_normal_phase k fs io c =
     (if vf_inodes fs = 0xFFFFFFFF then Running else v4_inode_loop k fs io [3..<unat (vf_inodes fs) + 1] c)"

definition v4_journal_phase :: "v4_fs \<Rightarrow> disk_io \<Rightarrow> v4 \<Rightarrow> v4 res" where
  "v4_journal_phase fs io c =
     (case v4_init_journal fs io c of (r, c) \<Rightarrow>
        if r = 0 then res_map snd (v4_recover_from_journal fs io c) else Done c)"

definition v4_later_phases :: "nat \<Rightarrow> u32 \<Rightarrow> v4_fs \<Rightarrow> disk_io \<Rightarrow> v4 \<Rightarrow> v4 res" where
  "v4_later_phases k md fs io c =
     res_bind (if md AND 0x01 \<noteq> 0 then v4_normal_phase k fs io c else Done c)
       (\<lambda>c. if md AND 0x08 \<noteq> 0 then res_map snd (v4_aggressive_scan fs io c) else Done c)"

definition v4_phases :: "nat \<Rightarrow> u32 \<Rightarrow> v4_fs \<Rightarrow> disk_io \<Rightarrow> v4 \<Rightarrow> v4 res" where
  "v4_phases k md fs io c =
     res_bind (if md AND 0x02 \<noteq> 0 then v4_recover_orphan_list k fs io c else Done c)
       (\<lambda>c. res_bind (if md AND 0x04 \<noteq> 0 then v4_journal_phase fs io c else Done c) (v4_later_phases k md fs io))"

section \<open>The program\<close>

record v4_host =
  vh_fs :: "int + v4_fs"
  vh_open :: bool
  vh_mkdir :: bool
  vh_stat_dir :: "nat option"
  vh_stat_dev :: "(bool \<times> nat) option"

text \<open>The context after \<open>memset\<close>, around the files of the recovery directory.\<close>

definition v4_init :: "(string \<Rightarrow> buffer option) \<Rightarrow> v4" where
  "v4_init fs0 = \<lparr>v_io = \<lparr>o_files = fs0, o_dev_pos = 0, o_out_pos = 0, o_calls = 0, o_flag = False\<rparr>, v_files_recovered = 0, v_files_failed = 0,
     v_orphan = 0, v_aggressive = 0, v_journal = 0, v_total = 0, v_has_journal = False, v_journal_start = 0, v_journal_len = 0, v_list = []\<rparr>"

text \<open>The exit status and the final context; \<open>argv\<close> is without the name of the program.\<close>

definition v4_main ::
  "nat \<Rightarrow> string list \<Rightarrow> (string \<Rightarrow> string \<Rightarrow> v4_host) \<Rightarrow> (string \<Rightarrow> disk_io) \<Rightarrow> (string \<Rightarrow> buffer option) \<Rightarrow> (int \<times> v4) res" where
  "v4_main k argv host io fs0 =
     (let c = v4_init fs0 in
      if argv = [] then Done (1, c)
      else case v4_parse_args argv v4_default of None \<Rightarrow> Done (1, c)
      | Some g \<Rightarrow>
          (case g_device_name g of None \<Rightarrow> Done (1, c)
           | Some dev \<Rightarrow>
               let h = host dev (g_recover_dir g) in
               (case vh_fs h of Inl e \<Rightarrow> Done (e, c)
                | Inr fs \<Rightarrow>
                    if \<not> vh_open h then Done (1, c)
                    else if \<not> vh_mkdir h then Done (1, c)
                    else if orig_is_on_device (vh_stat_dir h) (vh_stat_dev h) = 1 then Done (1, c)
                    else res_map (Pair 0) (v4_phases k (g_mode g) fs (io dev) (c\<lparr>v_total := vf_blocks fs\<rparr>)))))"

section \<open>Outputs that are there stay\<close>

lemma fix_index_loop_frames:
  assumes "\<And>b st. frames fd st (child b st)"
  shows "frames fd st (fix_index_loop valid io bs child buf is st)"
proof (induction "is" arbitrary: st)
  case (Cons i "is")
  then show ?case by (auto split: option.split intro!: frames_bind assms)
qed simp

lemma tree_walk_frames:
  assumes "\<And>b st. frames fd st (leaf b st)"
  shows "frames fd st (tree_walk leaf valid id io bs k buf st)"
  by (induction k arbitrary: buf st) (auto simp: Let_def intro!: fix_index_loop_frames assms)

lemma fix_slot_loop_frames:
  assumes "\<And>b st. frames fd st (travel b st)"
  shows "frames fd st (fix_slot_loop valid partial io travel ib is st)"
proof (induction "is" arbitrary: st)
  case (Cons i "is")
  then show ?case by (auto split: option.split intro!: frames_bind assms)
qed simp

lemma v4_dump_loop_frames:
  assumes "\<And>e st. frames fd st (cpy e st)"
  shows "frames fd st (v4_dump_loop cpy buf is st)"
proof (induction "is" arbitrary: st)
  case (Cons i "is")
  then show ?case by (auto split: option.split intro!: frames_bind assms)
qed simp

lemma v4_parse_ino_frames: "frames fd st (v4_parse_ino_extent k fs io fd ib st)"
proof -
  have "frames fd st (v4_dump_leaf_extent fs io fd b st)" for b st
    by (simp add: v4_dump_leaf_extent_def v4_dump_leaf_def Let_def v4_dump_loop_frames [OF v4_rb_frames])
  then show ?thesis
    unfolding v4_parse_ino_extent_def v4_extent_tree_travel_def by (simp add: fix_slot_loop_frames tree_walk_frames)
qed

text \<open>A file that is not empty is left as it is.\<close>

definition kept :: "(string \<Rightarrow> bool) \<Rightarrow> v4 \<Rightarrow> v4 \<Rightarrow> bool" where
  "kept P c c' \<longleftrightarrow> (\<forall>x. P x \<longrightarrow> o_file (v_io c) x \<noteq> [] \<longrightarrow> o_files (v_io c') x = o_files (v_io c) x)"

lemma kept_refl: "kept P c c"
  by (simp add: kept_def)

lemma kept_trans: "kept P a b \<Longrightarrow> kept P b c \<Longrightarrow> kept P a c"
  by (simp add: kept_def o_file_def)

lemma v4_recover_tree_kept:
  assumes "v4_recover_from_extent_tree k fs io ino st = Done (r, st')" "o_file st x \<noteq> []"
  shows "o_files st' x = o_files st x"
proof (cases "x = fallback_name ino")
  case True
  then show ?thesis using assms by (simp add: v4_recover_from_extent_tree_def v4_create_recovery_file_def Let_def)
next
  case False
  then show ?thesis
    using assms(1) v4_parse_ino_frames
    by (auto simp: v4_recover_from_extent_tree_def v4_create_recovery_file_def Let_def frames_def res_map_eq_Done split: if_splits option.splits)
qed

lemma v4_try_inode_kept: "v4_try_inode k fs io n c = Done c' \<Longrightarrow> kept P c c'"
  by (auto simp: v4_try_inode_def kept_def res_map_eq_Done dest: v4_recover_tree_kept split: option.splits if_splits)

lemma v4_inode_loop_kept: "v4_inode_loop k fs io ns c = Done c' \<Longrightarrow> kept P c c'"
  by (induction ns arbitrary: c) (auto simp: kept_refl res_bind_eq_Done intro: kept_trans v4_try_inode_kept)

definition not_aggressive :: "string \<Rightarrow> bool" where
  "not_aggressive x \<longleftrightarrow> (\<forall>b. x \<noteq> v4_aggressive_name b)"

lemma v4_orphaned_block_files:
  assumes "v4_recover_orphaned_extent_block fs io b buf c = Done (r, c')" "not_aggressive x"
  shows "o_files (v_io c') x = o_files (v_io c) x"
proof -
  have "frames (v4_aggressive_name b) st (v4_leaf_loop (v4_rb fs io (v4_aggressive_name b)) tot buf is n st)" for st tot "is" n
    unfolding v4_leaf_loop_def by (rule v4_copy_loop_frames [OF v4_rb_frames])
  then show ?thesis
    using assms
    by (auto simp: v4_recover_orphaned_extent_block_def Let_def res_map_eq_Done frames_def not_aggressive_def v4_mark_block_recovered_def
        split: if_splits prod.splits)
qed

lemma v4_scan_loop_files: "v4_scan_loop fs io sel bs s = Done s' \<Longrightarrow> not_aggressive x \<Longrightarrow> o_files (v_io (snd s')) x = o_files (v_io (snd s)) x"
proof (induction bs arbitrary: s)
  case (Cons b bs)
  have "o_files (v_io (snd s1)) x = o_files (v_io (snd s)) x" if "v4_scan_block fs io (of_nat b) s = Done s1" for s1
    using that Cons.prems(2)
    by (auto simp: v4_scan_block_def res_map_eq_Done dest: v4_orphaned_block_files split: prod.splits option.splits if_splits)
  then show ?case using Cons by (auto simp: res_bind_eq_Done split: if_splits)
qed simp

lemma v4_aggressive_files: "v4_aggressive_scan fs io c = Done (r, c') \<Longrightarrow> not_aggressive x \<Longrightarrow> o_files (v_io c') x = o_files (v_io c) x"
  by (auto simp: v4_aggressive_scan_def v4_scan_for_extent_headers_def v4_free_recovered_list_def res_map_eq_Done
      dest: v4_scan_loop_files split: if_splits prod.splits)

lemma v4_visit_orphan_kept: "v4_visit_orphan k fs io ino inode c = Done c' \<Longrightarrow> kept P c c'"
  by (auto simp: v4_visit_orphan_def kept_def res_map_eq_Done dest: v4_recover_tree_kept split: if_splits)

lemma v4_orphan_loop_kept: "v4_orphan_loop k fs io ino n c = Done c' \<Longrightarrow> kept P c c'"
proof (induction k fs io ino n c rule: v4_orphan_loop.induct)
  case (1 k fs io ino n c)
  then show ?case
    by (auto simp: v4_orphan_loop.simps [of k fs io ino n c] kept_refl res_bind_eq_Done split: if_splits option.splits
        intro: kept_trans v4_visit_orphan_kept)
qed

lemma v4_orphans_kept: "v4_recover_orphan_list k fs io c = Done c' \<Longrightarrow> kept P c c'"
  by (auto simp: v4_recover_orphan_list_def kept_refl split: if_splits intro: v4_orphan_loop_kept)

lemma v4_later_kept:
  assumes "v4_later_phases k md fs io c = Done c'"
  shows "kept not_aggressive c c'"
proof -
  obtain c1 where "(if md AND 0x01 \<noteq> 0 then v4_normal_phase k fs io c else Done c) = Done c1"
    "(if md AND 0x08 \<noteq> 0 then res_map snd (v4_aggressive_scan fs io c1) else Done c1) = Done c'"
    using assms by (auto simp: v4_later_phases_def res_bind_eq_Done)
  then have "kept not_aggressive c c1" "kept not_aggressive c1 c'"
    by (auto simp: v4_normal_phase_def kept_def res_map_eq_Done dest: v4_aggressive_files split: if_splits
        intro: v4_inode_loop_kept [unfolded kept_def, rule_format])
  then show ?thesis by (rule kept_trans)
qed

lemma kept_length: "kept P c c' \<Longrightarrow> P x \<Longrightarrow> length (o_file (v_io c) x) \<le> length (o_file (v_io c') x)"
  by (cases "o_file (v_io c) x = []") (auto simp: kept_def o_file_def)

lemma v4_phases_length:
  assumes "v4_phases k md fs io c = Done c'" "visible x" "not_aggressive x"
  shows "length (o_file (v_io c) x) \<le> length (o_file (v_io c') x)"
proof -
  obtain c1 c2 where p: "(if md AND 0x02 \<noteq> 0 then v4_recover_orphan_list k fs io c else Done c) = Done c1"
    "(if md AND 0x04 \<noteq> 0 then v4_journal_phase fs io c1 else Done c1) = Done c2" "v4_later_phases k md fs io c2 = Done c'"
    using assms(1) by (auto simp: v4_phases_def res_bind_eq_Done)
  have "kept (\<lambda>_. True) c c1" using p(1) v4_orphans_kept kept_refl by (auto split: if_splits)
  then have l: "length (o_file (v_io c) x) \<le> length (o_file (v_io c1) x)" by (rule kept_length) simp
  have init: "o_file (v_io c3) x = o_file (v_io c1) x" if "v4_init_journal fs io c1 = (r, c3)" for r c3
    using that by (auto simp: v4_init_journal_def Let_def split: if_splits option.splits)
  have "length (o_file (v_io c1) x) \<le> length (o_file (v_io c2) x)"
  proof (cases "md AND 0x04 \<noteq> 0")
    case True
    obtain r c3 where i: "v4_init_journal fs io c1 = (r, c3)" by fastforce
    have "c2 = c3 \<or> grown c3 c2" using p(2) True i v4_journal_grown by (auto simp: v4_journal_phase_def res_map_eq_Done split: if_splits)
    then show ?thesis using init [OF i] assms(2) by (auto simp: grown_def)
  next
    case False
    then show ?thesis using p(2) by simp
  qed
  moreover have "length (o_file (v_io c2) x) \<le> length (o_file (v_io c') x)"
    using kept_length [OF v4_later_kept [OF p(3)] assms(3)] .
  ultimately show ?thesis using l by linarith
qed

text \<open>The arguments that are read as options or as the device: those that are not the directory after \<^verbatim>\<open>--dir\<close>.\<close>

fun v4_words :: "string list \<Rightarrow> string list" where
  "v4_words [] = []"
| "v4_words [a] = [a]"
| "v4_words (a # d # rest) = (if a = ''--dir'' then a # v4_words rest else a # v4_words (d # rest))"

lemma flag_bit: "(x AND 0x01 \<noteq> 0) = bit x 0" "(x AND 0x02 \<noteq> 0) = bit x 1" "(x AND 0x04 \<noteq> 0) = bit x 2" "(x AND 0x08 \<noteq> 0) = bit x 3"
  for x :: u32
  using bit_iff_and_push_bit_not_eq_0 [of x 0] bit_iff_and_push_bit_not_eq_0 [of x 1]
    bit_iff_and_push_bit_not_eq_0 [of x 2] bit_iff_and_push_bit_not_eq_0 [of x 3] by simp_all

definition v4_flag :: "nat \<Rightarrow> string" where
  "v4_flag n = [''--normal'', ''--orphan'', ''--journal'', ''--aggressive''] ! n"

lemma v4_parse_mode:
  "v4_parse_args argv g = Some g' \<Longrightarrow> n < 4 \<Longrightarrow>
   bit (g_mode g') n \<longleftrightarrow> bit (g_mode g) n \<or> v4_flag n \<in> set (v4_words argv) \<or> ''--all'' \<in> set (v4_words argv)"
proof (induction argv arbitrary: g rule: v4_words.induct)
  case 1
  then show ?case by (simp add: v4_parse_args.simps)
next
  case (2 a)
  have n: "n = 0 \<or> n = 1 \<or> n = 2 \<or> n = 3" using 2(2) by auto
  show ?case
    using 2(1) n by (elim disjE; auto simp: v4_parse_args.simps [of "[a]"] v4_parse_args.simps [of "[]"] v4_flag_def bit_or_iff split: if_splits)
next
  case (3 a d rest)
  have n: "n = 0 \<or> n = 1 \<or> n = 2 \<or> n = 3" using 3(4) by auto
  show ?case
  proof (cases "a = ''--dir''")
    case True
    then show ?thesis using 3(1) [OF True] 3(3,4) n by (auto simp: v4_parse_args.simps [of "''--dir'' # d # rest"] v4_flag_def)
  next
    case False
    then show ?thesis
      using 3(2) [OF False] 3(3,4) n
      by (elim disjE; auto simp: v4_parse_args.simps [of "a # d # rest"] v4_flag_def bit_or_iff split: if_splits)
  qed
qed

section \<open>Properties\<close>

text \<open>Property C4: a run of version 0.4 never leaves a file of the recovery directory shorter than it was.  Whatever the arguments, the
  device and the failures of the system: when the program ends, every file that is neither a temporary file of its own nor an output of
  the device scan has at least its old length.\<close>

theorem v4_main_never_shrinks:
  assumes "v4_main k argv host io fs0 = Done (e, c')" "visible x" "not_aggressive x" "fs0 x = Some f"
  shows "length f \<le> length (o_file (v_io c') x)"
proof -
  have i: "o_file (v_io (v4_init fs0)) x = f" "o_file (v_io ((v4_init fs0)\<lparr>v_total := t\<rparr>)) x = f" for t
    using assms(4) by (simp_all add: v4_init_def o_file_def)
  consider "c' = v4_init fs0" | md fs d where "v4_phases k md fs (io d) ((v4_init fs0)\<lparr>v_total := vf_blocks fs\<rparr>) = Done c'"
    using assms(1) by (auto simp: v4_main_def Let_def res_map_eq_Done split: if_splits option.splits sum.splits)
  then show ?thesis using i v4_phases_length assms(2,3) by cases (simp, metis)
qed

text \<open>What the journal has recovered, the later phases keep.  A file that is not empty when the third phase starts is the same
  when the program ends, apart from the outputs of the device scan, which have names of their own.\<close>

theorem v4_later_phases_keep:
  assumes "v4_later_phases k md fs io c = Done c'" "o_file (v_io c) (fallback_name ino) \<noteq> []"
  shows "o_files (v_io c') (fallback_name ino) = o_files (v_io c) (fallback_name ino)"
proof -
  obtain d ds where d: "udec (unat ino) = d # ds" "is_digit d" using udec_digits [of "unat ino"] by (cases "udec (unat ino)") auto
  then have "d \<noteq> CHR ''a''" by (auto simp: is_digit_def)
  then have "not_aggressive (fallback_name ino)" using d(1) by (simp add: not_aggressive_def v4_aggressive_name_def fallback_name_def)
  then show ?thesis using v4_later_kept [OF assms(1)] assms(2) by (simp add: kept_def)
qed

text \<open>A run that ends with an error status has changed nothing.  In particular it refuses to write onto the device it
  recovers from: every check is before the first output.\<close>

theorem v4_main_error_untouched:
  assumes "v4_main k argv host io fs0 = Done (e, c')" "e \<noteq> 0"
  shows "o_files (v_io c') = fs0"
proof -
  have "c' = v4_init fs0"
    using assms by (auto simp: v4_main_def Let_def res_map_eq_Done split: if_splits option.splits sum.splits)
  then show ?thesis by (simp add: v4_init_def)
qed

text \<open>The options select the phases.  When the arguments are accepted, the orphan, journal and device-scan phases run exactly if
  asked for by their option or by \<^verbatim>\<open>--all\<close>, and the tree phase always runs: no option can turn it off.\<close>

theorem v4_options_select_phases:
  assumes "v4_parse_args argv v4_default = Some g"
  shows "g_mode g AND 0x01 \<noteq> 0 \<and>
    (g_mode g AND 0x02 \<noteq> 0) = (''--orphan'' \<in> set (v4_words argv) \<or> ''--all'' \<in> set (v4_words argv)) \<and>
    (g_mode g AND 0x04 \<noteq> 0) = (''--journal'' \<in> set (v4_words argv) \<or> ''--all'' \<in> set (v4_words argv)) \<and>
    (g_mode g AND 0x08 \<noteq> 0) = (''--aggressive'' \<in> set (v4_words argv) \<or> ''--all'' \<in> set (v4_words argv))"
proof -
  have m: "g_mode v4_default = 1" by (simp add: v4_default_def)
  show ?thesis
    using v4_parse_mode [OF assms, of 0] v4_parse_mode [OF assms, of 1] v4_parse_mode [OF assms, of 2] v4_parse_mode [OF assms, of 3]
    unfolding flag_bit m by (simp add: v4_flag_def)
qed

section \<open>Examples\<close>

definition small_host :: v4_host where
  "small_host = \<lparr>vh_fs = Inr (small_fs\<lparr>vf_inodes := 7\<rparr>), vh_open = True, vh_mkdir = True, vh_stat_dir = Some 1, vh_stat_dev = Some (True, 2)\<rparr>"

text \<open>The deleted inode 7 already has an output.\<close>

lemma small_phase3:
  assumes "o_file (v_io c) ''7_file'' \<noteq> []"
  shows "v4_normal_phase 1 (small_fs\<lparr>vf_inodes := 7\<rparr>) small_io c = Done (c\<lparr>v_files_failed := v_files_failed c + 1\<rparr>)"
proof -
  have r: "[3..<8] = [3, 4, 5, 6, 7 :: nat]" by (simp add: upt_rec)
  have "wanted first_io 7" using first_example(2) [of 7] by simp
  then obtain i where i: "io_inode small_io 7 = Some i" "\<not> is_inode_extent_clear i"
    by (auto simp: wanted_def small_io_def split: option.splits)
  have "v4_recover_from_extent_tree 1 (small_fs\<lparr>vf_inodes := 7\<rparr>) small_io 7 (v_io c) = Done (-1, v_io c)"
    using assms small_roots(6) by (simp add: v4_recover_from_extent_tree_def v4_create_recovery_file_def Let_def)
  then have "v4_try_inode 1 (small_fs\<lparr>vf_inodes := 7\<rparr>) small_io 7 c = Done (c\<lparr>v_files_failed := v_files_failed c + 1\<rparr>)"
    using i by (simp add: v4_try_inode_def)
  moreover have "v4_try_inode 1 (small_fs\<lparr>vf_inodes := 7\<rparr>) small_io n c = Done c" if "n = 3 \<or> n = 4 \<or> n = 5 \<or> n = 6" for n
    using that by (auto simp: v4_try_inode_def small_io_def first_io_def)
  ultimately show ?thesis by (simp add: v4_normal_phase_def small_fs_def r)
qed

theorem v4_later_phases_keep_witness:
  "\<exists>c'. v4_later_phases 1 1 (small_fs\<lparr>vf_inodes := 7\<rparr>) small_io journal_ctx = Done c' \<and> o_files (v_io c') ''7_file'' = Some [1, 2]"
proof -
  have f: "o_file (v_io journal_ctx) ''7_file'' = [1, 2]" "o_files (v_io journal_ctx) ''7_file'' = Some [1, 2]"
    by (simp_all add: journal_ctx_def o_file_def)
  then obtain c' where "v4_later_phases 1 1 (small_fs\<lparr>vf_inodes := 7\<rparr>) small_io journal_ctx = Done c'"
    using small_phase3 [of journal_ctx] by (simp add: v4_later_phases_def)
  then show ?thesis using v4_later_phases_keep [of 1 1 "small_fs\<lparr>vf_inodes := 7\<rparr>" small_io journal_ctx c' 7] small_roots(6) f by simp
qed

lemma small_args:
  "v4_parse_args [''--journal'', ''--dir'', ''--all'', ''d''] v4_default =
     Some (v4_default\<lparr>g_mode := 5, g_recover_dir := ''--all'', g_device_name := Some ''d''\<rparr>)"
  "v4_parse_args [''d''] v4_default = Some (v4_default\<lparr>g_device_name := Some ''d''\<rparr>)"
  by (simp_all add: v4_parse_args.simps v4_default_def)

theorem v4_main_never_shrinks_witness:
  "\<exists>e c'. v4_main 1 [''d''] (\<lambda>_ _. small_host) (\<lambda>_. small_io) [''7_file'' \<mapsto> [1, 2]] = Done (e, c') \<and> 2 \<le> length (o_file (v_io c') ''7_file'')"
proof -
  let ?c = "(v4_init [''7_file'' \<mapsto> [1, 2]])\<lparr>v_total := 3\<rparr>"
  have n: "visible ''7_file''" "not_aggressive ''7_file''" by (simp_all add: visible_def not_aggressive_def v4_aggressive_name_def)
  have "o_file (v_io ?c) ''7_file'' \<noteq> []" by (simp add: v4_init_def o_file_def)
  from small_phase3 [OF this] obtain c' where
    "v4_main 1 [''d''] (\<lambda>_ _. small_host) (\<lambda>_. small_io) [''7_file'' \<mapsto> [1, 2]] = Done (0, c')"
    using small_args(2) by (simp add: v4_main_def small_host_def orig_is_on_device_def v4_phases_def v4_later_phases_def v4_default_def small_fs_def Let_def)
  then show ?thesis
    using v4_main_never_shrinks [of 1 "[''d'']" "\<lambda>_ _. small_host" "\<lambda>_. small_io" "[''7_file'' \<mapsto> [1, 2]]" 0 c' "''7_file''" "[1, 2]"] n by auto
qed

theorem v4_main_error_untouched_witness:
  "\<exists>c'. v4_main 1 [''d''] (\<lambda>_ _. small_host\<lparr>vh_stat_dir := Some 2\<rparr>) (\<lambda>_. small_io) [''a'' \<mapsto> [1]] = Done (1, c') \<and> o_files (v_io c') = [''a'' \<mapsto> [1]]"
proof -
  have "v4_main 1 [''d''] (\<lambda>_ _. small_host\<lparr>vh_stat_dir := Some 2\<rparr>) (\<lambda>_. small_io) [''a'' \<mapsto> [1]] = Done (1, v4_init [''a'' \<mapsto> [1]])"
    using small_args(2) by (simp add: v4_main_def small_host_def orig_is_on_device_def v4_default_def)
  from v4_main_error_untouched [OF this] this show ?thesis by auto
qed

theorem v4_options_select_phases_witness:
  "\<exists>g. v4_parse_args [''--journal'', ''--dir'', ''--all'', ''d''] v4_default = Some g \<and> g_mode g AND 0x04 \<noteq> 0 \<and> g_mode g AND 0x08 = 0 \<and>
     g_mode g AND 0x01 \<noteq> 0"
  using v4_options_select_phases [OF small_args(1)] small_args(1) by simp

end
