(* ===== verification/Older_Modules.thy ===== *)
theory Older_Modules
  imports Dirents Checkpoint Main_Driver
begin

text \<open>
  The modules of version 0.5 that \<^verbatim>\<open>utils_v5.c\<close> replaced: the filename map as an array with linear search (\<^verbatim>\<open>filename_recovery.c\<close>), cluster
  arithmetic (\<^verbatim>\<open>bigalloc_support.c\<close>) and the first checkpoint format (\<^verbatim>\<open>checkpoint.c\<close>).  They are compared with what replaced them.
\<close>

section \<open>The filename array\<close>

text \<open>\<open>ol_map\<close> is the array up to \<open>filename_count\<close>, or \<open>None\<close> for a null pointer.\<close>

record name_list =
  ol_map :: "filename_entry list option"
  ol_capacity :: nat

definition ol_init_filename_map :: "bool \<Rightarrow> name_list \<Rightarrow> int \<times> name_list" where
  "ol_init_filename_map ok st =
     (let st = st\<lparr>ol_capacity := MAX_FILENAME_MAP\<rparr> in
      if \<not> ok then (-1, st\<lparr>ol_map := None\<rparr>) else (0, st\<lparr>ol_map := Some []\<rparr>))"

definition ol_count :: "name_list \<Rightarrow> nat" where
  "ol_count st = (case ol_map st of None \<Rightarrow> 0 | Some es \<Rightarrow> length es)"

primrec ol_put :: "filename_entry list \<Rightarrow> u32 \<Rightarrow> string \<Rightarrow> filename_entry list" where
  "ol_put [] ino name = [\<lparr>fe_inode = ino, fe_name = take 255 name\<rparr>]"
| "ol_put (e # es) ino name = (if fe_inode e = ino then e\<lparr>fe_name := take 255 name\<rparr> # es else e # ol_put es ino name)"

text \<open>Without the array the new entry is stored through a null pointer.\<close>

definition ol_add_filename_mapping :: "name_list \<Rightarrow> u32 \<Rightarrow> string \<Rightarrow> (int \<times> name_list) ub" where
  "ol_add_filename_mapping st ino name =
     (if ol_count st \<ge> ol_capacity st then Some (-1, st)
      else case ol_map st of None \<Rightarrow> None
           | Some es \<Rightarrow> Some (0, st\<lparr>ol_map := Some (ol_put es ino name)\<rparr>))"

primrec ol_find :: "filename_entry list \<Rightarrow> u32 \<Rightarrow> string option" where
  "ol_find [] ino = None"
| "ol_find (e # es) ino = (if fe_inode e = ino then Some (fe_name e) else ol_find es ino)"

definition ol_get_filename_for_inode :: "name_list \<Rightarrow> u32 \<Rightarrow> string option" where
  "ol_get_filename_for_inode st ino = (case ol_map st of None \<Rightarrow> None | Some es \<Rightarrow> ol_find es ino)"

definition ol_free_filename_map :: "name_list \<Rightarrow> name_list" where
  "ol_free_filename_map st = st\<lparr>ol_map := None\<rparr>"

section \<open>Directory blocks\<close>

definition ol_dir_entry :: "buffer \<Rightarrow> nat \<Rightarrow> name_list \<Rightarrow> name_list ub" where
  "ol_dir_entry buf off st =
     (if le32_at buf off = 0 then Some st
      else if off + 7 > length buf then None
      else let name_len = unat (u8_at buf (off + 6)) in
        if \<not> (name_len > 0 \<and> name_len < 256) then Some st
        else if off + 8 + name_len > length buf then None
        else let name = dirent_name buf off name_len in
          if name \<noteq> ''.'' \<and> name \<noteq> ''..''
          then map_option snd (ol_add_filename_mapping st (le32_at buf off) name)
          else Some st)"

function ol_parse_dir_block :: "nat \<Rightarrow> buffer \<Rightarrow> nat \<Rightarrow> name_list \<Rightarrow> name_list ub" where
  "ol_parse_dir_block bsz buf offset st =
     (if offset < bsz then
        (if offset + 6 > length buf then None
         else let rec_len = unat (le16_at buf (offset + 4)) in
           if rec_len = 0 \<or> rec_len > bsz - offset then Some st
           else case ol_dir_entry buf offset st of None \<Rightarrow> None
                | Some st' \<Rightarrow> ol_parse_dir_block bsz buf (offset + rec_len) st')
      else Some st)"
  by pat_completeness auto
termination
  by (relation "measure (\<lambda>(bsz, buf, offset, st). bsz - offset)") auto

declare ol_parse_dir_block.simps [simp del]

definition ol_looks_dir :: "nat \<Rightarrow> buffer \<Rightarrow> bool" where
  "ol_looks_dir bsz buf \<longleftrightarrow> le32_at buf 0 \<noteq> 0 \<and> le16_at buf 4 > 0 \<and> unat (le16_at buf 4) \<le> bsz"

text \<open>\<open>rd b\<close> is what \<open>lseek\<close> and \<open>read\<close> return for block \<open>b\<close> of the device, \<open>None\<close> after an error.\<close>

primrec ol_journal_loop :: "(nat \<Rightarrow> buffer option) \<Rightarrow> nat \<Rightarrow> nat list \<Rightarrow> name_list \<Rightarrow> name_list ub" where
  "ol_journal_loop rd bsz [] st = Some st"
| "ol_journal_loop rd bsz (b # bs) st =
     (case rd b of None \<Rightarrow> ol_journal_loop rd bsz bs st
      | Some buf \<Rightarrow>
          if length buf \<noteq> bsz then ol_journal_loop rd bsz bs st
          else if bsz < 6 then None
          else if ol_looks_dir bsz buf
          then (case ol_parse_dir_block bsz buf 0 st of None \<Rightarrow> None | Some st' \<Rightarrow> ol_journal_loop rd bsz bs st')
          else ol_journal_loop rd bsz bs st)"

definition ol_parse_directory_blocks ::
  "(nat \<Rightarrow> buffer option) \<Rightarrow> bool \<Rightarrow> bool \<Rightarrow> nat \<Rightarrow> blk64_t \<Rightarrow> blk64_t \<Rightarrow> name_list \<Rightarrow> name_list ub" where
  "ol_parse_directory_blocks rd has_j ok bsz jstart jlen st =
     (if \<not> has_j then Some st
      else if \<not> ok then Some st
      else ol_journal_loop rd bsz [unat jstart..<unat (jstart + jlen)] st)"

section \<open>Clusters\<close>

record cluster_info =
  has_bigalloc :: bool
  log_cluster_size :: u32
  cluster_ratio :: nat

text \<open>A shift of 1 by a negative number or by 31 and more is undefined.\<close>

definition ol_init_cluster_info :: "u32 \<Rightarrow> super_block \<Rightarrow> cluster_info ub" where
  "ol_init_cluster_info ro_compat sb =
     (if ro_compat AND 0x0200 \<noteq> 0 then
        (let d = sint (s_log_cluster_size sb) - sint (s_log_block_size sb) in
         if d < 0 \<or> d \<ge> 31 then None
         else Some \<lparr>has_bigalloc = True, log_cluster_size = s_log_cluster_size sb, cluster_ratio = 2 ^ nat d\<rparr>)
      else Some \<lparr>has_bigalloc = False, log_cluster_size = 0, cluster_ratio = 1\<rparr>)"

definition cluster_to_block :: "cluster_info \<Rightarrow> blk64_t \<Rightarrow> blk64_t" where
  "cluster_to_block c cluster = (if \<not> has_bigalloc c then cluster else cluster * of_nat (cluster_ratio c))"

text \<open>The product is an \<open>int\<close>.\<close>

definition cluster_len_to_blocks :: "cluster_info \<Rightarrow> u16 \<Rightarrow> blk64_t ub" where
  "cluster_len_to_blocks c cluster_len =
     (if \<not> has_bigalloc c then Some (ucast cluster_len)
      else if unat cluster_len * cluster_ratio c \<ge> 2 ^ 31 then None
      else Some (of_nat (unat cluster_len * cluster_ratio c)))"

section \<open>The first checkpoint format\<close>

definition sdec :: "int \<Rightarrow> string" where
  "sdec i = (if i < 0 then ''-'' @ udec (nat (- i)) else udec (nat i))"

definition ol_checkpoint_lines :: "int \<Rightarrow> run_state \<Rightarrow> string list" where
  "ol_checkpoint_lines now rs =
     [''{'' @ NL,
      field ''version'' @ q @ VERSION @ q @ '','' @ NL,
      field ''device'' @ q @ device_name rs @ q @ '','' @ NL,
      field ''files_recovered'' @ udec (unat (files_recovered (rcx rs))) @ '','' @ NL,
      field ''journal_offset'' @ udec (unat (checkpoint_journal_offset rs)) @ '','' @ NL,
      field ''timestamp'' @ sdec now @ NL,
      ''}'' @ NL]"

definition ol_save_checkpoint :: "env \<Rightarrow> int \<Rightarrow> run_state \<Rightarrow> int \<times> run_state" where
  "ol_save_checkpoint env now rs =
     (case write_text env (rcx rs) CHECKPOINT_FILE (concat (ol_checkpoint_lines now rs)) of
        None \<Rightarrow> (-1, rs)
      | Some ctx \<Rightarrow> (0, rs\<lparr>rcx := ctx\<rparr>))"

text \<open>The values found so far; both patterns are tried on every line.\<close>

definition ol_load_line :: "string \<Rightarrow> u64 option \<times> u64 option \<Rightarrow> u64 option \<times> u64 option" where
  "ol_load_line line s =
     ((case sscanf_ulong ''files_recovered'' line of Some v \<Rightarrow> Some v | None \<Rightarrow> fst s),
      (case sscanf_ulong ''journal_offset'' line of Some v \<Rightarrow> Some v | None \<Rightarrow> snd s))"

definition ol_load_checkpoint :: "run_state \<Rightarrow> int \<times> run_state" where
  "ol_load_checkpoint rs =
     (case files (rcx rs) CHECKPOINT_FILE of None \<Rightarrow> (-1, rs)
      | Some f \<Rightarrow>
          (case foldl (\<lambda>s l. ol_load_line (takeWhile (\<lambda>c. c \<noteq> CHR 0x00) l) s) (None, None) (fgets_lines (text_of f)) of
             (Some n, Some off) \<Rightarrow> (0, rs\<lparr>checkpoint_files_recovered := n, checkpoint_journal_offset := off\<rparr>)
           | _ \<Rightarrow> (-1, rs)))"

section \<open>The contract of a filename map\<close>

text \<open>A sequence of additions, and the names it leaves by the specification.\<close>

primrec add_names :: "('s \<Rightarrow> u32 \<Rightarrow> string \<Rightarrow> (int \<times> 's) option) \<Rightarrow> (u32 \<times> string) list \<Rightarrow> 's \<Rightarrow> 's option" where
  "add_names add [] s = Some s"
| "add_names add (x # xs) s = Option.bind (add s (fst x) (snd x)) (\<lambda>(r, s). add_names add xs s)"

definition name_updates :: "(u32 \<Rightarrow> string option) \<Rightarrow> (u32 \<times> string) list \<Rightarrow> u32 \<Rightarrow> string option" where
  "name_updates m xs = foldl (\<lambda>m x. m(fst x \<mapsto> take 255 (snd x))) m xs"

text \<open>What the directory scans rely on: as long as there is room, a safe name for an inode is stored and found again.\<close>

locale name_table =
  fixes inv :: "'s \<Rightarrow> bool" and cnt :: "'s \<Rightarrow> nat" and names_of :: "'s \<Rightarrow> u32 \<Rightarrow> string option"
    and add :: "'s \<Rightarrow> u32 \<Rightarrow> string \<Rightarrow> (int \<times> 's) option" and get :: "'s \<Rightarrow> u32 \<Rightarrow> string option option"
  assumes add_ok: "inv s \<Longrightarrow> ino \<noteq> 0 \<Longrightarrow> filename_is_safe name \<Longrightarrow> cnt s < MAX_FILENAME_MAP \<Longrightarrow>
      \<exists>s'. add s ino name = Some (0, s') \<and> inv s' \<and> names_of s' = (names_of s)(ino \<mapsto> take 255 name) \<and> cnt s' \<le> cnt s + 1"
    and get_ok: "inv s \<Longrightarrow> ino \<noteq> 0 \<Longrightarrow> get s ino = Some (names_of s ino)"
begin

lemma add_names_ok:
  "inv s \<Longrightarrow> \<forall>x \<in> set xs. fst x \<noteq> 0 \<and> filename_is_safe (snd x) \<Longrightarrow> cnt s + length xs \<le> MAX_FILENAME_MAP \<Longrightarrow>
   \<exists>s'. add_names add xs s = Some s' \<and> inv s' \<and> names_of s' = name_updates (names_of s) xs"
proof (induction xs arbitrary: s)
  case (Cons x xs)
  obtain s1 where s1: "add s (fst x) (snd x) = Some (0, s1)" "inv s1" "names_of s1 = (names_of s)(fst x \<mapsto> take 255 (snd x))" "cnt s1 \<le> cnt s + 1"
    using add_ok [of s "fst x" "snd x"] Cons.prems by auto
  obtain s' where s': "add_names add xs s1 = Some s'" "inv s'" "names_of s' = name_updates (names_of s1) xs"
    using Cons.IH [OF s1(2)] Cons.prems s1(4) by fastforce
  have "name_updates (names_of s) (x # xs) = name_updates (names_of s1) xs" by (simp add: name_updates_def s1(3))
  then show ?case using s' s1(1) by simp
qed (simp add: name_updates_def)

lemma lookup_after_adds:
  assumes "inv s" "\<forall>x \<in> set xs. fst x \<noteq> 0 \<and> filename_is_safe (snd x)" "cnt s + length xs \<le> MAX_FILENAME_MAP" "ino \<noteq> 0"
  shows "Option.bind (add_names add xs s) (\<lambda>s'. get s' ino) = Some (name_updates (names_of s) xs ino)"
proof -
  obtain s' where "add_names add xs s = Some s'" "inv s'" "names_of s' = name_updates (names_of s) xs"
    using add_names_ok [OF assms(1-3)] by blast
  then show ?thesis using get_ok [OF _ assms(4)] by simp
qed

end

definition ol_inv :: "name_list \<Rightarrow> bool" where
  "ol_inv st \<longleftrightarrow> ol_map st \<noteq> None \<and> ol_capacity st = MAX_FILENAME_MAP"

lemma ol_find_put: "ol_find (ol_put es ino name) = (ol_find es)(ino \<mapsto> take 255 name)"
  by (induction es) auto

lemma length_ol_put: "length (ol_put es ino name) \<le> length es + 1"
  by (induction es) auto

lemma ol_add_ok:
  assumes "ol_inv st" "ol_count st < MAX_FILENAME_MAP"
  shows "\<exists>st'. ol_add_filename_mapping st ino name = Some (0, st') \<and> ol_inv st' \<and>
    ol_get_filename_for_inode st' = (ol_get_filename_for_inode st)(ino \<mapsto> take 255 name) \<and> ol_count st' \<le> ol_count st + 1"
proof -
  obtain es where es: "ol_map st = Some es" using assms(1) by (auto simp: ol_inv_def)
  have "ol_get_filename_for_inode (st\<lparr>ol_map := Some (ol_put es ino name)\<rparr>) = (ol_get_filename_for_inode st)(ino \<mapsto> take 255 name)"
    using ol_find_put by (auto simp: ol_get_filename_for_inode_def es)
  then show ?thesis
    using assms length_ol_put [of es ino name] es by (auto simp: ol_add_filename_mapping_def ol_inv_def ol_count_def)
qed

interpretation ol: name_table ol_inv ol_count ol_get_filename_for_inode ol_add_filename_mapping "\<lambda>st ino. Some (ol_get_filename_for_inode st ino)"
proof unfold_locales
  fix s and ino :: u32 and name
  assume "ol_inv s" "ol_count s < MAX_FILENAME_MAP"
  then show "\<exists>s'. ol_add_filename_mapping s ino name = Some (0, s') \<and> ol_inv s' \<and>
      ol_get_filename_for_inode s' = (ol_get_filename_for_inode s)(ino \<mapsto> take 255 name) \<and> ol_count s' \<le> ol_count s + 1"
    by (rule ol_add_ok)
qed (rule refl)

interpretation fm: name_table fm_inv "\<lambda>st. filename_count st" fm_map "add_filename_mapping True True" get_filename_for_inode
proof unfold_locales
  fix s and ino :: u32 and name
  assume a: "fm_inv s" "ino \<noteq> 0" "filename_is_safe name" "filename_count s < MAX_FILENAME_MAP"
  obtain s' where s': "add_filename_mapping True True s ino name = Some (0, s')" "fm_inv s'" "fm_map s' = (fm_map s)(ino \<mapsto> take 255 name)"
    using add_existing [OF a(1,2) _ a(3), of True True] add_new [OF a(1,2) _ a(3,4)] by (cases "fm_map s ino") auto
  have "card (dom (fm_map s')) \<le> card (dom (fm_map s)) + 1"
    using s'(3) by (simp add: card_insert_if fm_count [OF a(1)])
  then have "filename_count s' \<le> filename_count s + 1" using fm_count [OF a(1)] fm_count [OF s'(2)] by simp
  then show "\<exists>s'. add_filename_mapping True True s ino name = Some (0, s') \<and> fm_inv s' \<and> fm_map s' = (fm_map s)(ino \<mapsto> take 255 name) \<and>
      filename_count s' \<le> filename_count s + 1"
    using s' by blast
qed (rule get_filename_model)

section \<open>Encoded directory blocks\<close>

lemma d_string_dots: "(d_string d = ''.'' \<or> d_string d = ''..'') = (d_name d = [46] \<or> d_name d = [46, 46])"
proof -
  have e: "char_of (unat b) = (CHR ''.'') \<longleftrightarrow> b = 46" for b :: byte
  proof -
    have "unat b < 256" using unsigned_less [of b] by simp
    then have "char_of (unat b) = (CHR ''.'') \<longleftrightarrow> unat b = of_char (CHR ''.'')" by (metis char_of_char of_char_of mod_less)
    then show ?thesis by (auto simp: word_unat_eq_iff)
  qed
  then show ?thesis by (auto simp: d_string_def map_eq_Cons_conv)
qed

text \<open>The state keeps its contract while entries \<open>ds\<close> are added.\<close>

definition ol_adds :: "dirent list \<Rightarrow> name_list \<Rightarrow> name_list ub \<Rightarrow> bool" where
  "ol_adds ds st r \<longleftrightarrow> (\<exists>st'. r = Some st' \<and> ol_inv st' \<and> ol_get_filename_for_inode st' = dir_map (ol_get_filename_for_inode st) ds \<and>
     ol_count st' \<le> ol_count st + length ds)"

lemma ol_dir_entry_encoded:
  assumes "dirent_ok d" "buf = pre @ enc_dirent d @ post" "ol_inv st" "ol_count st < MAX_FILENAME_MAP"
  shows "ol_adds [d] st (ol_dir_entry buf (length pre) st)"
proof -
  note f = dirent_fields [OF assms(1,2)]
  have len: "\<not> length pre + 8 + length (d_name d) > length buf" "\<not> length pre + 7 > length buf"
    using length_enc_dirent [of d] by (simp_all add: assms(2) d_rec_def)
  have n: "length (d_name d) < 256" "take 255 (d_string d) = d_string d" using assms(1) by (simp_all add: dirent_ok_def d_string_def)
  have nm: "dirent_name buf (length pre) (length (d_name d)) = d_string d"
  proof -
    have "takeWhile (\<lambda>b. b \<noteq> 0) (d_name d) = d_name d" using assms(1) by (auto simp: dirent_ok_def takeWhile_eq_all_conv)
    then show ?thesis by (simp only: dirent_name_def f(4) d_string_def)
  qed
  have "ol_dir_entry buf (length pre) st =
      (if d_inode d = 0 then Some st else if d_name d = [] then Some st
       else if \<not> (d_string d = ''.'' \<or> d_string d = ''..'') then map_option snd (ol_add_filename_mapping st (d_inode d) (d_string d)) else Some st)"
    using len n(1) by (simp add: ol_dir_entry_def Let_def f(1-3) nm)
  then have "ol_dir_entry buf (length pre) st =
      (if d_live d then map_option snd (ol_add_filename_mapping st (d_inode d) (d_string d)) else Some st)"
    unfolding d_string_dots by (auto simp: d_live_def)
  then show ?thesis
    using ol_add_ok [OF assms(3,4), of "d_inode d" "d_string d"] n(2) assms(3) by (auto simp: ol_adds_def dir_map_def)
qed

lemma ol_parse_dir_block_encoded:
  "list_all dirent_ok ds \<Longrightarrow> ol_inv st \<Longrightarrow> ol_count st + length ds \<le> MAX_FILENAME_MAP \<Longrightarrow>
   buf = pre @ enc_dir ds \<Longrightarrow> ol_adds ds st (ol_parse_dir_block (length buf) buf (length pre) st)"
proof (induction ds arbitrary: pre st)
  case Nil
  then show ?case by (simp add: enc_dir_def ol_parse_dir_block.simps [of "length pre"] ol_adds_def dir_map_def)
next
  case (Cons d ds)
  have ok: "dirent_ok d" "buf = pre @ enc_dirent d @ enc_dir ds" using Cons.prems by (auto simp: enc_dir_def)
  obtain st1 where st1: "ol_dir_entry buf (length pre) st = Some st1" "ol_inv st1"
    "ol_get_filename_for_inode st1 = dir_map (ol_get_filename_for_inode st) [d]" "ol_count st1 \<le> ol_count st + 1"
    using ol_dir_entry_encoded [OF ok Cons.prems(2)] Cons.prems(3) by (auto simp: ol_adds_def)
  have lens: "length pre < length buf" "\<not> length pre + 6 > length buf" "d_rec d \<noteq> 0" "\<not> d_rec d > length buf - length pre"
    using length_enc_dirent [of d] by (auto simp: ok(2) d_rec_def)
  have step: "ol_parse_dir_block (length buf) buf (length pre) st = ol_parse_dir_block (length buf) buf (length pre + d_rec d) st1"
    using lens st1(1) dirent_fields(2) [OF ok] by (subst ol_parse_dir_block.simps) (simp add: Let_def)
  have "ol_adds ds st1 (ol_parse_dir_block (length buf) buf (length (pre @ enc_dirent d)) st1)"
    using Cons.prems st1 ok(2) by (intro Cons.IH) auto
  then show ?case
    using st1(3,4) by (fastforce simp: ol_adds_def step length_enc_dirent dir_map_append [of _ "[d]" ds, simplified])
qed

section \<open>The scan of the journal\<close>

text \<open>The entries a block contributes: those of \<open>D b\<close>, when the block can be read and looks like a directory block.\<close>

definition dir_found :: "(nat \<Rightarrow> buffer option) \<Rightarrow> nat \<Rightarrow> (nat \<Rightarrow> dirent list) \<Rightarrow> nat \<Rightarrow> dirent list" where
  "dir_found rd bsz D b =
     (case rd b of None \<Rightarrow> [] | Some buf \<Rightarrow> if length buf = bsz \<and> ol_looks_dir bsz buf then D b else [])"

definition dirs_encoded :: "(nat \<Rightarrow> buffer option) \<Rightarrow> nat \<Rightarrow> (nat \<Rightarrow> dirent list) \<Rightarrow> bool" where
  "dirs_encoded rd bsz D \<longleftrightarrow>
     (\<forall>b buf. rd b = Some buf \<and> length buf = bsz \<and> ol_looks_dir bsz buf \<longrightarrow> buf = enc_dir (D b) \<and> list_all dirent_ok (D b))"

lemma ol_adds_compose: "ol_adds ds st (Some st1) \<Longrightarrow> ol_adds es st1 r \<Longrightarrow> ol_adds (ds @ es) st r"
  by (fastforce simp: ol_adds_def dir_map_append)

lemma ol_adds_none: "ol_inv st \<Longrightarrow> ol_adds [] st (Some st)"
  by (simp add: ol_adds_def dir_map_def)

lemma ol_journal_loop_encoded:
  assumes "dirs_encoded rd bsz D" "6 \<le> bsz"
  shows "ol_inv st \<Longrightarrow> ol_count st + length (concat (map (dir_found rd bsz D) bs)) \<le> MAX_FILENAME_MAP \<Longrightarrow>
    ol_adds (concat (map (dir_found rd bsz D) bs)) st (ol_journal_loop rd bsz bs st)"
proof (induction bs arbitrary: st)
  case (Cons b bs)
  show ?case
  proof (cases "\<exists>buf. rd b = Some buf \<and> length buf = bsz \<and> ol_looks_dir bsz buf")
    case True
    then obtain buf where buf: "rd b = Some buf" "length buf = bsz" "ol_looks_dir bsz buf" by blast
    have enc: "buf = enc_dir (D b)" "list_all dirent_ok (D b)" using assms(1) buf by (auto simp: dirs_encoded_def)
    have found: "dir_found rd bsz D b = D b" using buf by (simp add: dir_found_def)
    have room: "ol_count st + length (D b) \<le> MAX_FILENAME_MAP" using Cons.prems(2) by (simp add: found)
    have one: "ol_adds (D b) st (ol_parse_dir_block bsz buf 0 st)"
      using ol_parse_dir_block_encoded [OF enc(2) Cons.prems(1) room, of buf "[]"] enc(1) buf(2) by simp
    then obtain st1 where st1: "ol_parse_dir_block bsz buf 0 st = Some st1" "ol_inv st1" "ol_count st1 \<le> ol_count st + length (D b)"
      by (auto simp: ol_adds_def)
    have "ol_adds (concat (map (dir_found rd bsz D) bs)) st1 (ol_journal_loop rd bsz bs st1)"
      using Cons.IH [OF st1(2)] Cons.prems(2) st1(3) by (simp add: found)
    from ol_adds_compose [OF one [unfolded st1(1)] this] show ?thesis
      using buf assms(2) st1(1) by (simp add: found)
  next
    case False
    then have "dir_found rd bsz D b = []" "ol_journal_loop rd bsz (b # bs) st = ol_journal_loop rd bsz bs st"
      using assms(2) by (auto simp: dir_found_def split: option.splits)
    then show ?thesis using Cons by simp
  qed
qed (simp add: ol_adds_none)

section \<open>The checkpoint file\<close>

lemma sdec_chars: "CHR 0x0A \<notin> set (sdec i)" "CHR 0x00 \<notin> set (sdec i)"
  using udec_chars by (auto simp: sdec_def)

lemma sdec_short: "- (2 ^ 63) \<le> i \<Longrightarrow> i < 2 ^ 63 \<Longrightarrow> length (sdec i) < 22"
proof -
  assume "- (2 ^ 63) \<le> i" "i < 2 ^ 63"
  then have "nat (- i) < 10 ^ 20" "nat i < 10 ^ 20" by simp_all
  then have "length (udec (nat (- i))) \<le> 20" "length (udec (nat i)) \<le> 20"
    using udec_length [of "nat (- i)" 20] udec_length [of "nat i" 20] by simp_all
  then show ?thesis by (auto simp: sdec_def)
qed

text \<open>\<open>device_text\<close>: the name fits a line of the file and does not end it.\<close>

definition device_text :: "string \<Rightarrow> bool" where
  "device_text d \<longleftrightarrow> length d \<le> 255 \<and> set d \<inter> {CHR 0x0A, CHR 0x00} = {}"

lemma ol_lines_shape:
  assumes "device_text (device_name rs)" "- (2 ^ 63) \<le> now" "now < 2 ^ 63"
  shows "list_all (\<lambda>l. \<exists>b. l = b @ NL \<and> CHR 0x0A \<notin> set b \<and> length b < 511) (ol_checkpoint_lines now rs)"
    "list_all (\<lambda>l. takeWhile (\<lambda>c. c \<noteq> CHR 0x00) l = l) (ol_checkpoint_lines now rs)"
proof -
  have t: "length (sdec now) < 22" by (rule sdec_short [OF assms(2,3)])
  have shape: "l = butlast l @ NL \<and> CHR 0x0A \<notin> set (butlast l) \<and> length (butlast l) < 511" if "l \<in> set (ol_checkpoint_lines now rs)" for l
    using that assms(1) t
    by (auto simp: ol_checkpoint_lines_def NL_def field_def q_def VERSION_def butlast_append device_text_def udec_chars udec_short sdec_chars)
  show "list_all (\<lambda>l. \<exists>b. l = b @ NL \<and> CHR 0x0A \<notin> set b \<and> length b < 511) (ol_checkpoint_lines now rs)"
    using shape unfolding list_all_iff by blast
  have "CHR 0x00 \<notin> set l" if "l \<in> set (ol_checkpoint_lines now rs)" for l
    using that assms(1) udec_chars(2) sdec_chars(2) by (auto simp: ol_checkpoint_lines_def NL_def field_def q_def VERSION_def device_text_def)
  then show "list_all (\<lambda>l. takeWhile (\<lambda>c. c \<noteq> CHR 0x00) l = l) (ol_checkpoint_lines now rs)"
    by (auto simp: list_all_iff takeWhile_eq_all_conv)
qed

lemma ol_load_numbers:
  fixes v :: u64
  shows "ol_load_line (field ''files_recovered'' @ udec (unat v) @ '','' @ NL) s = (Some v, snd s)"
    "ol_load_line (field ''journal_offset'' @ udec (unat v) @ '','' @ NL) s = (fst s, Some v)"
  by (simp_all add: ol_load_line_def sscanf_ulong_def field_def q_def is_space_def drop_digits scan_ulong_udec [OF comma_nl(1)])

lemma ol_load_others:
  "ol_load_line (''{'' @ NL) s = s" "ol_load_line (''}'' @ NL) s = s"
  "ol_load_line (field ''version'' @ r) s = s" "ol_load_line (field ''device'' @ r) s = s" "ol_load_line (field ''timestamp'' @ r) s = s"
  by (simp_all add: ol_load_line_def sscanf_ulong_def field_def q_def is_space_def NL_def)

lemma ol_load_saved_lines:
  assumes "device_text (device_name rs)" "- (2 ^ 63) \<le> now" "now < 2 ^ 63"
  shows "foldl (\<lambda>s l. ol_load_line (takeWhile (\<lambda>c. c \<noteq> CHR 0x00) l) s) (None, None) (ol_checkpoint_lines now rs) =
    (Some (files_recovered (rcx rs)), Some (checkpoint_journal_offset rs))"
proof -
  have "\<And>l. l \<in> set (ol_checkpoint_lines now rs) \<Longrightarrow> takeWhile (\<lambda>c. c \<noteq> CHR 0x00) l = l"
    using ol_lines_shape(2) [OF assms] by (auto simp: list_all_iff)
  note t = this [unfolded ol_checkpoint_lines_def, simplified list.set insert_iff empty_iff simp_thms]
  show ?thesis
    unfolding ol_checkpoint_lines_def
    by (simp only: foldl.simps t simp_thms ol_load_others ol_load_numbers fst_conv snd_conv)
qed

text \<open>The first checkpoint format reads back.  After a successful save, loading it restores the number of files and the
  journal offset, into a run on any device: unlike its successor this format does not compare the device.\<close>

lemma ol_checkpoint_roundtrip:
  assumes "device_text (device_name rs)" "- (2 ^ 63) \<le> now" "now < 2 ^ 63" "out_faithful env" "out_open env CHECKPOINT_FILE"
  shows "\<exists>rs1. ol_save_checkpoint env now rs = (0, rs1) \<and>
    (\<forall>rs2. files (rcx rs2) CHECKPOINT_FILE = files (rcx rs1) CHECKPOINT_FILE \<longrightarrow>
       ol_load_checkpoint rs2 =
         (0, rs2\<lparr>checkpoint_files_recovered := files_recovered (rcx rs), checkpoint_journal_offset := checkpoint_journal_offset rs\<rparr>))"
proof -
  let ?t = "concat (ol_checkpoint_lines now rs)"
  have w: "write_loop env CHECKPOINT_FILE 0 (length ?t) (bytes_of ?t) 0 [] = (True, bytes_of ?t)"
    using write_loop_ok [OF assms(4), of 0 "length ?t" "bytes_of ?t" CHECKPOINT_FILE 0 "[]"]
    by (simp add: bytes_of_def file_write_def)
  obtain rs1 where rs1: "ol_save_checkpoint env now rs = (0, rs1)" "files (rcx rs1) CHECKPOINT_FILE = Some (bytes_of ?t)"
    using assms(5) w by (simp add: ol_save_checkpoint_def write_text_def open_trunc_def)
  have "fgets_lines (text_of (bytes_of ?t)) = ol_checkpoint_lines now rs"
    using fgets_lines_concat [OF ol_lines_shape(1) [OF assms(1-3)]] by simp
  then show ?thesis
    using rs1 ol_load_saved_lines [OF assms(1-3)] by (intro exI [of _ rs1]) (simp add: ol_load_checkpoint_def)
qed

section \<open>Clusters as runs of blocks\<close>

text \<open>A run of clusters becomes a run of blocks without gaps: the block after the converted run is the first block of the next cluster.\<close>

lemma cluster_run_contiguous:
  assumes "cluster_len_to_blocks c n = Some len"
  shows "cluster_to_block c (cluster + ucast n) = cluster_to_block c cluster + len"
  using assms by (auto simp: cluster_len_to_blocks_def cluster_to_block_def algebra_simps split: if_splits)

lemma init_cluster_info_ok:
  assumes "ol_init_cluster_info ro sb = Some c" "cluster_ratio c \<le> 2 ^ 15"
  shows "cluster_ratio c > 0 \<and> (\<exists>len. cluster_len_to_blocks c n = Some len)"
proof -
  have "unat n < 65536" using unsigned_less [of n, where ?'a = nat] by simp
  then have "unat n \<le> 65535" by simp
  then have "unat n * cluster_ratio c \<le> 65535 * 2 ^ 15" using assms(2) by (rule mult_le_mono)
  then have "\<not> unat n * cluster_ratio c \<ge> 2 ^ 31" by simp
  then show ?thesis
    using assms(1) by (auto simp: ol_init_cluster_info_def cluster_len_to_blocks_def Let_def split: if_splits)
qed

section \<open>Properties\<close>

text \<open>Property C39: the filename array of \<^verbatim>\<open>filename_recovery.c\<close> and the hash table of \<^verbatim>\<open>utils_v5.c\<close> that replaced it are
  interchangeable.  After the same sequence of at most 100000 additions of safe names to the two fresh tables, both
  give the same name for every inode, the last one added for it.\<close>

theorem name_tables_agree:
  assumes "\<forall>x \<in> set xs. fst x \<noteq> 0 \<and> filename_is_safe (snd x)" "length xs \<le> MAX_FILENAME_MAP" "ino \<noteq> 0"
  shows "\<exists>st0. init_filename_map True True st = Some (0, st0) \<and>
    Option.bind (add_names (add_filename_mapping True True) xs st0) (\<lambda>s. get_filename_for_inode s ino) =
    Option.bind (add_names ol_add_filename_mapping xs (snd (ol_init_filename_map True ol))) (\<lambda>s. Some (ol_get_filename_for_inode s ino)) \<and>
    Option.bind (add_names ol_add_filename_mapping xs (snd (ol_init_filename_map True ol))) (\<lambda>s. Some (ol_get_filename_for_inode s ino)) =
      Some (name_updates Map.empty xs ino)"
proof -
  let ?o = "snd (ol_init_filename_map True ol)"
  obtain st0 where st0: "init_filename_map True True st = Some (0, st0)" "fm_inv st0" "fm_map st0 = Map.empty"
    using init_filename_map_inv by blast
  have c0: "filename_count st0 = 0" using fm_count [OF st0(2)] st0(3) by simp
  have o: "ol_inv ?o" "ol_count ?o = 0" "ol_get_filename_for_inode ?o = Map.empty"
    by (auto simp: ol_init_filename_map_def ol_inv_def ol_count_def ol_get_filename_for_inode_def Let_def)
  show ?thesis
    using fm.lookup_after_adds [OF st0(2) assms(1) _ assms(3)] ol.lookup_after_adds [OF o(1) assms(1) _ assms(3)]
      assms(2) st0(1,3) c0 o(2,3) by simp
qed

theorem name_tables_agree_witness:
  "\<exists>st0. init_filename_map True True (names (base_ctx 36 9)) = Some (0, st0) \<and>
     Option.bind (add_names (add_filename_mapping True True) [(12, ''a''), (13, ''b''), (12, ''c'')] st0)
       (\<lambda>s. get_filename_for_inode s 12) = Some (Some ''c'')"
proof -
  let ?xs = "[(12 :: u32, ''a''), (13, ''b''), (12, ''c'')]"
  have xs: "\<forall>x \<in> set ?xs. fst x \<noteq> 0 \<and> filename_is_safe (snd x)" "length ?xs \<le> MAX_FILENAME_MAP"
    by (simp_all add: filename_is_safe_def MAX_FILENAME_MAP_def)
  have u: "name_updates Map.empty ?xs 12 = Some ''c''" by (simp add: name_updates_def)
  have "(12 :: u32) \<noteq> 0" by simp
  from name_tables_agree [OF xs this, of "names (base_ctx 36 9)" "\<lparr>ol_map = None, ol_capacity = 0\<rparr>", unfolded u]
  show ?thesis by (elim exE conjE) (intro exI conjI, assumption, simp only:)
qed

text \<open>The journal scan of \<^verbatim>\<open>filename_recovery.c\<close> finds the names.  When every block of the range that looks like a
  directory block holds well-formed entries, exactly the live entries of these blocks are mapped, as long as they fit
  the table; blocks that cannot be read or look different contribute nothing.\<close>

theorem ol_parse_directory_blocks_exact:
  assumes "ol_inv st" "dirs_encoded rd bsz D" "6 \<le> bsz"
    and "ol_count st + length (concat (map (dir_found rd bsz D) [unat js..<unat (js + jl)])) \<le> MAX_FILENAME_MAP"
  shows "\<exists>st'. ol_parse_directory_blocks rd True True bsz js jl st = Some st' \<and>
    ol_get_filename_for_inode st' =
      dir_map (ol_get_filename_for_inode st) (concat (map (dir_found rd bsz D) [unat js..<unat (js + jl)]))"
  using ol_journal_loop_encoded [OF assms(2,3,1,4)] by (auto simp: ol_parse_directory_blocks_def ol_adds_def)

theorem ol_parse_directory_blocks_exact_witness:
  "\<exists>st'. ol_parse_directory_blocks (\<lambda>b. if b = 7 then Some (enc_dir example_dir) else None) True True 36 5 4
     \<lparr>ol_map = Some [], ol_capacity = MAX_FILENAME_MAP\<rparr> = Some st' \<and> ol_get_filename_for_inode st' 12 = Some ''ab''"
proof -
  let ?rd = "\<lambda>b :: nat. if b = 7 then Some (enc_dir example_dir) else None" and ?st = "\<lparr>ol_map = Some [], ol_capacity = MAX_FILENAME_MAP\<rparr>"
  have len: "length (enc_dir example_dir) = 36"
    by (simp add: enc_dir_def example_dir_def length_enc_dirent d_rec_def)
  have ok: "list_all dirent_ok example_dir" by (simp add: example_dir_def dirent_ok_def d_rec_def)
  have bs: "[unat (5 :: blk64_t)..<unat (5 + 4 :: blk64_t)] = [5, 6, 7, 8]" by (simp add: upt_rec)
  have "enc_dir example_dir = [] @ enc_dirent (hd example_dir) @ enc_dir (tl example_dir)" "dirent_ok (hd example_dir)"
    using ok by (simp_all add: example_dir_def enc_dir_def)
  then have "le32_at (enc_dir example_dir) 0 = 2" "unat (le16_at (enc_dir example_dir) 4) = 12"
    using dirent_fields(1,2) [of "hd example_dir" "enc_dir example_dir" "[]"] by (simp_all add: example_dir_def d_rec_def)
  then have "ol_looks_dir 36 (enc_dir example_dir)" by (auto simp: ol_looks_dir_def word_gt_0)
  then have f: "concat (map (dir_found ?rd 36 (\<lambda>_. example_dir)) [unat (5 :: blk64_t)..<unat (5 + 4 :: blk64_t)]) = example_dir"
    by (simp add: bs dir_found_def len)
  have "dirs_encoded ?rd 36 (\<lambda>_. example_dir)" using ok by (simp add: dirs_encoded_def)
  moreover have "ol_inv ?st" "ol_count ?st = 0" "ol_get_filename_for_inode ?st = Map.empty"
    by (auto simp: ol_inv_def ol_count_def ol_get_filename_for_inode_def)
  moreover have "dir_map Map.empty example_dir = [12 \<mapsto> ''ab'']"
    by (simp add: dir_map_def example_dir_def d_live_def d_string_def char_of_def bit_0 bit_Suc)
  moreover have "length example_dir \<le> MAX_FILENAME_MAP" by (simp add: example_dir_def MAX_FILENAME_MAP_def)
  ultimately show ?thesis
    using ol_parse_directory_blocks_exact [of ?st ?rd 36 "\<lambda>_. example_dir" 5 4] unfolding f by auto
qed

end
