(* ===== verification/Cluster_Recover.thy ===== *)
theory Cluster_Recover
  imports Version4 Older_Modules
begin

text \<open>
  The tree recovery of the first draft of version 0.5 (\<^verbatim>\<open>ext4recover_v5_debug.c\<close>), which takes the addresses in extents and index
  entries for cluster numbers (\<^verbatim>\<open>bigalloc_support.c\<close>) and names outputs after the filename array
  (\<^verbatim>\<open>filename_recovery.c\<close>).  The descriptors are those of \<open>Disk_Copy\<close>.
\<close>

section \<open>Copying an extent\<close>

text \<open>\<^verbatim>\<open>(off_t)phys_block * blocksize\<close> is a signed product; a negative offset is refused by \<open>lseek\<close>.\<close>

definition dbg_recover_block_to_file ::
  "cluster_info \<Rightarrow> v4_fs \<Rightarrow> disk_io \<Rightarrow> string \<Rightarrow> u32 \<Rightarrow> u16 \<Rightarrow> u64 \<Rightarrow> orig \<Rightarrow> (bool \<times> orig) res" where
  "dbg_recover_block_to_file ci fs io fd block len start st =
     (let bs = vf_bs fs; phys_block = cluster_to_block ci start in
      case cluster_len_to_blocks ci len of None \<Rightarrow> Undefined
      | Some block_len \<Rightarrow>
        if \<not> vf_malloc fs bs then Done (False, st)
        else let off = sint phys_block * int bs; offset_ino = unat block * bs in
          if off \<ge> 2 ^ 63 \<or> off < - (2 ^ 63) then Undefined
          else if off < 0 \<or> \<not> io_seek io (nat off) then Done (False, st)
          else if \<not> io_seek_out io fd offset_ino then Done (False, seek_dev io (nat off) st)
          else Done (fix_copy io bs fd (unat block_len) (seek_out io fd offset_ino (seek_dev io (nat off) st))))"

definition dbg_create_recovery_file :: "name_list \<Rightarrow> disk_io \<Rightarrow> u32 \<Rightarrow> orig \<Rightarrow> int \<times> string \<times> orig" where
  "dbg_create_recovery_file nl io ino st =
     (let filename = (case ol_get_filename_for_inode nl ino of Some original_name \<Rightarrow> original_name | None \<Rightarrow> fallback_name ino) in
      if o_file st filename \<noteq> [] then (-2, filename, st)
      else if \<not> io_open io filename then (-1, filename, st)
      else (0, filename, st\<lparr>o_files := (o_files st)(filename \<mapsto> []), o_out_pos := 0\<rparr>))"

section \<open>Walking the tree\<close>

definition dbg_rb :: "cluster_info \<Rightarrow> v4_fs \<Rightarrow> disk_io \<Rightarrow> string \<Rightarrow> ext3_extent \<Rightarrow> orig \<Rightarrow> (bool \<times> orig) res" where
  "dbg_rb ci fs io fd ee st = dbg_recover_block_to_file ci fs io fd (ee_block ee) (ee_len ee) (ee_phys ee) st"

definition dbg_dump_leaf_extent :: "cluster_info \<Rightarrow> v4_fs \<Rightarrow> disk_io \<Rightarrow> string \<Rightarrow> buffer \<Rightarrow> orig \<Rightarrow> (bool \<times> orig) res" where
  "dbg_dump_leaf_extent ci fs io fd = v4_dump_leaf (dbg_rb ci fs io fd) (vf_bs fs)"

text \<open>One \<open>lseek\<close> and one \<open>read\<close>; the offset is an unsigned product that \<open>lseek\<close> takes as signed.\<close>

definition dbg_read_block :: "disk_io \<Rightarrow> nat \<Rightarrow> blk64_t \<Rightarrow> orig \<Rightarrow> buffer option \<times> orig" where
  "dbg_read_block io bs blk st =
     (let off = sint (blk * of_nat bs) in
      if off < 0 \<or> \<not> io_seek io (nat off) then (None, st)
      else let st1 = (seek_dev io (nat off) st)\<lparr>o_calls := o_calls st + 1\<rparr> in
        (case io_read io (o_calls st) (nat off) bs of
           None \<Rightarrow> (None, st1)
         | Some d \<Rightarrow> (if length d = bs then Some d else None, st1\<lparr>o_dev_pos := nat off + length d\<rparr>)))"

primrec dbg_index_loop ::
  "cluster_info \<Rightarrow> disk_io \<Rightarrow> nat \<Rightarrow> (buffer \<Rightarrow> orig \<Rightarrow> (bool \<times> orig) res) \<Rightarrow> buffer \<Rightarrow> nat list \<Rightarrow> orig \<Rightarrow> (bool \<times> orig) res" where
  "dbg_index_loop ci io bs child buf [] st = Done (True, st)"
| "dbg_index_loop ci io bs child buf (i # is) st =
     (case idx_at buf i of None \<Rightarrow> Undefined
      | Some ei \<Rightarrow>
          (case dbg_read_block io bs (cluster_to_block ci (ei_phys ei)) st of
             (None, st) \<Rightarrow> Done (False, st)
           | (Some next, st) \<Rightarrow>
               res_bind (child next st) (\<lambda>(ok, st). if ok then dbg_index_loop ci io bs child buf is st else Done (False, st))))"

primrec dbg_extent_tree_travel ::
  "cluster_info \<Rightarrow> v4_fs \<Rightarrow> disk_io \<Rightarrow> string \<Rightarrow> nat \<Rightarrow> buffer \<Rightarrow> orig \<Rightarrow> (bool \<times> orig) res" where
  "dbg_extent_tree_travel ci fs io fd 0 buf st = dbg_dump_leaf_extent ci fs io fd buf st"
| "dbg_extent_tree_travel ci fs io fd (Suc level) buf st =
     (if \<not> vf_malloc fs (vf_bs fs) then Done (False, st)
      else dbg_index_loop ci io (vf_bs fs) (dbg_extent_tree_travel ci fs io fd level) buf [0..<unat (eh_entries (header_at buf))] st)"

definition dbg_recover_from_extent_tree ::
  "cluster_info \<Rightarrow> v4_fs \<Rightarrow> disk_io \<Rightarrow> string \<Rightarrow> u32 \<Rightarrow> ext2_inode \<Rightarrow> orig \<Rightarrow> (bool \<times> orig) res" where
  "dbg_recover_from_extent_tree ci fs io fd ino inode st =
     (if io_extent_open io ino = None then Done (False, st)
      else dbg_extent_tree_travel ci fs io fd (unat (eh_depth (header_at (i_block inode)))) (i_block inode) st)"

section \<open>Command line\<close>

fun dbg_parse_args :: "string list \<Rightarrow> options \<Rightarrow> cli" where
  "dbg_parse_args [] o' = (if o_device o' = None then Exit 1 else Run o')"
| "dbg_parse_args (a # as) o' =
     (if a = ''--journal'' then dbg_parse_args as (o'\<lparr>o_mode := RECOVER_MODE_JOURNAL\<rparr>)
      else if a = ''--orphan'' then dbg_parse_args as (o'\<lparr>o_mode := RECOVER_MODE_ORPHAN\<rparr>)
      else if a = ''--aggressive'' then dbg_parse_args as (o'\<lparr>o_mode := RECOVER_MODE_AGGRESSIVE\<rparr>)
      else if a = ''--all'' then dbg_parse_args as (o'\<lparr>o_mode := RECOVER_MODE_ALL\<rparr>)
      else if a = ''--resume'' then dbg_parse_args as (o'\<lparr>o_resume := True\<rparr>)
      else if a = ''--dir'' then
        (case as of [] \<Rightarrow> Exit 1 | d # as' \<Rightarrow> dbg_parse_args as' (o'\<lparr>o_dir := take 255 d\<rparr>))
      else if a = ''--verbose'' then dbg_parse_args as (o'\<lparr>o_verbose := True\<rparr>)
      else if a = ''--version'' then Exit 0
      else if a = ''--help'' then Exit 0
      else if a = [] \<or> hd a \<noteq> CHR ''-'' then dbg_parse_args as (o'\<lparr>o_device := Some a\<rparr>)
      else dbg_parse_args as o')"

text \<open>The tests before the journal is opened and before the three phases: orphans, journal, device scan.\<close>

definition dbg_phases :: "u32 \<Rightarrow> bool \<times> bool \<times> bool \<times> bool" where
  "dbg_phases md =
     (md AND (RECOVER_MODE_JOURNAL OR RECOVER_MODE_ALL) \<noteq> 0, md AND (RECOVER_MODE_ORPHAN OR RECOVER_MODE_ALL) \<noteq> 0,
      md AND (RECOVER_MODE_JOURNAL OR RECOVER_MODE_ALL) \<noteq> 0, md AND (RECOVER_MODE_AGGRESSIVE OR RECOVER_MODE_ALL) \<noteq> 0)"

section \<open>The bytes a tree denotes\<close>

definition ratio :: "cluster_info \<Rightarrow> nat" where
  "ratio ci = (if has_bigalloc ci then cluster_ratio ci else 1)"

definition cluster_copy :: "cluster_info \<Rightarrow> buffer \<Rightarrow> nat \<Rightarrow> buffer \<Rightarrow> ext3_extent \<Rightarrow> buffer" where
  "cluster_copy ci dev bs f e =
     file_write f (unat (ee_block e) * bs) (sub_buf dev (unat (ee_phys e) * ratio ci * bs) (unat (ee_len e) * ratio ci * bs))"

definition cluster_on_device :: "cluster_info \<Rightarrow> buffer \<Rightarrow> nat \<Rightarrow> ext3_extent \<Rightarrow> bool" where
  "cluster_on_device ci dev bs e \<longleftrightarrow> (unat (ee_phys e) + unat (ee_len e)) * ratio ci * bs \<le> length dev"

text \<open>A device that answers every request in the requested length, within its bounds.\<close>

definition dbg_calm :: "cluster_info \<Rightarrow> v4_fs \<Rightarrow> disk_io \<Rightarrow> buffer \<Rightarrow> bool" where
  "dbg_calm ci fs io dev \<longleftrightarrow> v4_faithful fs io dev \<and> 0 < vf_bs fs \<and> 0 < ratio ci \<and> ratio ci \<le> 2 ^ 15 \<and>
     (\<forall>c off. off + vf_bs fs \<le> length dev \<longrightarrow> io_read io c off (vf_bs fs) = Some (sub_buf dev off (vf_bs fs)))"

text \<open>The scaled address of something that lies on the device does not wrap.\<close>

lemma cluster_address:
  assumes "dbg_calm ci fs io dev" "unat x * ratio ci * vf_bs fs \<le> length dev"
  shows "unat (cluster_to_block ci x) = unat x * ratio ci" "unat x * ratio ci * vf_bs fs < 2 ^ 63"
    "sint (cluster_to_block ci x) = int (unat x * ratio ci)"
proof -
  have d: "length dev < 2 ^ 63" "0 < vf_bs fs" using assms(1) by (auto simp: dbg_calm_def v4_faithful_def orig_faithful_def)
  then show l: "unat x * ratio ci * vf_bs fs < 2 ^ 63" using assms(2) by linarith
  have "unat x * ratio ci \<le> unat x * ratio ci * vf_bs fs" using d(2) by simp
  then have s: "unat x * ratio ci < 2 ^ 63" using l by linarith
  show u: "unat (cluster_to_block ci x) = unat x * ratio ci"
  proof (cases "has_bigalloc ci")
    case True
    then have r: "ratio ci = cluster_ratio ci" "cluster_ratio ci \<le> 2 ^ 15" using assms(1) by (auto simp: ratio_def dbg_calm_def)
    have "unat (of_nat (cluster_ratio ci) :: blk64_t) = cluster_ratio ci" using r(2) by (simp add: unat_of_nat)
    then show ?thesis using True s r(1) by (simp add: cluster_to_block_def unat_word_ariths(2))
  qed (simp add: cluster_to_block_def ratio_def)
  have i: "uint (cluster_to_block ci x) = int (unat x * ratio ci)" using u by (metis unat_eq_nat_uint int_nat_eq uint_ge_0)
  moreover have "int (unat x * ratio ci) < 2 ^ 63" using s by (metis of_nat_less_iff of_nat_numeral of_nat_power)
  moreover have "0 \<le> int (unat x * ratio ci)" by simp
  ultimately have "signed_take_bit 63 (uint (cluster_to_block ci x)) = uint (cluster_to_block ci x)"
    by (intro signed_take_bit_int_eq_self) linarith+
  then show "sint (cluster_to_block ci x) = int (unat x * ratio ci)" unfolding i [symmetric] by (simp add: sint_uint)
qed

lemma cluster_length:
  assumes "dbg_calm ci fs io dev"
  shows "\<exists>n. cluster_len_to_blocks ci l = Some n \<and> unat n = unat l * ratio ci"
proof (cases "has_bigalloc ci")
  case True
  then have r: "ratio ci = cluster_ratio ci" "cluster_ratio ci \<le> 2 ^ 15" using assms by (auto simp: ratio_def dbg_calm_def)
  have "unat l < 65536" using unsigned_less [of l, where ?'a = nat] by simp
  then have "unat l * cluster_ratio ci \<le> 65535 * 2 ^ 15" using r(2) by (intro mult_le_mono) auto
  then have "unat l * cluster_ratio ci < 2 ^ 31" by simp
  moreover from this have "unat (of_nat (unat l * cluster_ratio ci) :: blk64_t) = unat l * cluster_ratio ci"
    by (subst unat_of_nat) (simp del: of_nat_mult)
  ultimately show ?thesis using True r(1) by (simp add: cluster_len_to_blocks_def del: of_nat_mult)
next
  case False
  have "unat l < 65536" using unsigned_less [of l, where ?'a = nat] by simp
  then show ?thesis using False by (simp add: cluster_len_to_blocks_def ratio_def unsigned_ucast_eq take_bit_nat_eq_self)
qed

lemma dbg_rb_edits:
  assumes calm: "dbg_calm ci fs io dev" and "cluster_on_device ci dev (vf_bs fs) e" "o_files st fd \<noteq> None"
  shows "edits fd (\<lambda>f. cluster_copy ci dev (vf_bs fs) f e) st (dbg_rb ci fs io fd e st)"
proof -
  obtain f where f: "o_files st fd = Some f" using assms(3) by auto
  obtain n where n: "cluster_len_to_blocks ci (ee_len e) = Some n" "unat n = unat (ee_len e) * ratio ci" using cluster_length [OF calm] by blast
  let ?p = "unat (ee_phys e) * ratio ci * vf_bs fs" and ?q = "unat (ee_block e) * vf_bs fs"
  have fit: "?p + unat n * vf_bs fs \<le> length dev" using assms(2) by (simp add: cluster_on_device_def n(2) distrib_right)
  then have le: "?p \<le> length dev" by simp
  note a = cluster_address [OF calm le]
  have io: "orig_faithful io dev" "vf_malloc fs (vf_bs fs)" using calm by (auto simp: dbg_calm_def v4_faithful_def)
  then have sk: "io_seek io ?p" "\<And>off. io_seek_out io fd off" using le by (auto simp: orig_faithful_def)
  have off: "sint (cluster_to_block ci (ee_phys e)) * int (vf_bs fs) = int ?p" unfolding a(3) by simp
  have lt: "int ?p < 2 ^ 63" using a(2) by (metis of_nat_less_iff of_nat_numeral of_nat_power)
  let ?st = "st\<lparr>o_dev_pos := ?p, o_out_pos := ?q\<rparr>"
  obtain st' where st': "fix_copy io (vf_bs fs) fd (unat n) ?st = (True, st')"
    "o_files st' = (o_files st)(fd \<mapsto> file_write f ?q (sub_buf dev ?p (unat n * vf_bs fs)))"
    using fix_copy_ok [OF io(1), of ?st "unat n" "vf_bs fs" fd f] fit f by auto
  have "dbg_rb ci fs io fd e st = Done (True, st')"
    unfolding dbg_rb_def dbg_recover_block_to_file_def Let_def n(1) off option.case
    using lt io(2) sk st'(1) by (simp add: seek_dev_def seek_out_def del: of_nat_mult)
  then show ?thesis using f st'(2) by (simp add: edits_def cluster_copy_def n(2))
qed

section \<open>Exactness of the walk\<close>

text \<open>The extents below a node, with index entries read as cluster numbers.\<close>

primrec cluster_extents :: "cluster_info \<Rightarrow> v4_fs \<Rightarrow> buffer \<Rightarrow> nat \<Rightarrow> buffer \<Rightarrow> ext3_extent list option" where
  "cluster_extents ci fs dev 0 buf = v4_leaf_list fs buf"
| "cluster_extents ci fs dev (Suc level) buf =
     (case idxs_at buf (unat (eh_entries (header_at buf))) of None \<Rightarrow> None
      | Some ps \<Rightarrow>
          if list_all (\<lambda>p. (unat (ei_phys p) * ratio ci + 1) * vf_bs fs \<le> length dev) ps
          then map_option concat (those (map (\<lambda>p. cluster_extents ci fs dev level
                 (sub_buf dev (unat (ei_phys p) * ratio ci * vf_bs fs) (vf_bs fs))) ps))
          else None)"

lemma dbg_dump_leaf_edits:
  assumes "dbg_calm ci fs io dev" "v4_leaf_list fs buf = Some es" "\<forall>e \<in> set es. cluster_on_device ci dev (vf_bs fs) e" "o_files st fd \<noteq> None"
  shows "edits fd (\<lambda>f. foldl (cluster_copy ci dev (vf_bs fs)) f es) st (dbg_dump_leaf_extent ci fs io fd buf st)"
  unfolding dbg_dump_leaf_extent_def
  by (rule v4_dump_leaf_edits [where P = "cluster_on_device ci dev (vf_bs fs)", OF dbg_rb_edits [OF assms(1)] assms(2,3,4)])

lemma dbg_read_block_ok:
  assumes calm: "dbg_calm ci fs io dev" and "(unat b * ratio ci + 1) * vf_bs fs \<le> length dev"
  shows "\<exists>st'. dbg_read_block io (vf_bs fs) (cluster_to_block ci b) st =
      (Some (sub_buf dev (unat b * ratio ci * vf_bs fs) (vf_bs fs)), st') \<and> o_files st' = o_files st"
proof -
  let ?p = "unat b * ratio ci * vf_bs fs"
  have fit: "?p + vf_bs fs \<le> length dev" using assms(2) by simp
  then have le: "?p \<le> length dev" by simp
  note a = cluster_address [OF calm le]
  have rd: "io_read io c ?p (vf_bs fs) = Some (sub_buf dev ?p (vf_bs fs))" for c using calm fit by (auto simp: dbg_calm_def)
  have sk: "io_seek io ?p" using calm le by (auto simp: dbg_calm_def v4_faithful_def orig_faithful_def)
  have "cluster_to_block ci b * of_nat (vf_bs fs) = (of_nat (unat (cluster_to_block ci b) * vf_bs fs) :: blk64_t)" by simp
  also have "\<dots> = of_nat ?p" unfolding a(1) ..
  finally have w: "cluster_to_block ci b * of_nat (vf_bs fs) = (of_nat ?p :: blk64_t)" .
  have "uint (of_nat ?p :: blk64_t) = int ?p" using a(2) by (simp add: uint_nat unat_of_nat del: of_nat_mult) 
  moreover have "int ?p < 2 ^ 63" using a(2) by (metis of_nat_less_iff of_nat_numeral of_nat_power)
  moreover have "0 \<le> int ?p" by simp
  ultimately have "signed_take_bit 63 (uint (of_nat ?p :: blk64_t)) = int ?p"
    by (simp only:) (intro signed_take_bit_int_eq_self; linarith)
  then have "sint (cluster_to_block ci b * of_nat (vf_bs fs)) = int ?p" unfolding w by (simp add: sint_uint del: of_nat_mult)
  then show ?thesis
    using rd sk fit by (simp add: dbg_read_block_def Let_def seek_dev_def del: of_nat_mult)
qed

lemma dbg_index_loop_edits:
  assumes calm: "dbg_calm ci fs io dev"
    and child: "\<And>p st es. p \<in> set ps \<Longrightarrow> o_files st fd \<noteq> None \<Longrightarrow> F p = Some es \<Longrightarrow>
      edits fd (\<lambda>f. foldl w f es) st (child (sub_buf dev (unat (ei_phys p) * ratio ci * vf_bs fs) (vf_bs fs)) st)"
  shows "those (map (idx_at buf) is) = Some ps \<Longrightarrow> list_all (\<lambda>p. (unat (ei_phys p) * ratio ci + 1) * vf_bs fs \<le> length dev) ps \<Longrightarrow>
    those (map F ps) = Some ess \<Longrightarrow> o_files st fd \<noteq> None \<Longrightarrow>
    edits fd (\<lambda>f. foldl w f (concat ess)) st (dbg_index_loop ci io (vf_bs fs) child buf is st)"
  using child
proof (induction "is" arbitrary: ps ess st)
  case Nil
  then show ?case by (auto intro: edits_id)
next
  case (Cons i "is")
  obtain p qs where p: "idx_at buf i = Some p" "those (map (idx_at buf) is) = Some qs" "ps = p # qs"
    using Cons.prems(1) by (auto split: option.splits)
  obtain es fs' where es: "F p = Some es" "those (map F qs) = Some fs'" "ess = es # fs'"
    using Cons.prems(3) p(3) by (auto split: option.splits)
  let ?b = "sub_buf dev (unat (ei_phys p) * ratio ci * vf_bs fs) (vf_bs fs)"
  obtain st1 where st1: "dbg_read_block io (vf_bs fs) (cluster_to_block ci (ei_phys p)) st = (Some ?b, st1)" "o_files st1 = o_files st"
    using dbg_read_block_ok [OF calm] Cons.prems(2) p(3) by fastforce
  have c: "edits fd (\<lambda>f. foldl w f es) st (child ?b st1)"
    using edits_from [OF Cons.prems(5) st1(2)] p(3) es(1) Cons.prems(4) st1(2) by auto
  have "edits fd (\<lambda>f. foldl w f (concat fs')) st' (dbg_index_loop ci io (vf_bs fs) child buf is st')" if "o_files st' fd \<noteq> None" for st'
    using Cons.IH [OF p(2) _ es(2) that] Cons.prems(2,5) p(3) by simp
  from edits_bind [OF c, of "\<lambda>f. foldl w f (concat fs')" "\<lambda>(ok, st). if ok then dbg_index_loop ci io (vf_bs fs) child buf is st else Done (False, st)"] this
  show ?case using p(1) st1(1) es(3) by simp
qed

lemma those_mem: "those (map F ps) = Some ess \<Longrightarrow> p \<in> set ps \<Longrightarrow> F p = Some xs \<Longrightarrow> xs \<in> set ess"
  by (induction ps arbitrary: ess) (auto split: option.splits)

lemma dbg_travel_edits:
  assumes calm: "dbg_calm ci fs io dev"
  shows "cluster_extents ci fs dev level buf = Some es \<Longrightarrow> \<forall>e \<in> set es. cluster_on_device ci dev (vf_bs fs) e \<Longrightarrow> o_files st fd \<noteq> None \<Longrightarrow>
    edits fd (\<lambda>f. foldl (cluster_copy ci dev (vf_bs fs)) f es) st (dbg_extent_tree_travel ci fs io fd level buf st)"
proof (induction level arbitrary: buf es st)
  case 0
  then show ?case using dbg_dump_leaf_edits [OF calm] by simp
next
  case (Suc level)
  let ?F = "\<lambda>p. cluster_extents ci fs dev level (sub_buf dev (unat (ei_phys p) * ratio ci * vf_bs fs) (vf_bs fs))"
  obtain ps ess where ps: "idxs_at buf (unat (eh_entries (header_at buf))) = Some ps"
    "list_all (\<lambda>p. (unat (ei_phys p) * ratio ci + 1) * vf_bs fs \<le> length dev) ps" "those (map ?F ps) = Some ess" "es = concat ess"
    using Suc.prems(1) by (auto split: option.splits if_splits)
  have m: "vf_malloc fs (vf_bs fs)" using calm by (simp add: dbg_calm_def v4_faithful_def)
  have sub: "set xs \<subseteq> set es" if "p \<in> set ps" "?F p = Some xs" for p xs
    using those_mem [OF ps(3) that] ps(4) by auto
  have "edits fd (\<lambda>f. foldl (cluster_copy ci dev (vf_bs fs)) f (concat ess)) st
      (dbg_index_loop ci io (vf_bs fs) (dbg_extent_tree_travel ci fs io fd level) buf [0..<unat (eh_entries (header_at buf))] st)"
  proof (rule dbg_index_loop_edits [where F = ?F, OF calm _ ps(1) [unfolded idxs_at_def] ps(2,3) Suc.prems(3)])
    fix p xs and st' :: orig
    assume "p \<in> set ps" "o_files st' fd \<noteq> None" "?F p = Some xs"
    then show "edits fd (\<lambda>f. foldl (cluster_copy ci dev (vf_bs fs)) f xs) st'
        (dbg_extent_tree_travel ci fs io fd level (sub_buf dev (unat (ei_phys p) * ratio ci * vf_bs fs) (vf_bs fs)) st')"
      using Suc.IH sub Suc.prems(2) by blast
  qed
  then show ?case using m ps(4) by simp
qed

section \<open>Names and options\<close>

text \<open>The names of \<^verbatim>\<open>filename_recovery.c\<close> are used as they stand on the disk: nothing keeps an output inside the recovery directory.\<close>

lemma dbg_name_not_checked:
  assumes "\<not> ol_count nl \<ge> ol_capacity nl" "ol_map nl = Some []"
  shows "\<exists>nl'. ol_add_filename_mapping nl 12 ''../x'' = Some (0, nl') \<and> \<not> filename_is_safe ''../x'' \<and>
    fst (snd (dbg_create_recovery_file nl' io 12 st)) = ''../x''"
  using assms
  by (auto simp: ol_add_filename_mapping_def ol_get_filename_for_inode_def dbg_create_recovery_file_def filename_is_safe_def Let_def)

text \<open>Every mode contains a bit of \<open>RECOVER_MODE_ALL\<close>, so the options choose nothing: all phases run.\<close>

definition one_mode :: "u32 \<Rightarrow> bool" where
  "one_mode m \<longleftrightarrow> m = RECOVER_MODE_JOURNAL \<or> m = RECOVER_MODE_ORPHAN \<or> m = RECOVER_MODE_AGGRESSIVE \<or> m = RECOVER_MODE_ALL"

lemma if_cases: "(if c then x else y) = r \<Longrightarrow> (x = r \<Longrightarrow> P) \<Longrightarrow> (y = r \<Longrightarrow> P) \<Longrightarrow> P"
  by (cases c) auto

lemma dbg_parse_step:
  assumes "dbg_parse_args (a # as) o1 = Run o2"
  shows "\<exists>as' o1'. length as' \<le> length as \<and> dbg_parse_args as' o1' = Run o2 \<and> (o_mode o1' = o_mode o1 \<or> one_mode (o_mode o1'))"
proof -
  have go: ?thesis if "dbg_parse_args as' o1' = Run o2" "length as' \<le> length as" "o_mode o1' = o_mode o1 \<or> one_mode (o_mode o1')" for as' o1'
    using that by blast
  have m: "one_mode RECOVER_MODE_JOURNAL" "one_mode RECOVER_MODE_ORPHAN" "one_mode RECOVER_MODE_AGGRESSIVE" "one_mode RECOVER_MODE_ALL"
    by (simp_all add: one_mode_def)
  have dir: ?thesis if "(case as of [] \<Rightarrow> Exit 1 | d # as' \<Rightarrow> dbg_parse_args as' (o1\<lparr>o_dir := take 255 d\<rparr>)) = Run o2"
  proof (cases as)
    case (Cons d as')
    then show ?thesis using that go [of as' "o1\<lparr>o_dir := take 255 d\<rparr>"] by simp
  qed (use that in simp)
  show ?thesis
    using assms unfolding dbg_parse_args.simps(2)
    by (elim if_cases) (fact dir | (erule go, simp, simp add: m) | simp)+
qed

lemma dbg_parse_mode: "dbg_parse_args as o1 = Run o2 \<Longrightarrow> one_mode (o_mode o1) \<Longrightarrow> one_mode (o_mode o2)"
proof (induction "length as" arbitrary: as o1 rule: less_induct)
  case less
  show ?case
  proof (cases as)
    case Nil
    then show ?thesis using less.prems by (simp split: if_splits)
  next
    case (Cons a as1)
    then obtain as' o1' where s: "length as' \<le> length as1" "dbg_parse_args as' o1' = Run o2" "o_mode o1' = o_mode o1 \<or> one_mode (o_mode o1')"
      using dbg_parse_step less.prems(1) by blast
    have "length as' < length as" using s(1) Cons by simp
    from less.hyps [OF this s(2)] s(3) less.prems(2) show ?thesis by auto
  qed
qed

lemma dbg_options_ignored:
  assumes "dbg_parse_args args default_options = Run o'"
  shows "dbg_phases (o_mode o') = (True, True, True, True)"
proof -
  have "one_mode (o_mode o')" using dbg_parse_mode [OF assms] by (simp add: one_mode_def default_options_def)
  then show ?thesis by (auto simp: one_mode_def dbg_phases_def mode_defs)
qed

section \<open>Properties\<close>

text \<open>Property C40: the draft of version 0.5 reads every address as a cluster number.  On a faithful device the recovery of an inode
  whose tree, read in this way, holds the extents \<open>es\<close> succeeds and writes exactly the blocks of the clusters of \<open>es\<close>; without
  the bigalloc feature these are the bytes of the file, as in the other versions.\<close>

theorem dbg_recover_exact:
  assumes "dbg_calm ci fs io dev" "io_extent_open io ino \<noteq> None"
    and "cluster_extents ci fs dev (unat (eh_depth (header_at (i_block inode)))) (i_block inode) = Some es"
    and "\<forall>e \<in> set es. cluster_on_device ci dev (vf_bs fs) e" and "o_files st fd = Some f"
  shows "\<exists>st'. dbg_recover_from_extent_tree ci fs io fd ino inode st = Done (True, st') \<and>
    o_files st' = (o_files st)(fd \<mapsto> foldl (cluster_copy ci dev (vf_bs fs)) f es) \<and>
    (\<not> has_bigalloc ci \<longrightarrow> foldl (cluster_copy ci dev (vf_bs fs)) f es = foldl (copy_extent dev (vf_bs fs)) f es)"
proof -
  have "edits fd (\<lambda>f. foldl (cluster_copy ci dev (vf_bs fs)) f es) st (dbg_recover_from_extent_tree ci fs io fd ino inode st)"
    using dbg_travel_edits [OF assms(1,3,4), of st fd] assms(2,5) unfolding dbg_recover_from_extent_tree_def by (simp only: if_False) simp
  moreover have "cluster_copy ci dev bs = copy_extent dev bs" if "\<not> has_bigalloc ci" for bs
    using that by (intro ext) (simp add: cluster_copy_def copy_extent_def ratio_def)
  ultimately show ?thesis using assms(5) by (auto simp: edits_def)
qed

text \<open>Clusters of two blocks: the extent of cluster 1 is read from blocks 2 and 3.\<close>

definition cluster_dev :: buffer where
  "cluster_dev = map of_nat [0..<96]"

definition cluster_io :: disk_io where
  "cluster_io = first_io\<lparr>io_read := \<lambda>c off n. Some (take n (drop off cluster_dev)), io_extent_open := \<lambda>_. Some (leaf_node 0 1 1)\<rparr>"

definition two_blocks :: cluster_info where
  "two_blocks = \<lparr>has_bigalloc = True, log_cluster_size = 1, cluster_ratio = 2\<rparr>"

theorem dbg_recover_exact_witness:
  "\<exists>st'. dbg_recover_from_extent_tree two_blocks small_fs cluster_io ''a'' 7 (tree_inode\<lparr>i_block := leaf_node 0 1 1\<rparr>)
      ((v_io small_ctx)\<lparr>o_files := [''a'' \<mapsto> []]\<rparr>) = Done (True, st') \<and> o_files st' ''a'' = Some (map of_nat [48..<96])"
proof -
  let ?st = "(v_io small_ctx)\<lparr>o_files := [''a'' \<mapsto> []]\<rparr>" and ?e = "\<lparr>ee_block = 0, ee_len = 1, ee_start_hi = 0, ee_start = 1\<rparr>"
  have bs: "vf_bs small_fs = 24" by (simp add: small_fs_def)
  have r: "ratio two_blocks = 2" by (simp add: ratio_def two_blocks_def)
  have len: "length cluster_dev = 96" by (simp add: cluster_dev_def)
  have "v4_faithful small_fs cluster_io cluster_dev"
    unfolding v4_faithful_def orig_faithful_def by (auto simp: cluster_io_def first_io_def small_fs_def len)
  then have calm: "dbg_calm two_blocks small_fs cluster_io cluster_dev"
    unfolding dbg_calm_def bs r by (simp add: cluster_io_def sub_buf_def)
  have h: "header_at (leaf_node 0 1 1) = \<lparr>eh_magic = 0xF30A, eh_entries = 1, eh_max = 1, eh_depth = 0\<rparr>" "extent_at (leaf_node 0 1 1) 0 = Some ?e"
    by (simp_all add: leaf_node_def header_at_def extent_at_def le16_at_def le32_at_def sub_buf_def)
  have ph: "ee_phys ?e = 1" by (simp add: ee_phys_def)
  have "v4_leaf_list small_fs (leaf_node 0 1 1) = Some [?e]"
    using h ph by (simp add: v4_leaf_list_def bs extents_at_def calculate_max_entries_def EXT4_EXT_MAGIC_def)
  then have ex: "cluster_extents two_blocks small_fs cluster_dev
      (unat (eh_depth (header_at (i_block (tree_inode\<lparr>i_block := leaf_node 0 1 1\<rparr>))))) (i_block (tree_inode\<lparr>i_block := leaf_node 0 1 1\<rparr>)) = Some [?e]"
    using h by simp
  have on: "\<forall>e \<in> set [?e]. cluster_on_device two_blocks cluster_dev (vf_bs small_fs) e"
    by (simp add: cluster_on_device_def ph r bs len)
  have "drop 48 [0..<96] = [48..<96]" by (simp add: drop_upt)
  then have "cluster_copy two_blocks cluster_dev 24 [] ?e = map of_nat [48..<96]"
    by (simp add: cluster_copy_def ph r file_write_def sub_buf_def cluster_dev_def drop_map)
  then show ?thesis
    using dbg_recover_exact [OF calm _ ex on, of 7 ?st "''a''" "[]"] by (auto simp: bs cluster_io_def)
qed

end
