(* ===== verification/Spec2Isabelle.thy ===== *)
theory Spec2Isabelle
  imports Main_Exact Scan_Wakeups Journal_Selection Version_Agreement Main4 Cluster_Recover Carving
begin

text \<open>
  Verification of \<^verbatim>\<open>ext4recover\<close>, a recovery tool for deleted files on ext4 file systems.

  \<^bold>\<open>The program.\<close>  The current version (\<^verbatim>\<open>improved/*_v5.c\<close> and the modules of \<^verbatim>\<open>improved/Makefile_v5\<close>) opens a device read-only
  and writes what it finds into a recovery directory.  Five phases share one context: the orphan list, the journal, the
  inode tables, a scan of the whole device for extent blocks, and a scan of the blocks that journal revoke records
  name.  All of them end in one routine that copies an extent into an output file and records its blocks, so that
  later phases skip what is already recovered.  The repository also keeps the first version of the tool, a printer for
  extent trees and a family of signature carvers under \<^verbatim>\<open>original/\<close>, and under \<^verbatim>\<open>improved/\<close> the two steps in between: the
  repaired first version (\<^verbatim>\<open>ext4recover.c\<close>) and version 0.4 (\<^verbatim>\<open>ext4recover_v2.c\<close> with its orphan list, device scan and journal),
  together with the modules that \<^verbatim>\<open>utils_v5.c\<close> replaced.

  \<^bold>\<open>Correspondence.\<close>  Each theory models the source files named here; its definitions have the names of the functions.
  \<^item> \<open>Prelude\<close>: C integers, byte order, buffers, half-interval search, \<open>memmove\<close>, decimal printing, the contract of \<open>qsort\<close>.
  \<^item> \<open>Intervals\<close> (\<^verbatim>\<open>recovered_intervals.c\<close>): the recorded blocks, refined to a set.
  \<^item> \<open>Extent_Format\<close> (\<^verbatim>\<open>extent_validator_v5.c\<close>, \<^verbatim>\<open>extent_validator.c\<close>): on-disk structures and their validation.
  \<^item> \<open>Open_Addressing\<close>, \<open>Filename_Map\<close>, \<open>Block_Set\<close> (\<^verbatim>\<open>utils_v5.c\<close>, \<^verbatim>\<open>aggressive_scan_v5.c\<close>): the two hash tables, both
    interpretations of one locale of linear probing, and the output names.
  \<^item> \<open>Fs_Caps\<close>, \<open>Journal_Index\<close>, \<open>Inode_Table\<close>, \<open>Journal_Versions\<close>, \<open>Journal_Inode\<close>, \<open>Journal_Scan\<close>
    (\<^verbatim>\<open>fs_capabilities.c\<close>, \<^verbatim>\<open>journal_index.c\<close>, \<^verbatim>\<open>journal_recovery_v5.c\<close>): the journal phase.  \<open>Journal_Versions\<close> holds the table of
    recovered versions and what its guards select; \<open>Journal_Selection\<close> computes the operations of a scan from the
    transactions and derives which copy of an inode is kept.
  \<^item> \<open>Recover_IO\<close>, \<open>Leaf_Copy\<close>, \<open>Extent_Tree\<close> (\<^verbatim>\<open>ext4recover_v5.c\<close>): the context, the extent copy, the walk of an inode's tree.
  \<^item> \<open>Aggressive_Scan\<close>, \<open>Parallel_Scan\<close> (\<^verbatim>\<open>aggressive_scan_v5.c\<close>, \<^verbatim>\<open>parallel_scan.c\<close>): the full-disk scan, serial and with reader,
    workers and writer as a step relation.  \<open>Scan_Wakeups\<close> refines the relation by the condition variables: wait sets, broadcasts
    and spurious wake-ups.
  \<^item> \<open>Orphans\<close>, \<open>Revoke_Scan\<close>, \<open>Dirents\<close>, \<open>Indirect_Files\<close> (\<^verbatim>\<open>orphan_recovery_v5.c\<close>, \<^verbatim>\<open>orphan_file.c\<close>, \<^verbatim>\<open>revoke_scan.c\<close>,
    \<^verbatim>\<open>ghost_dirent.c\<close>, \<^verbatim>\<open>inline_data.c\<close>, \<^verbatim>\<open>indirect_recovery.c\<close>).
  \<^item> \<open>Checkpoint\<close>, \<open>Recovery_Manifest\<close>, \<open>Main_Driver\<close> (\<^verbatim>\<open>utils_v5.c\<close>, \<^verbatim>\<open>content_probe.c\<close>, \<^verbatim>\<open>ext4recover_v5.c\<close>): the run as a whole.
  \<^item> \<open>Main_Exact\<close>: the set-up and the phases composed; the run with \<^verbatim>\<open>--normal\<close> on an empty directory as a whole.  The locale
    \<open>name_frame\<close> of \<open>Dirents\<close> states that the directory scans act through \<open>add_name\<close> alone; its two interpretations give the frame and
    the invariant of the name table.
  \<^item> \<open>Carving\<close>, \<open>Ext_Scan\<close>, \<open>Original_Recover\<close> (\<^verbatim>\<open>original/src/*.c\<close>, \<^verbatim>\<open>original/ext4/ext_scan.c\<close>): the older tools.
  \<^item> \<open>Disk_Copy\<close>, \<open>Version_Agreement\<close>: the bytes an extent list denotes, and the first and the current version compared.
  \<^item> \<open>Fixed_Recover\<close> (\<^verbatim>\<open>improved/ext4recover.c\<close>): the repaired first version.  Its tree walk is parametrised by the test of a
    child and by the treatment of the last pointer; the locale \<open>tree_reader\<close> states what a walk needs of its block copy,
    and is interpreted here and for version 0.4.
  \<^item> \<open>Version4\<close>, \<open>Journal4\<close>, \<open>Main4\<close> (\<^verbatim>\<open>ext4recover_v2.c\<close>, \<^verbatim>\<open>orphan_recovery.c\<close>, \<^verbatim>\<open>aggressive_scan.c\<close>, \<^verbatim>\<open>journal_recovery.c\<close>,
    \<^verbatim>\<open>ext4_common.h\<close>): version 0.4, its phases and its main program.
  \<^item> \<open>Older_Modules\<close> (\<^verbatim>\<open>filename_recovery.c\<close>, \<^verbatim>\<open>bigalloc_support.c\<close>, \<^verbatim>\<open>checkpoint.c\<close>): what \<^verbatim>\<open>utils_v5.c\<close> replaced.  The locale
    \<open>name_table\<close> is the contract of a filename map, interpreted on the array and on the hash table.  \<open>Cluster_Recover\<close>
    (\<^verbatim>\<open>ext4recover_v5_debug.c\<close>): the draft of version 0.5 that used these modules, which takes all addresses for cluster numbers.

  \<^bold>\<open>State and effects.\<close>  The context is a record, the output directory a map from names to contents, an open
  descriptor the name of its file.  System calls, the allocator and libext2fs are a record of functions
  (\<open>env\<close>, \<open>disk_io\<close>): short transfers, failures and exhausted memory are among their values.  A theorem about exact results assumes
  \<open>dev_faithful\<close>, \<open>out_faithful\<close> or \<open>orig_faithful\<close>: transfers may be short but make progress and deliver the bytes of the device.  A
  theorem about safety makes no such assumption.  An access outside a buffer is the value \<open>None\<close> or \<open>Undefined\<close>.

  \<^bold>\<open>What is shown.\<close>  A run with \<^verbatim>\<open>--normal\<close> on an empty directory ends with status 0 and leaves exactly one file, with exactly its bytes and
  a name of its own, for every deleted inode that is intact.  Exactness of every recovery path on intact metadata, for files of the older block-map format as far as double
  indirect blocks reach and without holes; that a run without the journal phase leaves outputs that hold data alone, except the manifest, the
  checkpoint and, in the aggressive and targeted phases, \<open>aggressive_\<dots>\<close> files; that recovered names do not leave the
  directory; the refinement of the data structures to sets and maps; that the parallel
  scan computes what the serial one does under every interleaving, and that no wake-up is lost, so that it ends; which copy of an inode
  the journal phase keeps, whatever the single recoveries return; that every tag of a journal is indexed; that the journal scan has a result on any
  bytes unless a copy without extents, or with index nodes, is among them, and has none when a copy without extents reaches its faulty call; round
  trips for checkpoints, inode numbers and carved databases;
  termination of the chain walks on every disk; and the inputs on which the code leaves its buffers or does not end.  Of the earlier
  versions: the repaired one ends on devices whose checked blocks hold their entries and whose depths fall along the tree, whatever system calls
  fail, and recovers an intact file next to inodes whose trees are lost; version 0.4 never
  shortens an output, its tree walk, device scan and journal recovery are exact, and it numbers inodes as the
  current version does, but misreads the tags of a journal with tag checksums; the filename array and the hash table that
  replaced it are interchangeable.

  \<^bold>\<open>Bounds and fuel.\<close>  Loops of the current version are total functions with a measure.  The older tools retry and descend without
  a bound; there the fuel counts iterations, \<open>Running\<close> is the value when it is used up, and the theorems give the amount
  that suffices: more than the bytes of a block for a copy loop, more than the depth of the tree for a descent (five levels where depths
  fall).
  Block numbers times the block size are natural numbers where a device of less than 2^63 bytes rules out overflow.

  \<^bold>\<open>Not modelled.\<close>  The unsynchronised accesses of the parallel scan are single steps; counters of recovered blocks are
  unbounded, and the doubling of a table's capacity does not overflow.  Left out are log and usage texts; \<open>byte_entropy\<close>, which computes with \<open>double\<close> and is a parameter of the manifest; the truncation
  of overlong paths by \<open>snprintf\<close>; \<^verbatim>\<open>main\<close> of \<^verbatim>\<open>ext4recover_v5_debug.c\<close> beyond its options and phase conditions, because two of
  its string literals contain line breaks, so that it is not C, and its modules do not link; tests and scripts.
\<close>

end
